(* ===== verification/Prelude.thy ===== *)
theory Prelude
  imports Complex_Main
begin

text \<open>
  Shared vocabulary of the development: Go's clock and integer arithmetic, results with
  errors as values, generic lemmas on lists and maps, and the interface of a component
  whose operations keep an invariant.

  Times are nanoseconds since the Unix epoch and durations are nanoseconds, both as
  unbounded integers; Go's \<open>time.Time\<close> zero value is \<open>zero_time\<close>.  An
  \<open>int64\<close> sum or product that the code may overflow is passed through
  \<open>wrap64\<close>, and \<open>Time.Sub\<close>, which saturates, through \<open>clamp64\<close>.
\<close>

named_theorems machine_simps \<open>facts of the machine integers and of the clock\<close>

type_synonym time = int
type_synonym duration = int

abbreviation (input) msec :: int where "msec \<equiv> 1000000"
abbreviation (input) seconds :: int where "seconds \<equiv> 1000000000"
abbreviation (input) minutes :: int where "minutes \<equiv> 60000000000"
abbreviation (input) hours :: int where "hours \<equiv> 3600000000000"

section \<open>Machine integers\<close>

abbreviation (input) int64_min :: int where "int64_min \<equiv> -9223372036854775808"
abbreviation (input) int64_max :: int where "int64_max \<equiv> 9223372036854775807"

text \<open>Two's complement wrap-around of an \<open>int64\<close> operation.\<close>

definition wrap64 :: "int \<Rightarrow> int" where
  "wrap64 x = (x + 9223372036854775808) mod 18446744073709551616 - 9223372036854775808"

lemma wrap64_id [machine_simps]: "int64_min \<le> x \<Longrightarrow> x \<le> int64_max \<Longrightarrow> wrap64 x = x"
  unfolding wrap64_def by (subst mod_pos_pos_trivial) auto

lemma wrap64_lower: "int64_min \<le> wrap64 x"
  unfolding wrap64_def by (simp add: pos_mod_sign)

lemma wrap64_upper: "wrap64 x \<le> int64_max"
proof -
  have "(x + 9223372036854775808) mod 18446744073709551616 < 18446744073709551616"
    by (rule pos_mod_bound) simp
  then show ?thesis unfolding wrap64_def by simp
qed

lemma wrap64_idem [simp]: "wrap64 (wrap64 x) = wrap64 x"
  by (rule wrap64_id [OF wrap64_lower wrap64_upper])

lemma wrap64_over: "int64_max < x \<Longrightarrow> x \<le> 27670116110564327423 \<Longrightarrow> wrap64 x = x - 18446744073709551616"
proof -
  assume a: "int64_max < x" "x \<le> 27670116110564327423"
  have "(x + 9223372036854775808) mod 18446744073709551616
      = (x + 9223372036854775808 - 18446744073709551616) mod 18446744073709551616"
    by (metis minus_mod_self2)
  also have "\<dots> = x + 9223372036854775808 - 18446744073709551616"
    using a by (intro mod_pos_pos_trivial) auto
  finally show ?thesis by (simp add: wrap64_def)
qed

text \<open>Go's \<open>%\<close> and \<open>/\<close> truncate towards zero.\<close>

definition go_div :: "int \<Rightarrow> int \<Rightarrow> int" where
  "go_div a b = sgn a * sgn b * (\<bar>a\<bar> div \<bar>b\<bar>)"

definition go_rem :: "int \<Rightarrow> int \<Rightarrow> int" where
  "go_rem a b = sgn a * (\<bar>a\<bar> mod \<bar>b\<bar>)"

lemma go_rem_nonneg [machine_simps]: "0 \<le> a \<Longrightarrow> 0 < b \<Longrightarrow> go_rem a b = a mod b"
  by (cases "a = 0") (auto simp: go_rem_def)

lemma go_div_nonneg [machine_simps]: "0 \<le> a \<Longrightarrow> 0 < b \<Longrightarrow> go_div a b = a div b"
  by (cases "a = 0") (auto simp: go_div_def)

lemma go_rem_zero_iff: "0 < b \<Longrightarrow> go_rem a b = 0 \<longleftrightarrow> b dvd a"
  by (auto simp: go_rem_def sgn_if dvd_eq_mod_eq_0 [symmetric])

section \<open>The clock\<close>

text \<open>\<open>time.Time{}\<close> is 1 January of year 1; its distance to any other instant saturates.\<close>

definition zero_time :: time where "zero_time = -62135596800000000000"

definition clamp64 :: "int \<Rightarrow> int" where
  "clamp64 x = max int64_min (min int64_max x)"

definition time_sub :: "time \<Rightarrow> time \<Rightarrow> duration" where
  "time_sub t u = clamp64 (t - u)"

lemma clamp64_id [machine_simps]: "int64_min \<le> x \<Longrightarrow> x \<le> int64_max \<Longrightarrow> clamp64 x = x"
  by (simp add: clamp64_def)

lemma clamp64_less_iff: "int64_min < d \<Longrightarrow> d \<le> int64_max \<Longrightarrow> clamp64 x < d \<longleftrightarrow> x < d"
  by (auto simp: clamp64_def)

lemma clamp64_le_iff: "int64_min \<le> d \<Longrightarrow> d < int64_max \<Longrightarrow> clamp64 x \<le> d \<longleftrightarrow> x \<le> d"
  by (auto simp: clamp64_def)

lemma time_sub_less: "int64_min < d \<Longrightarrow> d \<le> int64_max \<Longrightarrow> time_sub t u < d \<longleftrightarrow> t - u < d"
  by (simp add: time_sub_def clamp64_less_iff)

lemma time_sub_le: "int64_min \<le> d \<Longrightarrow> d < int64_max \<Longrightarrow> time_sub t u \<le> d \<longleftrightarrow> t - u \<le> d"
  by (simp add: time_sub_def clamp64_le_iff)

section \<open>Lists and maps\<close>

lemma filter_all_id: "list_all P xs \<Longrightarrow> filter P xs = xs"
  by (induction xs) auto

lemma list_all_filter [intro]: "list_all P xs \<Longrightarrow> list_all P (filter Q xs)"
  by (simp add: list_all_iff)

lemma find_SomeD: "List.find P xs = Some x \<Longrightarrow> x \<in> set xs \<and> P x"
  by (induction xs) (auto split: if_splits)

lemma foldl_snoc: "foldl f s (xs @ [x]) = f (foldl f s xs) x"
  by simp

lemma distinct_map_filter_id: "distinct (map f xs) \<Longrightarrow> distinct (map f (filter P xs))"
  by (induction xs) auto

lemma distinct_length_filter_one:
  "distinct (map f xs) \<Longrightarrow> x \<in> set xs \<Longrightarrow> length (filter (\<lambda>y. f y = f x) xs) = 1"
proof (induction xs)
  case (Cons a xs)
  show ?case
  proof (cases "f a = f x")
    case True
    then have "filter (\<lambda>y. f y = f x) xs = []"
      using Cons.prems(1) by (auto simp: filter_empty_conv) (metis image_eqI)
    then show ?thesis using True by simp
  next
    case False
    then show ?thesis using Cons by auto
  qed
qed simp

lemma length_filter_mono: "(\<And>x. x \<in> set xs \<Longrightarrow> P x \<Longrightarrow> Q x) \<Longrightarrow> length (filter P xs) \<le> length (filter Q xs)"
  by (induction xs) auto

lemma length_filter_update:
  "i < length xs \<Longrightarrow> int (length (filter P (xs[i := x]))) =
     int (length (filter P xs)) - (if P (xs ! i) then 1 else 0) + (if P x then 1 else 0)"
proof (induction xs arbitrary: i)
  case (Cons y ys)
  show ?case
  proof (cases i)
    case (Suc j)
    then have "int (length (filter P (ys[j := x]))) =
        int (length (filter P ys)) - (if P (ys ! j) then 1 else 0) + (if P x then 1 else 0)"
      using Cons by simp
    then show ?thesis using Suc by (auto split: if_splits)
  qed simp
qed simp

section \<open>Operations that keep an invariant\<close>

text \<open>
  The interface several components share: a state, an operation applied to it, and a
  condition on the operation under which the invariant survives it.  What holds of one
  operation then holds of every run.
\<close>

locale guarded_machine =
  fixes step :: "'s \<Rightarrow> 'op \<Rightarrow> 's"
    and inv :: "'s \<Rightarrow> bool"
    and ok :: "'op \<Rightarrow> bool"
  assumes step_inv: "inv s \<Longrightarrow> ok x \<Longrightarrow> inv (step s x)"
begin

lemma run_inv: "inv s \<Longrightarrow> list_all ok xs \<Longrightarrow> inv (foldl step s xs)"
  by (induction xs arbitrary: s) (auto simp: step_inv)

lemma run_inv_prefix: "inv s \<Longrightarrow> list_all ok xs \<Longrightarrow> inv (foldl step s (take n xs))"
  by (rule run_inv) (auto simp: list_all_iff dest: in_set_takeD)

end

end
