(* ===== verification/GoStrings.thy ===== *)
theory GoStrings
  imports Prelude
begin

text \<open>
  The parts of Go's \<open>strings\<close> and \<open>strconv\<close> the program uses, on byte strings:
  trimming, prefixes, splitting, ASCII case, and base-ten 64-bit integers.  Only ASCII white
  space and letters are treated; the code's other Unicode classes are not modelled.
\<close>

section \<open>Trimming, prefixes, case\<close>

definition is_space :: "char \<Rightarrow> bool" where
  "is_space c \<longleftrightarrow> (let n = (of_char c :: nat) in n = 32 \<or> (9 \<le> n \<and> n \<le> 13))"

definition trim_space :: "string \<Rightarrow> string" where
  "trim_space s = rev (dropWhile is_space (rev (dropWhile is_space s)))"

definition has_prefix :: "string \<Rightarrow> string \<Rightarrow> bool" where
  "has_prefix s p \<longleftrightarrow> take (length p) s = p"

definition has_suffix :: "string \<Rightarrow> string \<Rightarrow> bool" where
  "has_suffix s p \<longleftrightarrow> length p \<le> length s \<and> drop (length s - length p) s = p"

fun contains_sub :: "string \<Rightarrow> string \<Rightarrow> bool" where
  "contains_sub [] p = (p = [])"
| "contains_sub (c # s) p = (has_prefix (c # s) p \<or> contains_sub s p)"

definition upper_char :: "char \<Rightarrow> char" where
  "upper_char c = (let n = (of_char c :: nat) in if 97 \<le> n \<and> n \<le> 122 then char_of (n - 32) else c)"

definition lower_char :: "char \<Rightarrow> char" where
  "lower_char c = (let n = (of_char c :: nat) in if 65 \<le> n \<and> n \<le> 90 then char_of (n + 32) else c)"

definition to_upper :: "string \<Rightarrow> string" where "to_upper s = map upper_char s"
definition to_lower :: "string \<Rightarrow> string" where "to_lower s = map lower_char s"

text \<open>\<open>strings.FieldsFunc\<close>: maximal runs of characters outside the class.\<close>

fun fields_func :: "(char \<Rightarrow> bool) \<Rightarrow> string \<Rightarrow> string \<Rightarrow> string list" where
  "fields_func f acc [] = (if acc = [] then [] else [rev acc])"
| "fields_func f acc (c # s) =
     (if f c then (if acc = [] then fields_func f [] s else rev acc # fields_func f [] s)
      else fields_func f (c # acc) s)"

definition fields :: "string \<Rightarrow> string list" where "fields s = fields_func is_space [] s"

text \<open>\<open>strings.Split\<close> on a one-character separator.\<close>

fun split_on :: "char \<Rightarrow> string \<Rightarrow> string list" where
  "split_on d [] = [[]]"
| "split_on d (c # s) =
     (if c = d then [] # split_on d s
      else case split_on d s of w # ws \<Rightarrow> (c # w) # ws | [] \<Rightarrow> [[c]])"

text \<open>\<open>strings.Cut\<close> and the last occurrence of a character.\<close>

definition cut :: "char \<Rightarrow> string \<Rightarrow> string \<times> string \<times> bool" where
  "cut d s = (takeWhile (\<lambda>c. c \<noteq> d) s, drop (Suc (length (takeWhile (\<lambda>c. c \<noteq> d) s))) s, d \<in> set s)"

definition last_index :: "char \<Rightarrow> string \<Rightarrow> int" where
  "last_index d s = (if d \<in> set s
     then int (length s) - 1 - int (length (takeWhile (\<lambda>c. c \<noteq> d) (rev s))) else -1)"

lemma dropWhile_none: "list_all (\<lambda>c. \<not> P c) s \<Longrightarrow> dropWhile P s = s"
  by (cases s) auto

lemma trim_space_id: "list_all (\<lambda>c. \<not> is_space c) s \<Longrightarrow> trim_space s = s"
  by (simp add: trim_space_def dropWhile_none list.pred_set)

text \<open>\<open>strings.Join\<close> with single spaces.\<close>

fun join_words :: "string list \<Rightarrow> string" where
  "join_words [] = []"
| "join_words [w] = w"
| "join_words (w # ws) = w @ '' '' @ join_words ws"

lemma fields_func_word:
  "list_all (\<lambda>c. \<not> f c) w \<Longrightarrow> fields_func f acc (w @ s) = fields_func f (rev w @ acc) s"
  by (induction w arbitrary: acc) auto

lemma fields_func_words:
  "list_all (\<lambda>c. \<not> f c) acc \<Longrightarrow> x \<in> set (fields_func f acc s) \<Longrightarrow> x \<noteq> [] \<and> list_all (\<lambda>c. \<not> f c) x"
proof (induction s arbitrary: acc)
  case (Cons c s)
  show ?case
  proof (cases "f c")
    case True
    then have "x \<in> set (fields_func f [] s) \<or> acc \<noteq> [] \<and> x = rev acc"
      using Cons.prems(2) by (auto split: if_splits)
    then show ?thesis using Cons.IH [of "[]"] Cons.prems(1) by auto
  next
    case False
    then show ?thesis using Cons.IH [of "c # acc"] Cons.prems by simp
  qed
qed (auto split: if_splits)

lemma fields_words: "x \<in> set (fields s) \<Longrightarrow> x \<noteq> [] \<and> list_all (\<lambda>c. \<not> is_space c) x"
  unfolding fields_def by (rule fields_func_words [of is_space "[]"]) simp_all

lemma fields_join_words:
  "list_all (\<lambda>w. w \<noteq> [] \<and> list_all (\<lambda>c. \<not> is_space c) w) ws \<Longrightarrow> fields (join_words ws) = ws"
proof (induction ws rule: join_words.induct)
  case (2 w)
  then show ?case using fields_func_word [of is_space w "[]" "[]"] by (simp add: fields_def)
next
  case (3 w v ws)
  have "fields_func is_space (rev w) ('' '' @ join_words (v # ws)) = w # fields_func is_space [] (join_words (v # ws))"
    using 3 by (simp add: is_space_def)
  then show ?case using 3 fields_func_word [of is_space w "[]" "'' '' @ join_words (v # ws)"]
    by (simp add: fields_def)
qed (simp add: fields_def)

lemma fields_normalised [simp]: "fields (join_words (fields s)) = fields s"
  by (rule fields_join_words) (simp add: list_all_iff fields_words [unfolded list_all_iff])

section \<open>Decimal integers\<close>

definition digit_char :: "nat \<Rightarrow> char" where "digit_char d = char_of (48 + d)"

definition digit_val :: "char \<Rightarrow> nat option" where
  "digit_val c = (let n = (of_char c :: nat) in if 48 \<le> n \<and> n \<le> 57 then Some (n - 48) else None)"

fun nat_str :: "nat \<Rightarrow> string" where
  "nat_str n = (if n < 10 then [digit_char n] else nat_str (n div 10) @ [digit_char (n mod 10)])"

declare nat_str.simps [simp del]

text \<open>\<open>strconv.Itoa\<close> and \<open>%d\<close>.\<close>

definition itoa :: "int \<Rightarrow> string" where
  "itoa i = (if i < 0 then CHR ''-'' # nat_str (nat (- i)) else nat_str (nat i))"

fun parse_digits :: "nat \<Rightarrow> string \<Rightarrow> nat option" where
  "parse_digits acc [] = Some acc"
| "parse_digits acc (c # s) =
     (case digit_val c of None \<Rightarrow> None | Some d \<Rightarrow> parse_digits (acc * 10 + d) s)"

text \<open>\<open>strconv.ParseInt(s, 10, 64)\<close> and \<open>strconv.Atoi\<close>: an optional sign, at least one digit,
  and the value in range.\<close>

definition parse_int :: "string \<Rightarrow> int option" where
  "parse_int s =
     (let neg = (s \<noteq> [] \<and> hd s = CHR ''-'');
          body = (if s \<noteq> [] \<and> (hd s = CHR ''-'' \<or> hd s = CHR ''+'') then tl s else s)
      in if body = [] then None
         else case parse_digits 0 body of
           None \<Rightarrow> None
         | Some n \<Rightarrow>
             (let i = (if neg then - int n else int n)
              in if int64_min \<le> i \<and> i \<le> int64_max then Some i else None))"

lemma digit_char_val: "d < 10 \<Longrightarrow> digit_val (digit_char d) = Some d"
  by (simp add: digit_val_def digit_char_def Let_def)

lemma digit_char_range: "d < 10 \<Longrightarrow> of_char (digit_char d) = 48 + d"
  by (simp add: digit_char_def)

lemma nat_str_nonempty [simp]: "nat_str n \<noteq> []"
  by (subst nat_str.simps) simp

lemma nat_str_digits: "c \<in> set (nat_str n) \<Longrightarrow> \<exists>d<10. c = digit_char d"
proof (induction n rule: nat_str.induct)
  case (1 n)
  then show ?case
    using mod_less_divisor [of 10 n]
    by (subst (asm) (2) nat_str.simps) (fastforce split: if_splits)
qed

lemma digit_not_special:
  "d < 10 \<Longrightarrow> digit_char d \<noteq> CHR ''-'' \<and> digit_char d \<noteq> CHR ''+'' \<and> \<not> is_space (digit_char d)"
proof -
  assume "d < 10"
  then have n: "(of_char (digit_char d) :: nat) = 48 + d" by (rule digit_char_range)
  have "digit_char d \<noteq> CHR ''-''"
  proof
    assume "digit_char d = CHR ''-''"
    then have "(of_char (digit_char d) :: nat) = 45" by simp
    then show False using n by simp
  qed
  moreover have "digit_char d \<noteq> CHR ''+''"
  proof
    assume "digit_char d = CHR ''+''"
    then have "(of_char (digit_char d) :: nat) = 43" by simp
    then show False using n by simp
  qed
  ultimately show ?thesis using n by (simp add: is_space_def)
qed

lemma nat_str_chars:
  "c \<in> set (nat_str n) \<Longrightarrow> c \<noteq> CHR ''-'' \<and> c \<noteq> CHR ''+'' \<and> \<not> is_space c"
proof -
  assume "c \<in> set (nat_str n)"
  then obtain d where "d < 10" "c = digit_char d" using nat_str_digits by blast
  then show ?thesis using digit_not_special [of d] by (simp only: simp_thms)
qed

lemma parse_digits_append:
  "parse_digits acc (s @ t) = (case parse_digits acc s of None \<Rightarrow> None | Some a \<Rightarrow> parse_digits a t)"
  by (induction s arbitrary: acc) (auto split: option.splits)

lemma parse_digits_nat_str: "parse_digits 0 (nat_str n) = Some n"
proof (induction n rule: nat_str.induct)
  case (1 n)
  show ?case
  proof (cases "n < 10")
    case True
    then show ?thesis by (subst nat_str.simps) (simp add: digit_char_val)
  next
    case False
    then show ?thesis
      by (subst nat_str.simps) (simp add: parse_digits_append 1 digit_char_val)
  qed
qed

lemma parse_int_itoa: "int64_min \<le> i \<Longrightarrow> i \<le> int64_max \<Longrightarrow> parse_int (itoa i) = Some i"
proof -
  assume r: "int64_min \<le> i" "i \<le> int64_max"
  have hd: "hd (nat_str n) \<noteq> CHR ''-'' \<and> hd (nat_str n) \<noteq> CHR ''+''" for n
    using nat_str_chars [of "hd (nat_str n)" n] by simp
  show ?thesis
    using r hd by (auto simp: parse_int_def itoa_def parse_digits_nat_str Let_def)
qed

lemma itoa_not_space: "list_all (\<lambda>c. \<not> is_space c) (itoa i)"
  using nat_str_chars by (auto simp: itoa_def list_all_iff is_space_def Let_def)

lemma itoa_no_dash: "0 \<le> i \<Longrightarrow> CHR ''-'' \<notin> set (itoa i)"
  using nat_str_chars by (auto simp: itoa_def)

section \<open>Base 64\<close>

text \<open>\<open>base64.StdEncoding\<close>: padded, line breaks ignored on input.\<close>

definition b64_char :: "nat \<Rightarrow> char" where
  "b64_char n = (if n < 26 then char_of (65 + n) else if n < 52 then char_of (97 + (n - 26))
     else if n < 62 then char_of (48 + (n - 52)) else if n = 62 then CHR ''+'' else CHR ''/'')"

definition b64_val :: "char \<Rightarrow> nat option" where
  "b64_val c = (let n = (of_char c :: nat) in
     if 65 \<le> n \<and> n \<le> 90 then Some (n - 65)
     else if 97 \<le> n \<and> n \<le> 122 then Some (n - 97 + 26)
     else if 48 \<le> n \<and> n \<le> 57 then Some (n - 48 + 52)
     else if c = CHR ''+'' then Some 62 else if c = CHR ''/'' then Some 63 else None)"

definition b64_quad :: "nat \<Rightarrow> nat \<Rightarrow> nat \<Rightarrow> nat \<Rightarrow> char list" where
  "b64_quad a b c d = [char_of (a * 4 + b div 16), char_of ((b mod 16) * 16 + c div 4),
     char_of ((c mod 4) * 64 + d)]"

fun b64_groups :: "string \<Rightarrow> string option" where
  "b64_groups [] = Some []"
| "b64_groups (a # b # c # d # rest) =
     (case (b64_val a, b64_val b) of
        (Some va, Some vb) \<Rightarrow>
          (if d = CHR ''='' then
             (if rest \<noteq> [] then None
              else if c = CHR ''='' then Some (take 1 (b64_quad va vb 0 0))
              else case b64_val c of None \<Rightarrow> None | Some vc \<Rightarrow> Some (take 2 (b64_quad va vb vc 0)))
           else case (b64_val c, b64_val d) of
             (Some vc, Some vd) \<Rightarrow> map_option (\<lambda>r. b64_quad va vb vc vd @ r) (b64_groups rest)
           | _ \<Rightarrow> None)
      | _ \<Rightarrow> None)"
| "b64_groups _ = None"

definition b64_decode :: "string \<Rightarrow> string option" where
  "b64_decode s = b64_groups (filter (\<lambda>c. (of_char c :: nat) \<noteq> 10 \<and> (of_char c :: nat) \<noteq> 13) s)"

text \<open>\<open>EncodeToString\<close>: three bytes become four characters, the last group is padded.\<close>

definition byte_of :: "char \<Rightarrow> nat" where "byte_of c = of_char c"

fun b64_encode :: "string \<Rightarrow> string" where
  "b64_encode [] = []"
| "b64_encode [a] = [b64_char (byte_of a div 4), b64_char (byte_of a mod 4 * 16), CHR ''='', CHR ''='']"
| "b64_encode [a, b] = [b64_char (byte_of a div 4), b64_char (byte_of a mod 4 * 16 + byte_of b div 16),
     b64_char (byte_of b mod 16 * 4), CHR ''='']"
| "b64_encode (a # b # c # rest) = b64_char (byte_of a div 4) # b64_char (byte_of a mod 4 * 16 + byte_of b div 16)
     # b64_char (byte_of b mod 16 * 4 + byte_of c div 64) # b64_char (byte_of c mod 64) # b64_encode rest"

lemma b64_char_code:
  "n < 64 \<Longrightarrow> byte_of (b64_char n) = (if n < 26 then 65 + n else if n < 52 then 71 + n else if n < 62 then n - 4
     else if n = 62 then 43 else 47)"
  by (auto simp: b64_char_def byte_of_def)

lemma char_eq_byte: "c = d \<longleftrightarrow> byte_of c = byte_of d"
  by (auto simp: byte_of_def)

lemma b64_val_code:
  "b64_val c = (if 65 \<le> byte_of c \<and> byte_of c \<le> 90 then Some (byte_of c - 65)
     else if 97 \<le> byte_of c \<and> byte_of c \<le> 122 then Some (byte_of c - 97 + 26)
     else if 48 \<le> byte_of c \<and> byte_of c \<le> 57 then Some (byte_of c - 48 + 52)
     else if byte_of c = 43 then Some 62 else if byte_of c = 47 then Some 63 else None)"
proof -
  have "byte_of CHR ''+'' = 43" "byte_of CHR ''/'' = 47" by (simp_all add: byte_of_def)
  then show ?thesis by (simp only: b64_val_def Let_def byte_of_def [symmetric] char_eq_byte)
qed

lemma b64_char_facts [simp]:
  assumes "n < 64"
  shows "b64_val (b64_char n) = Some n" "b64_char n \<noteq> CHR ''=''"
    "(of_char (b64_char n) :: nat) \<noteq> 10" "(of_char (b64_char n) :: nat) \<noteq> 13"
proof -
  consider "n < 26" | "26 \<le> n" "n < 52" | "52 \<le> n" "n < 62" | "n = 62" | "n = 63"
    using assms by linarith
  then have "b64_val (b64_char n) = Some n \<and> byte_of (b64_char n) \<noteq> 61 \<and> byte_of (b64_char n) \<noteq> 10 \<and> byte_of (b64_char n) \<noteq> 13"
    by cases (simp_all add: b64_val_code b64_char_code, arith?)
  moreover have "byte_of CHR ''='' = 61" by (simp add: byte_of_def)
  ultimately show "b64_val (b64_char n) = Some n" "b64_char n \<noteq> CHR ''=''"
    "(of_char (b64_char n) :: nat) \<noteq> 10" "(of_char (b64_char n) :: nat) \<noteq> 13"
    by (auto simp: byte_of_def)
qed

lemma byte_less [simp]: "byte_of a < 256"
  by (simp add: byte_of_def)

lemma byte_quot [simp]: "byte_of a div 4 < 64" "byte_of b div 16 < 16" "byte_of c div 64 < 4"
  by (simp_all add: less_mult_imp_div_less)

lemma byte_bounds [simp]: "byte_of a mod 4 * 16 < 64" "byte_of a mod 4 * 16 + byte_of b div 16 < 64"
    "byte_of b mod 16 * 4 < 64" "byte_of b mod 16 * 4 + byte_of c div 64 < 64"
proof -
  have m: "byte_of a mod 4 < 4" "byte_of b mod 16 < 16" by simp_all
  then show "byte_of a mod 4 * 16 < 64" "byte_of b mod 16 * 4 < 64" by linarith+
  show "byte_of a mod 4 * 16 + byte_of b div 16 < 64" using m byte_quot(2) [of b] by linarith
  show "byte_of b mod 16 * 4 + byte_of c div 64 < 64" using m byte_quot(3) [of c] by linarith
qed

lemma char_of_byte [simp]: "char_of (byte_of a) = a"
  by (simp add: byte_of_def)

lemma b64_join: "x < 16 \<Longrightarrow> a div 4 * 4 + (a mod 4 * 16 + x) div 16 = (a::nat)"
  by (simp add: div_mult_self3)

lemma b64_join2:
  assumes "x < 4" "b < 256"
  shows "(a mod 4 * 16 + b div 16) mod 16 * 16 + (b mod 16 * 4 + x) div 4 = (b::nat)"
proof -
  have "b div 16 < 16" using assms(2) by (simp add: less_mult_imp_div_less)
  then have "(a mod 4 * 16 + b div 16) mod 16 = b div 16" by simp
  moreover have "(b mod 16 * 4 + x) div 4 = b mod 16" using assms(1) by simp
  ultimately show ?thesis by simp
qed

lemma b64_join3:
  assumes "c < 256"
  shows "(b mod 16 * 4 + c div 64) mod 4 * 64 + c mod 64 = (c::nat)"
proof -
  have "c div 64 < 4" using assms by (simp add: less_mult_imp_div_less)
  then have "(b mod 16 * 4 + c div 64) mod 4 = c div 64" by simp
  then show ?thesis by simp
qed

lemma b64_encode_kept: "filter (\<lambda>c. (of_char c :: nat) \<noteq> 10 \<and> (of_char c :: nat) \<noteq> 13) (b64_encode s) = b64_encode s"
  by (induction s rule: b64_encode.induct) simp_all

lemma b64_quad_join:
  "b64_quad (byte_of a div 4) (byte_of a mod 4 * 16 + byte_of b div 16) (byte_of b mod 16 * 4 + byte_of c div 64) d
     = [a, b, char_of ((byte_of b mod 16 * 4 + byte_of c div 64) mod 4 * 64 + d)]"
  unfolding b64_quad_def b64_join [OF byte_quot(2)] b64_join2 [OF byte_quot(3) byte_less] by simp

lemma b64_quad_short:
  "take 1 (b64_quad (byte_of a div 4) (byte_of a mod 4 * 16) 0 0) = [a]"
  "take 2 (b64_quad (byte_of a div 4) (byte_of a mod 4 * 16 + byte_of b div 16) (byte_of b mod 16 * 4) 0) = [a, b]"
  using b64_join [of 0 "byte_of a"] b64_join2 [of 0 "byte_of b" "byte_of a"] b64_join [OF byte_quot(2), of "byte_of a" b]
  by (simp_all only: b64_quad_def) simp_all

lemma b64_groups_encode: "b64_groups (b64_encode s) = Some s"
proof (induction s rule: b64_encode.induct)
  case (2 a)
  show ?case using b64_quad_short(1) [of a] by simp
next
  case (3 a b)
  show ?case using b64_quad_short(2) [of a b] by simp
next
  case (4 a b c rest)
  have d: "byte_of c mod 64 < 64" by simp
  show ?case using 4 d by (simp add: b64_quad_join b64_join3)
qed simp

lemma b64_roundtrip: "b64_decode (b64_encode s) = Some s"
  by (simp only: b64_decode_def b64_encode_kept b64_groups_encode)
end
