(* ===== verification/Errors.thy ===== *)
theory Errors
  imports GoStrings
begin

text \<open>
  Errors as values: the application errors of \<open>internal/apperr\<close>, the database errors the
  storage layer sees, how \<open>internal/storage/errors.go\<close> translates one into the other, and
  the two tests that decide whether a failed persist is retried
  (\<open>cmd/bugbarn/worker.go\<close> and \<open>internal/ingestproc/processor.go\<close>).
\<close>

datatype app_error =
    NotFound string
  | Conflict string
  | InvalidInput string
  | Internal string
  | Unavailable string

text \<open>
  A database error as the code can tell it apart: no row, an expired deadline, the driver's
  typed error (its code and its text), and any other error, known by its text only.
\<close>

datatype db_error =
    NoRows
  | DeadlineExceeded
  | Sqlite int string
  | Plain string

fun error_text :: "db_error \<Rightarrow> string" where
  "error_text NoRows = ''sql: no rows in result set''"
| "error_text DeadlineExceeded = ''context deadline exceeded''"
| "error_text (Sqlite code text) = text"
| "error_text (Plain text) = text"

abbreviation (input) SQLITE_BUSY :: int where "SQLITE_BUSY \<equiv> 5"
abbreviation (input) SQLITE_LOCKED :: int where "SQLITE_LOCKED \<equiv> 6"
abbreviation (input) SQLITE_CONSTRAINT :: int where "SQLITE_CONSTRAINT \<equiv> 19"
abbreviation (input) SQLITE_READONLY_RECOVERY :: int where "SQLITE_READONLY_RECOVERY \<equiv> 264"
abbreviation (input) SQLITE_BUSY_SNAPSHOT :: int where "SQLITE_BUSY_SNAPSHOT \<equiv> 517"
abbreviation (input) SQLITE_CONSTRAINT_UNIQUE :: int where "SQLITE_CONSTRAINT_UNIQUE \<equiv> 2067"

definition isUniqueViolation :: "db_error \<Rightarrow> bool" where
  "isUniqueViolation e = (case e of
     Sqlite c _ \<Rightarrow> c = SQLITE_CONSTRAINT \<or> c = SQLITE_CONSTRAINT_UNIQUE
   | _ \<Rightarrow> contains_sub (error_text e) ''UNIQUE constraint failed'')"

definition IsDatabaseLocked :: "db_error \<Rightarrow> bool" where
  "IsDatabaseLocked e = (case e of
     Sqlite c _ \<Rightarrow> c = SQLITE_BUSY \<or> c = SQLITE_LOCKED
   | _ \<Rightarrow> contains_sub (error_text e) ''database is locked'')"

definition IsReadonlyRecovery :: "db_error \<Rightarrow> bool" where
  "IsReadonlyRecovery e = (case e of
     Sqlite c _ \<Rightarrow> c = SQLITE_READONLY_RECOVERY
   | _ \<Rightarrow> contains_sub (error_text e) ''(264)'')"

definition wrapErr :: "db_error \<Rightarrow> string \<Rightarrow> app_error" where
  "wrapErr e msg =
     (if e = NoRows then NotFound msg
      else if isUniqueViolation e then Conflict msg
      else if IsReadonlyRecovery e then Unavailable msg
      else Internal msg)"

definition wrapNotFound :: "db_error \<Rightarrow> string \<Rightarrow> app_error" where
  "wrapNotFound e msg =
     (if e = NoRows then NotFound msg
      else if IsReadonlyRecovery e then Unavailable msg
      else Internal msg)"

text \<open>The spool worker's test and the queue consumer's test; \<open>None\<close> is a nil error.\<close>

definition workerTransient :: "db_error option \<Rightarrow> bool" where
  "workerTransient err = (case err of
     None \<Rightarrow> False
   | Some e \<Rightarrow> e = DeadlineExceeded
       \<or> contains_sub (error_text e) ''SQLITE_BUSY''
       \<or> contains_sub (error_text e) ''database is locked''
       \<or> contains_sub (error_text e) ''database table is locked'')"

definition processorTransient :: "db_error option \<Rightarrow> bool" where
  "processorTransient err = (case err of
     None \<Rightarrow> False
   | Some e \<Rightarrow> e = DeadlineExceeded \<or> IsDatabaseLocked e)"

text \<open>The consumer's transience test does not mirror the spool worker's: a typed
  \<open>SQLITE_BUSY_SNAPSHOT\<close> whose text names its code is retried for ever by the worker and
  counted as a permanent failure by the consumer, and so is an untyped
  ``database table is locked''; on untyped errors the consumer's transient ones are a
  subset of the worker's.\<close>

theorem transience_diverges:
  "workerTransient (Some (Sqlite SQLITE_BUSY_SNAPSHOT ''database is locked (517) (SQLITE_BUSY_SNAPSHOT)''))
   \<and> \<not> processorTransient (Some (Sqlite SQLITE_BUSY_SNAPSHOT ''database is locked (517) (SQLITE_BUSY_SNAPSHOT)''))
   \<and> workerTransient (Some (Plain ''database table is locked''))
   \<and> \<not> processorTransient (Some (Plain ''database table is locked''))
   \<and> (processorTransient (Some (Plain t)) = (workerTransient (Some (Plain t))
        \<and> contains_sub t ''database is locked''))"
  by (auto simp: workerTransient_def processorTransient_def IsDatabaseLocked_def has_prefix_def)

end
