(* ===== verification/Sampling.thy ===== *)
theory Sampling
  imports Errors
begin

text \<open>
  Event sampling: \<open>internal/storage/sampling.go\<close> and the part of
  \<open>internal/storage/project_limits.go\<close> that decides the threshold (a per-process,
  time-bounded cache over the projects table).
\<close>

section \<open>The ladder\<close>

definition samplingLadderSteps :: nat where "samplingLadderSteps = 4"

definition defaultSampleAfter :: int where "defaultSampleAfter = 1000"

text \<open>The loop of \<open>sampleRateFor\<close>: the first argument counts the rungs left.\<close>

fun ladder :: "nat \<Rightarrow> int \<Rightarrow> int \<Rightarrow> int \<Rightarrow> int" where
  "ladder 0 n k bound = k"
| "ladder (Suc steps) n k bound =
     (let k' = wrap64 (k * 10); bound' = wrap64 (bound * 10)
      in if n \<le> bound' then k' else ladder steps n k' bound')"

definition sampleRateFor :: "int \<Rightarrow> int \<Rightarrow> int" where
  "sampleRateFor n keepAll =
     (if keepAll \<le> 0 \<or> n \<le> keepAll then 1 else ladder samplingLadderSteps n 1 keepAll)"

definition sampleFor :: "int \<Rightarrow> int \<Rightarrow> bool \<times> int" where
  "sampleFor n keepAll =
     (let k = sampleRateFor n keepAll
      in if go_rem n k \<noteq> 0 then (False, 0) else (True, k))"

text \<open>The weights the write path has recorded once an issue has seen events \<open>1 .. N\<close>.\<close>

primrec recorded_total :: "int \<Rightarrow> nat \<Rightarrow> int" where
  "recorded_total keepAll 0 = 0"
| "recorded_total keepAll (Suc N) =
     recorded_total keepAll N + snd (sampleFor (int (Suc N)) keepAll)"

text \<open>Thresholds whose last rung still fits an \<open>int64\<close>.\<close>

definition ladder_fits :: "int \<Rightarrow> bool" where
  "ladder_fits keepAll \<longleftrightarrow> 0 < keepAll \<and> keepAll * 10000 \<le> int64_max"

lemma sampleRateFor_rungs:
  assumes "ladder_fits A"
  shows "sampleRateFor n A =
    (if n \<le> A then 1 else if n \<le> A * 10 then 10 else if n \<le> A * 100 then 100
     else if n \<le> A * 1000 then 1000 else 10000)"
  using assms
  by (simp add: sampleRateFor_def ladder_fits_def samplingLadderSteps_def numeral_eq_Suc
      wrap64_id Let_def)

lemma sampleRateFor_pos: "ladder_fits A \<Longrightarrow> 0 < sampleRateFor n A"
  by (simp add: sampleRateFor_rungs)

lemma sampleFor_alt:
  "ladder_fits A \<Longrightarrow>
   sampleFor n A = (if sampleRateFor n A dvd n then (True, sampleRateFor n A) else (False, 0))"
  using go_rem_zero_iff [OF sampleRateFor_pos [of A n], of n]
  by (simp add: sampleFor_def Let_def)

lemma div_Suc_int:
  fixes K :: int
  assumes "0 < K"
  shows "K * ((n + 1) div K) = K * (n div K) + (if K dvd n + 1 then K else 0)"
proof (cases "K dvd n + 1")
  case True
  then obtain q where q: "n + 1 = K * q" by blast
  have n: "n = K * (q - 1) + (K - 1)" using q by (simp add: algebra_simps)
  have "n div K = q - 1"
    by (subst n) (use assms in \<open>simp add: div_pos_pos_trivial\<close>)
  moreover have "(n + 1) div K = q" using q assms by simp
  ultimately show ?thesis using True by (simp add: right_diff_distrib)
next
  case False
  then have nz: "(n + 1) mod K \<noteq> 0" by (simp add: dvd_eq_mod_eq_0)
  have b: "0 \<le> (n + 1) mod K" "(n + 1) mod K < K" using assms by auto
  have n: "n = K * ((n + 1) div K) + ((n + 1) mod K - 1)"
    using mult_div_mod_eq [of K "n + 1"] by linarith
  have "((n + 1) mod K - 1) div K = 0"
    using nz b by (intro div_pos_pos_trivial) linarith+
  then have "n div K = (n + 1) div K"
    by (subst n) (use assms in simp)
  then show ?thesis using False by simp
qed

text \<open>
  The rung only changes right after a multiple of the next rung, where the sum is exact:
  this is what makes the ladder's weights add up, and it needs a threshold that the ladder
  step divides.
\<close>

lemma rung_change:
  assumes "ladder_fits A" "10 dvd A" "sampleRateFor n A \<noteq> sampleRateFor (n + 1) A"
  shows "sampleRateFor (n + 1) A dvd n \<and> sampleRateFor n A dvd n
    \<and> 2 \<le> sampleRateFor (n + 1) A"
proof -
  obtain a where A: "A = 10 * a" using assms(2) by blast
  have "n = A \<and> sampleRateFor (n + 1) A = 10 \<and> sampleRateFor n A = 1
    \<or> n = A * 10 \<and> sampleRateFor (n + 1) A = 100 \<and> sampleRateFor n A = 10
    \<or> n = A * 100 \<and> sampleRateFor (n + 1) A = 1000 \<and> sampleRateFor n A = 100
    \<or> n = A * 1000 \<and> sampleRateFor (n + 1) A = 10000 \<and> sampleRateFor n A = 1000"
    using assms(1,3) ladder_fits_def [of A]
    by (auto simp: sampleRateFor_rungs split: if_splits)
  then show ?thesis using A by auto
qed

lemma recorded_total_step:
  assumes "ladder_fits A" "10 dvd A"
    and "t = sampleRateFor n A * (n div sampleRateFor n A)"
  shows "t + snd (sampleFor (n + 1) A)
    = sampleRateFor (n + 1) A * ((n + 1) div sampleRateFor (n + 1) A)"
proof (cases "sampleRateFor n A = sampleRateFor (n + 1) A")
  case True
  then show ?thesis
    using div_Suc_int [OF sampleRateFor_pos [OF assms(1), of "n + 1"], of n] assms(1,3)
    by (simp add: sampleFor_alt)
next
  case False
  let ?K = "sampleRateFor n A" and ?L = "sampleRateFor (n + 1) A"
  have d: "?L dvd n" "?K dvd n" "2 \<le> ?L" using rung_change [OF assms(1,2) False] by auto
  have "\<not> ?L dvd n + 1"
  proof
    assume "?L dvd n + 1"
    then have "?L dvd 1" using d(1) dvd_add_right_iff by blast
    then show False using d(3) zdvd_imp_le [of ?L 1] by linarith
  qed
  moreover have "t = n" using assms(3) d(2) by simp
  moreover have "?L * (n div ?L) = n" using d(1) by simp
  ultimately show ?thesis
    using div_Suc_int [OF sampleRateFor_pos [OF assms(1), of "n + 1"], of n] assms(1)
    by (simp add: sampleFor_alt)
qed

lemma recorded_total_closed:
  assumes "ladder_fits A" "10 dvd A"
  shows "recorded_total A N = sampleRateFor (int N) A * (int N div sampleRateFor (int N) A)"
proof (induction N)
  case (Suc N)
  show ?case using recorded_total_step [OF assms Suc.IH] by (simp add: add.commute)
qed simp

text \<open>The stored weights account for every event up to the last multiple of the
  current sampling rate and none after it: for a threshold that is a multiple of ten, the
  sum of the recorded weights after \<open>N\<close> events is \<open>K * (N div K)\<close>, so it trails the
  lifetime count by less than one \<open>K\<close> and never exceeds it.\<close>

theorem sampling_undershoot:
  assumes "ladder_fits A" "10 dvd A" "K = sampleRateFor (int N) A"
  shows "recorded_total A N = K * (int N div K)
    \<and> recorded_total A N \<le> int N \<and> int N - recorded_total A N < K"
proof -
  note eq = recorded_total_closed [OF assms(1,2), of N]
  have "0 < K" using sampleRateFor_pos [OF assms(1)] assms(3) by simp
  then have "0 \<le> int N mod K" "int N mod K < K" by auto
  moreover have "int N = K * (int N div K) + int N mod K" by simp
  moreover have "recorded_total A N = K * (int N div K)" using eq assms(3) by simp
  ultimately show ?thesis by (intro conjI) linarith+
qed

theorem sampling_undershoot_witness:
  "recorded_total 10 25 = 20 \<and> int 25 - recorded_total 10 25 < 10"
  using sampling_undershoot [of 10 10 25]
  by (simp add: ladder_fits_def sampleRateFor_rungs)

text \<open>For a threshold that is not a multiple of ten (the environment variable accepts
  any integer) the bound of the comment on \<open>sampleFor\<close> fails: right at the first sampled
  row the recorded weights exceed the number of events seen.\<close>

theorem sampling_overcounts:
  assumes "ladder_fits A" "\<not> 10 dvd A" "N = nat (10 * (A div 10 + 1))"
  shows "int N < recorded_total A N"
proof -
  have A: "0 < A" using assms(1) by (simp add: ladder_fits_def)
  have exact: "recorded_total A m = int m" if "int m \<le> A" for m
    using that
  proof (induction m)
    case (Suc m)
    then show ?case using assms(1) by (simp add: sampleFor_alt sampleRateFor_rungs)
  qed simp
  have flat: "recorded_total A (nat A + m) = A"
    if "A + int m < 10 * (A div 10 + 1)" for m
    using that
  proof (induction m)
    case 0
    then show ?case using exact [of "nat A"] A by simp
  next
    case (Suc m)
    let ?n = "A + int m + 1"
    have lt: "?n < 10 * (A div 10 + 1)" "A < ?n" using Suc.prems by auto
    have up: "?n \<le> A * 10" using lt(1) A by presburger
    have "\<not> 10 dvd ?n" using lt by presburger
    then have "snd (sampleFor ?n A) = 0"
      using lt(2) up by (simp add: sampleFor_alt [OF assms(1)] sampleRateFor_rungs [OF assms(1)])
    moreover have "int (Suc (nat A + m)) = ?n" using A by simp
    ultimately show ?case using Suc by (simp del: of_nat_Suc)
  qed
  define m where "m = nat (10 * (A div 10 + 1) - A - 1)"
  have gt: "A < 10 * (A div 10 + 1)" by presburger
  then have N: "N = Suc (nat A + m)" using assms(3) A by (simp add: m_def)
  have "recorded_total A (nat A + m) = A"
    by (rule flat) (use gt in \<open>simp add: m_def\<close>)
  moreover have "snd (sampleFor (int N) A) = 10"
  proof -
    have "int N = 10 * (A div 10 + 1)" using assms(3) gt A by simp
    moreover have "A div 10 + 1 \<le> A" using A by presburger
    then have "10 * (A div 10 + 1) \<le> A * 10" by simp
    ultimately show ?thesis
      using gt by (simp add: sampleFor_alt [OF assms(1)] sampleRateFor_rungs [OF assms(1)])
  qed
  moreover have "int N < A + 10"
  proof -
    have "int N = 10 * (A div 10 + 1)" using assms(3) gt A by simp
    moreover have "0 < A mod 10"
      using assms(2) pos_mod_sign [of 10 A] by (simp add: dvd_eq_mod_eq_0)
    ultimately show ?thesis by (simp add: minus_mod_eq_mult_div [symmetric] distrib_left)
  qed
  ultimately show ?thesis using N by (simp del: of_nat_Suc)
qed

theorem sampling_overcounts_witness: "int 20 < recorded_total 15 20"
  using sampling_overcounts [of 15 20] by (simp add: ladder_fits_def)

section \<open>The project's volume policy\<close>

record project_limits =
  RetentionDays :: "int option"
  SamplingMode :: string

record limits_entry =
  le_limits :: project_limits
  le_fetchedAt :: time

type_synonym limits_cache = "int \<Rightarrow> limits_entry option"

record project_row =
  pr_id :: int
  pr_slug :: string
  pr_retention :: "int option"
  pr_sampling :: "string option"

record limits_core =
  lc_entries :: limits_cache
  lc_sampleAfter :: int
  lc_rows :: "project_row list"

definition SamplingInherit :: string where "SamplingInherit = []"
definition SamplingOn :: string where "SamplingOn = ''on''"
definition SamplingOff :: string where "SamplingOff = ''off''"

definition limitsCacheTTL :: duration where "limitsCacheTTL = 30 * seconds"

definition zero_limits :: project_limits where
  "zero_limits = \<lparr>RetentionDays = None, SamplingMode = []\<rparr>"

definition limits_get :: "limits_cache \<Rightarrow> time \<Rightarrow> int \<Rightarrow> project_limits option" where
  "limits_get c now pid = (case c pid of
     None \<Rightarrow> None
   | Some e \<Rightarrow> if time_sub now (le_fetchedAt e) > limitsCacheTTL then None else Some (le_limits e))"

definition limits_put :: "limits_cache \<Rightarrow> time \<Rightarrow> int \<Rightarrow> project_limits \<Rightarrow> limits_cache" where
  "limits_put c now pid l = c(pid := Some \<lparr>le_limits = l, le_fetchedAt = now\<rparr>)"

definition limits_invalidate :: "limits_cache \<Rightarrow> int \<Rightarrow> limits_cache" where
  "limits_invalidate c pid = c(pid := None)"

definition setSampleAfter :: "int \<Rightarrow> limits_core \<Rightarrow> limits_core" where
  "setSampleAfter n st = st\<lparr>lc_sampleAfter := (if n < 0 then 0 else n)\<rparr>"

definition row_limits :: "project_row \<Rightarrow> project_limits" where
  "row_limits r = \<lparr>RetentionDays = pr_retention r,
     SamplingMode = (case pr_sampling r of None \<Rightarrow> [] | Some m \<Rightarrow> m)\<rparr>"

text \<open>\<open>readErr\<close> is a failing \<open>SELECT\<close>; a missing row is an error of \<open>Scan\<close> as well.\<close>

definition limitsFor :: "time \<Rightarrow> bool \<Rightarrow> int \<Rightarrow> limits_core \<Rightarrow> project_limits \<times> limits_core" where
  "limitsFor now readErr pid st =
     (if pid \<le> 0 then (zero_limits, st)
      else case limits_get (lc_entries st) now pid of
        Some l \<Rightarrow> (l, st)
      | None \<Rightarrow>
          (if readErr then (zero_limits, st)
           else case List.find (\<lambda>r. pr_id r = pid) (lc_rows st) of
             None \<Rightarrow> (zero_limits, st)
           | Some r \<Rightarrow>
               (row_limits r,
                st\<lparr>lc_entries := limits_put (lc_entries st) now pid (row_limits r)\<rparr>)))"

definition mode_threshold :: "int \<Rightarrow> string \<Rightarrow> int" where
  "mode_threshold sampleAfter mode =
     (if mode = SamplingOff then 0
      else if mode = SamplingOn then (if sampleAfter > 0 then sampleAfter else defaultSampleAfter)
      else sampleAfter)"

definition sampleAfterFor :: "time \<Rightarrow> bool \<Rightarrow> int \<Rightarrow> limits_core \<Rightarrow> int \<times> limits_core" where
  "sampleAfterFor now readErr pid st =
     (case limitsFor now readErr pid st of
        (l, st') \<Rightarrow> (mode_threshold (lc_sampleAfter st') (SamplingMode l), st'))"

text \<open>\<open>execErr\<close> is the error of the \<open>UPDATE\<close>, \<open>idErr\<close> the \<open>SELECT id\<close> after it.\<close>

definition updateProjectLimits ::
  "string \<Rightarrow> int option \<Rightarrow> string \<Rightarrow> db_error option \<Rightarrow> bool \<Rightarrow> limits_core \<Rightarrow> app_error option \<times> limits_core" where
  "updateProjectLimits slug days sampling execErr idErr st =
     (if sampling \<noteq> SamplingInherit \<and> sampling \<noteq> SamplingOn \<and> sampling \<noteq> SamplingOff
      then (Some (InvalidInput ''sampling_mode must be empty, on or off''), st)
      else if (case days of None \<Rightarrow> False | Some d \<Rightarrow> d < 1)
      then (Some (InvalidInput ''retention_days must be at least 1 day''), st)
      else if execErr \<noteq> None then (Some (wrapErr (the execErr) ''update project limits''), st)
      else if \<not> list_ex (\<lambda>r. pr_slug r = slug) (lc_rows st)
      then (Some (NotFound ''project not found''), st)
      else
        let rows = map (\<lambda>r. if pr_slug r = slug
              then r\<lparr>pr_retention := days, pr_sampling := Some sampling\<rparr> else r) (lc_rows st);
            st' = st\<lparr>lc_rows := rows\<rparr>
        in (None,
            if idErr then st'
            else case List.find (\<lambda>r. pr_slug r = slug) rows of
              None \<Rightarrow> st'
            | Some r \<Rightarrow> st'\<lparr>lc_entries := limits_invalidate (lc_entries st') (pr_id r)\<rparr>))"

datatype limits_op =
    Lookup time bool int
  | UpdateLimits string "int option" string "db_error option" bool

fun limits_step :: "limits_core \<Rightarrow> limits_op \<Rightarrow> limits_core" where
  "limits_step st (Lookup now err pid) = snd (limitsFor now err pid st)"
| "limits_step st (UpdateLimits slug days mode execErr idErr) =
     snd (updateProjectLimits slug days mode execErr idErr st)"

text \<open>The invalidation is only skipped when the row cannot be read back.\<close>

fun reads_back :: "limits_op \<Rightarrow> bool" where
  "reads_back (Lookup now err pid) = True"
| "reads_back (UpdateLimits slug days mode execErr idErr) = (\<not> idErr)"

definition policy_of :: "project_row list \<Rightarrow> int \<Rightarrow> project_limits option" where
  "policy_of rows pid = map_option row_limits (List.find (\<lambda>r. pr_id r = pid) rows)"

definition cache_coherent :: "limits_core \<Rightarrow> bool" where
  "cache_coherent st \<longleftrightarrow>
     distinct (map pr_id (lc_rows st)) \<and> distinct (map pr_slug (lc_rows st)) \<and>
     (\<forall>pid e. lc_entries st pid = Some e \<longrightarrow> policy_of (lc_rows st) pid = Some (le_limits e))"

subsection \<open>The cache agrees with the table\<close>

lemma find_map_other:
  assumes "\<And>r. f (g r) = f r" "\<And>r. f r = k \<Longrightarrow> g r = r"
  shows "List.find (\<lambda>r. f r = k) (map g rows) = List.find (\<lambda>r. f r = k) rows"
  by (induction rows) (auto simp: assms)

lemma limitsFor_coherent: "cache_coherent st \<Longrightarrow> cache_coherent (snd (limitsFor now err pid st))"
  by (auto simp: limitsFor_def cache_coherent_def limits_put_def policy_of_def
      split: option.splits if_splits)

lemma updateProjectLimits_coherent:
  assumes "cache_coherent st" "\<not> idErr"
  shows "cache_coherent (snd (updateProjectLimits slug days mode execErr idErr st))"
proof -
  define g where "g = (\<lambda>r::project_row. if pr_slug r = slug
    then r\<lparr>pr_retention := days, pr_sampling := Some mode\<rparr> else r)"
  have keeps: "pr_id (g r) = pr_id r" "pr_slug (g r) = pr_slug r" for r
    by (auto simp: g_def)
  have maps: "pr_id \<circ> g = pr_id" "pr_slug \<circ> g = pr_slug" using keeps by auto
  have coherent: "cache_coherent (st\<lparr>lc_rows := map g (lc_rows st),
      lc_entries := limits_invalidate (lc_entries st) (pr_id r)\<rparr>)"
    if r: "List.find (\<lambda>r. pr_slug r = slug) (map g (lc_rows st)) = Some r" for r
  proof -
    obtain q where q: "q \<in> set (lc_rows st)" "r = g q" "pr_slug r = slug"
      using find_SomeD [OF r] by auto
    have uniq: "p = q" if "p \<in> set (lc_rows st)" "pr_slug p = slug" for p
      using that q assms(1) keeps(2) by (metis cache_coherent_def inj_on_def distinct_map)
    have "policy_of (map g (lc_rows st)) pid = policy_of (lc_rows st) pid"
      if "pid \<noteq> pr_id r" for pid
    proof -
      have same: "g p = p" if "p \<in> set (lc_rows st)" "pr_id p = pid" for p
        using uniq [of p] that \<open>pid \<noteq> pr_id r\<close> keeps(1) q(2) by (auto simp: g_def)
      have "set rows \<subseteq> set (lc_rows st) \<Longrightarrow>
        List.find (\<lambda>r. pr_id r = pid) (map g rows) = List.find (\<lambda>r. pr_id r = pid) rows" for rows
        by (induction rows) (auto simp: keeps same)
      then show ?thesis by (simp add: policy_of_def)
    qed
    then show ?thesis
      using assms(1) maps by (auto simp: cache_coherent_def limits_invalidate_def)
  qed
  have "List.find (\<lambda>r. pr_slug r = slug) (map g (lc_rows st)) \<noteq> None"
    if "list_ex (\<lambda>r. pr_slug r = slug) (lc_rows st)"
    using that keeps(2) by (auto simp: find_None_iff list_ex_iff)
  then show ?thesis
    using assms coherent unfolding updateProjectLimits_def g_def [symmetric] Let_def
    by (auto split: option.splits)
qed

interpretation limits_machine: guarded_machine limits_step cache_coherent reads_back
proof
  fix s x
  assume "cache_coherent s" "reads_back x"
  then show "cache_coherent (limits_step s x)"
    by (cases x) (auto simp: limitsFor_coherent updateProjectLimits_coherent)
qed

text \<open>Within one process the write path's cached volume policy is never stale: after
  any run of lookups and settings changes (with the row read back after each change) a
  threshold lookup answers what the project's row says now.\<close>

theorem threshold_current:
  assumes "cache_coherent st" "lc_entries st = Map.empty" "list_all reads_back xs"
    and "st' = foldl limits_step st xs" "0 < pid" "policy_of (lc_rows st') pid = Some l"
  shows "fst (sampleAfterFor now False pid st')
    = mode_threshold (lc_sampleAfter st') (SamplingMode l)"
proof -
  have "cache_coherent st'"
    using limits_machine.run_inv [OF assms(1,3)] assms(4) by simp
  then have "fst (limitsFor now False pid st') = l"
    using assms(5,6)
    by (fastforce simp: limitsFor_def cache_coherent_def limits_get_def policy_of_def
        split: option.splits if_splits)
  moreover have "lc_sampleAfter (snd (limitsFor now False pid st')) = lc_sampleAfter st'"
    by (auto simp: limitsFor_def split: option.splits)
  ultimately show ?thesis
    by (cases "limitsFor now False pid st'") (simp add: sampleAfterFor_def)
qed

definition demo_core :: limits_core where
  "demo_core = \<lparr>lc_entries = Map.empty, lc_sampleAfter = 1000,
     lc_rows = [\<lparr>pr_id = 7, pr_slug = ''shop'', pr_retention = None, pr_sampling = None\<rparr>]\<rparr>"

theorem threshold_current_witness:
  "fst (sampleAfterFor 5 False 7 (foldl limits_step demo_core
     [Lookup 1 False 7, UpdateLimits ''shop'' None ''off'' None False])) = 0"
  by (subst threshold_current [OF _ _ _ refl, where l = "\<lparr>RetentionDays = None, SamplingMode = ''off''\<rparr>"])
     (simp_all add: demo_core_def cache_coherent_def policy_of_def limitsFor_def limits_get_def
       limits_put_def updateProjectLimits_def row_limits_def mode_threshold_def
       SamplingOn_def SamplingOff_def SamplingInherit_def Let_def)

end
