(* ===== verification/IssueIds.thy ===== *)
theory IssueIds
  imports Errors
begin

text \<open>
  Display ids of issues and events: \<open>internal/storage/helpers.go\<close>.
\<close>

abbreviation issueIDPrefix :: string where "issueIDPrefix \<equiv> ''issue-''"
abbreviation eventIDPrefix :: string where "eventIDPrefix \<equiv> ''event-''"

definition formatID :: "string \<Rightarrow> int \<Rightarrow> string" where
  "formatID prefix value = prefix @ itoa value"

definition parseID :: "string \<Rightarrow> string \<Rightarrow> int option" where
  "parseID prefix value =
     (let v = trim_space value
      in if \<not> has_prefix v prefix then None else parse_int (drop (length prefix) v))"

definition formatIssueID :: "string \<Rightarrow> int \<Rightarrow> string" where
  "formatIssueID prefix number = prefix @ CHR ''-'' # itoa number"

definition displayIssueID :: "string \<Rightarrow> int \<Rightarrow> int \<Rightarrow> string" where
  "displayIssueID prefix number fallbackRowID =
     (if prefix \<noteq> [] \<and> number > 0 then formatIssueID prefix number
      else formatID issueIDPrefix fallbackRowID)"

definition parseIssueID :: "string \<Rightarrow> app_error + string \<times> int" where
  "parseIssueID value =
     (let v = trim_space value
      in if v = [] then Inl (InvalidInput ''empty issue id'')
         else if has_prefix v issueIDPrefix then
           (case parse_int (drop (length issueIDPrefix) v) of
              None \<Rightarrow> Inl (InvalidInput ''invalid legacy issue id'')
            | Some n \<Rightarrow> Inr ([], n))
         else
           (let idx = last_index (CHR ''-'') v
            in if idx \<le> 0 then Inl (InvalidInput ''invalid issue id'')
               else case parse_int (drop (nat idx + 1) v) of
                 None \<Rightarrow> Inl (InvalidInput ''invalid issue id'')
               | Some n \<Rightarrow> Inr (take (nat idx) v, n)))"

definition is_slug_sep :: "char \<Rightarrow> bool" where
  "is_slug_sep c \<longleftrightarrow> c = CHR ''-'' \<or> c = CHR ''_'' \<or> c = CHR '' '' \<or> c = CHR ''.''"

definition deriveIssuePrefix :: "string \<Rightarrow> string" where
  "deriveIssuePrefix slug =
     (let s = trim_space slug
      in if s = [] then ''DEF''
         else let parts = fields_func is_slug_sep [] s
              in case parts of
                   [p] \<Rightarrow> (let upper = to_upper p
                           in if length upper \<le> 3 then upper else take 3 upper)
                 | _ \<Rightarrow> to_upper (concat (map (\<lambda>p. if p \<noteq> [] then [hd p] else []) parts)))"

lemma last_index_dash:
  "CHR ''-'' \<notin> set t \<Longrightarrow> last_index (CHR ''-'') (p @ CHR ''-'' # t) = int (length p)"
proof -
  assume "CHR ''-'' \<notin> set t"
  then have "takeWhile (\<lambda>c. c \<noteq> CHR ''-'') (rev t @ CHR ''-'' # rev p) = rev t"
    by (subst takeWhile_append2) auto
  then show ?thesis by (simp add: last_index_def)
qed

lemma has_prefix_append: "has_prefix (p @ s) p"
  by (simp add: has_prefix_def)

lemma list_all_not_space_append:
  "list_all (\<lambda>c. \<not> is_space c) (a @ b) \<longleftrightarrow>
   list_all (\<lambda>c. \<not> is_space c) a \<and> list_all (\<lambda>c. \<not> is_space c) b"
  by simp

text \<open>A prefix a project can be displayed with: non-empty, no white space, and no legacy form.\<close>

definition plain_prefix :: "string \<Rightarrow> bool" where
  "plain_prefix p \<longleftrightarrow> p \<noteq> [] \<and> list_all (\<lambda>c. \<not> is_space c) p
     \<and> \<not> has_prefix p issueIDPrefix
     \<and> p \<noteq> ''issue''"

lemma plain_prefix_not_legacy:
  assumes "plain_prefix p" shows "\<not> has_prefix (p @ CHR ''-'' # t) issueIDPrefix"
proof
  assume h: "has_prefix (p @ CHR ''-'' # t) issueIDPrefix"
  show False
  proof (cases "6 \<le> length p")
    case True
    then have "has_prefix p issueIDPrefix" using h by (simp add: has_prefix_def)
    then show False using assms by (simp add: plain_prefix_def)
  next
    case False
    then have eq: "p @ take (6 - length p) (CHR ''-'' # t) = ''issue-''"
      using h by (simp add: has_prefix_def numeral_eq_Suc)
    define r where "r = take (6 - length p) (CHR ''-'' # t)"
    have r: "r \<noteq> []" "hd r = CHR ''-''" using False by (auto simp: r_def)
    have eq': "''issue-'' = p @ r" using eq r_def by simp
    have "p = ''issue''"
      using eq' r by (auto simp: append_eq_Cons_conv Cons_eq_append_conv)
    then show False using assms by (simp add: plain_prefix_def)
  qed
qed

text \<open>Display ids round-trip: parsing the id shown for an issue gives back the prefix and
  the number it was built from, and the legacy id of a row gives back its row id.\<close>

theorem issue_id_roundtrip:
  assumes "int64_min \<le> row" "row \<le> int64_max" "number \<le> int64_max"
  shows "(plain_prefix p \<and> 0 < number \<longrightarrow>
            parseIssueID (displayIssueID p number row) = Inr (p, number))
    \<and> (p = [] \<or> number \<le> 0 \<longrightarrow>
            parseIssueID (displayIssueID p number row) = Inr ([], row))"
proof (intro conjI impI)
  assume a: "plain_prefix p \<and> 0 < number"
  let ?v = "p @ CHR ''-'' # itoa number"
  have "list_all (\<lambda>c. \<not> is_space c) ?v"
    using a itoa_not_space [of number] by (simp add: plain_prefix_def is_space_def)
  then have trim: "trim_space ?v = ?v" by (rule trim_space_id)
  have "last_index (CHR ''-'') ?v = int (length p)"
    using a by (intro last_index_dash itoa_no_dash) simp
  moreover have "parse_int (itoa number) = Some number"
    using a assms by (intro parse_int_itoa) auto
  moreover have "p \<noteq> []" using a by (simp add: plain_prefix_def)
  ultimately show "parseIssueID (displayIssueID p number row) = Inr (p, number)"
    using a plain_prefix_not_legacy [of p "itoa number"] trim
    by (simp add: parseIssueID_def displayIssueID_def formatIssueID_def Let_def)
next
  assume a: "p = [] \<or> number \<le> 0"
  let ?v = "issueIDPrefix @ itoa row"
  have "list_all (\<lambda>c. \<not> is_space c) ?v"
    using itoa_not_space [of row] by (simp add: is_space_def)
  then have trim: "trim_space ?v = ?v" by (rule trim_space_id)
  have "displayIssueID p number row = ?v" using a by (auto simp: displayIssueID_def formatID_def)
  moreover have "has_prefix ?v issueIDPrefix" by (rule has_prefix_append)
  ultimately show "parseIssueID (displayIssueID p number row) = Inr ([], row)"
    using trim parse_int_itoa [OF assms(1,2)] by (simp add: parseIssueID_def Let_def)
qed

theorem issue_id_roundtrip_witness:
  "parseIssueID (displayIssueID ''BW'' 42 7) = Inr (''BW'', 42)"
  using issue_id_roundtrip [of 7 42 "''BW''"]
  by (simp add: plain_prefix_def is_space_def has_prefix_def)

end
