(* ===== verification/EventData.thy ===== *)
theory EventData
  imports IssueIds
begin

text \<open>
  The event of \<open>internal/event/event.go\<close> and everything the write path derives from it:
  the release and user it reports, its facets, its timestamps, its fingerprint and its title
  (\<open>internal/storage/facets.go\<close>, \<open>helpers.go\<close>, \<open>issues_insert.go\<close>,
  \<open>events.go\<close>).

  A Go \<open>map[string]any\<close> is an association list in the order the code happens to iterate
  it.  A JSON number carries the two texts the code prints for it (\<open>%d\<close>/\<open>%g\<close> and
  the plain decimal form).  The title normaliser is a chain of regular expressions and is an
  argument \<open>normalise\<close> here.
\<close>

datatype jval =
    JNull
  | JBool bool
  | JNum string string
  | JStr string
  | JOther string
  | JArr "jval list"
  | JObj "(string \<times> jval) list"

type_synonym jobj = "(string \<times> jval) list"

record event =
  ReceivedAt :: time
  ObservedAt :: time
  Severity :: string
  Message :: string
  ExcType :: string
  ExcMessage :: string
  ExcText :: string
  Resource :: jobj
  Attributes :: jobj
  TraceID :: string
  SpanID :: string
  SDKName :: string
  EvFingerprint :: string
  EvMaterial :: string
  EvExplanation :: "string list"
  RawScrubbed :: jobj
  UserID :: string

section \<open>Fields of an event\<close>

definition asString :: "jval \<Rightarrow> string" where
  "asString v = (case v of JStr s \<Rightarrow> s | JNum short _ \<Rightarrow> short | _ \<Rightarrow> [])"

text \<open>\<open>strings.SplitN(key, ".", 2)\<close> is \<open>cut\<close> on the dot.\<close>

function stringFromMap :: "jobj \<Rightarrow> string \<Rightarrow> string" where
  "stringFromMap m key =
     (let lit = (case map_of m key of Some v \<Rightarrow> asString v | None \<Rightarrow> [])
      in if lit \<noteq> [] then lit
         else case cut (CHR ''.'') key of (before, after, found) \<Rightarrow>
           if \<not> found then []
           else case map_of m before of
             Some (JObj nested) \<Rightarrow> stringFromMap nested after
           | _ \<Rightarrow> [])"
  by pat_completeness auto

lemma cut_shorter: "cut d s = (a, b, True) \<Longrightarrow> length b < length s"
  by (cases s) (auto simp: cut_def)

termination stringFromMap
  by (relation "measure (\<lambda>(m, key). length key)") (auto simp: cut_def length_greater_0_conv
      simp del: length_greater_0_conv intro!: diff_less dest: length_pos_if_in_set)

declare stringFromMap.simps [simp del]

definition userIDOf :: "event \<Rightarrow> string" where
  "userIDOf evt = (if UserID evt \<noteq> [] then UserID evt else stringFromMap (Attributes evt) ''user.id'')"

fun first_nonempty :: "string list \<Rightarrow> string" where
  "first_nonempty [] = []"
| "first_nonempty (s # ss) = (if s \<noteq> [] then s else first_nonempty ss)"

definition releaseOf :: "event \<Rightarrow> string" where
  "releaseOf evt = first_nonempty
     [stringFromMap (Attributes evt) ''release'',
      stringFromMap (Attributes evt) ''service.version'',
      stringFromMap (Resource evt) ''service.version'',
      stringFromMap (Attributes evt) ''app.version'']"

definition releaseEnvironmentOf :: "event \<Rightarrow> string" where
  "releaseEnvironmentOf evt =
     (let env = stringFromMap (Attributes evt) ''deployment.environment''
      in if env \<noteq> [] then env else stringFromMap (Resource evt) ''deployment.environment'')"

definition named_fields :: "jobj \<Rightarrow> string list \<Rightarrow> (string \<times> string) list" where
  "named_fields m names =
     filter (\<lambda>(k, v). v \<noteq> []) (map (\<lambda>f. (f, stringFromMap m f)) names)"

definition extractFacets :: "event \<Rightarrow> (string \<times> string) list" where
  "extractFacets evt =
     named_fields (Resource evt)
       [''host.name'', ''service.name'', ''telemetry.sdk.language'', ''deployment.environment'']
     @ named_fields (Attributes evt)
       [''http.route'', ''http.status_code'', ''http.method'', ''user_agent.original'']
     @ filter (\<lambda>(k, v). v \<noteq> [])
       [(''user.id'', userIDOf evt), (''severity'', Severity evt),
        (''environment'', releaseEnvironmentOf evt), (''release'', releaseOf evt)]"

section \<open>Timestamps\<close>

definition issueSeenAt :: "time \<Rightarrow> event \<Rightarrow> time" where
  "issueSeenAt now evt =
     (if ObservedAt evt \<noteq> zero_time then ObservedAt evt
      else if ReceivedAt evt \<noteq> zero_time then ReceivedAt evt
      else now)"

definition eventTimestamps :: "time \<Rightarrow> event \<Rightarrow> time \<times> time" where
  "eventTimestamps now evt =
     (let receivedAt = (if ReceivedAt evt = zero_time then issueSeenAt now evt else ReceivedAt evt);
          observedAt = (if ObservedAt evt = zero_time then receivedAt else ObservedAt evt)
      in (receivedAt, observedAt))"

section \<open>Title and fingerprint\<close>

definition str_field :: "jobj \<Rightarrow> string \<Rightarrow> string" where
  "str_field m k = (case map_of m k of Some (JStr s) \<Rightarrow> s | _ \<Rightarrow> [])"

text \<open>The name and the message of \<open>rawScrubbedFallback\<close>; its source field is not read here.\<close>

definition rawScrubbedFallback :: "jobj \<Rightarrow> string \<times> string" where
  "rawScrubbedFallback raw =
     (str_field raw ''name'',
      case map_of raw ''properties'' of
        Some (JObj props) \<Rightarrow> str_field props ''message''
      | _ \<Rightarrow> [])"

definition event_title :: "string \<Rightarrow> string \<Rightarrow> string" where
  "event_title exceptionType message =
     (if exceptionType \<noteq> [] \<and> message \<noteq> [] then exceptionType @ '': '' @ message
      else if exceptionType \<noteq> [] then exceptionType else message)"

definition event_message :: "event \<Rightarrow> string" where
  "event_message evt =
     (let m = trim_space (ExcMessage evt) in if m = [] then trim_space (Message evt) else m)"

definition maxTitleLen :: nat where "maxTitleLen = 512"

definition issueDetails :: "(string \<Rightarrow> string) \<Rightarrow> event \<Rightarrow> string \<times> string \<times> string" where
  "issueDetails normalise evt =
     (let et = trim_space (ExcType evt); msg = event_message evt;
          raw = rawScrubbedFallback (RawScrubbed evt);
          fallback = (et = [] \<and> msg = [] \<and> (fst raw \<noteq> [] \<or> snd raw \<noteq> []));
          exceptionType = (if fallback then trim_space (fst raw) else et);
          message = (if fallback then trim_space (snd raw) else msg);
          title = take maxTitleLen (event_title exceptionType message)
      in (title, take maxTitleLen (normalise title), exceptionType))"

definition fingerprintFromEvent :: "(string \<Rightarrow> string) \<Rightarrow> event \<Rightarrow> string" where
  "fingerprintFromEvent normalise evt = normalise (event_title (trim_space (ExcType evt)) (event_message evt))"

section \<open>Facets\<close>

definition nonblank :: "string \<Rightarrow> bool" where "nonblank s \<longleftrightarrow> trim_space s \<noteq> []"

fun flattenFacets :: "string \<Rightarrow> jval \<Rightarrow> (string \<times> string) list"
  and flatten_obj :: "string \<Rightarrow> jobj \<Rightarrow> (string \<times> string) list"
  and flatten_arr :: "string \<Rightarrow> nat \<Rightarrow> jval list \<Rightarrow> (string \<times> string) list" where
  "flattenFacets prefix (JObj kvs) = flatten_obj prefix kvs"
| "flattenFacets prefix (JArr vs) = flatten_arr prefix 0 vs"
| "flattenFacets prefix (JStr s) =
     (if \<not> nonblank s \<or> \<not> nonblank prefix then [] else [(prefix, s)])"
| "flattenFacets prefix (JBool b) =
     (if \<not> nonblank prefix then [] else [(prefix, if b then ''true'' else ''false'')])"
| "flattenFacets prefix (JNum _ plain) = (if \<not> nonblank prefix then [] else [(prefix, plain)])"
| "flattenFacets prefix JNull = []"
| "flattenFacets prefix (JOther s) = (if \<not> nonblank prefix then [] else [(prefix, s)])"
| "flatten_obj prefix [] = []"
| "flatten_obj prefix ((key, v) # rest) =
     flattenFacets (if prefix \<noteq> [] then prefix @ CHR ''.'' # key else key) v @ flatten_obj prefix rest"
| "flatten_arr prefix idx [] = []"
| "flatten_arr prefix idx (v # rest) =
     flattenFacets (prefix @ ''['' @ itoa (int idx) @ '']'') v @ flatten_arr prefix (Suc idx) rest"

definition event_facet_map :: "event \<Rightarrow> jval" where
  "event_facet_map evt = JObj
     [(''severity'', JStr (Severity evt)), (''message'', JStr (Message evt)),
      (''traceId'', JStr (TraceID evt)), (''spanId'', JStr (SpanID evt)),
      (''sdkName'', JStr (SDKName evt)), (''exception'', JOther (ExcText evt)),
      (''attributes'', JObj (Attributes evt)), (''resource'', JObj (Resource evt))]"

end
