(* ===== verification/Facets.thy ===== *)
theory Facets
  imports EventData
begin

text \<open>
  The issue-level facet projection (\<open>internal/storage/facets.go\<close>, \<open>events.go\<close>)
  and the automatic release rows (\<open>release_auto.go\<close>).  The table \<open>issue_facets\<close>
  is a list of distinct rows (its primary key is the whole row); each write function runs in
  one transaction, so a failing statement, passed as an error argument, leaves the table as
  it was.
\<close>

type_synonym facet_row = "int \<times> int \<times> string \<times> string"

record release_row =
  rel_project :: int
  rel_name :: string
  rel_environment :: string
  rel_observed :: time
  rel_version :: string
  rel_created_by :: string

record facet_db =
  fd_rows :: "facet_row list"
  fd_releases :: "release_row list"
  fd_seen :: "(int \<times> string \<times> string) list"

definition maxFacetKeysPerProject :: nat where "maxFacetKeysPerProject = 50"
definition maxFacetValuesPerKey :: nat where "maxFacetValuesPerKey = 10000"
definition maxFacetValueLength :: nat where "maxFacetValueLength = 200"
definition seenReleasesCap :: nat where "seenReleasesCap = 10000"

definition facetProjectionExcluded :: "string \<Rightarrow> string \<Rightarrow> bool" where
  "facetProjectionExcluded key val \<longleftrightarrow>
     key \<in> {''message'', ''traceId'', ''spanId'', ''exception''}
     \<or> has_prefix key ''exception.stacktrace''
     \<or> length val > maxFacetValueLength"

text \<open>\<open>INSERT OR IGNORE\<close>.\<close>

definition insert_facet :: "facet_row \<Rightarrow> facet_row list \<Rightarrow> facet_row list" where
  "insert_facet r rows = (if r \<in> set rows then rows else rows @ [r])"

definition facet_keys :: "int \<Rightarrow> facet_row list \<Rightarrow> string set" where
  "facet_keys pid rows = (\<lambda>(p, i, k, v). k) ` {r \<in> set rows. fst r = pid}"

definition facet_values :: "int \<Rightarrow> string \<Rightarrow> facet_row list \<Rightarrow> string set" where
  "facet_values pid key rows =
     (\<lambda>(p, i, k, v). v) ` {r \<in> set rows. fst r = pid \<and> fst (snd (snd r)) = key}"

definition count_keys :: "int \<Rightarrow> facet_row list \<Rightarrow> nat" where
  "count_keys pid rows =
     length (remdups (map (\<lambda>(p, i, k, v). k) (filter (\<lambda>r. fst r = pid) rows)))"

definition count_values :: "int \<Rightarrow> string \<Rightarrow> facet_row list \<Rightarrow> nat" where
  "count_values pid key rows =
     length (remdups (map (\<lambda>(p, i, k, v). v)
       (filter (\<lambda>r. fst r = pid \<and> fst (snd (snd r)) = key) rows)))"

definition key_exists :: "int \<Rightarrow> string \<Rightarrow> facet_row list \<Rightarrow> bool" where
  "key_exists pid k rows = list_ex (\<lambda>(p, i, k', v). p = pid \<and> k' = k) rows"

definition value_exists :: "int \<Rightarrow> string \<Rightarrow> string \<Rightarrow> facet_row list \<Rightarrow> bool" where
  "value_exists pid k v rows = list_ex (\<lambda>(p, i, k', v'). p = pid \<and> k' = k \<and> v' = v) rows"

text \<open>The lazily loaded key counter: \<open>None\<close> until a caller asks for it.\<close>

definition counter_get :: "int \<Rightarrow> facet_row list \<Rightarrow> nat option \<Rightarrow> nat \<times> nat option" where
  "counter_get pid rows c = (case c of
     Some n \<Rightarrow> (n, Some n)
   | None \<Rightarrow> (let n = count_keys pid rows in (n, Some n)))"

definition counter_inc :: "nat option \<Rightarrow> nat option" where
  "counter_inc c = map_option Suc c"

definition persistFacet ::
  "int \<Rightarrow> int \<Rightarrow> string \<Rightarrow> string \<Rightarrow> nat option \<Rightarrow> facet_row list
   \<Rightarrow> bool \<times> nat option \<times> facet_row list" where
  "persistFacet pid iid k v c rows =
     (let isNewKey = \<not> key_exists pid k rows;
          (n, c') = (if isNewKey then counter_get pid rows c else (0, c))
      in if isNewKey \<and> n \<ge> maxFacetKeysPerProject then (False, c', rows)
         else if \<not> value_exists pid k v rows \<and> count_values pid k rows \<ge> maxFacetValuesPerKey
         then (False, c', rows)
         else (isNewKey, c', insert_facet (pid, iid, k, v) rows))"

fun persist_loop ::
  "int \<Rightarrow> int \<Rightarrow> (string \<times> string) list \<Rightarrow> nat option \<Rightarrow> facet_row list \<Rightarrow> facet_row list" where
  "persist_loop pid iid [] c rows = rows"
| "persist_loop pid iid ((k, v) # kvs) c rows =
     (if \<not> nonblank k \<or> \<not> nonblank v \<or> facetProjectionExcluded k v
      then persist_loop pid iid kvs c rows
      else case persistFacet pid iid k v c rows of
        (inserted, c', rows') \<Rightarrow>
          persist_loop pid iid kvs (if inserted then counter_inc c' else c') rows')"

definition PersistFacets ::
  "db_error option \<Rightarrow> int \<Rightarrow> int \<Rightarrow> (string \<times> string) list \<Rightarrow> facet_row list
   \<Rightarrow> db_error option \<times> facet_row list" where
  "PersistFacets fault pid iid facets rows =
     (if facets = [] then (None, rows)
      else case fault of
        Some e \<Rightarrow> (Some e, rows)
      | None \<Rightarrow> (None, persist_loop pid iid facets None rows))"

definition insertFacets ::
  "db_error option \<Rightarrow> int \<Rightarrow> int \<Rightarrow> event \<Rightarrow> facet_row list \<Rightarrow> db_error option \<times> facet_row list" where
  "insertFacets fault pid iid evt rows =
     (case fault of
        Some e \<Rightarrow> (Some e, rows)
      | None \<Rightarrow> (None, foldl (\<lambda>rs (k, v). if facetProjectionExcluded k v then rs
                                   else insert_facet (pid, iid, k, v) rs)
                   rows (flattenFacets [] (event_facet_map evt))))"

section \<open>Automatic releases\<close>

definition seen_add :: "int \<times> string \<times> string \<Rightarrow> (int \<times> string \<times> string) list \<Rightarrow> (int \<times> string \<times> string) list" where
  "seen_add key m = (let m' = (if length m \<ge> seenReleasesCap then [] else m)
     in if key \<in> set m' then m' else m' @ [key])"

definition release_matches :: "int \<Rightarrow> string \<Rightarrow> string \<Rightarrow> release_row \<Rightarrow> bool" where
  "release_matches pid version env r \<longleftrightarrow>
     rel_project r = pid \<and> (rel_version r = version \<or> rel_name r = version)
     \<and> (env = [] \<or> rel_environment r = [] \<or> rel_environment r = env)"

text \<open>\<open>readErr\<close> and \<open>insErr\<close> are failing statements: logged, never returned.\<close>

definition ensureRelease :: "time \<Rightarrow> bool \<Rightarrow> bool \<Rightarrow> int \<Rightarrow> event \<Rightarrow> facet_db \<Rightarrow> facet_db" where
  "ensureRelease now readErr insErr pid evt db =
     (let version = trim_space (releaseOf evt); env = releaseEnvironmentOf evt;
          key = (pid, version, env)
      in if version = [] \<or> key \<in> set (fd_seen db) \<or> readErr then db
         else if list_ex (release_matches pid version env) (fd_releases db)
         then db\<lparr>fd_seen := seen_add key (fd_seen db)\<rparr>
         else if insErr then db
         else
           let observed = (if ObservedAt evt \<noteq> zero_time then ObservedAt evt
                 else if ReceivedAt evt \<noteq> zero_time then ReceivedAt evt else now)
           in db\<lparr>fd_releases := fd_releases db @
                  [\<lparr>rel_project = pid, rel_name = version, rel_environment = env,
                    rel_observed = observed, rel_version = version, rel_created_by = ''auto''\<rparr>],
                 fd_seen := seen_add key (fd_seen db)\<rparr>)"

record facet_faults =
  ff_insert :: "db_error option"
  ff_persist :: "db_error option"
  ff_relRead :: bool
  ff_relInsert :: bool

text \<open>\<open>ord\<close> is the order in which Go happens to iterate the map of curated facets.\<close>

definition persistFacetsFor ::
  "((string \<times> string) list \<Rightarrow> (string \<times> string) list) \<Rightarrow> time \<Rightarrow> facet_faults \<Rightarrow> int \<Rightarrow> int \<Rightarrow> event
   \<Rightarrow> facet_db \<Rightarrow> db_error option \<times> facet_db" where
  "persistFacetsFor ord now fl pid iid evt db =
     (case insertFacets (ff_insert fl) pid iid evt (fd_rows db) of
        (Some e, rows) \<Rightarrow> (Some e, db\<lparr>fd_rows := rows\<rparr>)
      | (None, rows) \<Rightarrow>
          (case PersistFacets (ff_persist fl) pid iid (ord (extractFacets evt)) rows of
             (Some e, rows') \<Rightarrow> (Some e, db\<lparr>fd_rows := rows'\<rparr>)
           | (None, rows') \<Rightarrow>
               (None, ensureRelease now (ff_relRead fl) (ff_relInsert fl) pid evt
                  (db\<lparr>fd_rows := rows'\<rparr>))))"

section \<open>The cardinality guards\<close>

lemma count_keys_card: "count_keys pid rows = card (facet_keys pid rows)"
  by (simp add: count_keys_def facet_keys_def length_remdups_card_conv)

lemma count_values_card: "count_values pid k rows = card (facet_values pid k rows)"
  by (simp add: count_values_def facet_values_def length_remdups_card_conv conj_commute)

lemma key_exists_iff: "key_exists pid k rows \<longleftrightarrow> k \<in> facet_keys pid rows"
  by (force simp: key_exists_def facet_keys_def list_ex_iff)

lemma value_exists_iff: "value_exists pid k v rows \<longleftrightarrow> v \<in> facet_values pid k rows"
  by (force simp: value_exists_def facet_values_def list_ex_iff)

lemma finite_facets [simp]: "finite (facet_keys pid rows)" "finite (facet_values pid k rows)"
  by (simp_all add: facet_keys_def facet_values_def)

lemma set_insert_facet: "set (insert_facet r rows) = insert r (set rows)"
  by (auto simp: insert_facet_def)

lemma facet_keys_alt: "facet_keys pid rows = {k. \<exists>i v. (pid, i, k, v) \<in> set rows}"
  by (force simp: facet_keys_def)

lemma facet_values_alt: "facet_values pid k rows = {v. \<exists>i. (pid, i, k, v) \<in> set rows}"
  by (force simp: facet_values_def)

lemma facet_keys_insert:
  "facet_keys p (insert_facet (pid, iid, k, v) rows) =
     (if p = pid then insert k (facet_keys p rows) else facet_keys p rows)"
  by (auto simp: facet_keys_alt set_insert_facet)

lemma facet_values_insert:
  "facet_values p q (insert_facet (pid, iid, k, v) rows) =
     (if p = pid \<and> q = k then insert v (facet_values p q rows) else facet_values p q rows)"
  by (auto simp: facet_values_alt set_insert_facet)

lemmas facet_cards = count_keys_card count_values_card key_exists_iff value_exists_iff
  facet_keys_insert facet_values_insert

definition counter_valid :: "int \<Rightarrow> facet_row list \<Rightarrow> nat option \<Rightarrow> bool" where
  "counter_valid pid rows c \<longleftrightarrow> (case c of None \<Rightarrow> True | Some n \<Rightarrow> n = card (facet_keys pid rows))"

definition within_caps :: "int \<Rightarrow> nat \<Rightarrow> (string \<Rightarrow> nat) \<Rightarrow> facet_row list \<Rightarrow> bool" where
  "within_caps pid K V rows \<longleftrightarrow>
     card (facet_keys pid rows) \<le> K \<and> (\<forall>k. card (facet_values pid k rows) \<le> V k)"

lemma counter_get_valid:
  "counter_valid pid rows c \<Longrightarrow>
   counter_get pid rows c = (card (facet_keys pid rows), Some (card (facet_keys pid rows)))"
  by (auto simp: counter_valid_def counter_get_def count_keys_card Let_def split: option.splits)

text \<open>The lazy counter always agrees with the table, so the guards see the real count.\<close>

lemma persistFacet_step:
  assumes "counter_valid pid rows c" "persistFacet pid iid k v c rows = (ins, c', rows')"
  shows "counter_valid pid rows' (if ins then counter_inc c' else c')"
  using assms
  by (auto simp: persistFacet_def facet_cards counter_get_valid counter_valid_def counter_inc_def
      insert_absorb Let_def split: if_splits option.splits prod.splits)

lemma persistFacet_caps:
  assumes "counter_valid pid rows c" "persistFacet pid iid k v c rows = (ins, c', rows')"
    and "within_caps pid K V rows" "maxFacetKeysPerProject \<le> K" "\<forall>q. maxFacetValuesPerKey \<le> V q"
  shows "within_caps pid K V rows'"
proof -
  have "rows' = rows \<or> rows' = insert_facet (pid, iid, k, v) rows
      \<and> (k \<in> facet_keys pid rows \<or> card (facet_keys pid rows) < maxFacetKeysPerProject)
      \<and> (v \<in> facet_values pid k rows \<or> card (facet_values pid k rows) < maxFacetValuesPerKey)"
    using assms(1,2)
    by (auto simp: persistFacet_def facet_cards counter_get_valid Let_def split: if_splits prod.splits)
  then show ?thesis
  proof
    assume "rows' = rows" then show ?thesis using assms(3) by simp
  next
    assume ins: "rows' = insert_facet (pid, iid, k, v) rows
      \<and> (k \<in> facet_keys pid rows \<or> card (facet_keys pid rows) < maxFacetKeysPerProject)
      \<and> (v \<in> facet_values pid k rows \<or> card (facet_values pid k rows) < maxFacetValuesPerKey)"
    note r = conjunct1 [OF ins] and k = conjunct1 [OF conjunct2 [OF ins]]
      and v = conjunct2 [OF conjunct2 [OF ins]]
    have "card (facet_keys pid rows') \<le> K"
      using k assms(3,4) by (auto simp: within_caps_def r facet_cards card_insert_if)
    moreover have "card (facet_values pid q rows') \<le> V q" for q
    proof -
      have "maxFacetValuesPerKey \<le> V q" using assms(5) by blast
      then show "card (facet_values pid q rows') \<le> V q"
        using v assms(3)
        by (auto simp: within_caps_def r facet_cards card_insert_if Suc_le_eq dest: less_le_trans)
    qed
    ultimately show ?thesis by (simp add: within_caps_def)
  qed
qed

lemma persist_loop_caps:
  "counter_valid pid rows c \<Longrightarrow> within_caps pid K V rows \<Longrightarrow> maxFacetKeysPerProject \<le> K \<Longrightarrow>
   \<forall>q. maxFacetValuesPerKey \<le> V q \<Longrightarrow> within_caps pid K V (persist_loop pid iid kvs c rows)"
proof (induction kvs arbitrary: c rows)
  case (Cons kv kvs)
  obtain k v where kv: "kv = (k, v)" by (cases kv)
  obtain ins c' rows' where s: "persistFacet pid iid k v c rows = (ins, c', rows')"
    by (metis prod_cases3)
  show ?case
    using Cons.IH [of rows c] Cons.IH [OF persistFacet_step [OF Cons.prems(1) s]]
      persistFacet_caps [OF Cons.prems(1) s] Cons.prems
    by (auto simp: kv s)
qed simp

lemma persist_loop_full:
  "counter_valid pid rows c \<Longrightarrow> maxFacetKeysPerProject \<le> card (facet_keys pid rows) \<Longrightarrow>
   facet_keys pid (persist_loop pid iid kvs c rows) = facet_keys pid rows"
proof (induction kvs arbitrary: c rows)
  case (Cons kv kvs)
  obtain k v where kv: "kv = (k, v)" by (cases kv)
  obtain ins c' rows' where s: "persistFacet pid iid k v c rows = (ins, c', rows')"
    by (metis prod_cases3)
  have "facet_keys pid rows' = facet_keys pid rows"
    using s Cons.prems
    by (auto simp: persistFacet_def facet_cards counter_get_valid Let_def insert_absorb
        split: if_splits prod.splits)
  then show ?case
    using Cons.IH [of rows c] Cons.IH [OF persistFacet_step [OF Cons.prems(1) s]] Cons.prems
    by (auto simp: kv s)
qed simp

text \<open>The curated facets respect the cardinality guards: however many pairs are persisted
  and in whatever order, the project's distinct keys never grow past 50 and the distinct
  values of a key never past 10000 (beyond what the table already held), the lazily loaded
  key count notwithstanding; a project already at 50 keys gains none.\<close>

theorem facet_caps:
  "card (facet_keys pid (snd (PersistFacets fault pid iid facets rows)))
      \<le> max (card (facet_keys pid rows)) 50
   \<and> card (facet_values pid k (snd (PersistFacets fault pid iid facets rows)))
      \<le> max (card (facet_values pid k rows)) 10000"
proof -
  have "within_caps pid (max (card (facet_keys pid rows)) 50)
      (\<lambda>q. max (card (facet_values pid q rows)) 10000)
      (persist_loop pid iid facets None rows)"
    by (rule persist_loop_caps)
       (auto simp: counter_valid_def within_caps_def maxFacetKeysPerProject_def
         maxFacetValuesPerKey_def)
  then show ?thesis
    by (auto simp: PersistFacets_def within_caps_def split: option.splits)
qed

section \<open>The flattened payload is not guarded\<close>

definition blank_event :: event where
  "blank_event = \<lparr>ReceivedAt = zero_time, ObservedAt = zero_time, Severity = [], Message = [],
     ExcType = [], ExcMessage = [], ExcText = [], Resource = [], Attributes = [], TraceID = [],
     SpanID = [], SDKName = [], EvFingerprint = [], EvMaterial = [], EvExplanation = [],
     RawScrubbed = [], UserID = []\<rparr>"

definition wide_event :: "nat \<Rightarrow> event" where
  "wide_event n = blank_event\<lparr>Attributes := map (\<lambda>i. (nat_str i, JStr ''x'')) [0..<n]\<rparr>"

definition attr_key :: "nat \<Rightarrow> string" where "attr_key i = ''attributes'' @ CHR ''.'' # nat_str i"

lemma nonblank_attr: "nonblank (attr_key i)"
  by (auto simp: attr_key_def nonblank_def trim_space_def is_space_def dropWhile_append)

lemma flatten_wide:
  "flatten_obj ''attributes'' (map (\<lambda>i. (nat_str i, JStr ''x'')) is) = map (\<lambda>i. (attr_key i, ''x'')) is"
proof (induction "is")
  case (Cons i "is")
  have "nonblank ''x''" by (simp add: nonblank_def trim_space_def is_space_def)
  then show ?case using Cons nonblank_attr [of i] by (simp add: attr_key_def)
qed simp

lemma attr_key_not_excluded: "\<not> facetProjectionExcluded (attr_key i) ''x''"
  by (simp add: facetProjectionExcluded_def attr_key_def has_prefix_def maxFacetValueLength_def)

lemma attr_key_inj: "inj attr_key"
  by (rule injI) (metis attr_key_def append_same_eq list.inject parse_digits_nat_str option.inject
      same_append_eq)

text \<open>The per-project cap of 50 facet keys does not hold of the table: the flattened
  payload is written without a guard, so one event with \<open>n\<close> attributes leaves the project
  with at least \<open>n\<close> keys; and from 50 keys on no new curated key (release, environment,
  user) is ever recorded for it.\<close>

theorem facet_keys_unbounded:
  "n \<le> card (facet_keys pid (snd (insertFacets None pid iid (wide_event n) rows)))
   \<and> (50 \<le> n \<longrightarrow>
       facet_keys pid (snd (PersistFacets None pid jid facets
          (snd (insertFacets None pid iid (wide_event n) rows))))
       = facet_keys pid (snd (insertFacets None pid iid (wide_event n) rows)))"
proof -
  let ?f = "\<lambda>rs (k, v). if facetProjectionExcluded k v then rs else insert_facet (pid, iid, k, v) rs"
  have keys: "facet_keys pid (foldl ?f rs (map (\<lambda>i. (attr_key i, ''x'')) is))
      = facet_keys pid rs \<union> attr_key ` set is" for rs "is"
    by (induction "is" arbitrary: rs) (auto simp: attr_key_not_excluded facet_keys_insert)
  have sub: "attr_key ` {0..<n} \<subseteq> facet_keys pid (snd (insertFacets None pid iid (wide_event n) rows))"
    by (simp add: insertFacets_def event_facet_map_def wide_event_def blank_event_def flatten_wide
        keys nonblank_def trim_space_def)
  have "card (attr_key ` {0..<n}) = n"
    using attr_key_inj by (simp add: card_image inj_on_subset)
  then have n: "n \<le> card (facet_keys pid (snd (insertFacets None pid iid (wide_event n) rows)))"
    using card_mono [OF finite_facets(1) sub] by simp
  then show ?thesis
    by (auto simp: PersistFacets_def counter_valid_def maxFacetKeysPerProject_def
        intro!: persist_loop_full)
qed

theorem facet_keys_unbounded_witness:
  "51 \<le> card (facet_keys 1 (snd (insertFacets None 1 1 (wide_event 51) [])))
   \<and> facet_keys 1 (snd (PersistFacets None 1 2 [(''release'', ''v2'')]
          (snd (insertFacets None 1 1 (wide_event 51) []))))
       = facet_keys 1 (snd (insertFacets None 1 1 (wide_event 51) []))"
  using facet_keys_unbounded [of 51 1 1 "[]" 2 "[(''release'', ''v2'')]"] by (simp del: upt_Suc)

section \<open>Automatic releases are recorded once\<close>

datatype release_op = Ensure (en_now: time) (en_readErr: bool) (en_insErr: bool) (en_pid: int) (en_event: event)

definition release_step :: "facet_db \<Rightarrow> release_op \<Rightarrow> facet_db" where
  "release_step db x = ensureRelease (en_now x) (en_readErr x) (en_insErr x) (en_pid x) (en_event x) db"

definition auto_keys :: "facet_db \<Rightarrow> (int \<times> string \<times> string) list" where
  "auto_keys db = map (\<lambda>r. (rel_project r, rel_version r, rel_environment r))
     (filter (\<lambda>r. rel_created_by r = ''auto'') (fd_releases db))"

definition releases_ok :: "facet_db \<Rightarrow> bool" where
  "releases_ok db \<longleftrightarrow> distinct (auto_keys db)
     \<and> (\<forall>(p, v, e) \<in> set (fd_seen db). list_ex (release_matches p v e) (fd_releases db))
     \<and> length (fd_seen db) \<le> seenReleasesCap"

lemma seen_add_set: "set (seen_add k m) \<subseteq> insert k (set m)"
  by (auto simp: seen_add_def Let_def)

lemma seen_add_length: "length m \<le> seenReleasesCap \<Longrightarrow> length (seen_add k m) \<le> seenReleasesCap"
  by (auto simp: seen_add_def Let_def seenReleasesCap_def)

lemma ensureRelease_ok: "releases_ok db \<Longrightarrow> releases_ok (ensureRelease now re ie pid evt db)"
proof -
  assume ok: "releases_ok db"
  define v where "v = trim_space (releaseOf evt)"
  define e where "e = releaseEnvironmentOf evt"
  have seen: "releases_ok (db\<lparr>fd_seen := seen_add (pid, v, e) (fd_seen db)\<rparr>)"
    if "list_ex (release_matches pid v e) (fd_releases db)"
    using ok that seen_add_set [of "(pid, v, e)" "fd_seen db"]
    by (fastforce simp: releases_ok_def auto_keys_def seen_add_length)
  have ins: "releases_ok (db\<lparr>fd_releases := fd_releases db @
      [\<lparr>rel_project = pid, rel_name = v, rel_environment = e, rel_observed = t,
        rel_version = v, rel_created_by = ''auto''\<rparr>], fd_seen := seen_add (pid, v, e) (fd_seen db)\<rparr>)"
    if "\<not> list_ex (release_matches pid v e) (fd_releases db)" for t
  proof -
    have "(pid, v, e) \<notin> set (auto_keys db)"
      using that by (auto simp: auto_keys_def release_matches_def list_ex_iff)
    then show ?thesis
      using ok seen_add_set [of "(pid, v, e)" "fd_seen db"]
      by (fastforce simp: releases_ok_def auto_keys_def seen_add_length release_matches_def)
  qed
  show ?thesis
    using ok seen ins unfolding ensureRelease_def v_def e_def Let_def by auto
qed

interpretation releases: guarded_machine release_step releases_ok "\<lambda>_. True"
  by unfold_locales (simp add: release_step_def ensureRelease_ok)

text \<open>Automatic release rows: however events, failing statements and clearings of the
  in-memory set interleave, no (project, version, environment) is recorded twice, the set
  stays within its cap, and an event whose statements succeed leaves a matching release.\<close>

theorem release_recorded_once:
  assumes "releases_ok db" "db' = foldl release_step db xs"
  shows "distinct (auto_keys db') \<and> length (fd_seen db') \<le> seenReleasesCap
    \<and> (trim_space (releaseOf evt) \<noteq> [] \<longrightarrow>
        list_ex (release_matches pid (trim_space (releaseOf evt)) (releaseEnvironmentOf evt))
          (fd_releases (ensureRelease now False False pid evt db')))"
proof -
  have ok: "releases_ok db'"
    using releases.run_inv [OF assms(1), of xs] assms(2) by (simp add: list.pred_True)
  then have "list_ex (release_matches pid (trim_space (releaseOf evt)) (releaseEnvironmentOf evt))
      (fd_releases (ensureRelease now False False pid evt db'))"
    if "trim_space (releaseOf evt) \<noteq> []"
    using that by (auto simp: ensureRelease_def releases_ok_def release_matches_def Let_def)
  then show ?thesis using ok by (simp add: releases_ok_def)
qed

definition release_event :: event where
  "release_event = blank_event\<lparr>Attributes := [(''release'', JStr ''v1'')]\<rparr>"

theorem release_recorded_once_witness:
  "distinct (auto_keys (foldl release_step \<lparr>fd_rows = [], fd_releases = [], fd_seen = []\<rparr>
     [Ensure 5 False False 1 release_event, Ensure 6 False True 1 release_event]))"
  using release_recorded_once [of "\<lparr>fd_rows = [], fd_releases = [], fd_seen = []\<rparr>" _
      "[Ensure 5 False False 1 release_event, Ensure 6 False True 1 release_event]" blank_event]
  by (simp add: releases_ok_def auto_keys_def)

end
