(* ===== verification/IssueLifecycle.thy ===== *)
theory IssueLifecycle
  imports Sampling Facets
begin

text \<open>
  The issue table and the ingest write path over it: \<open>internal/storage/issues_upsert.go\<close>,
  \<open>issues_insert.go\<close>, \<open>issue_status.go\<close>, \<open>issues_mutate.go\<close>,
  \<open>PersistProcessedEvent\<close> of \<open>storage.go\<close> and \<open>insertEvent\<close> of
  \<open>events.go\<close>.

  A table is a list of row records.  The functions that open a transaction are atomic: their
  error argument is the failure of any statement or of the commit, and then the tables are as
  before.  A timestamp column holding the empty string reads back as \<open>zero_time\<close>.
\<close>

section \<open>Tables\<close>

record issue_row =
  ir_id :: int
  ir_project :: int
  ir_fingerprint :: string
  ir_material :: string
  ir_explanation :: "string list"
  ir_title :: string
  ir_normalized :: string
  ir_excType :: string
  ir_status :: string
  ir_mute :: string
  ir_resolved :: time
  ir_reopened :: time
  ir_lastRegressed :: time
  ir_regressions :: int
  ir_firstSeen :: time
  ir_lastSeen :: time
  ir_count :: int
  ir_representative :: event
  ir_number :: int
  ir_firstRelease :: string

record event_row =
  er_id :: int
  er_project :: int
  er_issue :: int
  er_fingerprint :: string
  er_received :: time
  er_observed :: time
  er_severity :: string
  er_message :: string
  er_regressed :: bool
  er_payload :: event
  er_weight :: int

record regression_row =
  rg_project :: int
  rg_issue :: int
  rg_at :: time

text \<open>The issue counter and the display prefix of a project, beside its policy columns.\<close>

record project_ids =
  pi_id :: int
  pi_prefix :: string
  pi_counter :: int

record store =
  st_issues :: "issue_row list"
  st_events :: "event_row list"
  st_regressions :: "regression_row list"
  st_projects :: "project_ids list"
  st_limits :: limits_core
  st_facets :: facet_db
  st_nextIssue :: int
  st_nextEvent :: int

text \<open>The issue the upsert returns.\<close>

record issue =
  is_ID :: string
  is_Fingerprint :: string
  is_Material :: string
  is_Explanation :: "string list"
  is_Title :: string
  is_Normalized :: string
  is_ExcType :: string
  is_Status :: string
  is_Mute :: string
  is_Resolved :: time
  is_Reopened :: time
  is_LastRegressed :: time
  is_Regressions :: int
  is_FirstSeen :: time
  is_LastSeen :: time
  is_Count :: int
  is_Representative :: event
  is_Number :: int
  is_FirstRelease :: string
  is_ProjectSlug :: string

record processed =
  pe_Event :: event
  pe_Fingerprint :: string
  pe_Material :: string
  pe_Explanation :: "string list"

section \<open>The upsert\<close>

record upsert_inputs =
  ui_evt :: event
  ui_fingerprint :: string
  ui_material :: string
  ui_explanation :: "string list"
  ui_title :: string
  ui_normalized :: string
  ui_excType :: string
  ui_seenAt :: time

definition prepareUpsertInputs :: "(string \<Rightarrow> string) \<Rightarrow> time \<Rightarrow> processed \<Rightarrow> upsert_inputs" where
  "prepareUpsertInputs normalise now p =
     (let evt = pe_Event p;
          fp = trim_space (pe_Fingerprint p);
          mat = trim_space (pe_Material p);
          det = issueDetails normalise evt
      in \<lparr>ui_evt = evt,
          ui_fingerprint = (if fp = [] then fingerprintFromEvent normalise evt else fp),
          ui_material = (if mat = [] then EvMaterial evt else mat),
          ui_explanation = (if pe_Explanation p = [] then EvExplanation evt else pe_Explanation p),
          ui_title = fst det, ui_normalized = fst (snd det), ui_excType = snd (snd det),
          ui_seenAt = issueSeenAt now evt\<rparr>)"

definition findExistingIssue :: "int \<Rightarrow> string \<Rightarrow> issue_row list \<Rightarrow> issue_row option" where
  "findExistingIssue pid fp rows = List.find (\<lambda>r. ir_project r = pid \<and> ir_fingerprint r = fp) rows"

text \<open>The issue rebuilt from the stored row, with the event counted in.\<close>

definition hydrateExistingIssue :: "issue_row \<Rightarrow> upsert_inputs \<Rightarrow> issue" where
  "hydrateExistingIssue r i =
     \<lparr>is_ID = [], is_Fingerprint = ir_fingerprint r,
      is_Material = (if ir_material r = [] then ui_material i else ir_material r),
      is_Explanation = (if ir_explanation r = [] then ui_explanation i else ir_explanation r),
      is_Title = ir_title r, is_Normalized = ir_normalized r, is_ExcType = ir_excType r,
      is_Status = ir_status r, is_Mute = [],
      is_Resolved = ir_resolved r, is_Reopened = ir_reopened r,
      is_LastRegressed = ir_lastRegressed r, is_Regressions = ir_regressions r,
      is_FirstSeen = ir_firstSeen r,
      is_LastSeen = (if ui_seenAt i > ir_lastSeen r then ui_seenAt i else ir_lastSeen r),
      is_Count = ir_count r + 1, is_Representative = ir_representative r,
      is_Number = ir_number r, is_FirstRelease = [], is_ProjectSlug = []\<rparr>"

definition applyRegressionTransition :: "issue \<Rightarrow> string \<Rightarrow> time \<Rightarrow> issue \<times> bool" where
  "applyRegressionTransition iss muteMode seenAt =
     (let regressed = (is_Status iss = ''resolved''
            \<or> (muteMode = ''until_regression''
                \<and> (is_Status iss = ''resolved'' \<or> is_Status iss = ''muted'')))
      in if \<not> regressed then (iss, False)
         else if muteMode = ''forever'' then (iss, False)
         else
           (let iss' = (if muteMode = ''until_regression''
                  then iss\<lparr>is_Status := ''regressed'', is_Mute := []\<rparr>
                  else iss\<lparr>is_Status := ''unresolved''\<rparr>)
            in (iss'\<lparr>is_Regressions := is_Regressions iss' + 1,
                  is_Reopened := seenAt, is_LastRegressed := seenAt\<rparr>, True)))"

text \<open>The dynamic \<open>UPDATE\<close>: the regression columns only after a regression.\<close>

definition updateIssueRow :: "issue \<Rightarrow> bool \<Rightarrow> int \<Rightarrow> int \<Rightarrow> issue_row list \<Rightarrow> issue_row list" where
  "updateIssueRow iss regressed rid pid rows =
     map (\<lambda>r. if ir_id r = rid \<and> ir_project r = pid
        then (let r' = r\<lparr>ir_lastSeen := is_LastSeen iss, ir_count := ir_count r + 1\<rparr>
              in if regressed
                 then r'\<lparr>ir_status := is_Status iss, ir_mute := is_Mute iss,
                        ir_reopened := is_Reopened iss, ir_lastRegressed := is_LastRegressed iss,
                        ir_regressions := ir_regressions r' + 1\<rparr>
                 else r')
        else r) rows"

text \<open>\<open>prefixErr\<close> fails the read of the display prefix after the commit; the empty prefix is used.\<close>

definition project_prefix :: "bool \<Rightarrow> int \<Rightarrow> project_ids list \<Rightarrow> string" where
  "project_prefix prefixErr pid ps =
     (if prefixErr then [] else case List.find (\<lambda>p. pi_id p = pid) ps of None \<Rightarrow> [] | Some p \<Rightarrow> pi_prefix p)"

definition updateExistingIssue ::
  "bool \<Rightarrow> int \<Rightarrow> upsert_inputs \<Rightarrow> issue_row \<Rightarrow> store \<Rightarrow> (issue \<times> int \<times> bool) \<times> store" where
  "updateExistingIssue prefixErr pid i r st =
     (let (iss, regressed) =
            applyRegressionTransition ((hydrateExistingIssue r i)\<lparr>is_Mute := ir_mute r\<rparr>)
              (ir_mute r) (ui_seenAt i);
          st' = st\<lparr>st_issues := updateIssueRow iss regressed (ir_id r) pid (st_issues st)\<rparr>;
          iss' = iss\<lparr>is_Fingerprint := ui_fingerprint i, is_Representative := ui_evt i,
                 is_ID := displayIssueID (project_prefix prefixErr pid (st_projects st'))
                            (ir_number r) (ir_id r)\<rparr>
      in ((iss', ir_id r, regressed), st'))"

text \<open>\<open>None\<close> when the project has no row: the \<open>SELECT\<close> of the counter finds nothing.\<close>

definition allocateIssueNumber :: "int \<Rightarrow> project_ids list \<Rightarrow> (int \<times> string \<times> project_ids list) option" where
  "allocateIssueNumber pid ps =
     (let ps' = map (\<lambda>p. if pi_id p = pid then p\<lparr>pi_counter := pi_counter p + 1\<rparr> else p) ps
      in case List.find (\<lambda>p. pi_id p = pid) ps' of
           None \<Rightarrow> None
         | Some p \<Rightarrow> Some (pi_counter p, pi_prefix p, ps'))"

definition new_row :: "int \<Rightarrow> upsert_inputs \<Rightarrow> int \<Rightarrow> int \<Rightarrow> issue_row" where
  "new_row pid i number rid =
     \<lparr>ir_id = rid, ir_project = pid, ir_fingerprint = ui_fingerprint i,
      ir_material = ui_material i, ir_explanation = ui_explanation i,
      ir_title = ui_title i, ir_normalized = ui_normalized i, ir_excType = ui_excType i,
      ir_status = ''unresolved'', ir_mute = [], ir_resolved = zero_time,
      ir_reopened = zero_time, ir_lastRegressed = zero_time, ir_regressions = 0,
      ir_firstSeen = ui_seenAt i, ir_lastSeen = ui_seenAt i, ir_count = 1,
      ir_representative = ui_evt i, ir_number = number, ir_firstRelease = releaseOf (ui_evt i)\<rparr>"

definition insertIssueRow :: "int \<Rightarrow> upsert_inputs \<Rightarrow> int \<Rightarrow> store \<Rightarrow> int \<times> store" where
  "insertIssueRow pid i number st =
     (st_nextIssue st,
      st\<lparr>st_issues := st_issues st @ [new_row pid i number (st_nextIssue st)],
         st_nextIssue := st_nextIssue st + 1\<rparr>)"

definition insertNewIssue ::
  "int \<Rightarrow> upsert_inputs \<Rightarrow> store \<Rightarrow> (db_error + issue \<times> int \<times> bool) \<times> store" where
  "insertNewIssue pid i st =
     (case allocateIssueNumber pid (st_projects st) of
        None \<Rightarrow> (Inl NoRows, st)
      | Some (number, prefix, ps') \<Rightarrow>
          (let (rid, st') = insertIssueRow pid i number (st\<lparr>st_projects := ps'\<rparr>)
           in (Inr (\<lparr>is_ID = displayIssueID prefix number rid, is_Fingerprint = ui_fingerprint i,
                 is_Material = ui_material i, is_Explanation = ui_explanation i,
                 is_Title = ui_title i, is_Normalized = ui_normalized i, is_ExcType = ui_excType i,
                 is_Status = ''unresolved'', is_Mute = [], is_Resolved = zero_time,
                 is_Reopened = zero_time, is_LastRegressed = zero_time, is_Regressions = 0,
                 is_FirstSeen = ui_seenAt i, is_LastSeen = ui_seenAt i, is_Count = 1,
                 is_Representative = ui_evt i, is_Number = number,
                 is_FirstRelease = releaseOf (ui_evt i), is_ProjectSlug = []\<rparr>, rid, False), st')))"

text \<open>\<open>fault\<close> is the failure of the transaction, \<open>prefixErr\<close> of the read after it.\<close>

definition upsertIssue ::
  "(string \<Rightarrow> string) \<Rightarrow> time \<Rightarrow> db_error option \<Rightarrow> bool \<Rightarrow> int \<Rightarrow> processed \<Rightarrow> store
   \<Rightarrow> (db_error + issue \<times> int \<times> bool) \<times> store" where
  "upsertIssue normalise now fault prefixErr pid p st =
     (let i = prepareUpsertInputs normalise now p
      in case fault of
           Some e \<Rightarrow> (Inl e, st)
         | None \<Rightarrow>
             (case findExistingIssue pid (ui_fingerprint i) (st_issues st) of
                Some r \<Rightarrow> (case updateExistingIssue prefixErr pid i r st of (res, st') \<Rightarrow> (Inr res, st'))
              | None \<Rightarrow> insertNewIssue pid i st))"

section \<open>Storing an event\<close>

definition insertEvent ::
  "time \<Rightarrow> db_error option \<Rightarrow> int \<Rightarrow> int \<Rightarrow> bool \<Rightarrow> int \<Rightarrow> processed \<Rightarrow> store
   \<Rightarrow> (db_error + event_row) \<times> store" where
  "insertEvent now fault pid iid regressed weight p st =
     (case fault of
        Some e \<Rightarrow> (Inl e, st)
      | None \<Rightarrow>
          (let (receivedAt, observedAt) = eventTimestamps now (pe_Event p);
               row = \<lparr>er_id = st_nextEvent st, er_project = pid, er_issue = iid,
                 er_fingerprint = pe_Fingerprint p, er_received = receivedAt,
                 er_observed = observedAt, er_severity = Severity (pe_Event p),
                 er_message = Message (pe_Event p), er_regressed = regressed,
                 er_payload = pe_Event p, er_weight = weight\<rparr>
           in (Inr row, st\<lparr>st_events := st_events st @ [row], st_nextEvent := st_nextEvent st + 1\<rparr>)))"

definition projectSlugByID :: "bool \<Rightarrow> int \<Rightarrow> project_row list \<Rightarrow> string" where
  "projectSlugByID readErr pid rows =
     (if readErr then [] else case List.find (\<lambda>r. pr_id r = pid) rows of None \<Rightarrow> [] | Some r \<Rightarrow> pr_slug r)"

record persist_faults =
  pf_upsert :: "db_error option"
  pf_prefix :: bool
  pf_slug :: bool
  pf_regression :: bool
  pf_limits :: bool
  pf_event :: "db_error option"
  pf_facets :: facet_faults

type_synonym facet_order = "(string \<times> string) list \<Rightarrow> (string \<times> string) list"

record persist_env =
  en_norm :: "string \<Rightarrow> string"
  en_ord :: facet_order

text \<open>The result: the issue, the stored event if the event was kept, and the two flags.\<close>

type_synonym persist_result = "db_error + issue \<times> event_row option \<times> bool \<times> bool"

definition PersistProcessedEvent ::
  "persist_env \<Rightarrow> time \<Rightarrow> persist_faults \<Rightarrow> int \<Rightarrow> processed \<Rightarrow> store \<Rightarrow> persist_result \<times> store" where
  "PersistProcessedEvent env now fl pid p st =
     (case upsertIssue (en_norm env) now (pf_upsert fl) (pf_prefix fl) pid p st of
        (Inl e, st1) \<Rightarrow> (Inl e, st1)
      | (Inr (iss0, iid, regressed), st1) \<Rightarrow>
          (let iss = iss0\<lparr>is_ProjectSlug := projectSlugByID (pf_slug fl) pid (lc_rows (st_limits st1))\<rparr>;
               st2 = (if regressed \<and> \<not> pf_regression fl
                 then st1\<lparr>st_regressions := st_regressions st1 @
                        [\<lparr>rg_project = pid, rg_issue = iid, rg_at = is_LastRegressed iss\<rparr>]\<rparr>
                 else st1);
               isNew = (is_Count iss = 1 \<and> \<not> regressed);
               (threshold, core') = sampleAfterFor now (pf_limits fl) pid (st_limits st2);
               st3 = st2\<lparr>st_limits := core'\<rparr>;
               (keep, weight) = sampleFor (is_Count iss) threshold
           in if \<not> keep then
                (case persistFacetsFor (en_ord env) now (pf_facets fl) pid iid (pe_Event p) (st_facets st3) of
                   (Some e, fd) \<Rightarrow> (Inl e, st3\<lparr>st_facets := fd\<rparr>)
                 | (None, fd) \<Rightarrow> (Inr (iss, None, isNew, regressed), st3\<lparr>st_facets := fd\<rparr>))
              else
                (case insertEvent now (pf_event fl) pid iid regressed weight p st3 of
                   (Inl e, st4) \<Rightarrow> (Inl e, st4)
                 | (Inr row, st4) \<Rightarrow>
                     (case persistFacetsFor (en_ord env) now (pf_facets fl) pid iid (pe_Event p) (st_facets st4) of
                        (Some e, fd) \<Rightarrow> (Inl e, st4\<lparr>st_facets := fd\<rparr>)
                      | (None, fd) \<Rightarrow>
                          (Inr (iss, Some row, isNew, regressed), st4\<lparr>st_facets := fd\<rparr>)))))"

section \<open>Status changes by a user\<close>

definition IssueRowIDByDisplayID :: "bool \<Rightarrow> string \<Rightarrow> store \<Rightarrow> app_error + int" where
  "IssueRowIDByDisplayID readErr displayID st =
     (case parseIssueID displayID of
        Inl e \<Rightarrow> Inl e
      | Inr (prefix, number) \<Rightarrow>
          if prefix = [] then Inr number
          else if readErr then Inl (Internal ''issue not found'')
          else case List.find (\<lambda>r. ir_number r = number
                 \<and> list_ex (\<lambda>p. pi_id p = ir_project r \<and> pi_prefix p = prefix) (st_projects st))
                 (st_issues st) of
             None \<Rightarrow> Inl (NotFound ''issue not found'')
           | Some r \<Rightarrow> Inr (ir_id r))"

definition update_row :: "int \<Rightarrow> (issue_row \<Rightarrow> issue_row) \<Rightarrow> store \<Rightarrow> store" where
  "update_row rid f st = st\<lparr>st_issues := map (\<lambda>r. if ir_id r = rid then f r else r) (st_issues st)\<rparr>"

definition issueByRowID :: "int \<Rightarrow> store \<Rightarrow> app_error + issue_row" where
  "issueByRowID rid st =
     (case List.find (\<lambda>r. ir_id r = rid) (st_issues st) of
        None \<Rightarrow> Inl (NotFound ''issue not found'')
      | Some r \<Rightarrow> Inr r)"

definition GetIssue :: "bool \<Rightarrow> string \<Rightarrow> store \<Rightarrow> app_error + issue_row" where
  "GetIssue readErr displayID st =
     (case IssueRowIDByDisplayID readErr displayID st of
        Inl e \<Rightarrow> Inl e
      | Inr rid \<Rightarrow> issueByRowID rid st)"

text \<open>\<open>readErr\<close> fails the id lookup, \<open>execErr\<close> the update; the row is read back last.\<close>

definition setIssueStatus ::
  "time \<Rightarrow> bool \<Rightarrow> db_error option \<Rightarrow> string \<Rightarrow> string \<Rightarrow> store \<Rightarrow> (app_error + issue_row) \<times> store" where
  "setIssueStatus now readErr execErr displayID status st =
     (case IssueRowIDByDisplayID readErr displayID st of
        Inl e \<Rightarrow> (Inl e, st)
      | Inr rid \<Rightarrow>
          (case execErr of
             Some e \<Rightarrow> (Inl (Internal (error_text e)), st)
           | None \<Rightarrow>
               (let st' = update_row rid (\<lambda>r. r\<lparr>ir_status := status,
                      ir_resolved := (if status = ''resolved'' then now else ir_resolved r),
                      ir_reopened := (if status = ''unresolved'' then now else ir_reopened r)\<rparr>) st
                in (GetIssue readErr displayID st', st'))))"

definition ResolveIssue where "ResolveIssue now re ee displayID = setIssueStatus now re ee displayID ''resolved''"
definition ReopenIssue where "ReopenIssue now re ee displayID = setIssueStatus now re ee displayID ''unresolved''"

definition MuteIssue ::
  "bool \<Rightarrow> db_error option \<Rightarrow> string \<Rightarrow> string \<Rightarrow> store \<Rightarrow> (app_error + issue_row) \<times> store" where
  "MuteIssue readErr execErr displayID mode st =
     (if mode \<noteq> ''until_regression'' \<and> mode \<noteq> ''forever''
      then (Inl (InvalidInput ''invalid mute_mode''), st)
      else case IssueRowIDByDisplayID readErr displayID st of
        Inl e \<Rightarrow> (Inl e, st)
      | Inr rid \<Rightarrow>
          (case execErr of
             Some e \<Rightarrow> (Inl (wrapErr e ''mute issue''), st)
           | None \<Rightarrow>
               (let st' = update_row rid (\<lambda>r. r\<lparr>ir_status := ''muted'', ir_mute := mode\<rparr>) st
                in (GetIssue readErr displayID st', st'))))"

definition UnmuteIssue ::
  "bool \<Rightarrow> db_error option \<Rightarrow> string \<Rightarrow> store \<Rightarrow> (app_error + issue_row) \<times> store" where
  "UnmuteIssue readErr execErr displayID st =
     (case IssueRowIDByDisplayID readErr displayID st of
        Inl e \<Rightarrow> (Inl e, st)
      | Inr rid \<Rightarrow>
          (case execErr of
             Some e \<Rightarrow> (Inl (wrapErr e ''unmute issue''), st)
           | None \<Rightarrow>
               (let st' = update_row rid (\<lambda>r. r\<lparr>ir_status := ''unresolved'', ir_mute := []\<rparr>) st
                in (GetIssue readErr displayID st', st'))))"

section \<open>Domain events\<close>

datatype domain_event = IssueCreated issue int | IssueRegressed issue int | IssueEventRecorded issue int

definition PublishIssueEvent :: "issue \<Rightarrow> int \<Rightarrow> bool \<Rightarrow> bool \<Rightarrow> domain_event list" where
  "PublishIssueEvent iss pid isNew isRegressed =
     (if isNew then [IssueCreated iss pid] else [])
     @ (if isRegressed then [IssueRegressed iss pid] else [])
     @ [IssueEventRecorded iss pid]"

section \<open>The life of a row\<close>

text \<open>The effect of one event on its issue's row, as a specification: when it regresses, and
  to what.\<close>

definition regresses :: "issue_row \<Rightarrow> bool" where
  "regresses r \<longleftrightarrow> ir_status r = ''resolved'' \<and> ir_mute r \<noteq> ''forever''
     \<or> ir_status r = ''muted'' \<and> ir_mute r = ''until_regression''"

definition row_after_event :: "time \<Rightarrow> issue_row \<Rightarrow> issue_row" where
  "row_after_event seenAt r =
     (let r1 = r\<lparr>ir_lastSeen := max (ir_lastSeen r) seenAt, ir_count := ir_count r + 1\<rparr>
      in if regresses r
         then r1\<lparr>ir_status := (if ir_mute r = ''until_regression'' then ''regressed'' else ''unresolved''),
                ir_mute := (if ir_mute r = ''until_regression'' then [] else ir_mute r),
                ir_reopened := seenAt, ir_lastRegressed := seenAt,
                ir_regressions := ir_regressions r + 1\<rparr>
         else r1)"

definition row_keys_ok :: "issue_row list \<Rightarrow> int \<Rightarrow> bool" where
  "row_keys_ok rows next \<longleftrightarrow> distinct (map ir_id rows)
     \<and> distinct (map (\<lambda>r. (ir_project r, ir_fingerprint r)) rows)
     \<and> (\<forall>r\<in>set rows. ir_id r < next)"

definition keys_ok :: "store \<Rightarrow> bool" where
  "keys_ok st \<longleftrightarrow> row_keys_ok (st_issues st) (st_nextIssue st)"

lemma findExisting_SomeD:
  "findExistingIssue pid fp rows = Some r \<Longrightarrow> r \<in> set rows \<and> ir_project r = pid \<and> ir_fingerprint r = fp"
  unfolding findExistingIssue_def by (drule find_SomeD) simp

lemma findExisting_NoneD:
  "findExistingIssue pid fp rows = None \<Longrightarrow> r \<in> set rows \<Longrightarrow> (ir_project r, ir_fingerprint r) \<noteq> (pid, fp)"
  by (auto simp: findExistingIssue_def find_None_iff)

lemma same_id_same_row:
  "row_keys_ok rows n \<Longrightarrow> r \<in> set rows \<Longrightarrow> q \<in> set rows \<Longrightarrow> ir_id r = ir_id q \<Longrightarrow> r = q"
  by (auto simp: row_keys_ok_def distinct_map dest: inj_onD)

lemma same_key_same_row:
  "row_keys_ok rows n \<Longrightarrow> r \<in> set rows \<Longrightarrow> q \<in> set rows \<Longrightarrow>
   ir_project r = ir_project q \<Longrightarrow> ir_fingerprint r = ir_fingerprint q \<Longrightarrow> r = q"
  unfolding row_keys_ok_def distinct_map inj_on_def by blast

lemma applyRegression_alt:
  "applyRegressionTransition iss m t =
     (if is_Status iss = ''resolved'' \<and> m \<noteq> ''forever'' \<or> is_Status iss = ''muted'' \<and> m = ''until_regression''
      then (iss\<lparr>is_Status := (if m = ''until_regression'' then ''regressed'' else ''unresolved''),
              is_Mute := (if m = ''until_regression'' then [] else is_Mute iss),
              is_Regressions := is_Regressions iss + 1, is_Reopened := t, is_LastRegressed := t\<rparr>, True)
      else (iss, False))"
  by (cases "m = ''until_regression''"; cases "m = ''forever''")
     (simp_all add: applyRegressionTransition_def Let_def)

lemma hydrate_fields:
  "is_Status (hydrateExistingIssue r i) = ir_status r"
  "is_LastSeen (hydrateExistingIssue r i) = max (ir_lastSeen r) (ui_seenAt i)"
  "is_Count (hydrateExistingIssue r i) = ir_count r + 1"
  "is_Number (hydrateExistingIssue r i) = ir_number r"
  "is_Regressions (hydrateExistingIssue r i) = ir_regressions r"
  "is_Reopened (hydrateExistingIssue r i) = ir_reopened r"
  "is_LastRegressed (hydrateExistingIssue r i) = ir_lastRegressed r"
  by (simp_all add: hydrateExistingIssue_def max_def)

lemma transition_cases:
  assumes "applyRegressionTransition ((hydrateExistingIssue r i)\<lparr>is_Mute := ir_mute r\<rparr>) (ir_mute r) (ui_seenAt i)
     = (iss, regressed)"
  shows "regressed = regresses r"
    and "is_LastSeen iss = max (ir_lastSeen r) (ui_seenAt i)" and "is_Count iss = ir_count r + 1"
    and "is_Number iss = ir_number r"
    and "is_Status iss = ir_status (row_after_event (ui_seenAt i) r)"
    and "is_Mute iss = ir_mute (row_after_event (ui_seenAt i) r)"
    and "is_Regressions iss = ir_regressions (row_after_event (ui_seenAt i) r)"
    and "is_Reopened iss = ir_reopened (row_after_event (ui_seenAt i) r)"
    and "is_LastRegressed iss = ir_lastRegressed (row_after_event (ui_seenAt i) r)"
proof -
  let ?h = "(hydrateExistingIssue r i)\<lparr>is_Mute := ir_mute r\<rparr>"
  have "applyRegressionTransition ?h (ir_mute r) (ui_seenAt i) = (if regresses r
      then (?h\<lparr>is_Status := (if ir_mute r = ''until_regression'' then ''regressed'' else ''unresolved''),
              is_Mute := (if ir_mute r = ''until_regression'' then [] else ir_mute r),
              is_Regressions := ir_regressions r + 1, is_Reopened := ui_seenAt i,
              is_LastRegressed := ui_seenAt i\<rparr>, True)
      else (?h, False))" (is "_ = ?rhs")
    unfolding applyRegression_alt regresses_def by (simp add: hydrate_fields)
  then have "?rhs = (iss, regressed)" using assms by simp
  then show "regressed = regresses r"
    and "is_LastSeen iss = max (ir_lastSeen r) (ui_seenAt i)" and "is_Count iss = ir_count r + 1"
    and "is_Number iss = ir_number r"
    and "is_Status iss = ir_status (row_after_event (ui_seenAt i) r)"
    and "is_Mute iss = ir_mute (row_after_event (ui_seenAt i) r)"
    and "is_Regressions iss = ir_regressions (row_after_event (ui_seenAt i) r)"
    and "is_Reopened iss = ir_reopened (row_after_event (ui_seenAt i) r)"
    and "is_LastRegressed iss = ir_lastRegressed (row_after_event (ui_seenAt i) r)"
    by (cases "regresses r"; auto simp: hydrate_fields row_after_event_def Let_def)+
qed

lemma updateIssueRow_row:
  assumes "row_keys_ok rows n" "r \<in> set rows" "ir_project r = pid"
    and "applyRegressionTransition ((hydrateExistingIssue r i)\<lparr>is_Mute := ir_mute r\<rparr>)
          (ir_mute r) (ui_seenAt i) = (iss, regressed)"
  shows "updateIssueRow iss regressed (ir_id r) pid rows
    = map (\<lambda>x. if ir_id x = ir_id r then row_after_event (ui_seenAt i) x else x) rows"
proof -
  have "(let r' = x\<lparr>ir_lastSeen := is_LastSeen iss, ir_count := ir_count x + 1\<rparr>
         in if regressed then r'\<lparr>ir_status := is_Status iss, ir_mute := is_Mute iss,
              ir_reopened := is_Reopened iss, ir_lastRegressed := is_LastRegressed iss,
              ir_regressions := ir_regressions r' + 1\<rparr> else r')
      = row_after_event (ui_seenAt i) x"
    if "x \<in> set rows" "ir_id x = ir_id r" for x
    using same_id_same_row [OF assms(1) that(1) assms(2) that(2)] transition_cases [OF assms(4)]
    by (simp add: row_after_event_def Let_def)
  moreover have "ir_project x = pid" if "x \<in> set rows" "ir_id x = ir_id r" for x
    using same_id_same_row [OF assms(1) that(1) assms(2) that(2)] assms(3) by simp
  ultimately show ?thesis
    unfolding updateIssueRow_def by (intro map_cong refl) auto
qed

text \<open>What the upsert does to the tables, in one equation per case.\<close>

lemma upsert_existing:
  assumes "keys_ok st" "findExistingIssue pid fp (st_issues st) = Some r"
    and "fp = ui_fingerprint (prepareUpsertInputs nrm now p)"
    and "seenAt = issueSeenAt now (pe_Event p)"
  shows "\<exists>iss. upsertIssue nrm now None pe pid p st =
      (Inr (iss, ir_id r, regresses r),
       st\<lparr>st_issues := map (\<lambda>x. if ir_id x = ir_id r then row_after_event seenAt x else x)
                     (st_issues st)\<rparr>)
    \<and> is_Count iss = ir_count r + 1 \<and> is_LastSeen iss = max (ir_lastSeen r) seenAt
    \<and> is_Status iss = ir_status (row_after_event seenAt r)
    \<and> is_Mute iss = ir_mute (row_after_event seenAt r)
    \<and> is_Regressions iss = ir_regressions (row_after_event seenAt r)
    \<and> is_LastRegressed iss = ir_lastRegressed (row_after_event seenAt r)
    \<and> is_Fingerprint iss = fp"
proof -
  let ?i = "prepareUpsertInputs nrm now p"
  have seen: "ui_seenAt ?i = seenAt" using assms(4) by (simp add: prepareUpsertInputs_def Let_def)
  obtain iss reg where t: "applyRegressionTransition ((hydrateExistingIssue r ?i)\<lparr>is_Mute := ir_mute r\<rparr>)
      (ir_mute r) (ui_seenAt ?i) = (iss, reg)" by (metis surj_pair)
  have r: "r \<in> set (st_issues st)" "ir_project r = pid" using findExisting_SomeD [OF assms(2)] by auto
  note u = updateIssueRow_row [OF assms(1) [unfolded keys_ok_def] r t]
  show ?thesis
    using assms(2,3) t u transition_cases [OF t] seen
    by (simp add: upsertIssue_def updateExistingIssue_def Let_def)
qed

lemma upsert_new:
  assumes "findExistingIssue pid fp (st_issues st) = None"
    and "fp = ui_fingerprint (prepareUpsertInputs nrm now p)"
    and "allocateIssueNumber pid (st_projects st) = Some (number, prefix, ps')"
  shows "\<exists>iss. upsertIssue nrm now None pe pid p st =
      (Inr (iss, st_nextIssue st, False),
       st\<lparr>st_projects := ps',
          st_issues := st_issues st @ [new_row pid (prepareUpsertInputs nrm now p) number (st_nextIssue st)],
          st_nextIssue := st_nextIssue st + 1\<rparr>)
    \<and> is_Count iss = 1 \<and> is_Fingerprint iss = fp"
  using assms by (simp add: upsertIssue_def insertNewIssue_def insertIssueRow_def Let_def)

lemma upsert_fails:
  "fault = Some e \<Longrightarrow> upsertIssue nrm now fault pe pid p st = (Inl e, st)"
  "findExistingIssue pid (ui_fingerprint (prepareUpsertInputs nrm now p)) (st_issues st) = None \<Longrightarrow>
   allocateIssueNumber pid (st_projects st) = None \<Longrightarrow>
   upsertIssue nrm now None pe pid p st = (Inl NoRows, st)"
  by (simp_all add: upsertIssue_def insertNewIssue_def Let_def)

text \<open>Everything after the upsert leaves the issue table and the counters alone.\<close>

lemma persist_issue_tables:
  "st_issues (snd (PersistProcessedEvent env now fl pid p st))
     = st_issues (snd (upsertIssue (en_norm env) now (pf_upsert fl) (pf_prefix fl) pid p st))
   \<and> st_projects (snd (PersistProcessedEvent env now fl pid p st))
     = st_projects (snd (upsertIssue (en_norm env) now (pf_upsert fl) (pf_prefix fl) pid p st))
   \<and> st_nextIssue (snd (PersistProcessedEvent env now fl pid p st))
     = st_nextIssue (snd (upsertIssue (en_norm env) now (pf_upsert fl) (pf_prefix fl) pid p st))"
  by (simp add: PersistProcessedEvent_def insertEvent_def Let_def
      split: sum.splits prod.splits option.splits)

section \<open>The table invariant\<close>

definition statuses :: "string list" where
  "statuses = [''unresolved'', ''resolved'', ''muted'', ''regressed'']"

definition mute_modes :: "string list" where
  "mute_modes = [[], ''until_regression'', ''forever'']"

definition row_ok :: "issue_row \<Rightarrow> bool" where
  "row_ok r \<longleftrightarrow> 1 \<le> ir_count r \<and> 0 \<le> ir_regressions r \<and> ir_firstSeen r \<le> ir_lastSeen r
     \<and> ir_status r \<in> set statuses \<and> ir_mute r \<in> set mute_modes
     \<and> (ir_status r = ''muted'' \<longrightarrow> ir_mute r \<noteq> [])"

definition numbers_ok :: "store \<Rightarrow> bool" where
  "numbers_ok st \<longleftrightarrow> distinct (map pi_id (st_projects st))
     \<and> (\<forall>p\<in>set (st_projects st). 0 \<le> pi_counter p)
     \<and> (\<forall>r\<in>set (st_issues st). \<exists>p\<in>set (st_projects st).
           pi_id p = ir_project r \<and> 1 \<le> ir_number r \<and> ir_number r \<le> pi_counter p)
     \<and> distinct (map (\<lambda>r. (ir_project r, ir_number r)) (st_issues st))"

definition store_ok :: "store \<Rightarrow> bool" where
  "store_ok st \<longleftrightarrow> keys_ok st \<and> numbers_ok st \<and> (\<forall>r\<in>set (st_issues st). row_ok r)"

definition same_identity :: "issue_row \<Rightarrow> issue_row \<Rightarrow> bool" where
  "same_identity a b \<longleftrightarrow> ir_id a = ir_id b \<and> ir_project a = ir_project b
     \<and> ir_fingerprint a = ir_fingerprint b \<and> ir_number a = ir_number b"

datatype issue_op =
    Persist time persist_faults int processed
  | Resolve time bool "db_error option" string
  | Reopen time bool "db_error option" string
  | Mute bool "db_error option" string string
  | Unmute bool "db_error option" string

fun issue_step :: "persist_env \<Rightarrow> store \<Rightarrow> issue_op \<Rightarrow> store" where
  "issue_step env st (Persist now fl pid p) = snd (PersistProcessedEvent env now fl pid p st)"
| "issue_step env st (Resolve now re ee d) = snd (ResolveIssue now re ee d st)"
| "issue_step env st (Reopen now re ee d) = snd (ReopenIssue now re ee d st)"
| "issue_step env st (Mute re ee d mode) = snd (MuteIssue re ee d mode st)"
| "issue_step env st (Unmute re ee d) = snd (UnmuteIssue re ee d st)"

lemma map_same_key:
  "(\<And>r. r \<in> set rows \<Longrightarrow> key (f r) = key r) \<Longrightarrow> map key (map f rows) = map key rows"
  by simp

lemma store_ok_map:
  assumes "store_ok st"
    and "\<And>r. r \<in> set (st_issues st) \<Longrightarrow> same_identity (f r) r \<and> row_ok (f r)"
  shows "store_ok (st\<lparr>st_issues := map f (st_issues st)\<rparr>)"
proof -
  have keys: "map ir_id (map f (st_issues st)) = map ir_id (st_issues st)"
    "map (\<lambda>r. (ir_project r, ir_fingerprint r)) (map f (st_issues st))
       = map (\<lambda>r. (ir_project r, ir_fingerprint r)) (st_issues st)"
    "map (\<lambda>r. (ir_project r, ir_number r)) (map f (st_issues st))
       = map (\<lambda>r. (ir_project r, ir_number r)) (st_issues st)"
    using assms(2) by (intro map_same_key; simp add: same_identity_def)+
  then show ?thesis
    using assms unfolding store_ok_def keys_ok_def row_keys_ok_def numbers_ok_def
    by (simp del: map_map) (auto simp: same_identity_def)
qed

lemma row_after_event_ok: "row_ok r \<Longrightarrow> row_ok (row_after_event t r) \<and> same_identity (row_after_event t r) r"
  by (auto simp: row_ok_def same_identity_def row_after_event_def regresses_def statuses_def
      mute_modes_def Let_def)

lemma allocate_SomeD:
  assumes "allocateIssueNumber pid ps = Some (number, prefix, ps')"
  shows "\<exists>p\<in>set ps. pi_id p = pid \<and> number = pi_counter p + 1
    \<and> ps' = map (\<lambda>p. if pi_id p = pid then p\<lparr>pi_counter := pi_counter p + 1\<rparr> else p) ps"
proof -
  define f where "f = (\<lambda>p::project_ids. if pi_id p = pid then p\<lparr>pi_counter := pi_counter p + 1\<rparr> else p)"
  obtain q where q: "List.find (\<lambda>p. pi_id p = pid) (map f ps) = Some q" "number = pi_counter q"
      "ps' = map f ps"
    using assms unfolding allocateIssueNumber_def Let_def f_def [symmetric]
    by (cases "List.find (\<lambda>p. pi_id p = pid) (map f ps)") simp_all
  then obtain p where p: "p \<in> set ps" "q = f p" "pi_id q = pid"
    using find_SomeD [OF q(1)] by (auto simp del: split_paired_Ex)
  then have "pi_id p = pid" by (simp add: f_def split: if_splits)
  then show ?thesis using p q(2,3) unfolding f_def by (intro bexI [of _ p]) simp_all
qed

lemma number_in_range:
  "numbers_ok st \<Longrightarrow> r \<in> set (st_issues st) \<Longrightarrow> \<exists>p\<in>set (st_projects st).
     pi_id p = ir_project r \<and> 1 \<le> ir_number r \<and> ir_number r \<le> pi_counter p"
  unfolding numbers_ok_def by (elim conjE) (erule bspec)

lemma project_unique:
  "numbers_ok st \<Longrightarrow> p \<in> set (st_projects st) \<Longrightarrow> q \<in> set (st_projects st) \<Longrightarrow>
   pi_id p = pi_id q \<Longrightarrow> p = q"
  unfolding numbers_ok_def distinct_map by (elim conjE) (erule inj_onD)

lemma store_ok_new:
  assumes ok: "store_ok st" and none: "findExistingIssue pid (ui_fingerprint i) (st_issues st) = None"
    and alloc: "allocateIssueNumber pid (st_projects st) = Some (number, prefix, ps')"
  shows "store_ok (st\<lparr>st_projects := ps',
    st_issues := st_issues st @ [new_row pid i number (st_nextIssue st)],
    st_nextIssue := st_nextIssue st + 1\<rparr>)"
proof -
  let ?f = "\<lambda>p. if pi_id p = pid then p\<lparr>pi_counter := pi_counter p + 1\<rparr> else p"
  have n: "numbers_ok st" and k: "row_keys_ok (st_issues st) (st_nextIssue st)"
    using ok by (auto simp: store_ok_def keys_ok_def)
  obtain p where p: "p \<in> set (st_projects st)" "pi_id p = pid" "number = pi_counter p + 1"
      "ps' = map ?f (st_projects st)"
    using allocate_SomeD [OF alloc] by blast
  have ids: "map pi_id ps' = map pi_id (st_projects st)" unfolding p(4) by (rule map_same_key) simp
  have below: "ir_number r < number" if "r \<in> set (st_issues st)" "ir_project r = pid" for r
    using number_in_range [OF n that(1)] project_unique [OF n p(1)] p(2,3) that(2) by fastforce
  have inrange: "\<exists>p\<in>set ps'. pi_id p = ir_project r \<and> 1 \<le> ir_number r \<and> ir_number r \<le> pi_counter p"
    if r: "r \<in> set (st_issues st)" for r
  proof -
    obtain q where "q \<in> set (st_projects st)" "pi_id q = ir_project r" "1 \<le> ir_number r"
      "ir_number r \<le> pi_counter q" using number_in_range [OF n r] by blast
    then show ?thesis unfolding p(4) by (intro bexI [of _ "?f q"]) auto
  qed
  have new: "\<exists>q\<in>set ps'. pi_id q = pid \<and> 1 \<le> number \<and> number \<le> pi_counter q"
  proof (intro bexI [of _ "?f p"])
    show "pi_id (?f p) = pid \<and> 1 \<le> number \<and> number \<le> pi_counter (?f p)"
      using p(1-3) n by (simp add: numbers_ok_def)
  qed (use p in simp)
  have "row_keys_ok (st_issues st @ [new_row pid i number (st_nextIssue st)]) (st_nextIssue st + 1)"
    using k findExisting_NoneD [OF none] by (fastforce simp: row_keys_ok_def new_row_def)
  moreover have "distinct (map (\<lambda>r. (ir_project r, ir_number r))
      (st_issues st @ [new_row pid i number (st_nextIssue st)]))"
    using n below by (fastforce simp: numbers_ok_def new_row_def)
  moreover have "\<forall>p\<in>set ps'. 0 \<le> pi_counter p"
    using n by (auto simp: numbers_ok_def p(4))
  moreover have "row_ok (new_row pid i number rid)" for rid
    by (simp add: row_ok_def new_row_def statuses_def mute_modes_def)
  ultimately show ?thesis
    using ok inrange new ids n
    by (auto simp: store_ok_def keys_ok_def numbers_ok_def new_row_def)
qed

lemma upsert_store_ok:
  assumes "store_ok st" shows "store_ok (snd (upsertIssue nrm now fault pe pid p st))"
proof (cases fault)
  case (Some e)
  then show ?thesis using assms by (simp add: upsertIssue_def)
next
  case None
  let ?i = "prepareUpsertInputs nrm now p"
  have k: "keys_ok st" using assms by (simp add: store_ok_def)
  show ?thesis
  proof (cases "findExistingIssue pid (ui_fingerprint ?i) (st_issues st)")
    case (Some r)
    have rows: "same_identity (if ir_id x = ir_id r then row_after_event t x else x) x
        \<and> row_ok (if ir_id x = ir_id r then row_after_event t x else x)"
      if "x \<in> set (st_issues st)" for x t
      using assms that row_after_event_ok [of x t] by (auto simp: store_ok_def same_identity_def)
    obtain iss where "upsertIssue nrm now None pe pid p st = (Inr (iss, ir_id r, regresses r),
        st\<lparr>st_issues := map (\<lambda>x. if ir_id x = ir_id r
             then row_after_event (issueSeenAt now (pe_Event p)) x else x) (st_issues st)\<rparr>)"
      using upsert_existing [OF k Some refl refl] by blast
    then show ?thesis using store_ok_map [OF assms rows] None by simp
  next
    case none: None
    show ?thesis
    proof (cases "allocateIssueNumber pid (st_projects st)")
      case a: None
      show ?thesis using assms upsert_fails(2) [OF none a] None by simp
    next
      case (Some a)
      obtain number prefix ps' where a: "a = (number, prefix, ps')" by (cases a)
      note al = Some [unfolded a]
      obtain iss where "upsertIssue nrm now None pe pid p st = (Inr (iss, st_nextIssue st, False),
          st\<lparr>st_projects := ps', st_issues := st_issues st @ [new_row pid ?i number (st_nextIssue st)],
             st_nextIssue := st_nextIssue st + 1\<rparr>)"
        using upsert_new [OF none refl al] by blast
      then show ?thesis using store_ok_new [OF assms none al] None by simp
    qed
  qed
qed

lemma store_ok_cong:
  "st_issues a = st_issues b \<Longrightarrow> st_projects a = st_projects b \<Longrightarrow> st_nextIssue a = st_nextIssue b \<Longrightarrow>
   store_ok a = store_ok b"
  by (simp add: store_ok_def keys_ok_def numbers_ok_def)

lemma persist_store_ok: "store_ok st \<Longrightarrow> store_ok (snd (PersistProcessedEvent env now fl pid p st))"
  using store_ok_cong persist_issue_tables upsert_store_ok by metis

lemma update_row_store_ok:
  "store_ok st \<Longrightarrow> (\<And>r. row_ok r \<Longrightarrow> same_identity (f r) r \<and> row_ok (f r)) \<Longrightarrow>
   store_ok (update_row rid f st)"
  unfolding update_row_def
  by (rule store_ok_map) (auto simp: store_ok_def same_identity_def)

lemma user_ops_store_ok:
  assumes "store_ok st"
  shows "store_ok (snd (ResolveIssue now re ee d st))" "store_ok (snd (ReopenIssue now re ee d st))"
    "store_ok (snd (MuteIssue re ee d mode st))" "store_ok (snd (UnmuteIssue re ee d st))"
  using assms
  by (auto simp: ResolveIssue_def ReopenIssue_def setIssueStatus_def MuteIssue_def UnmuteIssue_def
      Let_def split: sum.splits option.splits intro!: update_row_store_ok)
     (auto simp: row_ok_def same_identity_def statuses_def mute_modes_def)

interpretation issue_machine: guarded_machine "issue_step env" store_ok "\<lambda>_. True" for env
proof
  fix s x assume "store_ok s"
  then show "store_ok (issue_step env s x)"
    by (cases x) (simp_all add: persist_store_ok user_ops_store_ok)
qed

text \<open>C9: Every operation on issues -- an ingested event on any of its success and failure
  paths, resolve, reopen, mute, unmute -- keeps the issue table well formed: unique row ids,
  one issue per project and fingerprint, distinct issue numbers within the project's counter,
  positive counts, first seen before last seen, a known status and mute mode.\<close>

theorem issue_store_invariant:
  assumes "store_ok st"
  shows "store_ok (foldl (issue_step env) st xs)"
  by (rule issue_machine.run_inv [OF assms]) (simp add: list.pred_True)

definition no_facet_faults :: facet_faults where
  "no_facet_faults = \<lparr>ff_insert = None, ff_persist = None, ff_relRead = False, ff_relInsert = False\<rparr>"

definition no_faults :: persist_faults where
  "no_faults = \<lparr>pf_upsert = None, pf_prefix = False, pf_slug = False, pf_regression = False,
     pf_limits = False, pf_event = None, pf_facets = no_facet_faults\<rparr>"

definition demo_env :: persist_env where "demo_env = \<lparr>en_norm = (\<lambda>s. s), en_ord = (\<lambda>fs. fs)\<rparr>"

definition demo_store :: store where
  "demo_store = \<lparr>st_issues = [], st_events = [], st_regressions = [],
     st_projects = [\<lparr>pi_id = 7, pi_prefix = ''SH'', pi_counter = 0\<rparr>], st_limits = demo_core,
     st_facets = \<lparr>fd_rows = [], fd_releases = [], fd_seen = []\<rparr>, st_nextIssue = 1, st_nextEvent = 1\<rparr>"

definition demo_event :: processed where
  "demo_event = \<lparr>pe_Event = blank_event\<lparr>ExcType := ''E'', ObservedAt := 5\<rparr>, pe_Fingerprint = ''fp'',
     pe_Material = [], pe_Explanation = []\<rparr>"

lemma demo_store_ok: "store_ok demo_store"
  by (simp add: demo_store_def store_ok_def keys_ok_def row_keys_ok_def numbers_ok_def)

theorem issue_store_invariant_witness:
  "store_ok (foldl (issue_step demo_env) demo_store
     [Persist 9 no_faults 7 demo_event, Mute False None ''SH-1'' ''forever'',
      Persist 10 no_faults 7 demo_event])"
  by (rule issue_store_invariant) (rule demo_store_ok)

section \<open>Regression\<close>

lemma persist_row:
  assumes "store_ok st" "pf_upsert fl = None"
    and "findExistingIssue pid (ui_fingerprint (prepareUpsertInputs (en_norm env) now p)) (st_issues st) = Some r"
  shows "st_issues (snd (PersistProcessedEvent env now fl pid p st)) =
    map (\<lambda>x. if ir_id x = ir_id r then row_after_event (issueSeenAt now (pe_Event p)) x else x) (st_issues st)"
proof -
  have "keys_ok st" using assms(1) by (simp add: store_ok_def)
  then obtain iss where "upsertIssue (en_norm env) now None (pf_prefix fl) pid p st =
      (Inr (iss, ir_id r, regresses r),
       st\<lparr>st_issues := map (\<lambda>x. if ir_id x = ir_id r
          then row_after_event (issueSeenAt now (pe_Event p)) x else x) (st_issues st)\<rparr>)"
    using upsert_existing [OF _ assms(3) refl refl] by blast
  then show ?thesis using assms(2) by (simp add: persist_issue_tables)
qed

text \<open>C2: An event on a known issue, whatever happens after its upsert, counts the event, moves
  last-seen forward only, and applies exactly the regression table of the code: a resolved issue that is
  not muted becomes unresolved, a resolved or muted one whose mute mode is until-regression becomes
  regressed and is unmuted; every other issue keeps its status and mute mode; all other issues are untouched.
  (The feature pages describe the first two rows the other way round: \<open>docs/features/issues.md\<close> has a resolved
  issue become regressed, and unresolved when the event unmutes it.)\<close>

theorem event_regression_table:
  assumes "store_ok st" "pf_upsert fl = None"
    and "findExistingIssue pid (ui_fingerprint (prepareUpsertInputs (en_norm env) now p)) (st_issues st) = Some r"
    and "st' = snd (PersistProcessedEvent env now fl pid p st)"
  shows "\<exists>r'. r' \<in> set (st_issues st') \<and> ir_id r' = ir_id r
      \<and> ir_count r' = ir_count r + 1
      \<and> ir_lastSeen r' = max (ir_lastSeen r) (issueSeenAt now (pe_Event p))
      \<and> (ir_status r', ir_mute r', ir_regressions r') =
          (if ir_status r = ''resolved'' \<and> ir_mute r = []
           then (''unresolved'', [], ir_regressions r + 1)
           else if (ir_status r = ''resolved'' \<or> ir_status r = ''muted'') \<and> ir_mute r = ''until_regression''
           then (''regressed'', [], ir_regressions r + 1)
           else (ir_status r, ir_mute r, ir_regressions r))
      \<and> (\<forall>x\<in>set (st_issues st). ir_id x \<noteq> ir_id r \<longrightarrow> x \<in> set (st_issues st'))"
proof -
  let ?t = "issueSeenAt now (pe_Event p)"
  have r: "r \<in> set (st_issues st)" using findExisting_SomeD [OF assms(3)] by simp
  have rows: "st_issues st' = map (\<lambda>x. if ir_id x = ir_id r then row_after_event ?t x else x) (st_issues st)"
    using persist_row [OF assms(1-3)] assms(4) by simp
  have m: "ir_mute r \<in> set mute_modes" using assms(1) r by (simp add: store_ok_def row_ok_def)
  have "row_after_event ?t r \<in> set (st_issues st')" using r unfolding rows by force
  moreover have "\<forall>x\<in>set (st_issues st). ir_id x \<noteq> ir_id r \<longrightarrow> x \<in> set (st_issues st')"
    unfolding rows by force
  moreover have "ir_id (row_after_event ?t r) = ir_id r
      \<and> ir_count (row_after_event ?t r) = ir_count r + 1
      \<and> ir_lastSeen (row_after_event ?t r) = max (ir_lastSeen r) ?t"
    by (simp add: row_after_event_def Let_def)
  moreover have "(ir_status (row_after_event ?t r), ir_mute (row_after_event ?t r),
        ir_regressions (row_after_event ?t r)) =
          (if ir_status r = ''resolved'' \<and> ir_mute r = []
           then (''unresolved'', [], ir_regressions r + 1)
           else if (ir_status r = ''resolved'' \<or> ir_status r = ''muted'') \<and> ir_mute r = ''until_regression''
           then (''regressed'', [], ir_regressions r + 1)
           else (ir_status r, ir_mute r, ir_regressions r))"
    using m unfolding mute_modes_def
    by (auto simp: row_after_event_def regresses_def Let_def)
  ultimately show ?thesis by blast
qed

definition muted_row :: issue_row where
  "muted_row = (new_row 7 (prepareUpsertInputs (\<lambda>s. s) 9 demo_event) 1 1)\<lparr>ir_status := ''muted'',
     ir_mute := ''until_regression''\<rparr>"

definition muted_store :: store where
  "muted_store = demo_store\<lparr>st_issues := [muted_row], st_nextIssue := 2,
     st_projects := [\<lparr>pi_id = 7, pi_prefix = ''SH'', pi_counter = 1\<rparr>]\<rparr>"

lemma muted_row_fields:
  "ir_id muted_row = 1" "ir_project muted_row = 7" "ir_fingerprint muted_row = ''fp''"
  "ir_status muted_row = ''muted''" "ir_mute muted_row = ''until_regression''"
  "ir_count muted_row = 1" "ir_regressions muted_row = 0" "ir_number muted_row = 1"
  "ir_firstSeen muted_row = 5" "ir_lastSeen muted_row = 5"
  by (simp_all add: muted_row_def new_row_def prepareUpsertInputs_def demo_event_def trim_space_def
      is_space_def issueSeenAt_def zero_time_def Let_def)

lemma muted_store_ok: "store_ok muted_store"
  by (simp add: muted_store_def demo_store_def store_ok_def keys_ok_def row_keys_ok_def
      numbers_ok_def muted_row_fields row_ok_def statuses_def mute_modes_def)

lemma muted_store_found:
  "findExistingIssue 7 (ui_fingerprint (prepareUpsertInputs nrm now demo_event)) (st_issues muted_store)
     = Some muted_row"
  by (simp add: findExistingIssue_def muted_store_def demo_store_def muted_row_fields
      prepareUpsertInputs_def demo_event_def trim_space_def is_space_def Let_def)

theorem event_regression_table_witness:
  "\<exists>r'\<in>set (st_issues (snd (PersistProcessedEvent demo_env 9 no_faults 7 demo_event muted_store))).
     ir_status r' = ''regressed'' \<and> ir_mute r' = [] \<and> ir_regressions r' = 1"
  using event_regression_table [OF muted_store_ok _ muted_store_found refl, of no_faults demo_env 9]
  by (auto simp: no_faults_def muted_row_fields)

section \<open>Counting events\<close>

definition count_of :: "int \<Rightarrow> string \<Rightarrow> store \<Rightarrow> int" where
  "count_of pid fp st =
     (case findExistingIssue pid fp (st_issues st) of None \<Rightarrow> 0 | Some r \<Rightarrow> ir_count r)"

text \<open>An event of the issue whose upsert transaction succeeds.\<close>

fun counts_for :: "persist_env \<Rightarrow> int \<Rightarrow> string \<Rightarrow> issue_op \<Rightarrow> bool" where
  "counts_for env pid fp (Persist now fl q p) \<longleftrightarrow>
     pf_upsert fl = None \<and> q = pid
     \<and> ui_fingerprint (prepareUpsertInputs (en_norm env) now p) = fp"
| "counts_for env pid fp _ \<longleftrightarrow> False"

lemma find_map_key:
  assumes "\<And>r. same_identity (f r) r"
  shows "findExistingIssue pid fp (map f rows) = map_option f (findExistingIssue pid fp rows)"
  using assms by (induction rows) (auto simp: findExistingIssue_def same_identity_def)

lemma allocate_total:
  "\<exists>p\<in>set ps. pi_id p = pid \<Longrightarrow> \<exists>n pre ps'. allocateIssueNumber pid ps = Some (n, pre, ps')"
proof -
  assume a: "\<exists>p\<in>set ps. pi_id p = pid"
  define f where "f = (\<lambda>p::project_ids. if pi_id p = pid then p\<lparr>pi_counter := pi_counter p + 1\<rparr> else p)"
  obtain p where p: "p \<in> set ps" "pi_id p = pid" using a by blast
  have "f p \<in> set (map f ps)" "pi_id (f p) = pid" using p by (simp_all add: f_def)
  then have "List.find (\<lambda>p. pi_id p = pid) (map f ps) \<noteq> None"
    unfolding find_None_iff by blast
  then show ?thesis unfolding allocateIssueNumber_def Let_def f_def [symmetric] by auto
qed

lemma upsert_count:
  assumes ok: "store_ok st" and proj: "\<exists>p\<in>set (st_projects st). pi_id p = pid"
  shows "count_of pid fp (snd (upsertIssue nrm now fault pe q p st))
    = count_of pid fp st + (if fault = None \<and> q = pid
        \<and> ui_fingerprint (prepareUpsertInputs nrm now p) = fp then 1 else 0)"
proof (cases fault)
  case (Some e)
  then show ?thesis by (simp add: upsertIssue_def)
next
  case None
  let ?i = "prepareUpsertInputs nrm now p"
  have k: "keys_ok st" using ok by (simp add: store_ok_def)
  show ?thesis
  proof (cases "findExistingIssue q (ui_fingerprint ?i) (st_issues st)")
    case (Some r)
    define f where "f = (\<lambda>x. if ir_id x = ir_id r
      then row_after_event (issueSeenAt now (pe_Event p)) x else x)"
    have same: "same_identity (f x) x" for x
      by (simp add: f_def same_identity_def row_after_event_def Let_def)
    obtain iss where u: "upsertIssue nrm now None pe q p st
        = (Inr (iss, ir_id r, regresses r), st\<lparr>st_issues := map f (st_issues st)\<rparr>)"
      using upsert_existing [OF k Some refl refl] unfolding f_def by blast
    have hit: "ir_id x = ir_id r \<longleftrightarrow> q = pid \<and> ui_fingerprint ?i = fp"
      if "findExistingIssue pid fp (st_issues st) = Some x" for x
      using findExisting_SomeD [OF that] findExisting_SomeD [OF Some]
        same_id_same_row [OF k [unfolded keys_ok_def]] same_key_same_row [OF k [unfolded keys_ok_def]]
      by metis
    have none: "\<not> (q = pid \<and> ui_fingerprint ?i = fp)"
      if "findExistingIssue pid fp (st_issues st) = None"
      using that Some by auto
    have "count_of pid fp (snd (upsertIssue nrm now None pe q p st))
      = (case map_option f (findExistingIssue pid fp (st_issues st)) of None \<Rightarrow> 0 | Some x \<Rightarrow> ir_count x)"
      by (simp add: u count_of_def find_map_key [OF same])
    also have "\<dots> = count_of pid fp st + (if q = pid \<and> ui_fingerprint ?i = fp then 1 else 0)"
      using hit none
      by (auto simp: count_of_def f_def row_after_event_def Let_def split: option.splits)
    finally show ?thesis using None by simp
  next
    case none: None
    show ?thesis
    proof (cases "allocateIssueNumber q (st_projects st)")
      case a: None
      then have "q \<noteq> pid" using allocate_total [OF proj] by auto
      then show ?thesis using upsert_fails(2) [OF none a] None by simp
    next
      case (Some a)
      obtain number prefix ps' where a: "a = (number, prefix, ps')" by (cases a)
      note al = Some [unfolded a]
      obtain iss where u: "upsertIssue nrm now None pe q p st = (Inr (iss, st_nextIssue st, False),
          st\<lparr>st_projects := ps', st_issues := st_issues st @ [new_row q ?i number (st_nextIssue st)],
             st_nextIssue := st_nextIssue st + 1\<rparr>)"
        using upsert_new [OF none refl al] by blast
      have "findExistingIssue pid fp (rows @ [new_row q ?i number n]) =
          (case findExistingIssue pid fp rows of Some x \<Rightarrow> Some x
           | None \<Rightarrow> if q = pid \<and> ui_fingerprint ?i = fp then Some (new_row q ?i number n) else None)"
        for rows n
        by (induction rows) (auto simp: findExistingIssue_def new_row_def)
      then show ?thesis
        using u none None by (auto simp: count_of_def new_row_def split: option.splits)
    qed
  qed
qed

lemma update_row_count:
  assumes "\<And>r. same_identity (f r) r \<and> ir_count (f r) = ir_count r"
  shows "count_of pid fp (update_row rid f st) = count_of pid fp st"
proof -
  have "findExistingIssue pid fp (map (\<lambda>r. if ir_id r = rid then f r else r) (st_issues st))
    = map_option (\<lambda>r. if ir_id r = rid then f r else r) (findExistingIssue pid fp (st_issues st))"
    by (rule find_map_key) (use assms in \<open>auto simp: same_identity_def\<close>)
  then show ?thesis using assms by (auto simp: count_of_def update_row_def split: option.splits)
qed

lemma issue_step_count:
  assumes "store_ok st" "\<exists>p\<in>set (st_projects st). pi_id p = pid"
  shows "count_of pid fp (issue_step env st x) = count_of pid fp st + (if counts_for env pid fp x then 1 else 0)"
proof (cases x)
  case (Persist now fl q p)
  have "count_of pid fp (issue_step env st x)
    = count_of pid fp (snd (upsertIssue (en_norm env) now (pf_upsert fl) (pf_prefix fl) q p st))"
    using Persist by (simp add: count_of_def persist_issue_tables)
  then show ?thesis using upsert_count [OF assms] Persist by simp
qed (auto simp: ResolveIssue_def ReopenIssue_def setIssueStatus_def MuteIssue_def UnmuteIssue_def
      Let_def same_identity_def split: sum.splits option.splits intro!: update_row_count)

lemma issue_step_project:
  assumes "\<exists>p\<in>set (st_projects st). pi_id p = pid"
  shows "\<exists>p\<in>set (st_projects (issue_step env st x)). pi_id p = pid"
proof -
  have alloc: "\<exists>p\<in>set ps'. pi_id p = pid"
    if "allocateIssueNumber q (st_projects st) = Some (n, pre, ps')" for q n pre ps'
  proof -
    have "ps' = map (\<lambda>p. if pi_id p = q then p\<lparr>pi_counter := pi_counter p + 1\<rparr> else p) (st_projects st)"
      using allocate_SomeD [OF that] by blast
    then have "map pi_id ps' = map pi_id (st_projects st)" by (simp add: map_same_key)
    then have "set (map pi_id ps') = set (map pi_id (st_projects st))" by simp
    moreover have "pid \<in> set (map pi_id (st_projects st))" using assms by auto
    ultimately have "pid \<in> set (map pi_id ps')" by blast
    then show "\<exists>p\<in>set ps'. pi_id p = pid" unfolding set_map by blast
  qed
  have up: "\<exists>p\<in>set (st_projects (snd (upsertIssue nrm now fault pe q p st))). pi_id p = pid"
    for nrm now fault pe q p
    using assms alloc
    by (auto simp: upsertIssue_def updateExistingIssue_def insertNewIssue_def insertIssueRow_def Let_def
        split: option.splits prod.splits)
  show ?thesis
    using assms up
    by (cases x) (auto simp: persist_issue_tables ResolveIssue_def ReopenIssue_def setIssueStatus_def
      MuteIssue_def UnmuteIssue_def update_row_def Let_def split: sum.splits option.splits)
qed

text \<open>C16: An issue's event count is exact: over any run of events and user operations, with any
  failures, it grows by one for each event of its project and fingerprint whose upsert
  transaction committed and by nothing else -- sampled-out events and failures after the upsert
  included, status changes not.\<close>

theorem event_count_exact:
  assumes "store_ok st" "\<exists>p\<in>set (st_projects st). pi_id p = pid"
  shows "count_of pid fp (foldl (issue_step env) st xs)
    = count_of pid fp st + int (length (filter (counts_for env pid fp) xs))"
  using assms
proof (induction xs arbitrary: st)
  case (Cons x xs)
  have "store_ok (issue_step env st x)" using Cons.prems(1) by (simp add: issue_machine.step_inv)
  then show ?case
    using Cons.IH issue_step_project [OF Cons.prems(2)] issue_step_count [OF Cons.prems] by simp
qed simp

theorem event_count_exact_witness:
  "count_of 7 ''fp'' (foldl (issue_step demo_env) muted_store
     [Persist 9 no_faults 7 demo_event, Resolve 10 False None ''SH-1'',
      Persist 11 (no_faults\<lparr>pf_event := Some DeadlineExceeded\<rparr>) 7 demo_event,
      Persist 12 (no_faults\<lparr>pf_upsert := Some DeadlineExceeded\<rparr>) 7 demo_event]) = 3"
proof -
  have "\<exists>p\<in>set (st_projects muted_store). pi_id p = 7" by (simp add: muted_store_def)
  moreover have "count_of 7 ''fp'' muted_store = 1"
    by (simp add: count_of_def findExistingIssue_def muted_store_def muted_row_fields demo_store_def)
  ultimately show ?thesis
    by (subst event_count_exact [OF muted_store_ok]) (simp_all add: prepareUpsertInputs_def demo_event_def trim_space_def is_space_def no_faults_def Let_def)
qed

section \<open>Muted for ever\<close>

text \<open>An event of the ingest path, a resolve or a reopen: everything but a new mute or an unmute.\<close>

fun keeps_mute_op :: "issue_op \<Rightarrow> bool" where
  "keeps_mute_op (Persist now fl q p) = True"
| "keeps_mute_op (Resolve now re ee d) = True"
| "keeps_mute_op (Reopen now re ee d) = True"
| "keeps_mute_op (Mute re ee d mode) = False"
| "keeps_mute_op (Unmute re ee d) = False"

definition muted_forever :: "int \<Rightarrow> int \<Rightarrow> store \<Rightarrow> bool" where
  "muted_forever rid n st \<longleftrightarrow> store_ok st \<and> (\<exists>r\<in>set (st_issues st). ir_id r = rid
     \<and> ir_mute r = ''forever'' \<and> ir_regressions r = n)"

lemma muted_forever_map:
  assumes "muted_forever rid n st"
    and "\<And>r. ir_mute r = ''forever'' \<Longrightarrow> ir_id (f r) = ir_id r \<and> ir_mute (f r) = ''forever''
        \<and> ir_regressions (f r) = ir_regressions r"
    and "st_issues st' = map f (st_issues st)" "store_ok st'"
  shows "muted_forever rid n st'"
proof -
  obtain r where "r \<in> set (st_issues st)" "ir_id r = rid" "ir_mute r = ''forever''" "ir_regressions r = n"
    using assms(1) unfolding muted_forever_def by blast
  then have "f r \<in> set (st_issues st') \<and> ir_id (f r) = rid \<and> ir_mute (f r) = ''forever''
      \<and> ir_regressions (f r) = n"
    using assms(2) [of r] assms(3) by simp
  then show ?thesis using assms(4) unfolding muted_forever_def by blast
qed

lemma muted_forever_update:
  assumes "muted_forever rid n st" "store_ok (update_row i g st)"
    and "\<And>r. ir_id (g r) = ir_id r \<and> ir_mute (g r) = ir_mute r \<and> ir_regressions (g r) = ir_regressions r"
  shows "muted_forever rid n (update_row i g st)"
  using assms
  by (intro muted_forever_map [OF assms(1), where f = "\<lambda>r. if ir_id r = i then g r else r"])
     (auto simp: update_row_def)

lemma row_after_event_forever:
  "ir_mute r = ''forever'' \<Longrightarrow> ir_mute (row_after_event t r) = ''forever''
     \<and> ir_regressions (row_after_event t r) = ir_regressions r \<and> ir_id (row_after_event t r) = ir_id r
     \<and> ir_status (row_after_event t r) = ir_status r"
  by (simp add: row_after_event_def regresses_def Let_def)

lemma upsert_tables:
  "store_ok st \<Longrightarrow>
   (\<exists>rid t. st_issues (snd (upsertIssue nrm now fault pe q p st))
      = map (\<lambda>x. if ir_id x = rid then row_after_event t x else x) (st_issues st))
   \<or> (\<exists>row. st_issues (snd (upsertIssue nrm now fault pe q p st)) = st_issues st @ [row])
   \<or> st_issues (snd (upsertIssue nrm now fault pe q p st)) = st_issues st"
proof (cases "fault = None")
  case False
  then show ?thesis by (auto simp: upsertIssue_def)
next
  case True
  assume ok: "store_ok st"
  let ?fp = "ui_fingerprint (prepareUpsertInputs nrm now p)"
  show ?thesis
  proof (cases "findExistingIssue q ?fp (st_issues st)")
    case (Some r)
    have "keys_ok st" using ok by (simp add: store_ok_def)
    then obtain iss where "upsertIssue nrm now None pe q p st = (Inr (iss, ir_id r, regresses r),
        st\<lparr>st_issues := map (\<lambda>x. if ir_id x = ir_id r
             then row_after_event (issueSeenAt now (pe_Event p)) x else x) (st_issues st)\<rparr>)"
      using upsert_existing [OF _ Some refl refl] by blast
    then show ?thesis using True by auto
  next
    case None
    then show ?thesis
      using True by (auto simp: upsertIssue_def insertNewIssue_def insertIssueRow_def Let_def
          split: option.splits prod.splits)
  qed
qed

lemma muted_forever_step:
  assumes m: "muted_forever rid n st" and x: "keeps_mute_op x"
  shows "muted_forever rid n (issue_step env st x)"
proof -
  have ok: "store_ok st" using m by (simp add: muted_forever_def)
  have ok': "store_ok (issue_step env st x)" using ok by (simp add: issue_machine.step_inv)
  show ?thesis
  proof (cases x)
    case (Persist now fl q p)
    let ?u = "snd (upsertIssue (en_norm env) now (pf_upsert fl) (pf_prefix fl) q p st)"
    have rows: "st_issues (issue_step env st x) = st_issues ?u"
      using Persist by (simp add: persist_issue_tables)
    consider (upd) i t where "st_issues ?u = map (\<lambda>x. if ir_id x = i then row_after_event t x else x) (st_issues st)"
      | (new) row where "st_issues ?u = st_issues st @ [row]" | (same) "st_issues ?u = st_issues st"
      using upsert_tables [OF ok, of "en_norm env" now "pf_upsert fl" "pf_prefix fl" q p] by blast
    then show ?thesis
    proof cases
      case upd
      then show ?thesis
        using rows ok'
        by (intro muted_forever_map [OF m, where f = "\<lambda>x. if ir_id x = i then row_after_event t x else x"])
          (auto simp: row_after_event_forever)
    next
      case new
      then show ?thesis using m rows ok' by (auto simp: muted_forever_def)
    next
      case same
      then show ?thesis using m rows ok' by (auto simp: muted_forever_def)
    qed
  next
    case (Resolve now re ee d)
    then show ?thesis
      using m ok' by (auto simp: ResolveIssue_def setIssueStatus_def Let_def
          split: sum.splits option.splits intro!: muted_forever_update)
  next
    case (Reopen now re ee d)
    then show ?thesis
      using m ok' by (auto simp: ReopenIssue_def setIssueStatus_def Let_def
          split: sum.splits option.splits intro!: muted_forever_update)
  qed (use x in auto)
qed

interpretation forever_machine: guarded_machine "issue_step env" "muted_forever rid n" keeps_mute_op
  for env rid n
  by unfold_locales (rule muted_forever_step)

text \<open>An issue muted for ever stays out of the regression machinery through any run of
  ingested events, resolves and reopens: its mute mode is never cleared and its regression
  count never grows -- also after it was resolved or reopened, since neither of those clears
  the mute mode.\<close>

theorem forever_never_regresses:
  assumes "muted_forever rid n st" "list_all keeps_mute_op xs"
  shows "\<exists>r\<in>set (st_issues (foldl (issue_step env) st xs)).
    ir_id r = rid \<and> ir_mute r = ''forever'' \<and> ir_regressions r = n"
  using forever_machine.run_inv [OF assms] by (simp add: muted_forever_def)

theorem forever_never_regresses_witness:
  "\<exists>r\<in>set (st_issues (foldl (issue_step demo_env)
      (muted_store\<lparr>st_issues := [muted_row\<lparr>ir_mute := ''forever''\<rparr>]\<rparr>)
      [Reopen 8 False None ''SH-1'', Resolve 9 False None ''SH-1'', Persist 10 no_faults 7 demo_event])).
     ir_id r = 1 \<and> ir_mute r = ''forever'' \<and> ir_regressions r = 0"
proof (rule forever_never_regresses)
  show "muted_forever 1 0 (muted_store\<lparr>st_issues := [muted_row\<lparr>ir_mute := ''forever''\<rparr>]\<rparr>)"
    by (simp add: muted_forever_def muted_store_def demo_store_def store_ok_def keys_ok_def
        row_keys_ok_def numbers_ok_def muted_row_fields row_ok_def statuses_def mute_modes_def)
qed simp

section \<open>A failed persist and its retry\<close>

lemma sampleFor_first: "sampleFor 1 A = (True, 1)"
  by (simp add: sampleFor_def sampleRateFor_def go_rem_def)

lemma upsert_fingerprint_now:
  "ui_fingerprint (prepareUpsertInputs nrm now p) = ui_fingerprint (prepareUpsertInputs nrm now' p)"
  by (simp add: prepareUpsertInputs_def Let_def)

lemma upsert_of_new_then_found:
  assumes ok: "store_ok st"
    and new: "findExistingIssue pid (ui_fingerprint (prepareUpsertInputs nrm now p)) (st_issues st) = None"
    and proj: "\<exists>q\<in>set (st_projects st). pi_id q = pid"
  shows "\<exists>iss iid row st1. upsertIssue nrm now None pe pid p st = (Inr (iss, iid, False), st1)
    \<and> is_Count iss = 1 \<and> store_ok st1 \<and> ir_count row = 1 \<and> ir_status row = ''unresolved''
    \<and> findExistingIssue pid (ui_fingerprint (prepareUpsertInputs nrm now p)) (st_issues st1) = Some row"
proof -
  let ?i = "prepareUpsertInputs nrm now p"
  obtain n pre ps' where al: "allocateIssueNumber pid (st_projects st) = Some (n, pre, ps')"
    using allocate_total [OF proj] by blast
  obtain iss where u: "upsertIssue nrm now None pe pid p st = (Inr (iss, st_nextIssue st, False),
      st\<lparr>st_projects := ps', st_issues := st_issues st @ [new_row pid ?i n (st_nextIssue st)],
         st_nextIssue := st_nextIssue st + 1\<rparr>)" "is_Count iss = 1"
    using upsert_new [OF new refl al] by blast
  have "findExistingIssue pid (ui_fingerprint ?i) (rows @ [new_row pid ?i n k]) = Some (new_row pid ?i n k)"
    if "findExistingIssue pid (ui_fingerprint ?i) rows = None" for rows k
    using that by (induction rows) (auto simp: findExistingIssue_def new_row_def split: if_splits)
  then show ?thesis
    using u new upsert_store_ok [OF ok, of nrm now None pe pid p] by (auto simp: new_row_def)
qed

lemma upsert_total:
  "\<exists>q\<in>set (st_projects st). pi_id q = pid \<Longrightarrow> \<exists>y st'. upsertIssue nrm now None pe pid p st = (Inr y, st')"
  using allocate_total [of "st_projects st" pid]
  by (auto simp: upsertIssue_def insertNewIssue_def insertIssueRow_def Let_def
      split: option.splits prod.splits)

lemma persist_succeeds:
  assumes "\<exists>q\<in>set (st_projects st). pi_id q = pid"
  shows "\<exists>y st'. PersistProcessedEvent env now no_faults pid p st = (Inr y, st')"
proof -
  obtain y st' where "upsertIssue (en_norm env) now None False pid p st = (Inr y, st')"
    using upsert_total [OF assms] by blast
  then show ?thesis
    by (auto simp: PersistProcessedEvent_def insertEvent_def persistFacetsFor_def insertFacets_def
        PersistFacets_def no_faults_def no_facet_faults_def Let_def split: prod.splits)
qed

text \<open>The first event of an issue whose event row or facets cannot be written is reported
  as failed although its upsert is committed; when the caller retries it, the event is counted
  a second time and the issue is no longer new, so no \<open>IssueCreated\<close> is ever published
  for it.\<close>

theorem retry_loses_creation:
  assumes "store_ok st" "\<exists>q\<in>set (st_projects st). pi_id q = pid"
    and "findExistingIssue pid (ui_fingerprint (prepareUpsertInputs (en_norm env) now p)) (st_issues st) = None"
    and "pf_upsert fl = None" "pf_event fl = Some e"
    and "PersistProcessedEvent env now fl pid p st = (res, st1)"
    and "PersistProcessedEvent env now' fl' pid p st1 = (Inr (iss, row, isNew, regressed), st2)"
  shows "res = Inl e \<and> is_Count iss = 2 \<and> \<not> isNew
    \<and> (\<forall>i q. IssueCreated i q \<notin> set (PublishIssueEvent iss pid isNew regressed))"
proof -
  let ?fp = "ui_fingerprint (prepareUpsertInputs (en_norm env) now p)"
  obtain iss1 iid r stu where u: "upsertIssue (en_norm env) now None (pf_prefix fl) pid p st
        = (Inr (iss1, iid, False), stu)" "is_Count iss1 = 1" "store_ok stu" "ir_count r = 1"
      "ir_status r = ''unresolved''" "findExistingIssue pid ?fp (st_issues stu) = Some r"
    using upsert_of_new_then_found [OF assms(1,3,2)] by blast
  have "res = Inl e \<and> st_issues st1 = st_issues stu \<and> st_projects st1 = st_projects stu
      \<and> st_nextIssue st1 = st_nextIssue stu"
    using assms(4-6) u(1,2)
    by (auto simp: PersistProcessedEvent_def insertEvent_def sampleFor_first Let_def split: prod.splits)
  then have res: "res = Inl e" and st1: "store_ok st1" "findExistingIssue pid ?fp (st_issues st1) = Some r"
    using u(3,6) store_ok_cong [of st1 stu] by auto
  have up: "pf_upsert fl' = None"
    using assms(7) by (cases "pf_upsert fl'") (auto simp: PersistProcessedEvent_def upsertIssue_def Let_def)
  have "keys_ok st1" using st1(1) by (simp add: store_ok_def)
  then obtain iss2 where u2: "upsertIssue (en_norm env) now' None (pf_prefix fl') pid p st1
      = (Inr (iss2, ir_id r, regresses r), st1\<lparr>st_issues := map (\<lambda>x. if ir_id x = ir_id r
           then row_after_event (issueSeenAt now' (pe_Event p)) x else x) (st_issues st1)\<rparr>)"
      "is_Count iss2 = ir_count r + 1"
    using upsert_existing [OF _ st1(2) upsert_fingerprint_now refl] by blast
  have "is_Count iss = 2 \<and> \<not> isNew"
    using assms(7) u2 up u(4,5)
    by (auto simp: PersistProcessedEvent_def Let_def split: prod.splits sum.splits option.splits if_splits)
  then show ?thesis using res by (simp add: PublishIssueEvent_def)
qed

theorem retry_loses_creation_witness:
  "\<exists>st1 iss row isNew regressed st2.
     PersistProcessedEvent demo_env 9 (no_faults\<lparr>pf_event := Some DeadlineExceeded\<rparr>) 7 demo_event demo_store
       = (Inl DeadlineExceeded, st1)
   \<and> PersistProcessedEvent demo_env 10 no_faults 7 demo_event st1 = (Inr (iss, row, isNew, regressed), st2)
   \<and> is_Count iss = 2 \<and> \<not> isNew"
proof -
  let ?fl = "no_faults\<lparr>pf_event := Some DeadlineExceeded\<rparr>"
  obtain res st1 where one: "PersistProcessedEvent demo_env 9 ?fl 7 demo_event demo_store = (res, st1)"
    by (metis surj_pair)
  obtain res2 st2 where two: "PersistProcessedEvent demo_env 10 no_faults 7 demo_event st1 = (res2, st2)"
    by (metis surj_pair)
  have none: "findExistingIssue 7 fp (st_issues demo_store) = None" for fp
    by (simp add: demo_store_def findExistingIssue_def)
  have proj: "\<exists>q\<in>set (st_projects demo_store). pi_id q = 7" by (simp add: demo_store_def)
  have st1p: "\<exists>q\<in>set (st_projects st1). pi_id q = 7"
    using issue_step_project [OF proj, of demo_env "Persist 9 ?fl 7 demo_event"] one by simp
  have "\<exists>y. res2 = Inr y" using persist_succeeds [OF st1p, of demo_env 10 demo_event] two by auto
  then obtain iss row isNew regressed where r2: "res2 = Inr (iss, row, isNew, regressed)"
    by (metis prod_cases4)
  show ?thesis
    using retry_loses_creation [OF demo_store_ok proj none _ _ one two [unfolded r2]] one two r2
    by (auto simp: no_faults_def)
qed

section \<open>Stored weights\<close>

definition weight_of :: "int \<Rightarrow> store \<Rightarrow> int" where
  "weight_of iid st = sum_list (map er_weight (filter (\<lambda>e. er_issue e = iid) (st_events st)))"

text \<open>Every policy the write path can see for the project leaves the threshold at \<open>A\<close>.\<close>

definition policy_keeps :: "int \<Rightarrow> string \<Rightarrow> bool" where
  "policy_keeps A mode \<longleftrightarrow> mode \<noteq> SamplingOff \<and> (mode = SamplingOn \<longrightarrow> 0 < A)"

definition threshold_is :: "int \<Rightarrow> int \<Rightarrow> limits_core \<Rightarrow> bool" where
  "threshold_is A pid c \<longleftrightarrow> lc_sampleAfter c = A
     \<and> (\<forall>r\<in>set (lc_rows c). pr_id r = pid \<longrightarrow> policy_keeps A (SamplingMode (row_limits r)))
     \<and> (\<forall>e. lc_entries c pid = Some e \<longrightarrow> policy_keeps A (SamplingMode (le_limits e)))"

lemma mode_threshold_keeps: "policy_keeps A mode \<Longrightarrow> mode_threshold A mode = A"
  by (auto simp: mode_threshold_def policy_keeps_def)

lemma threshold_is_lookup:
  assumes "threshold_is A pid c"
  shows "fst (sampleAfterFor now err pid c) = A" "threshold_is A pid (snd (sampleAfterFor now err q c))"
proof -
  have z: "policy_keeps A (SamplingMode zero_limits)"
    by (simp add: policy_keeps_def zero_limits_def SamplingOn_def SamplingOff_def)
  have l: "policy_keeps A (SamplingMode (fst (limitsFor now err pid c)))"
    using assms z by (auto simp: limitsFor_def threshold_is_def limits_get_def dest: find_SomeD
        split: option.splits if_splits)
  have same: "lc_sampleAfter (snd (limitsFor now err q c)) = lc_sampleAfter c"
    "lc_rows (snd (limitsFor now err q c)) = lc_rows c" for q
    by (auto simp: limitsFor_def split: option.splits)
  show "fst (sampleAfterFor now err pid c) = A"
    using l same(1) [of pid] assms mode_threshold_keeps
    by (cases "limitsFor now err pid c") (simp add: sampleAfterFor_def threshold_is_def)
  have "policy_keeps A (SamplingMode (le_limits e))"
    if "lc_entries (snd (limitsFor now err q c)) pid = Some e" for e
    using assms that by (auto simp: limitsFor_def limits_put_def threshold_is_def dest!: find_SomeD
        split: option.splits if_splits)
  then show "threshold_is A pid (snd (sampleAfterFor now err q c))"
    using assms same [of q] by (cases "limitsFor now err q c") (auto simp: sampleAfterFor_def threshold_is_def)
qed

lemma upsert_frame:
  "st_events (snd (upsertIssue nrm now fault pe q p st)) = st_events st
   \<and> st_limits (snd (upsertIssue nrm now fault pe q p st)) = st_limits st"
  by (auto simp: upsertIssue_def updateExistingIssue_def insertNewIssue_def insertIssueRow_def Let_def
      split: option.splits prod.splits)

lemma persist_events:
  assumes u: "upsertIssue (en_norm env) now (pf_upsert fl) (pf_prefix fl) q p st = (Inr (iss, iid, reg), st1)"
    and "pf_event fl = None"
  shows "st_limits (snd (PersistProcessedEvent env now fl q p st))
      = snd (sampleAfterFor now (pf_limits fl) q (st_limits st))"
    and "weight_of jid (snd (PersistProcessedEvent env now fl q p st)) = weight_of jid st
      + (if jid = iid then snd (sampleFor (is_Count iss) (fst (sampleAfterFor now (pf_limits fl) q (st_limits st)))) else 0)"
    and "er_issue ` set (st_events (snd (PersistProcessedEvent env now fl q p st)))
      \<subseteq> insert iid (er_issue ` set (st_events st))"
proof -
  have f: "st_events st1 = st_events st" "st_limits st1 = st_limits st"
    using upsert_frame [of "en_norm env" now "pf_upsert fl" "pf_prefix fl" q p st] u by simp_all
  obtain A c where s: "sampleAfterFor now (pf_limits fl) q (st_limits st) = (A, c)" by (metis surj_pair)
  have w: "keep \<or> weight = 0" if "sampleFor (is_Count iss) A = (keep, weight)" for keep weight
    using that by (auto simp: sampleFor_def Let_def split: if_splits)
  show "st_limits (snd (PersistProcessedEvent env now fl q p st))
      = snd (sampleAfterFor now (pf_limits fl) q (st_limits st))"
    and "weight_of jid (snd (PersistProcessedEvent env now fl q p st)) = weight_of jid st
      + (if jid = iid then snd (sampleFor (is_Count iss) (fst (sampleAfterFor now (pf_limits fl) q (st_limits st)))) else 0)"
    and "er_issue ` set (st_events (snd (PersistProcessedEvent env now fl q p st)))
      \<subseteq> insert iid (er_issue ` set (st_events st))"
    using u assms(2) f s w
    by (auto simp: PersistProcessedEvent_def insertEvent_def weight_of_def Let_def
        split: prod.splits option.splits)
qed

definition weights_ok :: "int \<Rightarrow> int \<Rightarrow> store \<Rightarrow> bool" where
  "weights_ok A pid st \<longleftrightarrow> store_ok st \<and> threshold_is A pid (st_limits st)
     \<and> (\<forall>r\<in>set (st_issues st). ir_project r = pid \<longrightarrow>
          weight_of (ir_id r) st = recorded_total A (nat (ir_count r)))
     \<and> (\<forall>e\<in>set (st_events st). er_issue e < st_nextIssue st)"

fun event_written :: "issue_op \<Rightarrow> bool" where
  "event_written (Persist now fl q p) \<longleftrightarrow> pf_event fl = None"
| "event_written _ \<longleftrightarrow> True"

lemma weight_of_fresh: "(\<forall>e\<in>set (st_events st). er_issue e < n) \<Longrightarrow> weight_of n st = 0"
proof -
  assume "\<forall>e\<in>set (st_events st). er_issue e < n"
  then have "filter (\<lambda>e. er_issue e = n) (st_events st) = []" by (auto simp: filter_empty_conv)
  then show ?thesis by (simp add: weight_of_def)
qed

lemma weights_upsert_new:
  assumes w: "weights_ok A pid st" and ev: "pf_event fl = None" "pf_upsert fl = None"
    and none: "findExistingIssue q (ui_fingerprint (prepareUpsertInputs (en_norm env) now p)) (st_issues st) = None"
    and al: "allocateIssueNumber q (st_projects st) = Some (n, pre, ps')"
  shows "weights_ok A pid (snd (PersistProcessedEvent env now fl q p st))"
proof -
  let ?st' = "snd (PersistProcessedEvent env now fl q p st)"
  let ?row = "new_row q (prepareUpsertInputs (en_norm env) now p) n (st_nextIssue st)"
  have ok: "store_ok st" and thr: "threshold_is A pid (st_limits st)" using w by (auto simp: weights_ok_def)
  obtain iss where u: "upsertIssue (en_norm env) now (pf_upsert fl) (pf_prefix fl) q p st =
      (Inr (iss, st_nextIssue st, False), st\<lparr>st_projects := ps',
         st_issues := st_issues st @ [?row], st_nextIssue := st_nextIssue st + 1\<rparr>)" "is_Count iss = 1"
    using upsert_new [OF none refl al] ev(2) by fastforce
  note pe = persist_events [OF u(1) ev(1)]
  have rows: "st_issues ?st' = st_issues st @ [?row]" "st_nextIssue ?st' = st_nextIssue st + 1"
    using persist_issue_tables [of env now fl q p st] u(1) by simp_all
  have fresh: "weight_of (st_nextIssue st) st = 0"
    using w by (intro weight_of_fresh) (simp add: weights_ok_def)
  have below: "ir_id r \<noteq> st_nextIssue st" if "r \<in> set (st_issues st)" for r
    using ok that by (auto simp: store_ok_def keys_ok_def row_keys_ok_def)
  have "weight_of (ir_id r) ?st' = recorded_total A (nat (ir_count r))"
    if "r \<in> set (st_issues ?st')" "ir_project r = pid" for r
  proof (cases "r \<in> set (st_issues st)")
    case True
    then show ?thesis using w that pe(2) [of "ir_id r"] below by (simp add: weights_ok_def)
  next
    case False
    then have "r = ?row" using that(1) rows by auto
    then show ?thesis
      using that(2) pe(2) [of "st_nextIssue st"] fresh u(2) threshold_is_lookup(1) [OF thr]
      by (simp add: new_row_def)
  qed
  moreover have "\<forall>e\<in>set (st_events ?st'). er_issue e < st_nextIssue ?st'"
    using w pe(3) rows(2) by (fastforce simp: weights_ok_def)
  ultimately show ?thesis
    using persist_store_ok [OF ok] threshold_is_lookup(2) [OF thr] pe(1) by (simp add: weights_ok_def)
qed

lemma weights_upsert_existing:
  assumes w: "weights_ok A pid st" and ev: "pf_event fl = None" "pf_upsert fl = None"
    and some: "findExistingIssue q (ui_fingerprint (prepareUpsertInputs (en_norm env) now p)) (st_issues st) = Some r"
  shows "weights_ok A pid (snd (PersistProcessedEvent env now fl q p st))"
proof -
  let ?st' = "snd (PersistProcessedEvent env now fl q p st)"
  let ?t = "issueSeenAt now (pe_Event p)"
  have ok: "store_ok st" and thr: "threshold_is A pid (st_limits st)" using w by (auto simp: weights_ok_def)
  then have k: "keys_ok st" by (simp add: store_ok_def)
  obtain iss where u: "upsertIssue (en_norm env) now (pf_upsert fl) (pf_prefix fl) q p st =
      (Inr (iss, ir_id r, regresses r), st\<lparr>st_issues := map (\<lambda>x. if ir_id x = ir_id r
         then row_after_event ?t x else x) (st_issues st)\<rparr>)" "is_Count iss = ir_count r + 1"
    using upsert_existing [OF k some refl refl] ev(2) by fastforce
  note pe = persist_events [OF u(1) ev(1)]
  have r: "r \<in> set (st_issues st)" "ir_project r = q" using findExisting_SomeD [OF some] by auto
  have rows: "st_issues ?st' = map (\<lambda>x. if ir_id x = ir_id r then row_after_event ?t x else x) (st_issues st)"
    "st_nextIssue ?st' = st_nextIssue st"
    using persist_issue_tables [of env now fl q p st] u(1) by simp_all
  have cnt: "1 \<le> ir_count r" using ok r by (simp add: store_ok_def row_ok_def)
  have "weight_of (ir_id y) ?st' = recorded_total A (nat (ir_count y))"
    if y: "y \<in> set (st_issues ?st')" "ir_project y = pid" for y
  proof -
    obtain x where x: "x \<in> set (st_issues st)"
      "y = (if ir_id x = ir_id r then row_after_event ?t x else x)" using y(1) rows(1) by auto
    have xp: "ir_project x = pid" using x y(2) by (auto simp: row_after_event_def Let_def split: if_splits)
    then have wx: "weight_of (ir_id x) st = recorded_total A (nat (ir_count x))"
      using w x(1) by (simp add: weights_ok_def)
    show ?thesis
    proof (cases "ir_id x = ir_id r")
      case True
      then have xr: "x = r" using same_id_same_row [OF k [unfolded keys_ok_def] x(1) r(1)] by simp
      then have "nat (ir_count y) = Suc (nat (ir_count r))" "int (Suc (nat (ir_count r))) = is_Count iss"
        "ir_id y = ir_id r"
        using x(2) cnt u(2) by (auto simp: row_after_event_def Let_def)
      then show ?thesis
        using pe(2) [of "ir_id r"] wx xr xp r(2) threshold_is_lookup(1) [OF thr]
        by (simp del: of_nat_Suc)
    next
      case False
      then show ?thesis using x(2) wx pe(2) [of "ir_id x"] by simp
    qed
  qed
  moreover have "ir_id r < st_nextIssue st" using k r(1) by (simp add: keys_ok_def row_keys_ok_def)
  then have "\<forall>e\<in>set (st_events ?st'). er_issue e < st_nextIssue ?st'"
    using w pe(3) rows(2) by (fastforce simp: weights_ok_def)
  ultimately show ?thesis
    using persist_store_ok [OF ok] threshold_is_lookup(2) [OF thr] pe(1) by (simp add: weights_ok_def)
qed

lemma weights_user_op:
  assumes w: "weights_ok A pid st" and ok: "store_ok st'"
    and f: "\<And>r. same_identity (f r) r \<and> ir_count (f r) = ir_count r"
    and st': "st' = update_row rid f st"
  shows "weights_ok A pid st'"
proof -
  have "weight_of i st' = weight_of i st" for i by (simp add: weight_of_def st' update_row_def)
  then have "weight_of (ir_id y) st' = recorded_total A (nat (ir_count y))"
    if "y \<in> set (st_issues st')" "ir_project y = pid" for y
    using that w f unfolding weights_ok_def
    by (auto simp: st' update_row_def same_identity_def split: if_splits)
  then show ?thesis using w ok by (auto simp: weights_ok_def st' update_row_def)
qed

lemma weights_step:
  assumes w: "weights_ok A pid st" and x: "event_written x"
  shows "weights_ok A pid (issue_step env st x)"
proof -
  have ok': "store_ok (issue_step env st x)"
    using w by (simp add: weights_ok_def issue_machine.step_inv)
  show ?thesis
  proof (cases x)
    case (Persist now fl q p)
    let ?fp = "ui_fingerprint (prepareUpsertInputs (en_norm env) now p)"
    have fail: "weights_ok A pid (snd (PersistProcessedEvent env now fl q p st))"
      if "upsertIssue (en_norm env) now (pf_upsert fl) (pf_prefix fl) q p st = (Inl e, st)" for e
      using w that by (simp add: PersistProcessedEvent_def)
    have ev: "pf_event fl = None" using x Persist by simp
    show ?thesis
    proof (cases "pf_upsert fl")
      case (Some e)
      then show ?thesis using fail upsert_fails(1) Persist by simp
    next
      case up: None
      show ?thesis
      proof (cases "findExistingIssue q ?fp (st_issues st)")
        case (Some r)
        then show ?thesis using weights_upsert_existing [OF w ev up Some] Persist by simp
      next
        case none: None
        show ?thesis
        proof (cases "allocateIssueNumber q (st_projects st)")
          case None
          then show ?thesis using fail upsert_fails(2) [OF none None] up Persist by simp
        next
          case (Some a)
          then show ?thesis
            using weights_upsert_new [OF w ev up none] Persist by (cases a) simp
        qed
      qed
    qed
  qed (use w ok' in \<open>auto simp: ResolveIssue_def ReopenIssue_def setIssueStatus_def MuteIssue_def
      UnmuteIssue_def Let_def same_identity_def split: sum.splits option.splits
      intro!: weights_user_op [OF w _ _ refl]\<close>)
qed

interpretation weights_machine: guarded_machine "issue_step env" "weights_ok A pid" event_written
  for env A pid
  by unfold_locales (rule weights_step)


lemma demo_weights_ok: "weights_ok 1000 7 demo_store"
proof -
  have "threshold_is 1000 7 (st_limits demo_store)"
    by (simp add: demo_store_def demo_core_def threshold_is_def policy_keeps_def row_limits_def
        SamplingOff_def SamplingOn_def)
  then show ?thesis using demo_store_ok by (simp add: weights_ok_def) (simp add: demo_store_def)
qed

lemma demo_issue_counted:
  "\<exists>r\<in>set (st_issues (foldl (issue_step demo_env) demo_store
      [Persist 9 no_faults 7 demo_event, Persist 10 no_faults 7 demo_event])). ir_project r = 7 \<and> ir_count r = 2"
proof -
  let ?x = "Persist 9 no_faults 7 demo_event" and ?y = "Persist 10 no_faults 7 demo_event"
  let ?s1 = "issue_step demo_env demo_store ?x"
  have p0: "\<exists>p\<in>set (st_projects demo_store). pi_id p = 7" by (simp add: demo_store_def)
  have c: "counts_for demo_env 7 ''fp'' ?x" "counts_for demo_env 7 ''fp'' ?y"
    by (simp_all add: prepareUpsertInputs_def demo_event_def trim_space_def is_space_def no_faults_def Let_def)
  have s1: "store_ok ?s1" by (rule issue_machine.step_inv [OF demo_store_ok]) simp
  have "count_of 7 ''fp'' demo_store = 0" by (simp add: count_of_def findExistingIssue_def demo_store_def)
  then have "count_of 7 ''fp'' (issue_step demo_env ?s1 ?y) = 2"
    using issue_step_count [OF demo_store_ok p0, of "''fp''" demo_env ?x] c
      issue_step_count [OF s1 issue_step_project [OF p0], of "''fp''" demo_env ?y] by simp
  then show ?thesis
    by (auto simp: count_of_def dest: findExisting_SomeD split: option.splits)
qed


end
