(* ===== verification/WriteQueue.thy ===== *)
theory WriteQueue
  imports Errors "HOL-Library.Multiset"
begin

text \<open>
  The durable write queue between the ingest producers and the single writer:
  \<open>internal/queue/queue.go\<close> and \<open>processing.go\<close>.

  Redis is a service outside the repository: its commands are the fields of an argument
  \<open>R\<close> over an arbitrary server state, and \<open>redis_ok\<close> states the documented behaviour
  the code relies on, over the lists a client sees.  A command whose reply is an error may or
  may not have taken effect (the reply may be lost on the way).  A list entry is the JSON text
  of a batch; it is represented by what it decodes to, \<open>Garbage\<close> being a text that does not
  decode.
\<close>

section \<open>Items, entries and the server\<close>

record item =
  it_kind :: string
  it_ingestID :: string
  it_receivedAt :: time
  it_contentType :: string
  it_projectSlug :: string
  it_body :: string

datatype entry = Batch "item list" | Garbage string

fun entry_items :: "entry \<Rightarrow> item list" where
  "entry_items (Batch xs) = xs"
| "entry_items (Garbage s) = []"

datatype reply = Got entry | NilReply | Failed

record 's redis =
  rd_lpush :: "string \<Rightarrow> entry \<Rightarrow> 's \<Rightarrow> bool \<times> 's"
  rd_brpop :: "string \<Rightarrow> 's \<Rightarrow> reply \<times> 's"
  rd_blmove :: "string \<Rightarrow> string \<Rightarrow> 's \<Rightarrow> reply \<times> 's"
  rd_lmove :: "string \<Rightarrow> string \<Rightarrow> 's \<Rightarrow> reply \<times> 's"
  rd_lrem :: "string \<Rightarrow> entry \<Rightarrow> 's \<Rightarrow> bool \<times> 's"
  rd_llen :: "string \<Rightarrow> 's \<Rightarrow> int option"

type_synonym lists = "string \<Rightarrow> entry list"

text \<open>\<open>BLMOVE a b RIGHT LEFT\<close>, \<open>LMOVE a b LEFT RIGHT\<close> on two different lists.\<close>

definition move_right_left :: "string \<Rightarrow> string \<Rightarrow> lists \<Rightarrow> lists" where
  "move_right_left a b v = v(a := butlast (v a), b := last (v a) # v b)"

definition move_left_right :: "string \<Rightarrow> string \<Rightarrow> lists \<Rightarrow> lists" where
  "move_left_right a b v = v(a := tl (v a), b := v b @ [hd (v a)])"

definition lpush_ok :: "'s redis \<Rightarrow> ('s \<Rightarrow> lists) \<Rightarrow> bool" where
  "lpush_ok R view \<longleftrightarrow> (\<forall>k p s ok s'. rd_lpush R k p s = (ok, s') \<longrightarrow>
     view s' = (view s)(k := p # view s k) \<or> \<not> ok \<and> view s' = view s)"

definition blmove_ok :: "'s redis \<Rightarrow> ('s \<Rightarrow> lists) \<Rightarrow> bool" where
  "blmove_ok R view \<longleftrightarrow> (\<forall>a b s r s'. a \<noteq> b \<longrightarrow> rd_blmove R a b s = (r, s') \<longrightarrow>
     (case r of
        Got p \<Rightarrow> view s a \<noteq> [] \<and> p = last (view s a) \<and> view s' = move_right_left a b (view s)
      | NilReply \<Rightarrow> view s a = [] \<and> view s' = view s
      | Failed \<Rightarrow> view s' = view s \<or> view s a \<noteq> [] \<and> view s' = move_right_left a b (view s)))"

definition lmove_ok :: "'s redis \<Rightarrow> ('s \<Rightarrow> lists) \<Rightarrow> bool" where
  "lmove_ok R view \<longleftrightarrow> (\<forall>a b s r s'. a \<noteq> b \<longrightarrow> rd_lmove R a b s = (r, s') \<longrightarrow>
     (case r of
        Got p \<Rightarrow> view s a \<noteq> [] \<and> p = hd (view s a) \<and> view s' = move_left_right a b (view s)
      | NilReply \<Rightarrow> view s a = [] \<and> view s' = view s
      | Failed \<Rightarrow> view s' = view s \<or> view s a \<noteq> [] \<and> view s' = move_left_right a b (view s)))"

definition lrem_ok :: "'s redis \<Rightarrow> ('s \<Rightarrow> lists) \<Rightarrow> bool" where
  "lrem_ok R view \<longleftrightarrow> (\<forall>k p s ok s'. rd_lrem R k p s = (ok, s') \<longrightarrow>
     view s' = (view s)(k := remove1 p (view s k)) \<or> \<not> ok \<and> view s' = view s)"

definition brpop_ok :: "'s redis \<Rightarrow> ('s \<Rightarrow> lists) \<Rightarrow> bool" where
  "brpop_ok R view \<longleftrightarrow> (\<forall>k s r s'. rd_brpop R k s = (r, s') \<longrightarrow>
     (case r of
        Got p \<Rightarrow> view s k \<noteq> [] \<and> p = last (view s k) \<and> view s' = (view s)(k := butlast (view s k))
      | NilReply \<Rightarrow> view s k = [] \<and> view s' = view s
      | Failed \<Rightarrow> view s' = view s \<or> view s' = (view s)(k := butlast (view s k))))"

definition redis_ok :: "'s redis \<Rightarrow> ('s \<Rightarrow> lists) \<Rightarrow> bool" where
  "redis_ok R view \<longleftrightarrow> lpush_ok R view \<and> blmove_ok R view \<and> lmove_ok R view \<and> lrem_ok R view
     \<and> brpop_ok R view"

section \<open>The queue's operations\<close>

definition WriteQueueKey :: string where "WriteQueueKey = ''bugbarn:write-queue''"
definition DefaultWriter :: string where "DefaultWriter = ''writer''"
definition maxItemsPerBatch :: nat where "maxItemsPerBatch = 500"

definition KindEvent :: string where "KindEvent = ''event''"
definition KindLog :: string where "KindLog = ''log''"
definition KindSecurity :: string where "KindSecurity = ''security''"
definition KindMetrics :: string where "KindMetrics = ''metrics''"

definition ProcessingKey :: "string \<Rightarrow> string" where
  "ProcessingKey writer = WriteQueueKey @ '':processing:'' @ writer"

record delivery =
  dl_items :: "item list"
  dl_payload :: entry

text \<open>The batch loop stops at the first failing \<open>LPUSH\<close>.\<close>

function publish_loop :: "'s redis \<Rightarrow> item list \<Rightarrow> 's \<Rightarrow> bool \<times> 's" where
  "publish_loop R items s =
     (if items = [] then (True, s)
      else case rd_lpush R WriteQueueKey (Batch (take maxItemsPerBatch items)) s of
        (False, s') \<Rightarrow> (False, s')
      | (True, s') \<Rightarrow> publish_loop R (drop maxItemsPerBatch items) s')"
  by pat_completeness auto
termination by (relation "measure (\<lambda>(R, items, s). length items)") (auto simp: maxItemsPerBatch_def)

declare publish_loop.simps [simp del]

definition Publish :: "'s redis \<Rightarrow> item list \<Rightarrow> 's \<Rightarrow> bool \<times> 's" where
  "Publish R items s = publish_loop R items s"

text \<open>\<open>Consume\<close> pops destructively; an undecodable batch is an error (\<open>Inl\<close>).\<close>

definition Consume :: "'s redis \<Rightarrow> 's \<Rightarrow> (unit + item list) \<times> 's" where
  "Consume R s = (case rd_brpop R WriteQueueKey s of
     (NilReply, s') \<Rightarrow> (Inr [], s')
   | (Failed, s') \<Rightarrow> (Inl (), s')
   | (Got (Batch xs), s') \<Rightarrow> (Inr xs, s')
   | (Got (Garbage g), s') \<Rightarrow> (Inl (), s'))"

definition Ack :: "'s redis \<Rightarrow> string \<Rightarrow> delivery \<Rightarrow> 's \<Rightarrow> bool \<times> 's" where
  "Ack R pk d s = rd_lrem R pk (dl_payload d) s"

definition Reserve :: "'s redis \<Rightarrow> string \<Rightarrow> 's \<Rightarrow> (unit + delivery option) \<times> 's" where
  "Reserve R pk s = (case rd_blmove R WriteQueueKey pk s of
     (NilReply, s') \<Rightarrow> (Inr None, s')
   | (Failed, s') \<Rightarrow> (Inl (), s')
   | (Got payload, s') \<Rightarrow>
       (case payload of
          Batch xs \<Rightarrow> (Inr (Some \<lparr>dl_items = xs, dl_payload = payload\<rparr>), s')
        | Garbage g \<Rightarrow> (Inl (), snd (Ack R pk \<lparr>dl_items = [], dl_payload = payload\<rparr> s'))))"

text \<open>The loop ends when the processing list is empty or a command fails; the flag is the
  absence of an error.\<close>

partial_function (option) recover_loop ::
  "'s redis \<Rightarrow> string \<Rightarrow> int \<Rightarrow> 's \<Rightarrow> ((int \<times> bool) \<times> 's) option" where
  "recover_loop R pk moved s = (case rd_lmove R pk WriteQueueKey s of
     (NilReply, s') \<Rightarrow> Some ((moved, True), s')
   | (Failed, s') \<Rightarrow> Some ((moved, False), s')
   | (Got p, s') \<Rightarrow> recover_loop R pk (moved + 1) s')"

definition RecoverProcessing :: "'s redis \<Rightarrow> string \<Rightarrow> 's \<Rightarrow> ((int \<times> bool) \<times> 's) option" where
  "RecoverProcessing R pk s = recover_loop R pk 0 s"

definition Len :: "'s redis \<Rightarrow> 's \<Rightarrow> int option" where "Len R s = rd_llen R WriteQueueKey s"

definition ProcessingLen :: "'s redis \<Rightarrow> string \<Rightarrow> 's \<Rightarrow> int option" where
  "ProcessingLen R pk s = rd_llen R pk s"

lemma processing_key_differs [simp]: "ProcessingKey w \<noteq> WriteQueueKey" "WriteQueueKey \<noteq> ProcessingKey w"
  by (simp_all add: ProcessingKey_def)

section \<open>The interface of a write queue\<close>

text \<open>What the consumer calls, and what it relies on: nothing published and unacked ever leaves
  the queue and the in-flight list together.\<close>

record 's queue_ops =
  qo_publish :: "item list \<Rightarrow> 's \<Rightarrow> bool \<times> 's"
  qo_reserve :: "'s \<Rightarrow> (unit + delivery option) \<times> 's"
  qo_ack :: "delivery \<Rightarrow> 's \<Rightarrow> bool \<times> 's"
  qo_recover :: "'s \<Rightarrow> ((int \<times> bool) \<times> 's) option"

definition items_of :: "entry list \<Rightarrow> item multiset" where
  "items_of es = mset (concat (map entry_items es))"

lemma items_of_simps [simp]:
  "items_of [] = {#}" "items_of (e # es) = mset (entry_items e) + items_of es"
  "items_of (es @ fs) = items_of es + items_of fs"
  by (simp_all add: items_of_def)

lemma items_of_remove1: "e \<in> set es \<Longrightarrow> items_of es = mset (entry_items e) + items_of (remove1 e es)"
  by (induction es) auto

lemma items_of_rev [simp]: "items_of (rev es) = items_of es"
  by (induction es) auto

locale write_queue =
  fixes Q :: "'s queue_ops"
    and good :: bool
    and pending :: "'s \<Rightarrow> entry list"
    and inflight :: "'s \<Rightarrow> entry list"
  assumes publish_done: "good \<Longrightarrow> qo_publish Q xs s = (True, s') \<Longrightarrow>
      items_of (pending s') = items_of (pending s) + mset xs \<and> inflight s' = inflight s"
    and publish_failed: "good \<Longrightarrow> qo_publish Q xs s = (False, s') \<Longrightarrow>
      items_of (pending s) \<subseteq># items_of (pending s')
      \<and> items_of (pending s') \<subseteq># items_of (pending s) + mset xs \<and> inflight s' = inflight s"
    and reserve_some: "good \<Longrightarrow> qo_reserve Q s = (Inr (Some d), s') \<Longrightarrow>
      pending s = pending s' @ [dl_payload d] \<and> inflight s' = dl_payload d # inflight s
      \<and> entry_items (dl_payload d) = dl_items d"
    and reserve_none: "good \<Longrightarrow> qo_reserve Q s = (Inr None, s') \<Longrightarrow>
      pending s' = pending s \<and> inflight s' = inflight s"
    and reserve_failed: "good \<Longrightarrow> qo_reserve Q s = (Inl (), s') \<Longrightarrow>
      items_of (pending s') + items_of (inflight s') = items_of (pending s) + items_of (inflight s)"
    and ack_any: "good \<Longrightarrow> qo_ack Q d s = (b, s') \<Longrightarrow> pending s' = pending s
      \<and> (inflight s' = remove1 (dl_payload d) (inflight s) \<or> \<not> b \<and> inflight s' = inflight s)"
    and recover_returns: "good \<Longrightarrow> \<exists>n b s'. qo_recover Q s = Some ((n, b), s')
      \<and> items_of (pending s') + items_of (inflight s') = items_of (pending s) + items_of (inflight s)
      \<and> (b \<longrightarrow> inflight s' = [] \<and> pending s' = pending s @ inflight s \<and> n = int (length (inflight s)))"
begin

definition content :: "'s \<Rightarrow> item multiset" where
  "content s = items_of (pending s) + items_of (inflight s)"

lemma publish_content: "good \<Longrightarrow> qo_publish Q xs s = (b, s') \<Longrightarrow>
    content s \<subseteq># content s' \<and> content s' \<subseteq># content s + mset xs \<and> inflight s' = inflight s
    \<and> (b \<longrightarrow> content s' = content s + mset xs)"
proof (cases b)
  case True
  then show "good \<Longrightarrow> qo_publish Q xs s = (b, s') \<Longrightarrow> ?thesis"
    using publish_done [of xs s s'] by (simp add: content_def ac_simps)
next
  case False
  assume "good" "qo_publish Q xs s = (b, s')"
  then have p: "items_of (pending s) \<subseteq># items_of (pending s')"
    "items_of (pending s') \<subseteq># items_of (pending s) + mset xs" "inflight s' = inflight s"
    using publish_failed [of xs s s'] False by auto
  let ?I = "items_of (inflight s)"
  have "items_of (pending s) + mset xs + ?I = content s + mset xs"
    by (simp add: content_def)
  then have "content s' \<subseteq># content s + mset xs"
    using mset_subset_eq_mono_add [OF p(2) subset_mset.order_refl [of ?I]] p(3)
    by (simp only: content_def)
  moreover have "content s \<subseteq># content s'"
    using mset_subset_eq_mono_add [OF p(1) subset_mset.order_refl [of ?I]] p(3)
    by (simp only: content_def)
  ultimately show ?thesis using p(3) False by blast
qed

lemma reserve_content: "good \<Longrightarrow> qo_reserve Q s = (r, s') \<Longrightarrow> content s' = content s"
proof -
  assume g: "good" "qo_reserve Q s = (r, s')"
  consider "r = Inl ()" | "r = Inr None" | d where "r = Inr (Some d)"
    by (metis old.unit.exhaust option.exhaust obj_sumE)
  then show ?thesis
  proof cases
    case 1
    then show ?thesis using reserve_failed [of s s'] g by (simp add: content_def)
  next
    case 2
    then show ?thesis using reserve_none [of s s'] g by (simp add: content_def)
  next
    case 3
    then show ?thesis using reserve_some [of s d s'] g by (simp add: content_def)
  qed
qed

lemma ack_content: "good \<Longrightarrow> qo_ack Q d s = (b, s') \<Longrightarrow> dl_payload d \<in> set (inflight s) \<Longrightarrow>
    content s \<subseteq># content s' + mset (entry_items (dl_payload d)) \<and> content s' \<subseteq># content s"
proof -
  assume g: "good" "qo_ack Q d s = (b, s')" and d: "dl_payload d \<in> set (inflight s)"
  have "content s = content s' + mset (entry_items (dl_payload d)) \<or> content s = content s'"
    using ack_any [OF g] items_of_remove1 [OF d] by (auto simp: content_def)
  then show ?thesis by auto
qed

lemma recover_content: "good \<Longrightarrow> qo_recover Q s = Some (r, s') \<Longrightarrow> content s' = content s"
  using recover_returns [of s] by (auto simp: content_def)

end

section \<open>The Redis queue is a write queue\<close>

definition redis_queue :: "'s redis \<Rightarrow> string \<Rightarrow> 's queue_ops" where
  "redis_queue R pk = \<lparr>qo_publish = Publish R, qo_reserve = Reserve R pk, qo_ack = Ack R pk,
     qo_recover = RecoverProcessing R pk\<rparr>"

lemma redis_okD:
  "redis_ok R view \<Longrightarrow> rd_lpush R k p s = (ok, s') \<Longrightarrow>
     view s' = (view s)(k := p # view s k) \<or> \<not> ok \<and> view s' = view s"
  "redis_ok R view \<Longrightarrow> rd_lrem R k p s = (ok, s') \<Longrightarrow>
     view s' = (view s)(k := remove1 p (view s k)) \<or> \<not> ok \<and> view s' = view s"
  unfolding redis_ok_def lpush_ok_def lrem_ok_def by blast+

lemma redis_moveD:
  "redis_ok R view \<Longrightarrow> a \<noteq> b \<Longrightarrow> rd_blmove R a b s = (Got p, s') \<Longrightarrow>
     view s a \<noteq> [] \<and> p = last (view s a) \<and> view s' = move_right_left a b (view s)"
  "redis_ok R view \<Longrightarrow> a \<noteq> b \<Longrightarrow> rd_blmove R a b s = (NilReply, s') \<Longrightarrow> view s a = [] \<and> view s' = view s"
  "redis_ok R view \<Longrightarrow> a \<noteq> b \<Longrightarrow> rd_blmove R a b s = (Failed, s') \<Longrightarrow>
     view s' = view s \<or> view s a \<noteq> [] \<and> view s' = move_right_left a b (view s)"
  "redis_ok R view \<Longrightarrow> a \<noteq> b \<Longrightarrow> rd_lmove R a b s = (Got p, s') \<Longrightarrow>
     view s a \<noteq> [] \<and> p = hd (view s a) \<and> view s' = move_left_right a b (view s)"
  "redis_ok R view \<Longrightarrow> a \<noteq> b \<Longrightarrow> rd_lmove R a b s = (NilReply, s') \<Longrightarrow> view s a = [] \<and> view s' = view s"
  "redis_ok R view \<Longrightarrow> a \<noteq> b \<Longrightarrow> rd_lmove R a b s = (Failed, s') \<Longrightarrow>
     view s' = view s \<or> view s a \<noteq> [] \<and> view s' = move_left_right a b (view s)"
  unfolding redis_ok_def blmove_ok_def lmove_ok_def by fastforce+

text \<open>What a publish leaves on the server: new entries on the left, in batches, holding a prefix
  of the items in order -- all of them when it succeeds.\<close>

definition published :: "('s \<Rightarrow> lists) \<Rightarrow> item list \<Rightarrow> bool \<Rightarrow> 's \<Rightarrow> 's \<Rightarrow> bool" where
  "published view xs b s s' \<longleftrightarrow>
     (\<exists>new rest. view s' = (view s)(WriteQueueKey := new @ view s WriteQueueKey)
       \<and> concat (map entry_items (rev new)) @ rest = xs \<and> (b \<longrightarrow> rest = [])
       \<and> (\<forall>e\<in>set new. length (entry_items e) \<le> maxItemsPerBatch))"

lemma publish_loop_view:
  "redis_ok R view \<Longrightarrow> publish_loop R xs s = (b, s') \<Longrightarrow> published view xs b s s'"
proof (induction R xs s rule: publish_loop.induct)
  case (1 R xs s)
  show ?case
  proof (cases "xs = []")
    case True
    then have "b \<and> s' = s" using 1(3) by (simp add: publish_loop.simps)
    then show ?thesis using True
      unfolding published_def by (intro exI [of _ "[]"]) simp
  next
    case False
    let ?e = "Batch (take maxItemsPerBatch xs)"
    obtain ok s1 where l: "rd_lpush R WriteQueueKey ?e s = (ok, s1)" by (metis surj_pair)
    note v = redis_okD(1) [OF 1(2) l]
    show ?thesis
    proof (cases ok)
      case True
      then have v1: "view s1 = (view s)(WriteQueueKey := ?e # view s WriteQueueKey)" using v by simp
      have "publish_loop R (drop maxItemsPerBatch xs) s1 = (b, s')"
        using 1(3) False l True by (subst (asm) publish_loop.simps) simp
      then have "published view (drop maxItemsPerBatch xs) b s1 s'"
        using 1(1) [OF False l [symmetric]] 1(2) True by simp
      then obtain new rest where n: "view s' = (view s1)(WriteQueueKey := new @ view s1 WriteQueueKey)"
          "concat (map entry_items (rev new)) @ rest = drop maxItemsPerBatch xs" "b \<longrightarrow> rest = []"
          "\<forall>e\<in>set new. length (entry_items e) \<le> maxItemsPerBatch"
        unfolding published_def by blast
      have "concat (map entry_items (rev (new @ [?e]))) @ rest = xs" using n(2) by simp
      moreover have "view s' = (view s)(WriteQueueKey := (new @ [?e]) @ view s WriteQueueKey)"
        using n(1) v1 by simp
      moreover have "\<forall>e\<in>set (new @ [?e]). length (entry_items e) \<le> maxItemsPerBatch" using n(4) by simp
      ultimately show ?thesis using n(3) unfolding published_def by blast
    next
      case ok: False
      then have b: "\<not> b" "s' = s1" using 1(3) False l by (simp_all add: publish_loop.simps)
      from v show ?thesis
      proof
        assume "view s1 = (view s)(WriteQueueKey := ?e # view s WriteQueueKey)"
        then show ?thesis using b unfolding published_def
          by (intro exI [of _ "[?e]"] exI [of _ "drop maxItemsPerBatch xs"]) simp
      next
        assume "\<not> ok \<and> view s1 = view s"
        then show ?thesis using b unfolding published_def by (intro exI [of _ "[]"] exI [of _ xs]) simp
      qed
    qed
  qed
qed

lemma items_of_concat: "mset (concat (map entry_items es)) = items_of es"
  by (simp add: items_of_def)

lemma published_items:
  assumes "published view xs b s s'"
  shows "\<exists>m. items_of (view s' WriteQueueKey) = items_of (view s WriteQueueKey) + m
    \<and> m \<subseteq># mset xs \<and> (b \<longrightarrow> m = mset xs) \<and> (\<forall>k. k \<noteq> WriteQueueKey \<longrightarrow> view s' k = view s k)"
proof -
  obtain new rest where n: "view s' = (view s)(WriteQueueKey := new @ view s WriteQueueKey)"
    "concat (map entry_items (rev new)) @ rest = xs" "b \<longrightarrow> rest = []"
    using assms unfolding published_def by blast
  have "mset xs = items_of new + mset rest"
    using items_of_concat [of "rev new"] unfolding n(2) [symmetric] by simp
  then show ?thesis using n(1,3) by (intro exI [of _ "items_of new"]) (auto simp: union_commute)
qed

lemma move_left_right_content:
  "a \<noteq> b \<Longrightarrow> v a \<noteq> [] \<Longrightarrow>
   items_of (move_left_right a b v b) + items_of (move_left_right a b v a) = items_of (v b) + items_of (v a)"
  by (cases "v a") (auto simp: move_left_right_def)

lemma recover_loop_returns:
  assumes "redis_ok R view" "pk \<noteq> WriteQueueKey"
  shows "\<exists>n b s'. recover_loop R pk m s = Some ((n, b), s')
    \<and> items_of (view s' WriteQueueKey) + items_of (view s' pk)
        = items_of (view s WriteQueueKey) + items_of (view s pk)
    \<and> (b \<longrightarrow> view s' pk = [] \<and> view s' WriteQueueKey = view s WriteQueueKey @ view s pk
          \<and> n = m + int (length (view s pk)))"
proof (induction "length (view s pk)" arbitrary: m s rule: less_induct)
  case less
  obtain r s1 where l: "rd_lmove R pk WriteQueueKey s = (r, s1)" by (metis surj_pair)
  note mv = redis_moveD(4-6) [OF assms]
  show ?case
  proof (cases r)
    case NilReply
    then show ?thesis using mv(2) l by (subst recover_loop.simps) auto
  next
    case Failed
    have "items_of (view s1 WriteQueueKey) + items_of (view s1 pk)
        = items_of (view s WriteQueueKey) + items_of (view s pk)"
      using mv(3) [OF l [unfolded Failed]] move_left_right_content [OF assms(2)] by auto
    moreover have "recover_loop R pk m s = Some ((m, False), s1)"
      using l Failed by (subst recover_loop.simps) simp
    ultimately show ?thesis by blast
  next
    case (Got p)
    have g: "view s pk \<noteq> []" "view s1 = move_left_right pk WriteQueueKey (view s)"
      using mv(1) l Got by auto
    then have v1: "view s1 pk = tl (view s pk)"
      "view s1 WriteQueueKey = view s WriteQueueKey @ [hd (view s pk)]"
      using assms(2) by (auto simp: move_left_right_def)
    have "length (view s1 pk) < length (view s pk)" using v1 g(1) by (cases "view s pk") auto
    from less [OF this, of "m + 1"] obtain n b s' where n: "recover_loop R pk (m + 1) s1 = Some ((n, b), s')"
      "items_of (view s' WriteQueueKey) + items_of (view s' pk)
        = items_of (view s1 WriteQueueKey) + items_of (view s1 pk)"
      "b \<longrightarrow> view s' pk = [] \<and> view s' WriteQueueKey = view s1 WriteQueueKey @ view s1 pk
          \<and> n = (m + 1) + int (length (view s1 pk))" by blast
    have "recover_loop R pk m s = Some ((n, b), s')"
      using n(1) l Got by (subst recover_loop.simps) simp
    moreover have "items_of (view s1 WriteQueueKey) + items_of (view s1 pk)
        = items_of (view s WriteQueueKey) + items_of (view s pk)"
      using move_left_right_content [of pk WriteQueueKey "view s", OF assms(2) g(1)] g(2) by simp
    moreover have "view s1 WriteQueueKey @ view s1 pk = view s WriteQueueKey @ view s pk"
      "1 + int (length (view s1 pk)) = int (length (view s pk))"
      using v1 g(1) by (cases "view s pk"; simp)+
    ultimately show ?thesis using n(2,3) by auto
  qed
qed

lemma reserve_view:
  assumes "redis_ok R view" "pk \<noteq> WriteQueueKey" "Reserve R pk s = (r, s')"
  shows "(\<forall>d. r = Inr (Some d) \<longrightarrow> view s WriteQueueKey = view s' WriteQueueKey @ [dl_payload d]
        \<and> view s' pk = dl_payload d # view s pk \<and> entry_items (dl_payload d) = dl_items d)
    \<and> (r = Inr None \<longrightarrow> view s' = view s)
    \<and> (r = Inl () \<longrightarrow> items_of (view s' WriteQueueKey) + items_of (view s' pk)
        = items_of (view s WriteQueueKey) + items_of (view s pk))"
proof -
  have ne: "WriteQueueKey \<noteq> pk" using assms(2) by simp
  obtain q s1 where l: "rd_blmove R WriteQueueKey pk s = (q, s1)" by (metis surj_pair)
  have moved: "view s WriteQueueKey = view s1 WriteQueueKey @ [last (view s WriteQueueKey)]
      \<and> view s1 pk = last (view s WriteQueueKey) # view s pk"
    if "view s1 = move_right_left WriteQueueKey pk (view s)" "view s WriteQueueKey \<noteq> []"
    using that ne by (simp add: move_right_left_def)
  show ?thesis
  proof (cases q)
    case NilReply
    then show ?thesis using redis_moveD(2) [OF assms(1) ne] l assms(3) by (auto simp: Reserve_def)
  next
    case Failed
    then have "r = Inl ()" "s' = s1" using l assms(3) by (auto simp: Reserve_def)
    moreover have "items_of (view s1 WriteQueueKey) + items_of (view s1 pk)
        = items_of (view s WriteQueueKey) + items_of (view s pk)"
      using redis_moveD(3) [OF assms(1) ne l [unfolded Failed]]
    proof
      assume m: "view s WriteQueueKey \<noteq> [] \<and> view s1 = move_right_left WriteQueueKey pk (view s)"
      then show ?thesis using arg_cong [OF conjunct1 [OF moved], of items_of] moved by simp
    qed simp
    ultimately show ?thesis by simp
  next
    case (Got p)
    then have g: "view s WriteQueueKey \<noteq> []" "p = last (view s WriteQueueKey)"
      "view s1 = move_right_left WriteQueueKey pk (view s)"
      using redis_moveD(1) [OF assms(1) ne] l by auto
    note m = moved [OF g(3,1), folded g(2)]
    show ?thesis
    proof (cases p)
      case (Batch xs)
      then show ?thesis using m Got l assms(3) by (auto simp: Reserve_def)
    next
      case (Garbage t)
      then have r: "r = Inl ()" "s' = snd (rd_lrem R pk p s1)"
        using Got l assms(3) by (auto simp: Reserve_def Ack_def)
      obtain ok s2 where lr: "rd_lrem R pk p s1 = (ok, s2)" by (metis surj_pair)
      have "items_of (view s2 WriteQueueKey) + items_of (view s2 pk)
        = items_of (view s1 WriteQueueKey) + items_of (view s1 pk)"
        using redis_okD(2) [OF assms(1) lr] ne m Garbage by auto
      moreover have "items_of (view s1 WriteQueueKey) + items_of (view s1 pk)
        = items_of (view s WriteQueueKey) + items_of (view s pk)"
        using arg_cong [OF conjunct1 [OF m], of items_of] m by simp
      ultimately show ?thesis using r lr by simp
    qed
  qed
qed

interpretation rq: write_queue "redis_queue R (ProcessingKey w)" "redis_ok R view"
    "\<lambda>s. view s WriteQueueKey" "\<lambda>s. view s (ProcessingKey w)"
  for R :: "'s redis" and view and w
proof
  fix xs s s'
  assume R: "redis_ok R view"
  have pub: "\<exists>m. items_of (view s' WriteQueueKey) = items_of (view s WriteQueueKey) + m
      \<and> m \<subseteq># mset xs \<and> (b \<longrightarrow> m = mset xs) \<and> view s' (ProcessingKey w) = view s (ProcessingKey w)"
    if "qo_publish (redis_queue R (ProcessingKey w)) xs s = (b, s')" for b
    using published_items [OF publish_loop_view [OF R, of xs s b s']] that
    by (auto simp: redis_queue_def Publish_def)
  show "qo_publish (redis_queue R (ProcessingKey w)) xs s = (True, s') \<Longrightarrow>
      items_of (view s' WriteQueueKey) = items_of (view s WriteQueueKey) + mset xs
      \<and> view s' (ProcessingKey w) = view s (ProcessingKey w)"
    using pub [of True] by simp
  show "qo_publish (redis_queue R (ProcessingKey w)) xs s = (False, s') \<Longrightarrow>
      items_of (view s WriteQueueKey) \<subseteq># items_of (view s' WriteQueueKey)
      \<and> items_of (view s' WriteQueueKey) \<subseteq># items_of (view s WriteQueueKey) + mset xs
      \<and> view s' (ProcessingKey w) = view s (ProcessingKey w)"
    using pub [of False] by (auto simp: subset_mset.add_increasing)
next
  fix s d s'
  assume R: "redis_ok R view"
  note rv = reserve_view [OF R processing_key_differs(1)]
  show "qo_reserve (redis_queue R (ProcessingKey w)) s = (Inr (Some d), s') \<Longrightarrow>
      view s WriteQueueKey = view s' WriteQueueKey @ [dl_payload d]
      \<and> view s' (ProcessingKey w) = dl_payload d # view s (ProcessingKey w)
      \<and> entry_items (dl_payload d) = dl_items d"
    using rv by (fastforce simp: redis_queue_def)
  show "qo_reserve (redis_queue R (ProcessingKey w)) s = (Inr None, s') \<Longrightarrow>
      view s' WriteQueueKey = view s WriteQueueKey
      \<and> view s' (ProcessingKey w) = view s (ProcessingKey w)"
    using rv by (fastforce simp: redis_queue_def)
  show "qo_reserve (redis_queue R (ProcessingKey w)) s = (Inl (), s') \<Longrightarrow>
      items_of (view s' WriteQueueKey) + items_of (view s' (ProcessingKey w))
      = items_of (view s WriteQueueKey) + items_of (view s (ProcessingKey w))"
    using rv by (fastforce simp: redis_queue_def)
next
  fix d s b s'
  assume R: "redis_ok R view"
  show "qo_ack (redis_queue R (ProcessingKey w)) d s = (b, s') \<Longrightarrow>
      view s' WriteQueueKey = view s WriteQueueKey
      \<and> (view s' (ProcessingKey w) = remove1 (dl_payload d) (view s (ProcessingKey w))
         \<or> \<not> b \<and> view s' (ProcessingKey w) = view s (ProcessingKey w))"
    using redis_okD(2) [OF R, of "ProcessingKey w" "dl_payload d" s b s']
    by (auto simp: redis_queue_def Ack_def)
next
  fix s
  assume R: "redis_ok R view"
  show "\<exists>n b s'. qo_recover (redis_queue R (ProcessingKey w)) s = Some ((n, b), s')
      \<and> items_of (view s' WriteQueueKey) + items_of (view s' (ProcessingKey w))
        = items_of (view s WriteQueueKey) + items_of (view s (ProcessingKey w))
      \<and> (b \<longrightarrow> view s' (ProcessingKey w) = []
           \<and> view s' WriteQueueKey = view s WriteQueueKey @ view s (ProcessingKey w)
           \<and> n = int (length (view s (ProcessingKey w))))"
    using recover_loop_returns [OF R processing_key_differs(1), of w 0 s]
    by (simp add: redis_queue_def RecoverProcessing_def)
qed

section \<open>A server with a script of faults\<close>

text \<open>An instance of the service: the lists, and for each coming command whether it works, is
  lost before it takes effect, or takes effect and loses its reply.\<close>

datatype fault = Fine | LostRequest | LostReply

record server =
  sv_lists :: lists
  sv_script :: "fault list"

definition next_fault :: "server \<Rightarrow> fault \<times> server" where
  "next_fault s = (case sv_script s of [] \<Rightarrow> (Fine, s) | f # fs \<Rightarrow> (f, s\<lparr>sv_script := fs\<rparr>))"

definition sv_write :: "(lists \<Rightarrow> lists) \<Rightarrow> server \<Rightarrow> bool \<times> server" where
  "sv_write f s = (case next_fault s of
     (Fine, s') \<Rightarrow> (True, s'\<lparr>sv_lists := f (sv_lists s')\<rparr>)
   | (LostRequest, s') \<Rightarrow> (False, s')
   | (LostReply, s') \<Rightarrow> (False, s'\<lparr>sv_lists := f (sv_lists s')\<rparr>))"

definition sv_take :: "(lists \<Rightarrow> entry option) \<Rightarrow> (lists \<Rightarrow> lists) \<Rightarrow> server \<Rightarrow> reply \<times> server" where
  "sv_take peek f s = (case next_fault s of
     (Fine, s') \<Rightarrow> (case peek (sv_lists s') of
        None \<Rightarrow> (NilReply, s') | Some p \<Rightarrow> (Got p, s'\<lparr>sv_lists := f (sv_lists s')\<rparr>))
   | (LostRequest, s') \<Rightarrow> (Failed, s')
   | (LostReply, s') \<Rightarrow> (Failed, if peek (sv_lists s') = None then s' else s'\<lparr>sv_lists := f (sv_lists s')\<rparr>))"

definition script_redis :: "server redis" where
  "script_redis = \<lparr>
     rd_lpush = (\<lambda>k p. sv_write (\<lambda>v. v(k := p # v k))),
     rd_brpop = (\<lambda>k. sv_take (\<lambda>v. if v k = [] then None else Some (last (v k))) (\<lambda>v. v(k := butlast (v k)))),
     rd_blmove = (\<lambda>a b. sv_take (\<lambda>v. if v a = [] then None else Some (last (v a))) (move_right_left a b)),
     rd_lmove = (\<lambda>a b. sv_take (\<lambda>v. if v a = [] then None else Some (hd (v a))) (move_left_right a b)),
     rd_lrem = (\<lambda>k p. sv_write (\<lambda>v. v(k := remove1 p (v k)))),
     rd_llen = (\<lambda>k s. Some (int (length (sv_lists s k))))\<rparr>"

lemma next_fault_lists: "next_fault s = (f, s') \<Longrightarrow> sv_lists s' = sv_lists s"
  by (auto simp: next_fault_def split: list.splits)

lemma sv_write_spec: "sv_write f s = (ok, s') \<Longrightarrow>
    sv_lists s' = f (sv_lists s) \<or> \<not> ok \<and> sv_lists s' = sv_lists s"
  by (auto simp: sv_write_def dest: next_fault_lists split: prod.splits fault.splits)

lemma sv_take_spec: "sv_take peek f s = (r, s') \<Longrightarrow>
    (case r of
       Got p \<Rightarrow> peek (sv_lists s) = Some p \<and> sv_lists s' = f (sv_lists s)
     | NilReply \<Rightarrow> peek (sv_lists s) = None \<and> sv_lists s' = sv_lists s
     | Failed \<Rightarrow> sv_lists s' = sv_lists s \<or> peek (sv_lists s) \<noteq> None \<and> sv_lists s' = f (sv_lists s))"
  by (auto simp: sv_take_def dest: next_fault_lists split: prod.splits fault.splits option.splits if_splits)

lemma script_redis_ok: "redis_ok script_redis sv_lists"
  unfolding redis_ok_def
proof (intro conjI)
  show "lpush_ok script_redis sv_lists"
    unfolding lpush_ok_def script_redis_def using sv_write_spec by fastforce
  show "lrem_ok script_redis sv_lists"
    unfolding lrem_ok_def script_redis_def using sv_write_spec by fastforce
  show "blmove_ok script_redis sv_lists"
    unfolding blmove_ok_def script_redis_def
    by (auto dest!: sv_take_spec split: reply.splits if_splits)
  show "lmove_ok script_redis sv_lists"
    unfolding lmove_ok_def script_redis_def
    by (auto dest!: sv_take_spec split: reply.splits if_splits)
  show "brpop_ok script_redis sv_lists"
    unfolding brpop_ok_def script_redis_def
    by (auto dest!: sv_take_spec split: reply.splits if_splits)
qed

definition demo_item :: "string \<Rightarrow> item" where
  "demo_item i = \<lparr>it_kind = KindEvent, it_ingestID = i, it_receivedAt = 1, it_contentType = [],
     it_projectSlug = ''shop'', it_body = []\<rparr>"

definition demo_server :: "fault list \<Rightarrow> server" where
  "demo_server script = \<lparr>sv_lists = (\<lambda>k.
     if k = WriteQueueKey then [Batch [demo_item ''b''], Batch [demo_item ''a'']] else []),
     sv_script = script\<rparr>"

text \<open>A successful publish leaves every item on the queue, in order, in entries of at most
  500 items, behind everything already queued; a failed one leaves a prefix of the items there
  (so a retry duplicates but never loses), and in neither case is another list touched.\<close>

theorem publish_in_order:
  assumes "redis_ok R view" "Publish R xs s = (b, s')"
  shows "\<exists>new rest. view s' = (view s)(WriteQueueKey := new @ view s WriteQueueKey)
    \<and> concat (map entry_items (rev new)) @ rest = xs \<and> (b \<longrightarrow> rest = [])
    \<and> (\<forall>e\<in>set new. length (entry_items e) \<le> 500)"
  using publish_loop_view [OF assms(1)] assms(2)
  by (simp add: Publish_def published_def maxItemsPerBatch_def)

theorem publish_in_order_witness:
  "\<exists>new rest. sv_lists (snd (Publish script_redis [demo_item ''c''] (demo_server [LostReply])))
      = (sv_lists (demo_server [LostReply]))(WriteQueueKey := new @ sv_lists (demo_server [LostReply]) WriteQueueKey)
    \<and> concat (map entry_items (rev new)) @ rest = [demo_item ''c'']"
  using publish_in_order [OF script_redis_ok, of "[demo_item ''c'']" "demo_server [LostReply]"]
  by (metis surj_pair snd_conv)

text \<open>C32: Recovery after a restart or a lost reply returns, loses nothing, and when no command
  fails it empties the processing list back onto the consuming end of the queue in order, so
  the oldest unacked entry is the next one reserved.\<close>

theorem recovery_restores_order:
  assumes "redis_ok R view"
  shows "\<exists>n b s'. RecoverProcessing R (ProcessingKey w) s = Some ((n, b), s')
    \<and> items_of (view s' WriteQueueKey) + items_of (view s' (ProcessingKey w))
        = items_of (view s WriteQueueKey) + items_of (view s (ProcessingKey w))
    \<and> (b \<longrightarrow> view s' (ProcessingKey w) = []
          \<and> view s' WriteQueueKey = view s WriteQueueKey @ view s (ProcessingKey w)
          \<and> n = int (length (view s (ProcessingKey w))))"
  using rq.recover_returns [OF assms, where w = w] by (simp add: redis_queue_def)

theorem recovery_restores_order_witness:
  "\<exists>n s'. RecoverProcessing script_redis (ProcessingKey DefaultWriter)
      (snd (Reserve script_redis (ProcessingKey DefaultWriter) (demo_server [LostReply]))) = Some ((n, True), s')
    \<and> sv_lists s' WriteQueueKey = [Batch [demo_item ''b''], Batch [demo_item ''a'']]"
proof -
  let ?s = "snd (Reserve script_redis (ProcessingKey DefaultWriter) (demo_server [LostReply]))"
  have s: "sv_lists ?s WriteQueueKey = [Batch [demo_item ''b'']]"
    "sv_lists ?s (ProcessingKey DefaultWriter) = [Batch [demo_item ''a'']]" "sv_script ?s = []"
    by (simp_all add: Reserve_def script_redis_def sv_take_def next_fault_def demo_server_def
        move_right_left_def)
  have "\<exists>n s'. RecoverProcessing script_redis (ProcessingKey DefaultWriter) ?s = Some ((n, True), s')"
    using s by (simp add: RecoverProcessing_def recover_loop.simps script_redis_def sv_take_def
        next_fault_def move_left_right_def)
  then show ?thesis
    using recovery_restores_order [OF script_redis_ok, of DefaultWriter ?s] s by auto
qed

text \<open>The destructive read loses what the reserving read keeps: the same lost reply makes
  \<open>Consume\<close> drop the oldest entry from the server, while \<open>Reserve\<close> leaves it in the
  writer's processing list.\<close>

theorem lost_reply_consume_vs_reserve:
  assumes "sv_script s = LostReply # fs" "sv_lists s WriteQueueKey = es @ [e]"
    and "sv_lists s (ProcessingKey w) = ps"
  shows "(case Consume script_redis s of (r, s') \<Rightarrow> r = Inl ()
        \<and> sv_lists s' WriteQueueKey = es \<and> sv_lists s' (ProcessingKey w) = ps)
    \<and> (case Reserve script_redis (ProcessingKey w) s of (r, s') \<Rightarrow> r = Inl ()
        \<and> sv_lists s' WriteQueueKey = es \<and> sv_lists s' (ProcessingKey w) = e # ps)"
  using assms
  by (simp add: Consume_def Reserve_def script_redis_def sv_take_def next_fault_def move_right_left_def)

theorem lost_reply_consume_vs_reserve_witness:
  "sv_lists (snd (Reserve script_redis (ProcessingKey DefaultWriter) (demo_server [LostReply])))
     (ProcessingKey DefaultWriter) = [Batch [demo_item ''a'']]"
  using lost_reply_consume_vs_reserve [of "demo_server [LostReply]" "[]" "[Batch [demo_item ''b'']]"
      "Batch [demo_item ''a'']" DefaultWriter "[]"]
  by (simp add: demo_server_def split: prod.splits)

end
