(* ===== verification/Processor.thy ===== *)
theory Processor
  imports IssueLifecycle WriteQueue
begin

text \<open>
  The persist pipeline for one ingest record: \<open>internal/worker/processor.go\<close>
  (\<open>ProcessRecord\<close>), \<open>internal/ingestproc/processor.go\<close>, the held-event table
  (\<open>internal/storage/held_events.go\<close>) and its replay
  (\<open>internal/ingestproc/replayer.go\<close>).

  What the pipeline calls outside these files is an argument: normalisation, fingerprinting,
  symbolication, project resolution, log parsing and the log insert.  The outcomes of calls
  that touch the outside world are given per attempt, by the number of the attempt.
\<close>

record spool_record =
  sr_ingestID :: string
  sr_receivedAt :: time
  sr_kind :: string
  sr_contentType :: string
  sr_remoteAddr :: string
  sr_contentLength :: int
  sr_body :: string
  sr_projectSlug :: string
  sr_projectID :: int
  sr_internal :: bool

record project_ref =
  pj_id :: int
  pj_status :: string

record held_record =
  hr_id :: int
  hr_projectID :: int
  hr_slug :: string
  hr_kind :: string
  hr_ingestID :: string
  hr_receivedAt :: time
  hr_contentType :: string
  hr_body :: string
  hr_createdAt :: time

record proc_env =
  px_normalise :: "string \<Rightarrow> string \<Rightarrow> time \<Rightarrow> bool \<Rightarrow> event option"
  px_fingerprint :: "event \<Rightarrow> string"
  px_material :: "event \<Rightarrow> string"
  px_explanation :: "event \<Rightarrow> string list"
  px_symbolicate :: "event \<Rightarrow> event"
  px_parseLogs :: "string \<Rightarrow> string \<Rightarrow> int \<Rightarrow> string list"
  px_persist :: persist_env
  px_default :: int
  px_now :: "nat \<Rightarrow> time"
  px_ensure :: "nat \<Rightarrow> string \<Rightarrow> project_ref option"
  px_faults :: "nat \<Rightarrow> persist_faults"
  px_holdErr :: "nat \<Rightarrow> db_error option"
  px_logErr :: "nat \<Rightarrow> db_error option"
  px_telemetryOk :: "nat \<Rightarrow> bool"
  px_deleteErr :: "nat \<Rightarrow> db_error option"
  px_listErr :: "nat \<Rightarrow> db_error option"

text \<open>The writer's world: its tables, what it has published and inserted, and the attempt number.\<close>

record world =
  wd_store :: store
  wd_held :: "held_record list"
  wd_nextHeld :: int
  wd_published :: "domain_event list"
  wd_logs :: "string list"
  wd_telemetry :: "(string \<times> string) list"
  wd_step :: nat

section \<open>Processing a record\<close>

definition ProcessRecord :: "proc_env \<Rightarrow> spool_record \<Rightarrow> processed option" where
  "ProcessRecord px rec = (case b64_decode (sr_body rec) of
     None \<Rightarrow> None
   | Some body \<Rightarrow>
       (case px_normalise px body (sr_ingestID rec) (sr_receivedAt rec) (sr_internal rec) of
          None \<Rightarrow> None
        | Some evt \<Rightarrow>
            (let fp = (if EvFingerprint evt = [] then px_fingerprint px evt else EvFingerprint evt);
                 material = px_material px evt; explanation = px_explanation px evt
             in Some \<lparr>pe_Event = evt\<lparr>EvFingerprint := fp, EvMaterial := material,
                        EvExplanation := explanation\<rparr>,
                      pe_Fingerprint = fp, pe_Material = material, pe_Explanation = explanation\<rparr>)))"

datatype outcome = OutcomeSuccess | OutcomeParseError | OutcomeTransient | OutcomePersistError | OutcomeHeld

record presult =
  pr_outcome :: outcome
  pr_err :: "app_error option"
  pr_projectID :: int

definition EnsureProjectForIngest :: "proc_env \<Rightarrow> string \<Rightarrow> world \<Rightarrow> project_ref option" where
  "EnsureProjectForIngest px slug w = (if slug = [] then None else px_ensure px (wd_step w) slug)"

definition HoldEvent :: "proc_env \<Rightarrow> held_record \<Rightarrow> world \<Rightarrow> app_error option \<times> world" where
  "HoldEvent px h w = (case px_holdErr px (wd_step w) of
     Some e \<Rightarrow> (Some (wrapErr e ''hold event''), w)
   | None \<Rightarrow> (None, w\<lparr>wd_held := wd_held w @ [h\<lparr>hr_id := wd_nextHeld w,
                hr_createdAt := px_now px (wd_step w)\<rparr>], wd_nextHeld := wd_nextHeld w + 1\<rparr>))"

definition Hold where "Hold px h w = HoldEvent px h w"

definition held_of :: "project_ref \<Rightarrow> string \<Rightarrow> spool_record \<Rightarrow> held_record" where
  "held_of proj kind rec = \<lparr>hr_id = 0, hr_projectID = pj_id proj, hr_slug = sr_projectSlug rec,
     hr_kind = kind, hr_ingestID = sr_ingestID rec, hr_receivedAt = sr_receivedAt rec,
     hr_contentType = sr_contentType rec, hr_body = sr_body rec, hr_createdAt = zero_time\<rparr>"

text \<open>Symbolise, persist, publish: the part after the project is known.  \<open>shown\<close> is the
  project id published with the event, 0 when none was resolved.\<close>

definition persist_tail :: "proc_env \<Rightarrow> processed \<Rightarrow> int \<Rightarrow> int \<Rightarrow> world \<Rightarrow> presult \<times> world" where
  "persist_tail px p pid shown w =
     (let n = wd_step w; p' = p\<lparr>pe_Event := px_symbolicate px (pe_Event p)\<rparr> in
      case PersistProcessedEvent (px_persist px) (px_now px n) (px_faults px n) pid p' (wd_store w) of
        (Inl e, st) \<Rightarrow>
          (\<lparr>pr_outcome = (if processorTransient (Some e) then OutcomeTransient else OutcomePersistError),
            pr_err = Some (Internal (error_text e)), pr_projectID = 0\<rparr>, w\<lparr>wd_store := st\<rparr>)
      | (Inr (iss, row, isNew, regressed), st) \<Rightarrow>
          (\<lparr>pr_outcome = OutcomeSuccess, pr_err = None, pr_projectID = shown\<rparr>,
           w\<lparr>wd_store := st, wd_published := wd_published w @ PublishIssueEvent iss shown isNew regressed\<rparr>))"

text \<open>One attempt; the attempt number moves on at its end.\<close>

definition next_attempt :: "'r \<times> world \<Rightarrow> 'r \<times> world" where
  "next_attempt rw = (fst rw, (snd rw)\<lparr>wd_step := Suc (wd_step (snd rw))\<rparr>)"

definition PersistRecord :: "proc_env \<Rightarrow> spool_record \<Rightarrow> world \<Rightarrow> presult \<times> world" where
  "PersistRecord px rec w = next_attempt
     (case ProcessRecord px rec of
        None \<Rightarrow> (\<lparr>pr_outcome = OutcomeParseError, pr_err = None, pr_projectID = 0\<rparr>, w)
      | Some p \<Rightarrow>
          (case EnsureProjectForIngest px (sr_projectSlug rec) w of
             Some pj \<Rightarrow>
               (if pj_status pj = ''pending'' then
                  (case Hold px (held_of pj ''event'' rec) w of
                     (Some e, w') \<Rightarrow> (\<lparr>pr_outcome = OutcomeTransient, pr_err = Some e, pr_projectID = 0\<rparr>, w')
                   | (None, w') \<Rightarrow> (\<lparr>pr_outcome = OutcomeHeld, pr_err = None, pr_projectID = pj_id pj\<rparr>, w'))
                else persist_tail px p (pj_id pj) (pj_id pj) w)
           | None \<Rightarrow> persist_tail px p (px_default px) 0 w))"

section \<open>Replaying held records\<close>

definition replayBatchSize :: nat where "replayBatchSize = 500"

fun insert_by_id :: "held_record \<Rightarrow> held_record list \<Rightarrow> held_record list" where
  "insert_by_id h [] = [h]"
| "insert_by_id h (g # gs) = (if hr_id h < hr_id g then h # g # gs else g # insert_by_id h gs)"

text \<open>\<open>ORDER BY id ASC LIMIT ?\<close>; a non-positive limit means 500.\<close>

definition ListHeldByProject :: "int \<Rightarrow> int \<Rightarrow> held_record list \<Rightarrow> held_record list" where
  "ListHeldByProject pid limit rows =
     take (nat (if limit \<le> 0 then 500 else limit))
       (foldr insert_by_id (filter (\<lambda>h. hr_projectID h = pid) rows) [])"

definition DeleteHeldEvent :: "int \<Rightarrow> held_record list \<Rightarrow> held_record list" where
  "DeleteHeldEvent i rows = filter (\<lambda>h. hr_id h \<noteq> i) rows"

definition CountHeldByProject :: "int \<Rightarrow> held_record list \<Rightarrow> nat" where
  "CountHeldByProject pid rows = length (filter (\<lambda>h. hr_projectID h = pid) rows)"

text \<open>An error with an unknown text stands for the record's own error.\<close>

definition replayOne :: "proc_env \<Rightarrow> bool \<Rightarrow> held_record \<Rightarrow> world \<Rightarrow> app_error option \<times> world" where
  "replayOne px haveLogs h w =
     (if hr_kind h = ''event'' then
        (case PersistRecord px \<lparr>sr_ingestID = hr_ingestID h, sr_receivedAt = hr_receivedAt h,
              sr_kind = [], sr_contentType = hr_contentType h, sr_remoteAddr = [],
              sr_contentLength = 0, sr_body = hr_body h, sr_projectSlug = hr_slug h,
              sr_projectID = 0, sr_internal = False\<rparr> w of
           (res, w') \<Rightarrow>
             (if pr_outcome res \<in> {OutcomeSuccess, OutcomeHeld, OutcomeParseError} then (None, w')
              else (pr_err res, w')))
      else if hr_kind h = ''log'' then
        (if \<not> haveLogs then (None, w)
         else case b64_decode (hr_body h) of
           None \<Rightarrow> (None, w)
         | Some body \<Rightarrow>
             (let entries = px_parseLogs px body (hr_contentType h) (hr_projectID h)
              in if entries = [] then (None, w)
                 else next_attempt
                   (case px_logErr px (wd_step w) of
                      Some e \<Rightarrow> (Some (Internal (error_text e)), w)
                    | None \<Rightarrow> (None, w\<lparr>wd_logs := wd_logs w @ entries\<rparr>))))
      else (None, w))"

text \<open>The inner loop over one listed batch; the count of replayed records is threaded through.\<close>

fun replay_batch ::
  "proc_env \<Rightarrow> bool \<Rightarrow> held_record list \<Rightarrow> int \<Rightarrow> world \<Rightarrow> (int \<times> app_error option) \<times> world" where
  "replay_batch px haveLogs [] cnt w = ((cnt, None), w)"
| "replay_batch px haveLogs (h # hs) cnt w =
     (case replayOne px haveLogs h w of
        (Some e, w') \<Rightarrow> ((cnt, Some e), w')
      | (None, w') \<Rightarrow>
          (case px_deleteErr px (wd_step w') of
             Some e \<Rightarrow> ((cnt, Some (Internal (error_text e))), w')
           | None \<Rightarrow> replay_batch px haveLogs hs (cnt + 1)
                        (w'\<lparr>wd_held := DeleteHeldEvent (hr_id h) (wd_held w')\<rparr>)))"

partial_function (option) ReplayHeld ::
  "proc_env \<Rightarrow> bool \<Rightarrow> int \<Rightarrow> int \<Rightarrow> world \<Rightarrow> ((int \<times> app_error option) \<times> world) option" where
  "ReplayHeld px haveLogs pid cnt w =
     (case px_listErr px (wd_step w) of
        Some e \<Rightarrow> Some ((cnt, Some (Internal (error_text e))), w)
      | None \<Rightarrow>
          (let recs = ListHeldByProject pid (int replayBatchSize) (wd_held w)
           in if recs = [] then Some ((cnt, None), w)
              else case replay_batch px haveLogs recs cnt w of
                ((cnt', Some e), w') \<Rightarrow> Some ((cnt', Some e), w')
              | ((cnt', None), w') \<Rightarrow> ReplayHeld px haveLogs pid cnt' w'))"

subsection \<open>The drain\<close>

text \<open>No slug resolves to a pending project: what approval establishes.\<close>

definition approved :: "proc_env \<Rightarrow> bool" where
  "approved px \<longleftrightarrow> (\<forall>n slug pj. px_ensure px n slug = Some pj \<longrightarrow> pj_status pj \<noteq> ''pending'')"

lemma persist_tail_held [simp]: "wd_held (snd (persist_tail px p pid shown w)) = wd_held w"
  by (simp add: persist_tail_def Let_def split: prod.splits sum.splits)

lemma next_attempt_held [simp]: "wd_held (snd (next_attempt rw)) = wd_held (snd rw)"
  by (simp add: next_attempt_def)

lemma PersistRecord_held: "approved px \<Longrightarrow> wd_held (snd (PersistRecord px rec w)) = wd_held w"
  by (auto simp: PersistRecord_def approved_def EnsureProjectForIngest_def split: option.splits)

lemma replayOne_held: "approved px \<Longrightarrow> wd_held (snd (replayOne px hl h w)) = wd_held w"
  using PersistRecord_held
  by (auto simp: replayOne_def Let_def split: option.splits prod.splits) (metis snd_conv)+

lemma set_insert_by_id [simp]: "set (insert_by_id h hs) = insert h (set hs)"
  by (induction hs) auto

lemma length_insert_by_id [simp]: "length (insert_by_id h hs) = Suc (length hs)"
  by (induction hs) auto

lemma mset_insert_by_id [simp]: "mset (insert_by_id h hs) = add_mset h (mset hs)"
  by (induction hs) auto

lemma mset_sorted_held: "mset (foldr insert_by_id hs []) = mset hs"
  by (induction hs) auto

lemma listed_held:
  assumes "distinct (map hr_id rows)"
  shows "set (ListHeldByProject pid (int replayBatchSize) rows) \<subseteq> {h \<in> set rows. hr_projectID h = pid}"
    and "distinct (map hr_id (ListHeldByProject pid (int replayBatchSize) rows))"
    and "ListHeldByProject pid (int replayBatchSize) rows = [] \<longleftrightarrow> CountHeldByProject pid rows = 0"
proof -
  let ?f = "filter (\<lambda>h. hr_projectID h = pid) rows"
  let ?s = "foldr insert_by_id ?f []"
  have s: "mset ?s = mset ?f" by (rule mset_sorted_held)
  have l: "ListHeldByProject pid (int replayBatchSize) rows = take 500 ?s"
    by (simp add: ListHeldByProject_def replayBatchSize_def)
  have "set ?s = set ?f" using mset_eq_setD [OF s] .
  then show "set (ListHeldByProject pid (int replayBatchSize) rows) \<subseteq> {h \<in> set rows. hr_projectID h = pid}"
    using set_take_subset [of 500 ?s] unfolding l by auto
  have "mset (map hr_id ?s) = mset (map hr_id ?f)" using s by simp
  then have "distinct (map hr_id ?s)"
    using distinct_map_filter_id [OF assms] mset_eq_imp_distinct_iff by blast
  then show "distinct (map hr_id (ListHeldByProject pid (int replayBatchSize) rows))"
    unfolding l by (simp add: take_map [symmetric])
  have "length ?s = length ?f" using s mset_eq_length by blast
  then show "ListHeldByProject pid (int replayBatchSize) rows = [] \<longleftrightarrow> CountHeldByProject pid rows = 0"
    unfolding l CountHeldByProject_def by (metis length_0_conv take_eq_Nil zero_neq_numeral)
qed

lemma replay_batch_held:
  assumes "approved px" "replay_batch px hl hs c w = ((c', e), w')"
  shows "\<exists>k \<le> length hs. c' = c + int k \<and> (e = None \<longrightarrow> k = length hs)
    \<and> wd_held w' = filter (\<lambda>h. hr_id h \<notin> hr_id ` set (take k hs)) (wd_held w)"
  using assms(2)
proof (induction hs arbitrary: c w)
  case Nil
  then show ?case by (auto simp: filter_all_id)
next
  case (Cons h hs)
  obtain r w1 where one: "replayOne px hl h w = (r, w1)" by (metis surj_pair)
  have h1: "wd_held w1 = wd_held w" using replayOne_held [OF assms(1), of hl h w] one by simp
  show ?case
  proof (cases "r = None \<and> px_deleteErr px (wd_step w1) = None")
    case True
    let ?w = "w1\<lparr>wd_held := DeleteHeldEvent (hr_id h) (wd_held w1)\<rparr>"
    have "replay_batch px hl hs (c + 1) ?w = ((c', e), w')" using Cons.prems one True by simp
    from Cons.IH [OF this] obtain k where k: "k \<le> length hs" "c' = c + 1 + int k"
      "e = None \<longrightarrow> k = length hs"
      "wd_held w' = filter (\<lambda>g. hr_id g \<notin> hr_id ` set (take k hs)) (DeleteHeldEvent (hr_id h) (wd_held w))"
      by (auto simp: h1)
    have "wd_held w' = filter (\<lambda>g. hr_id g \<notin> hr_id ` set (take (Suc k) (h # hs))) (wd_held w)"
      unfolding k(4) DeleteHeldEvent_def filter_filter by (rule filter_cong) auto
    then show ?thesis using k by (intro exI [of _ "Suc k"]) auto
  next
    case False
    then have "c' = c \<and> e \<noteq> None \<and> w' = w1"
      using Cons.prems one by (auto split: option.splits)
    then show ?thesis using h1 by (intro exI [of _ 0]) (auto simp: filter_all_id)
  qed
qed

lemma count_held_remove:
  assumes "distinct (map hr_id rows)" "distinct (map hr_id hs)"
    and "set hs \<subseteq> {h \<in> set rows. hr_projectID h = pid}"
  shows "CountHeldByProject pid (filter (\<lambda>h. hr_id h \<notin> hr_id ` set hs) rows) + length hs
    = CountHeldByProject pid rows"
proof -
  have inj: "inj_on hr_id (set rows)" using assms(1) by (simp add: distinct_map)
  have "hr_id h \<in> hr_id ` set hs \<longleftrightarrow> h \<in> set hs" if "h \<in> set rows" for h
    using assms(3) inj_onD [OF inj] that by auto
  then have f: "filter (\<lambda>h. hr_id h \<notin> hr_id ` set hs) rows = filter (\<lambda>h. h \<notin> set hs) rows"
    by (intro filter_cong) auto
  let ?p = "filter (\<lambda>h. hr_projectID h = pid) rows"
  have d: "distinct ?p" "distinct hs" using assms(1,2) by (auto simp: distinct_map)
  have dr: "distinct rows" using assms(1) by (simp add: distinct_map)
  have "{h. h \<notin> set hs \<and> hr_projectID h = pid} \<inter> set rows = set ?p - set hs" by auto
  then have "CountHeldByProject pid (filter (\<lambda>h. h \<notin> set hs) rows) = card (set ?p - set hs)"
    using distinct_length_filter [OF dr, of "\<lambda>h. h \<notin> set hs \<and> hr_projectID h = pid"]
    by (simp add: CountHeldByProject_def)
  moreover have "length hs = card (set hs)" using d(2) by (simp add: distinct_card)
  moreover have "card (set ?p - set hs) = card (set ?p) - card (set hs)"
    using assms(3) by (intro card_Diff_subset) auto
  moreover have "card (set hs) \<le> card (set ?p)" using assms(3) by (intro card_mono) auto
  moreover have "CountHeldByProject pid rows = card (set ?p)"
    using distinct_card [OF d(1)] unfolding CountHeldByProject_def by simp
  ultimately show ?thesis unfolding f by simp
qed

lemma ReplayHeld_returns:
  assumes "approved px"
  shows "distinct (map hr_id (wd_held w)) \<Longrightarrow> \<exists>c e w'. ReplayHeld px hl pid t w = Some ((c, e), w')
    \<and> c + int (CountHeldByProject pid (wd_held w')) = t + int (CountHeldByProject pid (wd_held w))
    \<and> (e = None \<longrightarrow> CountHeldByProject pid (wd_held w') = 0)
    \<and> (\<forall>h\<in>set (wd_held w). hr_projectID h \<noteq> pid \<longrightarrow> h \<in> set (wd_held w'))"
proof (induction "CountHeldByProject pid (wd_held w)" arbitrary: t w rule: less_induct)
  case less
  let ?recs = "ListHeldByProject pid (int replayBatchSize) (wd_held w)"
  note rl = ReplayHeld.simps [of px hl pid t w]
  show ?case
  proof (cases "px_listErr px (wd_step w)")
    case (Some e)
    then show ?thesis by (subst rl) auto
  next
    case nolist: None
    show ?thesis
    proof (cases "?recs = []")
      case True
      then have "CountHeldByProject pid (wd_held w) = 0" using listed_held(3) [OF less.prems] by blast
      then show ?thesis using True nolist by (subst rl) auto
    next
      case False
      obtain r1 w1 where b0: "replay_batch px hl ?recs t w = (r1, w1)" by fastforce
      obtain c1 e1 where b: "replay_batch px hl ?recs t w = ((c1, e1), w1)" using b0 by (cases r1) simp
      obtain k where k: "k \<le> length ?recs" "c1 = t + int k" "e1 = None \<longrightarrow> k = length ?recs"
        "wd_held w1 = filter (\<lambda>h. hr_id h \<notin> hr_id ` set (take k ?recs)) (wd_held w)"
        using replay_batch_held [OF assms b] by blast
      have sub: "set (take k ?recs) \<subseteq> {h \<in> set (wd_held w). hr_projectID h = pid}"
        by (rule subset_trans [OF set_take_subset listed_held(1) [OF less.prems]])
      have dt: "distinct (map hr_id (take k ?recs))"
        using distinct_take [OF listed_held(2) [OF less.prems]] by (simp add: take_map)
      have "length (take k ?recs) = k" using k(1) by simp
      then have cnt: "CountHeldByProject pid (wd_held w1) + k = CountHeldByProject pid (wd_held w)"
        using count_held_remove [OF less.prems dt sub] unfolding k(4) by (simp only:)
      have inj: "inj_on hr_id (set (wd_held w))" using less.prems by (simp add: distinct_map)
      have keep: "h \<in> set (wd_held w1)" if "h \<in> set (wd_held w)" "hr_projectID h \<noteq> pid" for h
      proof -
        have "hr_id h \<noteq> hr_id g" if g: "g \<in> set (take k ?recs)" for g
        proof
          assume "hr_id h = hr_id g"
          then have "h = g" using inj_onD [OF inj] \<open>h \<in> set (wd_held w)\<close> sub g by blast
          then show False using sub g \<open>hr_projectID h \<noteq> pid\<close> by blast
        qed
        then show "h \<in> set (wd_held w1)" using that(1) unfolding k(4) by auto
      qed
      show ?thesis
      proof (cases e1)
        case (Some e)
        then have "ReplayHeld px hl pid t w = Some ((c1, e1), w1)"
          using False nolist b by (subst rl) simp
        then show ?thesis using cnt k(2) keep Some by auto
      next
        case None
        have "k \<noteq> 0" using k(3) None False by simp
        then have "CountHeldByProject pid (wd_held w1) < CountHeldByProject pid (wd_held w)"
          using cnt by simp
        moreover have "distinct (map hr_id (wd_held w1))"
          unfolding k(4) by (rule distinct_map_filter_id) (rule less.prems)
        ultimately obtain c e w' where r: "ReplayHeld px hl pid c1 w1 = Some ((c, e), w')"
          "c + int (CountHeldByProject pid (wd_held w')) = c1 + int (CountHeldByProject pid (wd_held w1))"
          "e = None \<longrightarrow> CountHeldByProject pid (wd_held w') = 0"
          "\<forall>h\<in>set (wd_held w1). hr_projectID h \<noteq> pid \<longrightarrow> h \<in> set (wd_held w')"
          using less.hyps [of w1 c1] by blast
        have "ReplayHeld px hl pid t w = Some ((c, e), w')"
          using False nolist b None r(1) by (subst rl) simp
        then show ?thesis using r(2-4) cnt k(2) keep by auto
      qed
    qed
  qed
qed

text \<open>C33: Draining an approved project's held records returns whatever fails on the way: the
  count it reports plus the records still held is the backlog it started from, a drain
  without error leaves none, and records of other projects stay.\<close>

theorem drain_accounts_for_backlog:
  assumes "approved px" "distinct (map hr_id (wd_held w))"
  shows "\<exists>c e w'. ReplayHeld px hl pid 0 w = Some ((c, e), w')
    \<and> c + int (CountHeldByProject pid (wd_held w')) = int (CountHeldByProject pid (wd_held w))
    \<and> (e = None \<longrightarrow> CountHeldByProject pid (wd_held w') = 0)
    \<and> (\<forall>h\<in>set (wd_held w). hr_projectID h \<noteq> pid \<longrightarrow> h \<in> set (wd_held w'))"
  using ReplayHeld_returns [OF assms, of hl pid 0] by simp

definition demo_px :: "project_ref option \<Rightarrow> proc_env" where
  "demo_px pj = \<lparr>px_normalise = (\<lambda>body i t internal. Some (blank_event\<lparr>Message := body, ReceivedAt := t\<rparr>)),
     px_fingerprint = (\<lambda>e. ''fp''), px_material = (\<lambda>e. []), px_explanation = (\<lambda>e. []),
     px_symbolicate = (\<lambda>e. e), px_parseLogs = (\<lambda>b c p. [b]), px_persist = demo_env,
     px_default = 7, px_now = int, px_ensure = (\<lambda>n s. pj), px_faults = (\<lambda>n. no_faults),
     px_holdErr = (\<lambda>n. None), px_logErr = (\<lambda>n. None), px_telemetryOk = (\<lambda>n. True),
     px_deleteErr = (\<lambda>n. None), px_listErr = (\<lambda>n. None)\<rparr>"

definition demo_held :: "int \<Rightarrow> held_record" where
  "demo_held i = \<lparr>hr_id = i, hr_projectID = 7, hr_slug = ''shop'', hr_kind = ''event'',
     hr_ingestID = ''a'', hr_receivedAt = 1, hr_contentType = [], hr_body = [], hr_createdAt = 1\<rparr>"

definition demo_world :: world where
  "demo_world = \<lparr>wd_store = demo_store, wd_held = [demo_held 1, demo_held 2], wd_nextHeld = 3,
     wd_published = [], wd_logs = [], wd_telemetry = [], wd_step = 0\<rparr>"

theorem drain_accounts_for_backlog_witness:
  "\<exists>c e w'. ReplayHeld (demo_px (Some \<lparr>pj_id = 7, pj_status = ''active''\<rparr>)) True 7 0 demo_world = Some ((c, e), w')
     \<and> c + int (CountHeldByProject 7 (wd_held w')) = 2"
proof -
  have "approved (demo_px (Some \<lparr>pj_id = 7, pj_status = ''active''\<rparr>))"
    by (simp add: approved_def demo_px_def)
  moreover have "distinct (map hr_id (wd_held demo_world))"
    by (simp add: demo_world_def demo_held_def)
  ultimately show ?thesis
    using drain_accounts_for_backlog [of "demo_px (Some \<lparr>pj_id = 7, pj_status = ''active''\<rparr>)" demo_world True 7]
    by (auto simp: demo_world_def demo_held_def CountHeldByProject_def)
qed

text \<open>C18: Parking an event for a pending project writes nothing but the held row, and replaying
  that row once the project is approved persists exactly what a live ingest of the original
  record with its mark for internal records cleared would have persisted: for a record that is not internal,
  exactly what a live ingest of the record itself would have.  (The held row does not keep the mark, so a record of
  the service's own detections and monitors is replayed as if a client had sent it.)\<close>

theorem hold_then_replay_is_live_ingest:
  assumes "px_ensure px (wd_step w) (sr_projectSlug rec) = Some pj" "pj_status pj = ''pending''"
    and "sr_projectSlug rec \<noteq> []" "ProcessRecord px rec \<noteq> None" "px_holdErr px (wd_step w) = None"
  shows "\<exists>h. PersistRecord px rec w = (\<lparr>pr_outcome = OutcomeHeld, pr_err = None, pr_projectID = pj_id pj\<rparr>,
        w\<lparr>wd_held := wd_held w @ [h], wd_nextHeld := wd_nextHeld w + 1, wd_step := Suc (wd_step w)\<rparr>)
      \<and> hr_id h = wd_nextHeld w \<and> hr_projectID h = pj_id pj
      \<and> (\<forall>px' w'. snd (replayOne px' hl h w') = snd (PersistRecord px' (rec\<lparr>sr_internal := False\<rparr>) w'))
      \<and> (\<not> sr_internal rec \<longrightarrow> (\<forall>px' w'. snd (replayOne px' hl h w') = snd (PersistRecord px' rec w')))"
proof -
  let ?h = "(held_of pj ''event'' rec)\<lparr>hr_id := wd_nextHeld w, hr_createdAt := px_now px (wd_step w)\<rparr>"
  let ?rec = "\<lparr>sr_ingestID = sr_ingestID rec, sr_receivedAt = sr_receivedAt rec, sr_kind = [],
      sr_contentType = sr_contentType rec, sr_remoteAddr = [], sr_contentLength = 0,
      sr_body = sr_body rec, sr_projectSlug = sr_projectSlug rec, sr_projectID = 0, sr_internal = False\<rparr>"
  have one: "PersistRecord px rec w = (\<lparr>pr_outcome = OutcomeHeld, pr_err = None, pr_projectID = pj_id pj\<rparr>,
        w\<lparr>wd_held := wd_held w @ [?h], wd_nextHeld := wd_nextHeld w + 1, wd_step := Suc (wd_step w)\<rparr>)"
    using assms(1-5)
    by (auto simp: PersistRecord_def EnsureProjectForIngest_def Hold_def HoldEvent_def next_attempt_def)
  let ?ext = "rec\<lparr>sr_internal := False\<rparr>"
  have same: "PersistRecord px' ?rec w' = PersistRecord px' ?ext w'" for px' w'
  proof -
    have "ProcessRecord px' ?rec = ProcessRecord px' ?ext"
      unfolding ProcessRecord_def by (simp cong: option.case_cong)
    moreover have "held_of pj k ?rec = held_of pj k ?ext" for pj k by (simp add: held_of_def)
    ultimately show "PersistRecord px' ?rec w' = PersistRecord px' ?ext w'"
      unfolding PersistRecord_def by (simp cong: option.case_cong if_cong)
  qed
  have r: "snd (replayOne px' hl ?h w') = snd (PersistRecord px' ?ext w')" for px' w'
    using same [of px' w'] by (simp add: replayOne_def held_of_def split: prod.splits)
  have ext: "?ext = rec" if "\<not> sr_internal rec" using that by (cases rec) simp
  have r2: "\<not> sr_internal rec \<longrightarrow> (\<forall>px' w'. snd (replayOne px' hl ?h w') = snd (PersistRecord px' rec w'))"
  proof (intro impI allI)
    fix px' w' assume "\<not> sr_internal rec"
    then show "snd (replayOne px' hl ?h w') = snd (PersistRecord px' rec w')" using r [of px' w'] ext by argo
  qed
  show ?thesis
    by (intro exI [of _ ?h] conjI) (rule one, simp add: held_of_def, simp add: held_of_def, intro allI, rule r, rule r2)
qed

definition demo_record :: spool_record where
  "demo_record = \<lparr>sr_ingestID = ''a'', sr_receivedAt = 1, sr_kind = [], sr_contentType = [],
     sr_remoteAddr = [], sr_contentLength = 0, sr_body = [], sr_projectSlug = ''shop'',
     sr_projectID = 0, sr_internal = False\<rparr>"

theorem hold_then_replay_is_live_ingest_witness:
  "\<exists>h. wd_held (snd (PersistRecord (demo_px (Some \<lparr>pj_id = 7, pj_status = ''pending''\<rparr>)) demo_record demo_world))
       = wd_held demo_world @ [h]
     \<and> snd (replayOne (demo_px None) True h demo_world) = snd (PersistRecord (demo_px None) demo_record demo_world)"
proof -
  let ?px = "demo_px (Some \<lparr>pj_id = 7, pj_status = ''pending''\<rparr>)"
  have "ProcessRecord ?px demo_record \<noteq> None"
    by (simp add: ProcessRecord_def demo_px_def demo_record_def b64_decode_def Let_def)
  then obtain h where "PersistRecord ?px demo_record demo_world = (\<lparr>pr_outcome = OutcomeHeld, pr_err = None, pr_projectID = 7\<rparr>,
        demo_world\<lparr>wd_held := wd_held demo_world @ [h], wd_nextHeld := wd_nextHeld demo_world + 1,
          wd_step := Suc (wd_step demo_world)\<rparr>)"
      "\<forall>px' w'. snd (replayOne px' True h w') = snd (PersistRecord px' demo_record w')"
    using hold_then_replay_is_live_ingest [of ?px demo_world demo_record "\<lparr>pj_id = 7, pj_status = ''pending''\<rparr>" True]
    by (auto simp: demo_px_def demo_record_def)
  then show ?thesis by (intro exI [of _ h]) (simp add: demo_px_def)
qed

text \<open>A held event whose persist fails for good (anything but a lock or a deadline) blocks the
  drain of its project for ever: as long as the failure lasts every drain stops at it with an
  error, deletes nothing, and reports no progress.\<close>

theorem poison_blocks_drain:
  assumes "approved px" "ListHeldByProject pid (int replayBatchSize) (wd_held w) = h # hs"
    and "hr_kind h = ''event''" "px_listErr px (wd_step w) = None"
    and "pr_outcome (fst (PersistRecord px \<lparr>sr_ingestID = hr_ingestID h, sr_receivedAt = hr_receivedAt h,
          sr_kind = [], sr_contentType = hr_contentType h, sr_remoteAddr = [], sr_contentLength = 0,
          sr_body = hr_body h, sr_projectSlug = hr_slug h, sr_projectID = 0, sr_internal = False\<rparr> w))
        = OutcomePersistError"
  shows "\<exists>e w'. ReplayHeld px hl pid 0 w = Some ((0, Some e), w') \<and> wd_held w' = wd_held w"
proof -
  let ?rec = "\<lparr>sr_ingestID = hr_ingestID h, sr_receivedAt = hr_receivedAt h,
          sr_kind = [], sr_contentType = hr_contentType h, sr_remoteAddr = [], sr_contentLength = 0,
          sr_body = hr_body h, sr_projectSlug = hr_slug h, sr_projectID = 0, sr_internal = False\<rparr>"
  obtain res w1 where p: "PersistRecord px ?rec w = (res, w1)" by (metis surj_pair)
  have "pr_outcome res = OutcomePersistError" using assms(5) p by simp
  moreover from this have "\<exists>e. pr_err res = Some e"
    using p by (auto simp: PersistRecord_def persist_tail_def next_attempt_def Let_def
        split: option.splits prod.splits sum.splits if_splits)
  ultimately obtain e where "replayOne px hl h w = (Some e, w1)"
    using p assms(3) by (auto simp: replayOne_def)
  moreover have "wd_held w1 = wd_held w" using PersistRecord_held [OF assms(1), of ?rec w] p by simp
  ultimately show ?thesis using assms(2,4) by (subst ReplayHeld.simps) simp
qed

definition readonly_px :: proc_env where
  "readonly_px = (demo_px None)\<lparr>px_faults := (\<lambda>n. no_faults\<lparr>pf_upsert := Some (Plain ''disk image is malformed'')\<rparr>)\<rparr>"

theorem poison_blocks_drain_witness:
  "\<exists>e w'. ReplayHeld readonly_px True 7 0 demo_world = Some ((0, Some e), w') \<and> wd_held w' = wd_held demo_world"
proof (rule poison_blocks_drain)
  show "approved readonly_px" by (simp add: approved_def readonly_px_def demo_px_def)
  show "ListHeldByProject 7 (int replayBatchSize) (wd_held demo_world) = demo_held 1 # [demo_held 2]"
    by (simp add: ListHeldByProject_def replayBatchSize_def demo_world_def demo_held_def)
  show "hr_kind (demo_held 1) = ''event''" by (simp add: demo_held_def)
  show "px_listErr readonly_px (wd_step demo_world) = None" by (simp add: readonly_px_def demo_px_def)
  show "pr_outcome (fst (PersistRecord readonly_px \<lparr>sr_ingestID = hr_ingestID (demo_held 1),
          sr_receivedAt = hr_receivedAt (demo_held 1), sr_kind = [], sr_contentType = hr_contentType (demo_held 1),
          sr_remoteAddr = [], sr_contentLength = 0, sr_body = hr_body (demo_held 1),
          sr_projectSlug = hr_slug (demo_held 1), sr_projectID = 0, sr_internal = False\<rparr> demo_world))
        = OutcomePersistError"
    by (simp add: PersistRecord_def ProcessRecord_def readonly_px_def demo_px_def demo_held_def
        b64_decode_def EnsureProjectForIngest_def persist_tail_def next_attempt_def
        PersistProcessedEvent_def upsertIssue_def processorTransient_def IsDatabaseLocked_def
        has_prefix_def no_faults_def Let_def)
qed

end
