(* ===== verification/Consumer.thy ===== *)
theory Consumer
  imports Processor
begin

text \<open>
  The writer's queue consumer: \<open>internal/ingestproc/consumer.go\<close> and
  \<open>consumer_telemetry.go\<close>.  It is written over the operations of a write queue
  (\<open>WriteQueue.queue_ops\<close>), and its no-loss property is proved from that interface
  and then read off for the Redis queue.

  Cancellation of the context is a count of the polls that still succeed: \<open>None\<close> is never
  cancelled, \<open>Some 0\<close> is cancelled.  A select between the context and a back-off timer
  counts as a poll.
\<close>

record consumer =
  cs_world :: world
  cs_ctx :: "nat option"
  cs_outcomes :: "(item \<times> string) list"

record consumer_cfg =
  cc_px :: proc_env
  cc_hasLogs :: bool
  cc_hasTelemetry :: bool

definition ctx_err :: "consumer \<Rightarrow> bool \<times> consumer" where
  "ctx_err c = (case cs_ctx c of
     None \<Rightarrow> (False, c)
   | Some 0 \<Rightarrow> (True, c)
   | Some (Suc n) \<Rightarrow> (False, c\<lparr>cs_ctx := Some n\<rparr>))"

text \<open>A check of the context followed by a back-off that the context can interrupt.\<close>

definition check_and_wait :: "consumer \<Rightarrow> bool \<times> consumer" where
  "check_and_wait c = (case ctx_err c of (True, c1) \<Rightarrow> (True, c1) | (False, c1) \<Rightarrow> ctx_err c1)"

definition cancelled :: "consumer \<Rightarrow> bool" where "cancelled c \<longleftrightarrow> cs_ctx c = Some 0"

definition on_world :: "('r \<times> world) \<Rightarrow> consumer \<Rightarrow> 'r \<times> consumer" where
  "on_world rw c = (fst rw, c\<lparr>cs_world := snd rw\<rparr>)"

definition consumerMaxRetries :: nat where "consumerMaxRetries = 5"

section \<open>Events\<close>

definition event_record :: "item \<Rightarrow> string \<Rightarrow> spool_record" where
  "event_record it body = \<lparr>sr_ingestID = it_ingestID it, sr_receivedAt = it_receivedAt it,
     sr_kind = [], sr_contentType = it_contentType it, sr_remoteAddr = [],
     sr_contentLength = int (length body), sr_body = it_body it,
     sr_projectSlug = it_projectSlug it, sr_projectID = 0, sr_internal = False\<rparr>"

text \<open>The first argument counts the attempts left.\<close>

fun persist_event_loop :: "nat \<Rightarrow> proc_env \<Rightarrow> spool_record \<Rightarrow> consumer \<Rightarrow> string \<times> consumer" where
  "persist_event_loop 0 px rec c = (''retry_exhausted'', c)"
| "persist_event_loop (Suc n) px rec c =
     (case on_world (PersistRecord px rec (cs_world c)) c of
        (res, c1) \<Rightarrow>
          (case pr_outcome res of
             OutcomeSuccess \<Rightarrow> (''success'', c1)
           | OutcomeHeld \<Rightarrow> (''held'', c1)
           | OutcomeParseError \<Rightarrow> (''parse_error'', c1)
           | OutcomePersistError \<Rightarrow> (''persist_error'', snd (ctx_err c1))
           | OutcomeTransient \<Rightarrow>
               (case check_and_wait c1 of
                  (True, c2) \<Rightarrow> (''transient_drop'', c2)
                | (False, c2) \<Rightarrow> persist_event_loop n px rec c2)))"

definition persistEvent :: "proc_env \<Rightarrow> item \<Rightarrow> consumer \<Rightarrow> string \<times> consumer" where
  "persistEvent px it c = (case b64_decode (it_body it) of
     None \<Rightarrow> (''decode_error'', c)
   | Some body \<Rightarrow> persist_event_loop consumerMaxRetries px (event_record it body) c)"

section \<open>Logs\<close>

definition ensure_attempt :: "proc_env \<Rightarrow> string \<Rightarrow> world \<Rightarrow> project_ref option \<times> world" where
  "ensure_attempt px slug w = next_attempt (EnsureProjectForIngest px slug w, w)"

text \<open>The retry loop of \<open>resolveProject\<close>: no pause after the last attempt.\<close>

fun resolve_loop :: "nat \<Rightarrow> proc_env \<Rightarrow> string \<Rightarrow> consumer \<Rightarrow> (string + project_ref) \<times> consumer" where
  "resolve_loop 0 px slug c = (Inl ''resolve_error'', c)"
| "resolve_loop (Suc n) px slug c =
     (case on_world (ensure_attempt px slug (cs_world c)) c of
        (Some pj, c1) \<Rightarrow> (Inr pj, c1)
      | (None, c1) \<Rightarrow>
          (case ctx_err c1 of
             (True, c2) \<Rightarrow> (Inl ''transient_drop'', c2)
           | (False, c2) \<Rightarrow>
               (if n = 0 then (Inl ''resolve_error'', c2)
                else case ctx_err c2 of
                  (True, c3) \<Rightarrow> (Inl ''transient_drop'', c3)
                | (False, c3) \<Rightarrow> resolve_loop n px slug c3)))"

definition resolveProject :: "proc_env \<Rightarrow> item \<Rightarrow> consumer \<Rightarrow> (string + project_ref) \<times> consumer" where
  "resolveProject px it c =
     (if it_projectSlug it = [] then (Inl ''dropped'', c)
      else resolve_loop consumerMaxRetries px (it_projectSlug it) c)"

definition insert_logs :: "proc_env \<Rightarrow> string list \<Rightarrow> world \<Rightarrow> db_error option \<times> world" where
  "insert_logs px entries w = next_attempt (case px_logErr px (wd_step w) of
     Some e \<Rightarrow> (Some e, w)
   | None \<Rightarrow> (None, w\<lparr>wd_logs := wd_logs w @ entries\<rparr>))"

fun insert_log_loop :: "nat \<Rightarrow> proc_env \<Rightarrow> string list \<Rightarrow> consumer \<Rightarrow> string \<times> consumer" where
  "insert_log_loop 0 px entries c = (''retry_exhausted'', c)"
| "insert_log_loop (Suc n) px entries c =
     (case on_world (insert_logs px entries (cs_world c)) c of
        (None, c1) \<Rightarrow> (''success'', c1)
      | (Some e, c1) \<Rightarrow>
          (if \<not> processorTransient (Some e) then (''insert_error'', c1)
           else case check_and_wait c1 of
             (True, c2) \<Rightarrow> (''transient_drop'', c2)
           | (False, c2) \<Rightarrow> insert_log_loop n px entries c2))"

definition held_log :: "project_ref \<Rightarrow> item \<Rightarrow> held_record" where
  "held_log pj it = \<lparr>hr_id = 0, hr_projectID = pj_id pj, hr_slug = it_projectSlug it,
     hr_kind = ''log'', hr_ingestID = it_ingestID it, hr_receivedAt = it_receivedAt it,
     hr_contentType = it_contentType it, hr_body = it_body it, hr_createdAt = zero_time\<rparr>"

definition persistLog :: "consumer_cfg \<Rightarrow> item \<Rightarrow> consumer \<Rightarrow> string \<times> consumer" where
  "persistLog cfg it c =
     (if \<not> cc_hasLogs cfg then (''dropped'', c)
      else case b64_decode (it_body it) of
        None \<Rightarrow> (''decode_error'', c)
      | Some body \<Rightarrow>
          (case resolveProject (cc_px cfg) it c of
             (Inl outc, c1) \<Rightarrow> (outc, c1)
           | (Inr pj, c1) \<Rightarrow>
               (if pj_status pj = ''pending'' then
                  (case on_world (next_attempt (Hold (cc_px cfg) (held_log pj it) (cs_world c1))) c1 of
                     (Some e, c2) \<Rightarrow> (''held_error'', c2)
                   | (None, c2) \<Rightarrow> (''held'', c2))
                else
                  (let entries = px_parseLogs (cc_px cfg) body (it_contentType it) (pj_id pj)
                   in if entries = [] then (''empty'', c1)
                      else insert_log_loop consumerMaxRetries (cc_px cfg) entries c1))))"

definition persistTelemetry :: "consumer_cfg \<Rightarrow> item \<Rightarrow> consumer \<Rightarrow> string \<times> consumer" where
  "persistTelemetry cfg it c =
     (if \<not> cc_hasTelemetry cfg then (''dropped'', c)
      else case b64_decode (it_body it) of
        None \<Rightarrow> (''decode_error'', c)
      | Some body \<Rightarrow>
          (let w = cs_world c in
           if px_telemetryOk (cc_px cfg) (wd_step w)
           then (''success'', c\<lparr>cs_world := w\<lparr>wd_telemetry := wd_telemetry w @ [(it_kind it, body)],
                                   wd_step := Suc (wd_step w)\<rparr>\<rparr>)
           else (''insert_error'', c\<lparr>cs_world := w\<lparr>wd_step := Suc (wd_step w)\<rparr>\<rparr>)))"

section \<open>One entry\<close>

definition handled :: "string \<Rightarrow> bool" where
  "handled outc \<longleftrightarrow> outc \<in> set [''success'', ''held'', ''parse_error'', ''decode_error'', ''dropped'',
     ''empty'', ''unknown_kind'']"

definition requeue :: "'s queue_ops \<Rightarrow> item list \<Rightarrow> 's \<Rightarrow> bool \<times> 's" where
  "requeue Q items s = (if items = [] then (True, s) else qo_publish Q items s)"

definition persist_item :: "consumer_cfg \<Rightarrow> item \<Rightarrow> consumer \<Rightarrow> string \<times> consumer" where
  "persist_item cfg it c =
     (if it_kind it = KindEvent then persistEvent (cc_px cfg) it c
      else if it_kind it = KindLog then persistLog cfg it c
      else if it_kind it = KindSecurity \<or> it_kind it = KindMetrics then persistTelemetry cfg it c
      else (''unknown_kind'', c))"

definition record_outcome :: "item \<Rightarrow> string \<Rightarrow> consumer \<Rightarrow> consumer" where
  "record_outcome it outc c = c\<lparr>cs_outcomes := cs_outcomes c @ [(it, outc)]\<rparr>"

fun processBatch ::
  "consumer_cfg \<Rightarrow> 's queue_ops \<Rightarrow> item list \<Rightarrow> consumer \<Rightarrow> 's \<Rightarrow> bool \<times> consumer \<times> 's" where
  "processBatch cfg Q [] c s = (True, c, s)"
| "processBatch cfg Q (it # items) c s =
     (case ctx_err c of
        (True, c0) \<Rightarrow> (case requeue Q (it # items) s of (b, s') \<Rightarrow> (b, c0, s'))
      | (False, c0) \<Rightarrow>
          (case persist_item cfg it c0 of
             (outc, c1) \<Rightarrow>
               (case ctx_err (record_outcome it outc c1) of
                  (True, c2) \<Rightarrow>
                    (if handled outc
                     then case requeue Q items s of (b, s') \<Rightarrow> (b, c2, s')
                     else case requeue Q (it # items) s of (b, s') \<Rightarrow> (b, c2, s'))
                | (False, c2) \<Rightarrow> processBatch cfg Q items c2 s)))"

text \<open>The state of \<open>Run\<close>: whether the processing list was replayed, the consumer and the queue.\<close>

type_synonym 's run_state = "bool \<times> consumer \<times> 's"

definition consumeOne :: "consumer_cfg \<Rightarrow> 's queue_ops \<Rightarrow> consumer \<Rightarrow> 's \<Rightarrow> 's run_state" where
  "consumeOne cfg Q c s = (case qo_reserve Q s of
     (Inl u, s') \<Rightarrow> (False, c, s')
   | (Inr None, s') \<Rightarrow> (True, c, s')
   | (Inr (Some d), s') \<Rightarrow>
       (case processBatch cfg Q (dl_items d) c s' of
          (True, c', s'') \<Rightarrow> (True, c', snd (qo_ack Q d s''))
        | (False, c', s'') \<Rightarrow> (True, c', s'')))"

definition replay :: "'s queue_ops \<Rightarrow> consumer \<Rightarrow> 's \<Rightarrow> 's run_state option" where
  "replay Q c s = (case qo_recover Q s of
     None \<Rightarrow> None
   | Some ((n, b), s') \<Rightarrow> Some (b, c, s'))"

text \<open>One pass of the loop of \<open>Run\<close>; \<open>None\<close> if the replay does not return.\<close>

definition run_pass :: "consumer_cfg \<Rightarrow> 's queue_ops \<Rightarrow> 's run_state \<Rightarrow> 's run_state option" where
  "run_pass cfg Q x = (case x of (replayed, c, s) \<Rightarrow>
     (case ctx_err c of
        (True, c') \<Rightarrow> Some (replayed, c', s)
      | (False, c') \<Rightarrow>
          (if \<not> replayed then replay Q c' s else Some (consumeOne cfg Q c' s))))"

section \<open>Nothing accepted is lost\<close>

text \<open>What can happen to the system: a pass of the consumer's loop, a producer publishing, and
  the writer being killed while it holds an entry and started again -- then the tables are
  whatever the dead process left (\<open>w\<close>), some items may have got an outcome (\<open>extra\<close>),
  and the entry was not acked.\<close>

datatype happening = Pass | Produce "item list" | Kill world "(item \<times> string) list"

type_synonym 's trace_state = "'s run_state \<times> item multiset"

fun happen :: "consumer_cfg \<Rightarrow> 's queue_ops \<Rightarrow> 's trace_state \<Rightarrow> happening \<Rightarrow> 's trace_state option" where
  "happen cfg Q (x, acc) Pass = map_option (\<lambda>x'. (x', acc)) (run_pass cfg Q x)"
| "happen cfg Q ((r, c, s), acc) (Produce xs) =
     (case qo_publish Q xs s of (b, s') \<Rightarrow> Some ((r, c, s'), if b then acc + mset xs else acc))"
| "happen cfg Q ((r, c, s), acc) (Kill w extra) =
     Some ((False, \<lparr>cs_world = w, cs_ctx = None, cs_outcomes = cs_outcomes c @ extra\<rparr>,
            snd (qo_reserve Q s)), acc)"

fun happen_all :: "consumer_cfg \<Rightarrow> 's queue_ops \<Rightarrow> 's trace_state \<Rightarrow> happening list \<Rightarrow> 's trace_state option" where
  "happen_all cfg Q x [] = Some x"
| "happen_all cfg Q x (h # hs) = (case happen cfg Q x h of None \<Rightarrow> None | Some y \<Rightarrow> happen_all cfg Q y hs)"

text \<open>The items with an outcome that settles them.  A transient failure met during shutdown is
  not one: such an item is still to be stored.\<close>

definition settled :: "consumer \<Rightarrow> item multiset" where
  "settled c = mset (map fst (filter (\<lambda>(i, outc). outc \<noteq> ''transient_drop'') (cs_outcomes c)))"

lemma ctx_err_frame: "ctx_err c = (b, c') \<Longrightarrow> cs_outcomes c' = cs_outcomes c \<and> (b \<longrightarrow> cancelled c')"
  by (auto simp: ctx_err_def cancelled_def split: option.splits nat.splits)

lemma ctx_err_go_on: "ctx_err c = (False, c') \<Longrightarrow> \<not> cancelled c"
  by (auto simp: ctx_err_def cancelled_def split: option.splits nat.splits)

lemma check_and_wait_frame: "check_and_wait c = (b, c') \<Longrightarrow> cs_outcomes c' = cs_outcomes c \<and> (b \<longrightarrow> cancelled c')"
  by (auto simp: check_and_wait_def dest!: ctx_err_frame split: prod.splits bool.splits)

lemma on_world_frame: "on_world rw c = (r, c') \<Longrightarrow>
    cs_outcomes c' = cs_outcomes c \<and> cs_ctx c' = cs_ctx c"
  by (auto simp: on_world_def)

definition item_frame :: "consumer \<Rightarrow> string \<Rightarrow> consumer \<Rightarrow> bool" where
  "item_frame c outc c' \<longleftrightarrow> cs_outcomes c' = cs_outcomes c \<and> (outc = ''transient_drop'' \<longrightarrow> cancelled c')"

lemma item_frameI: "cs_outcomes c' = cs_outcomes c \<Longrightarrow> outc \<noteq> ''transient_drop'' \<Longrightarrow> item_frame c outc c'"
  by (simp add: item_frame_def)

lemma item_frame_cong: "cs_outcomes d = cs_outcomes c \<Longrightarrow> item_frame d outc c' \<Longrightarrow> item_frame c outc c'"
  by (simp add: item_frame_def)

lemma persist_event_loop_frame: "persist_event_loop n px rec c = (outc, c') \<Longrightarrow> item_frame c outc c'"
proof (induction n arbitrary: c)
  case 0
  then show ?case by (auto intro!: item_frameI)
next
  case (Suc n)
  obtain res c1 where p: "on_world (PersistRecord px rec (cs_world c)) c = (res, c1)" by (metis surj_pair)
  have o1: "cs_outcomes c1 = cs_outcomes c" using on_world_frame [OF p] by simp
  show ?case
  proof (cases "pr_outcome res")
    case OutcomeTransient
    obtain b c2 where e: "check_and_wait c1 = (b, c2)" by (metis surj_pair)
    have o2: "cs_outcomes c2 = cs_outcomes c" using check_and_wait_frame [OF e] o1 by simp
    show ?thesis
    proof (cases b)
      case True
      then have "outc = ''transient_drop''" "c' = c2" using Suc.prems p e OutcomeTransient by simp_all
      then show ?thesis using check_and_wait_frame [OF e] True o2 by (simp add: item_frame_def)
    next
      case False
      then have "persist_event_loop n px rec c2 = (outc, c')" using Suc.prems p e OutcomeTransient by simp
      then show ?thesis using item_frame_cong [OF o2] Suc.IH by blast
    qed
  next
    case OutcomePersistError
    then have "outc = ''persist_error''" "c' = snd (ctx_err c1)" using Suc.prems p by simp_all
    moreover have "cs_outcomes (snd (ctx_err c1)) = cs_outcomes c1"
      using ctx_err_frame [of c1 "fst (ctx_err c1)" "snd (ctx_err c1)"] by simp
    ultimately show ?thesis using o1 by (simp add: item_frame_def)
  qed (use Suc.prems p o1 in \<open>auto simp: item_frame_def\<close>)
qed

lemma resolve_loop_frame: "resolve_loop n px slug c = (r, c') \<Longrightarrow>
    cs_outcomes c' = cs_outcomes c \<and> (r = Inl ''transient_drop'' \<longrightarrow> cancelled c')"
proof (induction n arbitrary: c)
  case (Suc n)
  obtain res c1 where p: "on_world (ensure_attempt px slug (cs_world c)) c = (res, c1)" by (metis surj_pair)
  obtain b2 c2 where e2: "ctx_err c1 = (b2, c2)" by (metis surj_pair)
  obtain b3 c3 where e3: "ctx_err c2 = (b3, c3)" by (metis surj_pair)
  have os: "cs_outcomes c1 = cs_outcomes c" "cs_outcomes c2 = cs_outcomes c" "cs_outcomes c3 = cs_outcomes c"
    "b2 \<longrightarrow> cancelled c2" "b3 \<longrightarrow> cancelled c3"
    using on_world_frame [OF p] ctx_err_frame [OF e2] ctx_err_frame [OF e3] by simp_all
  show ?case
  proof (cases "res = None \<and> \<not> b2 \<and> n \<noteq> 0 \<and> \<not> b3")
    case True
    then have "resolve_loop n px slug c3 = (r, c')" using Suc.prems p e2 e3 by simp
    then show ?thesis using Suc.IH [of c3] os(3) by simp
  next
    case False
    then show ?thesis using Suc.prems p e2 e3 os
      by (cases res; cases b2; cases "n = 0"; cases b3) auto
  qed
qed auto

lemma insert_log_loop_frame: "insert_log_loop n px entries c = (outc, c') \<Longrightarrow> item_frame c outc c'"
proof (induction n arbitrary: c)
  case 0
  then show ?case by (auto intro!: item_frameI)
next
  case (Suc n)
  obtain res c1 where p: "on_world (insert_logs px entries (cs_world c)) c = (res, c1)" by (metis surj_pair)
  obtain b c2 where e: "check_and_wait c1 = (b, c2)" by (metis surj_pair)
  have os: "cs_outcomes c1 = cs_outcomes c" "cs_outcomes c2 = cs_outcomes c" "b \<longrightarrow> cancelled c2"
    using on_world_frame [OF p] check_and_wait_frame [OF e] by simp_all
  show ?case
  proof (cases "(\<exists>e. res = Some e \<and> processorTransient (Some e)) \<and> \<not> b")
    case True
    then have "insert_log_loop n px entries c2 = (outc, c')" using Suc.prems p e by auto
    then show ?thesis using item_frame_cong [OF os(2)] Suc.IH by blast
  next
    case False
    then show ?thesis using Suc.prems p e os
      by (cases res; cases b) (auto simp: item_frame_def split: if_splits)
  qed
qed

lemma persistLog_frame: "persistLog cfg it c = (outc, c') \<Longrightarrow> item_frame c outc c'"
proof -
  assume a: "persistLog cfg it c = (outc, c')"
  obtain r c1 where r: "resolveProject (cc_px cfg) it c = (r, c1)" by (metis surj_pair)
  then have f1: "cs_outcomes c1 = cs_outcomes c \<and> (r = Inl ''transient_drop'' \<longrightarrow> cancelled c1)"
    by (auto simp: resolveProject_def dest: resolve_loop_frame split: if_splits)
  show ?thesis
    using a r f1 insert_log_loop_frame [of consumerMaxRetries "cc_px cfg" _ c1 outc c']
    by (auto simp: persistLog_def item_frame_def Let_def dest: on_world_frame
        split: if_splits option.splits sum.splits prod.splits)
qed

lemma persist_item_frame: "persist_item cfg it c = (outc, c') \<Longrightarrow> item_frame c outc c'"
  using persist_event_loop_frame [of consumerMaxRetries "cc_px cfg" _ c outc c'] persistLog_frame [of cfg it c outc c']
  by (auto simp: persist_item_def persistEvent_def persistTelemetry_def Let_def item_frame_def
      split: if_splits option.splits)

lemma settled_record: "settled (record_outcome it outc c)
    = settled c + (if outc = ''transient_drop'' then {#} else {#it#})"
  by (simp add: settled_def record_outcome_def)

lemma settled_cong: "cs_outcomes c = cs_outcomes d \<Longrightarrow> settled c = settled d"
  by (simp add: settled_def)

context write_queue begin

lemma requeue_content:
  assumes good and "requeue Q xs s = (b, s')"
  shows "inflight s' = inflight s" "content s \<subseteq># content s'" "b \<Longrightarrow> content s' = content s + mset xs"
  using publish_content [OF assms(1), of xs s b s'] assms(2)
  by (auto simp: requeue_def split: if_splits)

lemma processBatch_content:
  assumes good
  shows "processBatch cfg Q xs c s = (b, c', s') \<Longrightarrow> inflight s' = inflight s
    \<and> (\<exists>D. settled c' = settled c + D \<and> content s \<subseteq># content s'
         \<and> (b \<longrightarrow> content s + mset xs \<subseteq># content s' + D))"
proof (induction xs arbitrary: c)
  case Nil
  then show ?case by (intro conjI exI [of _ "{#}"]) auto
next
  case (Cons it xs)
  obtain b0 c0 where e0: "ctx_err c = (b0, c0)" by (metis surj_pair)
  have s0: "settled c0 = settled c" using ctx_err_frame [OF e0] by (intro settled_cong) simp
  show ?case
  proof (cases b0)
    case True
    then have "requeue Q (it # xs) s = (b, s')" "c' = c0"
      using Cons.prems e0 by (auto split: prod.splits)
    then show ?thesis
      using requeue_content [OF assms, of "it # xs" s b s'] s0
      by (intro conjI exI [of _ "{#}"]) auto
  next
    case b0: False
    obtain outc c1 where p: "persist_item cfg it c0 = (outc, c1)" by (metis surj_pair)
    obtain b2 c2 where e2: "ctx_err (record_outcome it outc c1) = (b2, c2)" by (metis surj_pair)
    have f: "item_frame c0 outc c1" using persist_item_frame [OF p] .
    let ?d = "if outc = ''transient_drop'' then {#} else {#it#}"
    have s2: "settled c2 = settled c + ?d"
      using ctx_err_frame [OF e2] f s0 settled_cong [of c2 "record_outcome it outc c1"]
        settled_cong [of c1 c0] by (simp add: settled_record item_frame_def)
    show ?thesis
    proof (cases b2)
      case True
      then have q: "requeue Q (if handled outc then xs else it # xs) s = (b, s')" "c' = c2"
        using Cons.prems e0 b0 p e2 by (auto split: prod.splits if_splits)
      have h: "handled outc \<Longrightarrow> outc \<noteq> ''transient_drop''" by (auto simp: handled_def)
      have "b \<longrightarrow> content s + mset (it # xs) \<subseteq># content s' + ?d"
        using requeue_content(3) [OF assms q(1)] h by auto
      then show ?thesis
        using requeue_content(1,2) [OF assms q(1)] s2 q(2) by (intro conjI exI [of _ ?d]) auto
    next
      case False
      then have rest: "processBatch cfg Q xs c2 s = (b, c', s')" using Cons.prems e0 b0 p e2 by simp
      have "\<not> cancelled (record_outcome it outc c1)" using ctx_err_go_on e2 False by simp
      then have d: "outc \<noteq> ''transient_drop''"
        using f by (auto simp: item_frame_def cancelled_def record_outcome_def)
      from Cons.IH [OF rest] obtain D where D: "settled c' = settled c2 + D" "content s \<subseteq># content s'"
        "b \<longrightarrow> content s + mset xs \<subseteq># content s' + D" "inflight s' = inflight s" by blast
      have "b \<longrightarrow> content s + mset (it # xs) \<subseteq># content s' + ({#it#} + D)" using D(3) by auto
      then show ?thesis using D s2 d by (intro conjI exI [of _ "{#it#} + D"]) auto
    qed
  qed
qed

lemma consumeOne_content:
  assumes good "consumeOne cfg Q c s = (r, c', s')"
  shows "content s + settled c \<subseteq># content s' + settled c'"
proof -
  obtain q s1 where rs: "qo_reserve Q s = (q, s1)" by (metis surj_pair)
  have c1: "content s1 = content s" using reserve_content [OF assms(1) rs] .
  show ?thesis
  proof (cases "\<exists>d. q = Inr (Some d)")
    case False
    then have "c' = c \<and> s' = s1" using assms(2) rs by (auto simp: consumeOne_def split: sum.splits option.splits)
    then show ?thesis using c1 by simp
  next
    case True
    then obtain d where d: "q = Inr (Some d)" by blast
    have dv: "inflight s1 = dl_payload d # inflight s" "entry_items (dl_payload d) = dl_items d"
      using reserve_some [OF assms(1)] rs d by auto
    obtain b c2 s2 where pb: "processBatch cfg Q (dl_items d) c s1 = (b, c2, s2)" by (metis prod_cases3)
    obtain D where D: "settled c2 = settled c + D" "content s1 \<subseteq># content s2"
      "b \<longrightarrow> content s1 + mset (dl_items d) \<subseteq># content s2 + D" "inflight s2 = inflight s1"
      using processBatch_content [OF assms(1) pb] by blast
    show ?thesis
    proof (cases b)
      case False
      then have "c' = c2 \<and> s' = s2" using assms(2) rs d pb by (simp add: consumeOne_def)
      then show ?thesis using D c1 by (simp add: subset_mset.add_mono subset_mset.add_increasing2)
    next
      case True
      obtain k s3 where a: "qo_ack Q d s2 = (k, s3)" by (metis surj_pair)
      have e: "c' = c2 \<and> s' = s3" using assms(2) rs d pb True a by (simp add: consumeOne_def)
      have "content s2 \<subseteq># content s3 + mset (dl_items d)"
        using ack_content [OF assms(1) a] dv D(4) by simp
      then have "content s2 + D \<subseteq># content s3 + mset (dl_items d) + D" by simp
      then have "content s1 + mset (dl_items d) \<subseteq># content s3 + D + mset (dl_items d)"
        using D(3) True by (metis (no_types, lifting) add.assoc add.commute subset_mset.order_trans)
      then have "content s1 \<subseteq># content s3 + D" by simp
      then have "content s1 + settled c \<subseteq># content s3 + D + settled c" by simp
      moreover have "content s3 + D + settled c = content s3 + settled c2"
        using D(1) by (simp add: union_commute)
      ultimately show ?thesis using e c1 by simp
    qed
  qed
qed

lemma happen_content:
  assumes good
  shows "\<exists>r' c' s' acc'. happen cfg Q ((r, c, s), acc) h = Some ((r', c', s'), acc')
    \<and> (\<exists>new. acc' = acc + new \<and> content s + settled c + new \<subseteq># content s' + settled c')"
proof (cases h)
  case Pass
  obtain b c1 where e: "ctx_err c = (b, c1)" by (metis surj_pair)
  have s1: "settled c1 = settled c" using ctx_err_frame [OF e] by (intro settled_cong) simp
  show ?thesis
  proof (cases "b \<or> r")
    case True
    obtain r' c' s' where o: "consumeOne cfg Q c1 s = (r', c', s')" by (metis prod_cases3)
    show ?thesis
      using Pass e True s1 consumeOne_content [OF assms o] o
      by (cases b) (auto simp: run_pass_def intro!: exI [of _ "{#}"])
  next
    case False
    obtain n k s' where rc: "qo_recover Q s = Some ((n, k), s')" using recover_returns [OF assms, of s] by blast
    then have "content s' = content s" using recover_content [OF assms] by blast
    then show ?thesis
      using Pass e False s1 rc by (auto simp: run_pass_def replay_def intro!: exI [of _ "{#}"])
  qed
next
  case (Produce xs)
  obtain b s' where p: "qo_publish Q xs s = (b, s')" by (metis surj_pair)
  note pc = publish_content [OF assms p]
  show ?thesis
  proof (cases b)
    case True
    then have "content s' = content s + mset xs" using pc by simp
    then show ?thesis using Produce p True by (auto simp: ac_simps intro!: exI [of _ "mset xs"])
  next
    case False
    then show ?thesis using Produce p pc by (auto intro!: exI [of _ "{#}"])
  qed
next
  case (Kill w extra)
  obtain q s1 where rs: "qo_reserve Q s = (q, s1)" by (metis surj_pair)
  have "content s1 = content s" using reserve_content [OF assms rs] .
  then show ?thesis using Kill rs
    by (auto simp: settled_def intro!: exI [of _ "{#}"])
qed

lemma trace_content:
  assumes good
  shows "\<exists>r' c' s' acc'. happen_all cfg Q ((r, c, s), acc) hs = Some ((r', c', s'), acc')
    \<and> (\<exists>new. acc' = acc + new \<and> content s + settled c + new \<subseteq># content s' + settled c')"
proof (induction hs arbitrary: r c s acc)
  case Nil
  then show ?case by (auto intro!: exI [of _ "{#}"])
next
  case (Cons h hs)
  obtain r1 c1 s1 acc1 n1 where h: "happen cfg Q ((r, c, s), acc) h = Some ((r1, c1, s1), acc1)"
    "acc1 = acc + n1" "content s + settled c + n1 \<subseteq># content s1 + settled c1"
    using happen_content [OF assms, of cfg r c s acc h] by blast
  obtain r' c' s' acc' n2 where t: "happen_all cfg Q ((r1, c1, s1), acc1) hs = Some ((r', c', s'), acc')"
    "acc' = acc1 + n2" "content s1 + settled c1 + n2 \<subseteq># content s' + settled c'"
    using Cons.IH [of r1 c1 s1 acc1] by blast
  have "content s + settled c + n1 + n2 \<subseteq># content s1 + settled c1 + n2" using h(3) by simp
  from subset_mset.order_trans [OF this t(3)]
  have le: "content s + settled c + (n1 + n2) \<subseteq># content s' + settled c'" by (simp only: union_assoc)
  have eqs: "happen_all cfg Q ((r, c, s), acc) (h # hs) = Some ((r', c', s'), acc')"
    "acc' = acc + (n1 + n2)" using h(1,2) t(1,2) by (simp_all add: union_assoc)
  show ?case
    using eqs le by (intro exI [of _ r'] exI [of _ c'] exI [of _ s'] exI [of _ acc'] conjI exI [of _ "n1 + n2"])
qed

end

section \<open>The Redis queue\<close>

definition demo_consumer :: consumer where
  "demo_consumer = \<lparr>cs_world = demo_world, cs_ctx = Some 3, cs_outcomes = []\<rparr>"

definition demo_cfg :: consumer_cfg where
  "demo_cfg = \<lparr>cc_px = demo_px None, cc_hasLogs = True, cc_hasTelemetry = True\<rparr>"

text \<open>C3: No accepted item is lost.  Over any sequence of consumer passes, publishes, cancelled
  contexts, kills between reserve and ack, and failing or unanswered Redis commands, the
  system keeps running, and every item that was queued, reserved or already settled at the
  start, and every item a publish reported as accepted since, is still in the queue or the
  processing list, or has been given its final outcome (stored, held, or dropped with the reason counted).\<close>

theorem no_accepted_item_lost:
  assumes "redis_ok R view"
  shows "\<exists>r' c' s' accepted. happen_all cfg (redis_queue R (ProcessingKey w)) ((r, c, s), {#}) hs
      = Some ((r', c', s'), accepted)
    \<and> items_of (view s WriteQueueKey) + items_of (view s (ProcessingKey w)) + settled c + accepted
        \<subseteq># items_of (view s' WriteQueueKey) + items_of (view s' (ProcessingKey w)) + settled c'"
  using rq.trace_content [OF assms, where w = w and cfg = cfg and r = r and c = c and s = s and hs = hs
      and acc = "{#}"] unfolding rq.content_def empty_neutral by blast

theorem no_accepted_item_lost_witness:
  "\<exists>r' c' s' accepted. happen_all demo_cfg (redis_queue script_redis (ProcessingKey DefaultWriter))
      ((False, demo_consumer, demo_server [LostReply, Fine]), {#})
      [Pass, Produce [demo_item ''c''], Kill demo_world [], Pass, Pass] = Some ((r', c', s'), accepted)
    \<and> demo_item ''a'' \<in># items_of (sv_lists s' WriteQueueKey)
        + items_of (sv_lists s' (ProcessingKey DefaultWriter)) + settled c'"
proof -
  let ?s = "demo_server [LostReply, Fine]"
  let ?Q = "redis_queue script_redis (ProcessingKey DefaultWriter)"
  let ?hs = "[Pass, Produce [demo_item ''c''], Kill demo_world [], Pass, Pass]"
  have a: "demo_item ''a'' \<in># items_of (sv_lists ?s WriteQueueKey)"
    by (simp add: demo_server_def)
  obtain r' c' s' acc where t: "happen_all demo_cfg ?Q ((False, demo_consumer, ?s), {#}) ?hs = Some ((r', c', s'), acc)"
    and le: "items_of (sv_lists ?s WriteQueueKey) + items_of (sv_lists ?s (ProcessingKey DefaultWriter))
        + settled demo_consumer + acc
      \<subseteq># items_of (sv_lists s' WriteQueueKey) + items_of (sv_lists s' (ProcessingKey DefaultWriter)) + settled c'"
    using no_accepted_item_lost [OF script_redis_ok, of demo_cfg DefaultWriter False demo_consumer ?s ?hs] by blast
  from a have "demo_item ''a'' \<in># items_of (sv_lists ?s WriteQueueKey)
      + items_of (sv_lists ?s (ProcessingKey DefaultWriter)) + settled demo_consumer + acc"
    by (simp only: union_iff simp_thms)
  from mset_subset_eqD [OF le this] t show ?thesis by blast
qed

end
