(* ===== verification/CronExpr.thy ===== *)
theory CronExpr
  imports GoStrings "HOL-Library.Word"
begin

text \<open>
  Cron expressions: \<open>internal/cronexpr/cronexpr.go\<close>.  Fields are masks of 64 bits, as in
  the code.  A calendar day is its number since 1 January 1970; \<open>time.Date\<close> and
  \<open>Time.Date\<close> translate between days and years, months and days of the month in the
  proleptic Gregorian calendar.  A time zone is its initial offset and its transitions, what
  the zone database supplies, and \<open>go_Date\<close> is the standard library's rule for turning a
  wall clock reading into an instant.
\<close>

unbundle bit_operations_syntax

section \<open>Days and zones\<close>

text \<open>Month and day of the month of a day number.\<close>

definition day_of_era :: "int \<Rightarrow> int" where "day_of_era n = (n + 719468) mod 146097"

definition year_of_era :: "int \<Rightarrow> int" where
  "year_of_era doe = (doe - doe div 1460 + doe div 36524 - doe div 146096) div 365"

definition day_of_year :: "int \<Rightarrow> int" where
  "day_of_year doe = (let y = year_of_era doe in doe - (365 * y + y div 4 - y div 100))"

definition Month :: "int \<Rightarrow> int" where
  "Month n = (let mp = (5 * day_of_year (day_of_era n) + 2) div 153 in if mp < 10 then mp + 3 else mp - 9)"

definition Day :: "int \<Rightarrow> int" where
  "Day n = (let doy = day_of_year (day_of_era n); mp = (5 * doy + 2) div 153 in doy - (153 * mp + 2) div 5 + 1)"

definition Weekday :: "int \<Rightarrow> int" where "Weekday n = (n + 4) mod 7"

lemma civil_samples:
  "(Month 0, Day 0, Weekday 0) = (1, 1, 4)"
  "(Month 11016, Day 11016, Weekday 11016) = (2, 29, 2)"
  "(Month 11017, Day 11017) = (3, 1)" "(Month 10956, Day 10956) = (12, 31)"
  "(Month (-25509), Day (-25509)) = (2, 28)" "(Month (-25508), Day (-25508)) = (3, 1)"
  by (simp_all add: Month_def Day_def Weekday_def day_of_year_def year_of_era_def day_of_era_def Let_def)

text \<open>Offsets in seconds, transitions as instants (seconds) in ascending order.\<close>

record zone =
  zn_initial :: int
  zn_trans :: "(int \<times> int) list"

fun lookup_from :: "int \<Rightarrow> int \<Rightarrow> (int \<times> int) list \<Rightarrow> int \<Rightarrow> int \<times> int \<times> int" where
  "lookup_from start off [] t = (off, start, int64_max)"
| "lookup_from start off ((s, o') # ts) t =
     (if t < s then (off, start, s) else lookup_from s o' ts t)"

definition zone_lookup :: "zone \<Rightarrow> int \<Rightarrow> int \<times> int \<times> int" where
  "zone_lookup z t = lookup_from int64_min (zn_initial z) (zn_trans z) t"

definition zone_offset :: "zone \<Rightarrow> int \<Rightarrow> int" where "zone_offset z t = fst (zone_lookup z t)"

definition utc :: zone where "utc = \<lparr>zn_initial = 0, zn_trans = []\<rparr>"

text \<open>\<open>time.Date\<close>: a wall clock reading, in seconds as if it were UTC, to an instant.  The
  offset is looked up as if the reading were UTC, and again when that offset's period does not
  hold the resulting instant.\<close>

definition go_Date :: "zone \<Rightarrow> int \<Rightarrow> time" where
  "go_Date z wall = (case zone_lookup z wall of (off, start, end') \<Rightarrow>
     (if off = 0 then wall
      else let u = wall - off in
        if u < start \<or> end' \<le> u then wall - zone_offset z u else u)) * seconds"

text \<open>The calendar day of an instant on the zone's wall clock.\<close>

definition local_day :: "zone \<Rightarrow> time \<Rightarrow> int" where
  "local_day z t = (t div seconds + zone_offset z (t div seconds)) div 86400"

section \<open>Fields\<close>

record schedule =
  sc_expr :: string
  sc_minutes :: "64 word"
  sc_hours :: "64 word"
  sc_dom :: "64 word"
  sc_months :: "64 word"
  sc_dow :: "64 word"
  sc_domAny :: bool
  sc_dowAny :: bool

definition maxSearchDays :: nat where "maxSearchDays = 366 * 8"

record fieldSpec =
  fs_name :: string
  fs_min :: int
  fs_max :: int
  fs_names :: "(string \<times> int) list"

definition minuteSpec :: fieldSpec where
  "minuteSpec = \<lparr>fs_name = ''minute'', fs_min = 0, fs_max = 59, fs_names = []\<rparr>"
definition hourSpec :: fieldSpec where
  "hourSpec = \<lparr>fs_name = ''hour'', fs_min = 0, fs_max = 23, fs_names = []\<rparr>"
definition domSpec :: fieldSpec where
  "domSpec = \<lparr>fs_name = ''day of month'', fs_min = 1, fs_max = 31, fs_names = []\<rparr>"
definition monthSpec :: fieldSpec where
  "monthSpec = \<lparr>fs_name = ''month'', fs_min = 1, fs_max = 12, fs_names =
     [(''jan'', 1), (''feb'', 2), (''mar'', 3), (''apr'', 4), (''may'', 5), (''jun'', 6),
      (''jul'', 7), (''aug'', 8), (''sep'', 9), (''oct'', 10), (''nov'', 11), (''dec'', 12)]\<rparr>"
definition dowSpec :: fieldSpec where
  "dowSpec = \<lparr>fs_name = ''day of week'', fs_min = 0, fs_max = 7, fs_names =
     [(''sun'', 0), (''mon'', 1), (''tue'', 2), (''wed'', 3), (''thu'', 4), (''fri'', 5), (''sat'', 6)]\<rparr>"

datatype cron_error = FieldCount nat | InvalidStep string string | Backwards string string
  | InvalidValue string string | Outside string int int int | NeverRuns string

definition parseValue :: "string \<Rightarrow> fieldSpec \<Rightarrow> cron_error + int" where
  "parseValue txt spec = (case map_of (fs_names spec) (to_lower txt) of
     Some v \<Rightarrow> Inr v
   | None \<Rightarrow>
       (case parse_int txt of
          None \<Rightarrow> Inl (InvalidValue (fs_name spec) txt)
        | Some v \<Rightarrow>
            (if v < fs_min spec \<or> fs_max spec < v
             then Inl (Outside (fs_name spec) v (fs_min spec) (fs_max spec)) else Inr v)))"

text \<open>\<open>1 << uint(v)\<close>: a shift by 64 or more, such as that of a negative \<open>v\<close>, gives 0.\<close>

definition shl1 :: "int \<Rightarrow> 64 word" where
  "shl1 v = (if 0 \<le> v then push_bit (nat v) 1 else 0)"

text \<open>\<open>for v := lo; v <= hi; v += step\<close>, with the \<open>int64\<close> sum wrapping around.\<close>

partial_function (option) part_loop :: "int \<Rightarrow> int \<Rightarrow> int \<Rightarrow> 64 word \<Rightarrow> 64 word option" where
  "part_loop v hi step bs =
     (if v \<le> hi then part_loop (wrap64 (v + step)) hi step (bs OR shl1 v) else Some bs)"

definition part_step :: "bool \<Rightarrow> string \<Rightarrow> fieldSpec \<Rightarrow> cron_error + int" where
  "part_step hasStep stepText spec =
     (if hasStep then
        (case parse_int stepText of
           None \<Rightarrow> Inl (InvalidStep (fs_name spec) stepText)
         | Some n \<Rightarrow> (if n < 1 then Inl (InvalidStep (fs_name spec) stepText) else Inr n))
      else Inr 1)"

definition part_bounds :: "string \<Rightarrow> bool \<Rightarrow> fieldSpec \<Rightarrow> cron_error + int \<times> int" where
  "part_bounds rangePart hasStep spec =
     (if rangePart = ''*'' then Inr (fs_min spec, fs_max spec)
      else if CHR ''-'' \<in> set rangePart then
        (case cut CHR ''-'' rangePart of (a, b, _) \<Rightarrow>
           (case parseValue a spec of
              Inl e \<Rightarrow> Inl e
            | Inr lo \<Rightarrow>
                (case parseValue b spec of
                   Inl e \<Rightarrow> Inl e
                 | Inr hi \<Rightarrow> (if hi < lo then Inl (Backwards (fs_name spec) rangePart) else Inr (lo, hi)))))
      else
        (case parseValue rangePart spec of
           Inl e \<Rightarrow> Inl e
         | Inr v \<Rightarrow> Inr (v, if hasStep then fs_max spec else v)))"

text \<open>A parser's result: \<open>None\<close> if it does not return, an error, or a value.\<close>

type_synonym 'a parsed = "(cron_error + 'a) option"

definition and_then :: "'a parsed \<Rightarrow> ('a \<Rightarrow> 'b parsed) \<Rightarrow> 'b parsed" where
  "and_then p f = (case p of None \<Rightarrow> None | Some (Inl e) \<Rightarrow> Some (Inl e) | Some (Inr x) \<Rightarrow> f x)"

definition parsePart :: "string \<Rightarrow> fieldSpec \<Rightarrow> 64 word parsed" where
  "parsePart part spec = (case cut CHR ''/'' part of (rangePart, stepText, hasStep) \<Rightarrow>
     and_then (Some (part_step hasStep stepText spec)) (\<lambda>step.
     and_then (Some (part_bounds rangePart hasStep spec)) (\<lambda>(lo, hi).
     map_option Inr (part_loop lo hi step 0))))"

fun parts_loop :: "string list \<Rightarrow> fieldSpec \<Rightarrow> 64 word \<Rightarrow> 64 word parsed" where
  "parts_loop [] spec bs = Some (Inr bs)"
| "parts_loop (p # ps) spec bs =
     and_then (parsePart p spec) (\<lambda>b. parts_loop ps spec (bs OR b))"

definition parseField :: "string \<Rightarrow> fieldSpec \<Rightarrow> (64 word \<times> bool) parsed" where
  "parseField field spec = and_then (parts_loop (split_on CHR '','' field) spec 0)
     (\<lambda>bs. Some (Inr (bs, has_prefix field ''*'')))"

section \<open>Runs\<close>

definition matchesDay :: "schedule \<Rightarrow> int \<Rightarrow> bool" where
  "matchesDay s day =
     (if sc_months s AND shl1 (Month day) = 0 then False
      else let domOK = (sc_dom s AND shl1 (Day day) \<noteq> 0); dowOK = (sc_dow s AND shl1 (Weekday day) \<noteq> 0)
           in if sc_domAny s \<and> sc_dowAny s then True
              else if sc_domAny s then dowOK
              else if sc_dowAny s then domOK
              else domOK \<or> dowOK)"

definition trailing_zeros :: "64 word \<Rightarrow> nat" where
  "trailing_zeros w = length (takeWhile (\<lambda>n. \<not> bit w n) [0..<64])"

text \<open>The wall clock readings of a day that the two loops visit, in their order.\<close>

definition run_times :: "schedule \<Rightarrow> int \<Rightarrow> int list" where
  "run_times s day = concat (map (\<lambda>h. map (\<lambda>m. day * 86400 + int h * 3600 + int m * 60)
       (filter (\<lambda>m. sc_minutes s AND shl1 (int m) \<noteq> 0) [0..<60]))
     (filter (\<lambda>h. sc_hours s AND shl1 (int h) \<noteq> 0) [trailing_zeros (sc_hours s)..<24]))"

definition firstRunOn :: "schedule \<Rightarrow> int \<Rightarrow> time \<Rightarrow> zone \<Rightarrow> time option" where
  "firstRunOn s day after z = List.find (\<lambda>t. after < t) (map (go_Date z) (run_times s day))"

fun search_days :: "nat \<Rightarrow> schedule \<Rightarrow> int \<Rightarrow> time \<Rightarrow> zone \<Rightarrow> time option" where
  "search_days 0 s day after z = None"
| "search_days (Suc n) s day after z =
     (if \<not> matchesDay s day then search_days n s (day + 1) after z
      else case firstRunOn s day after z of
        Some t \<Rightarrow> Some t
      | None \<Rightarrow> search_days n s (day + 1) after z)"

text \<open>The search starts a day early; without a run in it the result is the zero time.\<close>

definition Next :: "schedule \<Rightarrow> time \<Rightarrow> zone \<Rightarrow> time" where
  "Next s after z = (case search_days maxSearchDays s (local_day z after - 1) after z of
     Some t \<Rightarrow> t | None \<Rightarrow> zero_time)"

text \<open>1 January 2000, where \<open>Parse\<close> looks for a first run.\<close>

definition probe_time :: time where "probe_time = 10957 * 86400 * seconds"

definition sunday_bit :: "64 word \<Rightarrow> 64 word" where
  "sunday_bit w = (if w AND push_bit 7 1 \<noteq> 0 then (w AND NOT (push_bit 7 1)) OR 1 else w)"

definition Parse :: "string \<Rightarrow> schedule parsed" where
  "Parse expr = (case GoStrings.fields expr of
     [f0, f1, f2, f3, f4] \<Rightarrow>
       and_then (parseField f0 minuteSpec) (\<lambda>(mi, _).
       and_then (parseField f1 hourSpec) (\<lambda>(ho, _).
       and_then (parseField f2 domSpec) (\<lambda>(do, domAny).
       and_then (parseField f3 monthSpec) (\<lambda>(mo, _).
       and_then (parseField f4 dowSpec) (\<lambda>(dw, dowAny).
         (let s = \<lparr>sc_expr = join_words [f0, f1, f2, f3, f4], sc_minutes = mi, sc_hours = ho,
                   sc_dom = do, sc_months = mo, sc_dow = sunday_bit dw,
                   sc_domAny = domAny, sc_dowAny = dowAny\<rparr>
          in if Next s probe_time utc = zero_time then Some (Inl (NeverRuns (sc_expr s)))
             else Some (Inr s)))))))
   | fs \<Rightarrow> Some (Inl (FieldCount (length fs))))"

section \<open>The step loop\<close>

declare part_loop.simps [code]

lemma bit_shl1 [machine_simps]: "n < 64 \<Longrightarrow> bit (shl1 v) n \<longleftrightarrow> v = int n"
  by (auto simp: shl1_def bit_exp_iff)

lemma test_bit [machine_simps]:
  assumes "0 \<le> v" "v < 64"
  shows "w AND shl1 v \<noteq> 0 \<longleftrightarrow> bit w (nat v)"
proof
  assume "w AND shl1 v \<noteq> 0"
  then obtain n where "bit (w AND shl1 v) n" by (auto simp: bit_eq_iff)
  then have "bit w n" "bit (shl1 v) n" "n < 64" by (auto simp: bit_and_iff dest: bit_imp_le_length)
  then show "bit w (nat v)" by (simp add: bit_shl1)
next
  assume "bit w (nat v)"
  then have "bit (w AND shl1 v) (nat v)" using assms by (simp add: bit_and_iff bit_shl1)
  then show "w AND shl1 v \<noteq> 0" by auto
qed

text \<open>With a step that cannot overflow the loop visits exactly the multiples of the step.\<close>

lemma part_loop_exact:
  assumes "0 \<le> v" "hi < 64" "0 < step" "step \<le> 4611686018427387904"
  shows "\<exists>r. part_loop v hi step bs = Some r
    \<and> (\<forall>n<64. bit r n \<longleftrightarrow> bit bs n \<or> v \<le> int n \<and> int n \<le> hi \<and> step dvd (int n - v))"
  using assms(1)
proof (induction "nat (hi + 1 - v)" arbitrary: v bs rule: less_induct)
  case less
  show ?case
  proof (cases "v \<le> hi")
    case False
    then show ?thesis by (subst part_loop.simps) auto
  next
    case True
    have w: "wrap64 (v + step) = v + step" using True less.prems assms by (intro wrap64_id) auto
    have small: "nat (hi + 1 - (v + step)) < nat (hi + 1 - v)" using True assms(3) by simp
    obtain r where r: "part_loop (v + step) hi step (bs OR shl1 v) = Some r"
      "\<And>n. n < 64 \<Longrightarrow> bit r n \<longleftrightarrow> bit (bs OR shl1 v) n \<or> v + step \<le> int n \<and> int n \<le> hi \<and> step dvd (int n - (v + step))"
      using less.hyps [OF small, of "bs OR shl1 v"] less.prems assms(3) by auto
    have "bit r n \<longleftrightarrow> bit bs n \<or> v \<le> int n \<and> int n \<le> hi \<and> step dvd (int n - v)" if n: "n < 64" for n
    proof -
      have "(int n = v \<or> v + step \<le> int n \<and> int n \<le> hi \<and> step dvd (int n - (v + step)))
          \<longleftrightarrow> v \<le> int n \<and> int n \<le> hi \<and> step dvd (int n - v)" (is "?l \<longleftrightarrow> ?r")
      proof
        assume l: ?l
        have e: "step dvd (int n - v) \<longleftrightarrow> step dvd (int n - (v + step))"
          using dvd_diff_right_iff [of step "step" "int n - v"] by (metis diff_diff_eq dvd_refl dvd_diff_left_iff)
        have "v \<le> int n \<and> int n \<le> hi" using l True assms(3) by linarith
        moreover have "step dvd (int n - v)" using l e by (metis diff_self dvd_0_right)
        ultimately show ?r by blast
      next
        assume r: ?r
        show ?l
        proof (cases "int n = v")
          case False
          then have "step \<le> int n - v" using r zdvd_imp_le by auto
          moreover have "step dvd (int n - v - step)" using r dvd_diff [OF _ dvd_refl] by blast
          moreover have "int n - v - step = int n - (v + step)" by simp
          ultimately show ?thesis using r by (metis le_diff_eq add.commute)
        qed simp
      qed
      moreover have "bit r n \<longleftrightarrow> bit bs n \<or> (int n = v \<or> v + step \<le> int n \<and> int n \<le> hi \<and> step dvd (int n - (v + step)))"
        unfolding r(2) [OF n] bit_or_iff bit_shl1 [OF n] by blast
      ultimately show ?thesis by blast
    qed
    moreover have "part_loop v hi step bs = Some r" using r(1) True w by (subst part_loop.simps) simp
    ultimately show ?thesis by blast
  qed
qed

text \<open>With a larger step the sum may wrap around, but the loop ends all the same.\<close>

lemma part_loop_big:
  assumes "0 \<le> v" "v < 64" "hi < 64" "4611686018427387904 < step" "step \<le> int64_max"
  shows "\<exists>r. part_loop v hi step bs = Some r"
  using assms(1,2)
proof (induction "nat v" arbitrary: v bs rule: less_induct)
  case less
  have stop: "\<exists>r. part_loop u hi step bs = Some r" if "hi < u" for u bs
    using that by (subst part_loop.simps) auto
  show ?case
  proof (cases "v \<le> hi")
    case False
    then show ?thesis using stop by simp
  next
    case hi: True
    show ?thesis
    proof (cases "v + step \<le> int64_max")
      case True
      then have "wrap64 (v + step) = v + step" using less.prems assms by (intro wrap64_id) auto
      then show ?thesis using hi stop [of "v + step"] less.prems assms
        by (subst part_loop.simps) simp
    next
      case False
      let ?u = "v + step - 18446744073709551616"
      have u: "wrap64 (v + step) = ?u"
        using False less.prems assms by (intro wrap64_over) auto
      have wu: "wrap64 (?u + step) = ?u + step" using False less.prems assms by (intro wrap64_id) auto
      have lo: "?u \<le> hi" using less.prems hi assms by simp
      have one: "part_loop v hi step bs = part_loop (?u + step) hi step ((bs OR shl1 v) OR shl1 ?u)"
        using hi u wu lo by (subst part_loop.simps, subst part_loop.simps) simp
      let ?x = "?u + step"
      have x: "?x < v" "-64 < ?x" using False less.prems assms by auto
      show ?thesis
      proof (cases "0 \<le> ?x")
        case True
        have "nat ?x < nat v" using True x by simp
        then have "\<exists>r. part_loop ?x hi step ((bs OR shl1 v) OR shl1 ?u) = Some r"
          using True x less.prems by (intro less.hyps) auto
        then show ?thesis using one by simp
      next
        case False
        have "wrap64 (?x + step) = ?x + step" using False x assms by (intro wrap64_id) auto
        moreover have "hi < ?x + step" using x assms by simp
        moreover have "?x \<le> hi" using x hi by simp
        ultimately have "\<exists>r. part_loop ?x hi step ((bs OR shl1 v) OR shl1 ?u) = Some r"
          using stop [of "?x + step"] by (subst part_loop.simps) simp
        then show ?thesis using one by simp
      qed
    qed
  qed
qed

lemma part_loop_returns:
  assumes "0 \<le> v" "v < 64" "hi < 64" "0 < step" "step \<le> int64_max"
  shows "\<exists>r. part_loop v hi step bs = Some r"
  using part_loop_exact [of v hi step bs] part_loop_big [of v hi step bs] assms
  by (cases "step \<le> 4611686018427387904") auto

text \<open>However the sum wraps, no bit above the upper bound is set.\<close>

lemma part_loop_bits:
  assumes "part_loop v hi step bs = Some r"
  shows "\<forall>n<64. bit r n \<longrightarrow> bit bs n \<or> int n \<le> hi"
proof (rule part_loop.raw_induct [where P = "\<lambda>v hi step bs r. \<forall>n<64. bit r n \<longrightarrow> bit bs n \<or> int n \<le> hi",
      OF _ assms])
  fix loop v hi step bs r
  assume IH: "\<And>v hi step bs r. loop v hi step bs = Some r
      \<Longrightarrow> \<forall>n<64. bit r n \<longrightarrow> bit bs n \<or> int n \<le> hi"
    and eq: "(if v \<le> hi then loop (wrap64 (v + step)) hi step (bs OR shl1 v) else Some bs) = Some r"
  show "\<forall>n<64. bit r n \<longrightarrow> bit bs n \<or> int n \<le> hi"
  proof (cases "v \<le> hi")
    case True
    then have "\<forall>n<64. bit r n \<longrightarrow> bit (bs OR shl1 v) n \<or> int n \<le> hi" using eq IH by simp
    then show ?thesis using True by (auto simp: bit_or_iff bit_shl1)
  next
    case False
    then show ?thesis using eq by simp
  qed
qed

section \<open>The calendar's ranges\<close>

lemma div_between:
  assumes "0 < m"
  shows "m * (x div m) \<le> (x::int)" "x < m * (x div m) + m"
  using mult_div_mod_eq [of m x] pos_mod_bound [OF assms, of x] pos_mod_sign [OF assms, of x] by linarith+

lemma year_day_range:
  assumes "0 \<le> d" "d < 146097"
  shows "0 \<le> day_of_year d \<and> day_of_year d \<le> 365"
proof (cases "d = 146096")
  case True
  then show ?thesis by (simp add: day_of_year_def year_of_era_def Let_def)
next
  case False
  define a b where "a = d div 1460" and "b = d div 36524"
  define y where "y = (d - a + b) div 365"
  have d: "d < 146096" using assms False by simp
  have ya: "year_of_era d = y" using d assms by (simp add: year_of_era_def a_def b_def y_def)
  have A: "1460 * a \<le> d" "d < 1460 * a + 1460" unfolding a_def by (rule div_between; simp)+
  have B: "36524 * b \<le> d" "d < 36524 * b + 36524" unfolding b_def by (rule div_between; simp)+
  have Y: "365 * y \<le> d - a + b" "d - a + b < 365 * y + 365" unfolding y_def by (rule div_between; simp)+
  have b: "0 \<le> b" "b \<le> 3" using B assms d by linarith+
  have A25: "a \<le> 25 * b + 25" using A(1) B(2) b(2) by linarith
  have B25: "25 * b \<le> a" using A(2) B(1) b(1) by linarith
  have "100 * b \<le> y"
  proof -
    have "36499 * b \<le> d - a"
    proof (cases "a = 25 * b")
      case True
      then show ?thesis using B(1) by linarith
    next
      case False
      then have "25 * b + 1 \<le> a" using B25 by linarith
      then show ?thesis using A(1) b by linarith
    qed
    then have "365 * (100 * b) \<le> d - a + b" by linarith
    then show ?thesis using Y(2) by linarith
  qed
  moreover have "y < 100 * b + 100"
  proof -
    have "d - a + b < 36500 * b + 36500"
    proof (cases "a = 25 * b + 25")
      case True
      then show ?thesis using B(2) by linarith
    next
      case False
      then have "a \<le> 25 * b + 24" using A25 by linarith
      then show ?thesis using A(2) b by linarith
    qed
    then show ?thesis using Y(1) by linarith
  qed
  ultimately have p: "y div 100 = b" by (intro int_div_pos_eq [of y 100 b "y - 100 * b"]) simp_all
  define q where "q = y div 4"
  have Q: "4 * q \<le> y" "y < 4 * q + 4" unfolding q_def by (rule div_between; simp)+
  have ab: "b \<le> a" using B25 b(1) by linarith
  have "365 * y \<le> d" using Y(1) ab by linarith
  then have "q \<le> a" using Q(1) A(2) by linarith
  moreover have "a \<le> q + 1" using Q(2) A(1) Y(2) A25 b by linarith
  ultimately have "365 * y + q - b \<le> d" "d \<le> 365 * y + q - b + 365" using Y by linarith+
  then show ?thesis unfolding day_of_year_def ya Let_def p q_def [symmetric] by linarith
qed

lemma calendar_ranges: "1 \<le> Month n \<and> Month n \<le> 12" "1 \<le> Day n \<and> Day n \<le> 31"
proof -
  define y where "y = day_of_year (day_of_era n)"
  have y: "0 \<le> y" "y \<le> 365" using year_day_range [of "day_of_era n"] by (simp_all add: y_def day_of_era_def)
  define m where "m = (5 * y + 2) div 153"
  define k where "k = (153 * m + 2) div 5"
  have M: "153 * m \<le> 5 * y + 2" "5 * y + 2 < 153 * m + 153" unfolding m_def by (rule div_between; simp)+
  have K: "5 * k \<le> 153 * m + 2" "153 * m + 2 < 5 * k + 5" unfolding k_def by (rule div_between; simp)+
  have m: "0 \<le> m" "m \<le> 11" using M y by linarith+
  then show "1 \<le> Month n \<and> Month n \<le> 12"
    unfolding Month_def Let_def y_def [symmetric] m_def [symmetric] by auto
  have "0 \<le> y - k" "y - k \<le> 30" using M K by linarith+
  then show "1 \<le> Day n \<and> Day n \<le> 31"
    unfolding Day_def Let_def y_def [symmetric] m_def [symmetric] k_def [symmetric] by simp
qed

section \<open>What a run is\<close>

text \<open>What the code's loops select, on UTC: a whole minute whose minute and hour are selected, on a day
  that passes \<open>matchesDay\<close>.\<close>

definition minute_of :: "time \<Rightarrow> nat" where "minute_of t = nat ((t div minutes) mod 60)"
definition hour_of :: "time \<Rightarrow> nat" where "hour_of t = nat ((t div hours) mod 24)"
definition day_of :: "time \<Rightarrow> int" where "day_of t = t div (86400 * seconds)"

definition is_run :: "schedule \<Rightarrow> time \<Rightarrow> bool" where
  "is_run s t \<longleftrightarrow> t mod minutes = 0 \<and> bit (sc_minutes s) (minute_of t) \<and> bit (sc_hours s) (hour_of t)
     \<and> matchesDay s (day_of t)"

text \<open>The specification does not use \<open>matchesDay\<close>: it is the rule of Vixie cron, which the package
  promises.  The mask of a day field counts also when the field begins with a star; a day matches
  when both masks hold it if one of the fields begins with a star, and when either does
  otherwise.\<close>

definition standard_day :: "schedule \<Rightarrow> int \<Rightarrow> bool" where
  "standard_day s day \<longleftrightarrow>
     (let dom = bit (sc_dom s) (nat (Day day)); dow = bit (sc_dow s) (nat (Weekday day))
      in bit (sc_months s) (nat (Month day)) \<and> (if sc_domAny s \<or> sc_dowAny s then dom \<and> dow else dom \<or> dow))"

definition cron_run :: "schedule \<Rightarrow> time \<Rightarrow> bool" where
  "cron_run s t \<longleftrightarrow> t mod minutes = 0 \<and> bit (sc_minutes s) (minute_of t) \<and> bit (sc_hours s) (hour_of t)
     \<and> standard_day s (day_of t)"

text \<open>A day field that begins with a star selects every day: a plain star, not a stepped one.\<close>

definition whole_stars :: "schedule \<Rightarrow> bool" where
  "whole_stars s \<longleftrightarrow> (sc_domAny s \<longrightarrow> list_all (bit (sc_dom s)) [1..<32]) \<and> (sc_dowAny s \<longrightarrow> list_all (bit (sc_dow s)) [0..<7])"

lemma matchesDay_standard:
  assumes "whole_stars s"
  shows "matchesDay s day = standard_day s day"
proof -
  note r = calendar_ranges [of day]
  have w: "0 \<le> Weekday day" "Weekday day < 7" by (simp_all add: Weekday_def)
  have t: "sc_months s AND shl1 (Month day) \<noteq> 0 \<longleftrightarrow> bit (sc_months s) (nat (Month day))"
    "sc_dom s AND shl1 (Day day) \<noteq> 0 \<longleftrightarrow> bit (sc_dom s) (nat (Day day))"
    "sc_dow s AND shl1 (Weekday day) \<noteq> 0 \<longleftrightarrow> bit (sc_dow s) (nat (Weekday day))"
    using r w by (intro test_bit; simp)+
  have "nat (Day day) \<in> set [1..<32]" "nat (Weekday day) \<in> set [0..<7]" using r w by auto
  then have "sc_domAny s \<Longrightarrow> bit (sc_dom s) (nat (Day day))" "sc_dowAny s \<Longrightarrow> bit (sc_dow s) (nat (Weekday day))"
    using assms by (auto simp: whole_stars_def list_all_iff)
  then show ?thesis using t by (cases "sc_domAny s"; cases "sc_dowAny s") (auto simp: matchesDay_def standard_day_def Let_def)
qed

lemma is_run_cron: "whole_stars s \<Longrightarrow> is_run s t = cron_run s t"
  by (simp add: is_run_def cron_run_def matchesDay_standard)

lemma go_Date_utc: "go_Date utc wall = wall * seconds"
  by (simp add: go_Date_def zone_lookup_def utc_def)

lemma local_day_utc: "local_day utc t = day_of t"
  by (simp add: local_day_def zone_offset_def zone_lookup_def utc_def day_of_def zdiv_zmult2_eq [symmetric])

lemma trailing_zeros_filter:
  "filter (\<lambda>h. sc_hours s AND shl1 (int h) \<noteq> 0) [trailing_zeros (sc_hours s)..<24]
    = filter (bit (sc_hours s)) [0..<24]"
proof -
  let ?z = "trailing_zeros (sc_hours s)"
  have no: "\<not> bit (sc_hours s) n" if "n < ?z" for n
  proof -
    have "length (takeWhile (\<lambda>n. \<not> bit (sc_hours s) n) [0..<64]) \<le> 64"
      using length_takeWhile_le [of _ "[0..<64]"] by (metis length_upt minus_nat.diff_0)
    then have "n < 64" using that unfolding trailing_zeros_def by simp
    then show ?thesis
      using that nth_mem [of n "takeWhile (\<lambda>n. \<not> bit (sc_hours s) n) [0..<64]"]
        takeWhile_nth [of n "\<lambda>n. \<not> bit (sc_hours s) n" "[0..<64]"] set_takeWhileD
      unfolding trailing_zeros_def by fastforce
  qed
  have eq: "filter (\<lambda>h. sc_hours s AND shl1 (int h) \<noteq> 0) [a..<24] = filter (bit (sc_hours s)) [a..<24]" for a
    by (rule filter_cong) (auto simp: test_bit)
  show ?thesis
  proof (cases "?z \<le> 24")
    case True
    then have "[0..<24] = [0..<?z] @ [?z..<24]" by (metis le0 le_add_diff_inverse upt_add_eq_append)
    moreover have "filter (bit (sc_hours s)) [0..<?z] = []" using no by (simp add: filter_empty_conv)
    ultimately show ?thesis unfolding eq by simp
  next
    case False
    then have "filter (bit (sc_hours s)) [0..<24] = []" using no by (simp add: filter_empty_conv)
    then show ?thesis using False by simp
  qed
qed

lemma filter_minutes: "filter (\<lambda>m. sc_minutes s AND shl1 (int m) \<noteq> 0) [0..<60] = filter (bit (sc_minutes s)) [0..<60]"
  by (rule filter_cong) (auto simp: test_bit)

lemma run_times_set: "w \<in> set (run_times s day) \<longleftrightarrow> (\<exists>h<24. \<exists>m<60. bit (sc_hours s) h \<and> bit (sc_minutes s) m
    \<and> w = day * 86400 + int h * 3600 + int m * 60)"
  unfolding run_times_def trailing_zeros_filter filter_minutes by auto

lemma sorted_blocks:
  assumes "sorted hs" "distinct hs" "sorted ms" "\<And>m. m \<in> set ms \<Longrightarrow> m < (60::nat)"
  shows "sorted (concat (map (\<lambda>h. map (\<lambda>m. d + int h * 3600 + int m * 60) ms) (hs::nat list)))"
  using assms(1,2)
proof (induction hs)
  case (Cons h hs)
  have "sorted (map (\<lambda>m. d + int h * 3600 + int m * 60) ms)"
    using assms(3) by (simp add: sorted_map)
  moreover have "x \<le> y" if "x \<in> (\<lambda>m. d + int h * 3600 + int m * 60) ` set ms"
    "y \<in> set (concat (map (\<lambda>h. map (\<lambda>m. d + int h * 3600 + int m * 60) ms) hs))" for x y
  proof -
    obtain m h' m' where "m \<in> set ms" "h' \<in> set hs" "m' \<in> set ms"
      "x = d + int h * 3600 + int m * 60" "y = d + int h' * 3600 + int m' * 60"
      using \<open>x \<in> _\<close> \<open>y \<in> _\<close> by auto
    moreover from this have "m < 60" "h < h'" using assms(4) Cons.prems
      by (auto simp: order_less_le)
    ultimately show ?thesis by simp
  qed
  ultimately show ?case using Cons by (simp add: sorted_append)
qed simp

lemma run_times_sorted: "sorted (run_times s day)"
  unfolding run_times_def trailing_zeros_filter filter_minutes
  by (rule sorted_blocks) (auto simp: sorted_wrt_filter)

lemma run_times_day: "w \<in> set (run_times s day) \<Longrightarrow> w div 86400 = day"
proof -
  assume "w \<in> set (run_times s day)"
  then obtain h m where "h < 24" "m < 60" "w = day * 86400 + (int h * 3600 + int m * 60)"
    unfolding run_times_set by auto
  then show ?thesis by (simp add: div_pos_pos_trivial)
qed

lemma is_run_iff: "is_run s t \<longleftrightarrow> matchesDay s (day_of t) \<and> t \<in> (\<lambda>w. w * seconds) ` set (run_times s (day_of t))"
proof
  assume r: "is_run s t"
  define k where "k = t div minutes"
  have t: "t = k * minutes" using r by (auto simp: is_run_def k_def)
  have h: "t div hours = k div 60" unfolding t by (simp add: zdiv_zmult2_eq [symmetric])
  have d: "day_of t = k div 1440" unfolding t day_of_def by (simp add: zdiv_zmult2_eq [symmetric])
  let ?h = "nat (k div 60 mod 24)" and ?m = "nat (k mod 60)"
  have "bit (sc_hours s) ?h" "bit (sc_minutes s) ?m" "matchesDay s (day_of t)"
    using r h by (auto simp: is_run_def hour_of_def minute_of_def k_def)
  moreover have "?h < 24" "?m < 60" by (auto simp: nat_less_iff)
  moreover have "k * 60 = day_of t * 86400 + int ?h * 3600 + int ?m * 60" 
  proof -
    have i: "int ?h = k div 60 mod 24" "int ?m = k mod 60" by simp_all
    have "k * 60 = k div 1440 * 86400 + (k div 60 mod 24) * 3600 + (k mod 60) * 60"
    proof -
      have "k div 1440 = k div 60 div 24" using zdiv_zmult2_eq [of 24 k 60] by simp
      then show ?thesis
        using mult_div_mod_eq [of 60 k] mult_div_mod_eq [of 24 "k div 60"] by linarith
    qed
    then show ?thesis unfolding d i .
  qed
  ultimately have "matchesDay s (day_of t)" "k * 60 \<in> set (run_times s (day_of t))"
    unfolding run_times_set by blast+
  moreover have "t = (k * 60) * seconds" unfolding t by simp
  ultimately show "matchesDay s (day_of t) \<and> t \<in> (\<lambda>w. w * seconds) ` set (run_times s (day_of t))"
    by blast
next
  assume a: "matchesDay s (day_of t) \<and> t \<in> (\<lambda>w. w * seconds) ` set (run_times s (day_of t))"
  then obtain w where w: "w \<in> set (run_times s (day_of t))" "t = w * seconds" by blast
  then obtain h m where hm: "h < 24" "m < 60" "bit (sc_hours s) h" "bit (sc_minutes s) m"
    "t = (day_of t * 86400 + int h * 3600 + int m * 60) * seconds"
    unfolding run_times_set by blast
  define n where "n = day_of t"
  have t: "t = (int m + 60 * (int h + 24 * n)) * minutes" using hm(5) unfolding n_def by simp
  have m: "t div minutes = int m + 60 * (int h + 24 * n)" "t mod minutes = 0" unfolding t by simp_all
  have "t div hours = (t div minutes) div 60" by (simp add: zdiv_zmult2_eq [symmetric])
  then have h: "t div hours = int h + 24 * n" unfolding m using hm(2) by simp
  have "minute_of t = m" "hour_of t = h"
    using hm(1,2) unfolding minute_of_def hour_of_def m(1) h mod_mult_self2 by simp_all
  then show "is_run s t" using a hm m(2) by (simp add: is_run_def)
qed


text \<open>Where the first run of a search lies.\<close>

lemma find_first_sorted:
  assumes "sorted ts" "List.find (\<lambda>t. after < t) ts = Some (t::int)"
  shows "t \<in> set ts \<and> after < t \<and> (\<forall>u\<in>set ts. after < u \<longrightarrow> t \<le> u)"
  using assms by (induction ts) (auto split: if_splits)

lemma find_none: "List.find P xs = None \<Longrightarrow> x \<in> set xs \<Longrightarrow> \<not> P x"
  by (auto simp: find_None_iff)

lemma search_days_utc:
  "(case search_days n s day after utc of
      Some t \<Rightarrow> is_run s t \<and> after < t \<and> day \<le> day_of t
        \<and> (\<forall>u. after < u \<and> u < t \<and> day \<le> day_of u \<longrightarrow> \<not> is_run s u)
    | None \<Rightarrow> \<forall>u. after < u \<and> day \<le> day_of u \<and> day_of u < day + int n \<longrightarrow> \<not> is_run s u)"
proof (induction n arbitrary: day)
  case (Suc n)
  let ?ts = "map (go_Date utc) (run_times s day)"
  have ts: "set ?ts = (\<lambda>w. w * seconds) ` set (run_times s day)"
    by (auto simp: go_Date_utc)
  have day_ts: "day_of u = day" if "u \<in> set ?ts" for u
    using that run_times_day unfolding ts by (auto simp: day_of_def)
  have is_run_day: "is_run s u \<longleftrightarrow> matchesDay s day \<and> u \<in> set ?ts" if "day_of u = day" for u
    using that unfolding ts is_run_iff by simp
  have sorted: "sorted ?ts"
    using run_times_sorted [of s day] by (auto simp: sorted_map go_Date_utc sorted_wrt_iff_nth_less)
  show ?case
  proof (cases "matchesDay s day \<and> firstRunOn s day after utc \<noteq> None")
    case True
    then obtain t where t: "firstRunOn s day after utc = Some t" by blast
    note ft = find_first_sorted [OF sorted t [unfolded firstRunOn_def]]
    have dt: "day_of t = day" using ft day_ts by blast
    have "\<not> is_run s u" if u: "after < u" "u < t" "day \<le> day_of u" for u
    proof -
      have "day_of u \<le> day_of t" using u(2) by (simp add: day_of_def zdiv_mono1)
      then have "day_of u = day" using dt u(3) by simp
      then show ?thesis using is_run_day ft u by force
    qed
    then show ?thesis using True t ft dt is_run_day [OF dt] by simp
  next
    case False
    then have s: "search_days (Suc n) s day after utc = search_days n s (day + 1) after utc" by auto
    have no: "\<not> is_run s u" if u: "after < u" "day_of u = day" for u
    proof
      assume "is_run s u"
      then have "matchesDay s day" "u \<in> set ?ts" using is_run_day u by auto
      then show False using False u(1) find_none [of "\<lambda>t. after < t" ?ts u] by (auto simp: firstRunOn_def)
    qed
    have "day = day_of u \<or> day + 1 \<le> day_of u" if "day \<le> day_of u" for u using that by linarith
    then show ?thesis using Suc.IH [of "day + 1"] no unfolding s
      by (auto split: option.splits) (metis add.commute add.left_commute)+
  qed
qed auto

section \<open>Properties\<close>

text \<open>The first time the loops find.\<close>

lemma next_finds_first:
  assumes "zero_time \<le> after"
  shows "(Next s after utc \<noteq> zero_time \<longrightarrow>
        is_run s (Next s after utc) \<and> after < Next s after utc
        \<and> (\<forall>u. after < u \<and> u < Next s after utc \<longrightarrow> \<not> is_run s u))
    \<and> (Next s after utc = zero_time \<longrightarrow>
        (\<forall>u. after < u \<and> day_of u < day_of after + 2927 \<longrightarrow> \<not> is_run s u))"
proof -
  have le: "day_of after - 1 \<le> day_of u" if "after < u" for u
    using that zdiv_mono1 [of after u "86400 * seconds"] by (simp add: day_of_def)
  show ?thesis
  proof (cases "search_days maxSearchDays s (day_of after - 1) after utc")
    case None
    then show ?thesis
      using search_days_utc [where n = maxSearchDays and s = s and day = "day_of after - 1" and after = after] le
      by (simp add: Next_def local_day_utc maxSearchDays_def)
  next
    case (Some t)
    then have "is_run s t \<and> after < t \<and> (\<forall>u. after < u \<and> u < t \<longrightarrow> \<not> is_run s u)"
      using search_days_utc [where n = maxSearchDays and s = s and day = "day_of after - 1" and after = after] le by auto
    then show ?thesis using Some assms by (auto simp: Next_def local_day_utc)
  qed
qed

text \<open>C12: On the UTC clock, for a schedule whose day fields are not stepped stars, \<open>Next\<close> is the first run
  of standard cron after the given time: its result, when not the zero time, is a minute that all
  five masks select by Vixie's rule for the two day fields, lies strictly after the given time and
  has no such minute between, and the zero time means that there is none in the eight years
  searched.  A stepped star in a day field is taken for every day (\<open>starred_step_ignored\<close>).\<close>

theorem next_is_first_run:
  assumes "zero_time \<le> after" "whole_stars s"
  shows "(Next s after utc \<noteq> zero_time \<longrightarrow>
        cron_run s (Next s after utc) \<and> after < Next s after utc
        \<and> (\<forall>u. after < u \<and> u < Next s after utc \<longrightarrow> \<not> cron_run s u))
    \<and> (Next s after utc = zero_time \<longrightarrow>
        (\<forall>u. after < u \<and> day_of u < day_of after + 2927 \<longrightarrow> \<not> cron_run s u))"
  using next_finds_first [OF assms(1), of s] by (simp only: is_run_cron [OF assms(2)])

definition every_minute :: schedule where
  "every_minute = \<lparr>sc_expr = ''* * * * *'', sc_minutes = -1, sc_hours = -1, sc_dom = -1,
     sc_months = -1, sc_dow = -1, sc_domAny = True, sc_dowAny = True\<rparr>"

lemma all_ones_test: "0 \<le> v \<Longrightarrow> v < 64 \<Longrightarrow> (-1 :: 64 word) AND shl1 v \<noteq> 0"
  by (simp only: test_bit) (simp add: bit_minus_1_iff)

text \<open>In every time zone, whatever its transitions, \<open>Next\<close> makes progress: a result that
  is not the zero time lies strictly after the given time and is the instant of a wall clock
  reading whose day, hour and minute the schedule selects.\<close>

theorem next_makes_progress:
  assumes "Next s after z \<noteq> zero_time"
  shows "after < Next s after z
    \<and> (\<exists>day w. matchesDay s day \<and> w \<in> set (run_times s day) \<and> Next s after z = go_Date z w)"
proof -
  have *: "search_days n s day after z = Some t \<Longrightarrow> after < t
      \<and> (\<exists>day w. matchesDay s day \<and> w \<in> set (run_times s day) \<and> t = go_Date z w)" for n day t
  proof (induction n arbitrary: day)
    case (Suc n)
    show ?case
    proof (cases "matchesDay s day \<and> firstRunOn s day after z \<noteq> None")
      case True
      then have "firstRunOn s day after z = Some t" using Suc.prems by auto
      then have "t \<in> set (map (go_Date z) (run_times s day)) \<and> after < t"
        unfolding firstRunOn_def by (rule find_SomeD)
      then show ?thesis using True by auto
    next
      case False
      then show ?thesis using Suc by (auto split: if_splits option.splits)
    qed
  qed simp
  show ?thesis using assms * by (auto simp: Next_def split: option.splits)
qed

definition amsterdam_2027 :: zone where
  "amsterdam_2027 = \<lparr>zn_initial = 3600, zn_trans = [(1806195600, 7200), (1824944400, 3600)]\<rparr>"

definition new_york_2026 :: zone where
  "new_york_2026 = \<lparr>zn_initial = -18000, zn_trans = [(1772953200, -14400), (1793512800, -18000)]\<rparr>"

definition half_past_two :: schedule where
  "half_past_two = \<lparr>sc_expr = ''30 2 * * *'', sc_minutes = push_bit 30 1, sc_hours = push_bit 2 1,
     sc_dom = 4294967294, sc_months = 8190, sc_dow = 127, sc_domAny = True, sc_dowAny = True\<rparr>"

lemma half_past_two_times: "run_times half_past_two day = [day * 86400 + 9000]"
proof -
  have b: "filter (bit (push_bit k 1 :: 64 word)) [0..<n] = filter (\<lambda>i. i = k) [0..<n]" if "k < 64" "n \<le> 64" for k n
    using that by (intro filter_cong) (auto simp: bit_exp_iff)
  have f: "filter (\<lambda>i. i = 2) [0..<24] = [2::nat]" "filter (\<lambda>i. i = 30) [0..<60] = [30::nat]"
    by code_simp+
  have h: "sc_hours half_past_two = push_bit 2 1" "sc_minutes half_past_two = push_bit 30 1"
    by (simp_all add: half_past_two_def)
  have "filter (bit (sc_hours half_past_two)) [0..<24] = [2]"
    "filter (bit (sc_minutes half_past_two)) [0..<60] = [30]"
    unfolding h using b [of 2 24] b [of 30 60] f by simp_all
  then show ?thesis unfolding run_times_def trailing_zeros_filter filter_minutes by simp
qed

lemma search_days_step: "0 < n \<Longrightarrow> search_days n s day after z =
     (if \<not> matchesDay s day then search_days (n - 1) s (day + 1) after z
      else case firstRunOn s day after z of
        Some t \<Rightarrow> Some t
      | None \<Rightarrow> search_days (n - 1) s (day + 1) after z)"
  by (cases n) (auto split: option.splits)

lemma half_past_two_days: "list_all (matchesDay half_past_two) [20519, 20520, 20904, 20905]"
  by code_simp

lemma half_past_two_epoch: "list_all (matchesDay half_past_two) [-1, 0]"
  by code_simp

lemma half_past_two_stars: "whole_stars half_past_two"
  by code_simp

theorem next_is_first_run_witness:
  "\<exists>t. Next half_past_two 0 utc = t \<and> cron_run half_past_two t \<and> 0 < t
     \<and> \<not> cron_run half_past_two (9000 * seconds - 1)"
proof -
  have n: "Next half_past_two 0 utc = 9000 * seconds"
    using half_past_two_epoch
    by (simp add: Next_def maxSearchDays_def local_day_utc day_of_def search_days_step firstRunOn_def
        half_past_two_times go_Date_utc zero_time_def)
  have "9000 * seconds \<noteq> zero_time" by (simp add: zero_time_def)
  then show ?thesis
    using next_is_first_run [of 0 half_past_two, OF _ half_past_two_stars] unfolding n by (simp add: zero_time_def)
qed

theorem next_makes_progress_witness:
  "1772946000 * seconds < Next half_past_two (1772946000 * seconds) new_york_2026"
proof -
  have "Next half_past_two (1772946000 * seconds) new_york_2026 \<noteq> zero_time"
    using half_past_two_days
    by (simp add: Next_def maxSearchDays_def local_day_def zone_offset_def zone_lookup_def
        new_york_2026_def search_days_step firstRunOn_def half_past_two_times go_Date_def zero_time_def)
  then show ?thesis by (rule conjunct1 [OF next_makes_progress])
qed

text \<open>What a skipped wall clock time becomes depends on the side of Greenwich: at the spring
  transition the schedule \<open>30 2 * * *\<close> runs at 03:30 summer time in Amsterdam, an hour late,
  and at 01:30 winter time in New York, an hour early, before the clock reaches two.\<close>

theorem skipped_hour_direction:
  "Next half_past_two (1806188400 * seconds) amsterdam_2027 = 1806197400 * seconds
    \<and> zone_offset amsterdam_2027 1806197400 = 7200
    \<and> Next half_past_two (1772946000 * seconds) new_york_2026 = 1772951400 * seconds
    \<and> zone_offset new_york_2026 1772951400 = -18000"
  using half_past_two_days
  by (intro conjI; simp add: Next_def maxSearchDays_def local_day_def zone_offset_def zone_lookup_def
      amsterdam_2027_def new_york_2026_def search_days_step firstRunOn_def half_past_two_times go_Date_def)

section \<open>Parsing returns, and what it accepts\<close>

definition spec_legal :: "fieldSpec \<Rightarrow> bool" where
  "spec_legal spec \<longleftrightarrow> 0 \<le> fs_min spec \<and> fs_max spec < 64
     \<and> list_all (\<lambda>(n, v). fs_min spec \<le> v \<and> v \<le> fs_max spec) (fs_names spec)"

lemma specs_legal: "list_all spec_legal [minuteSpec, hourSpec, domSpec, monthSpec, dowSpec]"
  by (simp add: spec_legal_def minuteSpec_def hourSpec_def domSpec_def monthSpec_def dowSpec_def)

lemma parseValue_range:
  "spec_legal spec \<Longrightarrow> parseValue txt spec = Inr v \<Longrightarrow> fs_min spec \<le> v \<and> v \<le> fs_max spec"
  by (auto simp: parseValue_def spec_legal_def list_all_iff dest!: map_of_SomeD
      split: option.splits if_splits)

lemma part_bounds_range:
  "spec_legal spec \<Longrightarrow> part_bounds r hs spec = Inr (lo, hi) \<Longrightarrow> 0 \<le> lo \<and> hi \<le> fs_max spec"
  by (auto simp: part_bounds_def spec_legal_def dest!: parseValue_range [unfolded spec_legal_def, rotated]
      split: if_splits sum.splits prod.splits)

lemma part_step_range: "part_step hs st spec = Inr n \<Longrightarrow> 0 < n \<and> n \<le> int64_max"
  by (auto simp: part_step_def parse_int_def Let_def split: if_splits option.splits)

text \<open>A parser ends well when it returns, with an error or with a value that satisfies \<open>Q\<close>.\<close>

definition ends_well :: "('a \<Rightarrow> bool) \<Rightarrow> 'a parsed \<Rightarrow> bool" where
  "ends_well Q p \<longleftrightarrow> (\<exists>r. p = Some r \<and> (\<forall>x. r = Inr x \<longrightarrow> Q x))"

lemma ends_well_and_then:
  assumes "ends_well P p" "\<And>x. P x \<Longrightarrow> ends_well Q (f x)"
  shows "ends_well Q (and_then p f)"
  using assms by (auto simp: ends_well_def and_then_def split: sum.splits option.splits)

lemma ends_well_mono: "ends_well P p \<Longrightarrow> (\<And>x. P x \<Longrightarrow> Q x) \<Longrightarrow> ends_well Q p"
  by (auto simp: ends_well_def)

lemma ends_well_return: "(\<And>x. r = Inr x \<Longrightarrow> Q x) \<Longrightarrow> ends_well Q (Some r)"
  by (simp add: ends_well_def)

definition bits_upto :: "int \<Rightarrow> 64 word \<Rightarrow> bool" where
  "bits_upto hi b \<longleftrightarrow> (\<forall>n<64. bit b n \<longrightarrow> int n \<le> hi)"

lemma part_loop_ends_well:
  assumes "0 \<le> lo" "hi < 64" "0 < n" "n \<le> int64_max"
  shows "ends_well (bits_upto hi) (map_option Inr (part_loop lo hi n 0))"
proof (cases "lo < 64")
  case True
  then obtain m where "part_loop lo hi n 0 = Some m" using part_loop_returns [of lo hi n 0] assms by auto
  then show ?thesis using part_loop_bits by (force simp: ends_well_def bits_upto_def)
next
  case False
  then show ?thesis using assms by (subst part_loop.simps) (simp add: ends_well_def bits_upto_def)
qed

lemma parsePart_ends_well:
  assumes "spec_legal spec"
  shows "ends_well (bits_upto (fs_max spec)) (parsePart part spec)"
proof -
  obtain rp st hs where c: "cut CHR ''/'' part = (rp, st, hs)" by (metis prod_cases3)
  have "ends_well (bits_upto (fs_max spec)) (map_option Inr (part_loop lo hi n 0))"
    if "part_step hs st spec = Inr n" "part_bounds rp hs spec = Inr (lo, hi)" for n lo hi
  proof (rule ends_well_mono)
    have hi: "hi \<le> fs_max spec" "0 \<le> lo" using part_bounds_range [OF assms that(2)] by auto
    then show "ends_well (bits_upto hi) (map_option Inr (part_loop lo hi n 0))"
      using part_step_range [OF that(1)] assms by (intro part_loop_ends_well) (auto simp: spec_legal_def)
    show "bits_upto hi x \<Longrightarrow> bits_upto (fs_max spec) x" for x using hi by (force simp: bits_upto_def)
  qed
  then show ?thesis unfolding parsePart_def c prod.case
    by (intro ends_well_and_then [OF ends_well_return [of _ "\<lambda>n. part_step hs st spec = Inr n"]]
        ends_well_and_then [OF ends_well_return [of _ "\<lambda>q. part_bounds rp hs spec = Inr q"]]) auto
qed

lemma parts_loop_ends_well:
  assumes "spec_legal spec"
  shows "bits_upto (fs_max spec) bs \<Longrightarrow> ends_well (bits_upto (fs_max spec)) (parts_loop ps spec bs)"
proof (induction ps arbitrary: bs)
  case (Cons p ps)
  show ?case unfolding parts_loop.simps
    by (rule ends_well_and_then [OF parsePart_ends_well [OF assms]], rule Cons.IH)
      (use Cons.prems in \<open>auto simp: bits_upto_def bit_or_iff\<close>)
qed (simp add: ends_well_def)

lemma parseField_ends_well:
  assumes "spec_legal spec"
  shows "ends_well (\<lambda>(b, star). bits_upto (fs_max spec) b) (parseField f spec)"
  unfolding parseField_def
  by (rule ends_well_and_then [OF parts_loop_ends_well [OF assms]])
    (simp_all add: bits_upto_def ends_well_def)

text \<open>What a schedule's masks may hold.\<close>

definition masks_in_range :: "schedule \<Rightarrow> bool" where
  "masks_in_range s \<longleftrightarrow> (\<forall>n<64. (bit (sc_minutes s) n \<longrightarrow> n < 60) \<and> (bit (sc_hours s) n \<longrightarrow> n < 24)
     \<and> (bit (sc_dom s) n \<longrightarrow> n < 32) \<and> (bit (sc_months s) n \<longrightarrow> n < 13) \<and> (bit (sc_dow s) n \<longrightarrow> n < 7))"

lemma sunday_bit_range:
  "bits_upto 7 w \<Longrightarrow> n < 64 \<Longrightarrow> bit (sunday_bit w) n \<Longrightarrow> n < 7"
proof -
  assume "bits_upto 7 w"
  then have a1: "\<forall>n<64. bit w n \<longrightarrow> int n \<le> 7" by (simp add: bits_upto_def)
  assume a: "n < 64" "bit (sunday_bit w) n"
  have p: "(push_bit 7 1 :: 64 word) = shl1 7" by (simp only: shl1_def) simp
  have t: "w AND shl1 7 \<noteq> 0 \<longleftrightarrow> bit w 7" using test_bit [of 7 w] by simp
  show "n < 7"
  proof (cases "bit w 7")
    case True
    then have "bit (sunday_bit w) n \<longleftrightarrow> bit w n \<and> n \<noteq> 7 \<or> n = 0"
      using a(1) t unfolding sunday_bit_def p
      by (auto simp: bit_or_iff bit_and_iff bit_not_iff bit_shl1 bit_1_iff)
    with a(2) have "n = 0 \<or> bit w n \<and> n \<noteq> 7" by auto
    then show ?thesis using a1 a by fastforce
  next
    case False
    then have "sunday_bit w = w" using t unfolding sunday_bit_def p by simp
    then have "bit w n" "n \<noteq> 7" using a(2) False by auto
    then show ?thesis using a1 a by fastforce
  qed
qed

lemma accepted_schedule:
  assumes "Next s probe_time utc \<noteq> zero_time"
  shows "probe_time < Next s probe_time utc \<and> is_run s (Next s probe_time utc)"
  using assms search_days_utc [where n = maxSearchDays and s = s and after = probe_time
      and day = "local_day utc probe_time - 1"]
  by (auto simp: Next_def split: option.splits)

lemma schedule_masks:
  assumes "bits_upto 59 mi" "bits_upto 23 ho" "bits_upto 31 dm" "bits_upto 12 mo" "bits_upto 7 dw"
  shows "masks_in_range \<lparr>sc_expr = e, sc_minutes = mi, sc_hours = ho, sc_dom = dm, sc_months = mo,
    sc_dow = sunday_bit dw, sc_domAny = a, sc_dowAny = b\<rparr>"
  using assms(1-4) sunday_bit_range [OF assms(5)] by (force simp: masks_in_range_def bits_upto_def)

text \<open>Parsing returns for every string, and a schedule it accepts selects only minutes up to
  59, hours up to 23, days of the month up to 31, months up to 12 and days of the week up to 6
  (Sunday written as 7 has become 0), and it has a run after the start of the year 2000.\<close>

theorem parse_total_and_sound:
  "\<exists>r. Parse expr = Some r \<and> (\<forall>s. r = Inr s \<longrightarrow> masks_in_range s
    \<and> probe_time < Next s probe_time utc \<and> is_run s (Next s probe_time utc))"
proof (cases "\<exists>f0 f1 f2 f3 f4. GoStrings.fields expr = [f0, f1, f2, f3, f4]")
  case True
  then obtain f0 f1 f2 f3 f4 where f: "GoStrings.fields expr = [f0, f1, f2, f3, f4]" by blast
  have legal: "spec_legal minuteSpec" "spec_legal hourSpec" "spec_legal domSpec" "spec_legal monthSpec"
    "spec_legal dowSpec" using specs_legal by simp_all
  note mx = minuteSpec_def hourSpec_def domSpec_def monthSpec_def dowSpec_def fieldSpec.simps
  have "ends_well (\<lambda>s. masks_in_range s \<and> probe_time < Next s probe_time utc
      \<and> is_run s (Next s probe_time utc)) (Parse expr)"
    unfolding Parse_def f list.case
    by (rule ends_well_and_then [OF parseField_ends_well [OF legal(1)]], clarify,
        rule ends_well_and_then [OF parseField_ends_well [OF legal(2)]], clarify,
        rule ends_well_and_then [OF parseField_ends_well [OF legal(3)]], clarify,
        rule ends_well_and_then [OF parseField_ends_well [OF legal(4)]], clarify,
        rule ends_well_and_then [OF parseField_ends_well [OF legal(5)]], clarify)
      (auto simp: Let_def mx intro!: ends_well_return schedule_masks accepted_schedule)
  then show ?thesis by (simp add: ends_well_def)
next
  case False
  then show ?thesis by (auto simp: Parse_def split: list.splits)
qed

lemma daily_accepted: "\<exists>s. Parse ''30 2 1 1 6'' = Some (Inr s)"
proof -
  have "case Parse ''30 2 1 1 6'' of Some (Inr s) \<Rightarrow> True | _ \<Rightarrow> False" by code_simp
  then show ?thesis by (auto split: option.splits sum.splits)
qed

theorem parse_total_and_sound_witness:
  "\<exists>s. Parse ''30 2 1 1 6'' = Some (Inr s) \<and> masks_in_range s \<and> is_run s (Next s probe_time utc)"
  using parse_total_and_sound [of "''30 2 1 1 6''"] daily_accepted by auto

text \<open>A field part \<open>r/n\<close> with a step up to \<open>2^62\<close> selects exactly the values of its
  range that lie a whole number of steps above the lower bound.\<close>

theorem part_selects_steps:
  assumes "spec_legal spec" "cut CHR ''/'' part = (rp, st, hs)"
    and "part_step hs st spec = Inr n" "n \<le> 4611686018427387904"
    and "part_bounds rp hs spec = Inr (lo, hi)"
  shows "\<exists>b. parsePart part spec = Some (Inr b)
    \<and> (\<forall>v<64. bit b v \<longleftrightarrow> lo \<le> int v \<and> int v \<le> hi \<and> n dvd (int v - lo))"
  using part_loop_exact [of lo hi n 0] part_step_range [OF assms(3)] part_bounds_range [OF assms(1,5)] assms
  by (auto simp: parsePart_def and_then_def spec_legal_def)

theorem part_selects_steps_witness:
  "\<exists>b. parsePart ''*/15'' minuteSpec = Some (Inr b) \<and> bit b 30 \<and> \<not> bit b 31 \<and> \<not> bit b 60"
proof -
  have "\<exists>b. parsePart ''*/15'' minuteSpec = Some (Inr b)
    \<and> (\<forall>v<64. bit b v \<longleftrightarrow> 0 \<le> int v \<and> int v \<le> 59 \<and> 15 dvd (int v - 0))"
    by (rule part_selects_steps [where rp = "''*''" and st = "''15''" and hs = True])
      (use specs_legal in \<open>simp_all add: cut_def part_step_def parse_int_def digit_val_def part_bounds_def
        minuteSpec_def\<close>)
  then show ?thesis by auto
qed

text \<open>A step near the 64-bit limit makes the loop's sum wrap around and select values below
  the lower bound: minute \<open>2/9223372036854775807\<close>, which should select minute 2 only, also
  selects minute 0.\<close>

theorem huge_step_wraps:
  "parsePart ''2/9223372036854775807'' minuteSpec = Some (Inr (shl1 2 OR shl1 0))"
proof -
  have "part_loop 2 59 int64_max 0 = Some (shl1 2 OR shl1 0)"
    by (simp add: part_loop.simps [of 2] part_loop.simps [of "- 9223372036854775807"]
        part_loop.simps [of 0] part_loop.simps [of int64_max] wrap64_def shl1_def)
  then show ?thesis
    by (simp add: parsePart_def and_then_def cut_def part_step_def parse_int_def digit_val_def
        part_bounds_def parseValue_def minuteSpec_def)
qed

section \<open>Stars with and without a step\<close>

text \<open>The mask of a plain star holds every day, as \<open>whole_stars\<close> asks.\<close>

lemma plain_star:
  assumes "parseField ''*'' spec = Some (Inr (b, star))"
  shows "spec = domSpec \<Longrightarrow> list_all (bit b) [1..<32]" "spec = dowSpec \<Longrightarrow> list_all (bit b) [0..<8]"
proof -
  have d: "case parseField ''*'' domSpec of Some (Inr (b, star)) \<Rightarrow> list_all (bit b) [1..<32] | _ \<Rightarrow> True" by code_simp
  have w: "case parseField ''*'' dowSpec of Some (Inr (b, star)) \<Rightarrow> list_all (bit b) [0..<8] | _ \<Rightarrow> True" by code_simp
  show "spec = domSpec \<Longrightarrow> list_all (bit b) [1..<32]" using d assms by simp
  show "spec = dowSpec \<Longrightarrow> list_all (bit b) [0..<8]" using w assms by simp
qed

text \<open>A stepped star in a day field is taken for every day: \<open>0 0 */2 * *\<close> parses, the mask of its day
  field leaves out the second of the month, and yet every day matches and the first run after the
  start of 1970 is on the second of January.\<close>

theorem starred_step_ignored:
  "\<exists>s. Parse ''0 0 */2 * *'' = Some (Inr s) \<and> \<not> bit (sc_dom s) 2
     \<and> matchesDay s 1 \<and> \<not> standard_day s 1 \<and> Next s 0 utc = 86400 * seconds"
proof -
  have "case Parse ''0 0 */2 * *'' of Some (Inr s) \<Rightarrow> \<not> bit (sc_dom s) 2 \<and> sc_domAny s \<and> sc_dowAny s
      \<and> sc_months s = 8190 \<and> sc_hours s = 1 \<and> sc_minutes s = 1 | _ \<Rightarrow> False" by code_simp
  then obtain s where p: "Parse ''0 0 */2 * *'' = Some (Inr s)" and b: "\<not> bit (sc_dom s) 2"
    and star: "sc_domAny s" "sc_dowAny s" and m: "sc_months s = 8190" "sc_hours s = 1" "sc_minutes s = 1"
    by (auto split: option.splits sum.splits)
  have "(8190 :: 64 word) AND shl1 12 \<noteq> 0 \<and> (8190 :: 64 word) AND shl1 1 \<noteq> 0" by code_simp
  moreover have "Month (-1) = 12" "Month 0 = 1" "Month 1 = 1" by code_simp+
  ultimately have match: "matchesDay s (-1)" "matchesDay s 0" "matchesDay s 1"
    using star m(1) by (simp_all add: matchesDay_def)
  have "Day 1 = 2" by code_simp
  then have "\<not> standard_day s 1" using b star by (simp add: standard_day_def Let_def)
  moreover have "Next s 0 utc = 86400 * seconds"
  proof -
    have "filter (bit (1 :: 64 word)) [0..<24] = [0]" "filter (bit (1 :: 64 word)) [0..<60] = [0]"
      by code_simp+
    then have f: "filter (bit (sc_hours s)) [0..<24] = [0]" "filter (bit (sc_minutes s)) [0..<60] = [0]"
      by (simp_all add: m)
    have "run_times s day = [day * 86400]" for day
      unfolding run_times_def trailing_zeros_filter filter_minutes f by simp
    then show ?thesis
      using match by (simp add: Next_def maxSearchDays_def local_day_utc day_of_def search_days_step firstRunOn_def go_Date_utc)
  qed
  ultimately show ?thesis using p b match(3) by blast
qed

end
