(* ===== verification/Monitors.thy ===== *)
theory Monitors
  imports CronExpr Errors
begin

text \<open>
  Check-in monitors: the \<open>Monitor\<close> type of \<open>internal/domain/types.go\<close>, the check-in
  transaction of \<open>internal/storage/monitors.go\<close>, and the check-in service of
  \<open>internal/service/monitors/service.go\<close>.

  The table is the list of its rows.  A row keeps whole seconds of interval and grace; times
  are kept exactly.  The zone database and the reporter (an interface in the code) are
  arguments, and so is the outcome of each database statement.
\<close>

section \<open>A monitor\<close>

definition MonitorStateOK :: string where "MonitorStateOK = ''ok''"
definition MonitorStateMissed :: string where "MonitorStateMissed = ''missed''"
definition MonitorStateError :: string where "MonitorStateError = ''error''"
definition CheckInOK :: string where "CheckInOK = ''ok''"
definition CheckInError :: string where "CheckInError = ''error''"

lemmas monitor_states [simp] = MonitorStateOK_def MonitorStateMissed_def MonitorStateError_def
  CheckInOK_def CheckInError_def

record monitor =
  mo_id :: int
  mo_projectID :: int
  mo_projectSlug :: string
  mo_slug :: string
  mo_interval :: duration
  mo_grace :: duration
  mo_schedule :: string
  mo_timezone :: string
  mo_enabled :: bool
  mo_createdAt :: time
  mo_lastCheckIn :: time
  mo_lastStatus :: string
  mo_state :: string
  mo_stateSince :: time
  mo_lastEmitted :: time

type_synonym zones = "string \<Rightarrow> zone option"

definition Location :: "zones \<Rightarrow> monitor \<Rightarrow> zone" where
  "Location zones m = (if mo_timezone m = [] then utc
     else case zones (mo_timezone m) of None \<Rightarrow> utc | Some z \<Rightarrow> z)"

definition NextDue :: "zones \<Rightarrow> monitor \<Rightarrow> time" where
  "NextDue zones m =
     (let base = (if mo_lastCheckIn m = zero_time then mo_createdAt m else mo_lastCheckIn m);
          by_interval = base + wrap64 (mo_interval m + mo_grace m)
      in if mo_schedule m = [] then by_interval
         else case Parse (mo_schedule m) of
           Some (Inr s) \<Rightarrow>
             (let n = Next s base (Location zones m)
              in if n = zero_time then by_interval else n + mo_grace m)
         | _ \<Rightarrow> by_interval)"

definition MonitorReportRepeat :: duration where "MonitorReportRepeat = 24 * hours"

definition NeedsReport :: "monitor \<Rightarrow> time \<Rightarrow> bool" where
  "NeedsReport m now =
     (if mo_state m = MonitorStateOK then False
      else mo_lastEmitted m < mo_stateSince m \<or> time_sub now (mo_lastEmitted m) \<ge> MonitorReportRepeat)"

section \<open>The check-in transaction\<close>

definition MaxMonitorsPerProject :: nat where "MaxMonitorsPerProject = 100"

record check_in =
  ci_projectID :: int
  ci_slug :: string
  ci_status :: string
  ci_interval :: "duration option"
  ci_grace :: "duration option"
  ci_schedule :: "string option"
  ci_timezone :: "string option"
  ci_at :: time

record check_in_result =
  cr_monitor :: monitor
  cr_created :: bool
  cr_previous :: string

text \<open>The outcome of the statements of one transaction; \<open>None\<close> is success.\<close>

record tx_faults =
  tf_begin :: "db_error option"
  tf_load :: "db_error option"
  tf_count :: "db_error option"
  tf_write :: "db_error option"
  tf_commit :: "db_error option"

definition whole_seconds :: "duration \<Rightarrow> duration" where
  "whole_seconds d = go_div d seconds * seconds"

definition applyTimings :: "monitor \<Rightarrow> check_in \<Rightarrow> app_error + monitor" where
  "applyTimings m i =
     (case (case ci_interval i of
              Some d \<Rightarrow> Inr (m\<lparr>mo_interval := d, mo_schedule := [], mo_timezone := []\<rparr>)
            | None \<Rightarrow>
                (case ci_schedule i of
                   Some s \<Rightarrow> Inr (m\<lparr>mo_interval := 0, mo_schedule := s,
                     mo_timezone := (case ci_timezone i of Some z \<Rightarrow> z | None \<Rightarrow> mo_timezone m)\<rparr>)
                 | None \<Rightarrow>
                     (case ci_timezone i of
                        Some z \<Rightarrow>
                          (if mo_schedule m = []
                           then Inl (InvalidInput ''timezone needs a schedule: this monitor uses an interval'')
                           else Inr (m\<lparr>mo_timezone := z\<rparr>))
                      | None \<Rightarrow> Inr m))) of
        Inl e \<Rightarrow> Inl e
      | Inr m' \<Rightarrow> Inr (case ci_grace i of Some g \<Rightarrow> m'\<lparr>mo_grace := g\<rparr> | None \<Rightarrow> m'))"

record monitor_table =
  mt_rows :: "monitor list"
  mt_nextID :: int

definition new_monitor :: "check_in \<Rightarrow> monitor" where
  "new_monitor i = \<lparr>mo_id = 0, mo_projectID = ci_projectID i, mo_projectSlug = [],
     mo_slug = ci_slug i, mo_interval = 0, mo_grace = 0, mo_schedule = [], mo_timezone = [],
     mo_enabled = True, mo_createdAt = ci_at i, mo_lastCheckIn = ci_at i,
     mo_lastStatus = ci_status i, mo_state = MonitorStateOK, mo_stateSince = zero_time,
     mo_lastEmitted = zero_time\<rparr>"

text \<open>What a row keeps of a monitor's durations.\<close>

definition stored_row :: "monitor \<Rightarrow> monitor" where
  "stored_row m = m\<lparr>mo_interval := whole_seconds (mo_interval m), mo_grace := whole_seconds (mo_grace m)\<rparr>"

definition createMonitorFromCheckIn ::
  "tx_faults \<Rightarrow> check_in \<Rightarrow> monitor_table \<Rightarrow> (app_error + check_in_result) \<times> monitor_table" where
  "createMonitorFromCheckIn F i t =
     (if ci_interval i = None \<and> ci_schedule i = None
      then (Inl (NotFound ''monitor not found: send an interval or a schedule to create it''), t)
      else case tf_count F of
        Some e \<Rightarrow> (Inl (wrapErr e ''count monitors''), t)
      | None \<Rightarrow>
          (if length (filter (\<lambda>m. mo_projectID m = ci_projectID i) (mt_rows t)) \<ge> MaxMonitorsPerProject
           then (Inl (Conflict ''monitor limit reached for this project''), t)
           else
             (case applyTimings (new_monitor i) i of
                Inl e \<Rightarrow> (Inl e, t)
              | Inr m \<Rightarrow>
                  (let m' = (if ci_status i = CheckInError
                             then m\<lparr>mo_state := MonitorStateError, mo_stateSince := ci_at i\<rparr> else m)
                   in case tf_write F of
                        Some e \<Rightarrow> (Inl (wrapErr e ''create monitor''), t)
                      | None \<Rightarrow>
                          (let m'' = m'\<lparr>mo_id := mt_nextID t\<rparr>
                           in (Inr \<lparr>cr_monitor = m'', cr_created = True, cr_previous = MonitorStateOK\<rparr>,
                               \<lparr>mt_rows = mt_rows t @ [stored_row m''],
                                mt_nextID = mt_nextID t + 1\<rparr>))))))"

definition applyMonitorCheckIn ::
  "tx_faults \<Rightarrow> check_in \<Rightarrow> monitor_table \<Rightarrow> (app_error + check_in_result) \<times> monitor_table" where
  "applyMonitorCheckIn F i t =
     (case tf_load F of
        Some e \<Rightarrow> (Inl (wrapErr e ''load monitor''), t)
      | None \<Rightarrow>
          (case List.find (\<lambda>m. mo_projectID m = ci_projectID i \<and> mo_slug m = ci_slug i) (mt_rows t) of
             None \<Rightarrow> createMonitorFromCheckIn F i t
           | Some m0 \<Rightarrow>
               (case applyTimings m0 i of
                  Inl e \<Rightarrow> (Inl e, t)
                | Inr m1 \<Rightarrow>
                    (let st = (if ci_status i = CheckInError then MonitorStateError else MonitorStateOK);
                         m2 = m1\<lparr>mo_lastCheckIn := ci_at i, mo_lastStatus := ci_status i, mo_state := st,
                                mo_stateSince := (if st \<noteq> mo_state m0 then ci_at i else mo_stateSince m0)\<rparr>
                     in case tf_write F of
                          Some e \<Rightarrow> (Inl (wrapErr e ''update monitor''), t)
                        | None \<Rightarrow>
                            (Inr \<lparr>cr_monitor = m2, cr_created = False, cr_previous = mo_state m0\<rparr>,
                             t\<lparr>mt_rows := map (\<lambda>r. if mo_id r = mo_id m2
                                then r\<lparr>mo_interval := whole_seconds (mo_interval m2),
                                       mo_grace := whole_seconds (mo_grace m2),
                                       mo_schedule := mo_schedule m2, mo_timezone := mo_timezone m2,
                                       mo_lastCheckIn := mo_lastCheckIn m2, mo_lastStatus := mo_lastStatus m2,
                                       mo_state := mo_state m2, mo_stateSince := mo_stateSince m2\<rparr>
                                else r) (mt_rows t)\<rparr>)))))"

text \<open>A transaction that is not committed leaves the table as it was.\<close>

definition RecordMonitorCheckIn ::
  "tx_faults \<Rightarrow> check_in \<Rightarrow> monitor_table \<Rightarrow> (app_error + check_in_result) \<times> monitor_table" where
  "RecordMonitorCheckIn F i t =
     (case tf_begin F of
        Some e \<Rightarrow> (Inl (wrapErr e ''begin monitor check-in''), t)
      | None \<Rightarrow>
          (case applyMonitorCheckIn F i t of
             (Inl e, _) \<Rightarrow> (Inl e, t)
           | (Inr res, t') \<Rightarrow>
               (case tf_commit F of
                  Some e \<Rightarrow> (Inl (wrapErr e ''commit monitor check-in''), t)
                | None \<Rightarrow> (Inr res, t'))))"

section \<open>The check-in service\<close>

definition MinInterval :: duration where "MinInterval = minutes"
definition MaxInterval :: duration where "MaxInterval = 31 * 24 * hours"
definition MaxMessageLen :: nat where "MaxMessageLen = 200"

record check_in_input =
  in_slug :: string
  in_status :: string
  in_message :: string
  in_interval :: "duration option"
  in_grace :: "duration option"
  in_schedule :: string
  in_timezone :: string

text \<open>\<open>^[a-z0-9][a-z0-9._-]{0,63}$\<close>\<close>

definition slug_head :: "char \<Rightarrow> bool" where
  "slug_head c = (let n = (of_char c :: nat) in 97 \<le> n \<and> n \<le> 122 \<or> 48 \<le> n \<and> n \<le> 57)"

definition slugPattern :: "string \<Rightarrow> bool" where
  "slugPattern s = (case s of [] \<Rightarrow> False
   | c # cs \<Rightarrow> slug_head c \<and> length cs \<le> 63 \<and> list_all (\<lambda>c. slug_head c \<or> c \<in> set ''._-'') cs)"

definition validateInterval :: "check_in_input \<Rightarrow> app_error option" where
  "validateInterval i = (case in_interval i of
     None \<Rightarrow> None
   | Some d \<Rightarrow>
       (if in_schedule i \<noteq> [] then Some (InvalidInput ''send an interval or a schedule, not both'')
        else if in_timezone i \<noteq> [] then Some (InvalidInput ''timezone needs a schedule, not an interval'')
        else if d < MinInterval \<or> MaxInterval < d
        then Some (InvalidInput ''interval must be between 1m and 31d'')
        else None))"

definition validateGrace :: "duration option \<Rightarrow> duration option \<Rightarrow> app_error option" where
  "validateGrace interval grace = (case grace of
     None \<Rightarrow> None
   | Some g \<Rightarrow>
       (if g < 0 then Some (InvalidInput ''grace must not be negative'')
        else if (case interval of None \<Rightarrow> False | Some d \<Rightarrow> d < g)
        then Some (InvalidInput ''grace must not exceed the interval'')
        else if MaxInterval < g then Some (InvalidInput ''grace must not exceed 31d'')
        else None))"

definition validateSchedule :: "zones \<Rightarrow> string \<Rightarrow> string \<Rightarrow> app_error option" where
  "validateSchedule zones schedule timezone =
     (if schedule \<noteq> [] \<and> (case Parse schedule of Some (Inr s) \<Rightarrow> False | _ \<Rightarrow> True) then Some (InvalidInput ''schedule'')
      else if timezone \<noteq> [] \<and> zones timezone = None
      then Some (InvalidInput ''timezone must be an IANA name'')
      else None)"

definition validateTimings :: "zones \<Rightarrow> check_in_input \<Rightarrow> app_error option" where
  "validateTimings zones i = (case validateInterval i of
     Some e \<Rightarrow> Some e
   | None \<Rightarrow> (case validateGrace (in_interval i) (in_grace i) of
       Some e \<Rightarrow> Some e
     | None \<Rightarrow> validateSchedule zones (in_schedule i) (in_timezone i)))"

definition cleanMessage :: "string \<Rightarrow> string" where
  "cleanMessage msg = (let m = trim_space msg in if length m \<le> MaxMessageLen then m else take MaxMessageLen m)"

text \<open>What the reporter was made to report.\<close>

datatype mon_report = MissedReport monitor | ErroredReport monitor string | RecoveredReport monitor time

text \<open>Outcomes by the number of the call: of the transaction, of a report, of recording it, and
  of marking and listing.\<close>

record mon_env =
  me_zones :: zones
  me_reporter :: bool
  me_project :: "int \<Rightarrow> string option"
  me_faults :: "nat \<Rightarrow> tx_faults"
  me_reportOk :: "nat \<Rightarrow> bool"
  me_emitErr :: "nat \<Rightarrow> db_error option"
  me_markErr :: "nat \<Rightarrow> db_error option"
  me_listErr :: "nat \<Rightarrow> db_error option"

record mon_world =
  mw_table :: monitor_table
  mw_reports :: "mon_report list"
  mw_step :: nat

definition tick :: "mon_world \<Rightarrow> mon_world" where "tick w = w\<lparr>mw_step := Suc (mw_step w)\<rparr>"

definition MarkMonitorEmitted :: "int \<Rightarrow> time \<Rightarrow> monitor_table \<Rightarrow> monitor_table" where
  "MarkMonitorEmitted i now t =
     t\<lparr>mt_rows := map (\<lambda>r. if mo_id r = i then r\<lparr>mo_lastEmitted := now\<rparr> else r) (mt_rows t)\<rparr>"

text \<open>One call of the reporter; a successful one for an incident is recorded on its monitor.\<close>

definition try_report :: "mon_env \<Rightarrow> mon_report \<Rightarrow> mon_world \<Rightarrow> bool \<times> mon_world" where
  "try_report E r w =
     (if me_reportOk E (mw_step w) then (True, tick (w\<lparr>mw_reports := mw_reports w @ [r]\<rparr>))
      else (False, tick w))"

definition record_emitted :: "mon_env \<Rightarrow> int \<Rightarrow> time \<Rightarrow> mon_world \<Rightarrow> mon_world" where
  "record_emitted E i now w = tick (case me_emitErr E (mw_step w) of
     Some e \<Rightarrow> w
   | None \<Rightarrow> w\<lparr>mw_table := MarkMonitorEmitted i now (mw_table w)\<rparr>)"

definition service_report :: "mon_env \<Rightarrow> time \<Rightarrow> check_in_result \<Rightarrow> string \<Rightarrow> mon_world \<Rightarrow> mon_world" where
  "service_report E now res msg w =
     (let m = cr_monitor res in
      if \<not> me_reporter E then w
      else if mo_state m = MonitorStateError \<and> NeedsReport m now then
        (case try_report E (ErroredReport m msg) w of
           (True, w1) \<Rightarrow> record_emitted E (mo_id m) now w1
         | (False, w1) \<Rightarrow> w1)
      else if mo_state m = MonitorStateOK \<and> cr_previous res \<noteq> MonitorStateOK then
        snd (try_report E (RecoveredReport m now) w)
      else w)"

text \<open>\<open>t\<close> is the time of the check-in, \<open>now\<close> that of the report that follows it.\<close>

definition CheckIn ::
  "mon_env \<Rightarrow> int \<Rightarrow> check_in_input \<Rightarrow> time \<Rightarrow> time \<Rightarrow> mon_world \<Rightarrow> (app_error + check_in_result) \<times> mon_world" where
  "CheckIn E pid i t now w =
     (if \<not> slugPattern (in_slug i)
      then (Inl (InvalidInput ''monitor slug must be 1-64 characters of a-z, 0-9, . _ or -''), w)
      else if in_status i \<noteq> CheckInOK \<and> in_status i \<noteq> CheckInError
      then (Inl (InvalidInput ''status must be ok or error''), w)
      else case validateTimings (me_zones E) i of
        Some e \<Rightarrow> (Inl e, w)
      | None \<Rightarrow>
          (let schedule = join_words (GoStrings.fields (in_schedule i));
               rec = \<lparr>ci_projectID = pid, ci_slug = in_slug i, ci_status = in_status i,
                      ci_interval = in_interval i, ci_grace = in_grace i,
                      ci_schedule = (if schedule \<noteq> [] then Some schedule else None),
                      ci_timezone = (if in_timezone i \<noteq> [] then Some (in_timezone i) else None),
                      ci_at = t\<rparr>
           in case RecordMonitorCheckIn (me_faults E (mw_step w)) rec (mw_table w) of
                (Inl e, tbl) \<Rightarrow> (Inl e, tick (w\<lparr>mw_table := tbl\<rparr>))
              | (Inr res, tbl) \<Rightarrow>
                  (Inr res, service_report E now res (cleanMessage (in_message i))
                     (tick (w\<lparr>mw_table := tbl\<rparr>)))))"

definition DeleteMonitor ::
  "mon_env \<Rightarrow> int \<Rightarrow> string \<Rightarrow> mon_world \<Rightarrow> app_error option \<times> mon_world" where
  "DeleteMonitor E pid slug w = (case me_markErr E (mw_step w) of
     Some e \<Rightarrow> (Some (wrapErr e ''delete monitor''), tick w)
   | None \<Rightarrow>
       (let hit = (\<lambda>m. mo_projectID m = pid \<and> mo_slug m = slug); t = mw_table w
        in if filter hit (mt_rows t) = [] then (Some (NotFound ''monitor not found''), tick w)
           else (None, tick (w\<lparr>mw_table := t\<lparr>mt_rows := filter (\<lambda>m. \<not> hit m) (mt_rows t)\<rparr>\<rparr>))))"

section \<open>The table's invariant\<close>

definition monitor_ok :: "monitor \<Rightarrow> bool" where
  "monitor_ok m \<longleftrightarrow> mo_state m \<in> {MonitorStateOK, MonitorStateMissed, MonitorStateError}
     \<and> 0 \<le> mo_grace m \<and> mo_grace m \<le> MaxInterval
     \<and> (mo_schedule m = [] \<longrightarrow> MinInterval \<le> mo_interval m \<and> mo_interval m \<le> MaxInterval)
     \<and> (mo_schedule m \<noteq> [] \<longrightarrow> mo_interval m = 0 \<and> (\<exists>s. Parse (mo_schedule m) = Some (Inr s)))"

definition monitor_key :: "monitor \<Rightarrow> int \<times> string" where "monitor_key m = (mo_projectID m, mo_slug m)"

definition table_ok :: "monitor_table \<Rightarrow> bool" where
  "table_ok t \<longleftrightarrow> list_all monitor_ok (mt_rows t)
     \<and> distinct (map mo_id (mt_rows t)) \<and> list_all (\<lambda>m. mo_id m < mt_nextID t) (mt_rows t)
     \<and> distinct (map monitor_key (mt_rows t))
     \<and> (\<forall>pid. length (filter (\<lambda>m. mo_projectID m = pid) (mt_rows t)) \<le> MaxMonitorsPerProject)"

text \<open>What the service checks of the timings it hands to the transaction.\<close>

definition check_in_valid :: "check_in \<Rightarrow> bool" where
  "check_in_valid i \<longleftrightarrow> (\<forall>d. ci_interval i = Some d \<longrightarrow> MinInterval \<le> d \<and> d \<le> MaxInterval)
     \<and> (\<forall>g. ci_grace i = Some g \<longrightarrow> 0 \<le> g \<and> g \<le> MaxInterval)
     \<and> (\<forall>s. ci_schedule i = Some s \<longrightarrow> s \<noteq> [] \<and> (\<exists>c. Parse s = Some (Inr c)))"

text \<open>An update of rows that keeps identity and well-formedness keeps the table's invariant.\<close>

lemma table_ok_map:
  assumes "table_ok t" "\<And>m. m \<in> set (mt_rows t) \<Longrightarrow> monitor_ok (f m)"
    and "\<And>m. mo_id (f m) = mo_id m \<and> mo_projectID (f m) = mo_projectID m \<and> mo_slug (f m) = mo_slug m"
  shows "table_ok (t\<lparr>mt_rows := map f (mt_rows t)\<rparr>)"
proof -
  have "mo_id \<circ> f = mo_id" "monitor_key \<circ> f = monitor_key"
    using assms(3) by (auto simp: monitor_key_def)
  moreover have "length (filter (\<lambda>m. mo_projectID m = pid) (map f rs)) = length (filter (\<lambda>m. mo_projectID m = pid) rs)"
    for pid rs using assms(3) by (simp add: filter_map comp_def)
  ultimately show ?thesis using assms by (auto simp: table_ok_def list_all_iff)
qed

lemma whole_seconds_bounds:
  "0 \<le> d \<Longrightarrow> 0 \<le> whole_seconds d \<and> whole_seconds d \<le> d \<and> (k * seconds \<le> d \<longrightarrow> k * seconds \<le> whole_seconds d)"
proof -
  assume d: "0 \<le> d"
  define q where "q = d div 1000000000"
  have "d = 1000000000 * q + d mod 1000000000" "0 \<le> d mod 1000000000" "d mod 1000000000 < 1000000000"
    by (simp_all add: q_def)
  moreover have "whole_seconds d = q * 1000000000" using d by (simp add: whole_seconds_def go_div_nonneg q_def)
  moreover have "0 \<le> q" using d by (simp add: q_def pos_imp_zdiv_nonneg_iff)
  moreover have "k \<le> q" if "k * seconds \<le> d" using zdiv_mono1 [OF that, of 1000000000] by (simp add: q_def)
  ultimately show ?thesis by auto
qed

lemma monitor_ok_stored:
  assumes "monitor_ok m"
  shows "monitor_ok (stored_row m)"
proof -
  have "mo_schedule m = [] \<Longrightarrow> MinInterval \<le> whole_seconds (mo_interval m) \<and> whole_seconds (mo_interval m) \<le> MaxInterval"
    using assms whole_seconds_bounds [of "mo_interval m" 60] by (auto simp: monitor_ok_def MinInterval_def)
  moreover have "0 \<le> whole_seconds (mo_grace m)" "whole_seconds (mo_grace m) \<le> MaxInterval"
    using assms whole_seconds_bounds [of "mo_grace m" 0] by (auto simp: monitor_ok_def)
  moreover have "whole_seconds 0 = 0" by (simp add: whole_seconds_def go_div_def)
  ultimately show ?thesis using assms by (auto simp: monitor_ok_def stored_row_def)
qed

lemma applyTimings_ok:
  assumes "check_in_valid i" "applyTimings m i = Inr m'"
    and "0 \<le> mo_grace m" "mo_grace m \<le> MaxInterval"
    and "monitor_ok m \<or> ci_interval i \<noteq> None \<or> ci_schedule i \<noteq> None"
    and "st \<in> {MonitorStateOK, MonitorStateMissed, MonitorStateError}"
  shows "monitor_ok (m'\<lparr>mo_state := st\<rparr>)"
  using assms
  by (auto simp: applyTimings_def check_in_valid_def monitor_ok_def split: option.splits if_splits sum.splits)

lemma applyTimings_keeps: "applyTimings m i = Inr m' \<Longrightarrow> mo_id m' = mo_id m \<and> mo_projectID m' = mo_projectID m
    \<and> mo_slug m' = mo_slug m \<and> mo_enabled m' = mo_enabled m \<and> mo_state m' = mo_state m
    \<and> mo_stateSince m' = mo_stateSince m \<and> mo_lastEmitted m' = mo_lastEmitted m"
  by (auto simp: applyTimings_def split: option.splits if_splits sum.splits)

lemma monitor_ok_cong:
  "monitor_ok m \<Longrightarrow> mo_state n = mo_state m \<Longrightarrow> mo_grace n = mo_grace m \<Longrightarrow>
    mo_interval n = mo_interval m \<Longrightarrow> mo_schedule n = mo_schedule m \<Longrightarrow> monitor_ok n"
  by (auto simp: monitor_ok_def)

lemma table_ok_append:
  assumes "table_ok t" "monitor_ok r" "mo_id r = mt_nextID t" "monitor_key r \<notin> monitor_key ` set (mt_rows t)"
    and "length (filter (\<lambda>m. mo_projectID m = mo_projectID r) (mt_rows t)) < MaxMonitorsPerProject"
  shows "table_ok \<lparr>mt_rows = mt_rows t @ [r], mt_nextID = mt_nextID t + 1\<rparr>"
  using assms by (fastforce simp: table_ok_def list_all_iff)

lemma create_table_ok:
  assumes "table_ok t" "check_in_valid i" "createMonitorFromCheckIn F i t = (Inr res, t')"
    and new: "List.find (\<lambda>m. mo_projectID m = ci_projectID i \<and> mo_slug m = ci_slug i) (mt_rows t) = None"
  shows "table_ok t'"
proof -
  obtain m where m: "applyTimings (new_monitor i) i = Inr m"
    using assms(3) by (auto simp: createMonitorFromCheckIn_def split: if_splits option.splits sum.splits)
  define m' where "m' = (if ci_status i = CheckInError
     then m\<lparr>mo_state := MonitorStateError, mo_stateSince := ci_at i\<rparr> else m)"
  have few: "length (filter (\<lambda>m. mo_projectID m = ci_projectID i) (mt_rows t)) < MaxMonitorsPerProject"
    and some: "ci_interval i \<noteq> None \<or> ci_schedule i \<noteq> None"
    and t': "t' = \<lparr>mt_rows = mt_rows t @ [stored_row (m'\<lparr>mo_id := mt_nextID t\<rparr>)], mt_nextID = mt_nextID t + 1\<rparr>"
    using assms(3) m by (auto simp: createMonitorFromCheckIn_def Let_def m'_def split: if_splits option.splits)
  have "monitor_ok (m\<lparr>mo_state := mo_state m'\<rparr>)"
    using applyTimings_ok [OF assms(2) m] some applyTimings_keeps [OF m]
    by (auto simp: MaxInterval_def new_monitor_def m'_def)
  then have "monitor_ok (stored_row (m'\<lparr>mo_id := mt_nextID t\<rparr>))"
    by (intro monitor_ok_stored, elim monitor_ok_cong) (auto simp: m'_def)
  moreover have "mo_projectID m' = ci_projectID i" "mo_slug m' = ci_slug i"
    using applyTimings_keeps [OF m] by (auto simp: new_monitor_def m'_def)
  ultimately show ?thesis unfolding t' using assms(1) few new
    by (intro table_ok_append) (auto simp: monitor_key_def find_None_iff stored_row_def)
qed

lemma check_in_table_ok:
  assumes "table_ok t" "check_in_valid i"
  shows "table_ok (snd (RecordMonitorCheckIn F i t))"
proof -
  have "table_ok t'" if a: "applyMonitorCheckIn F i t = (Inr res, t')" for res t'
  proof (cases "List.find (\<lambda>m. mo_projectID m = ci_projectID i \<and> mo_slug m = ci_slug i) (mt_rows t)")
    case None
    then show ?thesis using a create_table_ok [OF assms] by (auto simp: applyMonitorCheckIn_def split: option.splits)
  next
    case (Some m0)
    then have m0: "m0 \<in> set (mt_rows t)" using find_SomeD by fastforce
    define st where "st = (if ci_status i = CheckInError then MonitorStateError else MonitorStateOK)"
    obtain m1 where m1: "applyTimings m0 i = Inr m1"
      and t': "t' = t\<lparr>mt_rows := map (\<lambda>r. if mo_id r = mo_id m1
                                then r\<lparr>mo_interval := whole_seconds (mo_interval m1),
                                       mo_grace := whole_seconds (mo_grace m1),
                                       mo_schedule := mo_schedule m1, mo_timezone := mo_timezone m1,
                                       mo_lastCheckIn := ci_at i, mo_lastStatus := ci_status i,
                                       mo_state := st,
                                       mo_stateSince := (if st \<noteq> mo_state m0 then ci_at i else mo_stateSince m0)\<rparr>
                                else r) (mt_rows t)\<rparr>"
      using a Some by (auto simp: applyMonitorCheckIn_def Let_def st_def split: option.splits sum.splits)
    have "monitor_ok m0" using m0 assms(1) by (auto simp: table_ok_def list_all_iff)
    then have "monitor_ok (m1\<lparr>mo_state := st\<rparr>)"
      by (intro applyTimings_ok [OF assms(2) m1]) (auto simp: monitor_ok_def st_def)
    then have stored: "monitor_ok (stored_row (m1\<lparr>mo_state := st\<rparr>))" by (rule monitor_ok_stored)
    have rows: "monitor_ok m" if "m \<in> set (mt_rows t)" for m
      using assms(1) that by (auto simp: table_ok_def list_all_iff)
    show ?thesis unfolding t'
    proof (rule table_ok_map [OF assms(1)], goal_cases)
      case (1 m)
      then show ?case using rows by (auto simp: stored_row_def intro: monitor_ok_cong [OF stored])
    qed auto
  qed
  then show ?thesis using assms(1)
    by (auto simp: RecordMonitorCheckIn_def split: option.splits sum.splits prod.splits)
qed

lemma validated_check_in:
  assumes "validateTimings zones i = None"
  shows "check_in_valid \<lparr>ci_projectID = pid, ci_slug = sl, ci_status = st, ci_interval = in_interval i,
    ci_grace = in_grace i, ci_schedule = (let s = join_words (GoStrings.fields (in_schedule i)) in if s \<noteq> [] then Some s else None),
    ci_timezone = tz, ci_at = t\<rparr>"
proof -
  let ?s = "join_words (GoStrings.fields (in_schedule i))"
  have "\<exists>c. Parse ?s = Some (Inr c)" if "?s \<noteq> []"
  proof -
    have "in_schedule i \<noteq> []" using that by (auto simp: GoStrings.fields_def)
    then have "\<exists>c. Parse (in_schedule i) = Some (Inr c)"
      using assms by (auto simp: validateTimings_def validateSchedule_def split: option.splits if_splits sum.splits)
    moreover have "Parse ?s = Parse (in_schedule i)" by (simp add: Parse_def)
    ultimately show ?thesis by simp
  qed
  then show ?thesis using assms
    by (auto simp: check_in_valid_def Let_def validateTimings_def validateInterval_def validateGrace_def
        MinInterval_def MaxInterval_def split: option.splits if_splits)
qed

lemma emitted_table_ok: "table_ok t \<Longrightarrow> table_ok (MarkMonitorEmitted i now t)"
  unfolding MarkMonitorEmitted_def
  by (rule table_ok_map) (auto simp: table_ok_def list_all_iff intro: monitor_ok_cong)

lemma try_report_table [simp]: "mw_table (snd (try_report E r w)) = mw_table w"
  by (simp add: try_report_def tick_def)

lemma tick_table [simp]: "mw_table (tick w) = mw_table w"
  by (simp add: tick_def)

lemma record_emitted_ok: "table_ok (mw_table w) \<Longrightarrow> table_ok (mw_table (record_emitted E i now w))"
  by (auto simp: record_emitted_def emitted_table_ok split: option.splits)

lemma service_report_ok: "table_ok (mw_table w) \<Longrightarrow> table_ok (mw_table (service_report E now res msg w))"
proof -
  assume ok: "table_ok (mw_table w)"
  have "table_ok (mw_table (case try_report E r w of (True, w1) \<Rightarrow> record_emitted E i now w1 | (False, w1) \<Rightarrow> w1))"
    for r i
  proof -
    obtain b w1 where t: "try_report E r w = (b, w1)" by (metis surj_pair)
    then have "table_ok (mw_table w1)" using ok try_report_table [of E r w] by simp
    then show ?thesis using t record_emitted_ok by (cases b) simp_all
  qed
  then show ?thesis using ok by (simp add: service_report_def Let_def)
qed

lemma CheckIn_ok:
  assumes "table_ok (mw_table w)"
  shows "table_ok (mw_table (snd (CheckIn E pid i t now w)))"
proof (cases "slugPattern (in_slug i) \<and> (in_status i = CheckInOK \<or> in_status i = CheckInError)
    \<and> validateTimings (me_zones E) i = None")
  case True
  define rec where "rec = \<lparr>ci_projectID = pid, ci_slug = in_slug i, ci_status = in_status i,
     ci_interval = in_interval i, ci_grace = in_grace i,
     ci_schedule = (let s = join_words (GoStrings.fields (in_schedule i)) in if s \<noteq> [] then Some s else None),
     ci_timezone = (if in_timezone i \<noteq> [] then Some (in_timezone i) else None), ci_at = t\<rparr>"
  obtain r tbl where r: "RecordMonitorCheckIn (me_faults E (mw_step w)) rec (mw_table w) = (r, tbl)"
    by (metis surj_pair)
  have "check_in_valid rec" unfolding rec_def using validated_check_in True by blast
  then have tbl: "table_ok tbl"
    using check_in_table_ok [OF assms, of rec "me_faults E (mw_step w)"] r by simp
  have "snd (CheckIn E pid i t now w) = (case r of Inl e \<Rightarrow> tick (w\<lparr>mw_table := tbl\<rparr>)
      | Inr res \<Rightarrow> service_report E now res (cleanMessage (in_message i)) (tick (w\<lparr>mw_table := tbl\<rparr>)))"
    using True r unfolding rec_def by (auto simp: CheckIn_def Let_def split: sum.splits)
  then show ?thesis using tbl by (cases r) (simp_all add: service_report_ok)
next
  case False
  then show ?thesis using assms by (auto simp: CheckIn_def split: option.splits)
qed

lemma filter_table_ok: "table_ok t \<Longrightarrow> table_ok (t\<lparr>mt_rows := filter P (mt_rows t)\<rparr>)"
proof -
  assume t: "table_ok t"
  have "length (filter Q (filter P rs)) \<le> length (filter Q rs)" for Q and rs :: "monitor list"
    by (induction rs) auto
  then show ?thesis using t
    by (fastforce simp: table_ok_def list_all_iff distinct_map_filter_id intro: order_trans)
qed

lemma DeleteMonitor_ok: "table_ok (mw_table w) \<Longrightarrow> table_ok (mw_table (snd (DeleteMonitor E pid slug w)))"
  using filter_table_ok by (auto simp: DeleteMonitor_def Let_def split: option.splits)

end
