(* ===== verification/MonitorWatch.thy ===== *)
theory MonitorWatch
  imports Monitors
begin

text \<open>
  The miss detector: \<open>internal/monitorwatch/detector.go\<close> and
  \<open>internal/storage/monitors_detect.go\<close>, with the properties of monitors as a whole.

  A check lists the monitors first and treats them one by one after that; check-ins run on
  other goroutines and fall between any two of its steps.
\<close>

section \<open>The detector's statements\<close>

definition ListEnabledMonitors :: "mon_env \<Rightarrow> mon_world \<Rightarrow> monitor list" where
  "ListEnabledMonitors E w =
     map (\<lambda>m. m\<lparr>mo_projectSlug := the (me_project E (mo_projectID m))\<rparr>)
       (sort_key mo_id (filter (\<lambda>m. mo_enabled m \<and> me_project E (mo_projectID m) \<noteq> None) (mt_rows (mw_table w))))"

definition MarkMonitorMissed :: "int \<Rightarrow> time \<Rightarrow> time \<Rightarrow> monitor_table \<Rightarrow> bool \<times> monitor_table" where
  "MarkMonitorMissed i seen now t =
     (let hit = (\<lambda>r. mo_id r = i \<and> mo_state r = MonitorStateOK \<and> mo_lastCheckIn r = seen)
      in (length (filter hit (mt_rows t)) = 1,
          t\<lparr>mt_rows := map (\<lambda>r. if hit r then r\<lparr>mo_state := MonitorStateMissed, mo_stateSince := now\<rparr> else r)
             (mt_rows t)\<rparr>))"

section \<open>The detector\<close>

record detector =
  dt_startupGrace :: duration
  dt_started :: time

definition report :: "mon_env \<Rightarrow> monitor \<Rightarrow> time \<Rightarrow> mon_world \<Rightarrow> mon_world" where
  "report E m now w = (case try_report E (MissedReport m) w of
     (True, w1) \<Rightarrow> record_emitted E (mo_id m) now w1
   | (False, w1) \<Rightarrow> w1)"

definition markMissed :: "mon_env \<Rightarrow> monitor \<Rightarrow> time \<Rightarrow> mon_world \<Rightarrow> mon_world" where
  "markMissed E m now w = (case me_markErr E (mw_step w) of
     Some e \<Rightarrow> tick w
   | None \<Rightarrow>
       (case MarkMonitorMissed (mo_id m) (mo_lastCheckIn m) now (mw_table w) of
          (applied, t) \<Rightarrow>
            (let w1 = tick (w\<lparr>mw_table := t\<rparr>)
             in if \<not> applied then w1
                else report E (m\<lparr>mo_state := MonitorStateMissed, mo_stateSince := now\<rparr>) now w1)))"

definition armed :: "detector \<Rightarrow> time \<Rightarrow> bool" where
  "armed D now \<longleftrightarrow> time_sub now (dt_started D) \<ge> dt_startupGrace D"

text \<open>The body of the loop over the listed monitors.\<close>

definition check_one :: "mon_env \<Rightarrow> detector \<Rightarrow> time \<Rightarrow> monitor \<Rightarrow> mon_world \<Rightarrow> mon_world" where
  "check_one E D now m w =
     (if mo_state m = MonitorStateOK then
        (if armed D now \<and> NextDue (me_zones E) m < now then markMissed E m now w else w)
      else if mo_state m = MonitorStateMissed then
        (if NeedsReport m now then report E m now w else w)
      else w)"

text \<open>\<open>stop\<close> is the number of monitors after which the context is cancelled, if it is.\<close>

definition Check :: "mon_env \<Rightarrow> detector \<Rightarrow> nat option \<Rightarrow> time \<Rightarrow> mon_world \<Rightarrow> mon_world" where
  "Check E D stop now w = (case me_listErr E (mw_step w) of
     Some e \<Rightarrow> tick w
   | None \<Rightarrow>
       (let ms = ListEnabledMonitors E w
        in foldl (\<lambda>w m. check_one E D now m w) (tick w)
             (case stop of None \<Rightarrow> ms | Some n \<Rightarrow> take n ms)))"

section \<open>The invariant over every interleaving\<close>

text \<open>The steps of the system: a check-in with the service's two clock readings, a deletion, a
  list call, and the treatment of a listed monitor some time later.\<close>

datatype mon_op =
    OpCheckIn int check_in_input time time
  | OpDelete int string
  | OpTreat detector time monitor
  | OpCheck detector "nat option" time

fun mon_step :: "mon_env \<Rightarrow> mon_world \<Rightarrow> mon_op \<Rightarrow> mon_world" where
  "mon_step E w (OpCheckIn pid i t now) = snd (CheckIn E pid i t now w)"
| "mon_step E w (OpDelete pid slug) = snd (DeleteMonitor E pid slug w)"
| "mon_step E w (OpTreat D now m) = check_one E D now m w"
| "mon_step E w (OpCheck D stop now) = Check E D stop now w"

lemma marked_table_ok: "table_ok t \<Longrightarrow> table_ok (snd (MarkMonitorMissed i seen now t))"
proof -
  assume t: "table_ok t"
  show ?thesis unfolding MarkMonitorMissed_def Let_def snd_conv
  proof (rule table_ok_map [OF t], goal_cases)
    case (1 m)
    then have "monitor_ok m" using t by (auto simp: table_ok_def list_all_iff)
    then show ?case by (auto simp: monitor_ok_def)
  qed auto
qed

lemma report_ok: "table_ok (mw_table w) \<Longrightarrow> table_ok (mw_table (report E m now w))"
proof -
  assume ok: "table_ok (mw_table w)"
  obtain b w1 where t: "try_report E (MissedReport m) w = (b, w1)" by (metis surj_pair)
  then have "table_ok (mw_table w1)" using ok try_report_table [of E "MissedReport m" w] by simp
  then show ?thesis using t record_emitted_ok by (cases b) (simp_all add: report_def)
qed

lemma markMissed_ok: "table_ok (mw_table w) \<Longrightarrow> table_ok (mw_table (markMissed E m now w))"
proof -
  assume ok: "table_ok (mw_table w)"
  obtain a t where m: "MarkMonitorMissed (mo_id m) (mo_lastCheckIn m) now (mw_table w) = (a, t)" by (metis surj_pair)
  then have "table_ok t" using marked_table_ok [OF ok, of "mo_id m" "mo_lastCheckIn m" now] by simp
  then show ?thesis using ok m by (auto simp: markMissed_def Let_def report_ok split: option.splits)
qed

lemma check_one_ok: "table_ok (mw_table w) \<Longrightarrow> table_ok (mw_table (check_one E D now m w))"
  by (simp add: check_one_def markMissed_ok report_ok)

lemma check_ok: "table_ok (mw_table w) \<Longrightarrow> table_ok (mw_table (Check E D stop now w))"
proof -
  assume ok: "table_ok (mw_table w)"
  have "table_ok (mw_table v) \<Longrightarrow> table_ok (mw_table (foldl (\<lambda>w m. check_one E D now m w) v ms))" for v ms
    by (induction ms arbitrary: v) (auto simp: check_one_ok)
  then show ?thesis using ok by (auto simp: Check_def Let_def split: option.splits)
qed

interpretation monitor_machine: guarded_machine "mon_step E" "\<lambda>w. table_ok (mw_table w)" "\<lambda>_. True"
  for E
proof
  fix w :: mon_world and x
  assume "table_ok (mw_table w)"
  then show "table_ok (mw_table (mon_step E w x))"
    by (cases x) (simp_all add: CheckIn_ok DeleteMonitor_ok check_one_ok check_ok)
qed

text \<open>C35: Whatever check-ins, deletions and detector steps interleave, and whatever statement or
  report fails, the monitor table stays well formed: states are ok, missed or error, ids and
  project-slug pairs are unique, no project holds more than a hundred monitors, an interval
  lies between a minute and 31 days, and a stored cron schedule always parses.\<close>

theorem monitor_table_invariant:
  assumes "table_ok (mw_table w)"
  shows "table_ok (mw_table (foldl (mon_step E) w ops))"
  by (rule monitor_machine.run_inv [OF assms]) (simp add: list_all_iff)

definition demo_monitor :: monitor where
  "demo_monitor = \<lparr>mo_id = 1, mo_projectID = 7, mo_projectSlug = [], mo_slug = ''sweep'',
     mo_interval = minutes, mo_grace = 0, mo_schedule = [], mo_timezone = [], mo_enabled = True,
     mo_createdAt = 0, mo_lastCheckIn = 0, mo_lastStatus = ''ok'', mo_state = ''ok'',
     mo_stateSince = zero_time, mo_lastEmitted = zero_time\<rparr>"

definition demo_mon_env :: mon_env where
  "demo_mon_env = \<lparr>me_zones = (\<lambda>_. None), me_reporter = True, me_project = (\<lambda>p. Some ''shop''),
     me_faults = (\<lambda>_. \<lparr>tf_begin = None, tf_load = None, tf_count = None, tf_write = None, tf_commit = None\<rparr>),
     me_reportOk = (\<lambda>_. True), me_emitErr = (\<lambda>_. None), me_markErr = (\<lambda>_. None), me_listErr = (\<lambda>_. None)\<rparr>"

definition demo_mon_world :: mon_world where
  "demo_mon_world = \<lparr>mw_table = \<lparr>mt_rows = [demo_monitor], mt_nextID = 2\<rparr>, mw_reports = [], mw_step = 0\<rparr>"

definition demo_detector :: detector where
  "demo_detector = \<lparr>dt_startupGrace = 5 * minutes, dt_started = 0\<rparr>"

lemma demo_table_ok: "table_ok (mw_table demo_mon_world)"
  by (simp add: table_ok_def demo_mon_world_def demo_monitor_def monitor_ok_def MinInterval_def
      MaxInterval_def MaxMonitorsPerProject_def)

theorem monitor_table_invariant_witness:
  "table_ok (mw_table (foldl (mon_step demo_mon_env) demo_mon_world
     [OpCheck demo_detector None (10 * minutes), OpDelete 7 ''sweep'']))"
  by (rule monitor_table_invariant [OF demo_table_ok])

section \<open>What a check does\<close>

text \<open>No statement and no report fails.\<close>

definition calm :: "mon_env \<Rightarrow> bool" where
  "calm E \<longleftrightarrow> (\<forall>n. me_reportOk E n \<and> me_emitErr E n = None \<and> me_markErr E n = None \<and> me_listErr E n = None)"

definition watched :: "mon_env \<Rightarrow> monitor \<Rightarrow> bool" where
  "watched E r \<longleftrightarrow> mo_enabled r \<and> me_project E (mo_projectID r) \<noteq> None"

text \<open>The specification: which rows a check reports, and what becomes of them.\<close>

definition overdue :: "mon_env \<Rightarrow> detector \<Rightarrow> time \<Rightarrow> monitor \<Rightarrow> bool" where
  "overdue E D now r \<longleftrightarrow> mo_state r = MonitorStateOK \<and> armed D now \<and> NextDue (me_zones E) r < now"

definition repeat_due :: "time \<Rightarrow> monitor \<Rightarrow> bool" where
  "repeat_due now r \<longleftrightarrow> mo_state r = MonitorStateMissed \<and> NeedsReport r now"

definition flagged :: "mon_env \<Rightarrow> detector \<Rightarrow> time \<Rightarrow> monitor \<Rightarrow> bool" where
  "flagged E D now r \<longleftrightarrow> overdue E D now r \<or> repeat_due now r"

definition as_missed :: "mon_env \<Rightarrow> detector \<Rightarrow> time \<Rightarrow> monitor \<Rightarrow> monitor" where
  "as_missed E D now r = (if overdue E D now r
     then r\<lparr>mo_state := MonitorStateMissed, mo_stateSince := now\<rparr> else r)"

definition treated :: "mon_env \<Rightarrow> detector \<Rightarrow> time \<Rightarrow> monitor \<Rightarrow> monitor" where
  "treated E D now r = (if flagged E D now r then (as_missed E D now r)\<lparr>mo_lastEmitted := now\<rparr> else r)"

text \<open>What a listed monitor shares with its row: all but the slug of its project.\<close>

definition listed_as :: "monitor \<Rightarrow> monitor \<Rightarrow> bool" where
  "listed_as m r \<longleftrightarrow> m\<lparr>mo_projectSlug := []\<rparr> = r\<lparr>mo_projectSlug := []\<rparr>"

lemma listed_asD: "listed_as m r \<Longrightarrow> mo_id m = mo_id r \<and> mo_state m = mo_state r \<and> mo_lastCheckIn m = mo_lastCheckIn r
    \<and> NextDue z m = NextDue z r \<and> NeedsReport m now = NeedsReport r now"
proof -
  assume "listed_as m r"
  then have m: "m = r\<lparr>mo_projectSlug := mo_projectSlug m\<rparr>"
    unfolding listed_as_def by (cases m; cases r) simp
  obtain x where m: "m = r\<lparr>mo_projectSlug := x\<rparr>" by (rule that [OF m])
  show ?thesis unfolding m NextDue_def NeedsReport_def Location_def Let_def
    by (simp cong: option.case_cong sum.case_cong if_cong)
qed

lemma flagged_listed: "listed_as m q \<Longrightarrow> flagged E D now m = flagged E D now q"
  using listed_asD [of m q] unfolding flagged_def overdue_def repeat_due_def by metis

lemma check_one_calm:
  assumes "calm E" "listed_as m r" "r \<in> set (mt_rows (mw_table w))" "distinct (map mo_id (mt_rows (mw_table w)))"
  shows "mt_rows (mw_table (check_one E D now m w))
      = map (\<lambda>q. if mo_id q = mo_id m then treated E D now q else q) (mt_rows (mw_table w))
    \<and> mw_reports (check_one E D now m w)
      = mw_reports w @ (if flagged E D now m then [MissedReport (as_missed E D now m)] else [])"
proof -
  note l = listed_asD [OF assms(2)]
  let ?rows = "mt_rows (mw_table w)"
  have same: "q = r" if "q \<in> set ?rows" "mo_id q = mo_id m" for q
    using that assms(3,4) l eq_key_imp_eq_value [of "map (\<lambda>q. (mo_id q, q)) ?rows"]
    by (auto simp: distinct_map inj_on_def)
  have f: "overdue E D now m \<longleftrightarrow> overdue E D now r" "repeat_due now m \<longleftrightarrow> repeat_due now r"
    using l by (auto simp: overdue_def repeat_due_def)
  consider (ok) "overdue E D now r" | (again) "repeat_due now r" | (no) "\<not> overdue E D now r" "\<not> repeat_due now r"
    by blast
  then show ?thesis
  proof cases
    case ok
    let ?hit = "\<lambda>q. mo_id q = mo_id m \<and> mo_state q = MonitorStateOK \<and> mo_lastCheckIn q = mo_lastCheckIn m"
    have hit: "?hit q \<longleftrightarrow> mo_id q = mo_id m" if "q \<in> set ?rows" for q
      using same [OF that] ok l by (auto simp: overdue_def)
    have "filter ?hit ?rows = filter (\<lambda>q. mo_id q = mo_id m) ?rows" using hit by (intro filter_cong) auto
    also have "length \<dots> = 1"
      using assms(3,4) l distinct_length_filter_one [of mo_id ?rows r] by simp
    finally have one: "length (filter ?hit ?rows) = 1" .
    have rows: "map (\<lambda>q. if ?hit q then q\<lparr>mo_state := MonitorStateMissed, mo_stateSince := now\<rparr> else q) ?rows
        = map (\<lambda>q. if mo_id q = mo_id m then q\<lparr>mo_state := MonitorStateMissed, mo_stateSince := now\<rparr> else q) ?rows"
      using hit by (intro map_cong) auto
    let ?mark = "\<lambda>q. if mo_id q = mo_id m then q\<lparr>mo_state := MonitorStateMissed, mo_stateSince := now\<rparr> else q"
    let ?m = "m\<lparr>mo_state := MonitorStateMissed, mo_stateSince := now\<rparr>"
    have t: "treated E D now q = q\<lparr>mo_state := MonitorStateMissed, mo_stateSince := now, mo_lastEmitted := now\<rparr>"
      if "q \<in> set ?rows" "mo_id q = mo_id m" for q
      using same [OF that] ok by (simp add: treated_def flagged_def as_missed_def)
    have "MarkMonitorMissed (mo_id m) (mo_lastCheckIn m) now (mw_table w)
        = (True, (mw_table w)\<lparr>mt_rows := map ?mark ?rows\<rparr>)"
      unfolding MarkMonitorMissed_def Let_def one rows by simp
    then have "check_one E D now m w = report E ?m now (tick (w\<lparr>mw_table := (mw_table w)\<lparr>mt_rows := map ?mark ?rows\<rparr>\<rparr>))"
      using ok f(1) assms(1) l by (simp add: check_one_def overdue_def markMissed_def calm_def)
    moreover have "report E ?m now v = record_emitted E (mo_id m) now (tick (v\<lparr>mw_reports := mw_reports v @ [MissedReport ?m]\<rparr>))"
      for v using assms(1) by (simp add: report_def try_report_def calm_def)
    moreover have "map (\<lambda>q. if mo_id q = mo_id m then q\<lparr>mo_lastEmitted := now\<rparr> else q) (map ?mark ?rows)
        = map (\<lambda>q. if mo_id q = mo_id m then treated E D now q else q) ?rows"
      using t by simp
    ultimately show ?thesis
      using assms(1) ok f by (simp add: record_emitted_def MarkMonitorEmitted_def tick_def calm_def flagged_def as_missed_def)
  next
    case again
    have "treated E D now q = q\<lparr>mo_lastEmitted := now\<rparr>" if "q \<in> set ?rows" "mo_id q = mo_id m" for q
      using same [OF that] again by (auto simp: treated_def flagged_def as_missed_def overdue_def repeat_due_def)
    then have t: "map (\<lambda>q. if mo_id q = mo_id m then q\<lparr>mo_lastEmitted := now\<rparr> else q) ?rows
        = map (\<lambda>q. if mo_id q = mo_id m then treated E D now q else q) ?rows"
      by simp
    have no: "\<not> overdue E D now m" using again f by (simp add: overdue_def repeat_due_def)
    have "check_one E D now m w = record_emitted E (mo_id m) now (tick (w\<lparr>mw_reports := mw_reports w @ [MissedReport m]\<rparr>))"
      using again f(2) assms(1) by (simp add: check_one_def repeat_due_def report_def try_report_def calm_def)
    then show ?thesis
      using again f(2) no assms(1) t
      by (simp add: record_emitted_def MarkMonitorEmitted_def tick_def calm_def flagged_def as_missed_def)
  next
    case no
    then have "treated E D now q = q" if "q \<in> set ?rows" "mo_id q = mo_id m" for q
      using same [OF that] by (simp add: treated_def flagged_def)
    then have "map (\<lambda>q. if mo_id q = mo_id m then treated E D now q else q) ?rows = ?rows"
      by (intro map_idI) auto
    then show ?thesis using no f l
      by (auto simp: check_one_def repeat_due_def overdue_def flagged_def)
  qed
qed

lemma treat_all:
  assumes "calm E"
  shows "distinct (map mo_id ms) \<Longrightarrow> distinct (map mo_id (mt_rows (mw_table w))) \<Longrightarrow>
    \<forall>m\<in>set ms. \<exists>r\<in>set (mt_rows (mw_table w)). listed_as m r \<Longrightarrow>
    mt_rows (mw_table (foldl (\<lambda>w m. check_one E D now m w) w ms))
      = map (\<lambda>q. if mo_id q \<in> mo_id ` set ms then treated E D now q else q) (mt_rows (mw_table w))
    \<and> mw_reports (foldl (\<lambda>w m. check_one E D now m w) w ms)
      = mw_reports w @ map (\<lambda>m. MissedReport (as_missed E D now m)) (filter (flagged E D now) ms)"
proof (induction ms arbitrary: w)
  case (Cons m ms)
  obtain r where r: "listed_as m r" "r \<in> set (mt_rows (mw_table w))" using Cons.prems(3) by auto
  let ?w = "check_one E D now m w"
  note one = check_one_calm [OF assms r Cons.prems(2), of D now]
  have ids: "mo_id (treated E D now q) = mo_id q" for q
    by (simp add: treated_def as_missed_def)
  have d: "distinct (map mo_id (mt_rows (mw_table ?w)))"
  proof -
    have "mo_id \<circ> (\<lambda>q. if mo_id q = mo_id m then treated E D now q else q) = mo_id"
      by (rule ext) (simp add: ids)
    then show ?thesis using conjunct1 [OF one] Cons.prems(2) by simp
  qed
  have l: "\<forall>n\<in>set ms. \<exists>q\<in>set (mt_rows (mw_table ?w)). listed_as n q"
  proof
    fix n assume n: "n \<in> set ms"
    then obtain q where q: "q \<in> set (mt_rows (mw_table w))" "listed_as n q" using Cons.prems(3) by auto
    have "mo_id q \<noteq> mo_id m" using n Cons.prems(1) listed_asD [OF q(2)] by (metis distinct.simps(2) image_eqI list.simps(9) list.set_map)
    then show "\<exists>q\<in>set (mt_rows (mw_table ?w)). listed_as n q" using q one by force
  qed
  have "distinct (map mo_id ms)" using Cons.prems(1) by simp
  from Cons.IH [OF this d l] one Cons.prems(1) ids show ?case
    by (auto simp: image_iff)
qed simp

lemma listed_rows:
  "m \<in> set (ListEnabledMonitors E w) \<Longrightarrow> \<exists>r\<in>set (mt_rows (mw_table w)). listed_as m r"
  by (auto simp: ListEnabledMonitors_def listed_as_def)

lemma listed_ids: "mo_id ` set (ListEnabledMonitors E w) = mo_id ` {r \<in> set (mt_rows (mw_table w)). watched E r}"
  by (force simp: ListEnabledMonitors_def watched_def image_iff)

lemma listed_distinct: "distinct (map mo_id (mt_rows (mw_table w))) \<Longrightarrow> distinct (map mo_id (ListEnabledMonitors E w))"
proof -
  assume d: "distinct (map mo_id (mt_rows (mw_table w)))"
  let ?f = "filter (\<lambda>m. mo_enabled m \<and> me_project E (mo_projectID m) \<noteq> None) (mt_rows (mw_table w))"
  have "distinct (map mo_id (sort_key mo_id ?f)) \<longleftrightarrow> distinct (map mo_id ?f)"
    by (simp only: distinct_map distinct_sort set_sort)
  then have "distinct (map mo_id (sort_key mo_id ?f))" using d distinct_map_filter_id by blast
  then show ?thesis by (simp add: ListEnabledMonitors_def comp_def)
qed

text \<open>C8: A check without faults does exactly what the rule says, whatever the order in which
  it visits the monitors: every enabled monitor of an active project that is overdue becomes
  missed and reported, every missed one whose report is pending or a day old is reported
  again, every other row is untouched, and the reports go out in the order of the list, one
  for each flagged monitor.\<close>

theorem check_implements_rule:
  assumes "calm E" "table_ok (mw_table w)"
  shows "mt_rows (mw_table (Check E D None now w))
      = map (\<lambda>r. if watched E r then treated E D now r else r) (mt_rows (mw_table w))
    \<and> mw_reports (Check E D None now w) = mw_reports w
        @ map (\<lambda>m. MissedReport (as_missed E D now m)) (filter (flagged E D now) (ListEnabledMonitors E w))"
proof -
  have d: "distinct (map mo_id (mt_rows (mw_table w)))" using assms(2) by (simp add: table_ok_def)
  have t: "ListEnabledMonitors E (tick w) = ListEnabledMonitors E w" by (simp add: ListEnabledMonitors_def)
  have c: "Check E D None now w = foldl (\<lambda>w m. check_one E D now m w) (tick w) (ListEnabledMonitors E w)"
    using assms(1) by (simp add: Check_def calm_def)
  have w: "mo_id r \<in> mo_id ` set (ListEnabledMonitors E w) \<longleftrightarrow> watched E r" if "r \<in> set (mt_rows (mw_table w))" for r
    using that d unfolding listed_ids by (auto simp: distinct_map inj_on_def image_iff)
  have rep: "mw_reports (tick w) = mw_reports w" by (simp add: tick_def)
  have "\<forall>m\<in>set (ListEnabledMonitors E w). \<exists>r\<in>set (mt_rows (mw_table (tick w))). listed_as m r"
    using listed_rows by fastforce
  from treat_all [OF assms(1) listed_distinct [OF d] _ this, of D now] d
  show ?thesis unfolding c rep using w by (auto intro!: map_cong)
qed

lemma demo_calm: "calm demo_mon_env"
  by (simp add: calm_def demo_mon_env_def)

lemma demo_overdue: "flagged demo_mon_env demo_detector (10 * minutes) m \<longleftrightarrow> True"
  if "mo_state m = ''ok''" "mo_schedule m = []" "mo_lastCheckIn m = 0" "mo_interval m = minutes" "mo_grace m = 0"
  using that by (simp add: flagged_def overdue_def armed_def demo_detector_def time_sub_def clamp64_def
      NextDue_def wrap64_def zero_time_def Let_def)

theorem check_implements_rule_witness:
  "map mo_state (mt_rows (mw_table (Check demo_mon_env demo_detector None (10 * minutes) demo_mon_world)))
     = [''missed'']"
  using check_implements_rule [OF demo_calm demo_table_ok, of demo_detector "10 * minutes"]
  by (simp add: demo_mon_world_def watched_def demo_mon_env_def demo_monitor_def treated_def as_missed_def
      flagged_def overdue_def armed_def demo_detector_def time_sub_def clamp64_def NextDue_def wrap64_def
      zero_time_def Let_def)

section \<open>Incidents\<close>

text \<open>An incident is not reported twice within a day: when a check reports a monitor, a
  later check less than 24 hours on, with no check-in between, reports it no second time.\<close>

theorem no_second_report_within_a_day:
  assumes "calm E" "table_ok (mw_table w)" "r \<in> set (mt_rows (mw_table w))" "watched E r"
    and "flagged E D now r" "mo_stateSince r \<le> now" "now \<le> now'" "now' - now < 24 * hours"
  shows "treated E D now r \<in> set (mt_rows (mw_table (Check E D None now w)))
    \<and> mo_id (treated E D now r) = mo_id r
    \<and> (\<forall>m. MissedReport m \<in> set (drop (length (mw_reports (Check E D None now w)))
          (mw_reports (Check E D None now' (Check E D None now w)))) \<longrightarrow> mo_id m \<noteq> mo_id r)"
proof -
  let ?w = "Check E D None now w" and ?r = "treated E D now r"
  have ok: "table_ok (mw_table ?w)" using check_ok [OF assms(2)] .
  have in': "?r \<in> set (mt_rows (mw_table ?w))"
    using check_implements_rule [OF assms(1,2), of D now] assms(3,4) by auto
  have id: "mo_id ?r = mo_id r" by (simp add: treated_def as_missed_def)
  have quiet: "\<not> flagged E D now' ?r"
    using assms(5-8) unfolding treated_def as_missed_def
    by (auto simp: flagged_def overdue_def repeat_due_def NeedsReport_def MonitorReportRepeat_def
        time_sub_def clamp64_def)
  have "mo_id m \<noteq> mo_id r" if m: "m \<in> set (ListEnabledMonitors E ?w)" "flagged E D now' m" for m
  proof
    assume e: "mo_id m = mo_id r"
    obtain q where q: "q \<in> set (mt_rows (mw_table ?w))" "listed_as m q" using listed_rows [OF m(1)] by blast
    have "mo_id q = mo_id ?r" using listed_asD [OF q(2)] e id by simp
    then have "q = ?r" using ok q(1) in' by (auto simp: table_ok_def distinct_map inj_on_def)
    then show False using quiet m(2) flagged_listed [OF q(2)] by simp
  qed
  moreover have "drop (length (mw_reports ?w)) (mw_reports (Check E D None now' ?w))
      = map (\<lambda>m. MissedReport (as_missed E D now' m)) (filter (flagged E D now') (ListEnabledMonitors E ?w))"
    using check_implements_rule [OF assms(1) ok, of D now'] by simp
  moreover have "mo_id (as_missed E D now' m) = mo_id m" for m by (simp add: as_missed_def)
  ultimately show ?thesis using in' id by auto
qed

theorem no_second_report_within_a_day_witness:
  "MissedReport demo_monitor \<notin> set (drop (length (mw_reports (Check demo_mon_env demo_detector None (10 * minutes) demo_mon_world)))
     (mw_reports (Check demo_mon_env demo_detector None (20 * hours)
        (Check demo_mon_env demo_detector None (10 * minutes) demo_mon_world))))"
proof -
  have f: "flagged demo_mon_env demo_detector (10 * minutes) demo_monitor"
    using demo_overdue [of demo_monitor] by (simp add: demo_monitor_def)
  show ?thesis
    using no_second_report_within_a_day [OF demo_calm demo_table_ok _ _ f, of "20 * hours"]
    by (auto simp: demo_mon_world_def watched_def demo_mon_env_def demo_monitor_def zero_time_def)
qed

text \<open>A check-in that lands between the scan and the marking wins: when the row no longer
  carries the check-in the detector saw, treating the listed monitor changes no row and
  reports nothing.\<close>

theorem check_in_beats_marking:
  assumes "mo_state m = ''ok''"
    and "\<forall>r\<in>set (mt_rows (mw_table w)). mo_id r = mo_id m \<longrightarrow> mo_lastCheckIn r \<noteq> mo_lastCheckIn m"
  shows "mw_table (check_one E D now m w) = mw_table w \<and> mw_reports (check_one E D now m w) = mw_reports w"
proof -
  have n: "\<not> (mo_id r = mo_id m \<and> mo_state r = MonitorStateOK \<and> mo_lastCheckIn r = mo_lastCheckIn m)"
    if "r \<in> set (mt_rows (mw_table w))" for r using that assms(2) by blast
  have "MarkMonitorMissed (mo_id m) (mo_lastCheckIn m) now (mw_table w) = (False, mw_table w)"
  proof -
    let ?hit = "\<lambda>r. mo_id r = mo_id m \<and> mo_state r = MonitorStateOK \<and> mo_lastCheckIn r = mo_lastCheckIn m"
    have "map (\<lambda>r. if ?hit r then r\<lparr>mo_state := MonitorStateMissed, mo_stateSince := now\<rparr> else r)
        (mt_rows (mw_table w)) = mt_rows (mw_table w)" using n by (intro map_idI) auto
    moreover have "filter ?hit (mt_rows (mw_table w)) = []" using n by (auto simp: filter_empty_conv)
    ultimately show ?thesis by (simp add: MarkMonitorMissed_def Let_def)
  qed
  then show ?thesis using assms(1)
    by (auto simp: check_one_def markMissed_def tick_def split: option.splits)
qed

theorem check_in_beats_marking_witness:
  "mw_reports (check_one demo_mon_env demo_detector (10 * minutes) (demo_monitor\<lparr>mo_lastCheckIn := 5\<rparr>) demo_mon_world) = []"
  using check_in_beats_marking [of "demo_monitor\<lparr>mo_lastCheckIn := 5\<rparr>" demo_mon_world demo_mon_env demo_detector "10 * minutes"]
  by (simp add: demo_mon_world_def demo_monitor_def)

text \<open>The detector's report of a monitor already marked missed does not look at the row again:
  when the recovering check-in lands between the scan and the report, the recovery is reported
  first and the miss after it, so the last word on a monitor that is back in state ok is an
  open incident, which no later ok check-in resolves.\<close>

theorem late_report_after_recovery:
  assumes "mo_state m = ''missed''" "NeedsReport m now" "me_reportOk E (mw_step w)"
  shows "mw_reports (check_one E D now m w) = mw_reports w @ [MissedReport m]
    \<and> map mo_state (mt_rows (mw_table (check_one E D now m w))) = map mo_state (mt_rows (mw_table w))"
  using assms
  by (auto simp: check_one_def report_def try_report_def record_emitted_def MarkMonitorEmitted_def tick_def
      split: option.splits)

definition ok_check_in :: check_in_input where
  "ok_check_in = \<lparr>in_slug = ''sweep'', in_status = ''ok'', in_message = [], in_interval = None, in_grace = None,
     in_schedule = [], in_timezone = []\<rparr>"

definition missed_monitor :: monitor where
  "missed_monitor = demo_monitor\<lparr>mo_state := ''missed'', mo_stateSince := 5 * minutes\<rparr>"

definition missed_world :: mon_world where
  "missed_world = \<lparr>mw_table = \<lparr>mt_rows = [missed_monitor], mt_nextID = 2\<rparr>, mw_reports = [], mw_step = 0\<rparr>"

theorem late_report_after_recovery_witness:
  "let w = mon_step demo_mon_env missed_world (OpCheckIn 7 ok_check_in (6 * minutes) (6 * minutes));
       w' = mon_step demo_mon_env w (OpTreat demo_detector (7 * minutes) missed_monitor)
   in map mo_state (mt_rows (mw_table w')) = [''ok''] \<and> length (mw_reports w) = 1
      \<and> last (mw_reports w') = MissedReport missed_monitor"
proof -
  let ?w = "snd (CheckIn demo_mon_env 7 ok_check_in (6 * minutes) (6 * minutes) missed_world)"
  have s: "slugPattern ''sweep''" by (simp add: slugPattern_def slug_head_def)
  have j: "join_words (GoStrings.fields []) = []" by (simp add: GoStrings.fields_def)
  have c: "map mo_state (mt_rows (mw_table ?w)) = [''ok'']" "length (mw_reports ?w) = 1"
    by (simp_all add: CheckIn_def ok_check_in_def s j validateTimings_def validateInterval_def validateGrace_def
      validateSchedule_def RecordMonitorCheckIn_def applyMonitorCheckIn_def applyTimings_def demo_mon_env_def
      missed_world_def missed_monitor_def demo_monitor_def service_report_def try_report_def tick_def Let_def)
  have n: "NeedsReport missed_monitor (7 * minutes)"
    by (simp add: NeedsReport_def missed_monitor_def demo_monitor_def zero_time_def)
  show ?thesis
    using late_report_after_recovery [of missed_monitor "7 * minutes" demo_mon_env ?w demo_detector] c n
    by (simp add: missed_monitor_def demo_mon_env_def)
qed

lemma check_one_reports: "\<exists>rs. mw_reports (check_one E D now m w) = mw_reports w @ map MissedReport rs
    \<and> (\<forall>n\<in>set rs. mo_id n = mo_id m) \<and> (mo_state m = ''error'' \<longrightarrow> rs = [])"
proof -
  have r: "\<exists>rs. mw_reports (report E m' now v) = mw_reports v @ map MissedReport rs \<and> (\<forall>n\<in>set rs. mo_id n = mo_id m)"
    if "mo_id m' = mo_id m" for m' v
    using that
    by (auto simp: report_def try_report_def record_emitted_def tick_def intro: exI [of _ "[m']"] exI [of _ "[]"]
        split: option.splits)
  have m: "\<exists>rs. mw_reports (markMissed E m now w) = mw_reports w @ map MissedReport rs \<and> (\<forall>n\<in>set rs. mo_id n = mo_id m)"
  proof (cases "me_markErr E (mw_step w)")
    case None
    obtain a t where t: "MarkMonitorMissed (mo_id m) (mo_lastCheckIn m) now (mw_table w) = (a, t)" by (metis surj_pair)
    show ?thesis
    proof (cases a)
      case True
      then have "markMissed E m now w = report E (m\<lparr>mo_state := MonitorStateMissed, mo_stateSince := now\<rparr>) now (tick (w\<lparr>mw_table := t\<rparr>))"
        using None t by (simp add: markMissed_def)
      then show ?thesis using r [of "m\<lparr>mo_state := MonitorStateMissed, mo_stateSince := now\<rparr>" "tick (w\<lparr>mw_table := t\<rparr>)"]
        by (simp add: tick_def)
    next
      case False
      then show ?thesis using None t by (intro exI [of _ "[]"]) (simp add: markMissed_def tick_def)
    qed
  qed (auto simp: markMissed_def tick_def intro: exI [of _ "[]"])
  show ?thesis using m r [of m w] by (auto simp: check_one_def intro: exI [of _ "[]"])
qed

lemma check_fold_reports: "\<exists>rs. mw_reports (foldl (\<lambda>w m. check_one E D now m w) w ms) = mw_reports w @ map MissedReport rs
    \<and> mo_id ` set rs \<subseteq> mo_id ` {m \<in> set ms. mo_state m \<noteq> ''error''}"
proof (induction ms arbitrary: w)
  case (Cons m ms)
  obtain rs where rs: "mw_reports (check_one E D now m w) = mw_reports w @ map MissedReport rs"
    "\<forall>n\<in>set rs. mo_id n = mo_id m" "mo_state m = ''error'' \<longrightarrow> rs = []" using check_one_reports by blast
  obtain rs' where rs': "mw_reports (foldl (\<lambda>w m. check_one E D now m w) (check_one E D now m w) ms)
      = mw_reports (check_one E D now m w) @ map MissedReport rs'"
    "mo_id ` set rs' \<subseteq> mo_id ` {m \<in> set ms. mo_state m \<noteq> ''error''}" using Cons.IH by blast
  have "mo_id ` set (rs @ rs') \<subseteq> mo_id ` {n \<in> set (m # ms). mo_state n \<noteq> ''error''}"
    using rs(2,3) rs'(2) by (cases "mo_state m = ''error''") auto
  then show ?case using rs(1) rs'(1) by (intro exI [of _ "rs @ rs'"]) auto
qed simp

lemma check_one_keeps_error:
  assumes "r \<in> set (mt_rows (mw_table v))" "mo_state r = ''error''" "mo_id m = mo_id r \<longrightarrow> mo_state m = ''error''"
  shows "r \<in> set (mt_rows (mw_table (check_one E D now m v)))"
proof (cases "mo_id m = mo_id r")
  case True
  then show ?thesis using assms by (simp add: check_one_def)
next
  case False
  then show ?thesis using assms(1)
    by (force simp: check_one_def markMissed_def report_def try_report_def record_emitted_def tick_def
        MarkMonitorMissed_def MarkMonitorEmitted_def Let_def split: option.splits)
qed

lemma listed_error_state:
  assumes "table_ok (mw_table w)" "r \<in> set (mt_rows (mw_table w))"
    and "m \<in> set (ListEnabledMonitors E w)" "mo_id m = mo_id r"
  shows "mo_state m = mo_state r"
proof -
  obtain q where q: "q \<in> set (mt_rows (mw_table w))" "listed_as m q" using listed_rows [OF assms(3)] by blast
  have "mo_id q = mo_id r" using listed_asD [OF q(2)] assms(4) by simp
  then have "q = r" using assms(1,2) q(1) by (auto simp: table_ok_def distinct_map inj_on_def)
  then show ?thesis using listed_asD [OF q(2)] by simp
qed

text \<open>A monitor in state error is outside the rule: whatever fails and however long it stays
  silent, a check leaves its row as it is and reports nothing about it, so a job that fails
  once and never runs again is not reported as missed.\<close>

theorem error_state_hides_silence:
  assumes "table_ok (mw_table w)" "r \<in> set (mt_rows (mw_table w))" "mo_state r = ''error''"
  shows "r \<in> set (mt_rows (mw_table (Check E D stop now w)))
    \<and> (\<forall>m. MissedReport m \<in> set (drop (length (mw_reports w)) (mw_reports (Check E D stop now w))) \<longrightarrow> mo_id m \<noteq> mo_id r)"
proof -
  define ms where "ms = (case stop of None \<Rightarrow> ListEnabledMonitors E w | Some n \<Rightarrow> take n (ListEnabledMonitors E w))"
  have err: "mo_state m = ''error''" if "m \<in> set ms" "mo_id m = mo_id r" for m
  proof -
    have "m \<in> set (ListEnabledMonitors E w)"
      using that(1) by (auto simp: ms_def split: option.splits dest: in_set_takeD)
    then show ?thesis using listed_error_state [OF assms(1,2)] that(2) assms(3) by simp
  qed
  have all: "r \<in> set (mt_rows (mw_table v)) \<Longrightarrow> \<forall>m\<in>set ns. mo_id m = mo_id r \<longrightarrow> mo_state m = ''error'' \<Longrightarrow>
      r \<in> set (mt_rows (mw_table (foldl (\<lambda>w m. check_one E D now m w) v ns)))" for v ns
    by (induction ns arbitrary: v) (auto simp: check_one_keeps_error [OF _ assms(3)])
  have l: "ListEnabledMonitors E (tick w) = ListEnabledMonitors E w" by (simp add: ListEnabledMonitors_def)
  let ?f = "foldl (\<lambda>w m. check_one E D now m w) (tick w) ms"
  obtain rs where rs: "mw_reports ?f = mw_reports w @ map MissedReport rs"
    "mo_id ` set rs \<subseteq> mo_id ` {m \<in> set ms. mo_state m \<noteq> ''error''}"
    using check_fold_reports [of E D now "tick w" ms] by (auto simp: tick_def)
  have "mo_id m \<noteq> mo_id r" if "m \<in> set rs" for m
  proof
    assume e: "mo_id m = mo_id r"
    have "mo_id m \<in> mo_id ` {m \<in> set ms. mo_state m \<noteq> ''error''}" using rs(2) that by blast
    then obtain k where "k \<in> set ms" "mo_state k \<noteq> ''error''" "mo_id k = mo_id m" by auto
    then show False using err [of k] e by simp
  qed
  then have "r \<in> set (mt_rows (mw_table ?f)) \<and> (\<forall>m. MissedReport m \<in> set (drop (length (mw_reports w)) (mw_reports ?f))
      \<longrightarrow> mo_id m \<noteq> mo_id r)"
    using all [of "tick w" ms] assms(2) err rs(1) by auto
  note f = this
  show ?thesis
  proof (cases "me_listErr E (mw_step w)")
    case None
    then have "Check E D stop now w = ?f" unfolding Check_def ms_def Let_def by simp
    then show ?thesis using f by simp
  next
    case (Some e)
    then have "Check E D stop now w = tick w" by (simp add: Check_def)
    then show ?thesis using assms(2) by (simp add: tick_def)
  qed
qed

definition failed_world :: mon_world where
  "failed_world = demo_mon_world\<lparr>mw_table := \<lparr>mt_rows = [demo_monitor\<lparr>mo_state := ''error''\<rparr>], mt_nextID = 2\<rparr>\<rparr>"

theorem error_state_hides_silence_witness:
  "demo_monitor\<lparr>mo_state := ''error''\<rparr>
     \<in> set (mt_rows (mw_table (Check demo_mon_env demo_detector None (9000 * hours) failed_world)))"
  using error_state_hides_silence [of failed_world "demo_monitor\<lparr>mo_state := ''error''\<rparr>" demo_mon_env demo_detector None "9000 * hours"]
  by (simp add: failed_world_def table_ok_def demo_mon_world_def demo_monitor_def monitor_ok_def MinInterval_def
      MaxInterval_def MaxMonitorsPerProject_def)

text \<open>The bound of grace by interval is checked only against the interval of the same request:
  a check-in that carries nothing but a grace is accepted for an interval monitor with any
  grace up to 31 days, and the row then holds it beside its unchanged, shorter interval.\<close>

theorem grace_can_exceed_interval:
  assumes "slugPattern (mo_slug r)" "mo_schedule r = []" "0 \<le> g" "g \<le> MaxInterval"
    and "List.find (\<lambda>m. mo_projectID m = mo_projectID r \<and> mo_slug m = mo_slug r) (mt_rows (mw_table w)) = Some r"
    and "me_faults E (mw_step w) = \<lparr>tf_begin = None, tf_load = None, tf_count = None, tf_write = None, tf_commit = None\<rparr>"
    and "me_reporter E = False"
  shows "\<exists>q \<in> set (mt_rows (mw_table (snd (CheckIn E (mo_projectID r) \<lparr>in_slug = mo_slug r, in_status = ''ok'',
        in_message = [], in_interval = None, in_grace = Some g, in_schedule = [], in_timezone = []\<rparr> t now w)))).
      mo_id q = mo_id r \<and> mo_grace q = whole_seconds g \<and> mo_interval q = whole_seconds (mo_interval r)"
proof -
  have j: "join_words (GoStrings.fields []) = []" by (simp add: GoStrings.fields_def)
  have r: "r \<in> set (mt_rows (mw_table w))" using assms(5) find_SomeD by fastforce
  then show ?thesis using assms
    by (auto simp: CheckIn_def j validateTimings_def validateInterval_def validateGrace_def validateSchedule_def
        RecordMonitorCheckIn_def applyMonitorCheckIn_def applyTimings_def service_report_def tick_def Let_def)
      (rule bexI [OF _ UnI1 [OF imageI [where x = r]]]; simp)+
qed

theorem grace_can_exceed_interval_witness:
  "\<exists>q \<in> set (mt_rows (mw_table (snd (CheckIn (demo_mon_env\<lparr>me_reporter := False\<rparr>) (mo_projectID demo_monitor)
        \<lparr>in_slug = mo_slug demo_monitor, in_status = ''ok'', in_message = [], in_interval = None,
          in_grace = Some (24 * hours), in_schedule = [], in_timezone = []\<rparr> 5 5 demo_mon_world)))).
      mo_interval q < mo_grace q"
proof -
  have w: "whole_seconds (24 * hours) = 24 * hours" "whole_seconds (mo_interval demo_monitor) = minutes"
    by (simp_all add: whole_seconds_def go_div_def demo_monitor_def)
  have "\<exists>q \<in> set (mt_rows (mw_table (snd (CheckIn (demo_mon_env\<lparr>me_reporter := False\<rparr>) (mo_projectID demo_monitor)
        \<lparr>in_slug = mo_slug demo_monitor, in_status = ''ok'', in_message = [], in_interval = None,
          in_grace = Some (24 * hours), in_schedule = [], in_timezone = []\<rparr> 5 5 demo_mon_world)))).
      mo_id q = mo_id demo_monitor \<and> mo_grace q = whole_seconds (24 * hours)
      \<and> mo_interval q = whole_seconds (mo_interval demo_monitor)"
    by (rule grace_can_exceed_interval)
      (simp_all add: demo_monitor_def demo_mon_world_def demo_mon_env_def MaxInterval_def slugPattern_def slug_head_def)
  then show ?thesis unfolding w by force
qed

end
