(* ===== verification/Spool.thy ===== *)
theory Spool
  imports Processor "HOL-Library.List_Lexorder" "HOL-Library.Char_ord"
begin

text \<open>
  The ingest spool: \<open>internal/spool/spool.go\<close>, \<open>segments.go\<close> and \<open>backlog.go\<close>.

  A file is the list of its bytes, a directory what the spool keeps in it.  The JSON codec of
  a record is an argument; what the code relies on is \<open>codec_ok\<close>: an encoded record is a
  non-empty line that decodes to the record without its \<open>Internal\<close> mark, which is never
  serialized.
\<close>

section \<open>The codec and lines\<close>

record codec =
  cd_enc :: "spool_record \<Rightarrow> string"
  cd_dec :: "string \<Rightarrow> spool_record option"

abbreviation (input) NL :: char where "NL \<equiv> CHR 0x0A"
abbreviation (input) CR :: char where "CR \<equiv> CHR 0x0D"

definition public :: "spool_record \<Rightarrow> spool_record" where
  "public r = r\<lparr>sr_internal := False\<rparr>"

definition codec_ok :: "codec \<Rightarrow> bool" where
  "codec_ok K \<longleftrightarrow> (\<forall>r. cd_enc K r \<noteq> [] \<and> NL \<notin> set (cd_enc K r) \<and> last (cd_enc K r) \<noteq> CR
     \<and> cd_dec K (cd_enc K r) = Some (public r))"

text \<open>\<open>bufio.ScanLines\<close>: the pieces between newlines, the last one only when non-empty, each
  without a trailing carriage return.  A line that does not fit the buffer is an error.\<close>

definition raw_lines :: "string \<Rightarrow> string list" where
  "raw_lines s = (let ps = split_on NL s in if last ps = [] then butlast ps else ps)"

definition drop_cr :: "string \<Rightarrow> string" where
  "drop_cr l = (if l \<noteq> [] \<and> last l = CR then butlast l else l)"

definition maxLine :: nat where "maxLine = 2 * 1024 * 1024"

text \<open>The scanning loop of \<open>ReadRecordsFrom\<close>: each record with the offset just past it.  A
  line that does not decode is skipped; an error drops what was read.\<close>

fun read_loop :: "codec \<Rightarrow> int \<Rightarrow> string list \<Rightarrow> unit + (spool_record \<times> int) list" where
  "read_loop K pos [] = Inr []"
| "read_loop K pos (l # ls) =
     (if length l \<ge> maxLine then Inl ()
      else let line = drop_cr l; pos' = pos + int (length line) + 1
           in case read_loop K pos' ls of
                Inl e \<Rightarrow> Inl e
              | Inr rest \<Rightarrow>
                  (if line = [] then Inr rest
                   else case cd_dec K line of None \<Rightarrow> Inr rest | Some r \<Rightarrow> Inr ((r, pos') # rest)))"

text \<open>A missing file has no records; an offset beyond the end starts over.\<close>

definition ReadRecordsFrom :: "codec \<Rightarrow> string option \<Rightarrow> int \<Rightarrow> unit + (spool_record \<times> int) list" where
  "ReadRecordsFrom K file offset = (case file of
     None \<Rightarrow> Inr []
   | Some s \<Rightarrow>
       (let off = (if 0 < offset \<and> int (length s) < offset then 0 else offset)
        in read_loop K off (raw_lines (drop (nat off) s))))"

text \<open>\<open>ReadRecords\<close>, by contrast, gives up at the first line that does not decode.\<close>

fun read_all :: "codec \<Rightarrow> string list \<Rightarrow> unit + spool_record list" where
  "read_all K [] = Inr []"
| "read_all K (l # ls) =
     (if length l \<ge> maxLine then Inl ()
      else if drop_cr l = [] then read_all K ls
      else case cd_dec K (drop_cr l) of
        None \<Rightarrow> Inl ()
      | Some r \<Rightarrow> (case read_all K ls of Inl e \<Rightarrow> Inl e | Inr rs \<Rightarrow> Inr (r # rs)))"

definition ReadRecords :: "codec \<Rightarrow> string option \<Rightarrow> unit + spool_record list" where
  "ReadRecords K file = (case file of None \<Rightarrow> Inr [] | Some s \<Rightarrow> read_all K (raw_lines s))"

section \<open>Appending\<close>

text \<open>What a write does: all of it, only its first bytes before an error, or all of it with a
  failing sync.\<close>

datatype write_outcome = Wrote | Torn nat | SyncFailed

datatype append_error = ErrFull | ErrIO | ErrClosed

definition line_of :: "codec \<Rightarrow> spool_record \<Rightarrow> string" where
  "line_of K r = cd_enc K r @ [NL]"

definition file_of :: "codec \<Rightarrow> spool_record list \<Rightarrow> string" where
  "file_of K rs = concat (map (line_of K) rs)"

definition write_bytes :: "int \<Rightarrow> write_outcome \<Rightarrow> string \<Rightarrow> string \<Rightarrow> append_error option \<times> string" where
  "write_bytes maxBytes outc buf file =
     (if 0 < maxBytes \<and> maxBytes < int (length file) + int (length buf) then (Some ErrFull, file)
      else case outc of
        Wrote \<Rightarrow> (None, file @ buf)
      | Torn n \<Rightarrow> (Some ErrIO, file @ take n buf)
      | SyncFailed \<Rightarrow> (Some ErrIO, file @ buf))"

definition Append :: "codec \<Rightarrow> int \<Rightarrow> write_outcome \<Rightarrow> spool_record \<Rightarrow> string \<Rightarrow> append_error option \<times> string" where
  "Append K maxBytes outc r file = write_bytes maxBytes outc (line_of K r) file"

definition AppendBatch ::
  "codec \<Rightarrow> int \<Rightarrow> write_outcome \<Rightarrow> spool_record list \<Rightarrow> string \<Rightarrow> append_error option \<times> string" where
  "AppendBatch K maxBytes outc rs file =
     (if rs = [] then (None, file) else write_bytes maxBytes outc (file_of K rs) file)"

section \<open>The directory\<close>

record position =
  ps_segment :: string
  ps_offset :: int

definition start :: position where "start = \<lparr>ps_segment = [], ps_offset = 0\<rparr>"

text \<open>\<open>dk_cursor\<close> is what \<open>cursor.json\<close> reads as, \<open>None\<close> when it cannot be read; a missing
  file reads as \<open>start\<close>.  \<open>dk_maybe\<close> holds every position the file may read as
  after a loss of power: the last committed one and those written since.\<close>

record disk =
  dk_active :: "string option"
  dk_segments :: "(string \<times> string) list"
  dk_cursor :: "position option"
  dk_maybe :: "position list"
  dk_dead :: string

definition segmentPrefix :: string where "segmentPrefix = ''ingest-''"
definition segmentSuffix :: string where "segmentSuffix = ''.ndjson''"

definition isSegmentName :: "string \<Rightarrow> bool" where
  "isSegmentName name \<longleftrightarrow> has_prefix name segmentPrefix \<and> has_suffix name segmentSuffix
     \<and> length segmentPrefix + length segmentSuffix < length name
     \<and> CHR ''/'' \<notin> set name \<and> CHR 0x5C \<notin> set name"

definition segment_file :: "disk \<Rightarrow> string \<Rightarrow> string option" where
  "segment_file d segment = (if segment = [] then dk_active d else map_of (dk_segments d) segment)"

definition SegmentExists :: "disk \<Rightarrow> string \<Rightarrow> bool" where
  "SegmentExists d segment \<longleftrightarrow> segment_file d segment \<noteq> None"

definition ListSegments :: "disk \<Rightarrow> string list" where
  "ListSegments d = sort (filter isSegmentName (remdups (map fst (dk_segments d))))"

definition RemoveSegment :: "string \<Rightarrow> disk \<Rightarrow> disk" where
  "RemoveSegment segment d =
     (if \<not> isSegmentName segment then d
      else d\<lparr>dk_segments := filter (\<lambda>(n, c). n \<noteq> segment) (dk_segments d)\<rparr>)"

definition ReadPosition :: "disk \<Rightarrow> position option" where "ReadPosition d = dk_cursor d"

definition WritePosition :: "position \<Rightarrow> disk \<Rightarrow> disk" where
  "WritePosition p d = d\<lparr>dk_cursor := Some p, dk_maybe := dk_maybe d @ [p]\<rparr>"

definition CommitPosition :: "position \<Rightarrow> disk \<Rightarrow> disk" where
  "CommitPosition p d = d\<lparr>dk_cursor := Some p, dk_maybe := [p]\<rparr>"

definition AppendDeadLetter :: "codec \<Rightarrow> spool_record \<Rightarrow> disk \<Rightarrow> disk" where
  "AppendDeadLetter K r d = d\<lparr>dk_dead := dk_dead d @ line_of K r\<rparr>"

text \<open>The suffixes \<open>-001\<close> to \<open>-999\<close> are tried after the bare timestamp.\<close>

definition three_digits :: "nat \<Rightarrow> string" where
  "three_digits i = [digit_char (i div 100), digit_char (i div 10 mod 10), digit_char (i mod 10)]"

definition segment_candidate :: "string \<Rightarrow> nat \<Rightarrow> string" where
  "segment_candidate ts i = (if i = 0 then segmentPrefix @ ts @ segmentSuffix
     else segmentPrefix @ ts @ ''-'' @ three_digits i @ segmentSuffix)"

definition newSegmentName :: "string \<Rightarrow> disk \<Rightarrow> string option" where
  "newSegmentName ts d = List.find (\<lambda>n. \<not> SegmentExists d n) (map (segment_candidate ts) [0..<1000])"

text \<open>The rename of the active segment; the fresh active file is created by the reopening.\<close>

definition rename_active :: "string \<Rightarrow> disk \<Rightarrow> disk" where
  "rename_active name d = (case dk_active d of
     None \<Rightarrow> d
   | Some c \<Rightarrow> d\<lparr>dk_active := None, dk_segments := (name, c) # dk_segments d\<rparr>)"

definition create_active :: "disk \<Rightarrow> disk" where
  "create_active d = (case dk_active d of None \<Rightarrow> d\<lparr>dk_active := Some []\<rparr> | Some c \<Rightarrow> d)"

text \<open>The backlog a reader sees.\<close>

definition fileSize :: "string option \<Rightarrow> int" where
  "fileSize f = (case f of None \<Rightarrow> 0 | Some s \<Rightarrow> int (length s))"

definition ReadBacklog :: "disk \<Rightarrow> int option" where
  "ReadBacklog d = (case ReadPosition d of
     None \<Rightarrow> None
   | Some p \<Rightarrow>
       (let active = fileSize (dk_active d);
            n = (if ps_segment p = [] then active - ps_offset p
                 else max (fileSize (segment_file d (ps_segment p)) - ps_offset p) 0 + active)
        in Some (max n 0)))"

section \<open>Files of whole records\<close>

lemma split_on_line: "d \<notin> set a \<Longrightarrow> split_on d (a @ d # s) = a # split_on d s"
  by (induction a) auto

lemma split_on_nonempty [simp]: "split_on d s \<noteq> []"
  by (induction s) (auto split: list.splits)

lemma raw_lines_line: "NL \<notin> set a \<Longrightarrow> raw_lines (a @ NL # s) = a # raw_lines s"
  by (simp add: raw_lines_def split_on_line Let_def)

lemma raw_lines_concat: "list_all (\<lambda>l. NL \<notin> set l) ls \<Longrightarrow> raw_lines (concat (map (\<lambda>l. l @ [NL]) ls)) = ls"
  by (induction ls) (simp_all add: raw_lines_line, simp add: raw_lines_def)

lemma raw_lines_file: "codec_ok K \<Longrightarrow> raw_lines (file_of K rs) = map (cd_enc K) rs"
  using raw_lines_concat [of "map (cd_enc K) rs"]
  by (simp add: file_of_def line_of_def [abs_def] codec_ok_def list_all_iff comp_def)

lemma file_of_append [simp]: "file_of K (rs @ qs) = file_of K rs @ file_of K qs"
  by (simp add: file_of_def)

lemma file_of_Nil [simp]: "file_of K [] = []"
  by (simp add: file_of_def)

lemma file_of_Cons: "file_of K (r # rs) = line_of K r @ file_of K rs"
  by (simp add: file_of_def)

definition size_of :: "codec \<Rightarrow> spool_record list \<Rightarrow> int" where
  "size_of K rs = int (length (file_of K rs))"

lemma size_of_simps [simp]:
  "size_of K [] = 0" "size_of K (r # rs) = int (length (cd_enc K r)) + 1 + size_of K rs"
  "size_of K (rs @ qs) = size_of K rs + size_of K qs" "0 \<le> size_of K rs"
  by (auto simp: size_of_def file_of_Cons line_of_def)

definition fits :: "codec \<Rightarrow> spool_record \<Rightarrow> bool" where
  "fits K r \<longleftrightarrow> length (cd_enc K r) < maxLine"

text \<open>The specification of a read: the records with the offsets of their ends.\<close>

fun with_ends :: "codec \<Rightarrow> int \<Rightarrow> spool_record list \<Rightarrow> (spool_record \<times> int) list" where
  "with_ends K pos [] = []"
| "with_ends K pos (r # rs) = (let e = pos + int (length (cd_enc K r)) + 1 in (public r, e) # with_ends K e rs)"

lemma codec_line: "codec_ok K \<Longrightarrow> drop_cr (cd_enc K r) = cd_enc K r \<and> cd_enc K r \<noteq> []
    \<and> cd_dec K (cd_enc K r) = Some (public r)"
  by (auto simp: codec_ok_def drop_cr_def)

lemma read_loop_records:
  "codec_ok K \<Longrightarrow> list_all (fits K) rs \<Longrightarrow> read_loop K pos (map (cd_enc K) rs) = Inr (with_ends K pos rs)"
  by (induction rs arbitrary: pos) (auto simp: fits_def codec_line Let_def)

lemma read_records:
  assumes "codec_ok K" "list_all (fits K) qs"
  shows "ReadRecordsFrom K (Some (file_of K (rs @ qs))) (size_of K rs) = Inr (with_ends K (size_of K rs) qs)"
proof -
  have "drop (nat (size_of K rs)) (file_of K (rs @ qs)) = file_of K qs" by (simp add: size_of_def)
  then show ?thesis
    using assms by (simp add: ReadRecordsFrom_def size_of_def raw_lines_file read_loop_records Let_def)
qed

lemma map_fst_with_ends [simp]: "map fst (with_ends K pos rs) = map public rs"
  by (induction rs arbitrary: pos) (auto simp: Let_def)

text \<open>C30: What is appended is what is read: after a successful batch append to a file of whole
  records, reading from the boundary after any number of its records returns exactly the
  records behind it, in order, and each returned offset is again such a boundary, so reading
  on from it returns the rest.\<close>

theorem spool_read_back:
  assumes "codec_ok K" "list_all (fits K) (rs @ qs @ new)"
    and "AppendBatch K maxBytes outc new (file_of K (rs @ qs)) = (None, file)"
  shows "ReadRecordsFrom K (Some file) (size_of K rs) = Inr (with_ends K (size_of K rs) (qs @ new))
    \<and> (\<forall>k < length (qs @ new).
        snd (with_ends K (size_of K rs) (qs @ new) ! k) = size_of K (rs @ take (Suc k) (qs @ new)))"
proof -
  have f: "file = file_of K (rs @ qs @ new)"
    using assms(3) by (auto simp: AppendBatch_def write_bytes_def split: if_splits write_outcome.splits)
  have e: "k < length xs \<Longrightarrow> snd (with_ends K pos xs ! k) = pos + size_of K (take (Suc k) xs)"
    for k pos and xs :: "spool_record list"
  proof (induction xs arbitrary: k pos)
    case (Cons x xs)
    then show ?case by (cases k) (auto simp: Let_def)
  qed simp
  have "list_all (fits K) (qs @ new)" using assms(2) by simp
  from read_records [OF assms(1) this, of rs] e show ?thesis unfolding f by simp
qed

text \<open>With a limit set, no append, whole or torn, takes the active file past it, and a full
  spool is refused before a byte is written.\<close>

theorem spool_never_exceeds_limit:
  assumes "0 < maxBytes" "int (length file) \<le> maxBytes"
  shows "int (length (snd (AppendBatch K maxBytes outc rs file))) \<le> maxBytes
    \<and> (rs \<noteq> [] \<and> maxBytes < int (length file) + size_of K rs
        \<longrightarrow> AppendBatch K maxBytes outc rs file = (Some ErrFull, file))"
  using assms by (auto simp: AppendBatch_def write_bytes_def size_of_def split: write_outcome.splits)

section \<open>A concrete codec\<close>

text \<open>A line of hexadecimal digits and commas.\<close>

definition hex_digit :: "nat \<Rightarrow> char" where "hex_digit n = char_of (97 + n)"

fun enc_text :: "string \<Rightarrow> string" where
  "enc_text [] = '',''"
| "enc_text (c # s) = hex_digit (of_char c div 16) # hex_digit (of_char c mod 16) # enc_text s"

fun dec_text :: "string \<Rightarrow> (string \<times> string) option" where
  "dec_text [] = None"
| "dec_text [c] = (if c = CHR '','' then Some ([], []) else None)"
| "dec_text (a # b # s) = (if a = CHR '','' then Some ([], b # s)
     else map_option (\<lambda>(t, r). (char_of (((of_char a :: nat) - 97) * 16 + (of_char b - 97)) # t, r)) (dec_text s))"

lemma hex_digit_range: "n < 16 \<Longrightarrow> of_char (hex_digit n) = 97 + n"
  by (simp add: hex_digit_def)

lemma hex_digit_plain: "n < 16 \<Longrightarrow> hex_digit n \<noteq> CHR '','' \<and> hex_digit n \<noteq> NL \<and> hex_digit n \<noteq> CR"
  using hex_digit_range [of n] by (auto simp: hex_digit_def dest!: arg_cong [where f = "of_char :: char \<Rightarrow> nat"])

lemma dec_enc_text [simp]: "dec_text (enc_text s @ r) = Some (s, r)"
proof (induction s)
  case Nil
  then show ?case by (cases r) auto
next
  case (Cons c s)
  have c: "(of_char c :: nat) < 256" by (rule nat_of_char_less_256)
  have "char_of ((of_char c :: nat) div 16 * 16 + of_char c mod 16) = c"
    by (metis char_of_char div_mult_mod_eq)
  moreover have d: "(of_char c :: nat) div 16 < 16" using c by (simp add: less_mult_imp_div_less)
  moreover have "of_char (hex_digit (of_char c div 16)) = 97 + (of_char c :: nat) div 16"
    by (rule hex_digit_range [OF d])
  moreover have "of_char (hex_digit (of_char c mod 16)) = 97 + (of_char c :: nat) mod 16"
    by (rule hex_digit_range) simp
  moreover have "hex_digit (of_char c div 16) \<noteq> CHR '',''" using d hex_digit_plain by simp
  ultimately show ?case using Cons by simp
qed

definition enc_int :: "int \<Rightarrow> string" where "enc_int i = enc_text (itoa i)"

definition dec_int :: "string \<Rightarrow> (int \<times> string) option" where
  "dec_int s = (case dec_text s of
     None \<Rightarrow> None
   | Some (t, r) \<Rightarrow>
       (if t \<noteq> [] \<and> hd t = CHR ''-'' then map_option (\<lambda>n. (- int n, r)) (parse_digits 0 (tl t))
        else map_option (\<lambda>n. (int n, r)) (parse_digits 0 t)))"

lemma dec_enc_int [simp]: "dec_int (enc_int i @ r) = Some (i, r)"
proof -
  have "hd (nat_str n) \<noteq> CHR ''-''" for n using nat_str_chars [of "hd (nat_str n)" n] by simp
  then show ?thesis by (simp add: dec_int_def enc_int_def itoa_def parse_digits_nat_str)
qed

definition plain_enc :: "spool_record \<Rightarrow> string" where
  "plain_enc r = enc_text (sr_ingestID r) @ enc_int (sr_receivedAt r) @ enc_text (sr_kind r)
     @ enc_text (sr_contentType r) @ enc_text (sr_remoteAddr r) @ enc_int (sr_contentLength r)
     @ enc_text (sr_body r) @ enc_text (sr_projectSlug r) @ enc_int (sr_projectID r)"

definition plain_dec :: "string \<Rightarrow> spool_record option" where
  "plain_dec s0 =
     Option.bind (dec_text s0) (\<lambda>(ingestID, s1). Option.bind (dec_int s1) (\<lambda>(receivedAt, s2).
     Option.bind (dec_text s2) (\<lambda>(kind, s3). Option.bind (dec_text s3) (\<lambda>(contentType, s4).
     Option.bind (dec_text s4) (\<lambda>(remoteAddr, s5). Option.bind (dec_int s5) (\<lambda>(contentLength, s6).
     Option.bind (dec_text s6) (\<lambda>(body, s7). Option.bind (dec_text s7) (\<lambda>(slug, s8).
     Option.bind (dec_int s8) (\<lambda>(projectID, s9).
       if s9 \<noteq> [] then None
       else Some \<lparr>sr_ingestID = ingestID, sr_receivedAt = receivedAt, sr_kind = kind,
         sr_contentType = contentType, sr_remoteAddr = remoteAddr, sr_contentLength = contentLength,
         sr_body = body, sr_projectSlug = slug, sr_projectID = projectID, sr_internal = False\<rparr>)))))))))"

definition plain_codec :: codec where "plain_codec = \<lparr>cd_enc = plain_enc, cd_dec = plain_dec\<rparr>"

lemma enc_text_chars: "NL \<notin> set (enc_text s) \<and> enc_text s \<noteq> [] \<and> last (enc_text s) = CHR '',''"
proof (induction s)
  case (Cons c s)
  have "(of_char c :: nat) < 256" by (rule nat_of_char_less_256)
  then have "(of_char c :: nat) div 16 < 16" by (simp add: less_mult_imp_div_less)
  then have "hex_digit (of_char c div 16) \<noteq> NL" by (simp add: hex_digit_plain)
  moreover have "hex_digit (of_char c mod 16) \<noteq> NL" by (simp add: hex_digit_plain)
  ultimately show ?case using Cons by (auto simp: eq_commute [of NL])
qed simp

lemma plain_codec_ok: "codec_ok plain_codec"
  unfolding codec_ok_def plain_codec_def codec.simps
proof (intro allI conjI)
  fix r
  show "plain_enc r \<noteq> []" using enc_text_chars by (simp add: plain_enc_def)
  show "NL \<notin> set (plain_enc r)" using enc_text_chars by (simp add: plain_enc_def enc_int_def)
  show "last (plain_enc r) \<noteq> CR" using enc_text_chars by (simp add: plain_enc_def enc_int_def)
  have "dec_int (enc_int (sr_projectID r)) = Some (sr_projectID r, [])"
    using dec_enc_int [of "sr_projectID r" "[]"] by simp
  then show "plain_dec (plain_enc r) = Some (public r)"
    by (simp add: plain_dec_def plain_enc_def public_def)
qed

definition small_record :: "string \<Rightarrow> spool_record" where
  "small_record i = \<lparr>sr_ingestID = i, sr_receivedAt = 0, sr_kind = [], sr_contentType = [], sr_remoteAddr = [],
     sr_contentLength = 0, sr_body = [], sr_projectSlug = [], sr_projectID = 0, sr_internal = False\<rparr>"

lemma length_enc_text: "length (enc_text s) = 2 * length s + 1"
  by (induction s) auto

lemma small_fits: "length i < 1000 \<Longrightarrow> fits plain_codec (small_record i)"
  by (simp add: fits_def plain_codec_def plain_enc_def small_record_def enc_int_def length_enc_text maxLine_def
      itoa_def nat_str.simps)

theorem spool_read_back_witness:
  "\<exists>file. AppendBatch plain_codec 0 Wrote [small_record ''b''] (file_of plain_codec [small_record ''a'']) = (None, file)
     \<and> ReadRecordsFrom plain_codec (Some file) 0
         = Inr (with_ends plain_codec 0 [small_record ''a'', small_record ''b''])"
proof -
  have a: "AppendBatch plain_codec 0 Wrote [small_record ''b''] (file_of plain_codec ([] @ [small_record ''a'']))
      = (None, file_of plain_codec [small_record ''a'', small_record ''b''])"
    by (simp add: AppendBatch_def write_bytes_def file_of_def)
  have "list_all (fits plain_codec) ([] @ [small_record ''a''] @ [small_record ''b''])"
    using small_fits by simp
  from spool_read_back [OF plain_codec_ok this a] a show ?thesis by auto
qed

theorem spool_never_exceeds_limit_witness:
  "int (length (snd (AppendBatch plain_codec 100 (Torn 3) [small_record ''b''] (file_of plain_codec [small_record ''a''])))) \<le> 100"
proof -
  have "int (length (file_of plain_codec [small_record ''a''])) \<le> 100"
    by (simp add: file_of_def line_of_def plain_codec_def plain_enc_def small_record_def enc_int_def
        length_enc_text itoa_def nat_str.simps)
  then show ?thesis using spool_never_exceeds_limit [of 100 "file_of plain_codec [small_record ''a'']"] by simp
qed

section \<open>What a torn write does\<close>

text \<open>A torn append loses the next accepted record: the bytes left by the failed write have no
  newline, so the record appended after them, reported as stored, lands on the same line, and
  when that line does not decode a read skips both.\<close>

theorem torn_append_swallows_next:
  assumes "codec_ok K" "list_all (fits K) rs" "0 < n" "n \<le> length (cd_enc K a)"
    and "cd_dec K (take n (cd_enc K a) @ cd_enc K b) = None" "n + length (cd_enc K b) < maxLine"
  shows "\<exists>f1 f2. Append K 0 (Torn n) a (file_of K rs) = (Some ErrIO, f1)
    \<and> Append K 0 Wrote b f1 = (None, f2)
    \<and> ReadRecordsFrom K (Some f2) 0 = Inr (with_ends K 0 rs)"
proof -
  let ?g = "take n (cd_enc K a) @ cd_enc K b"
  let ?f1 = "file_of K rs @ take n (cd_enc K a)" and ?f2 = "file_of K rs @ ?g @ NL # []"
  have nl: "NL \<notin> set ?g" using assms(1) by (auto simp: codec_ok_def dest: in_set_takeD)
  have cr: "drop_cr ?g = ?g" using assms(1) by (auto simp: codec_ok_def drop_cr_def)
  have raw: "raw_lines ?f2 = map (cd_enc K) rs @ [?g]"
  proof (induction rs)
    case Nil
    then show ?case using raw_lines_line [OF nl, of "[]"] by (simp add: raw_lines_def)
  next
    case (Cons r rs)
    have "NL \<notin> set (cd_enc K r)" using assms(1) by (simp add: codec_ok_def)
    from raw_lines_line [OF this] Cons show ?case by (simp add: file_of_Cons line_of_def)
  qed
  have skip: "read_loop K pos (map (cd_enc K) rs @ [?g]) = Inr (with_ends K pos rs)" for pos
    using assms(2)
  proof (induction rs arbitrary: pos)
    case Nil
    have "length ?g < maxLine" using assms(6) by simp
    moreover have "?g \<noteq> []" using assms(1) by (simp add: codec_ok_def)
    ultimately show ?case using assms(5) cr by (simp add: Let_def del: length_append split: option.splits)
  next
    case (Cons r rs)
    then show ?case using assms(1) by (simp add: fits_def codec_line Let_def)
  qed
  have "Append K 0 (Torn n) a (file_of K rs) = (Some ErrIO, ?f1)"
    using assms(4) by (simp add: Append_def write_bytes_def line_of_def)
  moreover have "Append K 0 Wrote b ?f1 = (None, ?f2)"
    by (simp add: Append_def write_bytes_def line_of_def)
  moreover have "ReadRecordsFrom K (Some ?f2) 0 = Inr (with_ends K 0 rs)"
    using skip [of 0] by (simp add: ReadRecordsFrom_def raw del: append.simps append_assoc)
  ultimately show ?thesis by blast
qed

theorem torn_append_swallows_next_witness:
  "\<exists>f1 f2. Append plain_codec 0 (Torn 1) (small_record ''a'') [] = (Some ErrIO, f1)
    \<and> Append plain_codec 0 Wrote (small_record ''b'') f1 = (None, f2)
    \<and> ReadRecordsFrom plain_codec (Some f2) 0 = Inr []"
proof -
  have "cd_dec plain_codec (take 1 (cd_enc plain_codec (small_record ''a'')) @ cd_enc plain_codec (small_record ''b'')) = None"
    by code_simp
  moreover have "1 \<le> length (cd_enc plain_codec (small_record ''a''))"
    "1 + length (cd_enc plain_codec (small_record ''b'')) < maxLine"
    by (simp_all add: plain_codec_def plain_enc_def small_record_def enc_int_def length_enc_text itoa_def
        nat_str.simps maxLine_def)
  ultimately show ?thesis
    using torn_append_swallows_next [OF plain_codec_ok, of "[]" 1 "small_record ''a''" "small_record ''b''"] by simp
qed

end
