(* ===== verification/MutQueue.thy ===== *)
theory MutQueue
  imports Spool
begin

text \<open>
  The queue of admin mutations: \<open>internal/mutqueue/mutqueue.go\<close>, the handler that applies a
  mutation (\<open>cmd/bugbarn/worker.go\<close>, \<open>applyMutation\<close>) and the request path that
  queues one (\<open>internal/api/issues.go\<close>, \<open>tryMutate\<close>).

  The two files are the lists of their bytes.  The open handle points at an inode, not at a
  name: after the rename of the active file it points at the processing file, and after that
  file is removed at nothing that is ever read again.
\<close>

record mutation =
  mu_IssueID :: string
  mu_Op :: string
  mu_MuteMode :: string
  mu_QueuedAt :: time

record mut_codec =
  mc_enc :: "mutation \<Rightarrow> string"
  mc_dec :: "string \<Rightarrow> mutation option"

definition mut_codec_ok :: "mut_codec \<Rightarrow> bool" where
  "mut_codec_ok K \<longleftrightarrow> (\<forall>r. mc_enc K r \<noteq> [] \<and> NL \<notin> set (mc_enc K r) \<and> last (mc_enc K r) \<noteq> CR
     \<and> mc_dec K (mc_enc K r) = Some r)"

datatype mq_handle = AtActive | AtProcessing | Detached

record mqueue =
  mq_active :: "string option"
  mq_processing :: "string option"
  mq_file :: mq_handle

datatype mq_error = MqOpen | MqParse | MqTooLong | MqApply mutation app_error | MqRemove | MqClaim | MqReopen | MqWrite

section \<open>Appending\<close>

text \<open>The write may succeed whole, stop after some bytes, or be whole with the sync failing after it;
  only the first is no error.  The time is filled in by the caller's clock.\<close>

definition write_at :: "string \<Rightarrow> mqueue \<Rightarrow> mqueue" where
  "write_at buf q = (case mq_file q of
     AtActive \<Rightarrow> q\<lparr>mq_active := map_option (\<lambda>s. s @ buf) (mq_active q)\<rparr>
   | AtProcessing \<Rightarrow> q\<lparr>mq_processing := map_option (\<lambda>s. s @ buf) (mq_processing q)\<rparr>
   | Detached \<Rightarrow> q)"

definition stamped :: "time \<Rightarrow> mutation \<Rightarrow> mutation" where
  "stamped now r = (if mu_QueuedAt r = zero_time then r\<lparr>mu_QueuedAt := now\<rparr> else r)"

definition mq_Append :: "mut_codec \<Rightarrow> write_outcome \<Rightarrow> time \<Rightarrow> mutation \<Rightarrow> mqueue \<Rightarrow> mq_error option \<times> mqueue" where
  "mq_Append K outc now r q =
     (let line = mc_enc K (stamped now r) @ [NL] in case outc of
        Wrote \<Rightarrow> (None, write_at line q)
      | Torn n \<Rightarrow> (Some MqWrite, write_at (take n line) q)
      | SyncFailed \<Rightarrow> (Some MqWrite, write_at line q))"

section \<open>Draining\<close>

text \<open>The default line limit of \<open>bufio.Scanner\<close>.\<close>

definition mq_maxLine :: nat where "mq_maxLine = 64 * 1024"

fun mq_lines :: "mut_codec \<Rightarrow> string list \<Rightarrow> mq_error + mutation list" where
  "mq_lines K [] = Inr []"
| "mq_lines K (l # ls) =
     (if length l \<ge> mq_maxLine then Inl MqTooLong
      else if drop_cr l = [] then mq_lines K ls
      else case mc_dec K (drop_cr l) of
        None \<Rightarrow> Inl MqParse
      | Some r \<Rightarrow> (case mq_lines K ls of Inl e \<Rightarrow> Inl e | Inr rs \<Rightarrow> Inr (r # rs)))"

text \<open>\<open>opens\<close>: an existing file can be opened.\<close>

definition mq_readRecords :: "mut_codec \<Rightarrow> bool \<Rightarrow> string option \<Rightarrow> mq_error + mutation list" where
  "mq_readRecords K opens file = (case file of
     None \<Rightarrow> Inr []
   | Some s \<Rightarrow> (if opens then mq_lines K (raw_lines s) else Inl MqOpen))"

fun apply_all :: "(mutation \<Rightarrow> 's \<Rightarrow> app_error option \<times> 's) \<Rightarrow> mutation list \<Rightarrow> 's \<Rightarrow> mq_error option \<times> 's" where
  "apply_all ap [] s = (None, s)"
| "apply_all ap (r # rs) s = (case ap r s of
     (Some e, s') \<Rightarrow> (Some (MqApply r e), s') | (None, s') \<Rightarrow> apply_all ap rs s')"

definition remove_processing :: "mqueue \<Rightarrow> mqueue" where
  "remove_processing q = q\<lparr>mq_processing := None,
     mq_file := (if mq_file q = AtProcessing then Detached else mq_file q)\<rparr>"

text \<open>An empty file is removed with the outcome ignored; removing a missing file fails.\<close>

definition drainFile ::
  "mut_codec \<Rightarrow> bool \<Rightarrow> bool \<Rightarrow> (mutation \<Rightarrow> 's \<Rightarrow> app_error option \<times> 's) \<Rightarrow> mqueue \<Rightarrow> 's
     \<Rightarrow> mq_error option \<times> mqueue \<times> 's" where
  "drainFile K opens removes ap q s = (case mq_readRecords K opens (mq_processing q) of
     Inl e \<Rightarrow> (Some e, q, s)
   | Inr [] \<Rightarrow> (None, if removes then remove_processing q else q, s)
   | Inr rs \<Rightarrow> (case apply_all ap rs s of
       (Some e, s') \<Rightarrow> (Some e, q, s')
     | (None, s') \<Rightarrow> (if removes then (None, remove_processing q, s') else (Some MqRemove, q, s'))))"

record mq_io =
  qi_open1 :: bool
  qi_remove1 :: bool
  qi_rename :: bool
  qi_reopen :: bool
  qi_open2 :: bool
  qi_remove2 :: bool

text \<open>The rename takes the handle's inode with it; reopening moves the handle to a new file.\<close>

definition claim_active :: "mqueue \<Rightarrow> mqueue" where
  "claim_active q = q\<lparr>mq_active := None, mq_processing := mq_active q,
     mq_file := (if mq_file q = AtActive then AtProcessing
                 else if mq_file q = AtProcessing then Detached else mq_file q)\<rparr>"

definition Drain ::
  "mut_codec \<Rightarrow> mq_io \<Rightarrow> (mutation \<Rightarrow> 's \<Rightarrow> app_error option \<times> 's) \<Rightarrow> mqueue \<Rightarrow> 's
     \<Rightarrow> mq_error option \<times> mqueue \<times> 's" where
  "Drain K io ap q s = (case drainFile K (qi_open1 io) (qi_remove1 io) ap q s of
     (Some e, q1, s1) \<Rightarrow> (Some e, q1, s1)
   | (None, q1, s1) \<Rightarrow>
       (if mq_active q1 = None then (None, q1, s1)
        else if \<not> qi_rename io then (Some MqClaim, q1, s1)
        else if \<not> qi_reopen io then (Some MqReopen, claim_active q1, s1)
        else drainFile K (qi_open2 io) (qi_remove2 io) ap
               ((claim_active q1)\<lparr>mq_active := Some [], mq_file := AtActive\<rparr>) s1))"

text \<open>A restart opens the active file again, creating it when it is missing.\<close>

definition mq_New :: "mqueue \<Rightarrow> mqueue" where
  "mq_New q = q\<lparr>mq_active := (case mq_active q of None \<Rightarrow> Some [] | Some s \<Rightarrow> Some s), mq_file := AtActive\<rparr>"

section \<open>What is acknowledged is applied\<close>

text \<open>A run of the queue: requests, drains and restarts, with the mutations acknowledged and
  those applied without an error.\<close>

record 's mq_world =
  qw_queue :: mqueue
  qw_state :: 's
  qw_acked :: "mutation list"
  qw_applied :: "mutation list"

datatype mq_op = QAppend write_outcome time mutation | QDrain mq_io | QRestart

definition recording :: "(mutation \<Rightarrow> 's \<Rightarrow> app_error option \<times> 's) \<Rightarrow> mutation \<Rightarrow> 's \<times> mutation list
    \<Rightarrow> app_error option \<times> 's \<times> mutation list" where
  "recording ap r sl = (case ap r (fst sl) of
     (Some e, s') \<Rightarrow> (Some e, s', snd sl) | (None, s') \<Rightarrow> (None, s', snd sl @ [r]))"

fun mq_step :: "mut_codec \<Rightarrow> (mutation \<Rightarrow> 's \<Rightarrow> app_error option \<times> 's) \<Rightarrow> 's mq_world \<Rightarrow> mq_op \<Rightarrow> 's mq_world" where
  "mq_step K ap w (QAppend outc now r) = (case mq_Append K outc now r (qw_queue w) of
     (Some e, q) \<Rightarrow> w\<lparr>qw_queue := q\<rparr>
   | (None, q) \<Rightarrow> w\<lparr>qw_queue := q, qw_acked := qw_acked w @ [stamped now r]\<rparr>)"
| "mq_step K ap w (QDrain io) = (case Drain K io (recording ap) (qw_queue w) (qw_state w, qw_applied w) of
     (_, q, s, l) \<Rightarrow> w\<lparr>qw_queue := q, qw_state := s, qw_applied := l\<rparr>)"
| "mq_step K ap w QRestart = w\<lparr>qw_queue := mq_New (qw_queue w)\<rparr>"

definition mq_line_ok :: "mut_codec \<Rightarrow> mutation \<Rightarrow> bool" where
  "mq_line_ok K r \<longleftrightarrow> length (mc_enc K r) < mq_maxLine"

fun mq_op_ok :: "mut_codec \<Rightarrow> mq_op \<Rightarrow> bool" where
  "mq_op_ok K (QAppend outc now r) \<longleftrightarrow> mq_line_ok K (stamped now r) \<and> (case outc of Torn n \<Rightarrow> False | _ \<Rightarrow> True)"
| "mq_op_ok K (QDrain io) \<longleftrightarrow> qi_reopen io"
| "mq_op_ok K QRestart \<longleftrightarrow> True"

definition mq_text :: "mut_codec \<Rightarrow> mutation list \<Rightarrow> string" where
  "mq_text K rs = concat (map (\<lambda>r. mc_enc K r @ [NL]) rs)"

text \<open>What the queue still has to apply, in order.\<close>

definition mq_records :: "mut_codec \<Rightarrow> string option \<Rightarrow> mutation list" where
  "mq_records K f = (case mq_readRecords K True f of Inl e \<Rightarrow> [] | Inr rs \<Rightarrow> rs)"

definition mq_pending :: "mut_codec \<Rightarrow> mqueue \<Rightarrow> mutation list" where
  "mq_pending K q = mq_records K (mq_processing q) @ mq_records K (mq_active q)"

definition holds_text :: "mut_codec \<Rightarrow> string option \<Rightarrow> mutation list \<Rightarrow> bool" where
  "holds_text K f rs \<longleftrightarrow> list_all (mq_line_ok K) rs \<and> (f = Some (mq_text K rs) \<or> f = None \<and> rs = [])"

lemma mq_lines_text:
  "mut_codec_ok K \<Longrightarrow> list_all (mq_line_ok K) rs \<Longrightarrow> mq_lines K (raw_lines (mq_text K rs)) = Inr rs"
proof -
  assume K: "mut_codec_ok K" and rs: "list_all (mq_line_ok K) rs"
  have "raw_lines (mq_text K rs) = map (mc_enc K) rs"
    using K raw_lines_concat [of "map (mc_enc K) rs"]
    by (simp add: mq_text_def mut_codec_ok_def list_all_iff comp_def)
  moreover have "mq_lines K (map (mc_enc K) rs) = Inr rs"
    using rs K by (induction rs) (auto simp: mq_line_ok_def mut_codec_ok_def drop_cr_def)
  ultimately show ?thesis by simp
qed

lemma holds_text_read:
  assumes "mut_codec_ok K" "holds_text K f rs"
  shows "mq_readRecords K True f = Inr rs" "mq_records K f = rs"
    "(\<exists>e. mq_readRecords K opens f = Inl e) \<or> mq_readRecords K opens f = Inr rs"
  using assms mq_lines_text [OF assms(1)] by (auto simp: holds_text_def mq_readRecords_def mq_records_def)

definition mq_inv :: "mut_codec \<Rightarrow> mqueue \<Rightarrow> mutation list \<Rightarrow> mutation list \<Rightarrow> bool" where
  "mq_inv K q ps as \<longleftrightarrow> holds_text K (mq_processing q) ps \<and> holds_text K (mq_active q) as
     \<and> mq_active q \<noteq> None \<and> mq_file q = AtActive"

lemma mq_inv_pending: "mut_codec_ok K \<Longrightarrow> mq_inv K q ps as \<Longrightarrow> mq_pending K q = ps @ as"
  using holds_text_read(2) unfolding mq_inv_def mq_pending_def by metis

lemma mq_text_simps [simp]: "mq_text K [] = []" "mq_text K (as @ bs) = mq_text K as @ mq_text K bs"
  "mq_text K (r # rs) = mc_enc K r @ NL # mq_text K rs"
  by (simp_all add: mq_text_def)

lemma recording_simps:
  "ap r s = (None, s') \<Longrightarrow> recording ap r (s, l) = (None, s', l @ [r])"
  "ap r s = (Some e, s') \<Longrightarrow> recording ap r (s, l) = (Some e, s', l)"
  by (simp_all add: recording_def)

lemma apply_all_recording:
  assumes "apply_all (recording ap) rs (s, l) = (e, s', l')"
  shows "\<exists>k \<le> length rs. l' = l @ take k rs \<and> (e = None \<longrightarrow> k = length rs)"
  using assms
proof (induction rs arbitrary: s l)
  case (Cons r rs)
  show ?case
  proof (cases "fst (ap r s)")
    case None
    then have "apply_all (recording ap) rs (snd (ap r s), l @ [r]) = (e, s', l')"
      using Cons.prems by (cases "ap r s") (simp add: recording_simps)
    from Cons.IH [OF this] obtain k where
      "k \<le> length rs" "l' = (l @ [r]) @ take k rs" "e = None \<longrightarrow> k = length rs" by blast
    then show ?thesis by (intro exI [of _ "Suc k"]) simp
  next
    case (Some x)
    then show ?thesis using Cons.prems by (cases "ap r s") (auto simp: recording_simps)
  qed
qed simp

text \<open>Reading a file, applying it and removing it keeps every record in the file or applied.\<close>

lemma drainFile_inv:
  assumes K: "mut_codec_ok K" and q: "mq_inv K q ps as"
    and d: "drainFile K opens removes (recording ap) q (s, l) = (e, q', s', l')"
  shows "\<exists>ps'. mq_inv K q' ps' as \<and> mq_active q' = mq_active q \<and> (e = None \<longrightarrow> ps' = [])
    \<and> mset (l @ ps) \<subseteq># mset (l' @ ps')"
proof -
  have keep: ?thesis if "q' = q" "l' = l" "e = None \<longrightarrow> ps = []" using that q by auto
  consider (bad) x where "mq_readRecords K opens (mq_processing q) = Inl x"
    | (read) "mq_readRecords K opens (mq_processing q) = Inr ps"
    using holds_text_read(3) [OF K, of "mq_processing q" ps opens] q unfolding mq_inv_def by blast
  then show ?thesis
  proof cases
    case bad
    then show ?thesis using d keep by (auto simp: drainFile_def)
  next
    case read
    have gone: "mq_inv K (remove_processing q) [] as"
      using q by (auto simp: mq_inv_def remove_processing_def holds_text_def)
    show ?thesis
    proof (cases ps)
      case Nil
      then show ?thesis using d read gone q
        by (auto simp: drainFile_def remove_processing_def split: if_splits)
    next
      case (Cons p pt)
      obtain e1 s1 l1 where a: "apply_all (recording ap) ps (s, l) = (e1, s1, l1)"
        by (metis surj_pair)
      from apply_all_recording [OF a] obtain k where k: "l1 = l @ take k ps" "e1 = None \<longrightarrow> k = length ps" by blast
      have d': "(e, q', s', l') = (case e1 of Some x \<Rightarrow> (Some x, q, s1, l1)
          | None \<Rightarrow> if removes then (None, remove_processing q, s1, l1) else (Some MqRemove, q, s1, l1))"
        using d read a unfolding drainFile_def Cons by (simp split: option.splits)
      show ?thesis
      proof (cases "e1 = None \<and> removes")
        case True
        then have "q' = remove_processing q" "l' = l @ ps" using d' k by auto
        then show ?thesis using gone by (intro exI [of _ "[]"]) (simp add: remove_processing_def)
      next
        case False
        then have "q' = q" "l' = l1" "e \<noteq> None" using d' by (auto split: option.splits)
        then show ?thesis using q k by (intro exI [of _ ps]) auto
      qed
    qed
  qed
qed

lemma Drain_inv:
  assumes K: "mut_codec_ok K" and q: "mq_inv K q ps as" and io: "qi_reopen io"
    and d: "Drain K io (recording ap) q (s, l) = (e, q', s', l')"
  shows "\<exists>ps' as'. mq_inv K q' ps' as' \<and> mset (l @ ps @ as) \<subseteq># mset (l' @ ps' @ as')"
proof -
  obtain e1 q1 s1 l1 where d1: "drainFile K (qi_open1 io) (qi_remove1 io) (recording ap) q (s, l) = (e1, q1, s1, l1)"
    by (metis surj_pair)
  from drainFile_inv [OF K q d1] obtain ps1 where
    q1: "mq_inv K q1 ps1 as" and e1: "e1 = None \<longrightarrow> ps1 = []"
    and m1: "mset (l @ ps) \<subseteq># mset (l1 @ ps1)" by blast
  have m1': "mset (l @ ps @ as) \<subseteq># mset (l1 @ ps1 @ as)"
    using m1 by (simp add: subset_mset.add_right_mono add.assoc [symmetric])
  show ?thesis
  proof (cases "e1 = None \<and> qi_rename io")
    case False
    then have "q' = q1 \<and> l' = l1"
      using d d1 q1 by (auto simp: Drain_def mq_inv_def split: option.splits if_splits)
    then show ?thesis using q1 m1' by blast
  next
    case True
    let ?q2 = "(claim_active q1)\<lparr>mq_active := Some [], mq_file := AtActive\<rparr>"
    have q2: "mq_inv K ?q2 as []"
      using q1 by (auto simp: mq_inv_def claim_active_def holds_text_def)
    have "mq_active q1 \<noteq> None" using q1 by (simp add: mq_inv_def)
    then have d2: "drainFile K (qi_open2 io) (qi_remove2 io) (recording ap) ?q2 (s1, l1) = (e, q', s', l')"
      using d d1 True io unfolding Drain_def by auto
    from drainFile_inv [OF K q2 d2] obtain ps2 where
      q': "mq_inv K q' ps2 []" and m2: "mset (l1 @ as) \<subseteq># mset (l' @ ps2)" by blast
    have a: "mset (l @ ps @ as) \<subseteq># mset (l1 @ as)" using m1' e1 True by simp
    have "mset (l @ ps @ as) \<subseteq># mset (l' @ ps2 @ [])" using subset_mset.order_trans [OF a m2] by simp
    then show ?thesis using q' by blast
  qed
qed

lemma mq_step_inv:
  assumes K: "mut_codec_ok K" and ok: "mq_op_ok K x" and q: "mq_inv K (qw_queue w) ps as"
    and m: "mset (qw_acked w) \<subseteq># mset (qw_applied w @ ps @ as)" and w': "w' = mq_step K ap w x"
  shows "\<exists>ps' as'. mq_inv K (qw_queue w') ps' as' \<and> mset (qw_acked w') \<subseteq># mset (qw_applied w' @ ps' @ as')"
proof (cases x)
  case (QAppend outc now r)
  let ?r = "stamped now r"
  have grown: "mq_inv K (write_at (mc_enc K ?r @ [NL]) (qw_queue w)) ps (as @ [?r])"
    using q ok QAppend by (auto simp: mq_inv_def write_at_def holds_text_def)
  show ?thesis
  proof (cases outc)
    case Wrote
    then have "qw_queue w' = write_at (mc_enc K ?r @ [NL]) (qw_queue w)" "qw_acked w' = qw_acked w @ [?r]"
      "qw_applied w' = qw_applied w"
      using w' QAppend by (simp_all add: mq_Append_def Let_def)
    then show ?thesis using m grown by (intro exI [of _ ps] exI [of _ "as @ [?r]"]) auto
  next
    case (Torn n)
    then show ?thesis using ok QAppend by simp
  next
    case SyncFailed
    then have w1: "qw_queue w' = write_at (mc_enc K ?r @ [NL]) (qw_queue w)" "qw_acked w' = qw_acked w"
      "qw_applied w' = qw_applied w"
      using w' QAppend by (simp_all add: mq_Append_def Let_def)
    have "mset (qw_acked w) \<subseteq># add_mset ?r (mset (qw_applied w @ ps @ as))"
      using m by (rule subset_mset.order_trans) simp
    then show ?thesis using w1 grown by (intro exI [of _ ps] exI [of _ "as @ [?r]"]) simp
  qed
next
  case (QDrain io)
  obtain e q' s' l' where d: "Drain K io (recording ap) (qw_queue w) (qw_state w, qw_applied w) = (e, q', s', l')"
    by (metis surj_pair)
  have io: "qi_reopen io" using ok QDrain by simp
  from Drain_inv [OF K q io d] obtain ps' as' where
    "mq_inv K q' ps' as'" "mset (qw_applied w @ ps @ as) \<subseteq># mset (l' @ ps' @ as')" by blast
  then show ?thesis using w' QDrain d m
    by (intro exI [of _ ps'] exI [of _ as']) (auto intro: subset_mset.order_trans)
next
  case QRestart
  then have "qw_queue w' = qw_queue w" "qw_acked w' = qw_acked w" "qw_applied w' = qw_applied w"
    using q w' by (auto simp: mq_New_def mq_inv_def)
  then show ?thesis using q m by auto
qed

definition mq_start :: "'s \<Rightarrow> 's mq_world" where
  "mq_start s = \<lparr>qw_queue = mq_New \<lparr>mq_active = None, mq_processing = None, mq_file = AtActive\<rparr>,
     qw_state = s, qw_acked = [], qw_applied = []\<rparr>"


section \<open>In order, exactly once\<close>

definition io_good :: "mq_io \<Rightarrow> bool" where
  "io_good io \<longleftrightarrow> qi_open1 io \<and> qi_remove1 io \<and> qi_rename io \<and> qi_reopen io \<and> qi_open2 io \<and> qi_remove2 io"

lemma apply_all_good:
  "(\<And>r s. fst (ap r s) = None) \<Longrightarrow> apply_all ap rs s = (None, fold (\<lambda>r s. snd (ap r s)) rs s)"
proof (induction rs arbitrary: s)
  case (Cons r rs)
  obtain s1 where "ap r s = (None, s1)" using Cons.prems [of r s] by (cases "ap r s") simp
  then show ?case using Cons.IH [OF Cons.prems] by simp
qed simp

lemma drainFile_good:
  assumes "mut_codec_ok K" "holds_text K (mq_processing q) ps" "\<And>r s. fst (ap r s) = None"
  shows "drainFile K True True ap q s = (None, remove_processing q, fold (\<lambda>r s. snd (ap r s)) ps s)"
  using holds_text_read(1) [OF assms(1,2)] apply_all_good [of ap, OF assms(3)]
  by (cases ps) (simp_all add: drainFile_def del: apply_all.simps)

lemma remove_processing_idle: "mq_processing q = None \<Longrightarrow> mq_file q = Detached \<Longrightarrow> remove_processing q = q"
  by (cases q) (simp add: remove_processing_def)

text \<open>C26: A drain in which nothing fails is the drain of the abstract queue: it applies what was
  pending once each in the order it was queued, the leftovers of an interrupted drain first,
  and leaves nothing pending.\<close>

theorem drain_refines_queue:
  assumes "mut_codec_ok K" "mq_inv K q ps as" "io_good io" "\<And>r s. fst (ap r s) = None"
  shows "\<exists>q'. Drain K io ap q s = (None, q', fold (\<lambda>r s. snd (ap r s)) (mq_pending K q) s)
    \<and> mq_pending K q' = [] \<and> mq_file q' = AtActive"
proof -
  let ?f = "fold (\<lambda>r s. snd (ap r s))"
  let ?q1 = "remove_processing q"
  let ?q2 = "(claim_active ?q1)\<lparr>mq_active := Some [], mq_file := AtActive\<rparr>"
  have p: "mq_pending K q = ps @ as" by (rule mq_inv_pending [OF assms(1,2)])
  have h: "holds_text K (mq_processing q) ps" "holds_text K (mq_active q) as" "mq_active q \<noteq> None"
    using assms(2) by (auto simp: mq_inv_def)
  have h2: "holds_text K (mq_processing ?q2) as" using h by (simp add: claim_active_def remove_processing_def)
  have "Drain K io ap q s = drainFile K True True ap ?q2 (?f ps s)"
    using drainFile_good [OF assms(1) h(1), of ap] assms(3,4) h(3)
    by (auto simp: Drain_def io_good_def remove_processing_def)
  then have "Drain K io ap q s = (None, remove_processing ?q2, ?f (ps @ as) s)"
    using drainFile_good [OF assms(1) h2, of ap] assms(4) by simp
  moreover have "mq_pending K (remove_processing ?q2) = []"
    by (simp add: mq_pending_def mq_records_def mq_readRecords_def remove_processing_def raw_lines_def)
  ultimately show ?thesis unfolding p by (simp add: remove_processing_def)
qed

text \<open>After one failed reopening the queue silently drops every mutation: the next drain removes
  the file the open handle still points at, and from then on appends are acknowledged, drains
  report success, nothing is ever pending and nothing is applied, until the process restarts.\<close>

theorem failed_reopen_drops_mutations:
  assumes "mut_codec_ok K" "mq_inv K q ps as" "io_good io" "\<And>r s. fst (ap r s) = None"
  shows "\<exists>q1 s1 q2 s2. Drain K (io\<lparr>qi_reopen := False\<rparr>) ap q s = (Some MqReopen, q1, s1)
    \<and> Drain K io ap q1 s1 = (None, q2, s2)
    \<and> mq_Append K Wrote now r q2 = (None, q2) \<and> mq_pending K q2 = []
    \<and> Drain K io' ap q2 s' = (None, q2, s')"
proof -
  let ?f = "fold (\<lambda>r s. snd (ap r s))"
  let ?q1 = "claim_active (remove_processing q)"
  have h: "holds_text K (mq_processing q) ps" "holds_text K (mq_active q) as" "mq_active q \<noteq> None"
    "mq_file q = AtActive"
    using assms(2) by (auto simp: mq_inv_def)
  have h1: "holds_text K (mq_processing ?q1) as" using h by (simp add: claim_active_def remove_processing_def)
  have d1: "Drain K (io\<lparr>qi_reopen := False\<rparr>) ap q s = (Some MqReopen, ?q1, ?f ps s)"
    using drainFile_good [OF assms(1) h(1), of ap] assms(3,4) h(3)
    by (auto simp: Drain_def io_good_def remove_processing_def)
  let ?q2 = "remove_processing ?q1"
  have q2: "mq_active ?q2 = None" "mq_processing ?q2 = None" "mq_file ?q2 = Detached"
    using h by (simp_all add: claim_active_def remove_processing_def)
  have d2: "Drain K io ap ?q1 (?f ps s) = (None, ?q2, ?f as (?f ps s))"
    using drainFile_good [OF assms(1) h1, of ap] assms(3,4) q2(1) by (auto simp: Drain_def io_good_def)
  have e: "remove_processing ?q2 = ?q2" using q2 by (intro remove_processing_idle)
  have "Drain K io' ap ?q2 s' = (None, ?q2, s')"
    using q2 e by (simp add: Drain_def drainFile_def mq_readRecords_def)
  moreover have "mq_Append K Wrote now r ?q2 = (None, ?q2)" using q2 by (simp add: mq_Append_def write_at_def)
  moreover have "mq_pending K ?q2 = []"
    using q2 by (simp add: mq_pending_def mq_records_def mq_readRecords_def)
  ultimately show ?thesis using d1 d2 by blast
qed

section \<open>A torn append\<close>

text \<open>The claimed file begins with whole lines and ends in a piece that does not parse.\<close>

definition blocked :: "mut_codec \<Rightarrow> mqueue \<Rightarrow> bool" where
  "blocked K q \<longleftrightarrow> mq_file q \<noteq> AtProcessing \<and> (\<exists>as piece. mq_processing q = Some (mq_text K as @ piece)
     \<and> piece \<noteq> [] \<and> NL \<notin> set piece \<and> drop_cr piece \<noteq> [] \<and> mc_dec K (drop_cr piece) = None)"

lemma mq_lines_bad: "drop_cr l \<noteq> [] \<Longrightarrow> mc_dec K (drop_cr l) = None \<Longrightarrow> \<exists>e. mq_lines K (ls @ [l]) = Inl e"
  by (induction ls) (auto split: option.split sum.split)

lemma raw_lines_piece:
  assumes "mut_codec_ok K" "piece \<noteq> []" "NL \<notin> set piece"
  shows "raw_lines (mq_text K as @ piece) = map (mc_enc K) as @ [piece]"
proof (induction as)
  case Nil
  have "d \<notin> set l \<Longrightarrow> split_on d l = [l]" for d and l :: string by (induction l) auto
  then show ?case using assms by (simp add: raw_lines_def)
next
  case (Cons r as)
  have "NL \<notin> set (mc_enc K r)" using assms(1) by (simp add: mut_codec_ok_def)
  then show ?case using Cons raw_lines_line [of "mc_enc K r" "mq_text K as @ piece"] by simp
qed

lemma blocked_drain:
  assumes "mut_codec_ok K" "blocked K q"
  shows "\<exists>e. Drain K io ap q s = (Some e, q, s)"
proof -
  obtain as piece where f: "mq_processing q = Some (mq_text K as @ piece)" and p: "piece \<noteq> []" "NL \<notin> set piece"
    "drop_cr piece \<noteq> []" "mc_dec K (drop_cr piece) = None" using assms(2) unfolding blocked_def by blast
  obtain e where "mq_lines K (raw_lines (mq_text K as @ piece)) = Inl e"
    using raw_lines_piece [OF assms(1) p(1,2)] mq_lines_bad [OF p(3,4)] by metis
  then have "\<exists>e. mq_readRecords K (qi_open1 io) (mq_processing q) = Inl e" by (simp add: mq_readRecords_def f)
  then show ?thesis by (auto simp: Drain_def drainFile_def)
qed

lemma blocked_step:
  assumes "mut_codec_ok K" "blocked K (qw_queue w)" "w' = mq_step K ap w x"
  shows "blocked K (qw_queue w') \<and> qw_state w' = qw_state w \<and> qw_applied w' = qw_applied w"
proof (cases x)
  case (QAppend outc now r)
  have "blocked K (write_at buf (qw_queue w))" for buf
    using assms(2) by (cases "mq_file (qw_queue w)") (simp_all add: blocked_def write_at_def)
  then show ?thesis using QAppend assms(3) by (auto simp: mq_Append_def Let_def split: write_outcome.split)
next
  case (QDrain io)
  then show ?thesis using blocked_drain [OF assms(1,2), of io "recording ap" "(qw_state w, qw_applied w)"] assms(2,3) by auto
next
  case QRestart
  then show ?thesis using assms(2,3) by (simp add: mq_New_def blocked_def)
qed

text \<open>An append of a mutation that stops after some bytes blocks the queue for good: the next drain
  claims the file with the piece at its end, cannot parse it, and applies none of the mutations
  acknowledged before it; from then on every drain stops at the claimed file, so that over any
  further appends, drains and restarts no mutation is ever applied again.\<close>

theorem torn_mutation_blocks_queue:
  assumes "mut_codec_ok K" "mq_inv K (qw_queue w) [] as" "qi_open1 io" "qi_rename io" "qi_reopen io"
    and "piece = take n (mc_enc K (stamped now r))" "drop_cr piece \<noteq> []" "mc_dec K (drop_cr piece) = None"
    and "n \<le> length (mc_enc K (stamped now r))"
    and "w' = foldl (mq_step K ap) w (QAppend (Torn n) now r # QDrain io # ops)"
  shows "qw_applied w' = qw_applied w \<and> qw_state w' = qw_state w"
proof -
  let ?q = "qw_queue w"
  have q: "mq_active ?q = Some (mq_text K as)" "mq_file ?q = AtActive"
    "mq_processing ?q = Some [] \<or> mq_processing ?q = None"
    using assms(2) by (auto simp: mq_inv_def holds_text_def)
  have "drop_cr [] = []" by (simp add: drop_cr_def)
  then have p1: "piece \<noteq> []" using assms(7) by auto
  have "set piece \<subseteq> set (mc_enc K (stamped now r))" unfolding assms(6) by (rule set_take_subset)
  then have p: "piece \<noteq> []" "NL \<notin> set piece" using p1 assms(1) by (auto simp: mut_codec_ok_def)
  define q1 where "q1 = ?q\<lparr>mq_active := Some (mq_text K as @ piece)\<rparr>"
  define w1 where "w1 = mq_step K ap w (QAppend (Torn n) now r)"
  have w1: "w1 = w\<lparr>qw_queue := q1\<rparr>"
    using q assms(6,9) by (simp add: w1_def q1_def mq_Append_def write_at_def Let_def)
  define q2 where "q2 = (if qi_remove1 io then remove_processing q1 else q1)"
  define q3 where "q3 = (claim_active q2)\<lparr>mq_active := Some [], mq_file := AtActive\<rparr>"
  have "mq_readRecords K True (mq_processing q1) = Inr []"
    using q by (auto simp: q1_def mq_readRecords_def raw_lines_def)
  then have first: "drainFile K (qi_open1 io) (qi_remove1 io) rec q1 sl = (None, q2, sl)" for rec sl
    using assms(3) by (simp add: drainFile_def q2_def)
  have act: "mq_active q2 = Some (mq_text K as @ piece)" by (simp add: q2_def q1_def remove_processing_def)
  have b3: "blocked K q3"
    unfolding blocked_def using act p assms(7,8) by (simp add: q3_def claim_active_def) blast
  obtain e where rd: "mq_lines K (raw_lines (mq_text K as @ piece)) = Inl e"
    using raw_lines_piece [OF assms(1) p] mq_lines_bad [OF assms(7,8)] by metis
  have "\<exists>e. mq_readRecords K (qi_open2 io) (mq_processing q3) = Inl e"
    using act rd by (simp add: q3_def claim_active_def mq_readRecords_def)
  then have second: "\<exists>e. drainFile K (qi_open2 io) (qi_remove2 io) rec q3 sl = (Some e, q3, sl)" for rec sl
    by (auto simp: drainFile_def)
  have "Drain K io (recording ap) q1 sl = drainFile K (qi_open2 io) (qi_remove2 io) (recording ap) q3 sl" for sl
    unfolding Drain_def first using act assms(4,5) by (simp add: q3_def)
  then have "\<exists>e. Drain K io (recording ap) q1 sl = (Some e, q3, sl)" for sl using second by simp
  then obtain e where d: "Drain K io (recording ap) q1 (qw_state w, qw_applied w) = (Some e, q3, qw_state w, qw_applied w)"
    by blast
  have w2: "mq_step K ap w1 (QDrain io) = w\<lparr>qw_queue := q3\<rparr>" using d by (simp add: w1)
  have "blocked K (qw_queue v) \<Longrightarrow> qw_applied (foldl (mq_step K ap) v ops) = qw_applied v
      \<and> qw_state (foldl (mq_step K ap) v ops) = qw_state v" for v
  proof (induction ops arbitrary: v)
    case (Cons x ops)
    have s: "blocked K (qw_queue (mq_step K ap v x)) \<and> qw_state (mq_step K ap v x) = qw_state v
        \<and> qw_applied (mq_step K ap v x) = qw_applied v"
      by (rule blocked_step [OF assms(1) Cons.prems refl])
    then show ?case using Cons.IH [of "mq_step K ap v x"] by simp
  qed simp
  from this [of "w\<lparr>qw_queue := q3\<rparr>"] show ?thesis
    using b3 unfolding assms(10) foldl_Cons w1_def [symmetric] w2 by simp
qed

section \<open>Applying a mutation\<close>

text \<open>The outcomes of the statements of a mutation, by the number of the attempt.\<close>

record mut_env =
  mt_now :: "nat \<Rightarrow> time"
  mt_readErr :: "nat \<Rightarrow> bool"
  mt_execErr :: "nat \<Rightarrow> db_error option"

definition OpResolve :: string where "OpResolve = ''resolve''"
definition OpReopen :: string where "OpReopen = ''reopen''"
definition OpMute :: string where "OpMute = ''mute''"
definition OpUnmute :: string where "OpUnmute = ''unmute''"

lemmas op_names = OpResolve_def OpReopen_def OpMute_def OpUnmute_def

definition mutation_result :: "world \<Rightarrow> (app_error + issue_row) \<times> store \<Rightarrow> app_error option \<times> world" where
  "mutation_result w rs = (case rs of (res, st) \<Rightarrow>
     (case res of Inl e \<Rightarrow> Some e | Inr _ \<Rightarrow> None, w\<lparr>wd_store := st\<rparr>))"

definition applyMutation :: "mut_env \<Rightarrow> mutation \<Rightarrow> world \<Rightarrow> app_error option \<times> world" where
  "applyMutation me r w = next_attempt
     (let n = wd_step w; now = mt_now me n; re = mt_readErr me n; ee = mt_execErr me n; st = wd_store w
      in if mu_Op r = OpResolve then mutation_result w (ResolveIssue now re ee (mu_IssueID r) st)
         else if mu_Op r = OpReopen then mutation_result w (ReopenIssue now re ee (mu_IssueID r) st)
         else if mu_Op r = OpMute then mutation_result w (MuteIssue re ee (mu_IssueID r) (mu_MuteMode r) st)
         else if mu_Op r = OpUnmute then mutation_result w (UnmuteIssue re ee (mu_IssueID r) st)
         else (None, w))"

text \<open>The request path: \<open>done\<close> is the outcome of the direct attempt within the five seconds,
  \<open>None\<close> when the deadline came first.\<close>

definition tryMutate ::
  "mut_codec \<Rightarrow> (app_error + 'i) option \<Rightarrow> write_outcome \<Rightarrow> time \<Rightarrow> mutation \<Rightarrow> mqueue option
     \<Rightarrow> ((app_error + 'i) option \<times> bool \<times> mq_error option) \<times> mqueue option" where
  "tryMutate K finished outc now r mq = (case finished of
     Some res \<Rightarrow> ((Some res, False, None), mq)
   | None \<Rightarrow>
       (case mq of
          None \<Rightarrow> ((None, True, None), None)
        | Some q \<Rightarrow> (case mq_Append K outc now r q of
            (Some e, q') \<Rightarrow> ((None, False, Some e), Some q')
          | (None, q') \<Rightarrow> ((None, True, None), Some q'))))"

text \<open>No row answers to the display id.\<close>

definition unknown_issue :: "string \<Rightarrow> store \<Rightarrow> bool" where
  "unknown_issue d st \<longleftrightarrow> (\<forall>re. isl (GetIssue re d st))"

lemma find_map_inv: "(\<And>x. P (f x) = P x) \<Longrightarrow> List.find P (map f xs) = map_option f (List.find P xs)"
  by (induction xs) auto

lemma GetIssue_update:
  assumes "\<And>r. same_identity (f r) r"
  shows "isl (GetIssue re d (update_row rid f st)) = isl (GetIssue re d st)"
proof -
  let ?g = "\<lambda>r. if ir_id r = rid then f r else r"
  have g: "ir_id (?g r) = ir_id r" "ir_number (?g r) = ir_number r" "ir_project (?g r) = ir_project r" for r
    using assms [of r] by (auto simp: same_identity_def)
  have "IssueRowIDByDisplayID re d (update_row rid f st) = IssueRowIDByDisplayID re d st"
    unfolding IssueRowIDByDisplayID_def update_row_def
    by (auto simp: find_map_inv [where f = ?g] g split: sum.splits option.splits)
  moreover have "isl (issueByRowID i (update_row rid f st)) = isl (issueByRowID i st)" for i
    unfolding issueByRowID_def update_row_def
    by (auto simp: find_map_inv [where f = ?g] g split: option.splits)
  ultimately show ?thesis by (auto simp: GetIssue_def split: sum.splits)
qed

text \<open>Each of the four operations leaves the store alone or updates one row, and its result is the
  row read back or an error.\<close>

definition row_op :: "string \<Rightarrow> store \<Rightarrow> (app_error + issue_row) \<times> store \<Rightarrow> bool" where
  "row_op d st rs \<longleftrightarrow> isl (fst rs) \<and> snd rs = st
     \<or> (\<exists>rid f re. (\<forall>r. same_identity (f r) r) \<and> snd rs = update_row rid f st \<and> fst rs = GetIssue re d (snd rs))"

lemma row_op_intros:
  "row_op d st (Inl e, st)"
  "(\<And>r. same_identity (f r) r) \<Longrightarrow> row_op d st (GetIssue re d (update_row rid f st), update_row rid f st)"
  by (auto simp: row_op_def)

lemma row_ops:
  "row_op d st (ResolveIssue now re ee d st)" "row_op d st (ReopenIssue now re ee d st)"
  "row_op d st (MuteIssue re ee d mode st)" "row_op d st (UnmuteIssue re ee d st)"
  unfolding ResolveIssue_def ReopenIssue_def setIssueStatus_def MuteIssue_def UnmuteIssue_def Let_def
  by (auto simp: same_identity_def intro!: row_op_intros split: sum.splits option.splits)

lemma row_op_unknown:
  assumes "row_op d' st rs"
  shows "unknown_issue d st \<Longrightarrow> unknown_issue d (snd rs)" "unknown_issue d' st \<Longrightarrow> isl (fst rs)"
  using assms GetIssue_update by (auto simp: row_op_def unknown_issue_def)

lemma mutation_result_cases:
  "wd_store (snd (mutation_result w rs)) = snd rs" "isl (fst rs) \<Longrightarrow> fst (mutation_result w rs) \<noteq> None"
  by (auto simp: mutation_result_def split: prod.splits sum.splits)

definition known_op :: "string \<Rightarrow> bool" where
  "known_op x \<longleftrightarrow> x = OpResolve \<or> x = OpReopen \<or> x = OpMute \<or> x = OpUnmute"

lemma next_attempt_store [simp]: "wd_store (snd (next_attempt rw)) = wd_store (snd rw)"
    "fst (next_attempt rw) = fst rw"
  by (simp_all add: next_attempt_def)

text \<open>What is applied is one of the four operations or nothing.\<close>

lemma applyMutation_op:
  "(\<exists>rs. row_op (mu_IssueID r) (wd_store w) rs \<and> applyMutation me r w = next_attempt (mutation_result w rs))
   \<or> \<not> known_op (mu_Op r) \<and> applyMutation me r w = next_attempt (None, w)"
proof (cases "known_op (mu_Op r)")
  case True
  have ex: ?thesis if "row_op (mu_IssueID r) (wd_store w) rs" "applyMutation me r w = next_attempt (mutation_result w rs)" for rs
    using that by blast
  from True consider "mu_Op r = OpResolve" | "mu_Op r = OpReopen" | "mu_Op r = OpMute" | "mu_Op r = OpUnmute"
    unfolding known_op_def by blast
  then show ?thesis
    by cases (rule ex [OF row_ops(1)] ex [OF row_ops(2)] ex [OF row_ops(3)] ex [OF row_ops(4)];
      simp add: applyMutation_def op_names Let_def)+
next
  case False
  then show ?thesis by (simp add: known_op_def applyMutation_def)
qed

lemma applyMutation_unknown:
  assumes "unknown_issue d (wd_store w)"
  shows "unknown_issue d (wd_store (snd (applyMutation me r w)))"
    "mu_IssueID r = d \<Longrightarrow> known_op (mu_Op r) \<Longrightarrow> fst (applyMutation me r w) \<noteq> None"
proof -
  show "unknown_issue d (wd_store (snd (applyMutation me r w)))"
    using applyMutation_op [of r w me] row_op_unknown(1) [OF _ assms] assms by (auto simp: mutation_result_cases)
  show "fst (applyMutation me r w) \<noteq> None" if "mu_IssueID r = d" "known_op (mu_Op r)"
    using applyMutation_op [of r w me] row_op_unknown(2) [of d "wd_store w"] mutation_result_cases(2) assms that by auto
qed

lemma apply_all_poison:
  assumes "P s" "\<And>x t. P t \<Longrightarrow> P (snd (ap x t))" "\<And>t. P t \<Longrightarrow> fst (ap r t) \<noteq> None"
  shows "\<exists>e s'. apply_all ap (as @ r # bs) s = (Some e, s') \<and> P s'"
  using assms(1)
proof (induction as arbitrary: s)
  case Nil
  obtain x s1 where a: "ap r s = (x, s1)" by (cases "ap r s")
  then have "P s1" "x \<noteq> None" using assms(2) [OF Nil, of r] assms(3) [OF Nil] by auto
  then show ?case using a by auto
next
  case (Cons a as)
  obtain x s1 where a: "ap a s = (x, s1)" by (cases "ap a s")
  have "P s1" using assms(2) [OF Cons.prems, of a] a by simp
  then show ?case using Cons.IH a by (cases x) auto
qed

lemma poison_drains:
  assumes "mut_codec_ok K" "holds_text K (mq_processing q) (as @ r # bs)" "P s"
    and "\<And>x t. P t \<Longrightarrow> P (snd (ap x t))" "\<And>t. P t \<Longrightarrow> fst (ap r t) \<noteq> None"
  shows "\<exists>s'. foldl (\<lambda>(q, s) io. snd (Drain K io ap q s)) (q, s) ios = (q, s') \<and> P s'"
  using assms(3)
proof (induction ios arbitrary: s)
  case (Cons io ios)
  obtain e s1 where a: "apply_all ap (as @ r # bs) s = (Some e, s1)" "P s1"
    using apply_all_poison [where P = P and s = s and ap = ap and r = r and as = as and bs = bs] Cons.prems assms(4,5) by blast
  obtain y ys where y: "as @ r # bs = y # ys" by (cases as) auto
  have "\<exists>e s2. drainFile K (qi_open1 io) (qi_remove1 io) ap q s = (Some e, q, s2) \<and> P s2"
    using holds_text_read(3) [OF assms(1,2), of "qi_open1 io"] a Cons.prems y
    by (auto simp: drainFile_def simp del: apply_all.simps)
  then obtain s2 where "snd (Drain K io ap q s) = (q, s2)" "P s2" by (auto simp: Drain_def)
  then show ?case using Cons.IH by simp
qed simp

text \<open>A mutation of an issue that does not exist blocks the queue for good: the request path queues
  it without a check when the direct attempt does not answer in time, and once it is in the
  claimed file every drain stops at it, whatever happens to the files: nothing is removed, the
  active file is never claimed again, and the issue stays unknown.\<close>

theorem unknown_issue_blocks_queue:
  assumes "mut_codec_ok K" "holds_text K (mq_processing q) (as @ r # bs)"
    and "known_op (mu_Op r)" "unknown_issue (mu_IssueID r) (wd_store w)"
  shows "\<exists>w'. foldl (\<lambda>(q, w) io. snd (Drain K io (applyMutation me) q w)) (q, w) ios = (q, w')
    \<and> unknown_issue (mu_IssueID r) (wd_store w')"
  using poison_drains [OF assms(1,2), where P = "\<lambda>w. unknown_issue (mu_IssueID r) (wd_store w)" and ap = "applyMutation me"]
    applyMutation_unknown assms(3,4) by blast

section \<open>A concrete queue\<close>

definition plain_mut_enc :: "mutation \<Rightarrow> string" where
  "plain_mut_enc r = enc_text (mu_IssueID r) @ enc_text (mu_Op r) @ enc_text (mu_MuteMode r) @ enc_int (mu_QueuedAt r)"

definition plain_mut_dec :: "string \<Rightarrow> mutation option" where
  "plain_mut_dec s0 =
     Option.bind (dec_text s0) (\<lambda>(i, s1). Option.bind (dec_text s1) (\<lambda>(p, s2).
     Option.bind (dec_text s2) (\<lambda>(m, s3). Option.bind (dec_int s3) (\<lambda>(t, s4).
       if s4 \<noteq> [] then None
       else Some \<lparr>mu_IssueID = i, mu_Op = p, mu_MuteMode = m, mu_QueuedAt = t\<rparr>))))"

definition plain_mut :: mut_codec where "plain_mut = \<lparr>mc_enc = plain_mut_enc, mc_dec = plain_mut_dec\<rparr>"

lemma plain_mut_ok: "mut_codec_ok plain_mut"
  unfolding mut_codec_ok_def plain_mut_def mut_codec.simps
proof (intro allI conjI)
  fix r
  show "plain_mut_enc r \<noteq> []" using enc_text_chars by (simp add: plain_mut_enc_def)
  show "NL \<notin> set (plain_mut_enc r)" using enc_text_chars by (simp add: plain_mut_enc_def enc_int_def)
  show "last (plain_mut_enc r) \<noteq> CR" using enc_text_chars by (simp add: plain_mut_enc_def enc_int_def)
  have "dec_int (enc_int (mu_QueuedAt r)) = Some (mu_QueuedAt r, [])"
    using dec_enc_int [of "mu_QueuedAt r" "[]"] by simp
  then show "plain_mut_dec (plain_mut_enc r) = Some r" by (simp add: plain_mut_dec_def plain_mut_enc_def)
qed

definition demo_mut :: "string \<Rightarrow> mutation" where
  "demo_mut i = \<lparr>mu_IssueID = i, mu_Op = OpResolve, mu_MuteMode = [], mu_QueuedAt = 5\<rparr>"

definition io_fine :: mq_io where
  "io_fine = \<lparr>qi_open1 = True, qi_remove1 = True, qi_rename = True, qi_reopen = True, qi_open2 = True, qi_remove2 = True\<rparr>"

lemma demo_mut_fits: "length i < 1000 \<Longrightarrow> mq_line_ok plain_mut (demo_mut i)"
  by (simp add: mq_line_ok_def plain_mut_def plain_mut_enc_def demo_mut_def enc_int_def length_enc_text
      mq_maxLine_def itoa_def nat_str.simps OpResolve_def)

definition demo_queue :: "string \<Rightarrow> mqueue" where
  "demo_queue i = \<lparr>mq_active = Some [], mq_processing = Some (mq_text plain_mut [demo_mut i]), mq_file = AtActive\<rparr>"

lemma demo_queue_inv: "length i < 1000 \<Longrightarrow> mq_inv plain_mut (demo_queue i) [demo_mut i] []"
  using demo_mut_fits by (simp add: mq_inv_def demo_queue_def holds_text_def)


theorem drain_refines_queue_witness:
  "\<exists>q'. Drain plain_mut io_fine (\<lambda>r l. (None, l @ [mu_IssueID r])) (demo_queue ''1'') [] = (None, q', [''1''])
     \<and> mq_pending plain_mut q' = []"
proof -
  have io: "io_good io_fine" by (simp add: io_good_def io_fine_def)
  have i: "mq_inv plain_mut (demo_queue ''1'') [demo_mut ''1''] []" using demo_queue_inv by simp
  show ?thesis
    using drain_refines_queue [OF plain_mut_ok i io, of "\<lambda>r l. (None, l @ [mu_IssueID r])" "[]"]
      mq_inv_pending [OF plain_mut_ok i] by (auto simp: demo_mut_def)
qed

theorem failed_reopen_drops_mutations_witness:
  "\<exists>q1 s1 q2 s2. Drain plain_mut (io_fine\<lparr>qi_reopen := False\<rparr>) (\<lambda>r n. (None, n + 1 :: nat)) (demo_queue ''1'') 0 = (Some MqReopen, q1, s1)
    \<and> Drain plain_mut io_fine (\<lambda>r n. (None, n + 1)) q1 s1 = (None, q2, s2)
    \<and> mq_Append plain_mut Wrote 9 (demo_mut ''2'') q2 = (None, q2) \<and> mq_pending plain_mut q2 = []"
proof -
  have io: "io_good io_fine" by (simp add: io_good_def io_fine_def)
  have i: "mq_inv plain_mut (demo_queue ''1'') [demo_mut ''1''] []" using demo_queue_inv by simp
  have ap: "fst ((\<lambda>r n. (None :: app_error option, n + 1 :: nat)) (r :: mutation) s) = None" for r s by simp
  from failed_reopen_drops_mutations [where ap = "\<lambda>r n. (None, n + 1)", OF plain_mut_ok i io ap, where s = 0 and now = 9 and r = "demo_mut ''2''" and io' = io_fine and s' = 0]
  show ?thesis by blast
qed

definition empty_world :: world where
  "empty_world = \<lparr>wd_store = demo_store, wd_held = [], wd_nextHeld = 1, wd_published = [], wd_logs = [],
     wd_telemetry = [], wd_step = 0\<rparr>"

definition calm_mut_env :: mut_env where
  "calm_mut_env = \<lparr>mt_now = int, mt_readErr = (\<lambda>_. False), mt_execErr = (\<lambda>_. None)\<rparr>"

theorem unknown_issue_blocks_queue_witness:
  "\<exists>w'. foldl (\<lambda>(q, w) io. snd (Drain plain_mut io (applyMutation calm_mut_env) q w))
     (demo_queue ''SH-9'', empty_world) [io_fine, io_fine] = (demo_queue ''SH-9'', w')"
proof -
  have "unknown_issue ''SH-9'' demo_store"
    by (auto simp: unknown_issue_def GetIssue_def IssueRowIDByDisplayID_def issueByRowID_def demo_store_def
        split: sum.splits)
  then have u: "unknown_issue (mu_IssueID (demo_mut ''SH-9'')) (wd_store empty_world)"
    by (simp add: demo_mut_def empty_world_def)
  have h: "holds_text plain_mut (mq_processing (demo_queue ''SH-9'')) ([] @ demo_mut ''SH-9'' # [])"
    using demo_queue_inv [of "''SH-9''"] by (simp add: mq_inv_def)
  have k: "known_op (mu_Op (demo_mut ''SH-9''))" by (simp add: known_op_def demo_mut_def)
  from unknown_issue_blocks_queue [OF plain_mut_ok h k u] show ?thesis by blast
qed

text \<open>Three bytes of a mutation reach the file; the mutation acknowledged before is never applied.\<close>

theorem torn_mutation_blocks_queue_witness:
  "qw_applied (foldl (mq_step plain_mut (\<lambda>r n. (None, n + 1 :: nat))) (mq_start 0)
     [QAppend Wrote 5 (demo_mut ''1''), QAppend (Torn 3) 5 (demo_mut ''2''), QDrain io_fine, QRestart, QDrain io_fine]) = []"
proof -
  let ?ap = "\<lambda>(r :: mutation) n. (None :: app_error option, n + 1 :: nat)"
  have s: "stamped 5 (demo_mut i) = demo_mut i" for i by (simp add: stamped_def demo_mut_def zero_time_def)
  let ?w = "mq_step plain_mut ?ap (mq_start 0) (QAppend Wrote 5 (demo_mut ''1''))"
  have q: "mq_inv plain_mut (qw_queue ?w) [] [demo_mut ''1'']" "qw_applied ?w = []"
    using demo_mut_fits [of "''1''"]
    by (simp_all add: s mq_start_def mq_New_def mq_inv_def holds_text_def mq_Append_def write_at_def Let_def)
  define piece where "piece = take 3 (mc_enc plain_mut (stamped 5 (demo_mut ''2'')))"
  have e: "enc_text ''2'' = ''dc,''" by code_simp
  have pc: "piece = ''dc,''"
    unfolding piece_def s by (simp add: plain_mut_def plain_mut_enc_def demo_mut_def e del: enc_text.simps)
  have "drop_cr ''dc,'' = ''dc,''" by code_simp
  moreover have "plain_mut_dec ''dc,'' = None" by code_simp
  ultimately have p: "drop_cr piece \<noteq> []" "mc_dec plain_mut (drop_cr piece) = None"
    unfolding pc by (simp_all add: plain_mut_def)
  have n: "3 \<le> length (mc_enc plain_mut (stamped 5 (demo_mut ''2'')))"
    by (simp add: s plain_mut_def plain_mut_enc_def demo_mut_def length_enc_text OpResolve_def)
  have io: "qi_open1 io_fine" "qi_rename io_fine" "qi_reopen io_fine" by (simp_all add: io_fine_def)
  show ?thesis
    using torn_mutation_blocks_queue [OF plain_mut_ok q(1) io piece_def p n refl, of ?ap "[QRestart, QDrain io_fine]"] q(2) by simp
qed

end
