(* ===== verification/WorkerStatus.thy ===== *)
theory WorkerStatus
  imports Prelude
begin

text \<open>
  The health record of the spool worker: \<open>internal/worker/status.go\<close>.  Every call reads the
  clock itself; here the time is an argument.
\<close>

datatype HealthLevel = HealthOK | HealthDegraded | HealthUnhealthy

record status =
  ws_lastAdvance :: time
  ws_deadLetterCount :: int
  ws_processedTotal :: int
  ws_pendingRecords :: int

record health_report =
  hp_healthy :: bool
  hp_level :: HealthLevel
  hp_lastAdvance :: "time option"
  hp_pending :: int
  hp_deadLetters :: int
  hp_processed :: int
  hp_staleSince :: "time option"

definition NewStatus :: "time \<Rightarrow> status" where
  "NewStatus now = \<lparr>ws_lastAdvance = now, ws_deadLetterCount = 0, ws_processedTotal = 0, ws_pendingRecords = 0\<rparr>"

definition RecordAdvance :: "time \<Rightarrow> status \<Rightarrow> status" where
  "RecordAdvance now s = s\<lparr>ws_lastAdvance := now\<rparr>"

definition RecordProcessed :: "int \<Rightarrow> status \<Rightarrow> status" where
  "RecordProcessed n s = s\<lparr>ws_processedTotal := wrap64 (ws_processedTotal s + n)\<rparr>"

definition RecordDeadLetter :: "status \<Rightarrow> status" where
  "RecordDeadLetter s = s\<lparr>ws_deadLetterCount := wrap64 (ws_deadLetterCount s + 1)\<rparr>"

definition SetPendingRecords :: "int \<Rightarrow> status \<Rightarrow> status" where
  "SetPendingRecords n s = s\<lparr>ws_pendingRecords := n\<rparr>"

definition staleDuration :: duration where "staleDuration = 5 * 60000000000"
definition unhealthyDuration :: duration where "unhealthyDuration = 15 * 60000000000"

definition Snapshot :: "time \<Rightarrow> status \<Rightarrow> health_report" where
  "Snapshot now s =
     (let pending = ws_pendingRecords s; lastAdv = ws_lastAdvance s;
          base = \<lparr>hp_healthy = True, hp_level = HealthOK,
            hp_lastAdvance = (if lastAdv = zero_time then None else Some lastAdv), hp_pending = pending,
            hp_deadLetters = ws_deadLetterCount s, hp_processed = ws_processedTotal s, hp_staleSince = None\<rparr>
      in if pending = 0 then base
         else if unhealthyDuration < time_sub now lastAdv \<and> 0 < pending
         then base\<lparr>hp_level := HealthUnhealthy, hp_healthy := False, hp_staleSince := Some (lastAdv + staleDuration)\<rparr>
         else if staleDuration < time_sub now lastAdv \<and> 0 < pending
         then base\<lparr>hp_level := HealthDegraded, hp_healthy := False, hp_staleSince := Some (lastAdv + staleDuration)\<rparr>
         else base)"

text \<open>What the levels mean: the worker is unhealthy exactly when records have been waiting for more
  than five minutes since the last advance.\<close>

lemma Snapshot_healthy:
  assumes "0 \<le> ws_pendingRecords s"
  shows "hp_healthy (Snapshot now s) \<longleftrightarrow> ws_pendingRecords s = 0 \<or> now - ws_lastAdvance s \<le> staleDuration"
    "hp_level (Snapshot now s) = HealthOK \<longleftrightarrow> hp_healthy (Snapshot now s)"
    "hp_level (Snapshot now s) = HealthUnhealthy \<longleftrightarrow>
       0 < ws_pendingRecords s \<and> unhealthyDuration < now - ws_lastAdvance s"
  using assms
  by (auto simp: Snapshot_def Let_def time_sub_def clamp64_def staleDuration_def unhealthyDuration_def)

end
