(* ===== verification/SpoolWorker.thy ===== *)
theory SpoolWorker
  imports MutQueue WorkerStatus
begin

text \<open>
  The spool worker: \<open>cmd/bugbarn/worker.go\<close>, \<open>worker_segments.go\<close> and the rotation in
  \<open>internal/spool/segments.go\<close>.

  Every touch of a file or of the database takes the next outcome from the environment.  A
  crash is one of the outcomes: the touched thing is left as it was and nothing happens from
  then on until the process restarts.  A directory operation that has been done survives a
  crash; the cursor file, written without a sync, may fall back to an older position when
  power is lost.
\<close>

datatype io = IoOk | IoFail | IoLate | IoCrash

record release =
  rl_Name :: string
  rl_Environment :: string
  rl_ObservedAt :: time
  rl_Version :: string
  rl_CommitSHA :: string
  rl_URL :: string
  rl_Notes :: string
  rl_CreatedBy :: string

record sw_env =
  we_proc :: proc_env
  we_mut :: mut_env
  we_codec :: codec
  we_mutCodec :: mut_codec
  we_io :: "nat \<Rightarrow> io"
  we_mqIo :: "nat \<Rightarrow> mq_io"
  we_clock :: "nat \<Rightarrow> time"
  we_stamp :: "nat \<Rightarrow> string"
  we_parseRelease :: "string \<Rightarrow> release option"
  we_createErr :: "nat \<Rightarrow> db_error option"
  we_parseError :: "spool_record \<Rightarrow> db_error"
  we_rotateThreshold :: int
  we_maxBytes :: int
  we_selfReporting :: bool

text \<open>How a record left the spool: stored, written to the dead-letter file, or dropped because
  that write failed too.\<close>

datatype fate = Stored | DeadLettered | Dropped

record sw =
  sw_disk :: disk
  sw_open :: bool
  sw_pos :: position
  sw_retry :: "string \<Rightarrow> nat"
  sw_world :: world
  sw_releases :: "(int \<times> release) list"
  sw_mutq :: mqueue
  sw_status :: status
  sw_stallWarned :: bool
  sw_captured :: "string list"
  sw_ticks :: nat
  sw_dead :: bool
  sw_settled :: "(spool_record \<times> fate) list"
  sw_accepted :: "spool_record list"

section \<open>Touching the outside\<close>

definition io_step :: "sw_env \<Rightarrow> sw \<Rightarrow> io \<times> sw" where
  "io_step wx s =
     (if sw_dead s then (IoCrash, s)
      else let r = we_io wx (sw_ticks s)
           in (r, s\<lparr>sw_ticks := Suc (sw_ticks s), sw_dead := (r = IoCrash)\<rparr>))"

definition disk_op :: "sw_env \<Rightarrow> (disk \<Rightarrow> disk) \<Rightarrow> sw \<Rightarrow> bool \<times> sw" where
  "disk_op wx f s = (case io_step wx s of
     (r, s1) \<Rightarrow> if r = IoOk then (True, s1\<lparr>sw_disk := f (sw_disk s1)\<rparr>) else (False, s1))"

text \<open>A durable write of the cursor may replace the file and fail in the sync after it.\<close>

definition commit_op :: "sw_env \<Rightarrow> position \<Rightarrow> sw \<Rightarrow> bool \<times> sw" where
  "commit_op wx p s = (case io_step wx s of
     (r, s1) \<Rightarrow> if r = IoOk then (True, s1\<lparr>sw_disk := CommitPosition p (sw_disk s1)\<rparr>)
       else if r = IoLate then (False, s1\<lparr>sw_disk := WritePosition p (sw_disk s1)\<rparr>)
       else (False, s1))"

abbreviation (input) sw_now :: "sw_env \<Rightarrow> sw \<Rightarrow> time" where
  "sw_now wx s \<equiv> we_clock wx (sw_ticks s)"

section \<open>One record\<close>

definition workerMaxRetries :: nat where "workerMaxRetries = 3"
definition workerRotateThreshold :: int where "workerRotateThreshold = 64 * 1024 * 1024"

definition advanceCursor :: "sw_env \<Rightarrow> int \<Rightarrow> sw \<Rightarrow> sw" where
  "advanceCursor wx endOffset s =
     (let p = (sw_pos s)\<lparr>ps_offset := endOffset\<rparr>;
          s2 = snd (disk_op wx (WritePosition p) (s\<lparr>sw_pos := p\<rparr>))
      in s2\<lparr>sw_status := RecordAdvance (sw_now wx s2) (sw_status s2)\<rparr>)"

definition markProcessed :: "sw_env \<Rightarrow> spool_record \<Rightarrow> int \<Rightarrow> sw \<Rightarrow> sw" where
  "markProcessed wx rec endOffset s =
     (let s1 = advanceCursor wx endOffset (s\<lparr>sw_retry := (sw_retry s)(sr_ingestID rec := 0)\<rparr>)
      in s1\<lparr>sw_status := RecordProcessed 1 (sw_status s1)\<rparr>)"

definition is_shutdown :: "db_error \<Rightarrow> bool" where
  "is_shutdown e \<longleftrightarrow> e = Plain ''context canceled'' \<or> e = DeadlineExceeded"

text \<open>What happens once the retries are spent: the record is reported and forgotten, then passed.\<close>

definition note_dead_letter :: "sw_env \<Rightarrow> spool_record \<Rightarrow> string \<Rightarrow> bool \<Rightarrow> bool \<Rightarrow> sw \<Rightarrow> sw" where
  "note_dead_letter wx rec stage report done s =
     (let s1 = s\<lparr>sw_settled := sw_settled s @ [(rec, if done then DeadLettered else Dropped)],
                 sw_retry := (sw_retry s)(sr_ingestID rec := 0)\<rparr>
      in if report then s1\<lparr>
             sw_captured := sw_captured s1 @ (if we_selfReporting wx then [''dead-letter '' @ stage] else []),
             sw_status := RecordDeadLetter (sw_status s1)\<rparr>
         else s1)"

definition give_up :: "sw_env \<Rightarrow> spool_record \<Rightarrow> int \<Rightarrow> string \<Rightarrow> bool \<Rightarrow> sw \<Rightarrow> sw" where
  "give_up wx rec endOffset stage report s =
     (case disk_op wx (AppendDeadLetter (we_codec wx) rec) s of
        (done, s2) \<Rightarrow>
          (if sw_dead s2 then s2
           else advanceCursor wx endOffset (note_dead_letter wx rec stage report done s2)))"

definition failRecord :: "sw_env \<Rightarrow> spool_record \<Rightarrow> int \<Rightarrow> string \<Rightarrow> db_error \<Rightarrow> bool \<Rightarrow> sw \<Rightarrow> sw" where
  "failRecord wx rec endOffset stage cause report s =
     (if is_shutdown cause then s
      else let attempt = Suc (sw_retry s (sr_ingestID rec));
               s1 = s\<lparr>sw_retry := (sw_retry s)(sr_ingestID rec := attempt)\<rparr>
           in if attempt < workerMaxRetries then s1 else give_up wx rec endOffset stage report s1)"

definition RecordKindRelease :: string where "RecordKindRelease = ''release''"

text \<open>The release marker: decode, parse, create in the project the record carries.\<close>

definition persistReleaseRecord :: "sw_env \<Rightarrow> spool_record \<Rightarrow> sw \<Rightarrow> db_error option \<times> sw" where
  "persistReleaseRecord wx rec s = (case b64_decode (sr_body rec) of
     None \<Rightarrow> (Some (Plain ''decode release body''), s)
   | Some body \<Rightarrow> (case we_parseRelease wx body of
       None \<Rightarrow> (Some (Plain ''unmarshal release''), s)
     | Some rel \<Rightarrow>
         (let n = wd_step (sw_world s); s1 = s\<lparr>sw_world := (sw_world s)\<lparr>wd_step := Suc n\<rparr>\<rparr>;
              pid = (if 0 < sr_projectID rec then sr_projectID rec else px_default (we_proc wx))
          in case we_createErr wx n of
               Some e \<Rightarrow> (Some e, s1)
             | None \<Rightarrow> (None, s1\<lparr>sw_releases := sw_releases s1 @ [(pid, rel)]\<rparr>))))"

text \<open>An attempt at a record: handled, put off to the next tick without spending a retry, or failed.\<close>

datatype attempt = Handled | PutOff | Failed string db_error bool

definition processReleaseEntry :: "sw_env \<Rightarrow> spool_record \<Rightarrow> sw \<Rightarrow> attempt \<times> sw" where
  "processReleaseEntry wx rec s = (case persistReleaseRecord wx rec s of
     (Some e, s') \<Rightarrow> (Failed ''persist release'' e False, s')
   | (None, s') \<Rightarrow> (Handled, s'))"

text \<open>The project of the record, with the id published for it.\<close>

definition worker_resolveProject :: "proc_env \<Rightarrow> spool_record \<Rightarrow> world \<Rightarrow> int \<times> int" where
  "worker_resolveProject px rec w =
     (if sr_projectSlug rec = [] then (px_default px, 0)
      else case px_ensure px (wd_step w) (sr_projectSlug rec) of
        None \<Rightarrow> (px_default px, 0) | Some pj \<Rightarrow> (pj_id pj, pj_id pj))"

definition processEventEntry :: "sw_env \<Rightarrow> spool_record \<Rightarrow> sw \<Rightarrow> attempt \<times> sw" where
  "processEventEntry wx rec s =
     (let px = we_proc wx; w = sw_world s; n = wd_step w in
      case ProcessRecord px rec of
        None \<Rightarrow> (Failed ''process record'' (we_parseError wx rec) True, s)
      | Some p \<Rightarrow>
          (case worker_resolveProject px rec w of
             (pid, shown) \<Rightarrow>
               (case PersistProcessedEvent (px_persist px) (px_now px n) (px_faults px n) pid
                       (p\<lparr>pe_Event := px_symbolicate px (pe_Event p)\<rparr>) (wd_store w) of
                  (Inl e, st) \<Rightarrow>
                    (if workerTransient (Some e) then PutOff else Failed ''persist record'' e True,
                     s\<lparr>sw_world := w\<lparr>wd_store := st, wd_step := Suc n\<rparr>\<rparr>)
                | (Inr (iss, row, isNew, regressed), st) \<Rightarrow>
                    (Handled, s\<lparr>sw_world := w\<lparr>wd_store := st, wd_step := Suc n,
                       wd_published := wd_published w @ PublishIssueEvent iss shown isNew regressed\<rparr>\<rparr>))))"

definition try_record :: "sw_env \<Rightarrow> spool_record \<Rightarrow> sw \<Rightarrow> attempt \<times> sw" where
  "try_record wx rec s = (case io_step wx s of
     (r, s1) \<Rightarrow> if sw_dead s1 then (PutOff, s1)
       else if sr_kind rec = RecordKindRelease then processReleaseEntry wx rec s1
       else processEventEntry wx rec s1)"

text \<open>\<open>True\<close> stops the batch.\<close>

definition processEntry :: "sw_env \<Rightarrow> spool_record \<times> int \<Rightarrow> sw \<Rightarrow> bool \<times> sw" where
  "processEntry wx entry s = (case entry of (rec, endOffset) \<Rightarrow>
     (case try_record wx rec s of
        (Handled, s1) \<Rightarrow>
          (False, markProcessed wx rec endOffset (s1\<lparr>sw_settled := sw_settled s1 @ [(rec, Stored)]\<rparr>))
      | (PutOff, s1) \<Rightarrow> (True, s1)
      | (Failed stage cause report, s1) \<Rightarrow> (True, failRecord wx rec endOffset stage cause report s1)))"

fun process_entries :: "sw_env \<Rightarrow> (spool_record \<times> int) list \<Rightarrow> sw \<Rightarrow> bool \<times> sw" where
  "process_entries wx [] s = (True, s)"
| "process_entries wx (e # es) s = (case processEntry wx e s of
     (True, s1) \<Rightarrow> (False, s1) | (False, s1) \<Rightarrow> process_entries wx es s1)"

section \<open>Segments\<close>

fun remove_each :: "sw_env \<Rightarrow> string list \<Rightarrow> sw \<Rightarrow> sw" where
  "remove_each wx [] s = s"
| "remove_each wx (n # ns) s = remove_each wx ns
     (if n = ps_segment (sw_pos s) then s else snd (disk_op wx (RemoveSegment n) s))"

definition removeDrainedSegments :: "sw_env \<Rightarrow> sw \<Rightarrow> sw" where
  "removeDrainedSegments wx s = (case io_step wx s of
     (r, s1) \<Rightarrow> if r = IoOk then remove_each wx (ListSegments (sw_disk s1)) s1 else s1)"

definition finishSegment :: "sw_env \<Rightarrow> sw \<Rightarrow> sw" where
  "finishSegment wx s = (case commit_op wx start s of
     (done, s1) \<Rightarrow> if \<not> done then s1 else removeDrainedSegments wx (s1\<lparr>sw_pos := start\<rparr>))"

text \<open>The handle is closed whether or not closing reports an error.\<close>

definition rotateLockedTo :: "sw_env \<Rightarrow> string \<Rightarrow> sw \<Rightarrow> bool \<times> sw" where
  "rotateLockedTo wx name s = (case io_step wx s of
     (r, s1) \<Rightarrow>
       (let s2 = s1\<lparr>sw_open := False\<rparr> in
        if r \<noteq> IoOk then (False, s2)
        else case disk_op wx (rename_active name) s2 of
          (False, s3) \<Rightarrow> (case disk_op wx create_active s3 of (opened, s4) \<Rightarrow> (False, s4\<lparr>sw_open := opened\<rparr>))
        | (True, s3) \<Rightarrow> (case disk_op wx create_active s3 of (opened, s4) \<Rightarrow> (opened, s4\<lparr>sw_open := opened\<rparr>))))"

text \<open>\<open>None\<close> when nothing was rotated, with or without an error.\<close>

definition RotateIfExceedsAt :: "sw_env \<Rightarrow> int \<Rightarrow> int \<Rightarrow> sw \<Rightarrow> string option \<times> sw" where
  "RotateIfExceedsAt wx maxBytes offset s = (case io_step wx s of
     (r, s1) \<Rightarrow>
       (if r \<noteq> IoOk \<or> \<not> sw_open s1 then (None, s1)
        else if fileSize (dk_active (sw_disk s1)) \<le> maxBytes then (None, s1)
        else case io_step wx s1 of
          (r2, s2) \<Rightarrow>
            (if r2 \<noteq> IoOk then (None, s2)
             else case newSegmentName (we_stamp wx (sw_ticks s2)) (sw_disk s2) of
               None \<Rightarrow> (None, s2)
             | Some name \<Rightarrow>
                 (case commit_op wx \<lparr>ps_segment = name, ps_offset = offset\<rparr> s2 of
                    (False, s3) \<Rightarrow> (None, s3)
                  | (True, s3) \<Rightarrow>
                      (case rotateLockedTo wx name s3 of
                         (False, s4) \<Rightarrow> (None, s4) | (True, s4) \<Rightarrow> (Some name, s4))))))"

definition rotate_threshold :: "sw_env \<Rightarrow> int" where
  "rotate_threshold wx = (if we_rotateThreshold wx \<le> 0 then workerRotateThreshold else we_rotateThreshold wx)"

definition sw_rotate :: "sw_env \<Rightarrow> sw \<Rightarrow> sw" where
  "sw_rotate wx s = (case RotateIfExceedsAt wx (rotate_threshold wx) (ps_offset (sw_pos s)) s of
     (None, s1) \<Rightarrow> s1
   | (Some name, s1) \<Rightarrow> s1\<lparr>sw_pos := \<lparr>ps_segment = name, ps_offset = ps_offset (sw_pos s1)\<rparr>\<rparr>)"

section \<open>One tick\<close>

definition read_at :: "sw_env \<Rightarrow> position \<Rightarrow> disk \<Rightarrow> unit + (spool_record \<times> int) list" where
  "read_at wx p d = ReadRecordsFrom (we_codec wx) (segment_file d (ps_segment p)) (ps_offset p)"

definition records_of :: "unit + (spool_record \<times> int) list \<Rightarrow> spool_record list" where
  "records_of r = (case r of Inl e \<Rightarrow> [] | Inr es \<Rightarrow> map fst es)"

definition pendingRecords :: "sw_env \<Rightarrow> sw \<Rightarrow> int" where
  "pendingRecords wx s = int (length (records_of (read_at wx (sw_pos s) (sw_disk s))))
     + (if ps_segment (sw_pos s) = [] then 0
        else int (length (records_of (read_at wx start (sw_disk s)))))"

definition reportStatus :: "sw_env \<Rightarrow> sw \<Rightarrow> sw" where
  "reportStatus wx s =
     (let s1 = s\<lparr>sw_status := SetPendingRecords (pendingRecords wx s) (sw_status s)\<rparr>;
          healthy = hp_healthy (Snapshot (sw_now wx s1) (sw_status s1))
      in if \<not> healthy \<and> \<not> sw_stallWarned s1 then s1\<lparr>sw_stallWarned := True,
             sw_captured := sw_captured s1 @ (if we_selfReporting wx then [''worker stall: records not advancing''] else [])\<rparr>
         else if healthy then s1\<lparr>sw_stallWarned := False\<rparr> else s1)"

definition drain_mutations :: "sw_env \<Rightarrow> sw \<Rightarrow> sw" where
  "drain_mutations wx s = (case Drain (we_mutCodec wx) (we_mqIo wx (sw_ticks s)) (applyMutation (we_mut wx))
       (sw_mutq s) (sw_world s) of
     (e, q, w) \<Rightarrow> s\<lparr>sw_mutq := q, sw_world := w\<rparr>)"

definition drain_spool :: "sw_env \<Rightarrow> (spool_record \<times> int) list \<Rightarrow> sw \<Rightarrow> sw" where
  "drain_spool wx entries s = (case process_entries wx entries s of
     (drained, s1) \<Rightarrow> if drained \<and> ps_segment (sw_pos s1) \<noteq> [] then finishSegment wx s1 else s1)"

definition tick :: "sw_env \<Rightarrow> sw \<Rightarrow> sw" where
  "tick wx s0 =
     (if sw_dead s0 then s0
      else case io_step wx (drain_mutations wx s0) of
        (r, s) \<Rightarrow>
          (if r \<noteq> IoOk then s
           else case read_at wx (sw_pos s) (sw_disk s) of
             Inl e \<Rightarrow> s
           | Inr entries \<Rightarrow>
               (let s1 = drain_spool wx entries s; s2 = reportStatus wx s1
                in if ps_segment (sw_pos s2) = [] then sw_rotate wx s2 else s2)))"

section \<open>Requests\<close>

definition Accept :: "sw_env \<Rightarrow> spool_record \<Rightarrow> write_outcome \<Rightarrow> sw \<Rightarrow> append_error option \<times> sw" where
  "Accept wx rec outc s =
     (if sw_dead s \<or> \<not> sw_open s then (Some ErrClosed, s)
      else case dk_active (sw_disk s) of
        None \<Rightarrow> (Some ErrClosed, s)
      | Some f \<Rightarrow>
          (case Append (we_codec wx) (we_maxBytes wx) outc rec f of
             (e, f') \<Rightarrow> (e, s\<lparr>sw_disk := (sw_disk s)\<lparr>dk_active := Some f'\<rparr>,
                sw_accepted := (if e = None then sw_accepted s @ [rec] else sw_accepted s)\<rparr>)))"

section \<open>A tick while requests arrive\<close>

text \<open>The handlers append while the worker's tick runs; they share only the spool's lock, which a
  rotation holds from its size check to the reopening.  A busy tick takes the appends that arrive
  while each record is worked on, in order, and those that arrive after the last one and before
  the rotation.  An append touches nothing but the active file, which a tick looks at only when it
  reads its entries, when it counts the pending records and when it rotates, so these points
  stand for every moment at which an append can fall.  \<open>tick\<close> is the busy tick in which nothing arrives.\<close>

type_synonym arrivals = "(spool_record \<times> write_outcome) list"

fun arrive :: "sw_env \<Rightarrow> arrivals \<Rightarrow> sw \<Rightarrow> sw" where
  "arrive wx [] s = s"
| "arrive wx ((rec, outc) # as) s = arrive wx as (snd (Accept wx rec outc s))"

fun process_amid :: "sw_env \<Rightarrow> arrivals list \<Rightarrow> (spool_record \<times> int) list \<Rightarrow> sw \<Rightarrow> bool \<times> sw" where
  "process_amid wx as [] s = (True, arrive wx (concat as) s)"
| "process_amid wx as (e # es) s = (case processEntry wx e (arrive wx (concat (take 1 as)) s) of
     (True, s1) \<Rightarrow> (False, arrive wx (concat (drop 1 as)) s1)
   | (False, s1) \<Rightarrow> process_amid wx (drop 1 as) es s1)"

definition drain_amid :: "sw_env \<Rightarrow> arrivals list \<Rightarrow> (spool_record \<times> int) list \<Rightarrow> sw \<Rightarrow> sw" where
  "drain_amid wx as entries s = (case process_amid wx as entries s of
     (drained, s1) \<Rightarrow> if drained \<and> ps_segment (sw_pos s1) \<noteq> [] then finishSegment wx s1 else s1)"

definition busy_tick :: "sw_env \<Rightarrow> arrivals list \<Rightarrow> arrivals \<Rightarrow> sw \<Rightarrow> sw" where
  "busy_tick wx as late s0 =
     (if sw_dead s0 then s0
      else case io_step wx (drain_mutations wx s0) of
        (r, s) \<Rightarrow>
          (if r \<noteq> IoOk then s
           else case read_at wx (sw_pos s) (sw_disk s) of
             Inl e \<Rightarrow> s
           | Inr entries \<Rightarrow>
               (let s1 = drain_amid wx as entries s; s2 = arrive wx late (reportStatus wx s1)
                in if ps_segment (sw_pos s2) = [] then sw_rotate wx s2 else s2)))"

lemma process_amid_none: "process_amid wx [] es s = process_entries wx es s"
  by (induction es arbitrary: s) (simp_all split: prod.split bool.split)

lemma tick_is_quiet: "busy_tick wx [] [] s = tick wx s"
  by (simp only: busy_tick_def tick_def drain_amid_def drain_spool_def process_amid_none arrive.simps)

section \<open>Restarts\<close>

datatype restart = Kill | PowerLoss position | Unreadable

text \<open>What a restart finds: the cursor as it is, one of the positions it may have fallen back to
  when the power was lost, or a cursor that cannot be read.\<close>

definition disk_after :: "restart \<Rightarrow> disk \<Rightarrow> disk" where
  "disk_after k d = (case k of
     Kill \<Rightarrow> d
   | PowerLoss p \<Rightarrow> (if p \<in> set (dk_maybe d) then d\<lparr>dk_cursor := Some p, dk_maybe := [p]\<rparr> else d)
   | Unreadable \<Rightarrow> d\<lparr>dk_cursor := None\<rparr>)"

definition restorePosition :: "sw_env \<Rightarrow> sw \<Rightarrow> sw" where
  "restorePosition wx s = (case ReadPosition (sw_disk s) of
     None \<Rightarrow> s\<lparr>sw_pos := start\<rparr>
   | Some p \<Rightarrow>
       (if ps_segment p = [] then removeDrainedSegments wx (s\<lparr>sw_pos := p\<rparr>)
        else case io_step wx s of
          (r, s1) \<Rightarrow>
            (if r \<noteq> IoOk then s1\<lparr>sw_pos := p\<rparr>
             else removeDrainedSegments wx
               (s1\<lparr>sw_pos := (if SegmentExists (sw_disk s1) (ps_segment p) then p
                              else \<lparr>ps_segment = [], ps_offset = ps_offset p\<rparr>)\<rparr>))))"

definition boot :: "sw_env \<Rightarrow> restart \<Rightarrow> sw \<Rightarrow> sw" where
  "boot wx k s = restorePosition wx (s\<lparr>sw_disk := create_active (disk_after k (sw_disk s)), sw_open := True,
     sw_pos := start, sw_retry := (\<lambda>_. 0), sw_mutq := mq_New (sw_mutq s),
     sw_status := NewStatus (sw_now wx s), sw_stallWarned := False, sw_dead := False\<rparr>)"

datatype sw_op = EvAccept spool_record write_outcome | EvTick | EvBusyTick "arrivals list" arrivals | EvRestart restart

fun sw_step :: "sw_env \<Rightarrow> sw \<Rightarrow> sw_op \<Rightarrow> sw" where
  "sw_step wx s (EvAccept rec outc) = snd (Accept wx rec outc s)"
| "sw_step wx s EvTick = tick wx s"
| "sw_step wx s (EvBusyTick as late) = busy_tick wx as late s"
| "sw_step wx s (EvRestart k) = boot wx k s"

end
