(* ===== verification/SpoolSafety.thy ===== *)
theory SpoolSafety
  imports SpoolWorker
begin

text \<open>
  The crash-safety argument of \<open>internal/spool/segments.go\<close>: whatever the interleaving of
  requests, ticks, failures, crashes and restarts, every accepted record is settled or will be
  read again from whichever position the cursor file may be found at.
\<close>

section \<open>Positions\<close>

text \<open>The file holds whole records, each short enough to be read.\<close>

definition whole :: "codec \<Rightarrow> string option \<Rightarrow> spool_record list \<Rightarrow> bool" where
  "whole K f rs \<longleftrightarrow> list_all (fits K) rs \<and> (f = Some (file_of K rs) \<or> f = None \<and> rs = [])"

definition named :: "disk \<Rightarrow> position \<Rightarrow> bool" where
  "named d p \<longleftrightarrow> ps_segment p \<noteq> [] \<and> map_of (dk_segments d) (ps_segment p) \<noteq> None"

text \<open>The position has \<open>qs\<close> before it in its file and \<open>tail\<close> in the files after it; a
  segment that does not exist means the active one.\<close>

definition pos_at :: "codec \<Rightarrow> disk \<Rightarrow> spool_record list \<Rightarrow> position \<Rightarrow> spool_record list \<Rightarrow> spool_record list \<Rightarrow> bool" where
  "pos_at K d act p qs tail \<longleftrightarrow>
     (if named d p
      then \<exists>pre. map_of (dk_segments d) (ps_segment p) = Some (file_of K (pre @ qs)) \<and> list_all (fits K) qs
             \<and> ps_offset p = size_of K pre \<and> tail = act
      else \<exists>pre. act = pre @ qs \<and> ps_offset p = size_of K pre \<and> tail = [])"

definition covers :: "sw \<Rightarrow> spool_record list \<Rightarrow> bool" where
  "covers s rest \<longleftrightarrow> mset (map public (sw_accepted s)) \<subseteq># mset (map fst (sw_settled s)) + mset (map public rest)"

definition safe_pos :: "codec \<Rightarrow> sw \<Rightarrow> spool_record list \<Rightarrow> position \<Rightarrow> bool" where
  "safe_pos K s act p \<longleftrightarrow> (\<exists>qs tail. pos_at K (sw_disk s) act p qs tail \<and> covers s (qs @ tail))"

text \<open>The positions that matter: those the cursor may be found at, and the worker's own.\<close>

definition live :: "sw \<Rightarrow> position set" where
  "live s = set (dk_maybe (sw_disk s))
     \<union> (if \<not> sw_dead s \<and> dk_active (sw_disk s) \<noteq> None then {sw_pos s} else {})"

definition uniform :: "disk \<Rightarrow> position set \<Rightarrow> bool" where
  "uniform d P \<longleftrightarrow> (\<forall>p\<in>P. \<forall>q\<in>P. named d p \<longrightarrow> ps_segment q = ps_segment p)"

lemma file_of_step: "file_of K (q # qs) = file_of K [q] @ file_of K qs"
  by (simp add: file_of_def)

lemma uniformI: "(\<And>p q. p \<in> P \<Longrightarrow> q \<in> P \<Longrightarrow> named d p \<Longrightarrow> ps_segment q = ps_segment p) \<Longrightarrow> uniform d P"
  unfolding uniform_def by blast

lemma uniformD: "uniform d P \<Longrightarrow> p \<in> P \<Longrightarrow> q \<in> P \<Longrightarrow> named d p \<Longrightarrow> ps_segment q = ps_segment p"
  unfolding uniform_def by blast

definition sw_inv :: "codec \<Rightarrow> spool_record list \<Rightarrow> sw \<Rightarrow> bool" where
  "sw_inv K act s \<longleftrightarrow>
     whole K (dk_active (sw_disk s)) act \<and> (\<forall>p\<in>live s. safe_pos K s act p) \<and> uniform (sw_disk s) (live s)
     \<and> (\<exists>p\<in>set (dk_maybe (sw_disk s)). dk_cursor (sw_disk s) = Some p)
     \<and> (\<not> sw_dead s \<and> dk_active (sw_disk s) = None \<longrightarrow> ps_segment (sw_pos s) = [] \<and> \<not> sw_open s)"

lemma sw_invI:
  "whole K (dk_active (sw_disk s)) act \<Longrightarrow> \<forall>p\<in>live s. safe_pos K s act p \<Longrightarrow> uniform (sw_disk s) (live s)
   \<Longrightarrow> \<exists>p\<in>set (dk_maybe (sw_disk s)). dk_cursor (sw_disk s) = Some p
   \<Longrightarrow> \<not> sw_dead s \<and> dk_active (sw_disk s) = None \<longrightarrow> ps_segment (sw_pos s) = [] \<and> \<not> sw_open s
   \<Longrightarrow> sw_inv K act s"
  unfolding sw_inv_def by blast

lemma sw_invE:
  assumes "sw_inv K act s"
  shows "whole K (dk_active (sw_disk s)) act" "p \<in> live s \<Longrightarrow> safe_pos K s act p"
    "uniform (sw_disk s) (live s)" "\<exists>p\<in>set (dk_maybe (sw_disk s)). dk_cursor (sw_disk s) = Some p"
    "\<not> sw_dead s \<and> dk_active (sw_disk s) = None \<longrightarrow> ps_segment (sw_pos s) = [] \<and> \<not> sw_open s"
  using assms unfolding sw_inv_def by blast+

lemma segments_cong:
  "dk_segments d' = dk_segments d \<Longrightarrow> named d' p = named d p"
  "dk_segments d' = dk_segments d \<Longrightarrow> pos_at K d' act p qs tail = pos_at K d act p qs tail"
  by (simp_all add: named_def pos_at_def)

lemma covers_mono:
  assumes "covers s rest" "mset (map public (sw_accepted s')) \<subseteq># mset (map public (sw_accepted s))"
    and "mset (map fst (sw_settled s)) \<subseteq># mset (map fst (sw_settled s'))"
    and "mset (map public rest) \<subseteq># mset (map public rest')"
  shows "covers s' rest'"
proof -
  have "mset (map fst (sw_settled s)) + mset (map public rest)
      \<subseteq># mset (map fst (sw_settled s')) + mset (map public rest')"
    using assms(3,4) by (rule subset_mset.add_mono)
  then show ?thesis using assms(1,2) unfolding covers_def by (meson subset_mset.order_trans)
qed

text \<open>What leaves the disk and the accepted records alone, may crash and may settle more.\<close>

lemma sw_inv_mono:
  assumes "sw_inv K act s" "dk_active (sw_disk s') = dk_active (sw_disk s)"
    and "dk_segments (sw_disk s') = dk_segments (sw_disk s)" "dk_maybe (sw_disk s') = dk_maybe (sw_disk s)"
    and "dk_cursor (sw_disk s') = dk_cursor (sw_disk s)"
    and "sw_accepted s' = sw_accepted s"
    and "mset (map fst (sw_settled s)) \<subseteq># mset (map fst (sw_settled s'))"
    and "\<not> sw_dead s' \<Longrightarrow> \<not> sw_dead s \<and> sw_pos s' = sw_pos s
      \<and> (sw_open s' \<longrightarrow> sw_open s \<or> dk_active (sw_disk s) \<noteq> None)"
  shows "sw_inv K act s'"
proof -
  have live: "live s' \<subseteq> live s" using assms(2,4,8) by (auto simp: live_def)
  note act = sw_invE [OF assms(1)]
  have "safe_pos K s' act p" if p: "p \<in> live s'" for p
  proof -
    obtain qs tail where "pos_at K (sw_disk s) act p qs tail" "covers s (qs @ tail)"
      using act(2) [of p] p live unfolding safe_pos_def by blast
    then have "pos_at K (sw_disk s') act p qs tail" "covers s' (qs @ tail)"
      using segments_cong(2) [OF assms(3)] covers_mono [of s "qs @ tail" s' "qs @ tail"] assms(6,7) by simp_all
    then show ?thesis unfolding safe_pos_def by blast
  qed
  moreover have "uniform (sw_disk s') (live s')"
    using act(3) live segments_cong(1) [OF assms(3)] unfolding uniform_def by blast
  moreover have "\<exists>p\<in>set (dk_maybe (sw_disk s')). dk_cursor (sw_disk s') = Some p"
    using act(4) assms(4,5) by simp
  ultimately show ?thesis
    using act(1,5) assms(2,8) by (intro sw_invI [of _ _ act]) auto
qed

lemma io_step_simps:
  "io_step wx s = (r, s') \<Longrightarrow> sw_disk s' = sw_disk s \<and> sw_pos s' = sw_pos s \<and> sw_open s' = sw_open s
     \<and> sw_accepted s' = sw_accepted s \<and> sw_settled s' = sw_settled s \<and> (sw_dead s' \<longleftrightarrow> r = IoCrash)
     \<and> (sw_dead s \<longrightarrow> sw_dead s')"
  by (auto simp: io_step_def Let_def split: if_splits)

lemma io_step_inv: "sw_inv K act s \<Longrightarrow> io_step wx s = (r, s') \<Longrightarrow> sw_inv K act s'"
  by (rule sw_inv_mono [where s = s]) (auto dest: io_step_simps)

lemma disk_op_cases:
  assumes "disk_op wx f s = (b, s')"
  obtains (ok) s1 where "b" "io_step wx s = (IoOk, s1)" "s' = s1\<lparr>sw_disk := f (sw_disk s1)\<rparr>" "\<not> sw_dead s'" "\<not> sw_dead s"
  | (failed) r where "\<not> b" "io_step wx s = (r, s')"
proof -
  obtain r s1 where i: "io_step wx s = (r, s1)" by (metis surj_pair)
  show ?thesis
  proof (cases "r = IoOk")
    case True
    then have "\<not> sw_dead s1" "\<not> sw_dead s" using io_step_simps [OF i] by auto
    then show ?thesis using assms i True by (intro ok) (auto simp: disk_op_def)
  next
    case False
    then show ?thesis using assms i by (intro failed) (auto simp: disk_op_def)
  qed
qed

section \<open>The cursor\<close>

lemma write_position_inv:
  assumes "sw_inv K act s" "\<not> sw_dead s" "dk_active (sw_disk s) \<noteq> None"
  shows "sw_inv K act (s\<lparr>sw_disk := WritePosition (sw_pos s) (sw_disk s)\<rparr>)"
proof -
  let ?s = "s\<lparr>sw_disk := WritePosition (sw_pos s) (sw_disk s)\<rparr>"
  have d: "dk_segments (sw_disk ?s) = dk_segments (sw_disk s)" by (simp add: WritePosition_def)
  have live: "live ?s = live s" using assms(2,3) by (auto simp: live_def WritePosition_def)
  have "safe_pos K ?s act p = safe_pos K s act p" for p
    unfolding safe_pos_def segments_cong(2) [OF d] by (simp add: covers_def)
  moreover have "uniform (sw_disk ?s) (live s) = uniform (sw_disk s) (live s)"
    unfolding uniform_def segments_cong(1) [OF d] by (rule refl)
  ultimately show ?thesis using assms(1) live by (auto simp: sw_inv_def WritePosition_def)
qed

text \<open>A durable write is a single position to come back to.\<close>

lemma commit_inv:
  assumes "whole K (dk_active (sw_disk s)) act" "safe_pos K s act p"
    and "uniform (sw_disk s) (if sw_dead s \<or> dk_active (sw_disk s) = None then {p} else {p, sw_pos s})"
    and "\<not> sw_dead s \<Longrightarrow> dk_active (sw_disk s) \<noteq> None \<Longrightarrow> safe_pos K s act (sw_pos s)"
    and "\<not> sw_dead s \<and> dk_active (sw_disk s) = None \<longrightarrow> ps_segment (sw_pos s) = [] \<and> \<not> sw_open s"
  shows "sw_inv K act (s\<lparr>sw_disk := CommitPosition p (sw_disk s)\<rparr>)"
proof -
  let ?s = "s\<lparr>sw_disk := CommitPosition p (sw_disk s)\<rparr>"
  have d: "dk_segments (sw_disk ?s) = dk_segments (sw_disk s)" by (simp add: CommitPosition_def)
  have live: "live ?s = (if sw_dead s \<or> dk_active (sw_disk s) = None then {p} else {p, sw_pos s})"
    by (auto simp: live_def CommitPosition_def)
  have safe: "safe_pos K ?s act q = safe_pos K s act q" for q
    unfolding safe_pos_def segments_cong(2) [OF d] by (simp add: covers_def)
  have "\<forall>q\<in>(if sw_dead s \<or> dk_active (sw_disk s) = None then {p} else {p, sw_pos s}). safe_pos K s act q"
  proof (cases "sw_dead s \<or> dk_active (sw_disk s) = None")
    case True
    then show ?thesis using assms(2) by simp
  next
    case False
    then have "safe_pos K s act (sw_pos s)" using assms(4) by blast
    then show ?thesis using False assms(2) by simp
  qed
  then have "\<forall>q\<in>live ?s. safe_pos K ?s act q" unfolding live safe .
  moreover have "uniform (sw_disk ?s) (live ?s)"
    using assms(3) unfolding uniform_def live segments_cong(1) [OF d] .
  ultimately show ?thesis
    using assms(1,5) by (intro sw_invI [of _ _ act]) (simp_all add: CommitPosition_def)
qed

section \<open>Draining a batch\<close>

text \<open>The worker's own position has \<open>qs\<close> left in its file.\<close>

definition at_rest :: "codec \<Rightarrow> sw \<Rightarrow> spool_record list \<Rightarrow> int \<Rightarrow> spool_record list \<Rightarrow> spool_record list \<Rightarrow> bool" where
  "at_rest K s act off qs tail \<longleftrightarrow> sw_inv K act s
     \<and> (\<not> sw_dead s \<longrightarrow> dk_active (sw_disk s) \<noteq> None \<and> ps_offset (sw_pos s) = off
          \<and> pos_at K (sw_disk s) act (sw_pos s) qs tail \<and> covers s (qs @ tail))"

lemma at_mono:
  assumes "at_rest K s act off qs tail" "sw_disk s' = sw_disk s" "sw_accepted s' = sw_accepted s"
    and "mset (map fst (sw_settled s)) \<subseteq># mset (map fst (sw_settled s'))"
    and "\<not> sw_dead s' \<Longrightarrow> \<not> sw_dead s \<and> sw_pos s' = sw_pos s \<and> (sw_open s' \<longrightarrow> sw_open s)"
  shows "at_rest K s' act off qs tail"
proof -
  have "sw_inv K act s'"
    by (rule sw_inv_mono [where s = s]) (use assms in \<open>auto simp: at_rest_def\<close>)
  moreover have "covers s (qs @ tail) \<Longrightarrow> covers s' (qs @ tail)"
    by (rule covers_mono) (use assms in auto)
  ultimately show ?thesis using assms(1,2,5) by (auto simp: at_rest_def)
qed

lemma pos_at_move:
  assumes "pos_at K d act p (q # qs) tail"
  shows "pos_at K d act (p\<lparr>ps_offset := ps_offset p + int (length (cd_enc K q)) + 1\<rparr>) qs tail"
proof -
  let ?p = "p\<lparr>ps_offset := ps_offset p + int (length (cd_enc K q)) + 1\<rparr>"
  have n: "named d ?p = named d p" by (simp add: named_def)
  have app: "pre @ q # qs = (pre @ [q]) @ qs" for pre by simp
  show ?thesis
  proof (cases "named d p")
    case True
    then obtain pre where "map_of (dk_segments d) (ps_segment p) = Some (file_of K ((pre @ [q]) @ qs))"
      "list_all (fits K) qs" "ps_offset p = size_of K pre" "tail = act"
      using assms by (auto simp: pos_at_def)
    then show ?thesis using True n unfolding pos_at_def by (auto simp: file_of_step [of K q qs] intro!: exI [of _ "pre @ [q]"])
  next
    case False
    then obtain pre where "act = (pre @ [q]) @ qs" "ps_offset p = size_of K pre" "tail = []"
      using assms by (auto simp: pos_at_def)
    then show ?thesis using False n unfolding pos_at_def by (auto intro!: exI [of _ "pre @ [q]"])
  qed
qed

lemma move_pos_inv:
  assumes inv: "sw_inv K act s" and alive: "\<not> sw_dead s" and some: "dk_active (sw_disk s) \<noteq> None"
    and p: "ps_segment p = ps_segment (sw_pos s)" and safe: "safe_pos K s act p"
  shows "sw_inv K act (s\<lparr>sw_pos := p\<rparr>)"
proof -
  let ?s = "s\<lparr>sw_pos := p\<rparr>"
  have live: "live ?s = set (dk_maybe (sw_disk s)) \<union> {p}" "sw_pos s \<in> live s"
    "set (dk_maybe (sw_disk s)) \<subseteq> live s"
    using alive some by (auto simp: live_def)
  have same: "safe_pos K ?s act q = safe_pos K s act q" for q
    by (simp add: safe_pos_def covers_def)
  have "\<forall>q\<in>live ?s. safe_pos K ?s act q"
    unfolding same live using safe sw_invE(2) [OF inv] live(3) by blast
  moreover have "uniform (sw_disk ?s) (live ?s)"
  proof -
    have old: "\<exists>y\<in>live s. ps_segment y = ps_segment x" if "x \<in> live ?s" for x
      using that live p unfolding live(1) by auto
    have *: "ps_segment y = ps_segment x" if xy: "x \<in> live ?s" "y \<in> live ?s" "named (sw_disk s) x" for x y
    proof -
      obtain x' y' where o: "x' \<in> live s" "ps_segment x' = ps_segment x" "y' \<in> live s" "ps_segment y' = ps_segment y"
        using old [OF xy(1)] old [OF xy(2)] by blast
      then have "named (sw_disk s) x'" using xy(3) by (simp add: named_def)
      then have "ps_segment y' = ps_segment x'"
        using sw_invE(3) [OF inv] o(1,3) unfolding uniform_def by blast
      then show ?thesis using o by simp
    qed
    show ?thesis
    proof (rule uniformI)
      fix x y assume "x \<in> live ?s" "y \<in> live ?s" "named (sw_disk ?s) x"
      then show "ps_segment y = ps_segment x" using * [of x y] by simp
    qed
  qed
  ultimately show ?thesis
    using sw_invE(1,4) [OF inv] some by (intro sw_invI) (simp_all del: not_None_eq)
qed

lemma advanceCursor_at:
  assumes inv: "sw_inv K act s" and alive: "\<not> sw_dead s" and some: "dk_active (sw_disk s) \<noteq> None"
    and p: "pos_at K (sw_disk s) act ((sw_pos s)\<lparr>ps_offset := e\<rparr>) qs tail" and c: "covers s (qs @ tail)"
  shows "at_rest K (advanceCursor wx e s) act e qs tail"
proof -
  let ?p = "(sw_pos s)\<lparr>ps_offset := e\<rparr>"
  let ?s0 = "s\<lparr>sw_pos := ?p\<rparr>"
  have "safe_pos K s act ?p" using p c unfolding safe_pos_def by blast
  then have "sw_inv K act ?s0" using inv alive some by (intro move_pos_inv) simp_all
  then have a0: "at_rest K ?s0 act e qs tail" using some p c by (simp add: at_rest_def covers_def)
  obtain b s1 where d: "disk_op wx (WritePosition ?p) ?s0 = (b, s1)" by (metis surj_pair)
  have a1: "at_rest K s1 act e qs tail"
  using d proof (cases rule: disk_op_cases)
    case (ok s2)
    note i = io_step_simps [OF ok(2)]
    have a2: "at_rest K s2 act e qs tail" using a0 i ok by (intro at_mono [OF a0]) auto
    have "sw_inv K act (s2\<lparr>sw_disk := WritePosition (sw_pos s2) (sw_disk s2)\<rparr>)"
      using a2 i ok some by (intro write_position_inv) (auto simp: at_rest_def)
    then have "sw_inv K act s1" using ok(3) i by simp
    moreover have "pos_at K (sw_disk s1) act ?p qs tail"
      using p ok(3) i segments_cong(2) [of "sw_disk s1" "sw_disk s"] by (simp add: WritePosition_def)
    ultimately show ?thesis
      using ok(3) i some c by (simp add: at_rest_def covers_def WritePosition_def)
  next
    case (failed r)
    show ?thesis by (rule at_mono [OF a0]) (use io_step_simps [OF failed(2)] in auto)
  qed
  show ?thesis unfolding advanceCursor_def Let_def d snd_conv by (rule at_mono [OF a1]) auto
qed

text \<open>Settling the record at the position and moving past it.\<close>

lemma settle_at:
  assumes a: "at_rest K s act off (q # qs) tail" and alive: "\<not> sw_dead s"
    and s': "sw_disk s' = sw_disk s" "sw_pos s' = sw_pos s" "sw_accepted s' = sw_accepted s"
      "sw_dead s' = sw_dead s" "sw_open s' = sw_open s" "sw_settled s' = sw_settled s @ [(public q, f)]"
  shows "at_rest K (advanceCursor wx (off + int (length (cd_enc K q)) + 1) s') act
    (off + int (length (cd_enc K q)) + 1) qs tail"
proof -
  have o: "ps_offset (sw_pos s) = off" and p: "pos_at K (sw_disk s) act (sw_pos s) (q # qs) tail"
    and c: "covers s ((q # qs) @ tail)" and inv: "sw_inv K act s" and some: "dk_active (sw_disk s) \<noteq> None"
    using a alive by (auto simp: at_rest_def)
  have "sw_inv K act s'" by (rule sw_inv_mono [OF inv]) (use s' in auto)
  moreover have "pos_at K (sw_disk s') act ((sw_pos s')\<lparr>ps_offset := off + int (length (cd_enc K q)) + 1\<rparr>) qs tail"
    using pos_at_move [OF p] s' o by simp
  moreover have "covers s' (qs @ tail)" using c s' by (simp add: covers_def)
  ultimately show ?thesis using alive s' some by (intro advanceCursor_at) simp_all
qed

lemma try_record_frame:
  assumes "try_record wx rec s = (r, s')"
  shows "sw_disk s' = sw_disk s \<and> sw_pos s' = sw_pos s \<and> sw_open s' = sw_open s
     \<and> sw_accepted s' = sw_accepted s \<and> sw_settled s' = sw_settled s \<and> (sw_dead s \<longrightarrow> sw_dead s')
     \<and> (sw_dead s' \<longrightarrow> r = PutOff)"
proof -
  obtain x s1 where i: "io_step wx s = (x, s1)" by (metis surj_pair)
  note f = io_step_simps [OF i]
  show ?thesis
  proof (cases "sw_dead s1")
    case True
    then show ?thesis using assms i f by (simp add: try_record_def)
  next
    case False
    have "sw_disk s' = sw_disk s1 \<and> sw_pos s' = sw_pos s1 \<and> sw_open s' = sw_open s1
     \<and> sw_accepted s' = sw_accepted s1 \<and> sw_settled s' = sw_settled s1 \<and> sw_dead s' = sw_dead s1"
      using assms i False
      by (auto simp: try_record_def processReleaseEntry_def persistReleaseRecord_def processEventEntry_def Let_def
          split: if_splits option.splits prod.splits sum.splits)
    then show ?thesis using f False by auto
  qed
qed

lemma at_rest_weaken: "at_rest K s act off qs tail \<Longrightarrow> sw_inv K act s"
  by (simp add: at_rest_def)

lemma failRecord_inv:
  assumes a: "at_rest K s act off (q # qs) tail"
  shows "sw_inv K act (failRecord wx (public q) (off + int (length (cd_enc K q)) + 1) stage cause report s)"
proof (cases "is_shutdown cause \<or> Suc (sw_retry s (sr_ingestID (public q))) < workerMaxRetries")
  case True
  have "sw_inv K act (s\<lparr>sw_retry := rt\<rparr>)" for rt
    by (rule at_rest_weaken, rule at_mono [OF a]) auto
  then show ?thesis using True at_rest_weaken [OF a] by (auto simp: failRecord_def Let_def)
next
  case False
  let ?e = "off + int (length (cd_enc K q)) + 1"
  let ?s = "s\<lparr>sw_retry := (sw_retry s)(sr_ingestID (public q) := Suc (sw_retry s (sr_ingestID (public q))))\<rparr>"
  have a1: "at_rest K ?s act off (q # qs) tail" by (rule at_mono [OF a]) auto
  obtain b s2 where d: "disk_op wx (AppendDeadLetter (we_codec wx) (public q)) ?s = (b, s2)" by (metis surj_pair)
  have f: "failRecord wx (public q) ?e stage cause report s = give_up wx (public q) ?e stage report ?s"
    using False by (simp add: failRecord_def Let_def)
  have a2: "at_rest K s2 act off (q # qs) tail"
    using d
  proof (cases rule: disk_op_cases)
    case (ok s3)
    note i = io_step_simps [OF ok(2)]
    have a3: "at_rest K s3 act off (q # qs) tail" by (rule at_mono [OF a1]) (use i ok in auto)
    have seg: "dk_segments (sw_disk s2) = dk_segments (sw_disk s3)" using ok(3) by (simp add: AppendDeadLetter_def)
    have "sw_inv K act s2"
      by (rule sw_inv_mono [OF at_rest_weaken [OF a3]]) (use ok(3) in \<open>auto simp: AppendDeadLetter_def\<close>)
    then show ?thesis
      using a3 ok(3) segments_cong(2) [OF seg] by (auto simp: at_rest_def covers_def AppendDeadLetter_def)
  next
    case (failed r)
    show ?thesis by (rule at_mono [OF a1]) (use io_step_simps [OF failed(2)] in auto)
  qed
  show ?thesis
  proof (cases "sw_dead s2")
    case True
    then show ?thesis using f d at_rest_weaken [OF a2] by (simp add: give_up_def)
  next
    case alive: False
    have "sw_inv K act (advanceCursor wx ?e (note_dead_letter wx (public q) stage report b s2))"
      by (rule at_rest_weaken, rule settle_at [OF a2 alive, where f = "if b then DeadLettered else Dropped"])
        (simp_all add: note_dead_letter_def Let_def)
    then show ?thesis using f d alive by (simp add: give_up_def)
  qed
qed

lemma processEntry_at:
  assumes a: "at_rest K s act off (q # qs) tail"
    and p: "processEntry wx (public q, off + int (length (cd_enc K q)) + 1) s = (stop, s')"
  shows "sw_inv K act s' \<and> (\<not> stop \<longrightarrow> at_rest K s' act (off + int (length (cd_enc K q)) + 1) qs tail)"
proof -
  let ?e = "off + int (length (cd_enc K q)) + 1"
  obtain r s1 where t: "try_record wx (public q) s = (r, s1)" by (metis surj_pair)
  note f = try_record_frame [OF t]
  have a1: "at_rest K s1 act off (q # qs) tail" by (rule at_mono [OF a]) (use f in auto)
  show ?thesis
  proof (cases r)
    case Handled
    then have alive: "\<not> sw_dead s1" using f by auto
    let ?s2 = "s1\<lparr>sw_settled := sw_settled s1 @ [(public q, Stored)]\<rparr>"
    let ?s3 = "?s2\<lparr>sw_retry := (sw_retry ?s2)(sr_ingestID (public q) := 0)\<rparr>"
    have "at_rest K (advanceCursor wx ?e ?s3) act ?e qs tail"
      by (rule settle_at [OF a1 alive, where f = Stored]) simp_all
    then have "at_rest K (markProcessed wx (public q) ?e ?s2) act ?e qs tail"
      unfolding markProcessed_def Let_def by (rule at_mono) auto
    moreover have "\<not> stop" "s' = markProcessed wx (public q) ?e ?s2"
      using p t Handled by (simp_all add: processEntry_def)
    ultimately show ?thesis using at_rest_weaken by blast
  next
    case PutOff
    then show ?thesis using p t at_rest_weaken [OF a1] by (simp add: processEntry_def)
  next
    case (Failed stage cause report)
    then show ?thesis using p t failRecord_inv [OF a1] by (auto simp: processEntry_def)
  qed
qed

lemma process_entries_at:
  "at_rest K s act off qs tail \<Longrightarrow> process_entries wx (with_ends K off qs) s = (drained, s')
   \<Longrightarrow> sw_inv K act s' \<and> (drained \<longrightarrow> (\<exists>off'. at_rest K s' act off' [] tail))"
proof (induction qs arbitrary: s off)
  case Nil
  then show ?case using at_rest_weaken by auto
next
  case (Cons q qs)
  let ?e = "off + int (length (cd_enc K q)) + 1"
  obtain stop s1 where e: "processEntry wx (public q, ?e) s = (stop, s1)" by (metis surj_pair)
  note p = processEntry_at [OF Cons.prems(1) e]
  show ?case
  proof (cases stop)
    case True
    then show ?thesis using Cons.prems(2) e p by (simp add: Let_def)
  next
    case False
    then have "process_entries wx (with_ends K ?e qs) s1 = (drained, s')"
      using Cons.prems(2) e by (simp add: Let_def)
    then show ?thesis using Cons.IH p False by blast
  qed
qed

section \<open>Removing segments\<close>

lemma map_of_without: "map_of (filter (\<lambda>(m, c). m \<noteq> n) xs) m = (if m = n then None else map_of xs m)"
  by (induction xs) auto

lemma remove_segment_inv:
  assumes inv: "sw_inv K act s" and some: "dk_active (sw_disk s) \<noteq> None" and alive: "\<not> sw_dead s"
    and n: "n \<noteq> ps_segment (sw_pos s)"
  shows "sw_inv K act (s\<lparr>sw_disk := RemoveSegment n (sw_disk s)\<rparr>)"
proof (cases "isSegmentName n")
  case False
  then show ?thesis using inv by (simp add: RemoveSegment_def)
next
  case True
  let ?d = "RemoveSegment n (sw_disk s)"
  let ?s = "s\<lparr>sw_disk := ?d\<rparr>"
  have seg: "dk_segments ?d = filter (\<lambda>(m, c). m \<noteq> n) (dk_segments (sw_disk s))"
    using True by (simp add: RemoveSegment_def)
  have map: "map_of (dk_segments ?d) m = (if m = n then None else map_of (dk_segments (sw_disk s)) m)" for m
    unfolding seg by (rule map_of_without)
  have live: "live ?s = live s" "sw_pos s \<in> live s" using some alive True by (auto simp: live_def RemoveSegment_def)
  have keep: "named ?d p = named (sw_disk s) p" if p: "p \<in> live s" for p
  proof -
    have "ps_segment p \<noteq> n" if "named (sw_disk s) p"
    proof -
      have "ps_segment (sw_pos s) = ps_segment p"
        using sw_invE(3) [OF inv] p live(2) that unfolding uniform_def by blast
      then show ?thesis using n by simp
    qed
    then show ?thesis unfolding named_def map by auto
  qed
  have at: "pos_at K ?d act p qs tail = pos_at K (sw_disk s) act p qs tail" if p: "p \<in> live s" for p qs tail
  proof -
    have "map_of (dk_segments ?d) (ps_segment p) = map_of (dk_segments (sw_disk s)) (ps_segment p)"
      if "named (sw_disk s) p"
      using keep [OF p] that unfolding named_def map by (auto split: if_splits)
    then show ?thesis unfolding pos_at_def keep [OF p] by simp
  qed
  show ?thesis
  proof (rule sw_invI)
    show "\<forall>p\<in>live ?s. safe_pos K ?s act p"
      using sw_invE(2) [OF inv] at unfolding live(1) safe_pos_def covers_def by fastforce
    show "uniform (sw_disk ?s) (live ?s)"
    proof (rule uniformI)
      fix p q assume "p \<in> live ?s" "q \<in> live ?s" "named (sw_disk ?s) p"
      then have "p \<in> live s" "q \<in> live s" "named (sw_disk s) p" using keep live(1) by simp_all
      then show "ps_segment q = ps_segment p" by (rule uniformD [OF sw_invE(3) [OF inv]])
    qed
  qed (use sw_invE(1,4) [OF inv] some True in \<open>simp_all add: RemoveSegment_def del: not_None_eq\<close>)
qed

text \<open>The worker reads at an existing position of its own: what removal and finishing rely on.\<close>

lemma remove_each_inv:
  "sw_inv K act s \<Longrightarrow> dk_active (sw_disk s) \<noteq> None \<Longrightarrow> sw_inv K act (remove_each wx ns s)"
proof (induction ns arbitrary: s)
  case (Cons n ns)
  let ?s = "if n = ps_segment (sw_pos s) then s else snd (disk_op wx (RemoveSegment n) s)"
  have "sw_inv K act ?s \<and> dk_active (sw_disk ?s) \<noteq> None"
  proof (cases "n = ps_segment (sw_pos s)")
    case True
    then show ?thesis using Cons.prems by simp
  next
    case n: False
    obtain b s1 where d: "disk_op wx (RemoveSegment n) s = (b, s1)" by (metis surj_pair)
    then have "sw_inv K act s1 \<and> dk_active (sw_disk s1) \<noteq> None"
    proof (cases rule: disk_op_cases)
      case (ok s2)
      note i = io_step_simps [OF ok(2)]
      have "sw_inv K act s2" by (rule io_step_inv [OF Cons.prems(1) ok(2)])
      then have "sw_inv K act s1"
        unfolding ok(3) by (rule remove_segment_inv) (use i n ok Cons.prems in auto)
      then show ?thesis using ok(3) i Cons.prems by (simp add: RemoveSegment_def del: not_None_eq)
    next
      case (failed r)
      then show ?thesis using io_step_inv [OF Cons.prems(1) failed(2)] io_step_simps [OF failed(2)] Cons.prems(2)
        by (simp del: not_None_eq)
    qed
    then show ?thesis using n d by (simp del: not_None_eq)
  qed
  then show ?case using Cons.IH [of ?s] unfolding remove_each.simps by blast
qed simp

lemma removeDrainedSegments_inv:
  assumes "sw_inv K act s" "dk_active (sw_disk s) \<noteq> None"
  shows "sw_inv K act (removeDrainedSegments wx s)"
proof -
  obtain r s1 where i: "io_step wx s = (r, s1)" by (metis surj_pair)
  have "sw_inv K act s1" by (rule io_step_inv [OF assms(1) i])
  moreover have "dk_active (sw_disk s1) \<noteq> None" using io_step_simps [OF i] assms(2) by simp
  ultimately show ?thesis using remove_each_inv i by (simp add: removeDrainedSegments_def del: not_None_eq)
qed

definition no_late :: "sw_env \<Rightarrow> bool" where
  "no_late wx \<longleftrightarrow> (\<forall>n. we_io wx n \<noteq> IoLate)"

lemma commit_op_cases:
  assumes "commit_op wx p s = (b, s')" "no_late wx"
  obtains (ok) s1 where "b" "io_step wx s = (IoOk, s1)" "s' = s1\<lparr>sw_disk := CommitPosition p (sw_disk s1)\<rparr>"
      "\<not> sw_dead s'" "\<not> sw_dead s"
  | (failed) r where "\<not> b" "io_step wx s = (r, s')"
proof -
  obtain r s1 where i: "io_step wx s = (r, s1)" by (metis surj_pair)
  have l: "r \<noteq> IoLate" using i assms(2) by (auto simp: io_step_def no_late_def Let_def split: if_splits)
  show ?thesis
  proof (cases "r = IoOk")
    case True
    then have "\<not> sw_dead s1" "\<not> sw_dead s" using io_step_simps [OF i] by auto
    then show ?thesis using assms(1) i True by (intro ok) (auto simp: commit_op_def)
  next
    case False
    then show ?thesis using assms(1) i l by (intro failed) (auto simp: commit_op_def)
  qed
qed

lemma start_at:
  assumes "whole K (Some f) act"
  shows "pos_at K d act start act []"
  by (simp add: pos_at_def named_def start_def)

text \<open>Once nothing is left in the file being read, the start of the active file is a safe place.\<close>

lemma finishSegment_inv:
  assumes nl: "no_late wx" and inv: "sw_inv K act s" and some: "dk_active (sw_disk s) \<noteq> None"
    and c: "\<not> sw_dead s \<Longrightarrow> covers s act"
  shows "sw_inv K act (finishSegment wx s)"
proof -
  obtain b s1 where d: "commit_op wx start s = (b, s1)" by (metis surj_pair)
  then show ?thesis using nl
  proof (cases rule: commit_op_cases)
    case (ok s2)
    note i = io_step_simps [OF ok(2)]
    let ?s = "s2\<lparr>sw_pos := start\<rparr>"
    have "covers s act" using c ok by blast
    then have sp: "safe_pos K ?s act start"
      using i unfolding safe_pos_def
      by (intro exI [of _ act] exI [of _ "[]"]) (simp add: covers_def pos_at_def named_def start_def)
    have "sw_inv K act (?s\<lparr>sw_disk := CommitPosition start (sw_disk ?s)\<rparr>)"
    proof (rule commit_inv)
      show "whole K (dk_active (sw_disk ?s)) act" using sw_invE(1) [OF inv] i by simp
      show "uniform (sw_disk ?s) (if sw_dead ?s \<or> dk_active (sw_disk ?s) = None then {start} else {start, sw_pos ?s})"
        by (rule uniformI) (auto simp: named_def start_def split: if_splits)
    qed (use sp i some in auto)
    moreover have "s1\<lparr>sw_pos := start\<rparr> = ?s\<lparr>sw_disk := CommitPosition start (sw_disk ?s)\<rparr>"
      using ok(3) by simp
    moreover have "dk_active (sw_disk s1) \<noteq> None" using ok(3) i some by (simp add: CommitPosition_def)
    ultimately have "sw_inv K act (removeDrainedSegments wx (s1\<lparr>sw_pos := start\<rparr>))"
      using some i by (intro removeDrainedSegments_inv) (simp_all add: CommitPosition_def del: not_None_eq)
    then show ?thesis using d ok(1) by (simp add: finishSegment_def)
  next
    case (failed r)
    then show ?thesis using d io_step_inv [OF inv failed(2)] by (simp add: finishSegment_def)
  qed
qed

section \<open>Rotation\<close>

lemma newSegmentName_free:
  assumes "newSegmentName ts d = Some n"
  shows "n \<noteq> []" "map_of (dk_segments d) n = None" "\<exists>i. n = segment_candidate ts i"
proof -
  have n: "n \<in> set (map (segment_candidate ts) [0..<1000]) \<and> \<not> SegmentExists d n"
    using find_SomeD [OF assms [unfolded newSegmentName_def]] by simp
  show "\<exists>i. n = segment_candidate ts i" using n by auto
  then show "n \<noteq> []" by (auto simp: segment_candidate_def segmentPrefix_def split: if_splits)
  then show "map_of (dk_segments d) n = None" using n by (simp add: SegmentExists_def segment_file_def)
qed

text \<open>After the rename there is one position to come back to, and it names the renamed file.\<close>

lemma renamed_inv:
  assumes "dk_maybe (sw_disk t) = [p]" "dk_cursor (sw_disk t) = Some p" "ps_segment p \<noteq> []"
    and "map_of (dk_segments (sw_disk t)) (ps_segment p) = Some (file_of K (pre @ qs))" "list_all (fits K) qs"
    and "ps_offset p = size_of K pre" "covers t qs"
    and "dk_active (sw_disk t) = None \<and> (\<not> sw_dead t \<longrightarrow> ps_segment (sw_pos t) = [] \<and> \<not> sw_open t)
      \<or> dk_active (sw_disk t) = Some [] \<and> (\<not> sw_dead t \<longrightarrow> sw_pos t = p)"
  shows "sw_inv K [] t"
proof (rule sw_invI)
  have live: "live t \<subseteq> {p}" using assms(1,8) by (auto simp: live_def)
  have "safe_pos K t [] p"
    unfolding safe_pos_def using assms(3-7) by (intro exI [of _ qs] exI [of _ "[]"]) (auto simp: pos_at_def named_def)
  then show "\<forall>p\<in>live t. safe_pos K t [] p" using live by blast
  show "uniform (sw_disk t) (live t)" using live by (intro uniformI) blast
qed (use assms(1,2,8) in \<open>auto simp: whole_def\<close>)

lemma rotation_commit_inv:
  assumes inv: "sw_inv K act s" and alive: "\<not> sw_dead s" and some: "dk_active (sw_disk s) \<noteq> None"
    and root: "ps_segment (sw_pos s) = []" and name: "map_of (dk_segments (sw_disk s)) name = None"
  shows "sw_inv K act (s\<lparr>sw_disk := CommitPosition \<lparr>ps_segment = name, ps_offset = ps_offset (sw_pos s)\<rparr> (sw_disk s)\<rparr>)"
proof (rule commit_inv)
  let ?p = "\<lparr>ps_segment = name, ps_offset = ps_offset (sw_pos s)\<rparr>"
  have own: "safe_pos K s act (sw_pos s)" using sw_invE(2) [OF inv] alive some by (simp add: live_def)
  have n: "\<not> named (sw_disk s) (sw_pos s)" "\<not> named (sw_disk s) ?p" using root name by (simp_all add: named_def)
  show "safe_pos K s act ?p" using own n by (auto simp: safe_pos_def pos_at_def)
  show "uniform (sw_disk s) (if sw_dead s \<or> dk_active (sw_disk s) = None then {?p} else {?p, sw_pos s})"
    using n by (intro uniformI) (auto split: if_splits)
  show "safe_pos K s act (sw_pos s)" by (rule own)
qed (use sw_invE(1,5) [OF inv] some in auto)

text \<open>The state between the commit and the end of the rotation.\<close>

definition rotating :: "codec \<Rightarrow> spool_record list \<Rightarrow> position \<Rightarrow> sw \<Rightarrow> bool" where
  "rotating K act p s \<longleftrightarrow> sw_inv K act s
     \<and> (\<not> sw_dead s \<longrightarrow> dk_active (sw_disk s) \<noteq> None \<and> ps_segment (sw_pos s) = []
          \<and> dk_maybe (sw_disk s) = [p] \<and> dk_cursor (sw_disk s) = Some p
          \<and> ps_offset (sw_pos s) = ps_offset p \<and> ps_segment p \<noteq> []
          \<and> map_of (dk_segments (sw_disk s)) (ps_segment p) = None)"

lemma rotating_step: "rotating K act p s \<Longrightarrow> io_step wx s = (r, s') \<Longrightarrow> rotating K act p s'"
  using io_step_simps [of wx s r s'] io_step_inv [of K act s wx r s'] by (auto simp: rotating_def)

lemma rotating_closed: "rotating K act p s \<Longrightarrow> rotating K act p (s\<lparr>sw_open := False\<rparr>)"
  unfolding rotating_def by (auto intro: sw_inv_mono)

lemma reopen_inv:
  assumes inv: "sw_inv K act s" and some: "dk_active (sw_disk s) \<noteq> None"
    and d: "disk_op wx create_active s = (b, s')"
  shows "sw_inv K act (s'\<lparr>sw_open := b\<rparr>)"
proof -
  have "sw_disk s' = sw_disk s \<and> sw_pos s' = sw_pos s \<and> sw_accepted s' = sw_accepted s
      \<and> sw_settled s' = sw_settled s \<and> (sw_dead s \<longrightarrow> sw_dead s')"
    using d
  proof (cases rule: disk_op_cases)
    case (ok s1)
    then show ?thesis using io_step_simps [OF ok(2)] some by (auto simp: create_active_def)
  next
    case (failed r)
    then show ?thesis using io_step_simps [OF failed(2)] by auto
  qed
  then show ?thesis by (intro sw_inv_mono [OF inv]) (use some in auto)
qed

text \<open>The rename, whatever comes of reopening.\<close>

lemma rotated_inv:
  assumes r: "rotating K act p s" and alive: "\<not> sw_dead s"
    and t: "sw_accepted t = sw_accepted s" "sw_settled t = sw_settled s"
      "dk_maybe (sw_disk t) = dk_maybe (sw_disk s)" "dk_cursor (sw_disk t) = dk_cursor (sw_disk s)"
      "dk_segments (sw_disk t) = dk_segments (rename_active (ps_segment p) (sw_disk s))"
    and "dk_active (sw_disk t) = None \<and> (\<not> sw_dead t \<longrightarrow> ps_segment (sw_pos t) = [] \<and> \<not> sw_open t)
      \<or> dk_active (sw_disk t) = Some [] \<and> (\<not> sw_dead t \<longrightarrow> sw_pos t = p)"
  shows "sw_inv K [] t"
proof -
  have inv: "sw_inv K act s" and f: "dk_active (sw_disk s) \<noteq> None" "ps_segment (sw_pos s) = []"
    "dk_maybe (sw_disk s) = [p]" "dk_cursor (sw_disk s) = Some p"
    "ps_offset (sw_pos s) = ps_offset p" "ps_segment p \<noteq> []"
    "map_of (dk_segments (sw_disk s)) (ps_segment p) = None"
    using r alive by (auto simp: rotating_def)
  have w: "dk_active (sw_disk s) = Some (file_of K act)" "list_all (fits K) act"
    using sw_invE(1) [OF inv] f(1) by (auto simp: whole_def)
  have "safe_pos K s act (sw_pos s)" using sw_invE(2) [OF inv] alive f(1) by (simp add: live_def)
  then obtain pre qs where q: "act = pre @ qs" "ps_offset p = size_of K pre" "covers s qs"
    using f(2,5) by (auto simp: safe_pos_def pos_at_def named_def)
  have "map_of (dk_segments (sw_disk t)) (ps_segment p) = Some (file_of K (pre @ qs))"
    using t(5) w(1) q(1) by (simp add: rename_active_def)
  moreover have "covers t qs" using q(3) t(1,2) by (simp add: covers_def)
  moreover have "list_all (fits K) qs" using w(2) q(1) by simp
  ultimately show ?thesis
    using t f q assms(8) by (intro renamed_inv [of t p K pre qs]) simp_all
qed

lemma rotateLockedTo_inv:
  assumes r: "rotating K act p s" and alive: "\<not> sw_dead s"
    and l: "rotateLockedTo wx (ps_segment p) s = (b, s')"
  shows "\<exists>act'. sw_inv K act' (if b then s'\<lparr>sw_pos := p\<rparr> else s')"
proof -
  obtain x s1 where i: "io_step wx s = (x, s1)" by (metis surj_pair)
  let ?s2 = "s1\<lparr>sw_open := False\<rparr>"
  have r2: "rotating K act p ?s2" by (rule rotating_closed [OF rotating_step [OF r i]])
  show ?thesis
  proof (cases "x = IoOk")
    case False
    then show ?thesis using l i r2 by (auto simp: rotateLockedTo_def rotating_def)
  next
    case True
    then have a2: "\<not> sw_dead ?s2" using io_step_simps [OF i] by simp
    then have some: "dk_active (sw_disk ?s2) \<noteq> None" using r2 by (simp add: rotating_def)
    obtain rn s3 where d: "disk_op wx (rename_active (ps_segment p)) ?s2 = (rn, s3)" by (metis surj_pair)
    obtain op s4 where o: "disk_op wx create_active s3 = (op, s4)" by (metis surj_pair)
    have res: "b = (rn \<and> op)" "s' = s4\<lparr>sw_open := op\<rparr>"
      using l i True d o by (auto simp: rotateLockedTo_def Let_def split: bool.splits)
    show ?thesis
    using d proof (cases rule: disk_op_cases)
      case (failed y)
      have "sw_inv K act s3" using rotating_step [OF r2 failed(2)] by (simp add: rotating_def)
      moreover have "dk_active (sw_disk s3) \<noteq> None" using io_step_simps [OF failed(2)] some by simp
      ultimately have "sw_inv K act (s4\<lparr>sw_open := op\<rparr>)" using reopen_inv o by blast
      then show ?thesis using res failed(1) by auto
    next
      case (ok s5)
      note j = io_step_simps [OF ok(2)]
      have d3: "sw_disk s3 = rename_active (ps_segment p) (sw_disk ?s2)" using ok(3) j by simp
      have act3: "dk_active (sw_disk s3) = None" using d3 some by (auto simp: rename_active_def)
      have keep3: "dk_maybe (sw_disk s3) = dk_maybe (sw_disk ?s2)" "dk_cursor (sw_disk s3) = dk_cursor (sw_disk ?s2)"
        "sw_accepted s3 = sw_accepted ?s2" "sw_settled s3 = sw_settled ?s2" "sw_pos s3 = sw_pos ?s2" "\<not> sw_open s3"
        using ok(3) j d3 by (auto simp: rename_active_def split: option.splits)
      have root: "ps_segment (sw_pos s3) = []" using r2 a2 keep3 by (simp add: rotating_def)
      show ?thesis
      using o proof (cases rule: disk_op_cases)
        case (failed y)
        note k = io_step_simps [OF failed(2)]
        have "sw_inv K [] (s4\<lparr>sw_open := op\<rparr>)"
          by (rule rotated_inv [OF r2 a2]) (use k keep3 d3 act3 root failed(1) in auto)
        then show ?thesis using res failed(1) by auto
      next
        case (ok s6)
        note k = io_step_simps [OF ok(2)]
        have d4: "sw_disk s4 = (sw_disk s3)\<lparr>dk_active := Some []\<rparr>"
          using ok(3) k act3 by (simp add: create_active_def)
        have "sw_inv K [] (s4\<lparr>sw_open := op, sw_pos := p\<rparr>)"
          by (rule rotated_inv [OF r2 a2]) (use k keep3 d3 d4 ok(3) in auto)
        then show ?thesis using res ok(1) \<open>rn\<close> by auto
      qed
    qed
  qed
qed

lemma disk_op_pos: "disk_op wx f s = (b, s') \<Longrightarrow> sw_pos s' = sw_pos s"
  by (erule disk_op_cases) (auto dest: io_step_simps)

lemma rotateLockedTo_pos:
  assumes "rotateLockedTo wx name s = (b, s')"
  shows "sw_pos s' = sw_pos s"
proof -
  obtain x s1 where i: "io_step wx s = (x, s1)" by (metis surj_pair)
  obtain b3 s3 where d: "disk_op wx (rename_active name) (s1\<lparr>sw_open := False\<rparr>) = (b3, s3)" by (metis surj_pair)
  obtain b4 s4 where c: "disk_op wx create_active s3 = (b4, s4)" by (metis surj_pair)
  have "s' = s1\<lparr>sw_open := False\<rparr> \<or> s' = s4\<lparr>sw_open := b4\<rparr>"
    using assms i d c by (cases b3) (auto simp: rotateLockedTo_def Let_def split: if_splits)
  then show ?thesis using io_step_simps [OF i] disk_op_pos [OF d] disk_op_pos [OF c] by auto
qed

lemma sw_rotate_inv:
  assumes nl: "no_late wx" and inv: "sw_inv K act s" and root: "ps_segment (sw_pos s) = []"
  shows "\<exists>act'. sw_inv K act' (sw_rotate wx s)"
proof -
  obtain r s1 where i1: "io_step wx s = (r, s1)" by (metis surj_pair)
  note f1 = io_step_simps [OF i1]
  have inv1: "sw_inv K act s1" by (rule io_step_inv [OF inv i1])
  obtain r2 s2 where i2: "io_step wx s1 = (r2, s2)" by (metis surj_pair)
  note f2 = io_step_simps [OF i2]
  have inv2: "sw_inv K act s2" by (rule io_step_inv [OF inv1 i2])
  let ?n = "newSegmentName (we_stamp wx (sw_ticks s2)) (sw_disk s2)"
  let ?go = "r = IoOk \<and> sw_open s1 \<and> \<not> fileSize (dk_active (sw_disk s1)) \<le> rotate_threshold wx"
  show ?thesis
  proof (cases "?go \<and> r2 = IoOk \<and> ?n \<noteq> None")
    case False
    then have "sw_rotate wx s = s1 \<or> sw_rotate wx s = s2"
      using i1 i2 by (auto simp: sw_rotate_def RotateIfExceedsAt_def Let_def split: option.splits)
    then show ?thesis using inv1 inv2 by auto
  next
    case True
    then obtain name where n: "?n = Some name" by auto
    let ?p = "\<lparr>ps_segment = name, ps_offset = ps_offset (sw_pos s)\<rparr>"
    have alive: "\<not> sw_dead s1" "\<not> sw_dead s2" using True f1 f2 by auto
    have some: "dk_active (sw_disk s2) \<noteq> None" using sw_invE(5) [OF inv1] alive True f2 by auto
    obtain b s3 where c: "commit_op wx ?p s2 = (b, s3)" by (metis surj_pair)
    obtain b4 s4 where l: "rotateLockedTo wx (ps_segment ?p) s3 = (b4, s4)" by (metis surj_pair)
    have res: "sw_rotate wx s = (if \<not> b then s3 else if b4 then s4\<lparr>sw_pos := \<lparr>ps_segment = name, ps_offset = ps_offset (sw_pos s4)\<rparr>\<rparr> else s4)"
      using i1 i2 True n c l by (simp add: sw_rotate_def RotateIfExceedsAt_def split: bool.splits)
    show ?thesis
    using c nl proof (cases rule: commit_op_cases)
      case (failed y)
      then show ?thesis using res io_step_inv [OF inv2 failed(2)] by auto
    next
      case (ok s5)
      note f5 = io_step_simps [OF ok(2)]
      have inv5: "sw_inv K act s5" by (rule io_step_inv [OF inv2 ok(2)])
      have "sw_inv K act (s5\<lparr>sw_disk := CommitPosition \<lparr>ps_segment = name, ps_offset = ps_offset (sw_pos s5)\<rparr> (sw_disk s5)\<rparr>)"
        by (rule rotation_commit_inv [OF inv5]) (use f5 f2 f1 some root newSegmentName_free(2) [OF n] in auto)
      then have "sw_inv K act s3" using ok(3) f5 f2 f1 by simp
      then have rot: "rotating K act ?p s3"
        using ok(3) f5 f2 f1 some root newSegmentName_free(1,2) [OF n]
        by (auto simp: rotating_def CommitPosition_def)
      have pos4: "sw_pos s4 = sw_pos s3"
        by (rule rotateLockedTo_pos [OF l])
      have "ps_offset (sw_pos s4) = ps_offset (sw_pos s)" using pos4 ok(3) f5 f2 f1 by simp
      then have "sw_rotate wx s = (if b4 then s4\<lparr>sw_pos := ?p\<rparr> else s4)" using res ok(1) by simp
      then show ?thesis using rotateLockedTo_inv [OF rot ok(4) l] by simp
    qed
  qed
qed

section \<open>A tick\<close>

text \<open>What the worker reads is what its file holds from its position on; a segment that is not there
  reads as empty.\<close>

lemma read_at_pos:
  assumes K: "codec_ok (we_codec wx)" and w: "whole (we_codec wx) (dk_active d) act"
    and p: "pos_at (we_codec wx) d act p qs tail"
  shows "read_at wx p d = Inr (with_ends (we_codec wx) (ps_offset p)
    (if named d p \<or> ps_segment p = [] \<and> dk_active d \<noteq> None then qs else []))"
proof (cases "named d p")
  case True
  then show ?thesis using p read_records [OF K] by (auto simp: read_at_def segment_file_def pos_at_def named_def)
next
  case False
  show ?thesis
  proof (cases "ps_segment p = [] \<and> dk_active d \<noteq> None")
    case True
    then obtain pre where q: "act = pre @ qs" "ps_offset p = size_of (we_codec wx) pre"
      "dk_active d = Some (file_of (we_codec wx) act)" "list_all (fits (we_codec wx)) qs"
      using p False w by (auto simp: pos_at_def whole_def)
    show ?thesis using True q read_records [OF K q(4), of pre] by (simp add: read_at_def segment_file_def)
  next
    case no: False
    then have "segment_file d (ps_segment p) = None"
      using False by (auto simp: segment_file_def named_def)
    then show ?thesis using no False by (auto simp: read_at_def ReadRecordsFrom_def)
  qed
qed

lemma own_position:
  assumes "sw_inv K act s" "\<not> sw_dead s" "dk_active (sw_disk s) \<noteq> None"
  obtains qs tail where "pos_at K (sw_disk s) act (sw_pos s) qs tail" "covers s (qs @ tail)"
proof -
  have "sw_pos s \<in> live s" using assms(2,3) by (simp add: live_def)
  from sw_invE(2) [OF assms(1) this] show ?thesis using that unfolding safe_pos_def by blast
qed

lemma processEntry_frame:
  assumes "processEntry wx e s = (stop, s')"
  shows "ps_segment (sw_pos s') = ps_segment (sw_pos s) \<and> dk_active (sw_disk s') = dk_active (sw_disk s)
    \<and> dk_segments (sw_disk s') = dk_segments (sw_disk s)"
proof -
  have d: "dk_active (sw_disk s2) = dk_active (sw_disk s1) \<and> dk_segments (sw_disk s2) = dk_segments (sw_disk s1)"
    if "disk_op wx f s1 = (b, s2)" "\<And>d. dk_active (f d) = dk_active d" "\<And>d. dk_segments (f d) = dk_segments d" for f b s1 s2
    using that(1) by (cases rule: disk_op_cases) (auto dest: io_step_simps simp: that(2,3))
  have a: "ps_segment (sw_pos (advanceCursor wx o1 s1)) = ps_segment (sw_pos s1)
      \<and> dk_active (sw_disk (advanceCursor wx o1 s1)) = dk_active (sw_disk s1)
      \<and> dk_segments (sw_disk (advanceCursor wx o1 s1)) = dk_segments (sw_disk s1)" for o1 s1
  proof -
    let ?p = "(sw_pos s1)\<lparr>ps_offset := o1\<rparr>"
    obtain b s2 where x: "disk_op wx (WritePosition ?p) (s1\<lparr>sw_pos := ?p\<rparr>) = (b, s2)" by (metis surj_pair)
    show ?thesis using disk_op_pos [OF x] d [OF x] by (simp add: advanceCursor_def x WritePosition_def)
  qed
  have n: "sw_pos (note_dead_letter wx r1 st rp dn s1) = sw_pos s1
      \<and> sw_disk (note_dead_letter wx r1 st rp dn s1) = sw_disk s1" for r1 st rp dn s1
    by (simp add: note_dead_letter_def Let_def)
  have g: "ps_segment (sw_pos (give_up wx r1 o1 st rp s1)) = ps_segment (sw_pos s1)
      \<and> dk_active (sw_disk (give_up wx r1 o1 st rp s1)) = dk_active (sw_disk s1)
      \<and> dk_segments (sw_disk (give_up wx r1 o1 st rp s1)) = dk_segments (sw_disk s1)" for r1 o1 st rp s1
  proof -
    obtain b s2 where x: "disk_op wx (AppendDeadLetter (we_codec wx) r1) s1 = (b, s2)" by (metis surj_pair)
    show ?thesis using disk_op_pos [OF x] d [OF x] a n by (simp add: give_up_def x AppendDeadLetter_def)
  qed
  obtain rec off where e: "e = (rec, off)" by (cases e)
  obtain r s1 where t: "try_record wx rec s = (r, s1)" by (metis surj_pair)
  note f = try_record_frame [OF t]
  show ?thesis
  proof (cases r)
    case Handled
    then show ?thesis using assms e t f a by (auto simp: processEntry_def markProcessed_def Let_def)
  next
    case PutOff
    then show ?thesis using assms e t f by (simp add: processEntry_def)
  next
    case (Failed st cause rp)
    then show ?thesis using assms e t f g by (auto simp: processEntry_def failRecord_def Let_def)
  qed
qed

lemma process_entries_frame:
  "process_entries wx es s = (b, s')
   \<Longrightarrow> ps_segment (sw_pos s') = ps_segment (sw_pos s) \<and> dk_active (sw_disk s') = dk_active (sw_disk s)"
proof (induction es arbitrary: s)
  case (Cons e es)
  obtain stop s1 where "processEntry wx e s = (stop, s1)" by (metis surj_pair)
  then show ?case using Cons processEntry_frame by (cases stop) fastforce+
qed simp

section \<open>An append, also in the middle of a tick\<close>

text \<open>An append leaves the spool as it was or adds the record to the active file.\<close>

definition unchanged :: "sw \<Rightarrow> sw \<Rightarrow> bool" where
  "unchanged s s' \<longleftrightarrow> sw_disk s' = sw_disk s \<and> sw_accepted s' = sw_accepted s \<and> sw_settled s' = sw_settled s
     \<and> sw_pos s' = sw_pos s \<and> sw_dead s' = sw_dead s \<and> sw_open s' = sw_open s"

definition appended :: "codec \<Rightarrow> spool_record list \<Rightarrow> spool_record \<Rightarrow> sw \<Rightarrow> sw \<Rightarrow> bool" where
  "appended K act rec s s' \<longleftrightarrow> dk_active (sw_disk s) \<noteq> None \<and> \<not> sw_dead s
     \<and> (\<exists>acc. s' = s\<lparr>sw_disk := (sw_disk s)\<lparr>dk_active := Some (file_of K (act @ [rec]))\<rparr>,
          sw_accepted := sw_accepted s @ acc\<rparr> \<and> (acc = [] \<or> acc = [rec]))"

lemma Accept_cases:
  assumes "whole (we_codec wx) (dk_active (sw_disk s)) act" "\<And>n. outc \<noteq> Torn n" "s' = snd (Accept wx rec outc s)"
  obtains (same) "unchanged s s'" | (more) "appended (we_codec wx) act rec s s'"
proof (cases "sw_dead s \<or> \<not> sw_open s \<or> dk_active (sw_disk s) = None")
  case True
  then have "unchanged s s'" using assms(3) by (auto simp: Accept_def unchanged_def split: option.splits)
  then show ?thesis by (rule same)
next
  case False
  let ?K = "we_codec wx"
  have f: "dk_active (sw_disk s) = Some (file_of ?K act)" using assms(1) False by (auto simp: whole_def)
  obtain e f' where ap: "Append ?K (we_maxBytes wx) outc rec (file_of ?K act) = (e, f')" by (metis surj_pair)
  have s: "s' = s\<lparr>sw_disk := (sw_disk s)\<lparr>dk_active := Some f'\<rparr>,
                sw_accepted := (if e = None then sw_accepted s @ [rec] else sw_accepted s)\<rparr>"
    using False f ap assms(3) by (simp add: Accept_def)
  have "f' = file_of ?K act \<and> e \<noteq> None \<or> f' = file_of ?K (act @ [rec])"
    using ap assms(2) by (auto simp: Append_def write_bytes_def file_of_def split: if_splits write_outcome.splits)
  then show ?thesis
  proof
    assume "f' = file_of ?K act \<and> e \<noteq> None"
    then have "unchanged s s'" using s f by (simp add: unchanged_def)
    then show ?thesis by (rule same)
  next
    assume "f' = file_of ?K (act @ [rec])"
    then have "appended ?K act rec s s'"
      using s False unfolding appended_def by (intro conjI exI [of _ "if e = None then [rec] else []"]) auto
    then show ?thesis by (rule more)
  qed
qed

lemma unchanged_inv: "unchanged s s' \<Longrightarrow> sw_inv K act s \<Longrightarrow> sw_inv K act s'"
  by (rule sw_inv_mono) (auto simp: unchanged_def)

text \<open>A position keeps what is behind it, with the new record at the end.\<close>

lemma appended_pos:
  assumes "appended K act rec s s'" "pos_at K (sw_disk s) act p qs tail" "covers s (qs @ tail)"
  obtains more tail' where "pos_at K (sw_disk s') (act @ [rec]) p (qs @ more) tail'" "covers s' ((qs @ more) @ tail')"
    "named (sw_disk s') p \<Longrightarrow> more = []"
proof -
  obtain acc where s': "s' = s\<lparr>sw_disk := (sw_disk s)\<lparr>dk_active := Some (file_of K (act @ [rec]))\<rparr>,
          sw_accepted := sw_accepted s @ acc\<rparr>" "acc = [] \<or> acc = [rec]"
    using assms(1) unfolding appended_def by blast
  have seg: "dk_segments (sw_disk s') = dk_segments (sw_disk s)" by (simp add: s')
  have n: "named (sw_disk s') p = named (sw_disk s) p" by (simp add: named_def seg)
  have c: "covers s' ((qs @ tail) @ [rec])"
    using s'(2)
  proof
    assume "acc = [rec]" then show ?thesis using assms(3) by (simp add: covers_def s')
  next
    assume "acc = []" then show ?thesis by (intro covers_mono [OF assms(3)]) (auto simp: s')
  qed
  show ?thesis
  proof (cases "named (sw_disk s) p")
    case True
    then have "pos_at K (sw_disk s) (act @ [rec]) p qs (tail @ [rec])" using assms(2) by (auto simp: pos_at_def)
    then show ?thesis using c by (intro that [of "[]" "tail @ [rec]"]) (simp_all add: segments_cong(2) [OF seg])
  next
    case False
    then have "pos_at K (sw_disk s) (act @ [rec]) p (qs @ [rec]) []" "tail = []"
      using assms(2) by (auto simp: pos_at_def)
    then show ?thesis using c False n by (intro that [of "[rec]" "[]"]) (simp_all add: segments_cong(2) [OF seg])
  qed
qed

lemma appended_inv:
  assumes ap: "appended K act rec s s'" and inv: "sw_inv K act s" and r: "fits K rec"
  shows "sw_inv K (act @ [rec]) s'"
proof (rule sw_invI)
  obtain acc where s': "s' = s\<lparr>sw_disk := (sw_disk s)\<lparr>dk_active := Some (file_of K (act @ [rec]))\<rparr>,
          sw_accepted := sw_accepted s @ acc\<rparr>" "dk_active (sw_disk s) \<noteq> None"
    using ap unfolding appended_def by blast
  have seg: "dk_segments (sw_disk s') = dk_segments (sw_disk s)" by (simp add: s')
  have live: "live s' = live s" using s'(2) by (simp add: live_def s')
  show "whole K (dk_active (sw_disk s')) (act @ [rec])"
    using sw_invE(1) [OF inv] r by (simp add: whole_def s')
  show "\<forall>p\<in>live s'. safe_pos K s' (act @ [rec]) p"
  proof
    fix p assume "p \<in> live s'"
    then obtain qs tail where q: "pos_at K (sw_disk s) act p qs tail" "covers s (qs @ tail)"
      using sw_invE(2) [OF inv, of p] live unfolding safe_pos_def by auto
    show "safe_pos K s' (act @ [rec]) p"
      by (rule appended_pos [OF ap q]) (unfold safe_pos_def, blast)
  qed
  show "uniform (sw_disk s') (live s')"
    using sw_invE(3) [OF inv] unfolding live uniform_def segments_cong(1) [OF seg] .
  show "\<exists>p\<in>set (dk_maybe (sw_disk s')). dk_cursor (sw_disk s') = Some p"
    using sw_invE(4) [OF inv] by (simp add: s')
  show "\<not> sw_dead s' \<and> dk_active (sw_disk s') = None \<longrightarrow> ps_segment (sw_pos s') = [] \<and> \<not> sw_open s'"
    by (simp add: s')
qed

definition arrival_ok :: "codec \<Rightarrow> spool_record \<times> write_outcome \<Rightarrow> bool" where
  "arrival_ok K a \<longleftrightarrow> fits K (fst a) \<and> (case snd a of Torn n \<Rightarrow> False | _ \<Rightarrow> True)"

text \<open>While a batch is worked on: the entries read are ahead, behind them what arrived since, if it
  went to the same file.\<close>

definition amid :: "codec \<Rightarrow> sw \<Rightarrow> spool_record list \<Rightarrow> int \<Rightarrow> spool_record list \<Rightarrow> bool" where
  "amid K s act off qs \<longleftrightarrow> sw_inv K act s \<and> (\<not> sw_dead s \<longrightarrow>
     (\<exists>more tail. at_rest K s act off (qs @ more) tail \<and> (named (sw_disk s) (sw_pos s) \<longrightarrow> more = [])))"

lemma accept_amid:
  assumes a: "amid (we_codec wx) s act off qs" and ok: "arrival_ok (we_codec wx) (rec, outc)"
  shows "\<exists>act'. amid (we_codec wx) (snd (Accept wx rec outc s)) act' off qs"
proof -
  let ?K = "we_codec wx" and ?s = "snd (Accept wx rec outc s)"
  have inv: "sw_inv ?K act s" using a by (simp add: amid_def)
  have r: "fits ?K rec" and o: "\<And>n. outc \<noteq> Torn n" using ok by (auto simp: arrival_ok_def)
  show ?thesis
  proof (rule Accept_cases [OF sw_invE(1) [OF inv] o refl])
    assume u: "unchanged s ?s"
    have "amid ?K ?s act off qs"
      unfolding amid_def
    proof (intro conjI impI)
      show "sw_inv ?K act ?s" by (rule unchanged_inv [OF u inv])
      assume "\<not> sw_dead ?s"
      then obtain more tail where m: "at_rest ?K s act off (qs @ more) tail" "named (sw_disk s) (sw_pos s) \<longrightarrow> more = []"
        using a u by (auto simp: amid_def unchanged_def)
      have "at_rest ?K ?s act off (qs @ more) tail" by (rule at_mono [OF m(1)]) (use u in \<open>auto simp: unchanged_def\<close>)
      then show "\<exists>more tail. at_rest ?K ?s act off (qs @ more) tail \<and> (named (sw_disk ?s) (sw_pos ?s) \<longrightarrow> more = [])"
        using m(2) u by (auto simp: unchanged_def)
    qed
    then show ?thesis by blast
  next
    assume ap: "appended ?K act rec s ?s"
    have inv': "sw_inv ?K (act @ [rec]) ?s" by (rule appended_inv [OF ap inv r])
    have alive: "\<not> sw_dead s" using ap by (simp add: appended_def)
    then obtain more tail where m: "at_rest ?K s act off (qs @ more) tail" "named (sw_disk s) (sw_pos s) \<longrightarrow> more = []"
      using a by (auto simp: amid_def)
    have same: "sw_pos ?s = sw_pos s" "dk_active (sw_disk ?s) \<noteq> None" "dk_segments (sw_disk ?s) = dk_segments (sw_disk s)"
      using ap by (auto simp: appended_def)
    have p: "pos_at ?K (sw_disk s) act (sw_pos s) (qs @ more) tail" "covers s ((qs @ more) @ tail)" "ps_offset (sw_pos s) = off"
      using m(1) alive by (simp_all add: at_rest_def)
    obtain more' tail' where q: "pos_at ?K (sw_disk ?s) (act @ [rec]) (sw_pos s) ((qs @ more) @ more') tail'"
      "covers ?s (((qs @ more) @ more') @ tail')" "named (sw_disk ?s) (sw_pos s) \<Longrightarrow> more' = []"
      by (rule appended_pos [OF ap p(1,2)]) (rule that)
    have "at_rest ?K ?s (act @ [rec]) off (qs @ more @ more') tail'"
      using inv' q same p(3) by (simp add: at_rest_def)
    moreover have "named (sw_disk ?s) (sw_pos ?s) \<longrightarrow> more @ more' = []"
      using m(2) q(3) same by (auto simp: named_def)
    ultimately have "amid ?K ?s (act @ [rec]) off qs" using inv' unfolding amid_def by blast
    then show ?thesis by blast
  qed
qed

lemma arrive_amid:
  "amid (we_codec wx) s act off qs \<Longrightarrow> list_all (arrival_ok (we_codec wx)) as
   \<Longrightarrow> \<exists>act'. amid (we_codec wx) (arrive wx as s) act' off qs"
proof (induction as arbitrary: s act)
  case (Cons a as)
  obtain rec outc where "a = (rec, outc)" by (cases a)
  then show ?case using accept_amid [OF Cons.prems(1), of rec outc] Cons by auto
qed auto

lemma accept_inv:
  assumes inv: "sw_inv (we_codec wx) act s" and ok: "arrival_ok (we_codec wx) (rec, outc)"
  shows "\<exists>act'. sw_inv (we_codec wx) act' (snd (Accept wx rec outc s))"
proof -
  have r: "fits (we_codec wx) rec" and o: "\<And>n. outc \<noteq> Torn n" using ok by (auto simp: arrival_ok_def)
  show ?thesis
    by (rule Accept_cases [OF sw_invE(1) [OF inv] o refl])
      (use unchanged_inv [OF _ inv] appended_inv [OF _ inv r] in blast)+
qed

lemma arrive_inv:
  "sw_inv (we_codec wx) act s \<Longrightarrow> list_all (arrival_ok (we_codec wx)) as
   \<Longrightarrow> \<exists>act'. sw_inv (we_codec wx) act' (arrive wx as s)"
proof (induction as arbitrary: s act)
  case (Cons a as)
  obtain rec outc where "a = (rec, outc)" by (cases a)
  then show ?case using accept_inv [OF Cons.prems(1), of rec outc] Cons by auto
qed auto

section \<open>A whole tick\<close>

lemma drain_spool_inv:
  assumes nl: "no_late wx" and K: "codec_ok (we_codec wx)" and inv: "sw_inv (we_codec wx) act s"
    and alive: "\<not> sw_dead s" and rd: "read_at wx (sw_pos s) (sw_disk s) = Inr entries"
  shows "sw_inv (we_codec wx) act (drain_spool wx entries s)"
proof -
  let ?K = "we_codec wx"
  obtain b s1 where pe: "process_entries wx entries s = (b, s1)" by (metis surj_pair)
  note fr = process_entries_frame [OF pe]
  note w = sw_invE(1) [OF inv]
  show ?thesis
  proof (cases "dk_active (sw_disk s) = None")
    case True
    then have root: "ps_segment (sw_pos s) = []" using sw_invE(5) [OF inv] alive by simp
    then have "entries = []" using rd True by (simp add: read_at_def segment_file_def ReadRecordsFrom_def)
    then show ?thesis using root inv by (simp add: drain_spool_def)
  next
    case some: False
    obtain qs tail where p: "pos_at ?K (sw_disk s) act (sw_pos s) qs tail" "covers s (qs @ tail)"
      by (rule own_position [OF inv alive some])
    have a: "at_rest ?K s act (ps_offset (sw_pos s)) qs tail" using inv some p by (simp add: at_rest_def)
    let ?read = "named (sw_disk s) (sw_pos s) \<or> ps_segment (sw_pos s) = [] \<and> dk_active (sw_disk s) \<noteq> None"
    have e: "entries = with_ends ?K (ps_offset (sw_pos s)) (if ?read then qs else [])"
      using rd read_at_pos [OF K w p(1)] by simp
    show ?thesis
    proof (cases ?read)
      case True
      then have pe': "process_entries wx (with_ends ?K (ps_offset (sw_pos s)) qs) s = (b, s1)" using pe e by simp
      note pa = process_entries_at [OF a pe']
      show ?thesis
      proof (cases "b \<and> ps_segment (sw_pos s1) \<noteq> []")
        case False
        then show ?thesis using pa pe by (auto simp: drain_spool_def)
      next
        case fin: True
        then obtain off' where a1: "at_rest ?K s1 act off' [] tail" using pa by blast
        have "named (sw_disk s) (sw_pos s)" using True fin fr by auto
        then have "tail = act" using p(1) by (auto simp: pos_at_def)
        then have "\<not> sw_dead s1 \<Longrightarrow> covers s1 act" using a1 by (simp add: at_rest_def)
        then have "sw_inv ?K act (finishSegment wx s1)"
          using pa fr some by (intro finishSegment_inv [OF nl]) simp_all
        then show ?thesis using pe fin by (simp add: drain_spool_def)
      qed
    next
      case False
      then have s1: "b" "s1 = s" using pe e by auto
      have "\<not> named (sw_disk s) (sw_pos s)" using False by blast
      then obtain pre where q: "act = pre @ qs" "tail = []" using p(1) by (auto simp: pos_at_def)
      have "covers s act"
        by (rule covers_mono [OF p(2)]) (use q in auto)
      then have "sw_inv ?K act (finishSegment wx s)" by (intro finishSegment_inv [OF nl inv some])
      then show ?thesis using pe s1 False some inv by (simp add: drain_spool_def)
    qed
  qed
qed

lemma reportStatus_frame:
  "sw_disk (reportStatus wx s) = sw_disk s" "sw_pos (reportStatus wx s) = sw_pos s"
  "sw_open (reportStatus wx s) = sw_open s" "sw_accepted (reportStatus wx s) = sw_accepted s"
  "sw_settled (reportStatus wx s) = sw_settled s" "sw_dead (reportStatus wx s) = sw_dead s"
  by (simp_all add: reportStatus_def Let_def)

lemma drain_mutations_frame:
  "sw_disk (drain_mutations wx s) = sw_disk s" "sw_pos (drain_mutations wx s) = sw_pos s"
  "sw_open (drain_mutations wx s) = sw_open s" "sw_accepted (drain_mutations wx s) = sw_accepted s"
  "sw_settled (drain_mutations wx s) = sw_settled s" "sw_dead (drain_mutations wx s) = sw_dead s"
  by (simp_all add: drain_mutations_def split: prod.splits)

text \<open>The batch, with what arrives meanwhile.\<close>

lemma process_amid_at:
  "amid (we_codec wx) s act off qs \<Longrightarrow> list_all (list_all (arrival_ok (we_codec wx))) as
   \<Longrightarrow> process_amid wx as (with_ends (we_codec wx) off qs) s = (drained, s')
   \<Longrightarrow> \<exists>act' off'. sw_inv (we_codec wx) act' s' \<and> (drained \<longrightarrow> amid (we_codec wx) s' act' off' [])"
proof (induction qs arbitrary: s act off as)
  case Nil
  have "list_all (arrival_ok (we_codec wx)) (concat as)" using Nil.prems(2) by (auto simp: list_all_iff)
  from arrive_amid [OF Nil.prems(1) this] Nil.prems(3) show ?case by (auto simp: amid_def)
next
  case (Cons q qs)
  let ?K = "we_codec wx"
  let ?e = "off + int (length (cd_enc ?K q)) + 1"
  let ?s = "arrive wx (concat (take 1 as)) s"
  have ok: "list_all (arrival_ok ?K) (concat (take 1 as))" "list_all (arrival_ok ?K) (concat (drop 1 as))"
    "list_all (list_all (arrival_ok ?K)) (drop 1 as)"
    using Cons.prems(2) by (cases as; auto simp: list_all_iff)+
  obtain act1 where a1: "amid ?K ?s act1 off (q # qs)" using arrive_amid [OF Cons.prems(1) ok(1)] by blast
  obtain more tail where m: "at_rest ?K ?s act1 off (q # (qs @ more)) tail"
    "\<not> sw_dead ?s \<Longrightarrow> named (sw_disk ?s) (sw_pos ?s) \<longrightarrow> more = []"
  proof (cases "sw_dead ?s")
    case True
    then have "at_rest ?K ?s act1 off (q # (qs @ [])) []" using a1 by (simp add: amid_def at_rest_def)
    then show ?thesis using True by (intro that [of "[]" "[]"]) simp_all
  next
    case False
    then obtain more tail where "at_rest ?K ?s act1 off ((q # qs) @ more) tail"
      "named (sw_disk ?s) (sw_pos ?s) \<longrightarrow> more = []"
      using a1 by (auto simp: amid_def)
    then show ?thesis by (intro that [of more tail]) simp_all
  qed
  obtain stop s1 where e: "processEntry wx (public q, ?e) ?s = (stop, s1)" by (metis surj_pair)
  note pa = processEntry_at [OF m(1) e] and fr = processEntry_frame [OF e]
  show ?case
  proof (cases stop)
    case True
    then have "s' = arrive wx (concat (drop 1 as)) s1" "\<not> drained"
      using Cons.prems(3) e by (simp_all add: Let_def)
    moreover have "\<exists>act'. sw_inv ?K act' (arrive wx (concat (drop 1 as)) s1)"
      using pa ok(2) arrive_inv by blast
    ultimately show ?thesis by blast
  next
    case False
    have alive: "\<not> sw_dead ?s"
    proof
      assume d: "sw_dead ?s"
      have "try_record wx (public q) ?s = (PutOff, ?s)" using d by (simp add: try_record_def io_step_def)
      then show False using e False by (simp add: processEntry_def)
    qed
    have "named (sw_disk s1) (sw_pos s1) = named (sw_disk ?s) (sw_pos ?s)" using fr by (simp add: named_def)
    then have "amid ?K s1 act1 ?e qs"
      using pa False m(2) [OF alive] unfolding amid_def by blast
    moreover have "process_amid wx (drop 1 as) (with_ends ?K ?e qs) s1 = (drained, s')"
      using Cons.prems(3) e False by (simp add: Let_def)
    ultimately show ?thesis using Cons.IH ok(3) by blast
  qed
qed

text \<open>With every entry of the file settled, what is left is covered by the active file.\<close>

lemma amid_done:
  assumes "amid K s act off []" "\<not> sw_dead s"
  shows "dk_active (sw_disk s) \<noteq> None \<and> covers s act"
proof -
  obtain more tail where m: "at_rest K s act off more tail" "named (sw_disk s) (sw_pos s) \<longrightarrow> more = []"
    using assms by (auto simp: amid_def)
  then have p: "pos_at K (sw_disk s) act (sw_pos s) more tail" and c: "covers s (more @ tail)"
    and some: "dk_active (sw_disk s) \<noteq> None"
    using assms(2) by (simp_all add: at_rest_def)
  have "covers s act"
  proof (cases "named (sw_disk s) (sw_pos s)")
    case True
    then show ?thesis using p c m(2) by (auto simp: pos_at_def)
  next
    case False
    then obtain pre where "act = pre @ more" "tail = []" using p by (auto simp: pos_at_def)
    then show ?thesis by (intro covers_mono [OF c]) auto
  qed
  then show ?thesis using some by simp
qed

lemma drain_amid_inv:
  assumes nl: "no_late wx" and K: "codec_ok (we_codec wx)" and inv: "sw_inv (we_codec wx) act s"
    and alive: "\<not> sw_dead s" and rd: "read_at wx (sw_pos s) (sw_disk s) = Inr entries"
    and ok: "list_all (list_all (arrival_ok (we_codec wx))) as"
  shows "\<exists>act'. sw_inv (we_codec wx) act' (drain_amid wx as entries s)"
proof (cases "dk_active (sw_disk s) = None")
  case True
  let ?K = "we_codec wx"
  have root: "ps_segment (sw_pos s) = []" "\<not> sw_open s" using True sw_invE(5) [OF inv] alive by simp_all
  then have "entries = []" using rd True by (simp add: read_at_def segment_file_def ReadRecordsFrom_def)
  have "arrive wx as s = s" for as using root by (induction as) (auto simp: Accept_def)
  then show ?thesis using \<open>entries = []\<close> root inv by (auto simp: drain_amid_def)
next
  case some: False
  let ?K = "we_codec wx"
  obtain qs tail where p: "pos_at ?K (sw_disk s) act (sw_pos s) qs tail" "covers s (qs @ tail)"
    by (rule own_position [OF inv alive some])
  have a: "at_rest ?K s act (ps_offset (sw_pos s)) qs tail" using inv some p by (simp add: at_rest_def)
  let ?read = "named (sw_disk s) (sw_pos s) \<or> ps_segment (sw_pos s) = [] \<and> dk_active (sw_disk s) \<noteq> None"
  define qs1 where "qs1 = (if ?read then qs else [])"
  have e: "entries = with_ends ?K (ps_offset (sw_pos s)) qs1"
    using rd read_at_pos [OF K sw_invE(1) [OF inv] p(1)] by (simp add: qs1_def)
  define left where "left = (if ?read then [] else qs)"
  have "qs1 @ left = qs" by (cases ?read) (simp_all only: qs1_def left_def if_True if_False append_Nil append_Nil2)
  then have "at_rest ?K s act (ps_offset (sw_pos s)) (qs1 @ left) tail" using a by simp
  moreover have "named (sw_disk s) (sw_pos s) \<longrightarrow> left = []" by (simp add: left_def)
  ultimately have am: "amid ?K s act (ps_offset (sw_pos s)) qs1" using inv unfolding amid_def by blast
  obtain b s1 where pe: "process_amid wx as entries s = (b, s1)" by (metis surj_pair)
  obtain act' off' where r: "sw_inv ?K act' s1" "b \<longrightarrow> amid ?K s1 act' off' []"
    using process_amid_at [OF am ok] pe e by blast
  show ?thesis
  proof (cases "b \<and> ps_segment (sw_pos s1) \<noteq> [] \<and> \<not> sw_dead s1")
    case True
    then have d: "dk_active (sw_disk s1) \<noteq> None" "covers s1 act'" using r(2) amid_done by blast+
    then have "sw_inv ?K act' (finishSegment wx s1)" by (intro finishSegment_inv [OF nl r(1)]) simp_all
    then show ?thesis using pe True by (auto simp: drain_amid_def)
  next
    case False
    have "sw_dead s1 \<Longrightarrow> finishSegment wx s1 = s1" by (simp add: finishSegment_def commit_op_def io_step_def)
    then show ?thesis using pe False r(1) by (auto simp: drain_amid_def)
  qed
qed

lemma busy_tick_inv:
  assumes nl: "no_late wx" and K: "codec_ok (we_codec wx)" and inv: "sw_inv (we_codec wx) act s0"
    and ok: "list_all (list_all (arrival_ok (we_codec wx))) as" "list_all (arrival_ok (we_codec wx)) late"
  shows "\<exists>act'. sw_inv (we_codec wx) act' (busy_tick wx as late s0)"
proof (cases "sw_dead s0")
  case True
  then show ?thesis using inv by (auto simp: busy_tick_def)
next
  case False
  have m: "sw_inv (we_codec wx) act (drain_mutations wx s0)"
    by (rule sw_inv_mono [OF inv]) (simp_all add: drain_mutations_frame)
  obtain r s where i: "io_step wx (drain_mutations wx s0) = (r, s)" by (metis surj_pair)
  have inv1: "sw_inv (we_codec wx) act s" by (rule io_step_inv [OF m i])
  show ?thesis
  proof (cases "r = IoOk \<and> (\<exists>entries. read_at wx (sw_pos s) (sw_disk s) = Inr entries)")
    case False
    then have "busy_tick wx as late s0 = s"
      using \<open>\<not> sw_dead s0\<close> i by (auto simp: busy_tick_def split: sum.splits)
    then show ?thesis using inv1 by blast
  next
    case True
    then obtain entries where e: "read_at wx (sw_pos s) (sw_disk s) = Inr entries" by blast
    have alive: "\<not> sw_dead s" using True io_step_simps [OF i] by simp
    let ?s1 = "drain_amid wx as entries s"
    let ?s2 = "arrive wx late (reportStatus wx ?s1)"
    obtain act1 where "sw_inv (we_codec wx) act1 ?s1" using drain_amid_inv [OF nl K inv1 alive e ok(1)] by blast
    then have "sw_inv (we_codec wx) act1 (reportStatus wx ?s1)"
      by (rule sw_inv_mono) (simp_all add: reportStatus_frame)
    from arrive_inv [OF this ok(2)] obtain act2 where inv2: "sw_inv (we_codec wx) act2 ?s2" by blast
    have "busy_tick wx as late s0 = (if ps_segment (sw_pos ?s2) = [] then sw_rotate wx ?s2 else ?s2)"
      using \<open>\<not> sw_dead s0\<close> i True e by (simp add: busy_tick_def Let_def)
    then show ?thesis using sw_rotate_inv [OF nl inv2] inv2 by auto
  qed
qed

lemma tick_inv:
  assumes "no_late wx" "codec_ok (we_codec wx)" "sw_inv (we_codec wx) act s0"
  shows "\<exists>act'. sw_inv (we_codec wx) act' (tick wx s0)"
  using busy_tick_inv [OF assms, of "[]" "[]"] by (simp add: tick_is_quiet)

section \<open>Restarts\<close>

lemma restore_inv:
  assumes w: "whole K (dk_active (sw_disk s)) act" and some: "dk_active (sw_disk s) \<noteq> None" and alive: "\<not> sw_dead s"
    and safe: "\<forall>p\<in>set (dk_maybe (sw_disk s)). safe_pos K s act p"
    and u: "uniform (sw_disk s) (set (dk_maybe (sw_disk s)))"
    and p: "p \<in> set (dk_maybe (sw_disk s))" "dk_cursor (sw_disk s) = Some p"
  shows "sw_inv K act (restorePosition wx s)"
proof -
  have at: "sw_inv K act (t\<lparr>sw_pos := q\<rparr>)"
    if t: "sw_disk t = sw_disk s" "sw_accepted t = sw_accepted s" "sw_settled t = sw_settled s"
      and q: "q = p \<or> \<not> named (sw_disk s) p \<and> q = \<lparr>ps_segment = [], ps_offset = ps_offset p\<rparr>" for t q
  proof (rule sw_invI)
    let ?t = "t\<lparr>sw_pos := q\<rparr>"
    have same: "safe_pos K ?t act x = safe_pos K s act x" for x
      using t by (simp add: safe_pos_def covers_def)
    have sp: "safe_pos K s act p" using safe p by blast
    have "safe_pos K s act q"
    proof (cases "q = p")
      case False
      then have "pos_at K (sw_disk s) act q qs tail = pos_at K (sw_disk s) act p qs tail" for qs tail
        using q by (simp add: pos_at_def) (simp add: named_def)
      then show ?thesis using sp by (simp add: safe_pos_def)
    qed (use sp in simp)
    then show "\<forall>x\<in>live ?t. safe_pos K ?t act x"
      unfolding same using safe t by (auto simp: live_def split: if_splits)
    have nm: "named (sw_disk s) x \<Longrightarrow> x \<in> set (dk_maybe (sw_disk s)) \<Longrightarrow> ps_segment p = ps_segment x \<and> named (sw_disk s) p" for x
      using uniformD [OF u _ p(1), of x] by (simp add: named_def)
    show "uniform (sw_disk ?t) (live ?t)"
    proof (rule uniformI)
      fix x y assume x: "x \<in> live ?t" and y: "y \<in> live ?t" and n: "named (sw_disk ?t) x"
      have n': "named (sw_disk s) x" using n t by simp
      have in_live: "z \<in> set (dk_maybe (sw_disk s)) \<or> z = q" if "z \<in> live ?t" for z
        using that t by (auto simp: live_def split: if_splits)
      have "x = q \<Longrightarrow> x = p" using q n' by (auto simp: named_def)
      then have xm: "x \<in> set (dk_maybe (sw_disk s))" using in_live [OF x] p(1) by blast
      from nm [OF n' this] have xp: "ps_segment p = ps_segment x" "named (sw_disk s) p" by blast+
      then have "q = p" using q by blast
      then have "y \<in> set (dk_maybe (sw_disk s))" using in_live [OF y] p(1) by blast
      then show "ps_segment y = ps_segment x" by (rule uniformD [OF u xm _ n'])
    qed
  qed (use w some p t in auto)
  show ?thesis
  proof (cases "ps_segment p = []")
    case True
    have "sw_inv K act (s\<lparr>sw_pos := p\<rparr>)" by (rule at) simp_all
    then have "sw_inv K act (removeDrainedSegments wx (s\<lparr>sw_pos := p\<rparr>))"
      using some by (intro removeDrainedSegments_inv) simp_all
    then show ?thesis using True p by (simp add: restorePosition_def ReadPosition_def)
  next
    case False
    obtain r s1 where i: "io_step wx s = (r, s1)" by (metis surj_pair)
    note f = io_step_simps [OF i]
    let ?q = "if SegmentExists (sw_disk s1) (ps_segment p) then p else \<lparr>ps_segment = [], ps_offset = ps_offset p\<rparr>"
    have ex: "SegmentExists (sw_disk s1) (ps_segment p) = named (sw_disk s) p"
      using False f by (simp add: SegmentExists_def segment_file_def named_def)
    have a: "sw_inv K act (s1\<lparr>sw_pos := p\<rparr>)" "sw_inv K act (s1\<lparr>sw_pos := ?q\<rparr>)"
      by (rule at; use f ex in auto)+
    have "sw_inv K act (removeDrainedSegments wx (s1\<lparr>sw_pos := ?q\<rparr>))"
      using a(2) some f by (intro removeDrainedSegments_inv) simp_all
    then show ?thesis using False p i a by (simp add: restorePosition_def ReadPosition_def)
  qed
qed

lemma boot_inv:
  assumes inv: "sw_inv K act s" and k: "k \<noteq> Unreadable"
  shows "sw_inv K act (boot wx k s)"
proof -
  let ?d = "create_active (disk_after k (sw_disk s))"
  let ?s = "s\<lparr>sw_disk := ?d, sw_open := True, sw_pos := start, sw_retry := (\<lambda>_. 0), sw_mutq := mq_New (sw_mutq s),
     sw_status := NewStatus (sw_now wx s), sw_stallWarned := False, sw_dead := False\<rparr>"
  have seg: "dk_segments (sw_disk ?s) = dk_segments (sw_disk s)"
    by (auto simp: create_active_def disk_after_def split: option.splits restart.splits)
  have maybe: "set (dk_maybe (sw_disk ?s)) \<subseteq> live s"
    by (auto simp: create_active_def disk_after_def live_def split: option.splits restart.splits)
  have cur: "\<exists>p\<in>set (dk_maybe (sw_disk ?s)). dk_cursor (sw_disk ?s) = Some p"
    using sw_invE(4) [OF inv] k
    by (auto simp: create_active_def disk_after_def split: option.splits restart.splits)
  have w: "whole K (dk_active (sw_disk ?s)) act" "dk_active (sw_disk ?s) \<noteq> None"
    using sw_invE(1) [OF inv] k
    by (auto simp: create_active_def disk_after_def whole_def split: option.splits restart.splits)
  have "safe_pos K ?s act p" if p: "p \<in> live s" for p
    using sw_invE(2) [OF inv p] unfolding safe_pos_def segments_cong(2) [OF seg] by (simp add: covers_def)
  then have safe: "\<forall>p\<in>set (dk_maybe (sw_disk ?s)). safe_pos K ?s act p" using maybe by blast
  have u: "uniform (sw_disk ?s) (set (dk_maybe (sw_disk ?s)))"
  proof (rule uniformI)
    fix p q assume "p \<in> set (dk_maybe (sw_disk ?s))" "q \<in> set (dk_maybe (sw_disk ?s))" "named (sw_disk ?s) p"
    then show "ps_segment q = ps_segment p"
      using uniformD [OF sw_invE(3) [OF inv], of p q] maybe segments_cong(1) [OF seg] by blast
  qed
  from cur obtain p where p: "p \<in> set (dk_maybe (sw_disk ?s))" "dk_cursor (sw_disk ?s) = Some p" by blast
  show ?thesis unfolding boot_def
    by (rule restore_inv [OF w _ safe u p]) simp
qed

section \<open>Crash safety\<close>

text \<open>What a restart at this position has still to read, by the reader itself.\<close>

definition outstanding :: "sw_env \<Rightarrow> disk \<Rightarrow> position \<Rightarrow> spool_record list" where
  "outstanding wx d p =
     (if ps_segment p \<noteq> [] \<and> SegmentExists d (ps_segment p)
      then records_of (read_at wx p d) @ records_of (read_at wx start d)
      else records_of (read_at wx \<lparr>ps_segment = [], ps_offset = ps_offset p\<rparr> d))"

fun ev_ok :: "codec \<Rightarrow> sw_op \<Rightarrow> bool" where
  "ev_ok K (EvAccept rec outc) \<longleftrightarrow> arrival_ok K (rec, outc)"
| "ev_ok K EvTick \<longleftrightarrow> True"
| "ev_ok K (EvBusyTick as late) \<longleftrightarrow> list_all (list_all (arrival_ok K)) as \<and> list_all (arrival_ok K) late"
| "ev_ok K (EvRestart k) \<longleftrightarrow> k \<noteq> Unreadable"

text \<open>The machine before its first start: an empty directory.\<close>

definition switched_off :: "world \<Rightarrow> sw" where
  "switched_off w = \<lparr>sw_disk = \<lparr>dk_active = None, dk_segments = [], dk_cursor = Some start, dk_maybe = [start], dk_dead = []\<rparr>,
     sw_open = False, sw_pos = start, sw_retry = (\<lambda>_. 0), sw_world = w, sw_releases = [],
     sw_mutq = \<lparr>mq_active = None, mq_processing = None, mq_file = AtActive\<rparr>, sw_status = NewStatus 0,
     sw_stallWarned = False, sw_captured = [], sw_ticks = 0, sw_dead = True, sw_settled = [], sw_accepted = []\<rparr>"

lemma switched_off_inv: "sw_inv K [] (switched_off w)"
  by (rule sw_invI)
    (auto simp: switched_off_def whole_def live_def safe_pos_def pos_at_def named_def covers_def uniform_def start_def)

definition spool_sound :: "sw_env \<Rightarrow> sw \<Rightarrow> bool" where
  "spool_sound wx s \<longleftrightarrow> no_late wx \<and> codec_ok (we_codec wx) \<and> (\<exists>act. sw_inv (we_codec wx) act s)"

interpretation spool_machine: guarded_machine "sw_step wx" "spool_sound wx" "ev_ok (we_codec wx)" for wx
proof unfold_locales
  fix s x assume s: "spool_sound wx s" and x: "ev_ok (we_codec wx) x"
  then obtain act where nl: "no_late wx" and K: "codec_ok (we_codec wx)" and inv: "sw_inv (we_codec wx) act s"
    by (auto simp: spool_sound_def)
  show "spool_sound wx (sw_step wx s x)"
  proof (cases x)
    case (EvAccept rec outc)
    then show ?thesis
      using accept_inv [OF inv, of rec outc] x nl K by (auto simp: spool_sound_def)
  next
    case EvTick
    then show ?thesis using tick_inv [OF nl K inv] nl K by (simp add: spool_sound_def)
  next
    case (EvBusyTick as late)
    then show ?thesis using busy_tick_inv [OF nl K inv, of as late] x nl K by (simp add: spool_sound_def)
  next
    case (EvRestart k)
    then show ?thesis using boot_inv [OF inv, of k wx] x nl K by (auto simp: spool_sound_def)
  qed
qed

lemma outstanding_pos:
  assumes K: "codec_ok (we_codec wx)" and w: "whole (we_codec wx) (dk_active d) act"
    and p: "pos_at (we_codec wx) d act p qs tail"
  shows "outstanding wx d p = map public (qs @ tail)"
proof -
  let ?q = "\<lparr>ps_segment = [], ps_offset = ps_offset p\<rparr>"
  have ex: "(ps_segment p \<noteq> [] \<and> SegmentExists d (ps_segment p)) = named d p"
    by (auto simp: named_def SegmentExists_def segment_file_def)
  have none: "dk_active d = None \<Longrightarrow> act = []" using w by (auto simp: whole_def)
  show ?thesis
  proof (cases "named d p")
    case True
    have s: "pos_at (we_codec wx) d act start act []" by (simp add: pos_at_def named_def start_def)
    have "records_of (read_at wx start d) = map public act"
      using read_at_pos [OF K w s] none by (simp add: records_of_def start_def)
    moreover have "records_of (read_at wx p d) = map public qs"
      using read_at_pos [OF K w p] True by (simp add: records_of_def)
    moreover have "tail = act" using p True by (auto simp: pos_at_def)
    ultimately show ?thesis using True ex by (simp add: outstanding_def)
  next
    case False
    then have q: "pos_at (we_codec wx) d act ?q qs tail" "tail = []" "\<exists>pre. act = pre @ qs"
      using p by (auto simp: pos_at_def named_def)
    have "records_of (read_at wx ?q d) = map public qs"
      using read_at_pos [OF K w q(1)] none q(3) by (auto simp: records_of_def named_def)
    then show ?thesis using False ex q(2) by (auto simp: outstanding_def)
  qed
qed


definition demo_sw_env :: "(nat \<Rightarrow> io) \<Rightarrow> sw_env" where
  "demo_sw_env outcomes = \<lparr>we_proc = demo_px None, we_mut = calm_mut_env, we_codec = plain_codec,
     we_mutCodec = plain_mut, we_io = outcomes, we_mqIo = (\<lambda>_. io_fine), we_clock = int, we_stamp = (\<lambda>_. ''t''),
     we_parseRelease = (\<lambda>_. None), we_createErr = (\<lambda>_. None), we_parseError = (\<lambda>_. Plain ''bad record''),
     we_rotateThreshold = 10, we_maxBytes = 0, we_selfReporting = False\<rparr>"

text \<open>A request arrives in the middle of a tick, the process dies in the middle of another, then power
  is lost.\<close>

definition rough_run :: "sw_op list" where
  "rough_run = [EvRestart Kill, EvAccept (small_record ''a'') Wrote,
     EvBusyTick [[(small_record ''c'', Wrote)]] [(small_record ''d'', Wrote)], EvAccept (small_record ''b'') Wrote, EvTick,
     EvRestart (PowerLoss start), EvTick, EvRestart Kill]"


end
