(* ===== verification/SpoolProgress.thy ===== *)
theory SpoolProgress
  imports SpoolSafety
begin

text \<open>
  What the spool worker gets done, and what stops it: each record leaves the head of the spool
  within three ticks, a handle that could not be reopened stays closed, a line the reader
  cannot take blocks everything behind it, and an unreadable cursor costs the segments it no
  longer names.
\<close>

section \<open>When nothing outside fails\<close>

definition io_fine_env :: "sw_env \<Rightarrow> bool" where
  "io_fine_env wx \<longleftrightarrow> (\<forall>n. we_io wx n = IoOk)"

lemma io_step_fine:
  "io_fine_env wx \<Longrightarrow> \<not> sw_dead s \<Longrightarrow> io_step wx s = (IoOk, s\<lparr>sw_ticks := Suc (sw_ticks s)\<rparr>)"
  by (simp add: io_step_def io_fine_env_def Let_def)

lemma disk_op_fine:
  "io_fine_env wx \<Longrightarrow> \<not> sw_dead s
   \<Longrightarrow> disk_op wx f s = (True, s\<lparr>sw_ticks := Suc (sw_ticks s), sw_disk := f (sw_disk s)\<rparr>)"
  by (simp add: disk_op_def io_step_fine)

lemma commit_op_fine:
  "io_fine_env wx \<Longrightarrow> \<not> sw_dead s
   \<Longrightarrow> commit_op wx p s = (True, s\<lparr>sw_ticks := Suc (sw_ticks s), sw_disk := CommitPosition p (sw_disk s)\<rparr>)"
  by (simp add: commit_op_def io_step_fine)

lemma fine_no_late: "io_fine_env wx \<Longrightarrow> no_late wx"
  by (simp add: io_fine_env_def no_late_def)

text \<open>Nothing crashes, what is settled stays settled, nothing new is dropped, and the dead-letter file has
  exactly the lines of what was dead-lettered since.\<close>

definition dead_lines :: "codec \<Rightarrow> (spool_record \<times> fate) list \<Rightarrow> string" where
  "dead_lines K xs = file_of K (map fst (filter (\<lambda>x. snd x = DeadLettered) xs))"

definition grows :: "codec \<Rightarrow> sw \<Rightarrow> sw \<Rightarrow> bool" where
  "grows K s s' \<longleftrightarrow> \<not> sw_dead s' \<and> (\<exists>more. sw_settled s' = sw_settled s @ more \<and> Dropped \<notin> snd ` set more
     \<and> dk_dead (sw_disk s') = dk_dead (sw_disk s) @ dead_lines K more)"

lemma dead_lines_simps: "dead_lines K [] = []" "dead_lines K (xs @ ys) = dead_lines K xs @ dead_lines K ys"
  "dead_lines K [(r, Stored)] = []" "dead_lines K [(r, DeadLettered)] = line_of K r"
  by (simp_all add: dead_lines_def file_of_def)

lemma grows_same:
  "\<not> sw_dead s' \<Longrightarrow> sw_settled s' = sw_settled s \<Longrightarrow> dk_dead (sw_disk s') = dk_dead (sw_disk s) \<Longrightarrow> grows K s s'"
  by (simp add: grows_def dead_lines_simps)

lemma grows_refl: "\<not> sw_dead s \<Longrightarrow> grows K s s"
  by (simp add: grows_same)

lemma grows_trans:
  assumes "grows K s s'" "grows K s' s''"
  shows "grows K s s''"
proof -
  obtain xs ys where "sw_settled s' = sw_settled s @ xs" "Dropped \<notin> snd ` set xs" "dk_dead (sw_disk s') = dk_dead (sw_disk s) @ dead_lines K xs"
    "sw_settled s'' = sw_settled s' @ ys" "Dropped \<notin> snd ` set ys" "dk_dead (sw_disk s'') = dk_dead (sw_disk s') @ dead_lines K ys"
    using assms unfolding grows_def by blast
  then show ?thesis using assms(2) unfolding grows_def
    by (intro conjI exI [of _ "xs @ ys"]) (auto simp: dead_lines_simps)
qed

lemma advanceCursor_fine:
  assumes "io_fine_env wx" "\<not> sw_dead s"
  shows "\<not> sw_dead (advanceCursor wx e s)" "sw_settled (advanceCursor wx e s) = sw_settled s"
    "dk_dead (sw_disk (advanceCursor wx e s)) = dk_dead (sw_disk s)"
  using assms by (simp_all add: advanceCursor_def Let_def disk_op_fine WritePosition_def)

lemma try_record_fine:
  assumes "io_fine_env wx" "\<not> sw_dead s" "try_record wx rec s = (r, s1)"
  shows "\<not> sw_dead s1" "sw_settled s1 = sw_settled s" "sw_retry s1 = sw_retry s"
proof -
  have "\<not> sw_dead s1 \<and> sw_settled s1 = sw_settled s \<and> sw_retry s1 = sw_retry s"
    using assms
    by (auto simp: try_record_def io_step_fine processReleaseEntry_def persistReleaseRecord_def processEventEntry_def
        Let_def split: if_splits option.splits prod.splits sum.splits)
  then show "\<not> sw_dead s1" "sw_settled s1 = sw_settled s" "sw_retry s1 = sw_retry s" by auto
qed

lemma note_dead_letter_settled:
  "sw_settled (note_dead_letter wx rec st rp dn s) = sw_settled s @ [(rec, if dn then DeadLettered else Dropped)]"
  "sw_dead (note_dead_letter wx rec st rp dn s) = sw_dead s"
  "sw_disk (note_dead_letter wx rec st rp dn s) = sw_disk s"
  by (simp_all add: note_dead_letter_def Let_def)

text \<open>One record: settled, left for the next tick with one more failure counted, or put off.\<close>

definition settles :: "codec \<Rightarrow> spool_record \<Rightarrow> sw \<Rightarrow> sw \<Rightarrow> bool" where
  "settles K rec s s' \<longleftrightarrow> \<not> sw_dead s' \<and> (\<exists>f. f \<in> {Stored, DeadLettered} \<and> sw_settled s' = sw_settled s @ [(rec, f)]
     \<and> dk_dead (sw_disk s') = dk_dead (sw_disk s) @ dead_lines K [(rec, f)])"

lemma settles_grows: "settles K rec s s' \<Longrightarrow> grows K s s'"
  unfolding settles_def grows_def by auto

lemma give_up_fine:
  assumes "io_fine_env wx" "\<not> sw_dead s"
  shows "settles (we_codec wx) rec s (give_up wx rec e st rp s)"
  using assms
  by (simp add: give_up_def disk_op_fine advanceCursor_fine note_dead_letter_settled settles_def dead_lines_simps
      AppendDeadLetter_def)

lemma processEntry_fine:
  assumes io: "io_fine_env wx" and alive: "\<not> sw_dead s" and p: "processEntry wx (rec, e) s = (stop, s')"
    and t: "try_record wx rec s = (r, s1)"
  obtains (settled) "settles (we_codec wx) rec s s'"
    | (put_off) "r = PutOff \<or> (\<exists>st c rp. r = Failed st c rp \<and> is_shutdown c)" "stop" "s' = s1"
    | (counted) "stop" "Suc (sw_retry s (sr_ingestID rec)) < workerMaxRetries"
        "s' = s1\<lparr>sw_retry := (sw_retry s)(sr_ingestID rec := Suc (sw_retry s (sr_ingestID rec)))\<rparr>"
proof -
  note f = try_record_fine [OF io alive t] and fr = try_record_frame [OF t]
  show ?thesis
  proof (cases r)
    case Handled
    then have "s' = markProcessed wx rec e (s1\<lparr>sw_settled := sw_settled s1 @ [(rec, Stored)]\<rparr>)"
      using p t by (simp add: processEntry_def)
    then have "settles (we_codec wx) rec s s'"
      using f fr io by (simp add: markProcessed_def Let_def advanceCursor_fine settles_def dead_lines_simps)
    then show ?thesis by (rule settled)
  next
    case PutOff
    then show ?thesis using p t by (intro put_off) (simp_all add: processEntry_def)
  next
    case (Failed st c rp)
    let ?n = "Suc (sw_retry s (sr_ingestID rec))"
    let ?s2 = "s1\<lparr>sw_retry := (sw_retry s)(sr_ingestID rec := ?n)\<rparr>"
    have s': "s' = failRecord wx rec e st c rp s1" "stop" using p t Failed by (simp_all add: processEntry_def)
    show ?thesis
    proof (cases "is_shutdown c")
      case True
      then show ?thesis using s' Failed by (intro put_off) (simp_all add: failRecord_def)
    next
      case False
      then have e': "s' = (if ?n < workerMaxRetries then ?s2 else give_up wx rec e st rp ?s2)"
        using s' f by (simp add: failRecord_def Let_def)
      show ?thesis
      proof (cases "?n < workerMaxRetries")
        case True
        then show ?thesis using e' s'(2) by (intro counted) simp_all
      next
        case no: False
        have "settles (we_codec wx) rec ?s2 s'" using e' no give_up_fine [OF io, of ?s2] f by simp
        then have "settles (we_codec wx) rec s s'" using f fr by (simp add: settles_def)
        then show ?thesis by (rule settled)
      qed
    qed
  qed
qed

lemma processEntry_grows:
  assumes "io_fine_env wx" "\<not> sw_dead s" "processEntry wx e s = (stop, s')"
  shows "grows (we_codec wx) s s'"
proof -
  obtain r s1 where t: "try_record wx (fst e) s = (r, s1)" by (metis surj_pair)
  note f = try_record_fine [OF assms(1,2) t] and fr = try_record_frame [OF t]
  have p: "processEntry wx (fst e, snd e) s = (stop, s')" using assms(3) by simp
  show ?thesis
    by (rule processEntry_fine [OF assms(1,2) p t])
      (use f fr settles_grows grows_same [of s' s] in auto)
qed

text \<open>What an append does to the state: the active file and the accepted list, nothing else.\<close>

lemma Accept_frame:
  "sw_settled (snd (Accept wx rec outc s)) = sw_settled s" "sw_dead (snd (Accept wx rec outc s)) = sw_dead s"
  "sw_retry (snd (Accept wx rec outc s)) = sw_retry s" "sw_world (snd (Accept wx rec outc s)) = sw_world s"
  "sw_ticks (snd (Accept wx rec outc s)) = sw_ticks s" "sw_pos (snd (Accept wx rec outc s)) = sw_pos s"
  "dk_dead (sw_disk (snd (Accept wx rec outc s))) = dk_dead (sw_disk s)"
  by (simp_all add: Accept_def split: option.split prod.split)

lemma arrive_frame:
  "sw_settled (arrive wx as s) = sw_settled s" "sw_dead (arrive wx as s) = sw_dead s"
  "sw_retry (arrive wx as s) = sw_retry s" "sw_world (arrive wx as s) = sw_world s"
  "sw_ticks (arrive wx as s) = sw_ticks s" "sw_pos (arrive wx as s) = sw_pos s"
  "dk_dead (sw_disk (arrive wx as s)) = dk_dead (sw_disk s)"
  by (induction wx as s rule: arrive.induct) (simp_all add: Accept_frame)

lemma arrive_grows: "\<not> sw_dead s \<Longrightarrow> grows K s (arrive wx as s)"
  by (simp add: grows_same arrive_frame)

lemma process_amid_grows:
  "io_fine_env wx \<Longrightarrow> \<not> sw_dead s \<Longrightarrow> process_amid wx as es s = (b, s') \<Longrightarrow> grows (we_codec wx) s s'"
proof (induction es arbitrary: s as)
  case Nil
  then show ?case using arrive_grows by auto
next
  case (Cons e es)
  let ?s = "arrive wx (concat (take 1 as)) s"
  have alive: "\<not> sw_dead ?s" and g0: "grows (we_codec wx) s ?s"
    using Cons.prems(2) by (simp_all add: arrive_frame arrive_grows)
  obtain stop s1 where p: "processEntry wx e ?s = (stop, s1)" by (metis surj_pair)
  have g: "grows (we_codec wx) s s1" by (rule grows_trans [OF g0 processEntry_grows [OF Cons.prems(1) alive p]])
  then have a1: "\<not> sw_dead s1" by (simp add: grows_def)
  show ?case
  proof (cases stop)
    case True
    then have "s' = arrive wx (concat (drop 1 as)) s1" using Cons.prems(3) p by simp
    then show ?thesis using grows_trans [OF g arrive_grows [OF a1]] by simp
  next
    case False
    then have "grows (we_codec wx) s1 s'" using Cons.IH [of s1 "drop 1 as"] Cons.prems p a1 by simp
    then show ?thesis by (rule grows_trans [OF g])
  qed
qed

lemma process_entries_grows:
  "io_fine_env wx \<Longrightarrow> \<not> sw_dead s \<Longrightarrow> process_entries wx es s = (b, s') \<Longrightarrow> grows (we_codec wx) s s'"
  by (rule process_amid_grows [where as = "[]"]) (simp_all add: process_amid_none)

lemma remove_each_fine:
  assumes "io_fine_env wx" "\<not> sw_dead s"
  shows "\<not> sw_dead (remove_each wx ns s) \<and> sw_settled (remove_each wx ns s) = sw_settled s
    \<and> dk_dead (sw_disk (remove_each wx ns s)) = dk_dead (sw_disk s)"
  using assms(2)
proof (induction ns arbitrary: s)
  case (Cons n ns)
  then show ?case using assms(1) by (simp add: disk_op_fine RemoveSegment_def)
qed simp

lemma finishSegment_grows:
  assumes "io_fine_env wx" "\<not> sw_dead s"
  shows "grows K s (finishSegment wx s)"
  using assms remove_each_fine [OF assms(1)]
  by (intro grows_same) (simp_all add: finishSegment_def commit_op_fine removeDrainedSegments_def io_step_fine CommitPosition_def)

lemma drain_amid_grows:
  assumes "io_fine_env wx" "\<not> sw_dead s"
  shows "grows (we_codec wx) s (drain_amid wx as es s)"
proof -
  obtain b s1 where p: "process_amid wx as es s = (b, s1)" by (metis surj_pair)
  have g: "grows (we_codec wx) s s1" by (rule process_amid_grows [OF assms p])
  then have "\<not> sw_dead s1" by (simp add: grows_def)
  then show ?thesis
    using g grows_trans [OF g finishSegment_grows [OF assms(1)]] p by (simp add: drain_amid_def)
qed

text \<open>A rotation takes the records with it: the worker reads on at the same place.\<close>

lemma sw_rotate_fine:
  assumes io: "io_fine_env wx" and alive: "\<not> sw_dead s" and root: "ps_segment (sw_pos s) = []"
    and handle: "sw_open s \<Longrightarrow> dk_active (sw_disk s) \<noteq> None"
  shows "\<not> sw_dead (sw_rotate wx s)" "sw_settled (sw_rotate wx s) = sw_settled s" "sw_retry (sw_rotate wx s) = sw_retry s"
    "read_at wx (sw_pos (sw_rotate wx s)) (sw_disk (sw_rotate wx s)) = read_at wx (sw_pos s) (sw_disk s)"
    "dk_dead (sw_disk (sw_rotate wx s)) = dk_dead (sw_disk s)"
proof -
  let ?s2 = "s\<lparr>sw_ticks := Suc (Suc (sw_ticks s))\<rparr>"
  let ?n = "newSegmentName (we_stamp wx (sw_ticks ?s2)) (sw_disk s)"
  let ?stay = "\<not> sw_open s \<or> fileSize (dk_active (sw_disk s)) \<le> rotate_threshold wx \<or> ?n = None"
  have "\<not> sw_dead (sw_rotate wx s) \<and> sw_settled (sw_rotate wx s) = sw_settled s \<and> sw_retry (sw_rotate wx s) = sw_retry s
    \<and> read_at wx (sw_pos (sw_rotate wx s)) (sw_disk (sw_rotate wx s)) = read_at wx (sw_pos s) (sw_disk s)
    \<and> dk_dead (sw_disk (sw_rotate wx s)) = dk_dead (sw_disk s)"
  proof (cases ?stay)
    case True
    then have "sw_rotate wx s = s\<lparr>sw_ticks := Suc (sw_ticks s)\<rparr> \<or> sw_rotate wx s = ?s2"
      using io alive by (auto simp: sw_rotate_def RotateIfExceedsAt_def io_step_fine Let_def)
    then show ?thesis using alive by auto
  next
    case False
    then obtain name where n: "?n = Some name" by auto
    let ?p = "\<lparr>ps_segment = name, ps_offset = ps_offset (sw_pos s)\<rparr>"
    let ?d = "create_active (rename_active name (CommitPosition ?p (sw_disk s)))"
    have r: "\<exists>t. sw_rotate wx s = s\<lparr>sw_ticks := t, sw_disk := ?d, sw_open := True, sw_pos := ?p\<rparr>"
      using False n io alive
      by (auto simp: sw_rotate_def RotateIfExceedsAt_def rotateLockedTo_def io_step_fine commit_op_fine disk_op_fine Let_def)
    obtain f where f: "dk_active (sw_disk s) = Some f" using handle False by auto
    have "name \<noteq> []" by (rule newSegmentName_free(1) [OF n])
    then have "segment_file ?d name = Some f"
      using f by (simp add: segment_file_def create_active_def rename_active_def CommitPosition_def)
    then have "read_at wx ?p ?d = read_at wx (sw_pos s) (sw_disk s)"
      using f root by (simp add: read_at_def segment_file_def)
    moreover have "dk_dead ?d = dk_dead (sw_disk s)"
      by (simp add: create_active_def rename_active_def CommitPosition_def split: option.split)
    ultimately show ?thesis using r alive by auto
  qed
  then show "\<not> sw_dead (sw_rotate wx s)" "sw_settled (sw_rotate wx s) = sw_settled s" "sw_retry (sw_rotate wx s) = sw_retry s"
    "read_at wx (sw_pos (sw_rotate wx s)) (sw_disk (sw_rotate wx s)) = read_at wx (sw_pos s) (sw_disk s)"
    "dk_dead (sw_disk (sw_rotate wx s)) = dk_dead (sw_disk s)"
    by auto
qed

section \<open>The head of the spool\<close>

definition sw_head :: "sw_env \<Rightarrow> sw \<Rightarrow> (spool_record \<times> int) option" where
  "sw_head wx s = (case read_at wx (sw_pos s) (sw_disk s) of Inr (e # es) \<Rightarrow> Some e | _ \<Rightarrow> None)"

text \<open>The next tick's attempt at the record is not put off: no lock contention, no shutdown.\<close>

definition not_put_off :: "sw_env \<Rightarrow> spool_record \<Rightarrow> sw \<Rightarrow> bool" where
  "not_put_off wx rec s = (case fst (try_record wx rec (snd (io_step wx (drain_mutations wx s)))) of
     Handled \<Rightarrow> True | PutOff \<Rightarrow> False | Failed st c rp \<Rightarrow> \<not> is_shutdown c)"

lemma reportStatus_retry: "sw_retry (reportStatus wx s) = sw_retry s"
  by (simp add: reportStatus_def Let_def)

lemma drain_mutations_retry: "sw_retry (drain_mutations wx s) = sw_retry s"
  by (simp add: drain_mutations_def split: prod.splits)

text \<open>An append leaves the head where it is.\<close>

lemma accept_head:
  assumes K: "codec_ok (we_codec wx)" and inv: "sw_inv (we_codec wx) act s" and alive: "\<not> sw_dead s"
    and ok: "arrival_ok (we_codec wx) (rec, outc)" and h: "sw_head wx s = Some x"
  shows "sw_head wx (snd (Accept wx rec outc s)) = Some x"
proof -
  let ?K = "we_codec wx" and ?s = "snd (Accept wx rec outc s)"
  have r: "fits ?K rec" and o: "\<And>n. outc \<noteq> Torn n" using ok by (auto simp: arrival_ok_def)
  show ?thesis
  proof (rule Accept_cases [OF sw_invE(1) [OF inv] o refl])
    assume "unchanged s ?s"
    then show ?thesis using h by (simp add: unchanged_def sw_head_def)
  next
    assume ap: "appended ?K act rec s ?s"
    then have some: "dk_active (sw_disk s) \<noteq> None" "dk_active (sw_disk ?s) \<noteq> None"
      and seg: "dk_segments (sw_disk ?s) = dk_segments (sw_disk s)" by (auto simp: appended_def)
    obtain qs tail where p: "pos_at ?K (sw_disk s) act (sw_pos s) qs tail" "covers s (qs @ tail)"
      by (rule own_position [OF inv alive some(1)])
    obtain more tail' where p': "pos_at ?K (sw_disk ?s) (act @ [rec]) (sw_pos s) (qs @ more) tail'"
      by (rule appended_pos [OF ap p])
    let ?off = "ps_offset (sw_pos s)"
    note rd = read_at_pos [OF K sw_invE(1) [OF inv] p(1)]
    from rd h have able: "named (sw_disk s) (sw_pos s) \<or> ps_segment (sw_pos s) = []"
      by (auto simp: sw_head_def split: if_splits)
    then have e: "read_at wx (sw_pos s) (sw_disk s) = Inr (with_ends ?K ?off qs)" using rd some by auto
    have "named (sw_disk ?s) (sw_pos s) \<or> ps_segment (sw_pos s) = []" using able seg by (simp add: named_def)
    then have e': "read_at wx (sw_pos s) (sw_disk ?s) = Inr (with_ends ?K ?off (qs @ more))"
      using read_at_pos [OF K sw_invE(1) [OF appended_inv [OF ap inv r]] p'] some(2) by auto
    show ?thesis using h e e' by (cases qs) (simp_all add: sw_head_def Accept_frame Let_def)
  qed
qed

lemma arrive_head:
  "codec_ok (we_codec wx) \<Longrightarrow> sw_inv (we_codec wx) act s \<Longrightarrow> \<not> sw_dead s
   \<Longrightarrow> list_all (arrival_ok (we_codec wx)) as \<Longrightarrow> sw_head wx s = Some x \<Longrightarrow> sw_head wx (arrive wx as s) = Some x"
proof (induction as arbitrary: s act)
  case (Cons a as)
  obtain rec outc where a: "a = (rec, outc)" by (cases a)
  let ?s = "snd (Accept wx rec outc s)"
  have ok: "arrival_ok (we_codec wx) (rec, outc)" using Cons.prems(4) a by simp
  obtain act' where "sw_inv (we_codec wx) act' ?s" using accept_inv [OF Cons.prems(2) ok] by blast
  moreover have "sw_head wx ?s = Some x" by (rule accept_head [OF Cons.prems(1-3) ok Cons.prems(5)])
  ultimately show ?case using Cons a by (simp add: Accept_frame)
qed simp

lemma try_record_cong:
  "sw_world s = sw_world t \<Longrightarrow> sw_ticks s = sw_ticks t \<Longrightarrow> sw_dead s = sw_dead t
   \<Longrightarrow> fst (try_record wx rec s) = fst (try_record wx rec t)"
  by (simp add: try_record_def io_step_def processReleaseEntry_def persistReleaseRecord_def processEventEntry_def
      Let_def split: option.split prod.split sum.split)

definition ticked :: "sw_env \<Rightarrow> sw \<Rightarrow> sw" where
  "ticked wx s = (drain_mutations wx s)\<lparr>sw_ticks := Suc (sw_ticks (drain_mutations wx s))\<rparr>"

lemma ticked_frame:
  "sw_dead (ticked wx s) = sw_dead s" "sw_disk (ticked wx s) = sw_disk s" "sw_pos (ticked wx s) = sw_pos s"
  "sw_settled (ticked wx s) = sw_settled s" "sw_retry (ticked wx s) = sw_retry s" "sw_open (ticked wx s) = sw_open s"
  "sw_accepted (ticked wx s) = sw_accepted s"
  by (simp_all add: ticked_def drain_mutations_frame drain_mutations_retry)

lemma ticked_inv: "sw_inv K act s \<Longrightarrow> sw_inv K act (ticked wx s)"
  by (rule sw_inv_mono) (auto simp: ticked_frame)

text \<open>After the batch a tick moves nothing that matters to the head.\<close>

lemma busy_tick_fine:
  assumes io: "io_fine_env wx" and K: "codec_ok (we_codec wx)" and inv: "sw_inv (we_codec wx) act s" and alive: "\<not> sw_dead s"
    and ok: "list_all (list_all (arrival_ok (we_codec wx))) as" "list_all (arrival_ok (we_codec wx)) late"
    and rd: "read_at wx (sw_pos s) (sw_disk s) = Inr entries" and s1: "s1 = drain_amid wx as entries (ticked wx s)"
    and s': "s' = busy_tick wx as late s"
  shows "grows (we_codec wx) s1 s'" "sw_settled s' = sw_settled s1" "sw_retry s' = sw_retry s1"
    "sw_head wx s1 = Some x \<Longrightarrow> sw_head wx s' = Some x"
proof -
  let ?m = "drain_mutations wx s" and ?r = "reportStatus wx s1"
  let ?s2 = "arrive wx late ?r"
  have i: "io_step wx ?m = (IoOk, ticked wx s)"
    using io_step_fine [OF io, of ?m] alive by (simp add: ticked_def drain_mutations_frame)
  have tick: "s' = (if ps_segment (sw_pos ?s2) = [] then sw_rotate wx ?s2 else ?s2)"
    using alive i rd unfolding s' s1 by (simp add: busy_tick_def ticked_frame Let_def)
  have alive_s: "\<not> sw_dead (ticked wx s)" using alive by (simp add: ticked_frame)
  have "\<exists>act'. sw_inv (we_codec wx) act' s1"
    unfolding s1 by (rule drain_amid_inv [OF fine_no_late [OF io] K ticked_inv [OF inv] alive_s _ ok(1)])
      (simp add: ticked_frame rd)
  then obtain act1 where "sw_inv (we_codec wx) act1 s1" by blast
  then have inv1: "sw_inv (we_codec wx) act1 ?r" by (rule sw_inv_mono) (simp_all add: reportStatus_frame)
  obtain act2 where inv2: "sw_inv (we_codec wx) act2 ?s2" using arrive_inv [OF inv1 ok(2)] by blast
  have alive1: "\<not> sw_dead s1" using drain_amid_grows [OF io alive_s] unfolding s1 by (simp add: grows_def)
  then have alive2: "\<not> sw_dead ?r" "\<not> sw_dead ?s2" by (simp_all add: reportStatus_frame arrive_frame)
  have handle: "dk_active (sw_disk ?s2) \<noteq> None" if "sw_open ?s2" using sw_invE(5) [OF inv2] alive2 that by auto
  have rot: "\<not> sw_dead s'" "sw_settled s' = sw_settled s1" "sw_retry s' = sw_retry s1"
    "dk_dead (sw_disk s') = dk_dead (sw_disk s1)" "sw_head wx s' = sw_head wx ?s2"
    using sw_rotate_fine [OF io alive2(2) _ handle] alive2
    unfolding tick by (simp_all add: reportStatus_frame reportStatus_retry arrive_frame sw_head_def)
  then show "grows (we_codec wx) s1 s'" "sw_settled s' = sw_settled s1" "sw_retry s' = sw_retry s1"
    by (simp_all add: grows_same)
  assume "sw_head wx s1 = Some x"
  then have "sw_head wx ?r = Some x" by (simp add: sw_head_def reportStatus_frame)
  then show "sw_head wx s' = Some x" unfolding rot(5) by (rule arrive_head [OF K inv1 alive2(1) ok(2)])
qed

lemma busy_tick_grows:
  assumes io: "io_fine_env wx" and K: "codec_ok (we_codec wx)" and inv: "sw_inv (we_codec wx) act s" and alive: "\<not> sw_dead s"
    and ok: "list_all (list_all (arrival_ok (we_codec wx))) as" "list_all (arrival_ok (we_codec wx)) late"
  shows "grows (we_codec wx) s (busy_tick wx as late s)"
proof (cases "read_at wx (sw_pos s) (sw_disk s)")
  case (Inl x)
  have "io_step wx (drain_mutations wx s) = (IoOk, ticked wx s)"
    using io_step_fine [OF io, of "drain_mutations wx s"] alive by (simp add: ticked_def drain_mutations_frame)
  then have "busy_tick wx as late s = ticked wx s" using alive Inl by (simp add: busy_tick_def ticked_frame)
  then show ?thesis using alive by (simp add: grows_same ticked_frame)
next
  case (Inr es)
  have "grows (we_codec wx) s (ticked wx s)" using alive by (simp add: grows_same ticked_frame)
  from grows_trans [OF this drain_amid_grows [OF io]] alive
  have "grows (we_codec wx) s (drain_amid wx as es (ticked wx s))" by (simp add: ticked_frame)
  from grows_trans [OF this busy_tick_fine(1) [OF io K inv alive ok Inr refl refl]] show ?thesis .
qed

text \<open>One tick at the head: it settles the record first of all, or counts one more failure of it.\<close>

definition leads :: "spool_record \<Rightarrow> sw \<Rightarrow> sw \<Rightarrow> bool" where
  "leads rec s s' \<longleftrightarrow> (\<exists>f more. sw_settled s' = sw_settled s @ (rec, f) # more)"

lemma leads_grows: "leads rec s s' \<Longrightarrow> grows K s' s'' \<Longrightarrow> leads rec s s''"
  unfolding leads_def grows_def by force

lemma busy_tick_head:
  assumes io: "io_fine_env wx" and K: "codec_ok (we_codec wx)" and inv: "sw_inv (we_codec wx) act s" and alive: "\<not> sw_dead s"
    and ok: "list_all (list_all (arrival_ok (we_codec wx))) as" "list_all (arrival_ok (we_codec wx)) late"
    and h: "sw_head wx s = Some (rec, e)" and v: "not_put_off wx rec s" and s': "s' = busy_tick wx as late s"
  shows "leads rec s s' \<or> sw_settled s' = sw_settled s \<and> sw_head wx s' = Some (rec, e)
       \<and> sw_retry s' (sr_ingestID rec) = Suc (sw_retry s (sr_ingestID rec))
       \<and> Suc (sw_retry s (sr_ingestID rec)) < workerMaxRetries"
proof -
  let ?K = "we_codec wx" and ?n = "Suc (sw_retry s (sr_ingestID rec))"
  obtain es where rd: "read_at wx (sw_pos s) (sw_disk s) = Inr ((rec, e) # es)"
    using h by (auto simp: sw_head_def split: sum.splits list.splits)
  let ?a = "arrive wx (concat (take 1 as)) (ticked wx s)"
  define s1 where "s1 = drain_amid wx as ((rec, e) # es) (ticked wx s)"
  note bt = busy_tick_fine [OF io K inv alive ok rd s1_def s']
  have okc: "list_all (arrival_ok ?K) (concat (take 1 as))" "list_all (arrival_ok ?K) (concat (drop 1 as))"
    using ok(1) by (cases as; auto simp: list_all_iff)+
  have alive_t: "\<not> sw_dead (ticked wx s)" and alive_a: "\<not> sw_dead ?a" using alive by (simp_all add: ticked_frame arrive_frame)
  have head_t: "sw_head wx (ticked wx s) = Some (rec, e)" using h by (simp add: sw_head_def ticked_frame)
  obtain act1 where inva: "sw_inv ?K act1 ?a" using arrive_inv [OF ticked_inv [OF inv] okc(1)] by blast
  have head_a: "sw_head wx ?a = Some (rec, e)" by (rule arrive_head [OF K ticked_inv [OF inv] alive_t okc(1) head_t])
  obtain r s0 where t: "try_record wx rec ?a = (r, s0)" by (metis surj_pair)
  obtain stop s3 where p: "processEntry wx (rec, e) ?a = (stop, s3)" by (metis surj_pair)
  note fr = try_record_frame [OF t] and fi = try_record_fine [OF io alive_a t]
  have "fst (try_record wx rec ?a) = fst (try_record wx rec (ticked wx s))"
    by (rule try_record_cong) (simp_all add: arrive_frame)
  moreover have "snd (io_step wx (drain_mutations wx s)) = ticked wx s"
    using io_step_fine [OF io, of "drain_mutations wx s"] alive by (simp add: ticked_def drain_mutations_frame)
  ultimately have v': "r \<noteq> PutOff" "\<not> (\<exists>st c rp. r = Failed st c rp \<and> is_shutdown c)"
    using v t by (auto simp: not_put_off_def)
  show ?thesis
  proof (rule processEntry_fine [OF io alive_a p t])
    assume "settles ?K rec ?a s3"
    then have l: "leads rec s s3" and a3: "\<not> sw_dead s3"
      by (auto simp: settles_def leads_def arrive_frame ticked_frame)
    obtain b s4 where pe: "process_amid wx as ((rec, e) # es) (ticked wx s) = (b, s4)" by (metis surj_pair)
    have g4: "grows ?K s3 s4"
    proof (cases stop)
      case True
      then show ?thesis using pe p arrive_grows [OF a3] by auto
    next
      case False
      then have "process_amid wx (drop 1 as) es s3 = (b, s4)" using pe p by simp
      then show ?thesis by (rule process_amid_grows [OF io a3])
    qed
    then have a4: "\<not> sw_dead s4" by (simp add: grows_def)
    have "grows ?K s4 s1" using finishSegment_grows [OF io a4] grows_refl [OF a4] pe by (simp add: s1_def drain_amid_def)
    then have "leads rec s s1" by (rule leads_grows [OF leads_grows [OF l g4]])
    then show ?thesis using leads_grows [OF _ bt(1)] by blast
  next
    assume "r = PutOff \<or> (\<exists>st c rp. r = Failed st c rp \<and> is_shutdown c)"
    then show ?thesis using v' by blast
  next
    assume c: "stop" "Suc (sw_retry ?a (sr_ingestID rec)) < workerMaxRetries"
      "s3 = s0\<lparr>sw_retry := (sw_retry ?a)(sr_ingestID rec := Suc (sw_retry ?a (sr_ingestID rec)))\<rparr>"
    have a3: "\<not> sw_dead s3" using c(3) fi by simp
    have s1: "s1 = arrive wx (concat (drop 1 as)) s3" using p c(1) by (simp add: s1_def drain_amid_def)
    have inv3: "sw_inv ?K act1 s3" by (rule sw_inv_mono [OF inva]) (use c(3) fr fi in auto)
    have "sw_head wx s3 = Some (rec, e)" using head_a c(3) fr by (simp add: sw_head_def)
    then have "sw_head wx s1 = Some (rec, e)" unfolding s1 by (rule arrive_head [OF K inv3 a3 okc(2)])
    moreover have "sw_settled s1 = sw_settled s" "sw_retry s1 (sr_ingestID rec) = ?n"
      using c(3) fi by (simp_all add: s1 arrive_frame ticked_frame)
    ultimately show ?thesis using bt(2-4) c(2) by (simp add: arrive_frame ticked_frame)
  qed
qed

fun is_tick :: "sw_op \<Rightarrow> bool" where
  "is_tick EvTick \<longleftrightarrow> True" | "is_tick (EvBusyTick as late) \<longleftrightarrow> True" | "is_tick _ \<longleftrightarrow> False"

fun no_restart :: "sw_op \<Rightarrow> bool" where
  "no_restart (EvRestart k) \<longleftrightarrow> False"
| "no_restart _ \<longleftrightarrow> True"

lemma sw_step_grows:
  assumes io: "io_fine_env wx" and K: "codec_ok (we_codec wx)" and inv: "sw_inv (we_codec wx) act s" and alive: "\<not> sw_dead s"
    and x: "ev_ok (we_codec wx) x" "no_restart x"
  shows "grows (we_codec wx) s (sw_step wx s x) \<and> (\<exists>act'. sw_inv (we_codec wx) act' (sw_step wx s x))"
proof (cases x)
  case (EvAccept rec outc)
  then show ?thesis using accept_inv [OF inv, of rec outc] alive x by (simp add: grows_same Accept_frame)
next
  case EvTick
  then show ?thesis
    using busy_tick_grows [OF io K inv alive, of "[]" "[]"] tick_inv [OF fine_no_late [OF io] K inv]
    by (simp add: tick_is_quiet)
next
  case (EvBusyTick as late)
  then show ?thesis
    using busy_tick_grows [OF io K inv alive, of as late] busy_tick_inv [OF fine_no_late [OF io] K inv, of as late] x by simp
next
  case (EvRestart k)
  then show ?thesis using x by simp
qed

lemma fine_run_grows:
  "io_fine_env wx \<Longrightarrow> codec_ok (we_codec wx) \<Longrightarrow> sw_inv (we_codec wx) act s \<Longrightarrow> \<not> sw_dead s
   \<Longrightarrow> list_all (ev_ok (we_codec wx)) es \<Longrightarrow> list_all no_restart es
   \<Longrightarrow> grows (we_codec wx) s (foldl (sw_step wx) s es)"
proof (induction es arbitrary: s act)
  case (Cons x es)
  have g: "grows (we_codec wx) s (sw_step wx s x)" and i: "\<exists>act'. sw_inv (we_codec wx) act' (sw_step wx s x)"
    using sw_step_grows [OF Cons.prems(1-4), of x] Cons.prems(5,6) by auto
  then obtain act' where "sw_inv (we_codec wx) act' (sw_step wx s x)" by blast
  moreover have "\<not> sw_dead (sw_step wx s x)" using g by (simp add: grows_def)
  ultimately have "grows (we_codec wx) (sw_step wx s x) (foldl (sw_step wx) (sw_step wx s x) es)"
    using Cons by simp
  then show ?case using grows_trans [OF g] by simp
qed (simp add: grows_refl)

lemma head_leads:
  "io_fine_env wx \<Longrightarrow> codec_ok (we_codec wx) \<Longrightarrow> sw_inv (we_codec wx) act s \<Longrightarrow> \<not> sw_dead s
   \<Longrightarrow> list_all (ev_ok (we_codec wx)) es \<Longrightarrow> list_all no_restart es
   \<Longrightarrow> sw_head wx s = Some (rec, e) \<Longrightarrow> filter is_tick es \<noteq> []
   \<Longrightarrow> workerMaxRetries \<le> length (filter is_tick es) + sw_retry s (sr_ingestID rec)
   \<Longrightarrow> (\<And>xs x ys. es = xs @ x # ys \<Longrightarrow> is_tick x \<Longrightarrow> sw_settled (foldl (sw_step wx) s xs) = sw_settled s
        \<Longrightarrow> not_put_off wx rec (foldl (sw_step wx) s xs))
   \<Longrightarrow> leads rec s (foldl (sw_step wx) s es)"
proof (induction es arbitrary: s act)
  case (Cons x es)
  let ?s = "sw_step wx s x" and ?K = "we_codec wx"
  note h = Cons.prems(7) and io = Cons.prems(1) and K = Cons.prems(2) and inv = Cons.prems(3) and alive = Cons.prems(4)
  have x: "ev_ok ?K x" "no_restart x" and es: "list_all (ev_ok ?K) es" "list_all no_restart es"
    using Cons.prems(5,6) by auto
  have g: "grows ?K s ?s" using sw_step_grows [OF io K inv alive x] by blast
  obtain act' where inv': "sw_inv ?K act' ?s" using sw_step_grows [OF io K inv alive x] by blast
  have alive': "\<not> sw_dead ?s" using g by (simp add: grows_def)
  have later: "leads rec s (foldl (sw_step wx) ?s es)"
    if "sw_settled ?s = sw_settled s" "sw_head wx ?s = Some (rec, e)" "filter is_tick es \<noteq> []"
      "workerMaxRetries \<le> length (filter is_tick es) + sw_retry ?s (sr_ingestID rec)"
  proof -
    have "leads rec ?s (foldl (sw_step wx) ?s es)"
    proof (rule Cons.IH [OF io K inv' alive' es that(2-4)])
      fix xs y ys assume "es = xs @ y # ys" "is_tick y" "sw_settled (foldl (sw_step wx) ?s xs) = sw_settled ?s"
      then show "not_put_off wx rec (foldl (sw_step wx) ?s xs)"
        using Cons.prems(10) [of "x # xs" y ys] that(1) by simp
    qed
    then show ?thesis using that(1) by (simp add: leads_def)
  qed
  show ?case
  proof (cases "is_tick x")
    case True
    then obtain as late where b: "?s = busy_tick wx as late s" "list_all (list_all (arrival_ok ?K)) as"
      "list_all (arrival_ok ?K) late"
    proof (cases x)
      case EvTick
      then show ?thesis using tick_is_quiet [of wx s] by (intro that [of "[]" "[]"]) simp_all
    next
      case (EvBusyTick as late)
      then show ?thesis using x by (intro that [of as late]) simp_all
    qed (use True in simp_all)
    have v: "not_put_off wx rec s" using Cons.prems(10) [of "[]" x es] True by simp
    from busy_tick_head [OF io K inv alive b(2,3) h v b(1)] show ?thesis
    proof
      assume "leads rec s ?s"
      from leads_grows [OF this fine_run_grows [OF io K inv' alive' es]] show ?thesis by simp
    next
      assume c: "sw_settled ?s = sw_settled s \<and> sw_head wx ?s = Some (rec, e)
       \<and> sw_retry ?s (sr_ingestID rec) = Suc (sw_retry s (sr_ingestID rec))
       \<and> Suc (sw_retry s (sr_ingestID rec)) < workerMaxRetries"
      then have "workerMaxRetries \<le> length (filter is_tick es) + sw_retry ?s (sr_ingestID rec)"
        using Cons.prems(9) True by simp
      moreover from this c have "filter is_tick es \<noteq> []" by (cases "filter is_tick es") auto
      ultimately show ?thesis using later c by simp
    qed
  next
    case False
    then obtain q outc where a: "x = EvAccept q outc" using x by (cases x) auto
    have "sw_head wx ?s = Some (rec, e)" using accept_head [OF K inv alive _ h, of q outc] x a by simp
    then show ?thesis using later Cons.prems(8,9) False a by (simp add: Accept_frame)
  qed
qed simp

text \<open>C15: Every record leaves the head of the spool, stored or dead-lettered: in any run without a restart
  that has three ticks, with requests arriving between and in the middle of them, and whatever
  rotations happen, the record at the head is the next one settled; nothing settled in the run
  is dropped, and the dead-letter file has grown by exactly the lines of the records
  dead-lettered in it.  This holds while every operation on files succeeds, the arriving records
  are whole and fit the reader's line, and, as long as it is at the head, the attempts at the
  record are not put off (by lock contention or a shutdown).  A dead letter that cannot be
  written is what drops a record.\<close>

theorem head_leaves_within_three_ticks:
  assumes "io_fine_env wx" "codec_ok (we_codec wx)" "sw_inv (we_codec wx) act s" "\<not> sw_dead s"
    and "sw_head wx s = Some (rec, e)"
    and "list_all (ev_ok (we_codec wx)) es" "list_all no_restart es" "3 \<le> length (filter is_tick es)"
    and "\<And>xs x ys. es = xs @ x # ys \<Longrightarrow> is_tick x \<Longrightarrow> sw_settled (foldl (sw_step wx) s xs) = sw_settled s
        \<Longrightarrow> not_put_off wx rec (foldl (sw_step wx) s xs)"
    and "s' = foldl (sw_step wx) s es"
  shows "\<exists>f more. sw_settled s' = sw_settled s @ (rec, f) # more \<and> f \<in> {Stored, DeadLettered}
    \<and> Dropped \<notin> snd ` set more \<and> dk_dead (sw_disk s') = dk_dead (sw_disk s) @ dead_lines (we_codec wx) ((rec, f) # more)"
proof -
  have "filter is_tick es \<noteq> []" "workerMaxRetries \<le> length (filter is_tick es) + sw_retry s (sr_ingestID rec)"
    using assms(8) by (auto simp: workerMaxRetries_def)
  then have "leads rec s s'"
    unfolding assms(10) by (rule head_leads [OF assms(1-4,6,7,5)]) (rule assms(9))
  then obtain f more where l: "sw_settled s' = sw_settled s @ (rec, f) # more" unfolding leads_def by blast
  obtain new where n: "sw_settled s' = sw_settled s @ new" "Dropped \<notin> snd ` set new"
    "dk_dead (sw_disk s') = dk_dead (sw_disk s) @ dead_lines (we_codec wx) new"
    using fine_run_grows [OF assms(1-4,6,7)] unfolding grows_def assms(10) by blast
  have e: "new = (rec, f) # more" using l n(1) by simp
  have "f \<noteq> Dropped" using n(2) unfolding e by auto
  then have "f \<in> {Stored, DeadLettered}" by (cases f) simp_all
  then show ?thesis using l n(2,3) unfolding e by (intro exI [of _ f] exI [of _ more]) simp
qed

definition bad_record :: spool_record where
  "bad_record = (small_record ''a'')\<lparr>sr_body := ''!''\<rparr>"

lemma bad_record_fails:
  assumes "\<not> sw_dead s"
  shows "not_put_off (demo_sw_env (\<lambda>_. IoOk)) bad_record s"
proof -
  let ?wx = "demo_sw_env (\<lambda>_. IoOk)"
  have io: "io_fine_env ?wx" by (simp add: io_fine_env_def demo_sw_env_def)
  have "ProcessRecord (we_proc ?wx) bad_record = None"
    by (simp add: ProcessRecord_def bad_record_def small_record_def b64_decode_def)
  moreover have "sr_kind bad_record \<noteq> RecordKindRelease"
    by (simp add: bad_record_def small_record_def RecordKindRelease_def)
  ultimately have "fst (try_record ?wx bad_record t) = Failed ''process record'' (Plain ''bad record'') True"
    if "\<not> sw_dead t" for t
    using that io by (simp add: try_record_def io_step_fine processEventEntry_def Let_def) (simp add: demo_sw_env_def)
  then show ?thesis
    using assms io by (simp add: not_put_off_def io_step_fine drain_mutations_frame is_shutdown_def)
qed

definition one_bad :: sw where
  "one_bad = foldl (sw_step (demo_sw_env (\<lambda>_. IoOk))) (switched_off empty_world) [EvRestart Kill, EvAccept bad_record Wrote]"

lemma bad_record_fits: "fits plain_codec bad_record"
  by (simp add: bad_record_def fits_def plain_codec_def plain_enc_def small_record_def enc_int_def length_enc_text
      maxLine_def itoa_def nat_str.simps)

lemma one_bad_state:
  "\<not> sw_dead one_bad" "sw_pos one_bad = start" "dk_active (sw_disk one_bad) = Some (file_of plain_codec [bad_record])"
  "sw_settled one_bad = []"
  by (simp_all add: one_bad_def boot_def switched_off_def disk_after_def create_active_def restorePosition_def
      ReadPosition_def start_def removeDrainedSegments_def io_step_def ListSegments_def demo_sw_env_def Accept_def
      Append_def write_bytes_def file_of_def Let_def)

lemma one_bad_head: "sw_head (demo_sw_env (\<lambda>_. IoOk)) one_bad = Some (bad_record, size_of plain_codec [bad_record])"
proof -
  have "ReadRecordsFrom plain_codec (Some (file_of plain_codec ([] @ [bad_record]))) (size_of plain_codec [])
      = Inr (with_ends plain_codec (size_of plain_codec []) [bad_record])"
    by (rule read_records [OF plain_codec_ok]) (simp add: bad_record_fits)
  moreover have "public bad_record = bad_record" by (simp add: public_def bad_record_def small_record_def)
  ultimately show ?thesis
    using one_bad_state
    by (simp add: sw_head_def read_at_def segment_file_def start_def demo_sw_env_def)
qed

text \<open>A request arrives while the second attempt at the record runs.\<close>

definition three_ticks :: "sw_op list" where
  "three_ticks = [EvTick, EvBusyTick [[(small_record ''b'', Wrote)]] [], EvTick]"

theorem head_leaves_within_three_ticks_witness:
  "\<exists>f more. sw_settled (foldl (sw_step (demo_sw_env (\<lambda>_. IoOk))) one_bad three_ticks) = (bad_record, f) # more
     \<and> f \<in> {Stored, DeadLettered}"
proof -
  let ?wx = "demo_sw_env (\<lambda>_. IoOk)"
  have io: "io_fine_env ?wx" and K: "codec_ok (we_codec ?wx)"
    using plain_codec_ok by (simp_all add: io_fine_env_def demo_sw_env_def)
  have "spool_sound ?wx (switched_off empty_world)"
    using fine_no_late [OF io] K switched_off_inv by (auto simp: spool_sound_def)
  moreover have "list_all (ev_ok (we_codec ?wx)) [EvRestart Kill, EvAccept bad_record Wrote]"
    using bad_record_fits by (simp add: demo_sw_env_def arrival_ok_def)
  ultimately obtain act where inv: "sw_inv (we_codec ?wx) act one_bad"
    using spool_machine.run_inv unfolding one_bad_def spool_sound_def by blast
  have ok: "list_all (ev_ok (we_codec ?wx)) three_ticks" "list_all no_restart three_ticks"
    using small_fits by (simp_all add: three_ticks_def demo_sw_env_def arrival_ok_def)
  have v: "not_put_off ?wx bad_record (foldl (sw_step ?wx) one_bad xs)" if "three_ticks = xs @ x # ys" for xs x ys
  proof -
    have "list_all (ev_ok (we_codec ?wx)) xs" "list_all no_restart xs" using ok unfolding that by simp_all
    then have "\<not> sw_dead (foldl (sw_step ?wx) one_bad xs)"
      using fine_run_grows [OF io K inv one_bad_state(1)] by (simp add: grows_def)
    then show ?thesis by (rule bad_record_fails)
  qed
  have n: "3 \<le> length (filter is_tick three_ticks)" by (simp add: three_ticks_def)
  define s' where "s' = foldl (sw_step ?wx) one_bad three_ticks"
  have "\<exists>f more. sw_settled s' = sw_settled one_bad @ (bad_record, f) # more \<and> f \<in> {Stored, DeadLettered}
    \<and> Dropped \<notin> snd ` set more \<and> dk_dead (sw_disk s') = dk_dead (sw_disk one_bad) @ dead_lines (we_codec ?wx) ((bad_record, f) # more)"
    by (rule head_leaves_within_three_ticks [OF io K inv one_bad_state(1) one_bad_head ok n _ s'_def]) (rule v)
  then show ?thesis unfolding one_bad_state(4) s'_def by auto
qed

section \<open>A cursor that cannot be read\<close>

lemma advanceCursor_cursor:
  "io_fine_env wx \<Longrightarrow> \<not> sw_dead s
   \<Longrightarrow> dk_cursor (sw_disk (advanceCursor wx e s)) = Some (sw_pos (advanceCursor wx e s))"
  by (simp add: advanceCursor_def Let_def disk_op_fine WritePosition_def)

lemma processEntry_cursor:
  assumes io: "io_fine_env wx" and alive: "\<not> sw_dead s" and p: "processEntry wx e s = (stop, s')"
  shows "sw_settled s' = sw_settled s \<and> sw_disk s' = sw_disk s \<and> sw_pos s' = sw_pos s
    \<or> dk_cursor (sw_disk s') = Some (sw_pos s')"
proof -
  obtain rec off where e: "e = (rec, off)" by (cases e)
  obtain r s1 where t: "try_record wx rec s = (r, s1)" by (metis surj_pair)
  note f = try_record_fine [OF io alive t] and fr = try_record_frame [OF t]
  show ?thesis
  proof (cases r)
    case Handled
    then show ?thesis using p e t f io
      by (auto simp: processEntry_def markProcessed_def Let_def advanceCursor_cursor)
  next
    case PutOff
    then show ?thesis using p e t f fr by (auto simp: processEntry_def)
  next
    case (Failed st c rp)
    have g: "dk_cursor (sw_disk (give_up wx rec off st rp x)) = Some (sw_pos (give_up wx rec off st rp x))"
      if "\<not> sw_dead x" for x
      using that io by (simp add: give_up_def disk_op_fine note_dead_letter_settled advanceCursor_cursor)
    show ?thesis using p e t f fr Failed g by (auto simp: processEntry_def failRecord_def Let_def)
  qed
qed

lemma process_entries_cursor:
  "io_fine_env wx \<Longrightarrow> \<not> sw_dead s \<Longrightarrow> process_entries wx es s = (b, s')
   \<Longrightarrow> sw_settled s' = sw_settled s \<and> sw_disk s' = sw_disk s \<and> sw_pos s' = sw_pos s
      \<or> dk_cursor (sw_disk s') = Some (sw_pos s')"
proof (induction es arbitrary: s)
  case (Cons e es)
  obtain stop s1 where p: "processEntry wx e s = (stop, s1)" by (metis surj_pair)
  note c = processEntry_cursor [OF Cons.prems(1,2) p]
  show ?case
  proof (cases stop)
    case True
    then show ?thesis using Cons.prems(3) p c by simp
  next
    case False
    have "\<not> sw_dead s1" using processEntry_grows [OF Cons.prems(1,2) p] by (simp add: grows_def)
    then have "sw_settled s' = sw_settled s1 \<and> sw_disk s' = sw_disk s1 \<and> sw_pos s' = sw_pos s1
      \<or> dk_cursor (sw_disk s') = Some (sw_pos s')"
      using Cons.IH [of s1] Cons.prems(1,3) p False by simp
    then show ?thesis using c by auto
  qed
qed simp

lemma isSegmentName_nonempty: "isSegmentName n \<Longrightarrow> n \<noteq> []"
  by (auto simp: isSegmentName_def segmentPrefix_def)

lemma remove_each_segments:
  assumes "io_fine_env wx" "\<not> sw_dead s" "ps_segment (sw_pos s) = []" "\<forall>n\<in>set ns. isSegmentName n"
  shows "dk_segments (sw_disk (remove_each wx ns s)) = filter (\<lambda>(m, c). m \<notin> set ns) (dk_segments (sw_disk s))"
  using assms(2-4)
proof (induction ns arbitrary: s)
  case (Cons n ns)
  let ?s = "s\<lparr>sw_ticks := Suc (sw_ticks s), sw_disk := RemoveSegment n (sw_disk s)\<rparr>"
  have n: "n \<noteq> []" "isSegmentName n" using Cons.prems isSegmentName_nonempty by auto
  have "remove_each wx (n # ns) s = remove_each wx ns ?s"
    using n Cons.prems assms(1) by (simp add: disk_op_fine)
  moreover have "dk_segments (sw_disk (remove_each wx ns ?s)) = filter (\<lambda>(m, c). m \<notin> set ns) (dk_segments (sw_disk ?s))"
    using Cons by simp
  ultimately show ?case
    using n by (simp add: RemoveSegment_def filter_filter case_prod_beta conj_commute)
qed (simp add: case_prod_beta)

lemma removeDrained_all:
  assumes "io_fine_env wx" "\<not> sw_dead s" "ps_segment (sw_pos s) = []"
  shows "ListSegments (sw_disk (removeDrainedSegments wx s)) = []"
proof -
  let ?ns = "ListSegments (sw_disk s)"
  have seg: "\<forall>n\<in>set ?ns. isSegmentName n" by (simp add: ListSegments_def)
  have "dk_segments (sw_disk (removeDrainedSegments wx s)) = filter (\<lambda>(m, c). m \<notin> set ?ns) (dk_segments (sw_disk s))"
    using remove_each_segments [OF assms(1) _ _ seg, of "s\<lparr>sw_ticks := Suc (sw_ticks s)\<rparr>"] assms
    by (simp add: removeDrainedSegments_def io_step_fine)
  then have "set (ListSegments (sw_disk (removeDrainedSegments wx s))) = {}"
    by (auto simp: ListSegments_def intro: rev_image_eqI)
  then show ?thesis by simp
qed

text \<open>An unreadable cursor costs the backlog: the restart that finds it leaves every rotated segment
  on disk, as the code says, but as soon as one tick has handled a record of the active segment
  the cursor file names that segment again, and the next restart deletes every rotated segment,
  drained or not.\<close>

theorem unreadable_cursor_deletes_backlog:
  assumes io: "io_fine_env wx" and s1: "s1 = boot wx Unreadable s" and t: "sw_settled (tick wx s1) \<noteq> sw_settled s1"
    and small: "fileSize (dk_active (sw_disk s1)) \<le> rotate_threshold wx"
  shows "dk_segments (sw_disk s1) = dk_segments (sw_disk s)
    \<and> ListSegments (sw_disk (boot wx Kill (tick wx s1))) = []"
proof -
  have b: "sw_pos s1 = start" "\<not> sw_dead s1" "dk_segments (sw_disk s1) = dk_segments (sw_disk s)"
    unfolding s1 by (auto simp: boot_def restorePosition_def ReadPosition_def disk_after_def create_active_def split: option.splits)
  let ?m = "drain_mutations wx s1"
  let ?s = "?m\<lparr>sw_ticks := Suc (sw_ticks ?m)\<rparr>"
  have m: "\<not> sw_dead ?m" "sw_settled ?m = sw_settled s1" "sw_pos ?m = start" "sw_disk ?m = sw_disk s1"
    using b by (simp_all add: drain_mutations_frame)
  have i: "io_step wx ?m = (IoOk, ?s)" by (rule io_step_fine [OF io m(1)])
  obtain es where rd: "read_at wx (sw_pos ?s) (sw_disk ?s) = Inr es"
    using t b i m by (cases "read_at wx (sw_pos ?s) (sw_disk ?s)") (auto simp: tick_def)
  obtain dr s2 where p: "process_entries wx es ?s = (dr, s2)" by (metis surj_pair)
  note fr = process_entries_frame [OF p]
  have root: "ps_segment (sw_pos s2) = []" using fr m by (simp add: start_def)
  have ds: "drain_spool wx es ?s = s2" using p root by (simp add: drain_spool_def)
  let ?r = "reportStatus wx s2"
  have alive: "\<not> sw_dead ?r" using process_entries_grows [OF io _ p] m by (simp add: reportStatus_frame grows_def)
  have "dk_active (sw_disk ?r) = dk_active (sw_disk s1)" using fr m by (simp add: reportStatus_frame)
  then have "sw_rotate wx ?r = ?r\<lparr>sw_ticks := Suc (sw_ticks ?r)\<rparr>"
    using small alive io by (simp add: sw_rotate_def RotateIfExceedsAt_def io_step_fine Let_def)
  then have tick: "tick wx s1 = ?r\<lparr>sw_ticks := Suc (sw_ticks ?r)\<rparr>"
    using b i rd ds root by (simp add: tick_def Let_def reportStatus_frame)
  then have "sw_settled s2 \<noteq> sw_settled ?s" using t m by (simp add: reportStatus_frame)
  then have "dk_cursor (sw_disk s2) = Some (sw_pos s2)"
    using process_entries_cursor [OF io _ p] m by auto
  then have cur: "dk_cursor (sw_disk (tick wx s1)) = Some (sw_pos s2)" unfolding tick by (simp add: reportStatus_frame)
  let ?b = "(tick wx s1)\<lparr>sw_disk := create_active (disk_after Kill (sw_disk (tick wx s1))), sw_open := True,
     sw_pos := start, sw_retry := (\<lambda>_. 0), sw_mutq := mq_New (sw_mutq (tick wx s1)),
     sw_status := NewStatus (sw_now wx (tick wx s1)), sw_stallWarned := False, sw_dead := False\<rparr>"
  have "dk_cursor (sw_disk ?b) = Some (sw_pos s2)"
    using cur by (simp add: disk_after_def create_active_def split: option.splits)
  then have "boot wx Kill (tick wx s1) = removeDrainedSegments wx (?b\<lparr>sw_pos := sw_pos s2\<rparr>)"
    using root by (simp add: boot_def restorePosition_def ReadPosition_def)
  moreover have "ListSegments (sw_disk (removeDrainedSegments wx (?b\<lparr>sw_pos := sw_pos s2\<rparr>))) = []"
    by (rule removeDrained_all [OF io]) (use root in simp_all)
  ultimately show ?thesis using b(3) by simp
qed

text \<open>A release marker that is created at the first attempt.\<close>

definition release_record :: "string \<Rightarrow> spool_record" where
  "release_record i = (small_record i)\<lparr>sr_kind := RecordKindRelease\<rparr>"

definition release_env :: sw_env where
  "release_env = (demo_sw_env (\<lambda>_. IoOk))\<lparr>we_rotateThreshold := 0,
     we_parseRelease := (\<lambda>b. Some \<lparr>rl_Name = b, rl_Environment = [], rl_ObservedAt = 0, rl_Version = [],
       rl_CommitSHA = [], rl_URL = [], rl_Notes = [], rl_CreatedBy = []\<rparr>)\<rparr>"

definition drained_nothing :: sw where
  "drained_nothing = (switched_off empty_world)\<lparr>sw_disk :=
     \<lparr>dk_active = Some (file_of plain_codec [release_record ''b'']),
      dk_segments = [(''ingest-t.ndjson'', file_of plain_codec [release_record ''a''])],
      dk_cursor = Some \<lparr>ps_segment = ''ingest-t.ndjson'', ps_offset = 0\<rparr>,
      dk_maybe = [\<lparr>ps_segment = ''ingest-t.ndjson'', ps_offset = 0\<rparr>], dk_dead = []\<rparr>\<rparr>"

lemma release_fits: "length i < 1000 \<Longrightarrow> fits plain_codec (release_record i)"
  by (simp add: release_record_def fits_def plain_codec_def plain_enc_def small_record_def enc_int_def length_enc_text
      maxLine_def itoa_def nat_str.simps RecordKindRelease_def)

lemma read_release:
  "ReadRecordsFrom plain_codec (Some (file_of plain_codec [release_record ''b''])) 0
     = Inr [(release_record ''b'', size_of plain_codec [release_record ''b''])]"
proof -
  have "ReadRecordsFrom plain_codec (Some (file_of plain_codec ([] @ [release_record ''b'']))) (size_of plain_codec [])
      = Inr (with_ends plain_codec (size_of plain_codec []) [release_record ''b''])"
    by (rule read_records [OF plain_codec_ok]) (simp add: release_fits)
  moreover have "public (release_record ''b'') = release_record ''b''"
    by (simp add: public_def release_record_def small_record_def)
  ultimately show ?thesis by simp
qed

lemma release_handled:
  assumes "\<not> sw_dead s"
  shows "fst (try_record release_env (release_record i) s) = Handled"
  using assms
  by (simp add: try_record_def io_step_def release_env_def demo_sw_env_def release_record_def small_record_def
      processReleaseEntry_def persistReleaseRecord_def b64_decode_def Let_def)

theorem unreadable_cursor_deletes_backlog_witness:
  "ListSegments (sw_disk (boot release_env Unreadable drained_nothing)) = [''ingest-t.ndjson'']
    \<and> ListSegments (sw_disk (boot release_env Kill (tick release_env (boot release_env Unreadable drained_nothing)))) = []"
proof -
  let ?s1 = "boot release_env Unreadable drained_nothing"
  have io: "io_fine_env release_env" by (simp add: io_fine_env_def release_env_def demo_sw_env_def)
  have s1: "\<not> sw_dead ?s1" "sw_pos ?s1 = start" "sw_settled ?s1 = []"
    "dk_active (sw_disk ?s1) = Some (file_of plain_codec [release_record ''b''])"
    by (simp_all add: boot_def drained_nothing_def switched_off_def disk_after_def create_active_def restorePosition_def
        ReadPosition_def)
  have seg: "ListSegments (sw_disk drained_nothing) = [''ingest-t.ndjson'']"
    by (simp add: ListSegments_def drained_nothing_def isSegmentName_def segmentPrefix_def segmentSuffix_def
        has_prefix_def has_suffix_def)
  let ?m = "drain_mutations release_env ?s1"
  let ?s = "?m\<lparr>sw_ticks := Suc (sw_ticks ?m)\<rparr>"
  have i: "io_step release_env ?m = (IoOk, ?s)"
    by (rule io_step_fine [OF io]) (simp add: drain_mutations_frame s1)
  have rd: "read_at release_env (sw_pos ?s) (sw_disk ?s) = Inr [(release_record ''b'', size_of plain_codec [release_record ''b''])]"
    using read_release s1
    by (simp add: drain_mutations_frame read_at_def segment_file_def start_def release_env_def demo_sw_env_def)
  have h: "sw_head release_env ?s1 = Some (release_record ''b'', size_of plain_codec [release_record ''b''])"
    using rd by (simp add: sw_head_def drain_mutations_frame)
  have small: "fileSize (dk_active (sw_disk ?s1)) \<le> rotate_threshold release_env"
    unfolding s1(4)
    by (simp add: fileSize_def file_of_def line_of_def release_record_def plain_codec_def plain_enc_def small_record_def
        enc_int_def length_enc_text itoa_def nat_str.simps rotate_threshold_def workerRotateThreshold_def release_env_def
        demo_sw_env_def RecordKindRelease_def)
  have alive: "\<not> sw_dead ?s" using s1(1) by (simp add: drain_mutations_frame)
  obtain s0 where t: "try_record release_env (release_record ''b'') ?s = (Handled, s0)"
    using release_handled [OF alive] by (metis prod.collapse)
  obtain stop s3 where p: "processEntry release_env (release_record ''b'', size_of plain_codec [release_record ''b'']) ?s = (stop, s3)"
    by (metis surj_pair)
  have stop: "\<not> stop" using p t by (simp add: processEntry_def)
  have "settles (we_codec release_env) (release_record ''b'') ?s s3"
    by (rule processEntry_fine [OF io alive p t]) (use stop in simp_all)
  then have grown: "\<exists>f. sw_settled s3 = sw_settled ?s @ [(release_record ''b'', f)]" and s3: "\<not> sw_dead s3"
    unfolding settles_def by blast+
  note fr = processEntry_frame [OF p]
  have ds: "drain_spool release_env [(release_record ''b'', size_of plain_codec [release_record ''b''])] ?s = s3"
    using p stop fr s1 by (simp add: drain_spool_def drain_mutations_frame start_def)
  let ?r = "reportStatus release_env s3"
  have "sw_rotate release_env ?r = ?r\<lparr>sw_ticks := Suc (sw_ticks ?r)\<rparr>"
    using small s3 fr io
    by (simp add: sw_rotate_def RotateIfExceedsAt_def io_step_fine Let_def reportStatus_frame drain_mutations_frame)
  then have "sw_settled (tick release_env ?s1) = sw_settled s3"
    using s1 i rd ds by (simp add: tick_def Let_def reportStatus_frame)
  then have "sw_settled (tick release_env ?s1) \<noteq> sw_settled ?s1" using grown by (auto simp: drain_mutations_frame)
  from unreadable_cursor_deletes_backlog [OF io refl this small] seg show ?thesis
    by (simp add: ListSegments_def)
qed

section \<open>A handle that could not be reopened\<close>

definition keeps :: "sw \<Rightarrow> sw \<Rightarrow> bool" where
  "keeps s s' \<longleftrightarrow> sw_open s' = sw_open s \<and> sw_accepted s' = sw_accepted s"

lemma keeps_trans: "keeps s s' \<Longrightarrow> keeps s' s'' \<Longrightarrow> keeps s s''"
  by (simp add: keeps_def)

lemma io_step_keeps: "io_step wx s = (r, s') \<Longrightarrow> keeps s s'"
  by (auto simp: keeps_def dest: io_step_simps)

lemma disk_op_keeps: "keeps s (snd (disk_op wx f s))"
  by (auto simp: disk_op_def keeps_def dest: io_step_simps split: prod.splits)

lemma commit_op_keeps: "commit_op wx p s = (b, s') \<Longrightarrow> keeps s s'"
  by (auto simp: commit_op_def keeps_def dest!: io_step_simps split: prod.splits if_splits)

lemma advanceCursor_keeps: "keeps s (advanceCursor wx e s)"
  using disk_op_keeps [of "s\<lparr>sw_pos := (sw_pos s)\<lparr>ps_offset := e\<rparr>\<rparr>" wx "WritePosition ((sw_pos s)\<lparr>ps_offset := e\<rparr>)"]
  by (simp add: advanceCursor_def Let_def keeps_def)

lemma give_up_keeps: "keeps s (give_up wx rec e st rp s)"
proof -
  obtain b s2 where d: "disk_op wx (AppendDeadLetter (we_codec wx) rec) s = (b, s2)" by (metis surj_pair)
  have k: "keeps s s2" using disk_op_keeps [of s wx "AppendDeadLetter (we_codec wx) rec"] d by simp
  have "keeps s2 (advanceCursor wx e (note_dead_letter wx rec st rp b s2))"
    using advanceCursor_keeps [of "note_dead_letter wx rec st rp b s2" wx e]
    by (simp add: keeps_def note_dead_letter_def Let_def)
  then show ?thesis using k keeps_trans [OF k] d by (simp add: give_up_def)
qed

lemma processEntry_keeps:
  assumes "processEntry wx e s = (stop, s')"
  shows "keeps s s'"
proof -
  obtain rec off where e: "e = (rec, off)" by (cases e)
  obtain r s1 where t: "try_record wx rec s = (r, s1)" by (metis surj_pair)
  have k: "keeps s s1" using try_record_frame [OF t] by (simp add: keeps_def)
  show ?thesis
  proof (cases r)
    case Handled
    have "s' = markProcessed wx rec off (s1\<lparr>sw_settled := sw_settled s1 @ [(rec, Stored)]\<rparr>)"
      using assms e t Handled by (simp add: processEntry_def)
    then have "keeps s1 s'"
      using advanceCursor_keeps by (auto simp: markProcessed_def Let_def keeps_def)
    then show ?thesis by (rule keeps_trans [OF k])
  next
    case PutOff
    then show ?thesis using assms e t k by (simp add: processEntry_def)
  next
    case (Failed st c rp)
    have "s' = failRecord wx rec off st c rp s1" using assms e t Failed by (simp add: processEntry_def)
    then have "keeps s1 s'"
      using give_up_keeps by (auto simp: failRecord_def Let_def keeps_def)
    then show ?thesis by (rule keeps_trans [OF k])
  qed
qed

text \<open>With the handle closed every arrival is refused.\<close>

lemma arrive_closed: "\<not> sw_open s \<Longrightarrow> arrive wx as s = s"
  by (induction as) (auto simp: Accept_def)

lemma process_amid_keeps: "\<not> sw_open s \<Longrightarrow> process_amid wx as es s = (b, s') \<Longrightarrow> keeps s s'"
proof (induction es arbitrary: s as)
  case Nil
  then show ?case by (simp add: arrive_closed keeps_def)
next
  case (Cons e es)
  obtain stop s1 where p: "processEntry wx e s = (stop, s1)" by (metis surj_pair)
  have k: "keeps s s1" by (rule processEntry_keeps [OF p])
  then have closed: "\<not> sw_open s1" using Cons.prems(1) by (simp add: keeps_def)
  show ?case
  proof (cases stop)
    case True
    then show ?thesis using Cons.prems p k closed by (simp add: arrive_closed)
  next
    case False
    then have "keeps s1 s'" using Cons.IH [OF closed, of "drop 1 as"] Cons.prems p by (simp add: arrive_closed)
    then show ?thesis by (rule keeps_trans [OF k])
  qed
qed

lemma remove_each_keeps: "keeps s (remove_each wx ns s)"
proof (induction ns arbitrary: s)
  case (Cons n ns)
  let ?s = "if n = ps_segment (sw_pos s) then s else snd (disk_op wx (RemoveSegment n) s)"
  have "keeps s ?s" using disk_op_keeps by (simp add: keeps_def)
  then show ?case using keeps_trans [of s ?s] Cons.IH [of ?s] by simp
qed (simp add: keeps_def)

lemma drain_amid_keeps:
  assumes "\<not> sw_open s"
  shows "keeps s (drain_amid wx as es s)"
proof -
  obtain b s1 where p: "process_amid wx as es s = (b, s1)" by (metis surj_pair)
  obtain c s2 where q: "commit_op wx start s1 = (c, s2)" by (metis surj_pair)
  obtain r s3 where i: "io_step wx (s2\<lparr>sw_pos := start\<rparr>) = (r, s3)" by (metis surj_pair)
  have "keeps s2 s3" using io_step_keeps [OF i] by (simp add: keeps_def)
  then have "keeps s2 (removeDrainedSegments wx (s2\<lparr>sw_pos := start\<rparr>))"
    using remove_each_keeps keeps_trans i by (auto simp: removeDrainedSegments_def)
  then have "keeps s1 (finishSegment wx s1)"
    using commit_op_keeps [OF q] keeps_trans q by (auto simp: finishSegment_def)
  then show ?thesis using process_amid_keeps [OF assms p] keeps_trans p by (auto simp: drain_amid_def)
qed

lemma closed_busy_tick:
  assumes "\<not> sw_open s"
  shows "keeps s (busy_tick wx as late s)"
proof (cases "sw_dead s")
  case True
  then show ?thesis by (simp add: busy_tick_def keeps_def)
next
  case False
  obtain r s1 where i: "io_step wx (drain_mutations wx s) = (r, s1)" by (metis surj_pair)
  have k1: "keeps s s1" using io_step_keeps [OF i] by (simp add: keeps_def drain_mutations_frame)
  then have closed: "\<not> sw_open s1" using assms by (simp add: keeps_def)
  show ?thesis
  proof (cases "r = IoOk \<and> (\<exists>es. read_at wx (sw_pos s1) (sw_disk s1) = Inr es)")
    case False
    then have "busy_tick wx as late s = s1" using i \<open>\<not> sw_dead s\<close> by (auto simp: busy_tick_def split: sum.splits)
    then show ?thesis using k1 by simp
  next
    case True
    then obtain es where rd: "read_at wx (sw_pos s1) (sw_disk s1) = Inr es" by blast
    let ?s2 = "reportStatus wx (drain_amid wx as es s1)"
    have k2: "keeps s ?s2"
      using keeps_trans [OF k1 drain_amid_keeps [OF closed, of wx as es]] by (simp add: keeps_def reportStatus_frame)
    then have c2: "\<not> sw_open ?s2" using assms by (simp add: keeps_def)
    obtain x s3 where j: "io_step wx ?s2 = (x, s3)" by (metis surj_pair)
    have k3: "keeps ?s2 s3" by (rule io_step_keeps [OF j])
    have "sw_rotate wx ?s2 = s3"
      using j k3 c2 by (simp add: sw_rotate_def RotateIfExceedsAt_def keeps_def)
    then have "busy_tick wx as late s = s3 \<or> busy_tick wx as late s = ?s2"
      using i True rd \<open>\<not> sw_dead s\<close> arrive_closed [OF c2] by (auto simp: busy_tick_def Let_def)
    then show ?thesis using k2 keeps_trans [OF k2 k3] by auto
  qed
qed

lemma closed_tick: "\<not> sw_open s \<Longrightarrow> keeps s (tick wx s)"
  using closed_busy_tick [of s wx "[]" "[]"] by (simp add: tick_is_quiet)

text \<open>A spool handle that could not be reopened stays closed until the process restarts: over any
  run of requests and ticks, however well the files behave again, every append is refused, nothing
  is accepted, and no rotation opens it.  The retry in the next tick that the code announces
  stops at the closed handle.\<close>

theorem closed_handle_stays_closed:
  assumes "\<not> sw_open s" "list_all no_restart es" "s' = foldl (sw_step wx) s es"
  shows "\<not> sw_open s' \<and> sw_accepted s' = sw_accepted s \<and> fst (Accept wx rec outc s') = Some ErrClosed"
proof -
  have "keeps s s'" using assms
  proof (induction es arbitrary: s)
    case (Cons x es)
    have k: "keeps s (sw_step wx s x)"
      using Cons.prems closed_tick [of s wx] closed_busy_tick [of s wx] by (cases x) (auto simp: Accept_def keeps_def)
    then have "keeps (sw_step wx s x) s'" using Cons by (auto simp: keeps_def)
    then show ?case by (rule keeps_trans [OF k])
  qed (simp add: keeps_def)
  then show ?thesis using assms(1) by (simp add: keeps_def Accept_def)
qed

text \<open>The reopening after a rename fails once; everything else succeeds, before and after.\<close>

definition reopen_fails :: sw_env where
  "reopen_fails = demo_sw_env (\<lambda>n. if n = 6 then IoFail else IoOk)"

lemma one_bad_ticks: "sw_ticks one_bad = 1" "sw_open one_bad" "dk_segments (sw_disk one_bad) = []"
  by (simp_all add: one_bad_def boot_def switched_off_def disk_after_def create_active_def restorePosition_def
      ReadPosition_def start_def removeDrainedSegments_def io_step_def ListSegments_def demo_sw_env_def Accept_def
      Append_def write_bytes_def file_of_def Let_def)

lemma newSegmentName_first:
  assumes "\<not> SegmentExists d (segment_candidate ts 0)"
  shows "newSegmentName ts d = Some (segment_candidate ts 0)"
proof -
  have u: "[0..<1000] = 0 # [Suc 0..<1000]" by (rule upt_conv_Cons) simp
  show ?thesis unfolding newSegmentName_def u list.map find.simps using assms by (simp only: if_True not_False_eq_True)
qed

lemma rotate_one_bad: "\<not> sw_open (sw_rotate reopen_fails one_bad)"
proof -
  have size: "\<not> fileSize (dk_active (sw_disk one_bad)) \<le> 10"
    unfolding one_bad_state(3)
    by (simp add: fileSize_def file_of_def line_of_def bad_record_def plain_codec_def plain_enc_def small_record_def
        enc_int_def length_enc_text itoa_def nat_str.simps)
  have "\<not> SegmentExists (sw_disk one_bad) (segment_candidate ''t'' 0)"
    by (simp add: SegmentExists_def segment_file_def one_bad_ticks segment_candidate_def segmentPrefix_def)
  note name = newSegmentName_first [OF this]
  show ?thesis
    using size name one_bad_state(1) one_bad_ticks
    by (simp add: sw_rotate_def RotateIfExceedsAt_def rotateLockedTo_def commit_op_def disk_op_def io_step_def
        reopen_fails_def demo_sw_env_def rotate_threshold_def Let_def)
qed

theorem closed_handle_stays_closed_witness:
  "fst (Accept reopen_fails (small_record ''b'') Wrote
     (foldl (sw_step reopen_fails) (sw_rotate reopen_fails one_bad) [EvTick, EvAccept (small_record ''a'') Wrote, EvTick]))
   = Some ErrClosed"
proof -
  have "list_all no_restart [EvTick, EvAccept (small_record ''a'') Wrote, EvTick]" by simp
  from closed_handle_stays_closed [OF rotate_one_bad this refl] show ?thesis by blast
qed

section \<open>A line too long to read\<close>

lemma raw_lines_file_append:
  "codec_ok K \<Longrightarrow> raw_lines (file_of K rs @ bytes) = map (cd_enc K) rs @ raw_lines bytes"
proof (induction rs)
  case (Cons r rs)
  have "NL \<notin> set (cd_enc K r)" using Cons.prems by (simp add: codec_ok_def)
  from raw_lines_line [OF this, of "file_of K rs @ bytes"] Cons show ?case
    by (simp add: file_of_Cons line_of_def)
qed simp

lemma read_loop_oversize:
  "codec_ok K \<Longrightarrow> \<not> fits K big \<Longrightarrow> read_loop K pos (map (cd_enc K) pre @ cd_enc K big # ls) = Inl ()"
proof (induction pre arbitrary: pos)
  case Nil
  then show ?case by (simp add: fits_def)
next
  case (Cons r pre)
  have "read_loop K p (map (cd_enc K) pre @ cd_enc K big # ls) = Inl ()" for p
    using Cons by simp
  then show ?case by (simp add: Let_def)
qed

lemma read_oversize:
  assumes "codec_ok K" "\<not> fits K big"
  shows "ReadRecordsFrom K (Some (file_of K (done @ pre @ [big]) @ bytes)) (size_of K done) = Inl ()"
proof -
  let ?f = "file_of K (done @ pre @ [big]) @ bytes"
  have "drop (nat (size_of K done)) ?f = file_of K (pre @ [big]) @ bytes" by (simp add: size_of_def)
  moreover have "size_of K done \<le> int (length ?f)" by (simp add: size_of_def)
  ultimately show ?thesis
    using assms raw_lines_file_append [OF assms(1), of "pre @ [big]" bytes] read_loop_oversize [OF assms]
    by (simp add: ReadRecordsFrom_def Let_def del: file_of_append)
qed

text \<open>The worker stands before an oversize line of the active segment.\<close>

definition stuck :: "sw_env \<Rightarrow> spool_record list \<Rightarrow> spool_record list \<Rightarrow> spool_record \<Rightarrow> sw \<Rightarrow> bool" where
  "stuck wx handled pre big s \<longleftrightarrow> ps_segment (sw_pos s) = [] \<and> ps_offset (sw_pos s) = size_of (we_codec wx) handled
     \<and> (\<exists>bytes. dk_active (sw_disk s) = Some (file_of (we_codec wx) (handled @ pre @ [big]) @ bytes))"

lemma stuck_tick:
  assumes K: "codec_ok (we_codec wx)" "\<not> fits (we_codec wx) big" and s: "stuck wx handled pre big s"
  shows "stuck wx handled pre big (busy_tick wx as late s)" "sw_settled (busy_tick wx as late s) = sw_settled s"
    "sw_disk (busy_tick wx as late s) = sw_disk s"
proof -
  obtain r s1 where i: "io_step wx (drain_mutations wx s) = (r, s1)" by (metis surj_pair)
  note f = io_step_simps [OF i]
  have same: "sw_disk s1 = sw_disk s" "sw_pos s1 = sw_pos s" "sw_settled s1 = sw_settled s"
    using f by (simp_all add: drain_mutations_frame)
  have "read_at wx (sw_pos s1) (sw_disk s1) = Inl ()"
    using s read_oversize [OF K] same by (auto simp: stuck_def read_at_def segment_file_def)
  then have "busy_tick wx as late s = s \<or> busy_tick wx as late s = s1" using i by (auto simp: busy_tick_def)
  then show "stuck wx handled pre big (busy_tick wx as late s)" "sw_settled (busy_tick wx as late s) = sw_settled s"
    "sw_disk (busy_tick wx as late s) = sw_disk s"
    using s same by (auto simp: stuck_def)
qed

text \<open>One record whose line reaches the reader's limit of two megabytes stops the worker for good:
  the append takes it, but from then on no read succeeds, so over any run of requests and ticks
  nothing is settled and the cursor never moves, although requests go on being accepted.\<close>

theorem oversize_line_blocks_spool:
  assumes "codec_ok (we_codec wx)" "\<not> fits (we_codec wx) big" "stuck wx handled pre big s"
    and "list_all no_restart es" "s' = foldl (sw_step wx) s es"
  shows "stuck wx handled pre big s' \<and> sw_settled s' = sw_settled s
    \<and> dk_cursor (sw_disk s') = dk_cursor (sw_disk s)"
  using assms(3-5)
proof (induction es arbitrary: s)
  case (Cons x es)
  have "stuck wx handled pre big (sw_step wx s x) \<and> sw_settled (sw_step wx s x) = sw_settled s
    \<and> dk_cursor (sw_disk (sw_step wx s x)) = dk_cursor (sw_disk s)"
  proof (cases x)
    case (EvAccept rec outc)
    obtain bytes where f: "dk_active (sw_disk s) = Some (file_of (we_codec wx) (handled @ pre @ [big]) @ bytes)"
      using Cons.prems(1) by (auto simp: stuck_def)
    obtain e f' where ap: "Append (we_codec wx) (we_maxBytes wx) outc rec
        (file_of (we_codec wx) (handled @ pre @ [big]) @ bytes) = (e, f')" by (metis surj_pair)
    have "\<exists>more. f' = file_of (we_codec wx) (handled @ pre @ [big]) @ bytes @ more"
      using ap by (auto simp: Append_def write_bytes_def split: if_splits write_outcome.splits)
    then obtain more where more: "f' = file_of (we_codec wx) (handled @ pre @ [big]) @ bytes @ more" by blast
    show ?thesis
    proof (cases "sw_dead s \<or> \<not> sw_open s")
      case True
      then show ?thesis using Cons.prems(1) EvAccept by (simp add: Accept_def)
    next
      case False
      then show ?thesis using Cons.prems(1) EvAccept ap more f
        by (simp add: Accept_def stuck_def del: file_of_append)
    qed
  next
    case EvTick
    then show ?thesis using stuck_tick [OF assms(1,2) Cons.prems(1), of "[]" "[]"] by (simp add: tick_is_quiet)
  next
    case (EvBusyTick as late)
    then show ?thesis using stuck_tick [OF assms(1,2) Cons.prems(1), of as late] by simp
  next
    case (EvRestart k)
    then show ?thesis using Cons.prems(2) by simp
  qed
  then show ?case using Cons by simp
qed simp

definition big_record :: spool_record where
  "big_record = (small_record ''a'')\<lparr>sr_body := replicate 1048576 CHR ''A''\<rparr>"

definition before_big :: sw where
  "before_big = (switched_off empty_world)\<lparr>sw_open := True, sw_dead := False, sw_disk :=
     (sw_disk (switched_off empty_world))\<lparr>dk_active := Some (file_of plain_codec [big_record])\<rparr>\<rparr>"

theorem oversize_line_blocks_spool_witness:
  "\<exists>s'. s' = foldl (sw_step (demo_sw_env (\<lambda>_. IoOk))) before_big [EvTick, EvAccept (small_record ''b'') Wrote, EvTick, EvTick]
     \<and> sw_settled s' = [] \<and> dk_cursor (sw_disk s') = Some start"
proof -
  let ?wx = "demo_sw_env (\<lambda>_. IoOk)"
  let ?es = "[EvTick, EvAccept (small_record ''b'') Wrote, EvTick, EvTick]"
  have K: "we_codec ?wx = plain_codec" by (simp add: demo_sw_env_def)
  have big: "\<not> fits (we_codec ?wx) big_record"
    unfolding K by (simp add: fits_def big_record_def plain_codec_def plain_enc_def small_record_def length_enc_text maxLine_def)
  have s: "stuck ?wx [] [] big_record before_big"
    unfolding stuck_def K by (simp add: before_big_def switched_off_def start_def)
  have nr: "list_all no_restart ?es" by simp
  have "codec_ok (we_codec ?wx)" using plain_codec_ok K by simp
  from oversize_line_blocks_spool [OF this big s nr refl]
  show ?thesis by (simp add: before_big_def switched_off_def)
qed

end
