(* ===== verification/DetectRule.thy ===== *)
theory DetectRule
  imports EventData "HOL-Library.List_Lexorder" "HOL-Library.Char_ord"
begin

text \<open>
  Detection rules (\<open>internal/detect/rule.go\<close>, \<open>defaults.go\<close>) and the record fields
  they look at (\<open>internal/secnorm/record.go\<close>).

  A condition's value is any JSON value.  Validation gives it a type: an operator on one
  text needs a string or a number, an operator on a list needs a list.
  \<open>validate_cond_typed\<close> and \<open>typed_matches\<close> are the type soundness of that check:
  a validated condition has a typed reading and evaluates as that reading does.
  \<open>globMatch_ref\<close> shows that the greedy scan of \<open>globMatch\<close> decides the usual
  meaning of a pattern.  A \<open>float64\<close> threshold is a rational number.
\<close>

section \<open>Security records\<close>

record sec_record =
  sr_ts :: time
  sr_source :: string
  sr_host :: string
  sr_request_host :: string
  sr_kind :: string
  sr_src_ip :: string
  sr_user :: string
  sr_action :: string
  sr_status :: int
  sr_method :: string
  sr_path :: string
  sr_message :: string

definition StatusString :: "sec_record \<Rightarrow> string" where
  "StatusString r = (if sr_status r = 0 then [] else itoa (sr_status r))"

definition record_field :: "sec_record \<Rightarrow> string \<Rightarrow> string \<times> bool" where
  "record_field r name =
     (if name = ''source'' then (sr_source r, True)
      else if name = ''host'' then (sr_host r, True)
      else if name = ''request_host'' then (sr_request_host r, True)
      else if name = ''kind'' then (sr_kind r, True)
      else if name = ''src_ip'' then (sr_src_ip r, True)
      else if name = ''user'' then (sr_user r, True)
      else if name = ''action'' then (sr_action r, True)
      else if name = ''status'' then (StatusString r, True)
      else if name = ''method'' then (sr_method r, True)
      else if name = ''path'' then (sr_path r, True)
      else if name = ''message'' then (sr_message r, True)
      else ([], False))"

section \<open>Rules and conditions\<close>

record cond =
  cd_field :: string
  cd_op :: string
  cd_value :: jval

record rule =
  rl_id :: string
  rl_name :: string
  rl_enabled :: bool
  rl_severity :: string
  rl_track :: string
  rl_match :: "cond list"
  rl_group_by :: "string list"
  rl_issue_by :: string
  rl_exclude :: "cond list"
  rl_metric :: string
  rl_op :: string
  rl_per_core :: bool
  rl_for :: duration
  rl_exclude_metric :: "string list"
  rl_threshold :: rat
  rl_window :: duration
  rl_cooldown :: duration

definition TrackSecurity :: string where "TrackSecurity = ''security''"
definition TrackMetrics :: string where "TrackMetrics = ''metrics''"
definition TrackHeartbeat :: string where "TrackHeartbeat = ''heartbeat''"
definition IssueByDay :: string where "IssueByDay = ''day''"

datatype rule_error =
    ErrRuleId
  | ErrRuleName
  | ErrSeverity
  | ErrTrack
  | ErrHeartbeatWindow
  | ErrHostOnly string string
  | ErrNoMatch
  | ErrField string
  | ErrSingleValue string string
  | ErrNeedsList string string
  | ErrOp string
  | ErrExclude rule_error
  | ErrGroupBy string
  | ErrIssueBy string
  | ErrThreshold
  | ErrThresholdWindow
  | ErrNoMetric
  | ErrExcludeMetric
  | ErrMetricOp

definition validSeverity :: "string \<Rightarrow> bool" where
  "validSeverity s \<longleftrightarrow> s \<in> {''INFO'', ''WARNING'', ''ERROR'', ''CRITICAL''}"

definition knownField :: "string \<Rightarrow> bool" where
  "knownField f \<longleftrightarrow> f \<in> {''source'', ''host'', ''request_host'', ''kind'', ''src_ip'', ''user'',
     ''action'', ''status'', ''method'', ''path'', ''message''}"

definition scalar_ops :: "string list" where
  "scalar_ops = [''eq'', ''ne'', ''prefix'', ''not_prefix'', ''suffix'', ''contains'']"

definition validate_cond :: "cond \<Rightarrow> rule_error option" where
  "validate_cond c =
     (if \<not> knownField (cd_field c) then Some (ErrField (cd_field c))
      else if cd_op c \<in> set scalar_ops then
        (case cd_value c of
           JStr _ \<Rightarrow> None
         | JNum _ _ \<Rightarrow> None
         | _ \<Rightarrow> Some (ErrSingleValue (cd_op c) (cd_field c)))
      else if cd_op c = ''in'' \<or> cd_op c = ''not_in'' then
        (case cd_value c of JArr _ \<Rightarrow> None | _ \<Rightarrow> Some (ErrNeedsList (cd_op c) (cd_field c)))
      else Some (ErrOp (cd_op c)))"

text \<open>A loop that returns the first error.\<close>

fun first_error :: "('a \<Rightarrow> 'e option) \<Rightarrow> 'a list \<Rightarrow> 'e option" where
  "first_error f [] = None"
| "first_error f (x # xs) = (case f x of Some e \<Rightarrow> Some e | None \<Rightarrow> first_error f xs)"

definition or_else :: "'e option \<Rightarrow> 'e option \<Rightarrow> 'e option" where
  "or_else a b = (case a of Some e \<Rightarrow> Some e | None \<Rightarrow> b)"

definition validateHostMatch :: "rule \<Rightarrow> rule_error option" where
  "validateHostMatch r =
     first_error (\<lambda>c. if cd_field c \<noteq> ''host'' then Some (ErrHostOnly (rl_track r) (cd_field c))
                      else validate_cond c) (rl_match r)"

definition validateIssueBy :: "rule \<Rightarrow> rule_error option" where
  "validateIssueBy r =
     (if rl_issue_by r \<noteq> [] \<and> rl_issue_by r \<noteq> IssueByDay then Some (ErrIssueBy (rl_issue_by r)) else None)"

definition validateSecurity :: "rule \<Rightarrow> rule_error option" where
  "validateSecurity r =
     (if rl_match r = [] then Some ErrNoMatch
      else or_else (first_error validate_cond (rl_match r))
          (or_else (first_error (\<lambda>c. map_option ErrExclude (validate_cond c)) (rl_exclude r))
          (or_else (first_error (\<lambda>f. if knownField f then None else Some (ErrGroupBy f)) (rl_group_by r))
          (or_else (validateIssueBy r)
             (if rl_threshold r < 1 then Some ErrThreshold
              else if 1 < rl_threshold r \<and> rl_window r \<le> 0 then Some ErrThresholdWindow
              else None)))))"

definition validateMetrics :: "rule \<Rightarrow> rule_error option" where
  "validateMetrics r =
     (if rl_metric r = [] then Some ErrNoMetric
      else or_else (first_error (\<lambda>g. if g = [] then Some ErrExcludeMetric else None) (rl_exclude_metric r))
         (if rl_op r \<noteq> ''gt'' \<and> rl_op r \<noteq> ''lt'' then Some ErrMetricOp else None))"

definition validate_rule :: "rule \<Rightarrow> rule_error option" where
  "validate_rule r =
     (if rl_id r = [] \<or> list_ex (\<lambda>c. c = CHR '' '' \<or> c = CHR '':'' \<or> c = CHR ''/'') (rl_id r) then Some ErrRuleId
      else if rl_name r = [] then Some ErrRuleName
      else if \<not> validSeverity (rl_severity r) then Some ErrSeverity
      else if rl_track r = TrackSecurity then validateSecurity r
      else if rl_track r = TrackMetrics then or_else (validateHostMatch r) (validateMetrics r)
      else if rl_track r = TrackHeartbeat then
        (if rl_window r \<le> 0 then Some ErrHeartbeatWindow else validateHostMatch r)
      else Some ErrTrack)"

section \<open>Matching a condition\<close>

text \<open>
  \<open>fmt.Sprint\<close> of a JSON value; a map prints its keys in order.
\<close>

fun sprint :: "jval \<Rightarrow> string" where
  "sprint JNull = ''<nil>''"
| "sprint (JBool b) = (if b then ''true'' else ''false'')"
| "sprint (JNum short _) = short"
| "sprint (JStr s) = s"
| "sprint (JOther s) = s"
| "sprint (JArr vs) = ''['' @ join_words (map sprint vs) @ '']''"
| "sprint (JObj m) = ''map['' @ join_words (map (\<lambda>(k, t). k @ '':'' @ t) (sort_key fst (map (\<lambda>(k, v). (k, sprint v)) m))) @ '']''"

definition scalar_text :: "jval \<Rightarrow> string" where
  "scalar_text v = (case v of JStr s \<Rightarrow> s | JNum _ plain \<Rightarrow> plain | _ \<Rightarrow> sprint v)"

definition inList :: "string \<Rightarrow> jval \<Rightarrow> bool" where
  "inList v l = (case l of JArr items \<Rightarrow> list_ex (\<lambda>it. v = scalar_text it) items | _ \<Rightarrow> False)"

definition cond_matches :: "cond \<Rightarrow> string \<Rightarrow> bool" where
  "cond_matches c v =
     (if cd_op c = ''eq'' then v = scalar_text (cd_value c)
      else if cd_op c = ''ne'' then v \<noteq> scalar_text (cd_value c)
      else if cd_op c = ''prefix'' then has_prefix v (scalar_text (cd_value c))
      else if cd_op c = ''not_prefix'' then \<not> has_prefix v (scalar_text (cd_value c))
      else if cd_op c = ''suffix'' then has_suffix v (scalar_text (cd_value c))
      else if cd_op c = ''contains'' then contains_sub v (scalar_text (cd_value c))
      else if cd_op c = ''in'' then inList v (cd_value c)
      else if cd_op c = ''not_in'' then \<not> inList v (cd_value c)
      else False)"

definition matchAll :: "cond list \<Rightarrow> sec_record \<Rightarrow> bool" where
  "matchAll cs r = list_all (\<lambda>c. cond_matches c (fst (record_field r (cd_field c)))) cs"

definition excluded :: "cond list \<Rightarrow> sec_record \<Rightarrow> bool" where
  "excluded cs r = list_ex (\<lambda>c. cond_matches c (fst (record_field r (cd_field c)))) cs"

definition matchesHost :: "rule \<Rightarrow> string \<Rightarrow> bool" where
  "matchesHost r host = list_all (\<lambda>c. cond_matches c host) (rl_match r)"

section \<open>Metric globs\<close>

text \<open>\<open>strings.Index\<close>.\<close>

fun index_of :: "string \<Rightarrow> string \<Rightarrow> nat option" where
  "index_of [] p = (if p = [] then Some 0 else None)"
| "index_of (c # s) p = (if has_prefix (c # s) p then Some 0 else map_option Suc (index_of s p))"

text \<open>The loop over the parts between the first and the last star.\<close>

fun glob_mids :: "string list \<Rightarrow> string \<Rightarrow> string option" where
  "glob_mids [] name = Some name"
| "glob_mids (m # ms) name =
     (case index_of name m of
        None \<Rightarrow> None
      | Some i \<Rightarrow> glob_mids ms (drop (i + length m) name))"

definition globMatch :: "string \<Rightarrow> string \<Rightarrow> bool" where
  "globMatch pattern name =
     (let parts = split_on (CHR ''*'') pattern in
      if length parts = 1 then pattern = name
      else if \<not> has_prefix name (hd parts) then False
      else case glob_mids (butlast (tl parts)) (drop (length (hd parts)) name) of
             None \<Rightarrow> False
           | Some rest \<Rightarrow> has_suffix rest (last parts))"

definition matchesMetric :: "rule \<Rightarrow> string \<Rightarrow> bool" where
  "matchesMetric r name =
     (globMatch (rl_metric r) name \<and> \<not> list_ex (\<lambda>g. globMatch g name) (rl_exclude_metric r))"

section \<open>The effective rule set\<close>

definition merge_rules :: "rule list \<Rightarrow> rule list \<Rightarrow> rule list" where
  "merge_rules builtins stored =
     map (\<lambda>b. case map_of (rev (map (\<lambda>r. (rl_id r, r)) stored)) (rl_id b) of Some r \<Rightarrow> r | None \<Rightarrow> b) builtins
     @ filter (\<lambda>r. rl_id r \<notin> set (map rl_id builtins)) stored"

section \<open>What a pattern means\<close>

text \<open>The reference: a star takes any run of characters, tried one character at a time.\<close>

fun glob_ref :: "string \<Rightarrow> string \<Rightarrow> bool" where
  "glob_ref [] s = (s = [])"
| "glob_ref (c # p) [] = (c = CHR ''*'' \<and> glob_ref p [])"
| "glob_ref (c # p) (d # s) =
     (if c = CHR ''*'' then glob_ref p (d # s) \<or> glob_ref (c # p) s else c = d \<and> glob_ref p s)"

text \<open>The parts after the first star, in order, the last one at the end.\<close>

fun tail_ok :: "string list \<Rightarrow> string \<Rightarrow> bool" where
  "tail_ok [] s \<longleftrightarrow> s = []"
| "tail_ok [l] s \<longleftrightarrow> has_suffix s l"
| "tail_ok (m # l # ps) s \<longleftrightarrow> (\<exists>u v. s = u @ m @ v \<and> tail_ok (l # ps) v)"

lemma has_prefix_iff: "has_prefix s p \<longleftrightarrow> (\<exists>v. s = p @ v)"
  by (auto simp: has_prefix_def) (metis append_take_drop_id)

lemma has_suffix_iff: "has_suffix s p \<longleftrightarrow> (\<exists>u. s = u @ p)"
proof
  assume "has_suffix s p"
  then have "s = take (length s - length p) s @ p"
    unfolding has_suffix_def by (metis append_take_drop_id)
  then show "\<exists>u. s = u @ p" by blast
qed (auto simp: has_suffix_def)

lemma prefix_append_iff [simp]: "has_prefix (p @ v) p"
  by (auto simp: has_prefix_iff)

lemma index_of_Some: "index_of s p = Some i \<Longrightarrow> \<exists>v. s = take i s @ p @ v \<and> length (take i s) = i"
proof (induction s arbitrary: i)
  case (Cons c s)
  then show ?case
    by (cases "has_prefix (c # s) p") (auto simp: has_prefix_iff)
qed (auto split: if_splits)

lemma index_of_leftmost: "\<exists>i. index_of (u @ p @ v) p = Some i \<and> i \<le> length u"
proof (induction u)
  case Nil
  have "has_prefix (p @ v) p" by simp
  then show ?case by (cases "p @ v") (auto simp: has_prefix_def)
next
  case (Cons c u)
  then show ?case by auto
qed

lemma tail_ok_extend: "ps \<noteq> [] \<Longrightarrow> tail_ok ps v \<Longrightarrow> tail_ok ps (u @ v)"
proof (induction ps v rule: tail_ok.induct)
  case (3 m l ps s)
  then obtain a b where "s = a @ m @ b" "tail_ok (l # ps) b" by auto
  then have "u @ s = (u @ a) @ m @ b \<and> tail_ok (l # ps) b" by simp
  then show ?case by (simp only: tail_ok.simps) blast
qed (auto simp: has_suffix_iff)

text \<open>Taking the leftmost occurrence of each part loses no match.\<close>

lemma glob_mids_tail_ok:
  "tail_ok (ms @ [l]) s \<longleftrightarrow> (case glob_mids ms s of None \<Rightarrow> False | Some rest \<Rightarrow> has_suffix rest l)"
proof (induction ms arbitrary: s)
  case (Cons m ms)
  obtain x xs where x: "ms @ [l] = x # xs" by (cases "ms @ [l]") auto
  show ?case
  proof (cases "index_of s m")
    case None
    then have "\<nexists>u v. s = u @ m @ v" using index_of_leftmost by (metis option.distinct(1))
    then show ?thesis using None x by auto
  next
    case (Some i)
    then obtain v where v: "s = take i s @ m @ v" "length (take i s) = i"
      using index_of_Some by blast
    have drop: "drop (i + length m) s = v"
      by (subst v(1), subst v(2) [symmetric]) (metis append.assoc append_eq_conv_conj length_append)
    have "(\<exists>a b. s = a @ m @ b \<and> tail_ok (x # xs) b) \<longleftrightarrow> tail_ok (x # xs) v"
    proof
      assume "\<exists>a b. s = a @ m @ b \<and> tail_ok (x # xs) b"
      then obtain a b where ab: "s = a @ m @ b" "tail_ok (x # xs) b" by blast
      have "i \<le> length a" using index_of_leftmost [of a m b] Some ab(1) by auto
      then have "\<exists>w. v = w @ b"
        using drop ab(1) by (intro exI [of _ "take (length v - length b) v"])
          (auto simp: drop_append)
      then show "tail_ok (x # xs) v" using tail_ok_extend ab(2) by blast
    next
      assume "tail_ok (x # xs) v"
      then show "\<exists>a b. s = a @ m @ b \<and> tail_ok (x # xs) b" using v(1) by blast
    qed
    then show ?thesis using Cons.IH [of v] Some drop x by simp
  qed
qed simp

lemma split_on_not_Nil [simp]: "split_on d s \<noteq> []"
  by (induction s) (auto split: list.splits)

lemma hd_split_on [simp]: "hd (split_on d s) = takeWhile (\<lambda>c. c \<noteq> d) s"
  by (induction s) (auto split: list.splits)

lemma glob_ref_append: "CHR ''*'' \<notin> set q \<Longrightarrow> glob_ref (q @ p) s \<longleftrightarrow> (\<exists>v. s = q @ v \<and> glob_ref p v)"
proof (induction q arbitrary: s)
  case (Cons c q)
  then show ?case by (cases s) auto
qed simp

lemma glob_ref_star: "glob_ref (CHR ''*'' # p) s \<longleftrightarrow> (\<exists>u v. s = u @ v \<and> glob_ref p v)"
proof (induction s)
  case (Cons d s)
  have "(\<exists>u v. d # s = u @ v \<and> glob_ref p v) \<longleftrightarrow> glob_ref p (d # s) \<or> (\<exists>u v. s = u @ v \<and> glob_ref p v)"
    by (metis append_Cons append_Nil list.inject neq_Nil_conv)
  then show ?case using Cons by simp
qed simp

lemma split_on_none: "d \<notin> set s \<Longrightarrow> split_on d s = [s]"
  by (induction s) auto

lemma split_on_first: "d \<notin> set q \<Longrightarrow> split_on d (q @ d # p) = q # split_on d p"
  by (induction q) (auto split: list.splits)

lemma tail_ok_split: "tail_ok (split_on (CHR ''*'') p) s \<longleftrightarrow> glob_ref (CHR ''*'' # p) s"
proof (induction p arbitrary: s rule: measure_induct_rule [of length])
  case (less p)
  show ?case
  proof (cases "CHR ''*'' \<in> set p")
    case True
    then obtain q r where q: "p = q @ CHR ''*'' # r" "CHR ''*'' \<notin> set q" by (meson split_list_first)
    obtain x xs where x: "split_on (CHR ''*'') r = x # xs" by (cases "split_on (CHR ''*'') r") auto
    have "tail_ok (split_on (CHR ''*'') p) s
        \<longleftrightarrow> (\<exists>u v. s = u @ q @ v \<and> glob_ref (CHR ''*'' # r) v)"
      using less.IH [of r] q x by (simp add: split_on_first)
    also have "\<dots> \<longleftrightarrow> glob_ref (CHR ''*'' # p) s"
      unfolding q(1) glob_ref_star glob_ref_append [OF q(2)] by blast
    finally show ?thesis .
  next
    case False
    then have "glob_ref p v \<longleftrightarrow> v = p" for v
      using glob_ref_append [of p "[]" v] by simp
    then show ?thesis using False by (simp add: split_on_none glob_ref_star has_suffix_iff)
  qed
qed

text \<open>\<open>globMatch\<close>, which looks for each part of the pattern at its leftmost place and
  never goes back, accepts exactly the names the pattern describes: a star stands for any run of
  characters and every other character for itself.
\<close>

theorem globMatch_ref: "globMatch pattern name = glob_ref pattern name"
proof (cases "CHR ''*'' \<in> set pattern")
  case True
  then obtain q r where q: "pattern = q @ CHR ''*'' # r" "CHR ''*'' \<notin> set q" by (meson split_list_first)
  let ?ps = "split_on (CHR ''*'') r"
  have ps: "butlast ?ps @ [last ?ps] = ?ps" by simp
  have "glob_ref pattern name \<longleftrightarrow> (\<exists>v. name = q @ v \<and> tail_ok ?ps v)"
    unfolding q(1) glob_ref_append [OF q(2)] tail_ok_split ..
  also have "\<dots> \<longleftrightarrow> globMatch pattern name"
    using glob_mids_tail_ok [of "butlast ?ps" "last ?ps"]
    unfolding ps by (auto simp: globMatch_def q split_on_first has_prefix_iff Let_def split: option.splits)
  finally show ?thesis by simp
next
  case False
  then show ?thesis
    using glob_ref_append [of pattern "[]" name] by (auto simp: globMatch_def split_on_none)
qed

section \<open>The type of a validated condition\<close>

datatype scalar_op = SEq | SNe | SPrefix | SNotPrefix | SSuffix | SContains

datatype typed_cond = TScalar scalar_op string | TMember bool "string list"

definition scalar_op_of :: "string \<Rightarrow> scalar_op option" where
  "scalar_op_of s = map_of (zip scalar_ops [SEq, SNe, SPrefix, SNotPrefix, SSuffix, SContains]) s"

definition type_cond :: "cond \<Rightarrow> typed_cond option" where
  "type_cond c = (case (scalar_op_of (cd_op c), cd_value c) of
     (Some p, JStr s) \<Rightarrow> Some (TScalar p s)
   | (Some p, JNum _ plain) \<Rightarrow> Some (TScalar p plain)
   | (None, JArr vs) \<Rightarrow>
       (if cd_op c = ''in'' then Some (TMember True (map scalar_text vs))
        else if cd_op c = ''not_in'' then Some (TMember False (map scalar_text vs)) else None)
   | _ \<Rightarrow> None)"

fun scalar_sem :: "scalar_op \<Rightarrow> string \<Rightarrow> string \<Rightarrow> bool" where
  "scalar_sem SEq v s = (v = s)"
| "scalar_sem SNe v s = (v \<noteq> s)"
| "scalar_sem SPrefix v s = has_prefix v s"
| "scalar_sem SNotPrefix v s = (\<not> has_prefix v s)"
| "scalar_sem SSuffix v s = has_suffix v s"
| "scalar_sem SContains v s = contains_sub v s"

fun typed_sem :: "typed_cond \<Rightarrow> string \<Rightarrow> bool" where
  "typed_sem (TScalar p s) v = scalar_sem p v s"
| "typed_sem (TMember pos xs) v = ((v \<in> set xs) = pos)"

definition well_typed :: "cond \<Rightarrow> bool" where
  "well_typed c = (knownField (cd_field c) \<and> type_cond c \<noteq> None)"

definition typed_matches :: "cond \<Rightarrow> string \<Rightarrow> bool" where
  "typed_matches c v = (case type_cond c of None \<Rightarrow> False | Some t \<Rightarrow> typed_sem t v)"

lemma validate_cond_typed: "validate_cond c = None \<longleftrightarrow> well_typed c"
  by (auto simp: validate_cond_def well_typed_def type_cond_def scalar_op_of_def scalar_ops_def
      split: jval.splits)

lemma inList_set: "inList v (JArr vs) \<longleftrightarrow> v \<in> scalar_text ` set vs"
  by (auto simp: inList_def list_ex_iff)

lemma typed_matches_eq: "well_typed c \<Longrightarrow> cond_matches c v = typed_matches c v"
  unfolding well_typed_def type_cond_def scalar_op_of_def scalar_ops_def
  by (auto simp: cond_matches_def typed_matches_def type_cond_def scalar_op_of_def scalar_ops_def
      scalar_text_def inList_set split: jval.splits if_splits)

lemma knownField_record: "knownField f \<Longrightarrow> snd (record_field r f)"
  by (auto simp: knownField_def record_field_def)

lemma first_error_None: "first_error f xs = None \<longleftrightarrow> list_all (\<lambda>x. f x = None) xs"
  by (induction xs) (auto split: option.splits)

lemma or_else_None [simp]: "or_else a b = None \<longleftrightarrow> a = None \<and> b = None"
  by (auto simp: or_else_def split: option.splits)

lemma validateSecurity_typed:
  "validateSecurity r = None \<Longrightarrow> list_all well_typed (rl_match r @ rl_exclude r)"
  by (auto simp: validateSecurity_def first_error_None validate_cond_typed list.pred_set split: if_splits)

lemma validateHostMatch_typed:
  "validateHostMatch r = None \<Longrightarrow> list_all (\<lambda>c. well_typed c \<and> cd_field c = ''host'') (rl_match r)"
  by (auto simp: validateHostMatch_def first_error_None validate_cond_typed list.pred_set split: if_splits)

text \<open>C28: a rule that passes \<open>Validate\<close> does not go wrong: every condition of a security
  rule has a type, its field exists in every record, and matching and exclusion mean what the types
  say; a metric or heartbeat rule's conditions are typed conditions on the host.
\<close>

theorem validated_rule_typed:
  assumes "validate_rule r = None"
  shows "(rl_track r = TrackSecurity \<and>
            list_all (\<lambda>c. well_typed c \<and> snd (record_field rec (cd_field c))) (rl_match r @ rl_exclude r) \<and>
            matchAll (rl_match r) rec =
              list_all (\<lambda>c. typed_matches c (fst (record_field rec (cd_field c)))) (rl_match r) \<and>
            excluded (rl_exclude r) rec =
              list_ex (\<lambda>c. typed_matches c (fst (record_field rec (cd_field c)))) (rl_exclude r))
       \<or> (rl_track r \<in> {TrackMetrics, TrackHeartbeat} \<and>
            list_all (\<lambda>c. well_typed c \<and> cd_field c = ''host'') (rl_match r) \<and>
            matchesHost r host = list_all (\<lambda>c. typed_matches c host) (rl_match r))"
proof (cases "rl_track r = TrackSecurity")
  case True
  then have "validateSecurity r = None" using assms by (auto simp: validate_rule_def split: if_splits)
  then have w: "list_all well_typed (rl_match r @ rl_exclude r)" by (rule validateSecurity_typed)
  then have "list_all (\<lambda>c. well_typed c \<and> snd (record_field rec (cd_field c))) (rl_match r @ rl_exclude r)"
    by (auto simp: list.pred_set well_typed_def knownField_record)
  moreover have "matchAll (rl_match r) rec =
      list_all (\<lambda>c. typed_matches c (fst (record_field rec (cd_field c)))) (rl_match r)"
    using w unfolding matchAll_def list.pred_set by (intro ball_cong) (auto simp: typed_matches_eq)
  moreover have "excluded (rl_exclude r) rec =
      list_ex (\<lambda>c. typed_matches c (fst (record_field rec (cd_field c)))) (rl_exclude r)"
    using w unfolding excluded_def list.pred_set list_ex_iff by (intro bex_cong) (auto simp: typed_matches_eq)
  ultimately show ?thesis using True by blast
next
  case False
  then have t: "rl_track r \<in> {TrackMetrics, TrackHeartbeat}" and "validateHostMatch r = None"
    using assms by (auto simp: validate_rule_def split: if_splits)
  then have w: "list_all (\<lambda>c. well_typed c \<and> cd_field c = ''host'') (rl_match r)"
    using validateHostMatch_typed by blast
  then have "matchesHost r host = list_all (\<lambda>c. typed_matches c host) (rl_match r)"
    unfolding matchesHost_def list.pred_set by (intro ball_cong) (auto simp: typed_matches_eq)
  then show ?thesis using t w by blast
qed

definition bruteforce_rule :: rule where
  "bruteforce_rule = \<lparr>rl_id = ''ssh-bruteforce'', rl_name = ''SSH brute force'', rl_enabled = True,
     rl_severity = ''WARNING'', rl_track = ''security'',
     rl_match = [\<lparr>cd_field = ''source'', cd_op = ''eq'', cd_value = JStr ''sshd''\<rparr>,
                 \<lparr>cd_field = ''kind'', cd_op = ''in'', cd_value = JArr [JStr ''auth_failure'', JStr ''invalid_user'']\<rparr>],
     rl_group_by = [''src_ip''], rl_issue_by = ''day'', rl_exclude = [], rl_metric = [], rl_op = [],
     rl_per_core = False, rl_for = 0, rl_exclude_metric = [], rl_threshold = 30,
     rl_window = 5 * minutes, rl_cooldown = hours\<rparr>"

definition blank_record :: sec_record where
  "blank_record = \<lparr>sr_ts = 0, sr_source = ''sshd'', sr_host = [], sr_request_host = [], sr_kind = [], sr_src_ip = [],
     sr_user = [], sr_action = [], sr_status = 0, sr_method = [], sr_path = [], sr_message = []\<rparr>"

theorem validated_rule_typed_witness:
  "list_all (\<lambda>c. well_typed c \<and> snd (record_field blank_record (cd_field c))) (rl_match bruteforce_rule)"
proof -
  have "validate_rule bruteforce_rule = None" by code_simp
  from validated_rule_typed [OF this, of blank_record] show ?thesis
    by (auto simp: bruteforce_rule_def TrackSecurity_def TrackMetrics_def TrackHeartbeat_def)
qed

text \<open>The elements of a list are not looked at: a null element stands for the text \<open><nil>\<close>.\<close>

lemma null_element_accepted:
  "validate_cond \<lparr>cd_field = ''user'', cd_op = ''in'', cd_value = JArr [JNull]\<rparr> = None
   \<and> cond_matches \<lparr>cd_field = ''user'', cd_op = ''in'', cd_value = JArr [JNull]\<rparr> ''<nil>''"
  by code_simp

section \<open>Overlaying stored rules\<close>

lemma map_of_rev_rules:
  "distinct (map rl_id rs) \<Longrightarrow> map_of (rev (map (\<lambda>r. (rl_id r, r)) rs)) i = Some r \<longleftrightarrow> r \<in> set rs \<and> rl_id r = i"
proof -
  assume "distinct (map rl_id rs)"
  then have d: "distinct (map fst (rev (map (\<lambda>r. (rl_id r, r)) rs)))" by (simp add: rev_map [symmetric] o_def)
  show ?thesis by (subst map_of_eq_Some_iff [OF d]) auto
qed

text \<open>with the identifiers of the built-in rules and of the stored rules each distinct,
  the merged set holds one rule per identifier: the stored one where there is one, the built-in
  otherwise.
\<close>

theorem merge_rules_spec:
  assumes b: "distinct (map rl_id builtins)" and s: "distinct (map rl_id stored)"
  shows "distinct (map rl_id (merge_rules builtins stored)) \<and>
    set (merge_rules builtins stored) =
      set stored \<union> {r \<in> set builtins. rl_id r \<notin> rl_id ` set stored}"
proof -
  let ?m = "map_of (rev (map (\<lambda>r. (rl_id r, r)) stored))"
  let ?f = "\<lambda>b. case ?m (rl_id b) of Some r \<Rightarrow> r | None \<Rightarrow> b"
  note Some = map_of_rev_rules [OF s]
  have none: "?m i = None \<longleftrightarrow> i \<notin> rl_id ` set stored" for i
  proof (cases "?m i")
    case None
    then show ?thesis using Some [of i] by auto
  next
    case (Some r)
    then have "r \<in> set stored \<and> rl_id r = i" using map_of_rev_rules [OF s] by blast
    then show ?thesis using Some by auto
  qed
  have id: "rl_id (?f x) = rl_id x" for x
    using Some by (auto split: option.splits)
  have ids: "map rl_id (map ?f builtins) = map rl_id builtins"
    by (simp add: id)
  have "distinct (map rl_id (merge_rules builtins stored))"
    unfolding merge_rules_def map_append ids distinct_append
    using b s by (auto simp: distinct_map_filter_id) (metis image_eqI)
  moreover have "set (merge_rules builtins stored) =
      set stored \<union> {r \<in> set builtins. rl_id r \<notin> rl_id ` set stored}" (is "?l = ?r")
  proof
    show "?l \<subseteq> ?r"
    proof
      fix x assume "x \<in> ?l"
      then consider y where "y \<in> set builtins" "x = ?f y" | "x \<in> set stored"
        by (auto simp: merge_rules_def)
      then show "x \<in> ?r"
      proof cases
        case (1 y)
        then show ?thesis using none [of "rl_id y"] Some [of "rl_id y"] by (cases "?m (rl_id y)") auto
      qed simp
    qed
    show "?r \<subseteq> ?l"
    proof
      fix x assume "x \<in> ?r"
      then consider "x \<in> set stored" "rl_id x \<in> rl_id ` set builtins"
        | "x \<in> set stored" "rl_id x \<notin> rl_id ` set builtins"
        | "x \<in> set builtins" "rl_id x \<notin> rl_id ` set stored" by auto
      then show "x \<in> ?l"
      proof cases
        case 1
        then obtain y where y: "y \<in> set builtins" "rl_id y = rl_id x" by auto
        then have "?f y = x" using 1 Some [of "rl_id x" x] by simp
        then show ?thesis using y unfolding merge_rules_def by (force simp: image_iff)
      next
        case 2
        then show ?thesis by (auto simp: merge_rules_def)
      next
        case 3
        then have "?f x = x" using none [of "rl_id x"] by simp
        then show ?thesis using 3 unfolding merge_rules_def by (force simp: image_iff)
      qed
    qed
  qed
  ultimately show ?thesis by blast
qed

theorem merge_rules_spec_witness:
  "merge_rules [bruteforce_rule, bruteforce_rule\<lparr>rl_id := ''b''\<rparr>]
     [bruteforce_rule\<lparr>rl_enabled := False\<rparr>, bruteforce_rule\<lparr>rl_id := ''c''\<rparr>]
   = [bruteforce_rule\<lparr>rl_enabled := False\<rparr>, bruteforce_rule\<lparr>rl_id := ''b''\<rparr>, bruteforce_rule\<lparr>rl_id := ''c''\<rparr>]
   \<and> distinct (map rl_id (merge_rules [bruteforce_rule, bruteforce_rule\<lparr>rl_id := ''b''\<rparr>]
     [bruteforce_rule\<lparr>rl_enabled := False\<rparr>, bruteforce_rule\<lparr>rl_id := ''c''\<rparr>]))"
proof -
  have "distinct (map rl_id [bruteforce_rule, bruteforce_rule\<lparr>rl_id := ''b''\<rparr>])"
    "distinct (map rl_id [bruteforce_rule\<lparr>rl_enabled := False\<rparr>, bruteforce_rule\<lparr>rl_id := ''c''\<rparr>])"
    by (simp_all add: bruteforce_rule_def)
  from merge_rules_spec [OF this] show ?thesis by (simp add: merge_rules_def bruteforce_rule_def)
qed

end
