(* ===== verification/DetectWindow.thy ===== *)
theory DetectWindow
  imports GoStrings "HOL-Library.Word"
begin

text \<open>
  The sliding-window counters and the table of groups of \<open>internal/detect/window.go\<close>.

  A counter keeps thirty slots; the slot of a bucket is its number modulo thirty and is reused
  when a newer bucket needs it.  \<open>counter_run_exact\<close> shows that after any sequence of
  timestamps, in any order, the total is the number of events whose bucket is among the newest
  thirty; \<open>window_bounds\<close> says the same in time.  The table of counters keeps the
  groups used most recently (\<open>lru_keeps_recent\<close>).

  \<open>counter_add\<close> is \<open>None\<close> where Go panics: an index computed with \<open>%\<close> from
  a negative bucket number is out of range.
\<close>

section \<open>Counters\<close>

definition slots :: int where "slots = 30"

record counter =
  ct_bucket :: duration
  ct_head :: int
  ct_ids :: "int list"
  ct_counts :: "32 word list"
  ct_last_fired :: time

definition newCounter :: "duration \<Rightarrow> counter" where
  "newCounter window =
     (let w = (if window \<le> 0 then seconds else window);
          b = go_div w slots
      in \<lparr>ct_bucket = (if b \<le> 0 then 1 else b), ct_head = 0, ct_ids = replicate (nat slots) 0,
          ct_counts = replicate (nat slots) 0, ct_last_fired = zero_time\<rparr>)"

definition counter_total :: "counter \<Rightarrow> nat" where
  "counter_total c =
     sum_list (map (\<lambda>i. if ct_head c - slots < ct_ids c ! i \<and> ct_ids c ! i \<le> ct_head c
                        then unat (ct_counts c ! i) else 0)
       [0..<length (ct_ids c)])"

definition counter_add :: "time \<Rightarrow> counter \<Rightarrow> (nat \<times> counter) option" where
  "counter_add ts c =
     (let i = go_div (wrap64 ts) (ct_bucket c);
          c1 = (if ct_head c < i then c\<lparr>ct_head := i\<rparr> else c)
      in if i \<le> ct_head c1 - slots then Some (counter_total c1, c1)
         else if go_rem i slots < 0 then None
         else
           (let j = nat (go_rem i slots);
                c2 = (if ct_ids c1 ! j \<noteq> i
                      then c1\<lparr>ct_ids := (ct_ids c1)[j := i], ct_counts := (ct_counts c1)[j := 0]\<rparr>
                      else c1);
                c3 = c2\<lparr>ct_counts := (ct_counts c2)[j := ct_counts c2 ! j + 1]\<rparr>
            in Some (counter_total c3, c3)))"

fun counter_run :: "time list \<Rightarrow> counter \<Rightarrow> counter option" where
  "counter_run [] c = Some c"
| "counter_run (t # ts) c = (case counter_add t c of None \<Rightarrow> None | Some (n, c') \<Rightarrow> counter_run ts c')"

section \<open>The total is the number of recent events\<close>

text \<open>The events of slot \<open>i\<close> among the newest thirty buckets.\<close>

definition slot_events :: "int \<Rightarrow> int \<Rightarrow> nat \<Rightarrow> time list \<Rightarrow> time list" where
  "slot_events b h i ts = filter (\<lambda>t. h - 30 < t div b \<and> nat (t div b mod 30) = i) ts"

definition counts_exactly :: "time list \<Rightarrow> counter \<Rightarrow> bool" where
  "counts_exactly ts c \<longleftrightarrow>
     0 < ct_bucket c \<and> 0 \<le> ct_head c \<and> length (ct_ids c) = 30 \<and> length (ct_counts c) = 30 \<and>
     (\<forall>t\<in>set ts. 0 \<le> t \<and> t div ct_bucket c \<le> ct_head c) \<and>
     (\<forall>i<30. ct_ids c ! i \<le> ct_head c \<and>
        (if ct_head c - 30 < ct_ids c ! i then unat (ct_counts c ! i) else 0)
          = length (slot_events (ct_bucket c) (ct_head c) i ts) \<and>
        (\<forall>t\<in>set (slot_events (ct_bucket c) (ct_head c) i ts). t div ct_bucket c = ct_ids c ! i))"

lemma mod30_unique: "(a::int) mod 30 = b mod 30 \<Longrightarrow> h - 30 < a \<Longrightarrow> a \<le> h \<Longrightarrow> h - 30 < b \<Longrightarrow> b \<le> h \<Longrightarrow> a = b"
proof (rule ccontr)
  assume a: "a mod 30 = b mod 30" "h - 30 < a" "a \<le> h" "h - 30 < b" "b \<le> h" "a \<noteq> b"
  then have "(30::int) dvd a - b" by (simp add: mod_eq_dvd_iff)
  then have "\<bar>30::int\<bar> \<le> \<bar>a - b\<bar>" using a(6) by (intro dvd_imp_le_int) auto
  then show False using a by arith
qed

lemma nat_mod30_eq: "nat ((a::int) mod 30) = nat (b mod 30) \<longleftrightarrow> a mod 30 = b mod 30"
  by (rule eq_nat_nat_iff) simp_all

lemma partition_by_slot:
  "(\<Sum>i<30. length (filter (\<lambda>t. P t \<and> nat (f t mod 30) = i) ts)) = length (filter P ts)" for f :: "'a \<Rightarrow> int"
proof (induction ts)
  case (Cons t ts)
  have "(\<Sum>i<30. (if nat (f t mod 30) = i then 1 else (0::nat))) = 1"
  proof -
    have "nat (f t mod 30) < 30" by (simp add: nat_less_iff)
    then show ?thesis by simp
  qed
  then have one: "P t \<Longrightarrow> (\<Sum>i<30. (if P t \<and> nat (f t mod 30) = i then 1 else (0::nat))) = 1" by simp
  have "(\<Sum>i<30. length (filter (\<lambda>t. P t \<and> nat (f t mod 30) = i) (t # ts)))
      = (\<Sum>i<30. (if P t \<and> nat (f t mod 30) = i then 1 else 0) + length (filter (\<lambda>t. P t \<and> nat (f t mod 30) = i) ts))"
    by (intro sum.cong) auto
  also have "\<dots> = length (filter P (t # ts))"
    using Cons one by (auto simp: sum.distrib)
  finally show ?case .
qed simp

lemma counts_exactly_total:
  assumes "counts_exactly ts c"
  shows "counter_total c = length (filter (\<lambda>t. ct_head c - 30 < t div ct_bucket c) ts)"
proof -
  have "counter_total c = (\<Sum>i<30. length (slot_events (ct_bucket c) (ct_head c) i ts))"
    using assms unfolding counter_total_def counts_exactly_def slots_def interv_sum_list_conv_sum_set_nat
    by (intro sum.cong) auto
  also have "\<dots> = length (filter (\<lambda>t. ct_head c - 30 < t div ct_bucket c) ts)"
    unfolding slot_events_def by (rule partition_by_slot)
  finally show ?thesis .
qed

lemma newCounter_bucket_pos: "0 < ct_bucket (newCounter w)"
  by (simp add: newCounter_def Let_def)

lemma newCounter_exact: "counts_exactly [] (newCounter w)"
  using newCounter_bucket_pos [of w]
  by (auto simp: counts_exactly_def newCounter_def Let_def slots_def slot_events_def)

lemma counts_exactlyD:
  assumes "counts_exactly ts c" "i < 30"
  shows "ct_ids c ! i \<le> ct_head c"
    and "(if ct_head c - 30 < ct_ids c ! i then unat (ct_counts c ! i) else 0)
          = length (slot_events (ct_bucket c) (ct_head c) i ts)"
    and "t \<in> set (slot_events (ct_bucket c) (ct_head c) i ts) \<Longrightarrow> t div ct_bucket c = ct_ids c ! i"
  using assms by (simp_all add: counts_exactly_def)

lemma counts_exactlyI:
  assumes "0 < ct_bucket c" "0 \<le> ct_head c" "length (ct_ids c) = 30" "length (ct_counts c) = 30"
    and "\<And>t. t \<in> set ts \<Longrightarrow> 0 \<le> t \<and> t div ct_bucket c \<le> ct_head c"
    and "\<And>i. i < 30 \<Longrightarrow> ct_ids c ! i \<le> ct_head c \<and>
        (if ct_head c - 30 < ct_ids c ! i then unat (ct_counts c ! i) else 0)
          = length (slot_events (ct_bucket c) (ct_head c) i ts) \<and>
        (\<forall>t\<in>set (slot_events (ct_bucket c) (ct_head c) i ts). t div ct_bucket c = ct_ids c ! i)"
  shows "counts_exactly ts c"
  using assms unfolding counts_exactly_def by blast

lemma slot_events_mono:
  "h \<le> k \<Longrightarrow> slot_events b k i ts = filter (\<lambda>t. k - 30 < t div b) (slot_events b h i ts)"
  unfolding slot_events_def by (simp, intro filter_cong) auto

text \<open>Moving the head forward drops whole buckets.\<close>

lemma counts_exactly_head:
  assumes c: "counts_exactly ts c" and k: "ct_head c \<le> k"
  shows "counts_exactly ts (c\<lparr>ct_head := k\<rparr>)"
proof -
  let ?b = "ct_bucket c" and ?h = "ct_head c"
  have "ct_ids c ! i \<le> k \<and>
      (if k - 30 < ct_ids c ! i then unat (ct_counts c ! i) else 0) = length (slot_events ?b k i ts) \<and>
      (\<forall>t\<in>set (slot_events ?b k i ts). t div ?b = ct_ids c ! i)" if "i < 30" for i
  proof -
    note d = counts_exactlyD [OF c that]
    have sub: "slot_events ?b k i ts = filter (\<lambda>t. k - 30 < t div ?b) (slot_events ?b ?h i ts)"
      by (rule slot_events_mono [OF k])
    have same: "filter (\<lambda>t. k - 30 < t div ?b) (slot_events ?b ?h i ts)
        = (if k - 30 < ct_ids c ! i then slot_events ?b ?h i ts else [])"
      by (auto simp: d(3) filter_id_conv filter_empty_conv)
    show ?thesis unfolding sub same using d k by auto
  qed
  note slots = this
  have "0 \<le> t \<and> t div ?b \<le> k" if "t \<in> set ts" for t
    using c k that unfolding counts_exactly_def by auto
  moreover have "0 < ?b" "0 \<le> k" "length (ct_ids c) = 30" "length (ct_counts c) = 30"
    using c k unfolding counts_exactly_def by auto
  ultimately show ?thesis using slots by (intro counts_exactlyI) (simp_all cong: if_cong split del: if_split)
qed

lemma slot_events_snoc:
  "slot_events b h i (ts @ [t]) =
     slot_events b h i ts @ (if h - 30 < t div b \<and> nat (t div b mod 30) = i then [t] else [])"
  by (simp add: slot_events_def)

lemma counts_exactly_old:
  assumes "counts_exactly ts c" "0 \<le> t" "t div ct_bucket c \<le> ct_head c - 30"
  shows "counts_exactly (ts @ [t]) c"
  using assms unfolding counts_exactly_def slot_events_snoc by auto

lemma slot_events_same_bucket:
  "x \<in> set (slot_events b h (nat (k mod 30)) ts) \<Longrightarrow> x div b \<le> h \<Longrightarrow> h - 30 < k \<Longrightarrow> k \<le> h \<Longrightarrow> x div b = k"
  by (auto simp: slot_events_def nat_mod30_eq intro: mod30_unique)

text \<open>Counting an event in its slot, which is taken over from an older bucket if need be.\<close>

definition counter_put :: "int \<Rightarrow> counter \<Rightarrow> counter" where
  "counter_put k c =
     (let j = nat (k mod 30);
          c2 = (if ct_ids c ! j \<noteq> k
                then c\<lparr>ct_ids := (ct_ids c)[j := k], ct_counts := (ct_counts c)[j := 0]\<rparr> else c)
      in c2\<lparr>ct_counts := (ct_counts c2)[j := ct_counts c2 ! j + 1]\<rparr>)"

lemma counter_put_slots:
  assumes "length (ct_ids c) = 30" "length (ct_counts c) = 30" "i < 30"
  shows "ct_ids (counter_put k c) ! i = (if i = nat (k mod 30) then k else ct_ids c ! i)"
    and "ct_counts (counter_put k c) ! i = (if i = nat (k mod 30)
           then (if ct_ids c ! i \<noteq> k then 0 else ct_counts c ! i) + 1 else ct_counts c ! i)"
  using assms by (auto simp: counter_put_def Let_def nth_list_update)

lemma counter_put_fields [simp]:
  "ct_bucket (counter_put k c) = ct_bucket c" "ct_head (counter_put k c) = ct_head c"
  "length (ct_ids (counter_put k c)) = length (ct_ids c)"
  "length (ct_counts (counter_put k c)) = length (ct_counts c)"
  "ct_last_fired (counter_put k c) = ct_last_fired c"
  by (simp_all add: counter_put_def Let_def)

lemma counts_exactly_put:
  assumes c: "counts_exactly ts c" and t: "0 \<le> t"
    and k: "t div ct_bucket c \<le> ct_head c" "ct_head c - 30 < t div ct_bucket c"
    and n: "length ts < 4294967295"
  shows "counts_exactly (ts @ [t]) (counter_put (t div ct_bucket c) c)"
proof -
  let ?b = "ct_bucket c" and ?h = "ct_head c"
  let ?k = "t div ?b"
  let ?j = "nat (?k mod 30)" and ?c = "counter_put ?k c"
  have b: "0 < ?b" and len: "length (ct_ids c) = 30" "length (ct_counts c) = 30"
    and le: "\<And>x. x \<in> set ts \<Longrightarrow> 0 \<le> x \<and> x div ?b \<le> ?h"
    using c by (auto simp: counts_exactly_def)
  have j: "?j < 30" by (simp add: nat_less_iff)
  have same: "x div ?b = ?k" if "x \<in> set (slot_events ?b ?h ?j ts)" for x
    using slot_events_same_bucket [OF that _ k(2) k(1)] le that by (auto simp: slot_events_def)
  have slot: "ct_ids ?c ! i \<le> ?h \<and>
      (if ?h - 30 < ct_ids ?c ! i then unat (ct_counts ?c ! i) else 0)
        = length (slot_events ?b ?h i (ts @ [t])) \<and>
      (\<forall>x\<in>set (slot_events ?b ?h i (ts @ [t])). x div ?b = ct_ids ?c ! i)" if i: "i < 30" for i
  proof (cases "i = ?j")
    case False
    then have ids: "ct_ids ?c ! i = ct_ids c ! i" "ct_counts ?c ! i = ct_counts c ! i"
      using counter_put_slots [OF len i] by auto
    have ev: "slot_events ?b ?h i (ts @ [t]) = slot_events ?b ?h i ts"
      using False by (simp add: slot_events_snoc)
    show ?thesis unfolding ids ev using counts_exactlyD [OF c i] by blast
  next
    case True
    have old: "length (slot_events ?b ?h ?j ts) = (if ct_ids c ! ?j = ?k then unat (ct_counts c ! ?j) else 0)"
    proof (cases "ct_ids c ! ?j = ?k")
      case True
      then show ?thesis using counts_exactlyD(2) [OF c j] k(2) by simp
    next
      case False
      have "slot_events ?b ?h ?j ts = []"
      proof (rule ccontr)
        assume "slot_events ?b ?h ?j ts \<noteq> []"
        then obtain x where x: "x \<in> set (slot_events ?b ?h ?j ts)"
          by (cases "slot_events ?b ?h ?j ts") auto
        have "ct_ids c ! ?j = ?k"
          by (rule trans [OF counts_exactlyD(3) [OF c j x, symmetric] same [OF x]])
        then show False using False by contradiction
      qed
      then show ?thesis using False by simp
    qed
    have "length (slot_events ?b ?h ?j ts) \<le> length ts" by (simp add: slot_events_def)
    then have small: "unat (ct_counts c ! ?j) < 4294967295" if "ct_ids c ! ?j = ?k"
      using old that n by simp
    have ids: "ct_ids ?c ! i = ?k"
      and cnt: "ct_counts ?c ! i = (if ct_ids c ! ?j = ?k then ct_counts c ! ?j else 0) + 1"
      using counter_put_slots [OF len i, of ?k] True by auto
    have num: "unat (ct_counts ?c ! i) = Suc (length (slot_events ?b ?h ?j ts))"
      unfolding cnt old using small by (simp add: unat_word_ariths)
    have ev: "slot_events ?b ?h i (ts @ [t]) = slot_events ?b ?h ?j ts @ [t]"
      using True k(2) by (simp add: slot_events_snoc)
    have "x div ?b = ?k" if "x \<in> set (slot_events ?b ?h ?j ts @ [t])" for x
    proof -
      from that consider "x \<in> set (slot_events ?b ?h ?j ts)" | "x = t" by auto
      then show ?thesis by cases (blast intro: same, simp)
    qed
    moreover have "(if ?h - 30 < ?k then unat (ct_counts ?c ! i) else 0)
        = length (slot_events ?b ?h ?j ts @ [t])"
      unfolding num using k(2) by simp
    ultimately show ?thesis unfolding ids ev using k(1) by blast
  qed
  have "0 \<le> ?h" using c by (simp add: counts_exactly_def)
  moreover have "0 \<le> x \<and> x div ?b \<le> ?h" if "x \<in> set (ts @ [t])" for x
    using that le t k by auto
  ultimately show ?thesis
    using b len slot by (intro counts_exactlyI; (unfold counter_put_fields)?) blast+
qed

lemma counter_add_normal:
  assumes "counts_exactly ts c" "0 \<le> t" "t \<le> int64_max"
  shows "counter_add t c =
    (let k = t div ct_bucket c; c1 = c\<lparr>ct_head := max (ct_head c) k\<rparr>;
         c' = (if k \<le> ct_head c1 - 30 then c1 else counter_put k c1)
     in Some (counter_total c', c'))"
proof -
  have b: "0 < ct_bucket c" using assms(1) by (simp add: counts_exactly_def)
  have i: "go_div (wrap64 t) (ct_bucket c) = t div ct_bucket c"
    using assms b by (simp add: machine_simps)
  have nn: "0 \<le> t div ct_bucket c" using assms b by (simp add: pos_imp_zdiv_nonneg_iff)
  have r: "go_rem (t div ct_bucket c) slots = t div ct_bucket c mod 30"
    using nn by (simp add: machine_simps slots_def)
  have h: "(if ct_head c < t div ct_bucket c then c\<lparr>ct_head := t div ct_bucket c\<rparr> else c)
      = c\<lparr>ct_head := max (ct_head c) (t div ct_bucket c)\<rparr>"
    by (simp add: max_def)
  have nr: "(t div ct_bucket c mod 30 < 0) = False" by simp
  have m: "(t div ct_bucket c \<le> max (ct_head c) (t div ct_bucket c) - 30) = (t div ct_bucket c \<le> ct_head c - 30)"
    by auto
  show ?thesis
    unfolding counter_add_def i Let_def r h counter_put_def nr by (simp add: slots_def m)
qed

lemma counter_add_exact:
  assumes c: "counts_exactly ts c" and t: "0 \<le> t" "t \<le> int64_max" and n: "length ts < 4294967295"
  obtains c' where "counter_add t c = Some (counter_total c', c')" "counts_exactly (ts @ [t]) c'"
    "ct_bucket c' = ct_bucket c" "ct_head c' = max (ct_head c) (t div ct_bucket c)"
    "ct_last_fired c' = ct_last_fired c"
proof -
  let ?k = "t div ct_bucket c"
  let ?c1 = "c\<lparr>ct_head := max (ct_head c) ?k\<rparr>"
  have c1: "counts_exactly ts ?c1" by (rule counts_exactly_head [OF c]) simp
  let ?c' = "if ?k \<le> ct_head ?c1 - 30 then ?c1 else counter_put ?k ?c1"
  have "counts_exactly (ts @ [t]) ?c'"
    using counts_exactly_old [OF c1 t(1)] counts_exactly_put [OF c1 t(1) _ _ n] by auto
  moreover have "counter_add t c = Some (counter_total ?c', ?c')"
    using counter_add_normal [OF c t] by (simp add: Let_def)
  ultimately show ?thesis using that [of ?c'] by simp
qed

lemma counter_run_exactly:
  assumes "counts_exactly us c" "list_all (\<lambda>t. 0 \<le> t \<and> t \<le> int64_max) ts"
    "length us + length ts < 4294967296"
  shows "\<exists>c'. counter_run ts c = Some c' \<and> counts_exactly (us @ ts) c' \<and> ct_bucket c' = ct_bucket c \<and>
    ct_head c' = foldl max (ct_head c) (map (\<lambda>t. t div ct_bucket c) ts)"
  using assms
proof (induction ts arbitrary: us c)
  case (Cons t ts)
  obtain c1 where c1: "counter_add t c = Some (counter_total c1, c1)" "counts_exactly (us @ [t]) c1"
    "ct_bucket c1 = ct_bucket c" "ct_head c1 = max (ct_head c) (t div ct_bucket c)"
    by (rule counter_add_exact [of us c t]) (use Cons.prems in auto)
  have "\<exists>c'. counter_run ts c1 = Some c' \<and> counts_exactly ((us @ [t]) @ ts) c' \<and> ct_bucket c' = ct_bucket c1 \<and>
    ct_head c' = foldl max (ct_head c1) (map (\<lambda>t. t div ct_bucket c1) ts)"
    using Cons.prems c1 by (intro Cons.IH) auto
  then show ?case using c1 by auto
qed auto

section \<open>The number of a bucket and the time window\<close>

lemma foldl_max_ge: "(a::int) \<le> foldl max a xs"
  by (induction xs arbitrary: a) (auto intro: order_trans [OF max.cobounded1])

lemma foldl_max_Max: "foldl max a xs = Max (insert (a::int) (set xs))"
proof (induction xs arbitrary: a)
  case (Cons x xs)
  have "foldl max a (x # xs) = Max (insert (max a x) (set xs))" using Cons by simp
  also have "\<dots> = Max (insert a (set (x # xs)))"
    by (cases "xs = []") (simp_all add: max.assoc)
  finally show ?case .
qed simp

definition newest :: "time list \<Rightarrow> time" where
  "newest ts = foldl max 0 ts"

lemma newest_head: "0 < b \<Longrightarrow> foldl max 0 (map (\<lambda>t. t div b) ts) = newest ts div b"
proof -
  assume b: "0 < b"
  have "foldl max (a div b) (map (\<lambda>t. t div b) ts) = foldl max a ts div b" for a
  proof (induction ts arbitrary: a)
    case (Cons t ts)
    have "max (a div b) (t div b) = max a t div b"
      using b by (auto simp: max_def zdiv_mono1 intro: antisym)
    then show ?case using Cons [of "max a t"] by simp
  qed simp
  from this [of 0] show ?thesis by (simp add: newest_def)
qed

lemma counter_run_fresh:
  assumes "list_all (\<lambda>t. 0 \<le> t \<and> t \<le> int64_max) ts" "length ts < 4294967296"
  obtains c where "counter_run ts (newCounter w) = Some c" "counts_exactly ts c"
    "ct_bucket c = ct_bucket (newCounter w)" "ct_head c = newest ts div ct_bucket c"
proof -
  have h: "ct_head (newCounter w) = 0" by (simp add: newCounter_def Let_def)
  obtain c where "counter_run ts (newCounter w) = Some c" "counts_exactly ([] @ ts) c"
    "ct_bucket c = ct_bucket (newCounter w)"
    "ct_head c = foldl max 0 (map (\<lambda>t. t div ct_bucket (newCounter w)) ts)"
    using counter_run_exactly [OF newCounter_exact assms(1), of w] assms(2) h by auto
  then show ?thesis using that newest_head [OF newCounter_bucket_pos] by auto
qed

text \<open>C23: whatever the order in which the timestamps of a group arrive, from 1970 on, the
  counter accepts them all and its total is the number of those whose bucket is one of the thirty
  that end with the newest: a slot taken over by a newer bucket, a late event and an event too old
  are all accounted for.
\<close>

theorem counter_run_exact:
  assumes "list_all (\<lambda>t. 0 \<le> t \<and> t \<le> int64_max) ts" "length ts < 4294967296"
  shows "map_option counter_total (counter_run ts (newCounter w)) =
    (let b = ct_bucket (newCounter w) in Some (length (filter (\<lambda>t. newest ts div b - 30 < t div b) ts)))"
proof -
  obtain c where "counter_run ts (newCounter w) = Some c" "counts_exactly ts c"
    "ct_bucket c = ct_bucket (newCounter w)" "ct_head c = newest ts div ct_bucket c"
    by (rule counter_run_fresh [OF assms])
  then show ?thesis using counts_exactly_total [of ts c] by (simp add: Let_def)
qed

theorem counter_run_exact_witness:
  "map_option counter_total (counter_run [100, 5, 45, 3] (newCounter 30)) = Some 1
   \<and> map_option counter_total (counter_run [100, 80, 71, 70] (newCounter 30)) = Some 3"
  using counter_run_exact [of "[100, 5, 45, 3]" 30] counter_run_exact [of "[100, 80, 71, 70]" 30]
  by (simp add: newCounter_def Let_def slots_def go_div_def newest_def numeral_3_eq_3)

lemma bucket_window: "30 \<le> w \<Longrightarrow> 30 * ct_bucket (newCounter w) \<le> w"
proof -
  assume w: "30 \<le> w"
  then have "ct_bucket (newCounter w) = w div 30"
    by (auto simp: newCounter_def Let_def slots_def machine_simps pos_imp_zdiv_pos_iff)
  then show ?thesis by (simp add: mult.commute div_mult_self_is_m [symmetric])
qed

lemma bucket_bounds:
  assumes b: "0 < (b::int)" and n: "(n::int) = m div b"
  shows "m - t \<le> 29 * b \<Longrightarrow> n - 30 < t div b" and "n - 30 < t div b \<Longrightarrow> m - t < 30 * b"
proof -
  have m: "n * b \<le> m" "m < n * b + b"
    using b n by (simp_all add: minus_mod_eq_div_mult [symmetric] pos_mod_bound)
  have t: "t div b * b \<le> t" "t < t div b * b + b"
    using b by (simp_all add: minus_mod_eq_div_mult [symmetric] pos_mod_bound)
  show "n - 30 < t div b" if "m - t \<le> 29 * b"
  proof (rule ccontr)
    assume "\<not> n - 30 < t div b"
    then have "(t div b) * b \<le> (n - 30) * b" using b by (intro mult_right_mono) auto
    then show False using that m t by (simp add: algebra_simps)
  qed
  show "m - t < 30 * b" if "n - 30 < t div b"
  proof -
    have "(n - 29) * b \<le> (t div b) * b" using that b by (intro mult_right_mono) auto
    then show ?thesis using m t by (simp add: algebra_simps)
  qed
qed

text \<open>for a window of at least thirty nanoseconds the count is exact to within one bucket:
  it includes every event within 29 thirtieths of the window before the newest event, and none that
  lies a full window or more before it.
\<close>

theorem window_bounds:
  assumes "list_all (\<lambda>t. 0 \<le> t \<and> t \<le> int64_max) ts" "length ts < 4294967296" "30 \<le> w"
  shows "\<exists>c. counter_run ts (newCounter w) = Some c \<and>
    length (filter (\<lambda>t. newest ts - t \<le> 29 * (w div 30)) ts) \<le> counter_total c \<and>
    counter_total c \<le> length (filter (\<lambda>t. newest ts - t < w) ts)"
proof -
  obtain c where c: "counter_run ts (newCounter w) = Some c" "counts_exactly ts c"
    "ct_bucket c = ct_bucket (newCounter w)" "ct_head c = newest ts div ct_bucket c"
    by (rule counter_run_fresh [OF assms(1,2)])
  have b: "0 < ct_bucket c" "ct_bucket c = w div 30" "30 * ct_bucket c \<le> w"
    using assms(3) c(3) newCounter_bucket_pos [of w] bucket_window [of w]
    by (auto simp: newCounter_def Let_def slots_def machine_simps pos_imp_zdiv_pos_iff)
  note bb = bucket_bounds [OF b(1) c(4)]
  have "length (filter (\<lambda>t. newest ts - t \<le> 29 * (w div 30)) ts) \<le> counter_total c"
    unfolding counts_exactly_total [OF c(2)] b(2) [symmetric] by (intro length_filter_mono bb(1))
  moreover have "counter_total c \<le> length (filter (\<lambda>t. newest ts - t < w) ts)"
    unfolding counts_exactly_total [OF c(2)] using b(3) bb(2) by (intro length_filter_mono) fastforce
  ultimately show ?thesis using c(1) by blast
qed

theorem window_bounds_witness:
  "\<exists>c. counter_run [100, 80, 71, 70] (newCounter 30) = Some c \<and> 3 \<le> counter_total c \<and> counter_total c \<le> 3"
  using window_bounds [of "[100, 80, 71, 70]" 30] by (simp add: newest_def numeral_3_eq_3)

section \<open>Timestamps before 1970\<close>

text \<open>the counter of a new group panics exactly on a first event dated between one and
  thirty buckets before 1970: the remainder of a negative bucket number is negative and indexes the
  slot array.
\<close>

theorem add_panics_before_epoch:
  assumes "int64_min \<le> t" "t < 0"
  shows "counter_add t (newCounter w) = None \<longleftrightarrow>
    (let b = ct_bucket (newCounter w); k = (- t) div b in 0 < k \<and> k < 30)"
proof -
  let ?b = "ct_bucket (newCounter w)"
  have b: "0 < ?b" by (rule newCounter_bucket_pos)
  have i: "go_div (wrap64 t) ?b = - ((- t) div ?b)"
    using assms b by (simp add: go_div_def machine_simps)
  have k: "0 \<le> (- t) div ?b" using assms b by (simp add: pos_imp_zdiv_nonneg_iff)
  have h: "ct_head (newCounter w) = 0" by (simp add: newCounter_def Let_def)
  have r: "go_rem (- ((- t) div ?b)) slots < 0 \<longleftrightarrow> (- t) div ?b mod 30 \<noteq> 0" (is "?L \<longleftrightarrow> ?R")
  proof -
    have "go_rem (- ((- t) div ?b)) slots = - ((- t) div ?b mod 30)"
      using k by (cases "(- t) div ?b = 0") (auto simp: go_rem_def slots_def)
    moreover have "0 \<le> (- t) div ?b mod 30" by simp
    ultimately show ?thesis by linarith
  qed
  have s: "(- t) div ?b < 30 \<Longrightarrow> (- t) div ?b mod 30 = (- t) div ?b" using k by simp
  show ?thesis
    unfolding counter_add_def i h Let_def using r s k
    by (cases "(- t) div ?b < 30") (auto simp: slots_def h)
qed

theorem add_panics_before_epoch_witness:
  "counter_add (- 3600 * seconds) (newCounter (2 * hours)) = None"
  using add_panics_before_epoch [of "- 3600 * seconds" "2 * hours"]
  by (simp add: newCounter_def Let_def slots_def go_div_def)

section \<open>The table of groups\<close>

text \<open>
  \<open>lru\<close> is the list, most recently used first; \<open>items\<close> is its index.  The counter
  that \<open>get\<close> returns is shared with the entry: \<open>lru_put\<close> is the later write through
  that pointer.
\<close>

record lru =
  lru_max :: nat
  lru_order :: "(string \<times> counter) list"

definition newLRU :: "nat \<Rightarrow> lru" where
  "newLRU maxEntries = \<lparr>lru_max = maxEntries, lru_order = []\<rparr>"

definition lru_get :: "string \<Rightarrow> duration \<Rightarrow> lru \<Rightarrow> counter \<times> lru" where
  "lru_get key window l =
     (case map_of (lru_order l) key of
        Some c \<Rightarrow> (c, l\<lparr>lru_order := (key, c) # filter (\<lambda>e. fst e \<noteq> key) (lru_order l)\<rparr>)
      | None \<Rightarrow>
          (let c = newCounter window; xs = (key, c) # lru_order l
           in (c, l\<lparr>lru_order := if lru_max l < length xs then butlast xs else xs\<rparr>)))"

definition lru_put :: "string \<Rightarrow> counter \<Rightarrow> lru \<Rightarrow> lru" where
  "lru_put key c l = l\<lparr>lru_order := map (\<lambda>(k, x). if k = key then (k, c) else (k, x)) (lru_order l)\<rparr>"

definition lru_len :: "lru \<Rightarrow> nat" where "lru_len l = length (lru_order l)"

definition lru_reset :: "lru \<Rightarrow> lru" where "lru_reset l = l\<lparr>lru_order := []\<rparr>"

definition lru_keys :: "lru \<Rightarrow> string list" where "lru_keys l = map fst (lru_order l)"

definition lru_ok :: "lru \<Rightarrow> bool" where
  "lru_ok l \<longleftrightarrow> distinct (lru_keys l) \<and> length (lru_keys l) \<le> lru_max l"

lemma lru_put_keys [simp]: "lru_keys (lru_put key c l) = lru_keys l" "lru_max (lru_put key c l) = lru_max l"
  by (auto simp: lru_keys_def lru_put_def)

lemma map_fst_filter: "map fst (filter (\<lambda>e. fst e \<noteq> k) xs) = removeAll k (map fst xs)"
  by (induction xs) auto

lemma lru_get_keys:
  "lru_keys (snd (lru_get key w l)) =
     (if key \<in> set (lru_keys l) then key # removeAll key (lru_keys l)
      else if lru_max l < Suc (length (lru_keys l)) then butlast (key # lru_keys l) else key # lru_keys l)"
  "lru_max (snd (lru_get key w l)) = lru_max l"
  by (auto simp: lru_get_def lru_keys_def map_fst_filter map_butlast Let_def map_of_eq_None_iff
      dest: map_of_SomeD split: option.splits)
   (force simp: image_iff dest: map_of_SomeD)+

lemma lru_get_max_keys:
  "0 < lru_max l \<Longrightarrow> lru_ok l \<Longrightarrow>
   lru_keys (snd (lru_get key w l)) = take (lru_max l) (key # removeAll key (lru_keys l))"
proof -
  assume m: "0 < lru_max l" and ok: "lru_ok l"
  have len: "length (lru_keys l) \<le> lru_max l" using ok by (simp add: lru_ok_def lru_keys_def)
  show ?thesis
  proof (cases "key \<in> set (lru_keys l)")
    case True
    then have "length (removeAll key (lru_keys l)) < length (lru_keys l)"
      by (rule length_removeAll_less)
    then show ?thesis using True len by (simp add: lru_get_keys)
  next
    case False
    show ?thesis
    proof (cases "length (lru_keys l) = lru_max l")
      case True
      then show ?thesis using False m
        by (cases "lru_max l") (auto simp: lru_get_keys butlast_conv_take removeAll_id)
    next
      case neq: False
      then have "Suc (length (lru_keys l)) \<le> lru_max l" using len by simp
      then show ?thesis using False by (simp add: lru_get_keys removeAll_id)
    qed
  qed
qed

lemma lru_get_ok: "0 < lru_max l \<Longrightarrow> lru_ok l \<Longrightarrow> lru_ok (snd (lru_get key w l))"
proof -
  assume m: "0 < lru_max l" and ok: "lru_ok l"
  have "length (lru_keys (snd (lru_get key w l))) \<le> lru_max l"
    unfolding lru_get_max_keys [OF m ok] by simp
  moreover have "distinct (lru_keys (snd (lru_get key w l)))"
    unfolding lru_get_max_keys [OF m ok] using ok
    by (intro distinct_take) (auto simp: lru_ok_def distinct_removeAll)
  ultimately show ?thesis by (simp add: lru_ok_def lru_get_keys(2))
qed

text \<open>What came last is first: the distinct keys in the order of their latest use.\<close>

definition recency :: "string list \<Rightarrow> string list" where
  "recency ks = rev (remdups ks)"

lemma remdups_snoc: "remdups (xs @ [x]) = removeAll x (remdups xs) @ [x]"
  by (induction xs) auto

lemma rev_removeAll: "rev (removeAll x xs) = removeAll x (rev xs)"
  by (induction xs) auto

lemma recency_snoc: "recency (ks @ [k]) = k # removeAll k (recency ks)"
  by (simp add: recency_def remdups_snoc rev_removeAll)

lemma take_removeAll:
  "distinct xs \<Longrightarrow> take n (removeAll k (take (Suc n) xs)) = take n (removeAll k xs)"
proof (induction xs arbitrary: n)
  case (Cons x xs)
  show ?case
  proof (cases "x = k")
    case True
    then have "k \<notin> set xs" using Cons by simp
    then have "removeAll k xs = xs" "removeAll k (take n xs) = take n xs"
      by (auto intro: removeAll_id dest: in_set_takeD)
    then show ?thesis using True by simp
  next
    case False
    then show ?thesis using Cons by (cases n) auto
  qed
qed simp

text \<open>One access and the write that follows it.\<close>

definition lru_touch :: "(counter \<Rightarrow> counter) \<Rightarrow> duration \<Rightarrow> lru \<Rightarrow> string \<Rightarrow> lru" where
  "lru_touch f w l k = (case lru_get k w l of (c, l') \<Rightarrow> lru_put k (f c) l')"

lemma lru_touch_keys:
  assumes "0 < lru_max l" "lru_ok l"
  shows "lru_keys (lru_touch f w l k) = take (lru_max l) (k # removeAll k (lru_keys l))"
    and "lru_max (lru_touch f w l k) = lru_max l" and "lru_ok (lru_touch f w l k)"
  using lru_get_max_keys [OF assms, of k w] lru_get_ok [OF assms, of k w] lru_get_keys(2) [of k w l]
  by (auto simp: lru_touch_def lru_ok_def lru_put_def lru_keys_def o_def case_prod_unfold if_distrib
      split: prod.splits cong: if_cong)

text \<open>What an access finds and leaves, entry by entry.\<close>

definition lru_find :: "string \<Rightarrow> lru \<Rightarrow> counter option" where
  "lru_find k l = map_of (lru_order l) k"

lemma map_of_filter_neq: "map_of (filter (\<lambda>e. fst e \<noteq> k) xs) j = (if j = k then None else map_of xs j)"
  by (induction xs) auto

lemma map_of_put: "map_of (map (\<lambda>(k, x). if k = key then (k, c) else (k, x)) xs) j
    = (if j = key then map_option (\<lambda>_. c) (map_of xs j) else map_of xs j)"
  by (induction xs) auto

lemma lru_get_fst: "fst (lru_get k w l) = (case lru_find k l of Some c \<Rightarrow> c | None \<Rightarrow> newCounter w)"
  by (auto simp: lru_get_def lru_find_def Let_def split: option.splits)

lemma lru_find_None: "lru_find k l = None \<longleftrightarrow> k \<notin> set (lru_keys l)"
  by (auto simp: lru_find_def lru_keys_def map_of_eq_None_iff)

lemma lru_find_get:
  assumes "k \<in> set (lru_keys l) \<or> length (lru_keys l) < lru_max l"
  shows "lru_find j (lru_put k c (snd (lru_get k w l))) = (if j = k then Some c else lru_find j l)"
proof (cases "lru_find k l")
  case None
  then have "length (lru_order l) < lru_max l" using assms lru_find_None by (auto simp: lru_keys_def)
  then show ?thesis using None
    by (auto simp: lru_find_def lru_put_def lru_get_def Let_def map_of_put)
next
  case (Some d)
  then show ?thesis
    by (auto simp: lru_find_def lru_put_def lru_get_def map_of_put map_of_filter_neq)
qed

text \<open>after any sequence of records the table tracks exactly the groups used most recently,
  in that order, and never more than its limit: a scan from many addresses pushes out the group
  that has been quiet longest, and no group twice.
\<close>

theorem lru_keeps_recent:
  assumes "0 < m"
  shows "lru_ok (foldl (lru_touch f w) (newLRU m) ks) \<and>
    lru_keys (foldl (lru_touch f w) (newLRU m) ks) = take m (recency ks)"
proof -
  have "lru_ok (foldl (lru_touch f w) (newLRU m) ks) \<and> lru_max (foldl (lru_touch f w) (newLRU m) ks) = m \<and>
    lru_keys (foldl (lru_touch f w) (newLRU m) ks) = take m (recency ks)"
  proof (induction ks rule: rev_induct)
    case Nil
    show ?case by (simp add: newLRU_def lru_ok_def lru_keys_def recency_def)
  next
    case (snoc k ks)
    let ?l = "foldl (lru_touch f w) (newLRU m) ks"
    have l: "0 < lru_max ?l" "lru_ok ?l" "lru_max ?l = m" "lru_keys ?l = take m (recency ks)"
      using snoc assms by auto
    note t = lru_touch_keys [OF l(1,2)]
    obtain n where n: "m = Suc n" using assms by (cases m) auto
    have "distinct (recency ks)" by (simp add: recency_def)
    then have "take m (k # removeAll k (take m (recency ks))) = take m (recency (ks @ [k]))"
      unfolding recency_snoc n by (simp add: take_removeAll)
    then show ?case using t [of f w k] l by simp
  qed
  then show ?thesis by blast
qed

theorem lru_keeps_recent_witness:
  "lru_keys (foldl (lru_touch id 30) (newLRU 2) [''a'', ''b'', ''a'', ''c'']) = [''c'', ''a'']"
  using lru_keeps_recent [of 2 id 30 "[''a'', ''b'', ''a'', ''c'']"] by (simp add: recency_def)

end
