(* ===== verification/DetectEngine.thy ===== *)
theory DetectEngine
  imports DetectRule DetectWindow
begin

text \<open>
  The detection engine (\<open>internal/detect/engine.go\<close>) and the identity of what it
  emits (\<open>internal/detect/emitter.go\<close>).

  Each method runs under the engine's mutex, so it is one step on \<open>engine\<close>; the clock is an
  argument.  A \<open>float64\<close> is a rational, a product is rounded by \<open>rd_float\<close> and
  \<open>Duration.Seconds\<close> is \<open>rd_seconds\<close>; the texts built with \<open>fmt.Sprintf\<close> are \<open>rd_metric\<close> and
  \<open>rd_silence\<close>.  \<open>None\<close> is the panic of \<open>counter_add\<close>.  The channel of
  detections is the list \<open>eg_out\<close>, bounded by \<open>eg_cap\<close>.
\<close>

section \<open>State\<close>

definition MaxGroups :: nat where "MaxGroups = 50000"
definition forgetHostAfter :: duration where "forgetHostAfter = 168 * hours"
definition seedAlreadySilent :: duration where "seedAlreadySilent = 3 * hours"

record detection =
  dt_rule :: rule
  dt_group :: "(string \<times> string) list"
  dt_at :: time
  dt_count :: nat
  dt_value :: rat
  dt_limit :: rat
  dt_sample :: string

record sample =
  sm_host :: string
  sm_metric :: string
  sm_ts :: time
  sm_value :: rat

record host_info =
  hi_host :: string
  hi_cores :: int
  hi_last_seen :: time

record series_state =
  ss_since :: time
  ss_last_fired :: time

record host_state =
  hs_cores :: int
  hs_last_seen :: time
  hs_silent :: "string set"

record engine =
  eg_rules :: "rule list"
  eg_groups :: lru
  eg_series :: "string \<rightharpoonup> series_state"
  eg_hosts :: "string \<rightharpoonup> host_state"
  eg_out :: "detection list"
  eg_cap :: nat
  eg_started :: time
  eg_dropped :: nat

record render =
  rd_float :: "rat \<Rightarrow> rat"
  rd_seconds :: "duration \<Rightarrow> rat"
  rd_metric :: "sample \<Rightarrow> rat \<Rightarrow> duration \<Rightarrow> string"
  rd_silence :: "string \<Rightarrow> duration \<Rightarrow> time \<Rightarrow> string"

definition NewEngine :: "rule list \<Rightarrow> nat \<Rightarrow> time \<Rightarrow> engine" where
  "NewEngine rules buffer now = \<lparr>eg_rules = rules, eg_groups = newLRU MaxGroups, eg_series = Map.empty,
     eg_hosts = Map.empty, eg_out = [], eg_cap = buffer, eg_started = now, eg_dropped = 0\<rparr>"

definition SetRules :: "rule list \<Rightarrow> engine \<Rightarrow> engine" where
  "SetRules rules e = e\<lparr>eg_rules := rules, eg_groups := lru_reset (eg_groups e), eg_series := Map.empty\<rparr>"

text \<open>A full channel loses the detection; it never blocks the caller.\<close>

definition emit :: "detection \<Rightarrow> engine \<Rightarrow> engine" where
  "emit d e = (if length (eg_out e) < eg_cap e then e\<lparr>eg_out := eg_out e @ [d]\<rparr>
               else e\<lparr>eg_dropped := Suc (eg_dropped e)\<rparr>)"

definition cooledDown :: "time \<Rightarrow> time \<Rightarrow> duration \<Rightarrow> bool" where
  "cooledDown prev now cooldown \<longleftrightarrow> prev = zero_time \<or> cooldown \<le> time_sub now prev"

section \<open>Security records\<close>

definition group_of :: "rule \<Rightarrow> sec_record \<Rightarrow> (string \<times> string) list" where
  "group_of r rec = map (\<lambda>f. (f, fst (record_field rec f))) (rl_group_by r)"

definition group_key :: "rule \<Rightarrow> sec_record \<Rightarrow> string" where
  "group_key r rec = rl_id r @ concat (map (\<lambda>f. CHR 0x00 # fst (record_field rec f)) (rl_group_by r))"

definition record_ts :: "sec_record \<Rightarrow> time \<Rightarrow> time" where
  "record_ts rec now = (if sr_ts rec = zero_time \<or> now < sr_ts rec then now else sr_ts rec)"

definition security_detection :: "rule \<Rightarrow> sec_record \<Rightarrow> time \<Rightarrow> nat \<Rightarrow> detection" where
  "security_detection r rec ts n = \<lparr>dt_rule = r, dt_group = group_of r rec, dt_at = ts, dt_count = n,
     dt_value = 0, dt_limit = rl_threshold r, dt_sample = sr_message rec\<rparr>"

definition countRecord :: "rule \<Rightarrow> sec_record \<Rightarrow> time \<Rightarrow> engine \<Rightarrow> engine option" where
  "countRecord r rec now e =
     (let key = group_key r rec; ts = record_ts rec now;
          (c, l) = lru_get key (rl_window r) (eg_groups e)
      in case counter_add ts c of
           None \<Rightarrow> None
         | Some (n, c1) \<Rightarrow>
             if of_nat n < rl_threshold r \<or> \<not> cooledDown (ct_last_fired c1) ts (rl_cooldown r)
             then Some (e\<lparr>eg_groups := lru_put key c1 l\<rparr>)
             else Some (emit (security_detection r rec ts n)
                    (e\<lparr>eg_groups := lru_put key (c1\<lparr>ct_last_fired := ts\<rparr>) l\<rparr>)))"

fun fold_option :: "('a \<Rightarrow> 's \<Rightarrow> 's option) \<Rightarrow> 'a list \<Rightarrow> 's \<Rightarrow> 's option" where
  "fold_option f [] s = Some s"
| "fold_option f (x # xs) s = (case f x s of None \<Rightarrow> None | Some s' \<Rightarrow> fold_option f xs s')"

definition observe_record :: "time \<Rightarrow> rule \<Rightarrow> sec_record \<Rightarrow> engine \<Rightarrow> engine option" where
  "observe_record now r rec e =
     (if \<not> matchAll (rl_match r) rec then Some e
      else if excluded (rl_exclude r) rec then Some e
      else countRecord r rec now e)"

definition ObserveSecurity :: "time \<Rightarrow> sec_record list \<Rightarrow> engine \<Rightarrow> engine option" where
  "ObserveSecurity now recs e =
     fold_option (\<lambda>r e. if \<not> rl_enabled r \<or> rl_track r \<noteq> TrackSecurity then Some e
                        else fold_option (observe_record now r) recs e) (eg_rules e) e"

section \<open>Metrics\<close>

definition touchHost :: "host_info \<Rightarrow> engine \<Rightarrow> engine" where
  "touchHost h e =
     (if hi_host h = [] then e
      else
        (let st = (case eg_hosts e (hi_host h) of Some st \<Rightarrow> st
                   | None \<Rightarrow> \<lparr>hs_cores = 0, hs_last_seen = zero_time, hs_silent = {}\<rparr>);
             st1 = (if 0 < hi_cores h then st\<lparr>hs_cores := hi_cores h\<rparr> else st);
             st2 = (if hs_last_seen st1 < hi_last_seen h
                    then st1\<lparr>hs_last_seen := hi_last_seen h, hs_silent := {}\<rparr> else st1)
         in e\<lparr>eg_hosts := (eg_hosts e)(hi_host h \<mapsto> st2)\<rparr>))"

definition limitFor :: "render \<Rightarrow> rule \<Rightarrow> string \<Rightarrow> engine \<Rightarrow> rat option" where
  "limitFor rd r host e =
     (if \<not> rl_per_core r then Some (rl_threshold r)
      else case eg_hosts e host of
             None \<Rightarrow> None
           | Some h \<Rightarrow> if hs_cores h = 0 then None
                       else Some (rd_float rd (rl_threshold r * of_int (hs_cores h))))"

definition beyond :: "string \<Rightarrow> rat \<Rightarrow> rat \<Rightarrow> bool" where
  "beyond op v limit = ((op = ''gt'' \<and> limit < v) \<or> (op = ''lt'' \<and> v < limit))"

definition series_key :: "rule \<Rightarrow> sample \<Rightarrow> string" where
  "series_key r s = rl_id r @ [CHR 0x00] @ sm_host s @ [CHR 0x00] @ sm_metric s"

definition metric_detection :: "render \<Rightarrow> rule \<Rightarrow> sample \<Rightarrow> rat \<Rightarrow> time \<Rightarrow> detection" where
  "metric_detection rd r s limit since = \<lparr>dt_rule = r,
     dt_group = [(''host'', sm_host s), (''metric'', sm_metric s)], dt_at = sm_ts s, dt_count = 0,
     dt_value = sm_value s, dt_limit = limit, dt_sample = rd_metric rd s limit (time_sub (sm_ts s) since)\<rparr>"

definition evalSample :: "render \<Rightarrow> rule \<Rightarrow> sample \<Rightarrow> engine \<Rightarrow> engine" where
  "evalSample rd r s e = (case limitFor rd r (sm_host s) e of
     None \<Rightarrow> e
   | Some limit \<Rightarrow>
       (let key = series_key r s;
            st = (case eg_series e key of Some st \<Rightarrow> st
                  | None \<Rightarrow> \<lparr>ss_since = zero_time, ss_last_fired = zero_time\<rparr>)
        in if \<not> beyond (rl_op r) (sm_value s) limit
           then e\<lparr>eg_series := (eg_series e)(key \<mapsto> st\<lparr>ss_since := zero_time\<rparr>)\<rparr>
           else
             (let since = (if ss_since st = zero_time \<or> sm_ts s < ss_since st then sm_ts s else ss_since st);
                  st1 = st\<lparr>ss_since := since\<rparr>
              in if time_sub (sm_ts s) since < rl_for r \<or> \<not> cooledDown (ss_last_fired st1) (sm_ts s) (rl_cooldown r)
                 then e\<lparr>eg_series := (eg_series e)(key \<mapsto> st1)\<rparr>
                 else emit (metric_detection rd r s limit since)
                        (e\<lparr>eg_series := (eg_series e)(key \<mapsto> st1\<lparr>ss_last_fired := sm_ts s\<rparr>)\<rparr>))))"

definition ObserveMetrics :: "render \<Rightarrow> sample list \<Rightarrow> host_info list \<Rightarrow> engine \<Rightarrow> engine" where
  "ObserveMetrics rd samples hosts e0 =
     (let e1 = fold touchHost hosts e0
      in fold (\<lambda>r e. if \<not> rl_enabled r \<or> rl_track r \<noteq> TrackMetrics then e
                     else fold (\<lambda>s e. if matchesMetric r (sm_metric s) \<and> matchesHost r (sm_host s)
                                     then evalSample rd r s e else e) samples e)
           (eg_rules e1) e1)"

section \<open>Heartbeats\<close>

definition SeedHosts :: "time \<Rightarrow> host_info list \<Rightarrow> engine \<Rightarrow> engine" where
  "SeedHosts now hosts e0 =
     fold (\<lambda>h e.
       (let e1 = touchHost h e
        in case eg_hosts e1 (hi_host h) of
             None \<Rightarrow> e1
           | Some st \<Rightarrow>
               if time_sub now (hs_last_seen st) \<le> seedAlreadySilent then e1
               else e1\<lparr>eg_hosts := (eg_hosts e1)(hi_host h \<mapsto> st\<lparr>hs_silent :=
                      hs_silent st \<union> rl_id ` {r \<in> set (eg_rules e1). rl_track r = TrackHeartbeat}\<rparr>)\<rparr>))
       hosts e0"

definition forgetHost :: "string \<Rightarrow> engine \<Rightarrow> engine" where
  "forgetHost host e = e\<lparr>eg_hosts := (eg_hosts e)(host := None),
     eg_series := (\<lambda>k. if contains_sub k ([CHR 0x00] @ host @ [CHR 0x00]) then None else eg_series e k)\<rparr>"

definition heartbeat_detection :: "render \<Rightarrow> rule \<Rightarrow> string \<Rightarrow> time \<Rightarrow> duration \<Rightarrow> time \<Rightarrow> detection" where
  "heartbeat_detection rd r host now silence last_seen = \<lparr>dt_rule = r, dt_group = [(''host'', host)],
     dt_at = now, dt_count = 0, dt_value = rd_seconds rd silence,
     dt_limit = rd_seconds rd (rl_window r),
     dt_sample = rd_silence rd host silence last_seen\<rparr>"

definition heartbeat_due :: "rule \<Rightarrow> string \<Rightarrow> duration \<Rightarrow> host_state \<Rightarrow> bool" where
  "heartbeat_due r host silence st \<longleftrightarrow>
     \<not> (\<not> rl_enabled r \<or> rl_track r \<noteq> TrackHeartbeat \<or> silence \<le> rl_window r
        \<or> rl_id r \<in> hs_silent st \<or> \<not> matchesHost r host)"

definition heartbeat_rule :: "render \<Rightarrow> time \<Rightarrow> string \<Rightarrow> duration \<Rightarrow> rule \<Rightarrow> engine \<Rightarrow> engine" where
  "heartbeat_rule rd now host silence r e = (case eg_hosts e host of
     None \<Rightarrow> e
   | Some st \<Rightarrow>
       if \<not> heartbeat_due r host silence st then e
       else emit (heartbeat_detection rd r host now silence (hs_last_seen st))
              (e\<lparr>eg_hosts := (eg_hosts e)(host \<mapsto> st\<lparr>hs_silent := insert (rl_id r) (hs_silent st)\<rparr>)\<rparr>))"

definition host_silence :: "time \<Rightarrow> engine \<Rightarrow> host_state \<Rightarrow> duration" where
  "host_silence now e st =
     (let silence = time_sub now (hs_last_seen st); alive = time_sub now (eg_started e)
      in if alive < silence \<and> silence \<le> forgetHostAfter then alive else silence)"

definition check_host :: "render \<Rightarrow> time \<Rightarrow> string \<Rightarrow> engine \<Rightarrow> engine" where
  "check_host rd now host e = (case eg_hosts e host of
     None \<Rightarrow> e
   | Some st \<Rightarrow>
       (let silence = host_silence now e st
        in if forgetHostAfter < silence then forgetHost host e
           else fold (heartbeat_rule rd now host silence) (eg_rules e) e))"

text \<open>The range over the map of hosts visits them in some order.\<close>

definition CheckHeartbeats :: "render \<Rightarrow> time \<Rightarrow> string list \<Rightarrow> engine \<Rightarrow> engine" where
  "CheckHeartbeats rd now order e = fold (check_host rd now) order e"

section \<open>The identity of a detection\<close>

fun join_commas :: "string list \<Rightarrow> string" where
  "join_commas [] = []"
| "join_commas [w] = w"
| "join_commas (w # ws) = w @ '','' @ join_commas ws"

definition GroupKey :: "(string \<times> string) list \<Rightarrow> string" where
  "GroupKey g = join_commas (map (\<lambda>(k, v). k @ ''='' @ v) g)"

text \<open>\<open>sum8\<close> is the hexadecimal form of the first eight bytes of SHA-256, \<open>day\<close>
  the UTC date of a time.\<close>

definition Fingerprint :: "(string \<Rightarrow> string) \<Rightarrow> (time \<Rightarrow> string) \<Rightarrow> detection \<Rightarrow> string" where
  "Fingerprint sum8 day d =
     (if rl_issue_by (dt_rule d) = IssueByDay
      then ''detect:'' @ rl_id (dt_rule d) @ '':day:'' @ day (dt_at d)
      else ''detect:'' @ rl_id (dt_rule d) @ '':'' @ sum8 (GroupKey (dt_group d)))"

definition detection_title :: "(time \<Rightarrow> string) \<Rightarrow> detection \<Rightarrow> string" where
  "detection_title day d =
     (if dt_group d = [] then rl_name (dt_rule d)
      else if rl_issue_by (dt_rule d) = IssueByDay then rl_name (dt_rule d) @ '': '' @ day (dt_at d)
      else rl_name (dt_rule d) @ '': '' @ GroupKey (dt_group d))"

end
