(* ===== verification/DetectSecurity.thy ===== *)
theory DetectSecurity
  imports DetectEngine
begin

text \<open>
  Security detections against their specification.  \<open>spec_record\<close> keeps, for every group, the
  whole list of timestamps and the time of its last detection, and counts the timestamps in the
  newest thirty buckets; the engine keeps thirty slots per group in a bounded table.
  \<open>security_refines\<close> shows that the engine emits what the specification emits as long as
  the table does not overflow; \<open>security_cooldown\<close> is a consequence.
\<close>

section \<open>The records a batch counts\<close>

type_synonym sec_item = "rule \<times> sec_record \<times> time"

definition item_key :: "sec_item \<Rightarrow> string" where
  "item_key x = (case x of (r, rec, now) \<Rightarrow> group_key r rec)"

definition item_ts :: "sec_item \<Rightarrow> time" where
  "item_ts x = (case x of (r, rec, now) \<Rightarrow> record_ts rec now)"

definition count_item :: "sec_item \<Rightarrow> engine \<Rightarrow> engine option" where
  "count_item x e = (case x of (r, rec, now) \<Rightarrow> countRecord r rec now e)"

definition batch_items :: "rule list \<Rightarrow> time \<times> sec_record list \<Rightarrow> sec_item list" where
  "batch_items rules b = (case b of (now, recs) \<Rightarrow>
     concat (map (\<lambda>r. map (\<lambda>rec. (r, rec, now))
         (filter (\<lambda>rec. matchAll (rl_match r) rec \<and> \<not> excluded (rl_exclude r) rec) recs))
       (filter (\<lambda>r. rl_enabled r \<and> rl_track r = TrackSecurity) rules)))"

lemma fold_option_append:
  "fold_option f (xs @ ys) s = (case fold_option f xs s of None \<Rightarrow> None | Some s' \<Rightarrow> fold_option f ys s')"
  by (induction xs arbitrary: s) (auto split: option.splits)

lemma observe_records_items:
  "fold_option (observe_record now r) recs e =
   fold_option count_item (map (\<lambda>rec. (r, rec, now))
     (filter (\<lambda>rec. matchAll (rl_match r) rec \<and> \<not> excluded (rl_exclude r) rec) recs)) e"
  by (induction recs arbitrary: e) (auto simp: observe_record_def count_item_def split: option.splits)

lemma observe_rules_items:
  "fold_option (\<lambda>r e. if \<not> rl_enabled r \<or> rl_track r \<noteq> TrackSecurity then Some e
                       else fold_option (observe_record now r) recs e) rules e
   = fold_option count_item (batch_items rules (now, recs)) e"
proof (induction rules arbitrary: e)
  case (Cons r rules)
  have "batch_items (r # rules) (now, recs) =
      (if rl_enabled r \<and> rl_track r = TrackSecurity
       then map (\<lambda>rec. (r, rec, now))
         (filter (\<lambda>rec. matchAll (rl_match r) rec \<and> \<not> excluded (rl_exclude r) rec) recs) else [])
      @ batch_items rules (now, recs)"
    by (simp add: batch_items_def)
  then show ?case
    using Cons by (auto simp: fold_option_append observe_records_items split: option.splits)
qed (simp add: batch_items_def)

lemma ObserveSecurity_items:
  "ObserveSecurity now recs e = fold_option count_item (batch_items (eg_rules e) (now, recs)) e"
  by (simp only: ObserveSecurity_def observe_rules_items)

section \<open>The specification\<close>

type_synonym spec_state = "string \<Rightarrow> time list \<times> time"

definition recent_count :: "duration \<Rightarrow> time list \<Rightarrow> nat" where
  "recent_count w ts =
     (let b = ct_bucket (newCounter w) in length (filter (\<lambda>t. newest ts div b - 30 < t div b) ts))"

definition spec_record :: "sec_item \<Rightarrow> spec_state \<Rightarrow> spec_state \<times> (string \<times> detection) list" where
  "spec_record x S = (case x of (r, rec, now) \<Rightarrow>
     (let key = group_key r rec; ts = record_ts rec now;
          hist = fst (S key) @ [ts]; n = recent_count (rl_window r) hist
      in if rl_threshold r \<le> of_nat n \<and> cooledDown (snd (S key)) ts (rl_cooldown r)
         then (S(key := (hist, ts)), [(key, security_detection r rec ts n)])
         else (S(key := (hist, snd (S key))), [])))"

fun spec_run :: "sec_item list \<Rightarrow> spec_state \<Rightarrow> spec_state \<times> (string \<times> detection) list" where
  "spec_run [] S = (S, [])"
| "spec_run (x # xs) S =
     (case spec_record x S of (S1, d1) \<Rightarrow> case spec_run xs S1 of (S2, d2) \<Rightarrow> (S2, d1 @ d2))"

definition spec_init :: spec_state where "spec_init = (\<lambda>_. ([], zero_time))"

definition spec_detections :: "sec_item list \<Rightarrow> detection list" where
  "spec_detections xs = map snd (snd (spec_run xs spec_init))"

section \<open>Simulation\<close>

text \<open>The rule of a key, for rules whose identifiers are distinct and hold no NUL.\<close>

definition plain_ids :: "rule list \<Rightarrow> bool" where
  "plain_ids rules \<longleftrightarrow> distinct (map rl_id rules) \<and> list_all (\<lambda>r. CHR 0x00 \<notin> set (rl_id r)) rules"

definition rule_of :: "rule list \<Rightarrow> string \<Rightarrow> rule option" where
  "rule_of rules key = List.find (\<lambda>r. rl_id r = takeWhile (\<lambda>c. c \<noteq> CHR 0x00) key) rules"

lemma takeWhile_nul: "CHR 0x00 \<notin> set i \<Longrightarrow> takeWhile (\<lambda>c. c \<noteq> CHR 0x00) (i @ concat (map (\<lambda>f. CHR 0x00 # g f) xs)) = i"
  by (cases xs) (auto simp: takeWhile_append)

lemma rule_of_key:
  assumes "plain_ids rules" "r \<in> set rules"
  shows "rule_of rules (group_key r rec) = Some r"
proof -
  have "takeWhile (\<lambda>c. c \<noteq> CHR 0x00) (group_key r rec) = rl_id r"
    using assms unfolding group_key_def by (intro takeWhile_nul) (auto simp: plain_ids_def list.pred_set)
  moreover have "List.find (\<lambda>r'. rl_id r' = rl_id r) rules = Some r"
  proof -
    have "distinct (map rl_id rules)" using assms(1) by (simp add: plain_ids_def)
    then show ?thesis using assms(2) by (induction rules) (auto simp: image_iff)
  qed
  ultimately show ?thesis by (simp add: rule_of_def)
qed

definition entry_ok :: "rule list \<Rightarrow> string \<Rightarrow> time list \<times> time \<Rightarrow> counter \<Rightarrow> bool" where
  "entry_ok rules k s c \<longleftrightarrow> (\<exists>r. rule_of rules k = Some r \<and>
     counts_exactly (fst s) c \<and> ct_bucket c = ct_bucket (newCounter (rl_window r)) \<and>
     ct_head c = newest (fst s) div ct_bucket c \<and> ct_last_fired c = snd s)"

definition table_ok :: "rule list \<Rightarrow> string set \<Rightarrow> nat \<Rightarrow> spec_state \<Rightarrow> lru \<Rightarrow> bool" where
  "table_ok rules K n S l \<longleftrightarrow> lru_ok l \<and> set (lru_keys l) \<subseteq> K \<and> finite K \<and> card K \<le> lru_max l \<and>
     (\<forall>k. length (fst (S k)) \<le> n \<and>
        (case lru_find k l of None \<Rightarrow> S k = ([], zero_time) | Some c \<Rightarrow> entry_ok rules k (S k) c))"

lemma emit_groups [simp]:
  "eg_groups (emit d e) = eg_groups e" "emit d (e\<lparr>eg_groups := l\<rparr>) = (emit d e)\<lparr>eg_groups := l\<rparr>"
  "eg_rules (emit d e) = eg_rules e" "eg_cap (emit d e) = eg_cap e"
  by (simp_all add: emit_def)

lemma newCounter_fields [simp]: "ct_head (newCounter w) = 0" "ct_last_fired (newCounter w) = zero_time"
  by (simp_all add: newCounter_def Let_def)

lemma newest_snoc: "newest (ts @ [t]) = max (newest ts) t"
  by (simp add: newest_def)

lemma max_div: "0 < (b::int) \<Longrightarrow> max (m div b) (t div b) = max m t div b"
  by (auto simp: max_def zdiv_mono1 intro: antisym)

lemma entry_new: "rule_of rules k = Some r \<Longrightarrow> entry_ok rules k ([], zero_time) (newCounter (rl_window r))"
  by (simp add: entry_ok_def newCounter_exact newest_def)

lemma entry_add:
  assumes "entry_ok rules k (h, f) c" "rule_of rules k = Some r" "0 \<le> t" "t \<le> int64_max" "length h < 4294967295"
  obtains c' where "counter_add t c = Some (recent_count (rl_window r) (h @ [t]), c')"
    "entry_ok rules k (h @ [t], f) c'" "ct_last_fired c' = f"
proof -
  have c: "counts_exactly h c" "ct_bucket c = ct_bucket (newCounter (rl_window r))"
    "ct_head c = newest h div ct_bucket c" "ct_last_fired c = f"
    using assms(1,2) by (auto simp: entry_ok_def)
  have b: "0 < ct_bucket c" using c(1) by (simp add: counts_exactly_def)
  obtain c' where c': "counter_add t c = Some (counter_total c', c')" "counts_exactly (h @ [t]) c'"
    "ct_bucket c' = ct_bucket c" "ct_head c' = max (ct_head c) (t div ct_bucket c)"
    "ct_last_fired c' = ct_last_fired c"
    by (rule counter_add_exact [OF c(1) assms(3,4,5)])
  have h: "ct_head c' = newest (h @ [t]) div ct_bucket c'"
    using c' c(3) b by (simp add: newest_snoc max_div)
  then have "counter_total c' = recent_count (rl_window r) (h @ [t])"
    using counts_exactly_total [OF c'(2)] c'(3) c(2) by (simp add: recent_count_def Let_def)
  then show ?thesis using that [of c'] c' c(2,4) h assms(2) by (simp add: entry_ok_def)
qed

lemma counts_exactly_last [simp]: "counts_exactly ts (c\<lparr>ct_last_fired := g\<rparr>) = counts_exactly ts c"
  by (simp add: counts_exactly_def)

lemma entry_fired: "entry_ok rules k (h, f) c \<Longrightarrow> entry_ok rules k (h, g) (c\<lparr>ct_last_fired := g\<rparr>)"
  by (auto simp: entry_ok_def)

lemma room_for_key:
  assumes "table_ok rules K n S l" "k \<in> K"
  shows "k \<in> set (lru_keys l) \<or> length (lru_keys l) < lru_max l"
proof (cases "k \<in> set (lru_keys l)")
  case False
  then have "set (lru_keys l) \<subset> K" using assms by (auto simp: table_ok_def)
  then have "card (set (lru_keys l)) < card K" using assms by (auto simp: table_ok_def intro: psubset_card_mono)
  moreover have "card (set (lru_keys l)) = length (lru_keys l)"
    using assms by (auto simp: table_ok_def lru_ok_def distinct_card)
  ultimately show ?thesis using assms by (auto simp: table_ok_def)
qed simp

lemma table_update:
  assumes t: "table_ok rules K n S l" and k: "k \<in> K" and pos: "0 < lru_max l"
    and c: "entry_ok rules k s c" "length (fst s) \<le> Suc n"
  shows "table_ok rules K (Suc n) (S(k := s)) (lru_put k c (snd (lru_get k w l)))"
proof -
  let ?l = "lru_put k c (snd (lru_get k w l))"
  note room = room_for_key [OF t k]
  have ok: "lru_ok l" using t by (simp add: table_ok_def)
  have keys: "set (lru_keys ?l) \<subseteq> insert k (set (lru_keys l))"
    by (auto simp: lru_get_max_keys [OF pos ok] dest: in_set_takeD)
  have "lru_ok ?l" using lru_get_ok [OF pos ok] by (simp add: lru_ok_def)
  moreover have "length (fst ((S(k := s)) j)) \<le> Suc n \<and>
      (case lru_find j ?l of None \<Rightarrow> (S(k := s)) j = ([], zero_time) | Some d \<Rightarrow> entry_ok rules j ((S(k := s)) j) d)" for j
  proof -
    have "length (fst (S j)) \<le> n \<and>
        (case lru_find j l of None \<Rightarrow> S j = ([], zero_time) | Some d \<Rightarrow> entry_ok rules j (S j) d)"
      using t unfolding table_ok_def by blast
    then show ?thesis using c unfolding lru_find_get [OF room] by (cases "j = k") (auto split: option.splits)
  qed
  ultimately show ?thesis
    using t k keys unfolding table_ok_def by (auto simp: lru_get_keys(2))
qed

lemma count_item_step:
  assumes t: "table_ok rules K n S (eg_groups e)" and k: "item_key x \<in> K" and r: "fst x \<in> set rules"
    and ids: "plain_ids rules" and ts: "0 \<le> item_ts x" "item_ts x \<le> int64_max" and n: "n < 4294967295"
  obtains l where "count_item x e = Some ((fold emit (map snd (snd (spec_record x S))) e)\<lparr>eg_groups := l\<rparr>)"
    "table_ok rules K (Suc n) (fst (spec_record x S)) l" "lru_max l = lru_max (eg_groups e)"
proof -
  obtain r rec now where x: "x = (r, rec, now)" by (cases x)
  let ?k = "group_key r rec" and ?t = "record_ts rec now" and ?l = "eg_groups e"
  have ro: "rule_of rules ?k = Some r" using rule_of_key [OF ids] r x by simp
  have kK: "?k \<in> K" using k x by (simp add: item_key_def)
  have pos: "0 < lru_max ?l"
    using t kK unfolding table_ok_def by (metis card_gt_0_iff empty_iff less_le_trans)
  obtain h f where s: "S ?k = (h, f)" by (cases "S ?k")
  have h: "length h < 4294967295" using t n s unfolding table_ok_def by (metis fst_conv le_less_trans)
  let ?c = "fst (lru_get ?k (rl_window r) ?l)"
  have entry: "case lru_find ?k ?l of None \<Rightarrow> S ?k = ([], zero_time) | Some c \<Rightarrow> entry_ok rules ?k (S ?k) c"
    using t unfolding table_ok_def by blast
  have "entry_ok rules ?k (h, f) ?c"
  proof (cases "lru_find ?k ?l")
    case None
    then show ?thesis using entry s entry_new [OF ro] by (simp add: lru_get_fst)
  next
    case (Some c)
    then show ?thesis using entry s by (simp add: lru_get_fst)
  qed
  then obtain c' where c': "counter_add ?t ?c = Some (recent_count (rl_window r) (h @ [?t]), c')"
    "entry_ok rules ?k (h @ [?t], f) c'" "ct_last_fired c' = f"
    by (rule entry_add [OF _ ro]) (use ts x h in \<open>auto simp: item_ts_def\<close>)
  let ?fire = "rl_threshold r \<le> of_nat (recent_count (rl_window r) (h @ [?t])) \<and> cooledDown f ?t (rl_cooldown r)"
  let ?c'' = "if ?fire then c'\<lparr>ct_last_fired := ?t\<rparr> else c'"
  let ?l' = "lru_put ?k ?c'' (snd (lru_get ?k (rl_window r) ?l))"
  have s': "fst (spec_record x S) = S(?k := (h @ [?t], if ?fire then ?t else f))"
    "map snd (snd (spec_record x S)) =
      (if ?fire then [security_detection r rec ?t (recent_count (rl_window r) (h @ [?t]))] else [])"
    by (auto simp: spec_record_def x s Let_def)
  have "count_item x e = Some ((fold emit (map snd (snd (spec_record x S))) e)\<lparr>eg_groups := ?l'\<rparr>)"
    unfolding s' by (auto simp: count_item_def x countRecord_def Let_def case_prod_unfold c' not_less)
  moreover have "entry_ok rules ?k (h @ [?t], if ?fire then ?t else f) ?c''"
    using c'(2) entry_fired [OF c'(2)] by auto
  then have "table_ok rules K (Suc n) (fst (spec_record x S)) ?l'"
    unfolding s'(1) using t s by (intro table_update [OF t kK pos]) (auto simp: table_ok_def dest: spec [of _ ?k])
  moreover have "lru_max ?l' = lru_max ?l" by (simp add: lru_get_keys(2))
  ultimately show ?thesis using that by blast
qed

lemma emit_groups_fold [simp]:
  "eg_groups (fold emit ds e) = eg_groups e" "eg_rules (fold emit ds e) = eg_rules e"
  "fold emit ds (e\<lparr>eg_groups := l\<rparr>) = (fold emit ds e)\<lparr>eg_groups := l\<rparr>"
  by (induction ds arbitrary: e) simp_all

lemma fold_emit_queue:
  "eg_out (fold emit ds e) = eg_out e @ take (eg_cap e - length (eg_out e)) ds"
  "eg_dropped (fold emit ds e) = eg_dropped e + (length ds - (eg_cap e - length (eg_out e)))"
proof (induction ds arbitrary: e)
  case (Cons d ds)
  {
    case 1
    then show ?case using Cons(1) [of "emit d e"] by (auto simp: emit_def take_Cons')
  next
    case 2
    then show ?case using Cons(2) [of "emit d e"] by (auto simp: emit_def)
  }
qed simp_all

definition items_ok :: "rule list \<Rightarrow> string set \<Rightarrow> sec_item list \<Rightarrow> bool" where
  "items_ok rules K xs = list_all (\<lambda>x. item_key x \<in> K \<and> fst x \<in> set rules \<and> 0 \<le> item_ts x \<and> item_ts x \<le> int64_max) xs"

lemma count_items_run:
  assumes "table_ok rules K n S (eg_groups e)" "items_ok rules K xs" "plain_ids rules" "n + length xs \<le> 4294967295"
  shows "\<exists>l. fold_option count_item xs e = Some ((fold emit (map snd (snd (spec_run xs S))) e)\<lparr>eg_groups := l\<rparr>)"
  using assms
proof (induction xs arbitrary: n S e)
  case (Cons x xs)
  obtain l where l: "count_item x e = Some ((fold emit (map snd (snd (spec_record x S))) e)\<lparr>eg_groups := l\<rparr>)"
    "table_ok rules K (Suc n) (fst (spec_record x S)) l"
    by (rule count_item_step [OF Cons.prems(1)]) (use Cons.prems in \<open>auto simp: items_ok_def\<close>)
  let ?e = "(fold emit (map snd (snd (spec_record x S))) e)\<lparr>eg_groups := l\<rparr>"
  have "\<exists>l. fold_option count_item xs ?e =
      Some ((fold emit (map snd (snd (spec_run xs (fst (spec_record x S))))) ?e)\<lparr>eg_groups := l\<rparr>)"
    using Cons.prems l(2) by (intro Cons.IH [of "Suc n"]) (auto simp: items_ok_def)
  then show ?case using l(1) by (auto simp: case_prod_unfold)
next
  case Nil
  show ?case by (rule exI [of _ "eg_groups e"]) simp
qed

lemma batch_items_rules: "x \<in> set (batch_items rules b) \<Longrightarrow> fst x \<in> set rules"
  by (auto simp: batch_items_def split: prod.splits)

lemma count_item_rules: "count_item x e = Some e' \<Longrightarrow> eg_rules e' = eg_rules e"
  by (auto simp: count_item_def countRecord_def Let_def case_prod_unfold emit_def split: option.splits if_splits)

lemma count_items_rules: "fold_option count_item xs e = Some e' \<Longrightarrow> eg_rules e' = eg_rules e"
  by (induction xs arbitrary: e) (auto dest: count_item_rules split: option.splits)

definition observe_batches :: "(time \<times> sec_record list) list \<Rightarrow> engine \<Rightarrow> engine option" where
  "observe_batches bs e = fold_option (\<lambda>(now, recs). ObserveSecurity now recs) bs e"

lemma observe_batches_items:
  "observe_batches bs e = fold_option count_item (concat (map (batch_items (eg_rules e)) bs)) e"
proof (induction bs arbitrary: e)
  case (Cons b bs)
  obtain now recs where b: "b = (now, recs)" by (cases b)
  show ?case
    using Cons count_items_rules
    by (auto simp: observe_batches_def b ObserveSecurity_items fold_option_append split: option.splits)
qed (simp add: observe_batches_def)

definition counted :: "rule list \<Rightarrow> (time \<times> sec_record list) list \<Rightarrow> sec_item list" where
  "counted rules bs = concat (map (batch_items rules) bs)"

lemma table_ok_fresh:
  "finite K \<Longrightarrow> card K \<le> m \<Longrightarrow> table_ok rules K 0 spec_init (newLRU m)"
  by (auto simp: table_ok_def newLRU_def lru_ok_def lru_keys_def lru_find_def spec_init_def)

lemma observe_batches_run:
  assumes "plain_ids (eg_rules e)" "eg_groups e = newLRU m"
    and "card (item_key ` set (counted (eg_rules e) bs)) \<le> m"
    and "list_all (\<lambda>x. 0 \<le> item_ts x \<and> item_ts x \<le> int64_max) (counted (eg_rules e) bs)"
    and "length (counted (eg_rules e) bs) \<le> 4294967295"
  shows "\<exists>l. observe_batches bs e =
    Some ((fold emit (spec_detections (counted (eg_rules e) bs)) e)\<lparr>eg_groups := l\<rparr>)"
proof -
  let ?xs = "counted (eg_rules e) bs"
  let ?K = "item_key ` set ?xs"
  have "items_ok (eg_rules e) ?K ?xs"
    using assms(4) by (auto simp: items_ok_def list.pred_set counted_def intro: batch_items_rules)
  moreover have "table_ok (eg_rules e) ?K 0 spec_init (eg_groups e)"
    unfolding assms(2) by (rule table_ok_fresh [OF _ assms(3)]) simp
  ultimately show ?thesis
    using count_items_run assms(1,5)
    unfolding observe_batches_items counted_def [symmetric] spec_detections_def by fastforce
qed

text \<open>C11: from a fresh table on, whatever batches of records arrive, in whatever order and with
  whatever clock skew, the engine emits exactly the detections of the specification, which keeps the
  full history of every group, as long as there are at most \<open>m\<close> distinct groups; those that
  do not fit in the channel are counted as dropped.
\<close>

theorem security_refines:
  assumes "plain_ids (eg_rules e)" "eg_groups e = newLRU m"
    and "card (item_key ` set (counted (eg_rules e) bs)) \<le> m"
    and "list_all (\<lambda>x. 0 \<le> item_ts x \<and> item_ts x \<le> int64_max) (counted (eg_rules e) bs)"
    and "length (counted (eg_rules e) bs) \<le> 4294967295"
  shows "\<exists>e'. observe_batches bs e = Some e' \<and>
    (let ds = spec_detections (counted (eg_rules e) bs); room = eg_cap e - length (eg_out e)
     in eg_out e' = eg_out e @ take room ds \<and> eg_dropped e' = eg_dropped e + (length ds - room))"
proof -
  obtain l where "observe_batches bs e =
      Some ((fold emit (spec_detections (counted (eg_rules e) bs)) e)\<lparr>eg_groups := l\<rparr>)"
    using observe_batches_run [OF assms] by blast
  then show ?thesis by (simp add: Let_def fold_emit_queue)
qed

section \<open>Cooldown\<close>

definition detection_key :: "detection \<Rightarrow> string" where
  "detection_key d = rl_id (dt_rule d) @ concat (map (\<lambda>(f, v). CHR 0x00 # v) (dt_group d))"

lemma security_detection_key: "detection_key (security_detection r rec ts n) = group_key r rec"
  by (simp add: detection_key_def security_detection_def group_of_def group_key_def o_def)

definition spaced :: "detection \<Rightarrow> detection \<Rightarrow> bool" where
  "spaced d d' \<longleftrightarrow> (detection_key d = detection_key d' \<longrightarrow> rl_cooldown (dt_rule d') \<le> dt_at d' - dt_at d)"

definition last_valid :: "spec_state \<Rightarrow> bool" where
  "last_valid S \<longleftrightarrow> (\<forall>k. snd (S k) = zero_time \<or> (0 \<le> snd (S k) \<and> snd (S k) \<le> int64_max))"

lemma cooledDown_valid:
  "0 \<le> t \<Longrightarrow> t \<le> int64_max \<Longrightarrow> u = zero_time \<or> (0 \<le> u \<and> u \<le> int64_max) \<Longrightarrow>
   cooledDown u t cd \<longleftrightarrow> u = zero_time \<or> cd \<le> t - u"
  by (auto simp: cooledDown_def time_sub_def machine_simps)

lemma spec_run_spaced:
  assumes "list_all (\<lambda>x. 0 \<le> item_ts x \<and> item_ts x \<le> int64_max \<and> 0 \<le> rl_cooldown (fst x)) xs" "last_valid S"
  shows "sorted_wrt spaced (map snd (snd (spec_run xs S))) \<and>
    (\<forall>(k, d)\<in>set (snd (spec_run xs S)). detection_key d = k \<and>
       (snd (S k) = zero_time \<or> rl_cooldown (dt_rule d) \<le> dt_at d - snd (S k)))"
  using assms
proof (induction xs arbitrary: S)
  case (Cons x xs)
  obtain r rec now where x: "x = (r, rec, now)" by (cases x)
  let ?k = "group_key r rec" and ?t = "record_ts rec now"
  let ?n = "recent_count (rl_window r) (fst (S ?k) @ [?t])"
  let ?d = "security_detection r rec ?t ?n"
  obtain fire where fire: "fire = (rl_threshold r \<le> of_nat ?n \<and> cooledDown (snd (S ?k)) ?t (rl_cooldown r))"
    by blast
  obtain S1 where S1: "S1 = S(?k := (fst (S ?k) @ [?t], if fire then ?t else snd (S ?k)))" by blast
  have t: "0 \<le> ?t" "?t \<le> int64_max" "0 \<le> rl_cooldown r" using Cons.prems(1) x by (auto simp: item_ts_def)
  have cool: "fire \<Longrightarrow> snd (S ?k) = zero_time \<or> rl_cooldown r \<le> ?t - snd (S ?k)"
    using Cons.prems(2) cooledDown_valid [OF t(1,2), of "snd (S ?k)"] by (auto simp: last_valid_def fire)
  have step: "spec_record x S = (S1, if fire then [(?k, ?d)] else [])"
    by (simp add: spec_record_def x Let_def S1 fire)
  have "last_valid S1" using Cons.prems(2) t by (simp add: last_valid_def S1)
  then have IH: "sorted_wrt spaced (map snd (snd (spec_run xs S1)))"
    "\<And>k d. (k, d) \<in> set (snd (spec_run xs S1)) \<Longrightarrow> detection_key d = k \<and>
       (snd (S1 k) = zero_time \<or> rl_cooldown (dt_rule d) \<le> dt_at d - snd (S1 k))"
    using Cons.IH [of S1] Cons.prems(1) by auto
  have out: "snd (spec_run (x # xs) S) = (if fire then [(?k, ?d)] else []) @ snd (spec_run xs S1)"
    by (simp add: step split: prod.splits)
  have tz: "?t \<noteq> zero_time" using t(1) by (simp add: zero_time_def)
  have d: "detection_key ?d = ?k" "dt_at ?d = ?t" "dt_rule ?d = r"
    by (rule security_detection_key) (simp_all add: security_detection_def)
  have "detection_key d = k \<and> (snd (S k) = zero_time \<or> rl_cooldown (dt_rule d) \<le> dt_at d - snd (S k))"
    if "(k, d) \<in> set (snd (spec_run xs S1))" for k d
  proof -
    have s1: "snd (S1 k) = (if k = ?k \<and> fire then ?t else snd (S k))" by (simp add: S1)
    show ?thesis using IH(2) [OF that] cool tz t(3) unfolding s1 by (auto split: if_splits)
  qed
  moreover have "spaced ?d d" if "(k, d) \<in> set (snd (spec_run xs S1))" fire for k d
  proof -
    have "k = ?k \<Longrightarrow> snd (S1 k) = ?t" using that(2) by (simp add: S1)
    then show ?thesis
      using IH(2) [OF that(1)] tz unfolding spaced_def d(1,2) by auto
  qed
  ultimately show ?case
    unfolding out using IH(1) cool by (auto simp: d)
qed simp

lemma spec_detections_spaced:
  assumes "list_all (\<lambda>x. 0 \<le> item_ts x \<and> item_ts x \<le> int64_max \<and> 0 \<le> rl_cooldown (fst x)) xs"
  shows "sorted_wrt spaced (spec_detections xs)"
  using spec_run_spaced [OF assms, of spec_init]
  by (simp add: spec_detections_def last_valid_def spec_init_def)

text \<open>two detections of the same rule and group are never closer than the rule's cooldown,
  by the times of the records that caused them, and late records cause none: the condition under which
  it holds is that the table of groups does not overflow.
\<close>

theorem security_cooldown:
  assumes "plain_ids (eg_rules e)" "eg_groups e = newLRU m" "eg_out e = []"
    and "card (item_key ` set (counted (eg_rules e) bs)) \<le> m"
    and "list_all (\<lambda>x. 0 \<le> item_ts x \<and> item_ts x \<le> int64_max) (counted (eg_rules e) bs)"
    and "length (counted (eg_rules e) bs) \<le> 4294967295"
    and "list_all (\<lambda>r. 0 \<le> rl_cooldown r) (eg_rules e)"
  shows "\<exists>e'. observe_batches bs e = Some e' \<and> sorted_wrt spaced (eg_out e')"
proof -
  let ?xs = "counted (eg_rules e) bs"
  obtain l where l: "observe_batches bs e = Some ((fold emit (spec_detections ?xs) e)\<lparr>eg_groups := l\<rparr>)"
    using observe_batches_run [OF assms(1,2,4,5,6)] by blast
  have "list_all (\<lambda>x. 0 \<le> item_ts x \<and> item_ts x \<le> int64_max \<and> 0 \<le> rl_cooldown (fst x)) ?xs"
    using assms(5,7) by (auto simp: list.pred_set counted_def dest!: batch_items_rules)
  from spec_detections_spaced [OF this] have "sorted_wrt spaced (take n (spec_detections ?xs))" for n
    by (rule sorted_wrt_take)
  then show ?thesis using l assms(3) by (simp add: fold_emit_queue)
qed

section \<open>A concrete run\<close>

definition ssh_rule :: rule where
  "ssh_rule = bruteforce_rule\<lparr>rl_threshold := 2\<rparr>"

definition ssh_failure :: "time \<Rightarrow> string \<Rightarrow> sec_record" where
  "ssh_failure t ip = \<lparr>sr_ts = t, sr_source = ''sshd'', sr_host = ''web'', sr_request_host = [],
     sr_kind = ''auth_failure'', sr_src_ip = ip, sr_user = ''root'', sr_action = [], sr_status = 0,
     sr_method = [], sr_path = [], sr_message = []\<rparr>"

definition ssh_batches :: "(time \<times> sec_record list) list" where
  "ssh_batches = [(100 * seconds, [ssh_failure (90 * seconds) ''a'', ssh_failure (95 * seconds) ''b'']),
     (101 * seconds, [ssh_failure (91 * seconds) ''a'', ssh_failure (300 * seconds) ''a''])]"

definition ssh_engine :: engine where
  "ssh_engine = NewEngine [ssh_rule] 8 0"

lemma ssh_engine_facts:
  "eg_rules ssh_engine = [ssh_rule]" "eg_groups ssh_engine = newLRU MaxGroups" "eg_out ssh_engine = []"
  "eg_cap ssh_engine = 8" "eg_dropped ssh_engine = 0"
  by (simp_all add: ssh_engine_def NewEngine_def)

lemma ssh_plain: "plain_ids [ssh_rule] \<and> list_all (\<lambda>r. 0 \<le> rl_cooldown r) [ssh_rule]"
  by code_simp

lemma ssh_counted:
  "map (\<lambda>x. (item_key x, item_ts x)) (counted [ssh_rule] ssh_batches) =
     [(''ssh-bruteforce'' @ [CHR 0x00] @ ''a'', 90 * seconds), (''ssh-bruteforce'' @ [CHR 0x00] @ ''b'', 95 * seconds),
      (''ssh-bruteforce'' @ [CHR 0x00] @ ''a'', 91 * seconds), (''ssh-bruteforce'' @ [CHR 0x00] @ ''a'', 101 * seconds)]"
  by code_simp

lemma ssh_items:
  "length (counted [ssh_rule] ssh_batches) = 4"
  "list_all (\<lambda>x. 0 \<le> item_ts x \<and> item_ts x \<le> int64_max) (counted [ssh_rule] ssh_batches)"
  "item_key ` set (counted [ssh_rule] ssh_batches)
     = {''ssh-bruteforce'' @ [CHR 0x00] @ ''a'', ''ssh-bruteforce'' @ [CHR 0x00] @ ''b''}"
proof -
  let ?xs = "counted [ssh_rule] ssh_batches"
  note m = ssh_counted
  show "length ?xs = 4" using arg_cong [OF m, of length] by simp
  have t: "map item_ts ?xs = [90 * seconds, 95 * seconds, 91 * seconds, 101 * seconds]"
    using arg_cong [OF m, of "map snd"] by (simp add: o_def)
  have "list_all (\<lambda>t. 0 \<le> t \<and> t \<le> int64_max) (map item_ts ?xs)" unfolding t by simp
  then show "list_all (\<lambda>x. 0 \<le> item_ts x \<and> item_ts x \<le> int64_max) ?xs" by (simp add: list.pred_map o_def)
  have "set (map item_key ?xs) = {''ssh-bruteforce'' @ [CHR 0x00] @ ''a'', ''ssh-bruteforce'' @ [CHR 0x00] @ ''b''}"
    using arg_cong [OF m, of "\<lambda>l. set (map fst l)"] by (auto simp: o_def)
  then show "item_key ` set ?xs
     = {''ssh-bruteforce'' @ [CHR 0x00] @ ''a'', ''ssh-bruteforce'' @ [CHR 0x00] @ ''b''}" by simp
qed

lemma ssh_detections:
  "map (\<lambda>d. (dt_group d, dt_at d, dt_count d)) (spec_detections (counted [ssh_rule] ssh_batches)) =
     [([(''src_ip'', ''a'')], 91 * seconds, 2)]"
  by code_simp

theorem security_refines_witness:
  "\<exists>e'. observe_batches ssh_batches ssh_engine = Some e' \<and> length (eg_out e') = 1 \<and> eg_dropped e' = 0"
proof -
  have n: "length (spec_detections (counted [ssh_rule] ssh_batches)) = 1"
    using arg_cong [OF ssh_detections, of length] by simp
  show ?thesis
    using security_refines [of ssh_engine MaxGroups ssh_batches] ssh_plain n
    by (auto simp: ssh_engine_facts ssh_items MaxGroups_def Let_def)
qed

theorem security_cooldown_witness:
  "\<exists>e'. observe_batches ssh_batches ssh_engine = Some e' \<and> sorted_wrt spaced (eg_out e')"
  using security_cooldown [of ssh_engine MaxGroups ssh_batches] ssh_plain
  by (simp add: ssh_engine_facts ssh_items MaxGroups_def)

end
