(* ===== verification/DetectHosts.thy ===== *)
theory DetectHosts
  imports DetectSecurity
begin

text \<open>
  Heartbeats and metric rules of the detection engine, over arbitrary interleavings of its
  methods: a silent host is reported once per silence (\<open>heartbeat_once\<close>), a window at least as
  long as the time after which hosts are forgotten never fires (\<open>long_window_never_fires\<close>), a
  metric rule fires exactly when the latest unbroken run of samples beyond the limit has lasted long
  enough (\<open>metric_fires_iff\<close>).  The last section is the emitter's retry loop.
\<close>

section \<open>The engine as a machine\<close>

datatype engine_op =
    OpSecurity time "sec_record list"
  | OpMetrics "sample list" "host_info list"
  | OpHeartbeat time "string list"
  | OpSetRules "rule list"
  | OpSeed time "host_info list"
  | OpReceive

text \<open>The state and what the emitter has received so far.\<close>

fun engine_step :: "render \<Rightarrow> engine_op \<Rightarrow> engine \<times> detection list \<Rightarrow> (engine \<times> detection list) option" where
  "engine_step rd (OpSecurity now recs) (e, got) = map_option (\<lambda>e'. (e', got)) (ObserveSecurity now recs e)"
| "engine_step rd (OpMetrics samples hosts) (e, got) = Some (ObserveMetrics rd samples hosts e, got)"
| "engine_step rd (OpHeartbeat now order) (e, got) = Some (CheckHeartbeats rd now order e, got)"
| "engine_step rd (OpSetRules rules) (e, got) = Some (SetRules rules e, got)"
| "engine_step rd (OpSeed now hosts) (e, got) = Some (SeedHosts now hosts e, got)"
| "engine_step rd OpReceive (e, got) =
     Some (case eg_out e of [] \<Rightarrow> (e, got) | d # ds \<Rightarrow> (e\<lparr>eg_out := ds\<rparr>, got @ [d]))"

definition engine_run :: "render \<Rightarrow> engine_op list \<Rightarrow> engine \<times> detection list \<Rightarrow> (engine \<times> detection list) option" where
  "engine_run rd ops s = fold_option (engine_step rd) ops s"

section \<open>One report per silence\<close>

definition is_beat :: "string \<Rightarrow> string \<Rightarrow> detection \<Rightarrow> bool" where
  "is_beat i h d \<longleftrightarrow> rl_track (dt_rule d) = TrackHeartbeat \<and> rl_id (dt_rule d) = i \<and> dt_group d = [(''host'', h)]"

definition beats :: "string \<Rightarrow> string \<Rightarrow> detection list \<Rightarrow> nat" where
  "beats i h ds = length (filter (is_beat i h) ds)"

text \<open>Whether the engine may still report the host, and how often the host spoke.\<close>

definition armed :: "string \<Rightarrow> string \<Rightarrow> engine \<Rightarrow> nat" where
  "armed i h e = (case eg_hosts e h of None \<Rightarrow> 0 | Some st \<Rightarrow> if i \<in> hs_silent st then 0 else 1)"

definition reports_in :: "string \<Rightarrow> host_info list \<Rightarrow> nat" where
  "reports_in h hs = length (filter (\<lambda>x. hi_host x = h) hs)"

fun op_reports :: "string \<Rightarrow> engine_op \<Rightarrow> nat" where
  "op_reports h (OpMetrics _ hosts) = reports_in h hosts"
| "op_reports h (OpSeed _ hosts) = reports_in h hosts"
| "op_reports h _ = 0"

definition potential :: "string \<Rightarrow> string \<Rightarrow> engine \<Rightarrow> nat" where
  "potential i h e = beats i h (eg_out e) + armed i h e"

lemma beats_append [simp]: "beats i h (xs @ ys) = beats i h xs + beats i h ys"
  by (simp add: beats_def)

lemma beats_simps [simp]: "beats i h [] = 0" "beats i h (d # ds) = (if is_beat i h d then Suc (beats i h ds) else beats i h ds)"
  by (simp_all add: beats_def)

lemma emit_potential: "potential i h (emit d e) \<le> potential i h e + (if is_beat i h d then 1 else 0)"
  by (simp add: potential_def emit_def armed_def)

lemma emit_hosts [simp]: "eg_hosts (emit d e) = eg_hosts e" "armed i h (emit d e) = armed i h e"
  by (simp_all add: emit_def armed_def)

lemma potential_groups [simp]: "potential i h (e\<lparr>eg_groups := l\<rparr>) = potential i h e"
  "potential i h (e\<lparr>eg_series := m\<rparr>) = potential i h e" "potential i h (e\<lparr>eg_rules := rs\<rparr>) = potential i h e"
  by (simp_all add: potential_def armed_def)

lemma countRecord_potential:
  "rl_track r = TrackSecurity \<Longrightarrow> countRecord r rec now e = Some e' \<Longrightarrow> potential i h e' \<le> potential i h e"
  using emit_potential [of i h "security_detection r rec (record_ts rec now) n" e for n]
  by (auto simp: countRecord_def Let_def case_prod_unfold is_beat_def security_detection_def
      TrackHeartbeat_def TrackSecurity_def split: option.splits if_splits)

lemma fold_option_potential:
  "(\<And>x e e'. x \<in> set xs \<Longrightarrow> f x e = Some e' \<Longrightarrow> potential i h e' \<le> potential i h e) \<Longrightarrow>
   fold_option f xs e = Some e' \<Longrightarrow> potential i h e' \<le> potential i h e"
proof (induction xs arbitrary: e)
  case (Cons x xs)
  obtain e1 where e1: "f x e = Some e1" "fold_option f xs e1 = Some e'"
    using Cons.prems(2) by (auto split: option.splits)
  have "potential i h e' \<le> potential i h e1"
    using Cons.prems(1) by (intro Cons.IH e1(2)) auto
  also have "\<dots> \<le> potential i h e" using Cons.prems(1) e1(1) by auto
  finally show ?case .
qed simp

lemma observe_record_potential:
  "rl_track r = TrackSecurity \<Longrightarrow> observe_record now r rec e = Some e' \<Longrightarrow> potential i h e' \<le> potential i h e"
  by (auto simp: observe_record_def countRecord_potential split: if_splits)

lemma ObserveSecurity_potential:
  "ObserveSecurity now recs e = Some e' \<Longrightarrow> potential i h e' \<le> potential i h e"
  unfolding ObserveSecurity_def
proof (erule fold_option_potential [rotated])
  fix r e e'
  assume "(if \<not> rl_enabled r \<or> rl_track r \<noteq> TrackSecurity then Some e
      else fold_option (observe_record now r) recs e) = Some e'"
  then show "potential i h e' \<le> potential i h e"
    by (auto split: if_splits intro: fold_option_potential observe_record_potential)
qed

lemma touchHost_potential:
  "potential i h (touchHost x e) \<le> potential i h e + (if hi_host x = h then 1 else 0)"
  by (auto simp: touchHost_def potential_def armed_def Let_def split: option.splits)

lemma touchHosts_potential: "potential i h (fold touchHost xs e) \<le> potential i h e + reports_in h xs"
proof (induction xs arbitrary: e)
  case (Cons x xs)
  have "potential i h (fold touchHost (x # xs) e) \<le> potential i h (touchHost x e) + reports_in h xs"
    using Cons by simp
  also have "\<dots> \<le> potential i h e + reports_in h (x # xs)"
    using touchHost_potential [of i h x e] by (auto simp: reports_in_def)
  finally show ?case .
qed (simp add: reports_in_def)

lemma evalSample_potential: "rl_track r = TrackMetrics \<Longrightarrow> potential i h (evalSample rd r s e) \<le> potential i h e"
proof -
  assume "rl_track r = TrackMetrics"
  then have "\<not> is_beat i h (metric_detection rd r s l u)" for l u
    by (simp add: is_beat_def metric_detection_def TrackHeartbeat_def TrackMetrics_def)
  then show ?thesis
    using emit_potential [of i h "metric_detection rd r s l u" "e\<lparr>eg_series := m\<rparr>" for l u m]
    by (auto simp: evalSample_def Let_def split: option.splits)
qed

lemma fold_potential:
  "(\<And>x e. x \<in> set xs \<Longrightarrow> potential i h (f x e) \<le> potential i h e) \<Longrightarrow> potential i h (fold f xs e) \<le> potential i h e"
  by (induction xs arbitrary: e) (auto intro: order_trans)

lemma ObserveMetrics_potential:
  "potential i h (ObserveMetrics rd samples hosts e) \<le> potential i h e + reports_in h hosts"
proof -
  have "potential i h (ObserveMetrics rd samples hosts e) \<le> potential i h (fold touchHost hosts e)"
  proof -
    have "potential i h (fold (\<lambda>s e. if matchesMetric r (sm_metric s) \<and> matchesHost r (sm_host s)
        then evalSample rd r s e else e) samples e') \<le> potential i h e'" if "rl_track r = TrackMetrics" for r e'
      using that by (intro fold_potential) (auto intro: evalSample_potential)
    then show ?thesis unfolding ObserveMetrics_def Let_def by (intro fold_potential) auto
  qed
  then show ?thesis using touchHosts_potential [of i h hosts e] by simp
qed

lemma heartbeat_rule_potential:
  "potential i h (heartbeat_rule rd now host silence r e) \<le> potential i h e"
proof (cases "eg_hosts e host")
  case (Some st)
  let ?d = "heartbeat_detection rd r host now silence (hs_last_seen st)"
  let ?e = "e\<lparr>eg_hosts := (eg_hosts e)(host \<mapsto> st\<lparr>hs_silent := insert (rl_id r) (hs_silent st)\<rparr>)\<rparr>"
  show ?thesis
  proof (cases "heartbeat_due r host silence st")
    case True
    have "rl_id r \<notin> hs_silent st" using True by (simp add: heartbeat_due_def)
    then have "potential i h ?e + (if is_beat i h ?d then 1 else 0) \<le> potential i h e"
      using Some by (auto simp: potential_def armed_def is_beat_def heartbeat_detection_def)
    then show ?thesis
      using Some True emit_potential [of i h ?d ?e] by (auto simp: heartbeat_rule_def)
  next
    case False
    then show ?thesis using Some by (simp add: heartbeat_rule_def)
  qed
qed (simp add: heartbeat_rule_def)

lemma forgetHost_potential: "potential i h (forgetHost host e) \<le> potential i h e"
  by (simp add: forgetHost_def potential_def armed_def)

lemma check_host_potential: "potential i h (check_host rd now host e) \<le> potential i h e"
proof (cases "eg_hosts e host")
  case (Some st)
  have "potential i h (fold (heartbeat_rule rd now host s) rs e) \<le> potential i h e" for s rs
    by (intro fold_potential heartbeat_rule_potential)
  then show ?thesis using Some forgetHost_potential by (simp add: check_host_def Let_def)
qed (simp add: check_host_def)

lemma CheckHeartbeats_potential: "potential i h (CheckHeartbeats rd now order e) \<le> potential i h e"
  unfolding CheckHeartbeats_def by (intro fold_potential check_host_potential)

lemma SeedHosts_potential: "potential i h (SeedHosts now hosts e) \<le> potential i h e + reports_in h hosts"
proof -
  let ?mark = "\<lambda>x e1. case eg_hosts e1 (hi_host x) of
             None \<Rightarrow> e1
           | Some st \<Rightarrow>
               if time_sub now (hs_last_seen st) \<le> seedAlreadySilent then e1
               else e1\<lparr>eg_hosts := (eg_hosts e1)(hi_host x \<mapsto> st\<lparr>hs_silent :=
                      hs_silent st \<union> rl_id ` {r \<in> set (eg_rules e1). rl_track r = TrackHeartbeat}\<rparr>)\<rparr>"
  have mark: "potential i h (?mark x e1) \<le> potential i h e1" for x e1
    by (auto simp: potential_def armed_def split: option.splits)
  have "potential i h (fold (\<lambda>x e. ?mark x (touchHost x e)) hosts e) \<le> potential i h e + reports_in h hosts"
  proof (induction hosts arbitrary: e)
    case (Cons x xs)
    have "potential i h (?mark x (touchHost x e)) \<le> potential i h e + (if hi_host x = h then 1 else 0)"
      using mark touchHost_potential by (rule order_trans)
    then show ?case using Cons [of "?mark x (touchHost x e)"] by (auto simp: reports_in_def)
  qed (simp add: reports_in_def)
  then show ?thesis by (simp only: SeedHosts_def Let_def)
qed

lemma engine_step_potential:
  assumes "engine_step rd op (e, got) = Some (e', got')"
  shows "beats i h got' + potential i h e' \<le> beats i h got + potential i h e + op_reports h op"
proof (cases op)
  case (OpSecurity now recs)
  then show ?thesis using assms ObserveSecurity_potential by auto
next
  case (OpMetrics samples hosts)
  then show ?thesis using assms ObserveMetrics_potential [of i h rd samples hosts e] by auto
next
  case (OpHeartbeat now order)
  then show ?thesis using assms CheckHeartbeats_potential [of i h rd now order e] by auto
next
  case (OpSetRules rules)
  then show ?thesis using assms by (auto simp: SetRules_def potential_def armed_def)
next
  case (OpSeed now hosts)
  then show ?thesis using assms SeedHosts_potential [of i h now hosts e] by auto
next
  case OpReceive
  then show ?thesis using assms by (auto simp: potential_def armed_def split: list.splits)
qed

definition run_reports :: "string \<Rightarrow> engine_op list \<Rightarrow> nat" where
  "run_reports h ops = sum_list (map (op_reports h) ops)"

lemma engine_run_potential:
  "engine_run rd ops (e, got) = Some (e', got') \<Longrightarrow>
   beats i h got' + potential i h e' \<le> beats i h got + potential i h e + run_reports h ops"
proof (induction ops arbitrary: e got)
  case (Cons op ops)
  obtain e1 got1 where s: "engine_step rd op (e, got) = Some (e1, got1)"
    "engine_run rd ops (e1, got1) = Some (e', got')"
    using Cons.prems by (auto simp: engine_run_def split: option.splits)
  show ?case
    using engine_step_potential [OF s(1), of i h] Cons.IH [OF s(2)] by (simp add: run_reports_def)
qed (simp add: engine_run_def run_reports_def)

text \<open>C34: a silence is reported once.  Over any interleaving of batches, checks, rule changes,
  seeds and the emitter, a heartbeat rule reports a host at most once more than the host spoke in
  between, and not at all once it is marked silent and stays so.
\<close>

theorem heartbeat_once:
  assumes "engine_run rd ops (e, got) = Some (e', got')"
  shows "beats i h (got' @ eg_out e') \<le> beats i h (got @ eg_out e) + armed i h e + run_reports h ops"
  using engine_run_potential [OF assms, of i h] by (simp add: potential_def)

definition silent_rule :: rule where
  "silent_rule = bruteforce_rule\<lparr>rl_id := ''host-silent'', rl_track := ''heartbeat'', rl_match := [], rl_group_by := [],
     rl_issue_by := [], rl_window := 10 * minutes\<rparr>"

definition plain_render :: render where
  "plain_render = \<lparr>rd_float = id, rd_seconds = (\<lambda>d. of_int d), rd_metric = (\<lambda>_ _ _. []), rd_silence = (\<lambda>_ _ _. [])\<rparr>"

definition silent_ops :: "engine_op list" where
  "silent_ops = [OpMetrics [] [\<lparr>hi_host = ''web'', hi_cores = 4, hi_last_seen = 60 * minutes\<rparr>],
     OpHeartbeat (80 * minutes) [''web''], OpHeartbeat (90 * minutes) [''web''], OpReceive,
     OpHeartbeat (100 * minutes) [''web'']]"

lemma silent_run:
  "map_option (\<lambda>(e, got). (map (\<lambda>d. (rl_id (dt_rule d), dt_group d, dt_at d)) got, eg_out e))
     (engine_run plain_render silent_ops (NewEngine [silent_rule] 8 0, []))
   = Some ([(''host-silent'', [(''host'', ''web'')], 80 * minutes)], [])"
  by (simp add: engine_run_def silent_ops_def ObserveMetrics_def touchHost_def CheckHeartbeats_def check_host_def
      host_silence_def heartbeat_rule_def heartbeat_due_def heartbeat_detection_def emit_def NewEngine_def
      silent_rule_def bruteforce_rule_def TrackHeartbeat_def TrackMetrics_def time_sub_def clamp64_def
      forgetHostAfter_def matchesHost_def zero_time_def Let_def)

theorem heartbeat_once_witness:
  "\<exists>e' got'. engine_run plain_render silent_ops (NewEngine [silent_rule] 8 0, []) = Some (e', got') \<and>
     length got' = 1 \<and> beats ''host-silent'' ''web'' (got' @ eg_out e') \<le> 1"
proof -
  obtain e' got' where r: "engine_run plain_render silent_ops (NewEngine [silent_rule] 8 0, []) = Some (e', got')"
    "map (\<lambda>d. (rl_id (dt_rule d), dt_group d, dt_at d)) got' = [(''host-silent'', [(''host'', ''web'')], 80 * minutes)]"
    using silent_run by auto
  have "length got' = 1" using arg_cong [OF r(2), of length] by simp
  then show ?thesis
    using heartbeat_once [OF r(1), of "''host-silent''" "''web''"] r(1)
    by (auto simp: NewEngine_def armed_def run_reports_def silent_ops_def reports_in_def)
qed

section \<open>Windows longer than the engine remembers\<close>

lemma heartbeat_rule_out:
  "eg_out (heartbeat_rule rd now host silence r e) = eg_out e \<or>
   (\<exists>d. eg_out (heartbeat_rule rd now host silence r e) = eg_out e @ [d] \<and> dt_rule d = r \<and> rl_window r < silence)"
  by (auto simp: heartbeat_rule_def emit_def heartbeat_detection_def heartbeat_due_def split: option.splits)

lemma heartbeat_rules_out:
  "silence \<le> forgetHostAfter \<Longrightarrow> forgetHostAfter \<le> rl_window r \<Longrightarrow>
   filter (\<lambda>d. dt_rule d = r) (eg_out (fold (heartbeat_rule rd now host silence) rs e)) = filter (\<lambda>d. dt_rule d = r) (eg_out e)"
proof (induction rs arbitrary: e)
  case (Cons x rs)
  have "filter (\<lambda>d. dt_rule d = r) (eg_out (heartbeat_rule rd now host silence x e)) = filter (\<lambda>d. dt_rule d = r) (eg_out e)"
    using heartbeat_rule_out [of rd now host silence x e] Cons.prems by auto
  then show ?case using Cons by simp
qed simp

text \<open>a heartbeat rule whose window is seven days or more never fires, for any host and at
  any time: the check forgets a host before its silence can exceed the window, although the rule passes
  validation.
\<close>

theorem long_window_never_fires:
  assumes "forgetHostAfter \<le> rl_window r"
  shows "filter (\<lambda>d. dt_rule d = r) (eg_out (CheckHeartbeats rd now order e)) = filter (\<lambda>d. dt_rule d = r) (eg_out e)"
  unfolding CheckHeartbeats_def
proof (induction order arbitrary: e)
  case (Cons host order)
  have "filter (\<lambda>d. dt_rule d = r) (eg_out (check_host rd now host e)) = filter (\<lambda>d. dt_rule d = r) (eg_out e)"
    using heartbeat_rules_out [OF _ assms]
    by (simp add: check_host_def Let_def forgetHost_def not_less split: option.splits)
  then show ?case using Cons by simp
qed simp

definition weekly_rule :: rule where
  "weekly_rule = silent_rule\<lparr>rl_window := 168 * hours\<rparr>"

definition weekly_engine :: engine where
  "weekly_engine = (NewEngine [weekly_rule] 8 0)\<lparr>eg_hosts := [''web'' \<mapsto>
     \<lparr>hs_cores = 4, hs_last_seen = hours, hs_silent = {}\<rparr>]\<rparr>"

theorem long_window_never_fires_witness:
  "validate_rule weekly_rule = None \<and>
   filter (\<lambda>d. dt_rule d = weekly_rule) (eg_out (CheckHeartbeats plain_render (170 * hours) [''web''] weekly_engine)) = []"
proof
  show "validate_rule weekly_rule = None" by code_simp
  have "forgetHostAfter \<le> rl_window weekly_rule"
    by (simp add: weekly_rule_def silent_rule_def bruteforce_rule_def forgetHostAfter_def)
  from long_window_never_fires [OF this, of plain_render "170 * hours" "[''web'']" weekly_engine]
  show "filter (\<lambda>d. dt_rule d = weekly_rule) (eg_out (CheckHeartbeats plain_render (170 * hours) [''web''] weekly_engine)) = []"
    by (simp add: weekly_engine_def NewEngine_def)
qed

section \<open>Forgetting a host\<close>

lemma contains_sub_iff: "contains_sub s p \<longleftrightarrow> (\<exists>u v. s = u @ p @ v)"
proof (induction s)
  case (Cons c s)
  show ?case
  proof
    assume "contains_sub (c # s) p"
    then consider v where "c # s = p @ v" | u v where "s = u @ p @ v"
      using Cons by (auto simp: has_prefix_iff)
    then show "\<exists>u v. c # s = u @ p @ v" 
    proof cases
      case (1 v)
      then have "c # s = [] @ p @ v" by simp
      then show ?thesis by blast
    next
      case (2 u v)
      then have "c # s = (c # u) @ p @ v" by simp
      then show ?thesis by blast
    qed
  next
    assume "\<exists>u v. c # s = u @ p @ v"
    then obtain u v where "c # s = u @ p @ v" by blast
    then consider v where "c # s = p @ v" | u' v where "s = u' @ p @ v" by (cases u) auto
    then show "contains_sub (c # s) p"
    proof cases
      case (1 v)
      then show ?thesis unfolding contains_sub.simps has_prefix_iff by blast
    next
      case (2 u' v)
      then show ?thesis using Cons by auto
    qed
  qed
qed auto

lemma first_separator: "z \<notin> set a \<Longrightarrow> z \<notin> set b \<Longrightarrow> a @ z # x = b @ z # y \<Longrightarrow> a = b \<and> x = y"
proof (induction a arbitrary: b)
  case Nil
  then show ?case by (cases b) auto
next
  case (Cons c a)
  then show ?case by (cases b) auto
qed

lemma nul_delimited:
  assumes "z \<notin> set i" "z \<notin> set h" "z \<notin> set m" "z \<notin> set g"
  shows "contains_sub (i @ [z] @ h @ [z] @ m) ([z] @ g @ [z]) \<longleftrightarrow> h = g"
proof
  assume "contains_sub (i @ [z] @ h @ [z] @ m) ([z] @ g @ [z])"
  then obtain u v where e: "i @ [z] @ h @ [z] @ m = u @ ([z] @ g @ [z]) @ v"
    unfolding contains_sub_iff by blast
  have count: "length (filter (\<lambda>c. c = z) xs) = 0 \<longleftrightarrow> z \<notin> set xs" for xs
    by (induction xs) auto
  from e have "length (filter (\<lambda>c. c = z) (i @ [z] @ h @ [z] @ m)) = length (filter (\<lambda>c. c = z) (u @ ([z] @ g @ [z]) @ v))"
    by simp
  moreover have "length (filter (\<lambda>c. c = z) xs) = 0" if "z \<notin> set xs" for xs
    using that count by blast
  ultimately have "z \<notin> set u" using assms count [of u] by simp
  then have "i = u \<and> h @ [z] @ m = g @ [z] @ v"
    using first_separator [of z i u "h @ [z] @ m" "g @ [z] @ v"] e assms(1) by simp
  then show "h = g" using first_separator [of z h g m v] assms(2,4) by simp
next
  assume "h = g"
  then have "i @ [z] @ h @ [z] @ m = i @ ([z] @ g @ [z]) @ m" by simp
  then show "contains_sub (i @ [z] @ h @ [z] @ m) ([z] @ g @ [z])" unfolding contains_sub_iff by blast
qed

text \<open>for names without a NUL, forgetting a host drops the metric state of exactly that host,
  although the code finds the keys by searching for the name inside them.
\<close>

theorem forgetHost_exact:
  assumes "CHR 0x00 \<notin> set (rl_id r)" "CHR 0x00 \<notin> set (sm_host s)" "CHR 0x00 \<notin> set (sm_metric s)" "CHR 0x00 \<notin> set h"
  shows "eg_series (forgetHost h e) (series_key r s) = (if sm_host s = h then None else eg_series e (series_key r s))
    \<and> eg_hosts (forgetHost h e) = (eg_hosts e)(h := None)"
  using nul_delimited [OF assms(1,2,3,4)] by (simp add: forgetHost_def series_key_def)

theorem forgetHost_exact_witness:
  "eg_series (forgetHost ''web'' (weekly_engine\<lparr>eg_series := (\<lambda>_. Some \<lparr>ss_since = 1, ss_last_fired = 2\<rparr>)\<rparr>))
     (series_key silent_rule \<lparr>sm_host = ''web2'', sm_metric = ''load1'', sm_ts = 0, sm_value = 1\<rparr>)
   = Some \<lparr>ss_since = 1, ss_last_fired = 2\<rparr>"
  using forgetHost_exact [of silent_rule "\<lparr>sm_host = ''web2'', sm_metric = ''load1'', sm_ts = 0, sm_value = 1\<rparr>" "''web''"
      "weekly_engine\<lparr>eg_series := (\<lambda>_. Some \<lparr>ss_since = 1, ss_last_fired = 2\<rparr>)\<rparr>"]
  by (simp add: silent_rule_def bruteforce_rule_def)

section \<open>Metric rules\<close>

text \<open>The unbroken run of samples beyond the limit that ends a series, newest first.\<close>

definition trailing_run :: "rule \<Rightarrow> sample list \<Rightarrow> sample list" where
  "trailing_run r xs = takeWhile (\<lambda>s. beyond (rl_op r) (sm_value s) (rl_threshold r)) (rev xs)"

definition run_start :: "rule \<Rightarrow> sample list \<Rightarrow> time" where
  "run_start r xs = (if trailing_run r xs = [] then zero_time else sm_ts (last (trailing_run r xs)))"

definition one_series :: "string \<Rightarrow> string \<Rightarrow> sample list \<Rightarrow> bool" where
  "one_series h m xs \<longleftrightarrow> sorted (map sm_ts xs) \<and>
     list_all (\<lambda>s. 0 \<le> sm_ts s \<and> sm_ts s \<le> int64_max \<and> sm_host s = h \<and> sm_metric s = m) xs"

definition last_fired_of :: "string \<Rightarrow> engine \<Rightarrow> time" where
  "last_fired_of k e = (case eg_series e k of Some st \<Rightarrow> ss_last_fired st | None \<Rightarrow> zero_time)"

definition since_of :: "string \<Rightarrow> engine \<Rightarrow> time" where
  "since_of k e = (case eg_series e k of Some st \<Rightarrow> ss_since st | None \<Rightarrow> zero_time)"

lemma emit_series [simp]: "eg_series (emit d e) = eg_series e"
  by (simp add: emit_def)

lemma evalSample_since:
  "\<not> rl_per_core r \<Longrightarrow> since_of (series_key r s) (evalSample rd r s e) =
     (if \<not> beyond (rl_op r) (sm_value s) (rl_threshold r) then zero_time
      else if since_of (series_key r s) e = zero_time \<or> sm_ts s < since_of (series_key r s) e then sm_ts s
      else since_of (series_key r s) e)"
  by (auto simp: since_of_def evalSample_def limitFor_def Let_def split: option.splits)

lemma trailing_run_snoc:
  "trailing_run r (xs @ [s]) = (if beyond (rl_op r) (sm_value s) (rl_threshold r) then s # trailing_run r xs else [])"
  by (simp add: trailing_run_def)

lemma one_series_butlast: "one_series h m (xs @ [s]) \<Longrightarrow> one_series h m xs"
  by (auto simp: one_series_def sorted_append)

lemma run_start_snoc:
  assumes "one_series h m (xs @ [s])"
  shows "run_start r (xs @ [s]) =
    (if \<not> beyond (rl_op r) (sm_value s) (rl_threshold r) then zero_time
     else if run_start r xs = zero_time \<or> sm_ts s < run_start r xs then sm_ts s else run_start r xs)"
proof (cases "trailing_run r xs = []")
  case True
  then show ?thesis by (simp add: run_start_def trailing_run_snoc)
next
  case False
  have "last (trailing_run r xs) \<in> set (trailing_run r xs)" using False by (rule last_in_set)
  then have "last (trailing_run r xs) \<in> set xs" by (auto simp: trailing_run_def dest: set_takeWhileD)
  then have "0 \<le> sm_ts (last (trailing_run r xs))" "sm_ts (last (trailing_run r xs)) \<le> sm_ts s"
    using assms by (auto simp: one_series_def sorted_append list.pred_set)
  then show ?thesis using False by (simp add: run_start_def trailing_run_snoc zero_time_def)
qed

lemma series_since:
  assumes "\<not> rl_per_core r" "one_series h m xs"
    and k: "k = rl_id r @ [CHR 0x00] @ h @ [CHR 0x00] @ m" and "eg_series e k = None"
  shows "since_of k (fold (evalSample rd r) xs e) = run_start r xs"
  using assms(2)
proof (induction xs rule: rev_induct)
  case Nil
  show ?case using assms(4) by (simp add: since_of_def run_start_def trailing_run_def)
next
  case (snoc s xs)
  have ks: "series_key r s = k" using snoc.prems by (simp add: one_series_def series_key_def k)
  have "since_of k (fold (evalSample rd r) xs e) = run_start r xs"
    using snoc.IH snoc.prems one_series_butlast by blast
  then show ?case
    using evalSample_since [OF assms(1), of s rd "fold (evalSample rd r) xs e"] run_start_snoc [OF snoc.prems, of r]
    unfolding ks by simp
qed

lemma emit_count: "length (eg_out (emit d e)) + eg_dropped (emit d e) = Suc (length (eg_out e) + eg_dropped e)"
  by (simp add: emit_def)

lemma evalSample_count:
  "\<not> rl_per_core r \<Longrightarrow>
   length (eg_out (evalSample rd r s e)) + eg_dropped (evalSample rd r s e) = length (eg_out e) + eg_dropped e +
     (if beyond (rl_op r) (sm_value s) (rl_threshold r) \<and>
         rl_for r \<le> time_sub (sm_ts s)
           (if since_of (series_key r s) e = zero_time \<or> sm_ts s < since_of (series_key r s) e then sm_ts s
            else since_of (series_key r s) e) \<and>
         cooledDown (last_fired_of (series_key r s) e) (sm_ts s) (rl_cooldown r) then 1 else 0)"
  by (cases "eg_series e (series_key r s)")
     (simp_all add: since_of_def last_fired_of_def evalSample_def limitFor_def Let_def emit_count)

text \<open>fed the samples of one series in order of time, a metric rule fires on a sample exactly
  when that sample is beyond the limit, the unbroken run of samples beyond it began at least
  \<open>For\<close> earlier, and the cooldown since its last detection has passed; a sample within the limit
  ends the run.
\<close>

theorem metric_fires_iff:
  assumes "\<not> rl_per_core r" "one_series h m (xs @ [s])" "eg_series e (series_key r s) = None"
  shows "(let e1 = fold (evalSample rd r) xs e; e2 = evalSample rd r s e1
     in length (eg_out e2) + eg_dropped e2 = length (eg_out e1) + eg_dropped e1 +
       (if trailing_run r (xs @ [s]) \<noteq> [] \<and> rl_for r \<le> sm_ts s - sm_ts (last (trailing_run r (xs @ [s])))
           \<and> cooledDown (last_fired_of (series_key r s) e1) (sm_ts s) (rl_cooldown r) then 1 else 0))"
proof -
  let ?k = "series_key r s"
  obtain e1 where e1: "e1 = fold (evalSample rd r) xs e" by blast
  have "sm_host s = h" "sm_metric s = m" using assms(2) by (simp_all add: one_series_def)
  then have k: "?k = rl_id r @ [CHR 0x00] @ h @ [CHR 0x00] @ m" by (simp add: series_key_def)
  have since: "since_of ?k e1 = run_start r xs"
    unfolding e1 by (rule series_since [OF assms(1) one_series_butlast [OF assms(2)] k assms(3)])
  have rs: "run_start r (xs @ [s]) =
      (if \<not> beyond (rl_op r) (sm_value s) (rl_threshold r) then zero_time
       else if since_of ?k e1 = zero_time \<or> sm_ts s < since_of ?k e1 then sm_ts s else since_of ?k e1)"
    unfolding since by (rule run_start_snoc [OF assms(2)])
  show ?thesis
  proof (cases "beyond (rl_op r) (sm_value s) (rl_threshold r)")
    case False
    then show ?thesis
      using assms(1) by (simp add: Let_def e1 [symmetric] evalSample_def limitFor_def trailing_run_snoc)
  next
    case True
    let ?t = "sm_ts (last (trailing_run r (xs @ [s])))"
    have ne: "trailing_run r (xs @ [s]) \<noteq> []" using True by (simp add: trailing_run_snoc)
    then have t: "(if since_of ?k e1 = zero_time \<or> sm_ts s < since_of ?k e1 then sm_ts s else since_of ?k e1) = ?t"
      using rs True by (simp add: run_start_def)
    have "last (trailing_run r (xs @ [s])) \<in> set (trailing_run r (xs @ [s]))" using ne by (rule last_in_set)
    then have "last (trailing_run r (xs @ [s])) \<in> set (xs @ [s])"
      unfolding trailing_run_def by (metis set_rev set_takeWhileD)
    then have "0 \<le> ?t" "?t \<le> int64_max" "0 \<le> sm_ts s" "sm_ts s \<le> int64_max"
      using assms(2) unfolding one_series_def list.pred_set by auto
    then have sub: "time_sub (sm_ts s) ?t = sm_ts s - ?t" by (simp add: time_sub_def machine_simps)
    show ?thesis
      unfolding Let_def e1 [symmetric] evalSample_count [OF assms(1)] t sub using True ne by simp
  qed
qed

definition disk_rule :: rule where
  "disk_rule = bruteforce_rule\<lparr>rl_id := ''disk-full'', rl_track := ''metrics'', rl_match := [], rl_group_by := [],
     rl_issue_by := [], rl_metric := ''fs.*.used_pct'', rl_op := ''gt'', rl_threshold := 90, rl_for := 10 * minutes\<rparr>"

definition disk_sample :: "time \<Rightarrow> rat \<Rightarrow> sample" where
  "disk_sample t v = \<lparr>sm_host = ''web'', sm_metric = ''fs./.used_pct'', sm_ts = t, sm_value = v\<rparr>"

theorem metric_fires_iff_witness:
  "(let e1 = fold (evalSample plain_render disk_rule)
         [disk_sample (1 * minutes) 95, disk_sample (2 * minutes) 80, disk_sample (3 * minutes) 95] ssh_engine;
       e2 = evalSample plain_render disk_rule (disk_sample (13 * minutes) 91) e1
    in length (eg_out e2) + eg_dropped e2 = length (eg_out e1) + eg_dropped e1 + 1)"
proof -
  have "one_series ''web'' ''fs./.used_pct''
      ([disk_sample (1 * minutes) 95, disk_sample (2 * minutes) 80, disk_sample (3 * minutes) 95] @ [disk_sample (13 * minutes) 91])"
    by (simp add: one_series_def disk_sample_def)
  from metric_fires_iff [OF _ this, of disk_rule ssh_engine plain_render] show ?thesis
    by (simp add: Let_def trailing_run_def disk_rule_def bruteforce_rule_def disk_sample_def beyond_def
        ssh_engine_def NewEngine_def evalSample_def limitFor_def last_fired_of_def cooledDown_def emit_def
        time_sub_def clamp64_def zero_time_def series_key_def)
qed

end
