(* ===== verification/DetectEmitter.thy ===== *)
theory DetectEmitter
  imports DetectHosts Processor
begin

text \<open>
  The emitter (\<open>internal/detect/emitter.go\<close>): the retry loop around the event pipeline and
  the fingerprint that decides which issue a detection lands in.  The pipeline's answer, the
  cancellation of the context and the hash are arguments.
\<close>

section \<open>Sending a detection\<close>

datatype persist_answer = PersistOk | PersistFailed bool

datatype send_outcome = Sent | Lost | Cancelled | Waiting

definition backoff :: "duration list" where
  "backoff = [seconds, 5 * seconds, 30 * seconds]"

text \<open>
  One attempt is the answer, whether the context was done when it came and whether the context ended
  during the wait that may follow; \<open>Waiting\<close> is a script that is too short.  The result
  carries the number of calls and the total of the waits.
\<close>

fun send_loop :: "nat \<Rightarrow> (persist_answer \<times> bool \<times> bool) list \<Rightarrow> send_outcome \<times> nat \<times> duration" where
  "send_loop attempt [] = (Waiting, 0, 0)"
| "send_loop attempt ((a, gone, ended) # script) =
     (case a of
        PersistOk \<Rightarrow> (Sent, 1, 0)
      | PersistFailed retryable \<Rightarrow>
          if gone then (Cancelled, 1, 0)
          else if \<not> retryable \<or> length backoff \<le> attempt then (Lost, 1, 0)
          else if ended then (Cancelled, 1, 0)
          else (case send_loop (Suc attempt) script of
                  (out, n, wait) \<Rightarrow> (out, Suc n, backoff ! attempt + wait)))"

text \<open>What the pipeline's outcome means for the loop (\<open>cmd/bugbarn/telemetry.go\<close>).\<close>

definition persist_of :: "outcome \<Rightarrow> persist_answer" where
  "persist_of o1 = (case o1 of
     OutcomeSuccess \<Rightarrow> PersistOk
   | OutcomeHeld \<Rightarrow> PersistOk
   | OutcomeTransient \<Rightarrow> PersistFailed True
   | _ \<Rightarrow> PersistFailed False)"

lemma length_backoff [simp]: "length backoff = 3"
  by (simp add: backoff_def)

lemma backoff_tail: "0 \<le> sum_list (drop attempt backoff)"
  by (rule sum_list_nonneg) (auto simp: backoff_def dest!: in_set_dropD)

lemma send_loop_calls:
  "attempt \<le> 3 \<Longrightarrow> 4 - attempt \<le> length script \<Longrightarrow>
   fst (send_loop attempt script) \<noteq> Waiting \<and> fst (snd (send_loop attempt script)) \<le> 4 - attempt \<and>
   snd (snd (send_loop attempt script)) \<le> sum_list (drop attempt backoff)"
proof (induction attempt script rule: send_loop.induct)
  case (2 attempt a gone ended script)
  show ?case
  proof (cases "a = PersistFailed True \<and> \<not> gone \<and> \<not> ended \<and> attempt < 3")
    case True
    have d: "drop attempt backoff = backoff ! attempt # drop (Suc attempt) backoff"
      using True by (intro Cons_nth_drop_Suc [symmetric]) simp
    have "fst (send_loop (Suc attempt) script) \<noteq> Waiting \<and>
      fst (snd (send_loop (Suc attempt) script)) \<le> 4 - Suc attempt \<and>
      snd (snd (send_loop (Suc attempt) script)) \<le> sum_list (drop (Suc attempt) backoff)"
      using True "2.prems" by (intro "2.IH" [of True]) auto
    then show ?thesis using True by (auto simp: case_prod_unfold d)
  next
    case False
    then show ?thesis using backoff_tail [of attempt] "2.prems" by (cases a) auto
  qed
qed simp

text \<open>sending a detection ends, after at most four calls and thirty-six seconds of waiting.
\<close>

theorem send_bounded:
  assumes "4 \<le> length script"
  shows "fst (send_loop 0 script) \<noteq> Waiting \<and> fst (snd (send_loop 0 script)) \<le> 4 \<and>
    snd (snd (send_loop 0 script)) \<le> 36 * seconds"
  using send_loop_calls [of 0 script] assms by (simp add: backoff_def)

theorem send_bounded_witness:
  "send_loop 0 (replicate 4 (PersistFailed True, False, False)) = (Lost, 4, 36 * seconds) \<and>
   fst (send_loop 0 (replicate 4 (PersistFailed True, False, False))) \<noteq> Waiting"
proof
  show "send_loop 0 (replicate 4 (PersistFailed True, False, False)) = (Lost, 4, 36 * seconds)"
    by (simp add: numeral_eq_Suc backoff_def)
  show "fst (send_loop 0 (replicate 4 (PersistFailed True, False, False))) \<noteq> Waiting"
    using send_bounded [of "replicate 4 (PersistFailed True, False, False)"] by simp
qed

section \<open>Fingerprints\<close>

lemma join_commas_inj:
  assumes "length xs = length ys" "list_all (\<lambda>w. CHR '','' \<notin> set w) xs" "list_all (\<lambda>w. CHR '','' \<notin> set w) ys"
    "join_commas xs = join_commas ys"
  shows "xs = ys"
  using assms
proof (induction xs arbitrary: ys rule: join_commas.induct)
  case (2 w)
  then show ?case by (cases ys) auto
next
  case (3 w v ws)
  then obtain w' v' ws' where ys: "ys = w' # v' # ws'" by (cases ys; cases "tl ys") auto
  have "w @ CHR '','' # join_commas (v # ws) = w' @ CHR '','' # join_commas (v' # ws')"
    using "3.prems"(4) ys by simp
  then have "w = w' \<and> join_commas (v # ws) = join_commas (v' # ws')"
    using "3.prems"(2,3) ys by (intro first_separator) auto
  then show ?case using "3.IH" [of "v' # ws'"] "3.prems" ys by simp
qed simp

lemma GroupKey_inj:
  assumes "map fst g = map fst h" "list_all (\<lambda>(k, v). CHR '','' \<notin> set k \<and> CHR '','' \<notin> set v) (g @ h)"
    "GroupKey g = GroupKey h"
  shows "g = h"
proof -
  have len: "length g = length h" using assms(1) by (rule map_eq_imp_length_eq)
  have "map (\<lambda>(k, v). k @ ''='' @ v) g = map (\<lambda>(k, v). k @ ''='' @ v) h"
    by (rule join_commas_inj) (use assms len in \<open>auto simp: GroupKey_def list.pred_set\<close>)
  then show ?thesis using assms(1) len
    by (induction g h rule: list_induct2') auto
qed

definition comma_free :: "rule \<Rightarrow> sec_record \<Rightarrow> bool" where
  "comma_free r rec \<longleftrightarrow> list_all (\<lambda>f. CHR '','' \<notin> set (fst (record_field rec f))) (rl_group_by r)"

lemma validate_rule_security:
  assumes "validate_rule r = None" "rl_track r = TrackSecurity"
  shows "list_all knownField (rl_group_by r)" and "CHR '':'' \<notin> set (rl_id r)"
proof -
  have v: "validateSecurity r = None" and c: "\<not> list_ex (\<lambda>c. c = CHR '' '' \<or> c = CHR '':'' \<or> c = CHR ''/'') (rl_id r)"
    using assms unfolding validate_rule_def by (simp_all split: if_split_asm)
  have "first_error (\<lambda>f. if knownField f then None else Some (ErrGroupBy f)) (rl_group_by r) = None"
    using v unfolding validateSecurity_def by (simp split: if_split_asm)
  then have "list_all (\<lambda>f. (if knownField f then None else Some (ErrGroupBy f)) = None) (rl_group_by r)"
    unfolding first_error_None .
  then show "list_all knownField (rl_group_by r)" by (simp add: list.pred_set split: if_split_asm)
  show "CHR '':'' \<notin> set (rl_id r)" using c by (auto simp: list_ex_iff)
qed

lemma knownField_comma: "knownField f \<Longrightarrow> CHR '','' \<notin> set f"
  by (auto simp: knownField_def)

text \<open>among validated security rules with distinct identifiers, and with a hash that does not
  collide, two detections land in the same issue exactly when they come from the same rule and the
  same group, provided no group value contains a comma.
\<close>

theorem fingerprint_iff:
  assumes "inj sum8" "distinct (map rl_id rules)" "r1 \<in> set rules" "r2 \<in> set rules"
    and "validate_rule r1 = None" "validate_rule r2 = None"
    and "rl_track r1 = TrackSecurity" "rl_track r2 = TrackSecurity"
    and "rl_issue_by r1 \<noteq> IssueByDay" "rl_issue_by r2 \<noteq> IssueByDay"
    and "comma_free r1 rec1" "comma_free r2 rec2"
  shows "Fingerprint sum8 day (security_detection r1 rec1 t1 n1) = Fingerprint sum8 day (security_detection r2 rec2 t2 n2)
    \<longleftrightarrow> r1 = r2 \<and> group_of r1 rec1 = group_of r2 rec2"
proof
  assume "Fingerprint sum8 day (security_detection r1 rec1 t1 n1) = Fingerprint sum8 day (security_detection r2 rec2 t2 n2)"
  then have "rl_id r1 @ CHR '':'' # sum8 (GroupKey (group_of r1 rec1)) = rl_id r2 @ CHR '':'' # sum8 (GroupKey (group_of r2 rec2))"
    using assms(9,10) by (simp add: Fingerprint_def security_detection_def)
  then have eq: "rl_id r1 = rl_id r2 \<and> sum8 (GroupKey (group_of r1 rec1)) = sum8 (GroupKey (group_of r2 rec2))"
    using validate_rule_security(2) [OF assms(5,7)] validate_rule_security(2) [OF assms(6,8)]
    by (intro first_separator) auto
  then have r: "r1 = r2" using assms(2,3,4) by (auto simp: distinct_map dest: inj_onD)
  have "GroupKey (group_of r1 rec1) = GroupKey (group_of r2 rec2)" using eq assms(1) by (simp add: inj_eq)
  moreover have "list_all (\<lambda>(k, v). CHR '','' \<notin> set k \<and> CHR '','' \<notin> set v) (group_of r1 rec1 @ group_of r2 rec2)"
    using validate_rule_security(1) [OF assms(5,7)] assms(11,12) r
    by (auto simp: group_of_def list.pred_set comma_free_def dest: knownField_comma)
  moreover have "map fst (group_of r1 rec1) = map fst (group_of r2 rec2)" using r by (simp add: group_of_def o_def)
  ultimately show "r1 = r2 \<and> group_of r1 rec1 = group_of r2 rec2" using GroupKey_inj r by blast
next
  assume "r1 = r2 \<and> group_of r1 rec1 = group_of r2 rec2"
  then show "Fingerprint sum8 day (security_detection r1 rec1 t1 n1) = Fingerprint sum8 day (security_detection r2 rec2 t2 n2)"
    using assms(9) by (auto simp: Fingerprint_def security_detection_def)
qed

definition login_rule :: rule where
  "login_rule = bruteforce_rule\<lparr>rl_id := ''login'', rl_issue_by := [], rl_group_by := [''user'', ''src_ip'']\<rparr>"

theorem fingerprint_iff_witness:
  "Fingerprint id (\<lambda>_. ''2026-07-01'') (security_detection login_rule (ssh_failure 1 ''a'') 1 1)
     \<noteq> Fingerprint id (\<lambda>_. ''2026-07-01'') (security_detection login_rule (ssh_failure 2 ''b'') 2 1)"
proof -
  have v: "validate_rule login_rule = None" by code_simp
  have c: "comma_free login_rule (ssh_failure 1 ''a'')" "comma_free login_rule (ssh_failure 2 ''b'')"
    "group_of login_rule (ssh_failure 1 ''a'') \<noteq> group_of login_rule (ssh_failure 2 ''b'')" by code_simp+
  have "rl_track login_rule = TrackSecurity" "rl_issue_by login_rule \<noteq> IssueByDay"
    by (simp_all add: login_rule_def bruteforce_rule_def TrackSecurity_def IssueByDay_def)
  then show ?thesis
    using fingerprint_iff [of id "[login_rule]" login_rule login_rule "ssh_failure 1 ''a''" "ssh_failure 2 ''b''" "\<lambda>_. ''2026-07-01''" 1 1 2 1] v c
    by simp
qed

text \<open>two different groups of one rule can share an issue: a group value is not escaped, so a
  user name containing \<open>,src_ip=\<close> makes its group read like another one.
\<close>

theorem fingerprint_ambiguous:
  "\<exists>rec1 rec2. validate_rule login_rule = None \<and>
     group_of login_rule rec1 \<noteq> group_of login_rule rec2 \<and>
     Fingerprint sum8 day (security_detection login_rule rec1 t1 n1)
       = Fingerprint sum8 day (security_detection login_rule rec2 t2 n2)"
proof -
  let ?rec1 = "(ssh_failure 1 ''b,src_ip=c'')\<lparr>sr_user := ''a''\<rparr>"
  let ?rec2 = "(ssh_failure 1 ''c'')\<lparr>sr_user := ''a,src_ip=b''\<rparr>"
  have "validate_rule login_rule = None" "group_of login_rule ?rec1 \<noteq> group_of login_rule ?rec2"
    "GroupKey (group_of login_rule ?rec1) = GroupKey (group_of login_rule ?rec2)" by code_simp+
  then show ?thesis
    by (intro exI [of _ ?rec1] exI [of _ ?rec2])
      (simp add: Fingerprint_def security_detection_def login_rule_def IssueByDay_def)
qed

end
