(* ===== verification/Alerts.thy ===== *)
theory Alerts
  imports IssueLifecycle
begin

text \<open>
  Alert evaluation (\<open>internal/alert/evaluator.go\<close>, \<open>new_issue_limit.go\<close>,
  \<open>mail_limit.go\<close>, \<open>internal/storage/alert_firings.go\<close>): what a domain event sets off,
  the cap on new-issue mails and its summaries, the cooldown, and the slots for SMTP connections.

  A delivery runs in its own goroutine: \<open>aw_flying\<close> holds the ones under way, and
  \<open>finish_delivery\<close> is the end of one, with its outcome as an argument.  A timer of
  \<open>time.AfterFunc\<close> is an entry of \<open>aw_timers\<close> and may fire at any time from its due
  time on.
\<close>

section \<open>Rules and matching\<close>

record alert_rule =
  al_id :: string
  al_name :: string
  al_enabled :: bool
  al_project :: int
  al_webhook :: string
  al_email :: string
  al_condition :: string
  al_param :: string
  al_threshold :: int
  al_cooldownMinutes :: int

text \<open>The loop that strips the zeros off a count.\<close>

function strip_tens :: "int \<Rightarrow> int" where
  "strip_tens n = (if n \<le> 0 \<or> go_rem n 10 \<noteq> 0 then n else strip_tens (go_div n 10))"
  by pat_completeness auto
termination
  by (relation "measure nat") (auto simp: machine_simps)

declare strip_tens.simps [simp del]

definition isSpikeMilestone :: "int \<Rightarrow> bool" where
  "isSpikeMilestone count = (if count < 100 then False else strip_tens count = 1)"

definition ruleMatches :: "alert_rule \<Rightarrow> issue \<Rightarrow> string \<Rightarrow> bool \<Rightarrow> bool" where
  "ruleMatches r iss cond mailCapped =
     (if \<not> al_enabled r \<or> al_condition r \<noteq> cond then False
      else if mailCapped \<and> al_email r \<noteq> [] then False
      else if cond = ''event_count_exceeds'' then 0 < al_threshold r \<and> al_threshold r < is_Count iss
      else if cond = ''message_contains'' then
        al_param r \<noteq> [] \<and> contains_sub (to_lower (is_Title iss)) (to_lower (al_param r))
      else True)"

section \<open>The cap on new-issue mails\<close>

record issue_window =
  iw_start :: time
  iw_sent :: nat
  iw_suppressed :: nat

record limiter =
  nl_max :: nat
  nl_window :: duration
  nl_projects :: "string \<rightharpoonup> issue_window"

record admission =
  ad_send :: bool
  ad_summarize :: nat
  ad_schedule :: bool
  ad_remaining :: duration
  ad_start :: time

definition newIssueMailMax :: nat where "newIssueMailMax = 5"
definition newIssueMailWindow :: duration where "newIssueMailWindow = 10 * minutes"

definition newNewIssueLimiter :: limiter where
  "newNewIssueLimiter = \<lparr>nl_max = newIssueMailMax, nl_window = newIssueMailWindow, nl_projects = Map.empty\<rparr>"

definition rolled_over :: "time \<Rightarrow> limiter \<Rightarrow> issue_window \<Rightarrow> bool" where
  "rolled_over now l w \<longleftrightarrow> nl_window l \<le> time_sub now (iw_start w)"

definition admit :: "time \<Rightarrow> string \<Rightarrow> limiter \<Rightarrow> admission \<times> limiter" where
  "admit now slug l =
     (let summarize = (case nl_projects l slug of
            Some w \<Rightarrow> if rolled_over now l w then iw_suppressed w else 0 | None \<Rightarrow> 0);
          w = (case nl_projects l slug of
            Some w \<Rightarrow> if rolled_over now l w then \<lparr>iw_start = now, iw_sent = 0, iw_suppressed = 0\<rparr> else w
          | None \<Rightarrow> \<lparr>iw_start = now, iw_sent = 0, iw_suppressed = 0\<rparr>);
          remaining = time_sub (iw_start w + nl_window l) now
      in if iw_sent w < nl_max l
         then (\<lparr>ad_send = True, ad_summarize = summarize, ad_schedule = False, ad_remaining = remaining, ad_start = iw_start w\<rparr>,
               l\<lparr>nl_projects := (nl_projects l)(slug \<mapsto> w\<lparr>iw_sent := Suc (iw_sent w)\<rparr>)\<rparr>)
         else (\<lparr>ad_send = False, ad_summarize = summarize, ad_schedule = (Suc (iw_suppressed w) = 1),
                ad_remaining = remaining, ad_start = iw_start w\<rparr>,
               l\<lparr>nl_projects := (nl_projects l)(slug \<mapsto> w\<lparr>iw_suppressed := Suc (iw_suppressed w)\<rparr>)\<rparr>))"

definition expire :: "string \<Rightarrow> time \<Rightarrow> limiter \<Rightarrow> nat \<times> limiter" where
  "expire slug start l = (case nl_projects l slug of
     None \<Rightarrow> (0, l)
   | Some w \<Rightarrow> if iw_start w \<noteq> start then (0, l)
               else (iw_suppressed w, l\<lparr>nl_projects := (nl_projects l)(slug := None)\<rparr>))"

section \<open>The evaluator\<close>

type_synonym firing = "string \<times> string \<times> time"

record alert_env =
  ae_admin :: string
  ae_emailConfigured :: bool
  ae_rules :: "int \<Rightarrow> alert_rule list option"
  ae_firingsReadable :: bool

record alert_world =
  aw_limiter :: limiter
  aw_timers :: "(string \<times> time \<times> time) list"
  aw_flying :: "(alert_rule \<times> issue) list"
  aw_firings :: "firing list"
  aw_suppressed :: "string \<Rightarrow> nat"
  aw_capped_log :: "(string \<times> nat) list"

text \<open>\<open>fired_at\<close> is SQLite's \<open>CURRENT_TIMESTAMP\<close>, in whole seconds.\<close>

definition whole_second :: "time \<Rightarrow> time" where
  "whole_second t = t div seconds * seconds"

definition RecordAlertFiring :: "string \<Rightarrow> string \<Rightarrow> time \<Rightarrow> firing list \<Rightarrow> firing list" where
  "RecordAlertFiring alert iss now fs = fs @ [(alert, iss, whole_second now)]"

definition LastAlertFiring :: "string \<Rightarrow> string \<Rightarrow> firing list \<Rightarrow> time" where
  "LastAlertFiring alert iss fs =
     foldl (\<lambda>m (a, i, t). if a = alert \<and> i = iss \<and> (m = zero_time \<or> m < t) then t else m) zero_time fs"

definition cooldownPassed :: "alert_env \<Rightarrow> time \<Rightarrow> alert_rule \<Rightarrow> string \<Rightarrow> alert_world \<Rightarrow> bool" where
  "cooldownPassed env now r iid w =
     (if al_cooldownMinutes r \<le> 0 then True
      else if \<not> ae_firingsReadable env then False
      else
        (let prev = LastAlertFiring (al_id r) iid (aw_firings w)
         in prev = zero_time \<or> wrap64 (al_cooldownMinutes r * minutes) \<le> time_sub now prev))"

definition admin_rule :: "alert_env \<Rightarrow> string \<Rightarrow> alert_rule" where
  "admin_rule env cond = \<lparr>al_id = ''admin-'' @ cond, al_name = ''Admin notifications'', al_enabled = True, al_project = 0,
     al_webhook = [], al_email = ae_admin env, al_condition = cond, al_param = [], al_threshold = 0, al_cooldownMinutes = 0\<rparr>"

definition notifyAdmin :: "alert_env \<Rightarrow> issue \<Rightarrow> string \<Rightarrow> alert_world \<Rightarrow> alert_world" where
  "notifyAdmin env iss cond w =
     (if ae_admin env = [] \<or> \<not> ae_emailConfigured env then w
      else w\<lparr>aw_flying := aw_flying w @ [(admin_rule env cond, iss)]\<rparr>)"

definition blank_event :: event where
  "blank_event = \<lparr>ReceivedAt = zero_time, ObservedAt = zero_time, Severity = [], Message = [], ExcType = [], ExcMessage = [],
     ExcText = [], Resource = [], Attributes = [], TraceID = [], SpanID = [], SDKName = [], EvFingerprint = [],
     EvMaterial = [], EvExplanation = [], RawScrubbed = [], UserID = []\<rparr>"

definition blank_issue :: "string \<Rightarrow> string \<Rightarrow> issue" where
  "blank_issue title slug = \<lparr>is_ID = [], is_Fingerprint = [], is_Material = [], is_Explanation = [], is_Title = title,
     is_Normalized = [], is_ExcType = [], is_Status = [], is_Mute = [], is_Resolved = zero_time, is_Reopened = zero_time,
     is_LastRegressed = zero_time, is_Regressions = 0, is_FirstSeen = zero_time, is_LastSeen = zero_time, is_Count = 0,
     is_Representative = blank_event, is_Number = 0, is_FirstRelease = [], is_ProjectSlug = slug\<rparr>"

definition notifySuppressed :: "alert_env \<Rightarrow> string \<Rightarrow> nat \<Rightarrow> alert_world \<Rightarrow> alert_world" where
  "notifySuppressed env slug n w =
     notifyAdmin env
       (blank_issue (nat_str n @ '' more new issues in the last '' @ itoa (newIssueMailWindow div minutes)
          @ '' minutes were not mailed one by one'') slug) ''new_issue_flood''
       (w\<lparr>aw_capped_log := aw_capped_log w @ [(slug, n)]\<rparr>)"

definition admitNewIssue :: "alert_env \<Rightarrow> time \<Rightarrow> issue \<Rightarrow> alert_world \<Rightarrow> bool \<times> alert_world" where
  "admitNewIssue env now iss w =
     (let slug = is_ProjectSlug iss;
          (a, l) = admit now slug (aw_limiter w);
          w1 = w\<lparr>aw_limiter := l\<rparr>;
          w2 = (if 0 < ad_summarize a then notifySuppressed env slug (ad_summarize a) w1 else w1);
          w3 = (if \<not> ad_send a then w2\<lparr>aw_suppressed := (aw_suppressed w2)(slug := Suc (aw_suppressed w2 slug))\<rparr> else w2);
          w4 = (if ad_schedule a
                then w3\<lparr>aw_timers := aw_timers w3 @ [(slug, ad_start a, now + ad_remaining a)]\<rparr> else w3)
      in (ad_send a, w4))"

definition summary_timer :: "alert_env \<Rightarrow> string \<Rightarrow> time \<Rightarrow> alert_world \<Rightarrow> alert_world" where
  "summary_timer env slug start w =
     (case expire slug start (aw_limiter w) of
        (n, l) \<Rightarrow> if 0 < n then notifySuppressed env slug n (w\<lparr>aw_limiter := l\<rparr>) else w\<lparr>aw_limiter := l\<rparr>)"

definition evaluateRules :: "alert_env \<Rightarrow> time \<Rightarrow> int \<Rightarrow> issue \<Rightarrow> string \<Rightarrow> bool \<Rightarrow> alert_world \<Rightarrow> alert_world" where
  "evaluateRules env now pid iss cond mailCapped w = (case ae_rules env pid of
     None \<Rightarrow> w
   | Some rules \<Rightarrow>
       w\<lparr>aw_flying := aw_flying w @ map (\<lambda>r. (r, iss))
           (filter (\<lambda>r. ruleMatches r iss cond mailCapped \<and> cooldownPassed env now r (is_ID iss) w) rules)\<rparr>)"

definition HandleEvent :: "alert_env \<Rightarrow> time \<Rightarrow> domain_event \<Rightarrow> alert_world \<Rightarrow> alert_world" where
  "HandleEvent env now ev w = (case ev of
     IssueCreated iss pid \<Rightarrow>
       (let (send, w1) = admitNewIssue env now iss w;
            w2 = evaluateRules env now pid iss ''new_issue'' (\<not> send) w1;
            w3 = evaluateRules env now pid iss ''message_contains'' False w2
        in if send then notifyAdmin env iss ''new_issue'' w3 else w3)
   | IssueRegressed iss pid \<Rightarrow>
       notifyAdmin env iss ''regression''
         (evaluateRules env now pid iss ''message_contains'' False
           (evaluateRules env now pid iss ''regression'' False w))
   | IssueEventRecorded iss pid \<Rightarrow>
       (let w1 = evaluateRules env now pid iss ''event_count_exceeds'' False w
        in if isSpikeMilestone (is_Count iss) then notifyAdmin env iss ''event_spike'' w1 else w1))"

text \<open>
  The end of a delivery.  Only a project rule records its firing; the rule ids of the
  administrator's mails are not stored rules.
\<close>

definition remove_at :: "nat \<Rightarrow> 'a list \<Rightarrow> 'a list" where
  "remove_at i xs = take i xs @ drop (Suc i) xs"

definition is_admin :: "alert_rule \<Rightarrow> bool" where
  "is_admin r = has_prefix (al_id r) ''admin-''"

definition fireRule :: "nat \<Rightarrow> bool \<Rightarrow> bool \<Rightarrow> time \<Rightarrow> alert_world \<Rightarrow> alert_world" where
  "fireRule i delivered recorded now w =
     (if length (aw_flying w) \<le> i then w
      else (case aw_flying w ! i of (r, iss) \<Rightarrow>
        (let w1 = w\<lparr>aw_flying := remove_at i (aw_flying w)\<rparr>
         in if delivered \<and> recorded \<and> \<not> is_admin r
            then w1\<lparr>aw_firings := RecordAlertFiring (al_id r) (is_ID iss) now (aw_firings w1)\<rparr> else w1)))"

section \<open>Milestones\<close>

lemma strip_tens_power: "1 \<le> n \<Longrightarrow> strip_tens n = 1 \<longleftrightarrow> (\<exists>k. n = 10 ^ k)"
proof (induction n rule: strip_tens.induct)
  case (1 n)
  have rem: "go_rem n 10 = n mod 10" "go_div n 10 = n div 10" using 1(2) by (simp_all add: machine_simps)
  show ?case
  proof (cases "n mod 10 = 0")
    case False
    then have "(\<exists>k. n = 10 ^ k) \<longleftrightarrow> n = 1"
      by (metis dvd_imp_mod_0 dvd_power gr0I power_0)
    then show ?thesis using False by (simp add: strip_tens.simps [of n] rem)
  next
    case True
    then have n: "n = 10 * (n div 10)" "1 \<le> n div 10" using 1(2) by auto
    have "(\<exists>k. n = 10 ^ k) \<longleftrightarrow> (\<exists>k. n div 10 = 10 ^ k)"
    proof
      assume "\<exists>k. n = 10 ^ k"
      then obtain k where k: "n = 10 ^ k" by blast
      then have "k \<noteq> 0" using True by (intro notI) simp
      then obtain j where "k = Suc j" using not0_implies_Suc by blast
      then have "n div 10 = 10 ^ j" using k by simp
      then show "\<exists>k. n div 10 = 10 ^ k" by blast
    next
      assume "\<exists>k. n div 10 = 10 ^ k"
      then obtain k where "n div 10 = 10 ^ k" by blast
      then have "n = 10 ^ Suc k" using n(1) by simp
      then show "\<exists>k. n = 10 ^ k" by blast
    qed
    moreover have "strip_tens n = strip_tens (n div 10)"
      using True 1(2) by (subst strip_tens.simps) (simp add: rem)
    ultimately show ?thesis using 1(1) True 1(2) n(2) by (simp add: rem)
  qed
qed

text \<open>the administrator is mailed about an issue's volume exactly when its count reaches a
  power of ten from one hundred on; the loop that decides it ends for every such count.\<close>

theorem spike_milestone_iff: "isSpikeMilestone n \<longleftrightarrow> (\<exists>k\<ge>2. n = 10 ^ k)"
proof (cases "n < 100")
  case True
  have "(10::int) ^ 2 \<le> 10 ^ k" if "2 \<le> k" for k :: nat using that by (rule power_increasing) simp
  then have "(100::int) \<le> 10 ^ k" if "2 \<le> k" for k :: nat using that by force
  then show ?thesis using True by (fastforce simp: isSpikeMilestone_def)
next
  case False
  have "2 \<le> k" if "n = 10 ^ k" for k :: nat
  proof (rule ccontr)
    assume "\<not> 2 \<le> k"
    then have "k = 0 \<or> k = 1" by auto
    then show False using that False by auto
  qed
  then show ?thesis using False strip_tens_power [of n] by (auto simp: isSpikeMilestone_def)
qed

section \<open>Suppressed issues are reported once\<close>

datatype alert_op = AEvent domain_event | ATimer nat | ADone nat bool bool

definition alert_step :: "alert_env \<Rightarrow> time \<times> alert_op \<Rightarrow> alert_world \<times> time \<Rightarrow> (alert_world \<times> time) option" where
  "alert_step env x s = (case (x, s) of ((t, op), (w, clock)) \<Rightarrow>
     if t < clock then None
     else (case op of
        AEvent ev \<Rightarrow> Some (HandleEvent env t ev w, t)
      | ATimer i \<Rightarrow>
          if length (aw_timers w) \<le> i then None
          else (case aw_timers w ! i of (slug, start, due) \<Rightarrow>
            if t < due then None
            else Some (summary_timer env slug start (w\<lparr>aw_timers := remove_at i (aw_timers w)\<rparr>), t))
      | ADone i delivered recorded \<Rightarrow> Some (fireRule i delivered recorded t w, t)))"

fun alert_run :: "alert_env \<Rightarrow> (time \<times> alert_op) list \<Rightarrow> alert_world \<times> time \<Rightarrow> (alert_world \<times> time) option" where
  "alert_run env [] s = Some s"
| "alert_run env (x # xs) s = (case alert_step env x s of None \<Rightarrow> None | Some s' \<Rightarrow> alert_run env xs s')"

definition fresh_alerts :: alert_world where
  "fresh_alerts = \<lparr>aw_limiter = newNewIssueLimiter, aw_timers = [], aw_flying = [], aw_firings = [],
     aw_suppressed = (\<lambda>_. 0), aw_capped_log = []\<rparr>"

definition reported :: "string \<Rightarrow> (string \<times> nat) list \<Rightarrow> nat" where
  "reported slug lg = sum_list (map snd (filter (\<lambda>x. fst x = slug) lg))"

definition pending :: "string \<Rightarrow> limiter \<Rightarrow> nat" where
  "pending slug l = (case nl_projects l slug of None \<Rightarrow> 0 | Some w \<Rightarrow> iw_suppressed w)"

definition window_ok :: "limiter \<Rightarrow> (string \<times> time \<times> time) list \<Rightarrow> time \<Rightarrow> string \<Rightarrow> issue_window \<Rightarrow> bool" where
  "window_ok l timers clock slug w \<longleftrightarrow> iw_start w \<le> clock \<and> iw_sent w \<le> nl_max l \<and>
     (0 < iw_suppressed w \<longrightarrow> (slug, iw_start w, iw_start w + nl_window l) \<in> set timers)"

definition limiter_ok :: "limiter \<Rightarrow> (string \<times> time \<times> time) list \<Rightarrow> time \<Rightarrow> bool" where
  "limiter_ok l timers clock \<longleftrightarrow> nl_max l = newIssueMailMax \<and> nl_window l = newIssueMailWindow \<and>
     (\<forall>slug w. nl_projects l slug = Some w \<longrightarrow> window_ok l timers clock slug w)"

definition capped_ok :: "alert_world \<times> time \<Rightarrow> bool" where
  "capped_ok s \<longleftrightarrow> (case s of (w, clock) \<Rightarrow>
     limiter_ok (aw_limiter w) (aw_timers w) clock \<and>
     (\<forall>slug. aw_suppressed w slug = reported slug (aw_capped_log w) + pending slug (aw_limiter w)))"

text \<open>The parts of the world the cap is about, and the operations that leave them alone.\<close>

definition capped_part :: "alert_world \<Rightarrow> limiter \<times> (string \<times> time \<times> time) list \<times> (string \<Rightarrow> nat) \<times> (string \<times> nat) list" where
  "capped_part w = (aw_limiter w, aw_timers w, aw_suppressed w, aw_capped_log w)"

lemma capped_part_same [simp]:
  "capped_part (notifyAdmin env iss cond w) = capped_part w"
  "capped_part (evaluateRules env now pid iss cond c w) = capped_part w"
  "capped_part (fireRule i d r now w) = capped_part w"
  by (auto simp: capped_part_def notifyAdmin_def evaluateRules_def fireRule_def Let_def split: option.splits prod.splits)

lemma capped_ok_part: "capped_part w = capped_part w' \<Longrightarrow> capped_ok (w, t) = capped_ok (w', t)"
  by (simp add: capped_ok_def capped_part_def)

lemma notifySuppressed_part:
  "capped_part (notifySuppressed env slug n w) =
     (aw_limiter w, aw_timers w, aw_suppressed w, aw_capped_log w @ [(slug, n)])"
  unfolding notifySuppressed_def capped_part_same by (simp add: capped_part_def)

lemma capped_part_cases:
  "capped_part w = (l, ts, f, lg) \<longleftrightarrow> aw_limiter w = l \<and> aw_timers w = ts \<and> aw_suppressed w = f \<and> aw_capped_log w = lg"
  by (auto simp: capped_part_def)

lemma reported_snoc [simp]:
  "reported slug (lg @ [(s, n)]) = reported slug lg + (if s = slug then n else 0)"
  by (simp add: reported_def)

lemma rolled_over_iff:
  "nl_window l = newIssueMailWindow \<Longrightarrow> rolled_over now l w \<longleftrightarrow> newIssueMailWindow \<le> now - iw_start w"
  using time_sub_less [of newIssueMailWindow now "iw_start w"]
  by (auto simp: rolled_over_def newIssueMailWindow_def not_less [symmetric])

text \<open>What admitting one issue does to the limiter.\<close>

definition current_window :: "time \<Rightarrow> string \<Rightarrow> limiter \<Rightarrow> issue_window" where
  "current_window now slug l = (case nl_projects l slug of
     Some w \<Rightarrow> if rolled_over now l w then \<lparr>iw_start = now, iw_sent = 0, iw_suppressed = 0\<rparr> else w
   | None \<Rightarrow> \<lparr>iw_start = now, iw_sent = 0, iw_suppressed = 0\<rparr>)"

lemma admit_eq:
  "admit now slug l =
     (let w = current_window now slug l; s = (iw_sent w < nl_max l)
      in (\<lparr>ad_send = s,
           ad_summarize = (case nl_projects l slug of Some v \<Rightarrow> if rolled_over now l v then iw_suppressed v else 0 | None \<Rightarrow> 0),
           ad_schedule = (\<not> s \<and> iw_suppressed w = 0),
           ad_remaining = time_sub (iw_start w + nl_window l) now, ad_start = iw_start w\<rparr>,
          l\<lparr>nl_projects := (nl_projects l)(slug \<mapsto>
            (if s then w\<lparr>iw_sent := Suc (iw_sent w)\<rparr> else w\<lparr>iw_suppressed := Suc (iw_suppressed w)\<rparr>))\<rparr>))"
  by (simp add: admit_def current_window_def Let_def)

lemma current_window_ok:
  assumes "limiter_ok l ts clock" "clock \<le> now"
  shows "iw_start (current_window now slug l) \<le> now" "iw_sent (current_window now slug l) \<le> nl_max l"
    "now - iw_start (current_window now slug l) < newIssueMailWindow"
    "0 < iw_suppressed (current_window now slug l) \<Longrightarrow>
      (slug, iw_start (current_window now slug l), iw_start (current_window now slug l) + nl_window l) \<in> set ts"
proof -
  let ?v = "current_window now slug l"
  have w: "nl_window l = newIssueMailWindow" using assms(1) by (simp add: limiter_ok_def)
  have "iw_start ?v \<le> now \<and> iw_sent ?v \<le> nl_max l \<and> now - iw_start ?v < newIssueMailWindow \<and>
      (0 < iw_suppressed ?v \<longrightarrow> (slug, iw_start ?v, iw_start ?v + nl_window l) \<in> set ts)"
  proof (cases "nl_projects l slug")
    case None
    then show ?thesis by (simp add: current_window_def newIssueMailWindow_def)
  next
    case (Some u)
    then have u: "window_ok l ts clock slug u" using assms(1) by (auto simp: limiter_ok_def)
    then have "iw_start u \<le> now" using assms(2) by (auto simp: window_ok_def intro: order_trans)
    then show ?thesis
      using Some u rolled_over_iff [OF w, of now u] by (auto simp: current_window_def window_ok_def newIssueMailWindow_def)
  qed
  then show "iw_start ?v \<le> now" "iw_sent ?v \<le> nl_max l" "now - iw_start ?v < newIssueMailWindow"
    "0 < iw_suppressed ?v \<Longrightarrow> (slug, iw_start ?v, iw_start ?v + nl_window l) \<in> set ts" by blast+
qed

lemma admit_remaining:
  assumes "limiter_ok l ts clock" "clock \<le> now"
  shows "now + time_sub (iw_start (current_window now slug l) + nl_window l) now
    = iw_start (current_window now slug l) + nl_window l"
proof -
  let ?s = "iw_start (current_window now slug l)"
  have w: "nl_window l = newIssueMailWindow" using assms(1) by (simp add: limiter_ok_def)
  have "?s \<le> now \<and> now - ?s < newIssueMailWindow"
    using current_window_ok [OF assms, of slug] by blast
  then have "time_sub (?s + newIssueMailWindow) now = ?s + newIssueMailWindow - now"
    unfolding time_sub_def by (intro clamp64_id) (auto simp: newIssueMailWindow_def)
  then show ?thesis by (simp add: w)
qed

lemma limiter_ok_mono: "limiter_ok l ts clock \<Longrightarrow> set ts \<subseteq> set ts' \<Longrightarrow> clock \<le> clock' \<Longrightarrow> limiter_ok l ts' clock'"
  unfolding limiter_ok_def window_ok_def by fastforce

lemma admitNewIssue_ok:
  assumes ok: "capped_ok (w, clock)" and t: "clock \<le> now"
  shows "capped_ok (snd (admitNewIssue env now iss w), now)"
proof -
  let ?slug = "is_ProjectSlug iss" and ?l = "aw_limiter w" and ?ts = "aw_timers w"
  have lok: "limiter_ok ?l ?ts clock"
    and sup: "\<And>slug. aw_suppressed w slug = reported slug (aw_capped_log w) + pending slug ?l"
    using ok by (auto simp: capped_ok_def)
  have const: "nl_max ?l = newIssueMailMax" "nl_window ?l = newIssueMailWindow" using lok by (auto simp: limiter_ok_def)
  obtain v where v: "v = current_window now ?slug ?l" by blast
  obtain a l' where al: "admit now ?slug ?l = (a, l')" by (metis surj_pair)
  let ?ts' = "if ad_schedule a then ?ts @ [(?slug, ad_start a, now + ad_remaining a)] else ?ts"
  let ?f = "if ad_send a then aw_suppressed w else (aw_suppressed w)(?slug := Suc (aw_suppressed w ?slug))"
  let ?lg = "if 0 < ad_summarize a then aw_capped_log w @ [(?slug, ad_summarize a)] else aw_capped_log w"
  have "capped_part (snd (admitNewIssue env now iss w)) = (l', ?ts', ?f, ?lg)"
    using notifySuppressed_part [of env ?slug "ad_summarize a" "w\<lparr>aw_limiter := l'\<rparr>"]
    by (auto simp: admitNewIssue_def al Let_def capped_part_cases)
  then have part: "aw_limiter (snd (admitNewIssue env now iss w)) = l'" "aw_timers (snd (admitNewIssue env now iss w)) = ?ts'"
    "aw_suppressed (snd (admitNewIssue env now iss w)) = ?f" "aw_capped_log (snd (admitNewIssue env now iss w)) = ?lg"
    by (simp_all add: capped_part_cases)
  have a: "ad_send a = (iw_sent v < nl_max ?l)" "ad_schedule a = (\<not> ad_send a \<and> iw_suppressed v = 0)"
    "ad_start a = iw_start v" "now + ad_remaining a = iw_start v + nl_window ?l"
    "ad_summarize a = pending ?slug ?l - iw_suppressed v" "iw_suppressed v \<le> pending ?slug ?l"
    and l': "l' = ?l\<lparr>nl_projects := (nl_projects ?l)(?slug \<mapsto>
        (if ad_send a then v\<lparr>iw_sent := Suc (iw_sent v)\<rparr> else v\<lparr>iw_suppressed := Suc (iw_suppressed v)\<rparr>))\<rparr>"
    using al admit_remaining [OF lok t, of ?slug] unfolding admit_eq Let_def v
    by (auto simp: pending_def current_window_def split: option.splits)
  have vok: "iw_start v \<le> now" "iw_sent v \<le> nl_max ?l"
    "0 < iw_suppressed v \<Longrightarrow> (?slug, iw_start v, iw_start v + nl_window ?l) \<in> set ?ts"
    unfolding v using current_window_ok [OF lok t, of ?slug] by blast+
  have "window_ok l' ?ts' now slug u" if "nl_projects l' slug = Some u" for slug u
  proof (cases "slug = ?slug")
    case True
    then show ?thesis using that vok a by (auto simp: l' window_ok_def)
  next
    case False
    then have "window_ok ?l ?ts clock slug u" using that lok by (auto simp: l' limiter_ok_def)
    then show ?thesis using t by (auto simp: window_ok_def l')
  qed
  then have "limiter_ok l' ?ts' now" using const by (auto simp: limiter_ok_def l')
  moreover have "?f slug = reported slug ?lg + pending slug l'" for slug
    using sup [of slug] a(5,6) by (auto simp: l' pending_def)
  ultimately show ?thesis unfolding capped_ok_def by (simp only: part split_conv) blast
qed

lemma capped_ok_mono: "capped_ok (w, clock) \<Longrightarrow> clock \<le> now \<Longrightarrow> capped_ok (w, now)"
  unfolding capped_ok_def using limiter_ok_mono by fastforce

lemma HandleEvent_ok:
  assumes "capped_ok (w, clock)" "clock \<le> now"
  shows "capped_ok (HandleEvent env now ev w, now)"
proof (cases ev)
  case (IssueCreated iss pid)
  obtain send w1 where s: "admitNewIssue env now iss w = (send, w1)" by (metis surj_pair)
  have "capped_part (HandleEvent env now ev w) = capped_part w1"
    by (simp add: HandleEvent_def IssueCreated s Let_def)
  then show ?thesis using admitNewIssue_ok [OF assms, of env iss] capped_ok_part by (metis s snd_conv)
next
  case (IssueRegressed iss pid)
  then have "capped_part (HandleEvent env now ev w) = capped_part w" by (simp add: HandleEvent_def)
  then show ?thesis using capped_ok_mono [OF assms] capped_ok_part by metis
next
  case (IssueEventRecorded iss pid)
  then have "capped_part (HandleEvent env now ev w) = capped_part w" by (simp add: HandleEvent_def Let_def)
  then show ?thesis using capped_ok_mono [OF assms] capped_ok_part by metis
qed

lemma in_remove_at: "x \<in> set xs \<Longrightarrow> x \<noteq> xs ! i \<Longrightarrow> x \<in> set (remove_at i xs)"
proof -
  assume x: "x \<in> set xs" "x \<noteq> xs ! i"
  then obtain j where j: "j < length xs" "xs ! j = x" by (meson in_set_conv_nth)
  then have "j < i \<or> i < j" using x(2) by (cases j i rule: linorder_cases) auto
  then show ?thesis
  proof
    assume "j < i"
    then have "x \<in> set (take i xs)" using j by (auto simp: in_set_conv_nth)
    then show ?thesis by (simp add: remove_at_def)
  next
    assume "i < j"
    then have "drop (Suc i) xs ! (j - Suc i) = x" "j - Suc i < length (drop (Suc i) xs)" using j by auto
    then have "x \<in> set (drop (Suc i) xs)" by (metis nth_mem)
    then show ?thesis by (simp add: remove_at_def)
  qed
qed

lemma summary_timer_ok:
  assumes ok: "capped_ok (w, clock)" and t: "clock \<le> now" and i: "aw_timers w ! i = (slug, start, due)"
  shows "capped_ok (summary_timer env slug start (w\<lparr>aw_timers := remove_at i (aw_timers w)\<rparr>), now)"
proof -
  let ?l = "aw_limiter w" and ?ts = "aw_timers w"
  let ?ts' = "remove_at i ?ts"
  have lok: "limiter_ok ?l ?ts clock"
    and sup: "\<And>slug. aw_suppressed w slug = reported slug (aw_capped_log w) + pending slug ?l"
    using ok by (auto simp: capped_ok_def)
  obtain n l' where e: "expire slug start ?l = (n, l')" by (metis surj_pair)
  let ?log = "if 0 < n then aw_capped_log w @ [(slug, n)] else aw_capped_log w"
  have "capped_part (summary_timer env slug start (w\<lparr>aw_timers := ?ts'\<rparr>)) = (l', ?ts', aw_suppressed w, ?log)"
    using notifySuppressed_part [of env slug n "w\<lparr>aw_timers := ?ts', aw_limiter := l'\<rparr>"]
    by (auto simp: summary_timer_def e capped_part_cases)
  then have part: "aw_limiter (summary_timer env slug start (w\<lparr>aw_timers := ?ts'\<rparr>)) = l'"
    "aw_timers (summary_timer env slug start (w\<lparr>aw_timers := ?ts'\<rparr>)) = ?ts'"
    "aw_suppressed (summary_timer env slug start (w\<lparr>aw_timers := ?ts'\<rparr>)) = aw_suppressed w"
    "aw_capped_log (summary_timer env slug start (w\<lparr>aw_timers := ?ts'\<rparr>)) = ?log"
    by (simp_all add: capped_part_cases)
  have l': "nl_max l' = nl_max ?l" "nl_window l' = nl_window ?l"
    and win: "\<And>s u. nl_projects l' s = Some u \<Longrightarrow> nl_projects ?l s = Some u \<and> (s, iw_start u) \<noteq> (slug, start)"
    and n: "\<And>s. pending s ?l = (if s = slug then n else 0) + pending s l'"
    using e by (auto simp: expire_def pending_def split: option.splits if_splits)
  have "window_ok l' ?ts' now s u" if "nl_projects l' s = Some u" for s u
  proof -
    have u: "window_ok ?l ?ts clock s u" "(s, iw_start u) \<noteq> (slug, start)"
      using win [OF that] lok by (auto simp: limiter_ok_def)
    have "(s, iw_start u, iw_start u + nl_window ?l) \<in> set ?ts'" if "0 < iw_suppressed u"
      using u that i by (intro in_remove_at) (auto simp: window_ok_def)
    then show ?thesis using u(1) t l' by (auto simp: window_ok_def)
  qed
  then have "limiter_ok l' ?ts' now" using lok l' by (simp add: limiter_ok_def)
  moreover have "aw_suppressed w s = reported s ?log + pending s l'" for s
    using sup [of s] n [of s] by auto
  ultimately show ?thesis unfolding capped_ok_def by (simp only: part split_conv) blast
qed

lemma alert_step_ok: "capped_ok s \<Longrightarrow> alert_step env x s = Some s' \<Longrightarrow> capped_ok s'"
proof -
  assume ok: "capped_ok s" and st: "alert_step env x s = Some s'"
  obtain t op w clock where x: "x = (t, op)" "s = (w, clock)" by (metis surj_pair)
  have t: "clock \<le> t" using st x by (auto simp: alert_step_def split: if_splits)
  show ?thesis
  proof (cases op)
    case (AEvent ev)
    then show ?thesis using ok st x t HandleEvent_ok [of w clock t env ev] by (auto simp: alert_step_def)
  next
    case (ATimer i)
    obtain slug start due where i: "aw_timers w ! i = (slug, start, due)" by (metis prod_cases3)
    then have "s' = (summary_timer env slug start (w\<lparr>aw_timers := remove_at i (aw_timers w)\<rparr>), t)"
      using st x ATimer by (auto simp: alert_step_def split: if_splits)
    then show ?thesis using summary_timer_ok [OF _ t i] ok x by simp
  next
    case (ADone i delivered recorded)
    then have "s' = (fireRule i delivered recorded t w, t)" using st x t by (auto simp: alert_step_def)
    moreover have "capped_part (fireRule i delivered recorded t w) = capped_part w" by simp
    ultimately show ?thesis using capped_ok_part capped_ok_mono [OF _ t, of w] ok x by metis
  qed
qed

lemma alert_run_ok: "capped_ok s \<Longrightarrow> alert_run env xs s = Some s' \<Longrightarrow> capped_ok s'"
  by (induction xs arbitrary: s) (auto dest: alert_step_ok split: option.splits)

lemma fresh_alerts_ok: "capped_ok (fresh_alerts, t)"
  by (simp add: capped_ok_def fresh_alerts_def limiter_ok_def newNewIssueLimiter_def reported_def pending_def)

text \<open>no suppressed new issue is lost or reported twice.  Over any interleaving of events,
  summary timers and deliveries, the issues of a project whose own mail was held back are those
  counted in its summaries plus those of its current window, and as long as there are any of
  the latter their timer is armed, so once no timer is left all of them have been reported.\<close>

theorem suppressed_reported_once:
  assumes "alert_run env ops (fresh_alerts, t0) = Some (w, clock)"
  shows "aw_suppressed w slug = reported slug (aw_capped_log w) + pending slug (aw_limiter w) \<and>
    (aw_timers w = [] \<longrightarrow> aw_suppressed w slug = reported slug (aw_capped_log w))"
proof -
  have ok: "capped_ok (w, clock)" by (rule alert_run_ok [OF fresh_alerts_ok assms])
  have "pending slug (aw_limiter w) = 0" if "aw_timers w = []"
  proof (cases "nl_projects (aw_limiter w) slug")
    case (Some u)
    then have "window_ok (aw_limiter w) [] clock slug u" using ok that by (auto simp: capped_ok_def limiter_ok_def)
    then show ?thesis using Some by (simp add: pending_def window_ok_def)
  qed (simp add: pending_def)
  then show ?thesis using ok by (auto simp: capped_ok_def)
qed

definition quiet_alert_env :: alert_env where
  "quiet_alert_env = \<lparr>ae_admin = ''ops@example.org'', ae_emailConfigured = True, ae_rules = (\<lambda>_. Some []), ae_firingsReadable = True\<rparr>"

definition flood :: "(time \<times> alert_op) list" where
  "flood = map (\<lambda>t. (t, AEvent (IssueCreated (blank_issue ''boom'' ''shop'') 1))) [1, 2, 3, 4, 5, 6, 7]
     @ [(10 * minutes + 1, ATimer 0)]"

lemma flood_run:
  "map_option (\<lambda>(w, t). (aw_suppressed w ''shop'', aw_capped_log w, aw_timers w, length (aw_flying w)))
     (alert_run quiet_alert_env flood (fresh_alerts, 0)) = Some (2, [(''shop'', 2)], [], 6)"
  by (simp add: flood_def alert_step_def HandleEvent_def admitNewIssue_def fresh_alerts_def quiet_alert_env_def
      newNewIssueLimiter_def admit_def rolled_over_def evaluateRules_def notifyAdmin_def newIssueMailMax_def
      newIssueMailWindow_def time_sub_def clamp64_def Let_def summary_timer_def expire_def notifySuppressed_def
      remove_at_def blank_issue_def)

theorem suppressed_reported_once_witness:
  "\<exists>w t. alert_run quiet_alert_env flood (fresh_alerts, 0) = Some (w, t) \<and> aw_timers w = [] \<and>
     aw_suppressed w ''shop'' = 2 \<and> reported ''shop'' (aw_capped_log w) = 2"
proof -
  obtain w t where r: "alert_run quiet_alert_env flood (fresh_alerts, 0) = Some (w, t)"
    "aw_suppressed w ''shop'' = 2" "aw_timers w = []"
    using flood_run by auto
  then show ?thesis using suppressed_reported_once [OF r(1), of "''shop''"] by auto
qed

end
