(* ===== verification/AlertLimits.thy ===== *)
theory AlertLimits
  imports Alerts
begin

text \<open>
  Bounds on what alerting sends: new-issue mails per project, repeated firings of a rule, and the
  slots for SMTP connections (\<open>mail_limit.go\<close>) as a step relation.  The last section shows
  where rules fire although the documentation says they do not.
\<close>

section \<open>New-issue mails per window\<close>

text \<open>One project's admissions and the expiry of its windows; what was sent, with the start of the
  window that let it through.\<close>

datatype limit_op = LAdmit | LExpire time

type_synonym limit_state = "limiter \<times> time \<times> (time \<times> time) list"

definition limit_step :: "string \<Rightarrow> time \<times> limit_op \<Rightarrow> limit_state \<Rightarrow> limit_state option" where
  "limit_step slug x s = (case (x, s) of ((t, op), (l, clock, sends)) \<Rightarrow>
     if t < clock then None
     else (case op of
        LAdmit \<Rightarrow> (case admit t slug l of (a, l') \<Rightarrow>
          Some (l', t, if ad_send a then sends @ [(ad_start a, t)] else sends))
      | LExpire start \<Rightarrow>
          if t < start + nl_window l then None else Some (snd (expire slug start l), t, sends)))"

definition sent_in :: "time \<Rightarrow> (time \<times> time) list \<Rightarrow> nat" where
  "sent_in s sends = length (filter (\<lambda>x. fst x = s) sends)"

abbreviation (input) W :: int where "W \<equiv> newIssueMailWindow"

definition current_start :: "string \<Rightarrow> limiter \<Rightarrow> time option" where
  "current_start slug l = map_option iw_start (nl_projects l slug)"

definition sends_ok :: "string \<Rightarrow> limit_state \<Rightarrow> bool" where
  "sends_ok slug s \<longleftrightarrow> (case s of (l, clock, sends) \<Rightarrow>
     nl_max l = newIssueMailMax \<and> nl_window l = W \<and>
     (\<forall>(s, t)\<in>set sends. s \<le> t \<and> t < s + W \<and> t \<le> clock) \<and>
     (\<forall>s. sent_in s sends \<le> newIssueMailMax) \<and>
     (\<forall>x\<in>set sends. \<forall>y\<in>set sends. fst x < fst y \<longrightarrow> fst x + W \<le> fst y) \<and>
     (case nl_projects l slug of
        None \<Rightarrow> (\<forall>x\<in>set sends. fst x + W \<le> clock)
      | Some w \<Rightarrow> iw_start w \<le> clock \<and> iw_sent w = sent_in (iw_start w) sends \<and>
          (\<forall>x\<in>set sends. fst x \<noteq> iw_start w \<longrightarrow> fst x + W \<le> iw_start w)))"

lemma sent_in_snoc [simp]: "sent_in s (sends @ [(s', t)]) = sent_in s sends + (if s' = s then 1 else 0)"
  by (simp add: sent_in_def)

lemma sent_in_none: "(\<And>x. x \<in> set sends \<Longrightarrow> fst x \<noteq> s) \<Longrightarrow> sent_in s sends = 0"
  by (auto simp: sent_in_def filter_empty_conv)

lemma W_pos: "0 < W"
  by (simp add: newIssueMailWindow_def)

lemma sends_okD:
  assumes "sends_ok slug (l, clock, sends)"
  shows "nl_max l = newIssueMailMax" "nl_window l = W"
    "\<And>s t. (s, t) \<in> set sends \<Longrightarrow> s \<le> t \<and> t < s + W \<and> t \<le> clock"
    "\<And>s. sent_in s sends \<le> newIssueMailMax"
    "\<And>x y. x \<in> set sends \<Longrightarrow> y \<in> set sends \<Longrightarrow> fst x < fst y \<Longrightarrow> fst x + W \<le> fst y"
    "\<And>x. nl_projects l slug = None \<Longrightarrow> x \<in> set sends \<Longrightarrow> fst x + W \<le> clock"
    "\<And>w. nl_projects l slug = Some w \<Longrightarrow> iw_start w \<le> clock \<and> iw_sent w = sent_in (iw_start w) sends"
    "\<And>w x. nl_projects l slug = Some w \<Longrightarrow> x \<in> set sends \<Longrightarrow> fst x \<noteq> iw_start w \<Longrightarrow> fst x + W \<le> iw_start w"
  using assms unfolding sends_ok_def by (auto split: option.splits)

lemma sends_okI:
  assumes "nl_max l = newIssueMailMax" "nl_window l = W"
    and "\<And>s t. (s, t) \<in> set sends \<Longrightarrow> s \<le> t \<and> t < s + W \<and> t \<le> clock"
    and "\<And>s. sent_in s sends \<le> newIssueMailMax"
    and "\<And>x y. x \<in> set sends \<Longrightarrow> y \<in> set sends \<Longrightarrow> fst x < fst y \<Longrightarrow> fst x + W \<le> fst y"
    and "\<And>x. nl_projects l slug = None \<Longrightarrow> x \<in> set sends \<Longrightarrow> fst x + W \<le> clock"
    and "\<And>w. nl_projects l slug = Some w \<Longrightarrow> iw_start w \<le> clock \<and> iw_sent w = sent_in (iw_start w) sends"
    and "\<And>w x. nl_projects l slug = Some w \<Longrightarrow> x \<in> set sends \<Longrightarrow> fst x \<noteq> iw_start w \<Longrightarrow> fst x + W \<le> iw_start w"
  shows "sends_ok slug (l, clock, sends)"
proof -
  have "\<forall>x\<in>set sends. case x of (s, t) \<Rightarrow> s \<le> t \<and> t < s + W \<and> t \<le> clock" using assms(3) by blast
  moreover have "\<forall>x\<in>set sends. \<forall>y\<in>set sends. fst x < fst y \<longrightarrow> fst x + W \<le> fst y" using assms(5) by blast
  ultimately show ?thesis
    unfolding sends_ok_def using assms(1,2,4,6,7,8) by (cases "nl_projects l slug") simp_all
qed

text \<open>Whichever window an admission uses, all windows of earlier sends ended before it began.\<close>

lemma current_window_sends:
  assumes ok: "sends_ok slug (l, clock, sends)" and t: "clock \<le> now"
  shows "iw_start (current_window now slug l) \<le> now \<and> now < iw_start (current_window now slug l) + W \<and>
    iw_sent (current_window now slug l) = sent_in (iw_start (current_window now slug l)) sends \<and>
    (\<forall>x\<in>set sends. fst x \<noteq> iw_start (current_window now slug l) \<longrightarrow> fst x + W \<le> iw_start (current_window now slug l))"
proof (cases "nl_projects l slug")
  case None
  have "fst x + W \<le> now" if "x \<in> set sends" for x
    using sends_okD(6) [OF ok None that] t by simp
  moreover from this have "sent_in now sends = 0" using W_pos by (intro sent_in_none) force
  ultimately show ?thesis using None W_pos by (simp add: current_window_def)
next
  case (Some w)
  note s = sends_okD(7) [OF ok Some] sends_okD(8) [OF ok Some]
  show ?thesis
  proof (cases "rolled_over now l w")
    case True
    then have r: "iw_start w + W \<le> now" using rolled_over_iff [OF sends_okD(2) [OF ok], of now w] by simp
    have "fst x + W \<le> now" if "x \<in> set sends" for x
      using s(2) [OF that] r s(1) t by (cases "fst x = iw_start w") auto
    moreover from this have "sent_in now sends = 0" using W_pos by (intro sent_in_none) force
    ultimately show ?thesis using Some True W_pos by (simp add: current_window_def)
  next
    case False
    then have "now < iw_start w + W" using rolled_over_iff [OF sends_okD(2) [OF ok], of now w] by simp
    then show ?thesis using Some False s t by (auto simp: current_window_def)
  qed
qed

lemma limit_step_ok: "sends_ok slug s \<Longrightarrow> limit_step slug x s = Some s' \<Longrightarrow> sends_ok slug s'"
proof -
  assume ok: "sends_ok slug s" and st: "limit_step slug x s = Some s'"
  obtain t op l clock sends where x: "x = (t, op)" "s = (l, clock, sends)" by (metis surj_pair)
  note ok' = ok [unfolded x]
  have t: "clock \<le> t" using st x by (auto simp: limit_step_def split: if_splits)
  have old: "(a, b) \<in> set sends \<Longrightarrow> a \<le> b \<and> b < a + W \<and> b \<le> t" for a b
    using sends_okD(3) [OF ok'] t by fastforce
  show ?thesis
  proof (cases op)
    case (LExpire start)
    then have s': "s' = (snd (expire slug start l), t, sends)" "start + W \<le> t"
      using st x sends_okD(2) [OF ok'] by (auto simp: limit_step_def split: if_splits)
    show ?thesis
    proof (cases "nl_projects l slug")
      case None
      then have "expire slug start l = (0, l)" by (simp add: expire_def)
      then show ?thesis
        unfolding s' using sends_okD(1,2,4,5) [OF ok'] sends_okD(6) [OF ok' None] old t None
        by (intro sends_okI) (auto intro: order_trans [OF _ t])
    next
      case (Some w)
      note sw = sends_okD(7) [OF ok' Some] sends_okD(8) [OF ok' Some]
      show ?thesis
      proof (cases "iw_start w = start")
        case True
        have "fst x + W \<le> t" if "x \<in> set sends" for x
          using sw(2) [OF that] s'(2) True W_pos by (cases "fst x = start") auto
        then show ?thesis
          unfolding s' using sends_okD(1,2,4,5) [OF ok'] old Some True
          by (intro sends_okI) (auto simp: expire_def)
      next
        case False
        then have "expire slug start l = (0, l)" using Some by (simp add: expire_def)
        then show ?thesis
          unfolding s' using sends_okD(1,2,4,5) [OF ok'] sw old t Some
          by (intro sends_okI) (auto intro: order_trans)
      qed
    qed
  next
    case LAdmit
    obtain v where v: "v = current_window t slug l" by blast
    note cw = current_window_sends [OF ok' t, folded v]
    let ?send = "iw_sent v < newIssueMailMax"
    let ?w = "if ?send then v\<lparr>iw_sent := Suc (iw_sent v)\<rparr> else v\<lparr>iw_suppressed := Suc (iw_suppressed v)\<rparr>"
    let ?sends = "if ?send then sends @ [(iw_start v, t)] else sends"
    have s': "s' = (l\<lparr>nl_projects := (nl_projects l)(slug \<mapsto> ?w)\<rparr>, t, ?sends)"
      using st x LAdmit sends_okD(1) [OF ok'] by (auto simp: limit_step_def admit_eq v [symmetric] Let_def split: if_splits)
    have 1: "(a, b) \<in> set ?sends \<Longrightarrow> a \<le> b \<and> b < a + W \<and> b \<le> t" for a b
      using old cw by (auto split: if_splits)
    have 2: "sent_in a ?sends \<le> newIssueMailMax" for a
      using sends_okD(4) [OF ok', of a] cw by auto
    have 3: "fst x + W \<le> iw_start v" if "x \<in> set ?sends" "fst x \<noteq> iw_start v" for x
      using that cw by (auto split: if_splits)
    have 4: "fst x + W \<le> fst y" if "x \<in> set ?sends" "y \<in> set ?sends" "fst x < fst y" for x y
    proof (cases "y \<in> set sends")
      case y: True
      show ?thesis
      proof (cases "x \<in> set sends")
        case True
        then show ?thesis using sends_okD(5) [OF ok' True y that(3)] by simp
      next
        case False
        then have "fst x = iw_start v" using that(1) by (auto split: if_splits)
        then have "fst y + W \<le> fst x" using 3 [OF that(2)] that(3) by simp
        then show ?thesis using that(3) W_pos by simp
      qed
    next
      case False
      then have "fst y = iw_start v" using that(2) by (auto split: if_splits)
      then show ?thesis using 3 [OF that(1)] that(3) by simp
    qed
    have 5: "iw_start ?w = iw_start v" "iw_sent ?w = sent_in (iw_start v) ?sends" using cw by auto
    show ?thesis
      unfolding s'
    proof (rule sends_okI)
      show "s \<le> u \<and> u < s + W \<and> u \<le> t" if "(s, u) \<in> set ?sends" for s u using 1 [OF that] .
      show "sent_in s ?sends \<le> newIssueMailMax" for s by (rule 2)
      show "fst x + W \<le> fst y" if "x \<in> set ?sends" "y \<in> set ?sends" "fst x < fst y" for x y using 4 [OF that] .
      show "iw_start w \<le> t \<and> iw_sent w = sent_in (iw_start w) ?sends"
        if "nl_projects (l\<lparr>nl_projects := (nl_projects l)(slug \<mapsto> ?w)\<rparr>) slug = Some w" for w
      proof -
        have "w = ?w" using that by simp
        then show ?thesis using 5 cw by simp
      qed
      show "fst x + W \<le> iw_start w"
        if "nl_projects (l\<lparr>nl_projects := (nl_projects l)(slug \<mapsto> ?w)\<rparr>) slug = Some w" "x \<in> set ?sends" "fst x \<noteq> iw_start w" for w x
      proof -
        have "w = ?w" using that(1) by simp
        then show ?thesis using 3 [OF that(2)] that(3) 5(1) by simp
      qed
    qed (use sends_okD(1,2) [OF ok'] in simp_all)
  qed
qed

lemma starts_in_two_windows:
  assumes "finite S" "0 < d" "\<And>s. s \<in> S \<Longrightarrow> a - d < s \<and> s < a + d" "\<And>s s'. s \<in> S \<Longrightarrow> s' \<in> S \<Longrightarrow> s < s' \<Longrightarrow> s + d \<le> (s'::int)"
  shows "card S \<le> 2"
proof (cases "S = {}")
  case False
  let ?m = "Min S"
  have m: "?m \<in> S" using assms(1) False by (rule Min_in)
  have "x = y" if "x \<in> S - {?m}" "y \<in> S - {?m}" for x y
  proof -
    have "?m < x" "?m < y" using that assms(1) by (simp_all add: order.not_eq_order_implies_strict)
    then have "?m + d \<le> x" "?m + d \<le> y" using assms(4) [OF m] that by auto
    then show ?thesis using assms(3) [OF m] assms(3) [of x] assms(3) [of y] assms(4) [of x y] assms(4) [of y x] that
      by (cases x y rule: linorder_cases) auto
  qed
  then have "card (S - {?m}) \<le> 1" using assms(1) by (simp add: card_le_Suc0_iff_eq)
  then show ?thesis using m assms(1) by (simp add: card_Diff_singleton)
qed simp

lemma length_filter_by_key:
  "finite S \<Longrightarrow> (\<And>x. x \<in> set xs \<Longrightarrow> P x \<Longrightarrow> fst x \<in> S) \<Longrightarrow>
   length (filter P xs) \<le> (\<Sum>s\<in>S. length (filter (\<lambda>x. fst x = s) xs))"
proof (induction xs)
  case (Cons x xs)
  have ih: "length (filter P xs) \<le> (\<Sum>s\<in>S. length (filter (\<lambda>x. fst x = s) xs))"
    using Cons by auto
  have "(\<Sum>s\<in>S. length (filter (\<lambda>x. fst x = s) (x # xs)))
      = (\<Sum>s\<in>S. (if fst x = s then 1 else 0) + length (filter (\<lambda>x. fst x = s) xs))"
    by (intro sum.cong) auto
  also have "\<dots> = (\<Sum>s\<in>S. (if fst x = s then 1 else 0)) + (\<Sum>s\<in>S. length (filter (\<lambda>x. fst x = s) xs))"
    by (rule sum.distrib)
  also have "(\<Sum>s\<in>S. (if fst x = s then 1 else (0::nat))) = (if fst x \<in> S then 1 else 0)"
    using Cons.prems(1) by simp
  finally show ?case using ih Cons.prems(2) [of x] by auto
qed simp

lemma sends_bounded:
  assumes ok: "sends_ok slug (l, clock, sends)"
  shows "length (filter (\<lambda>x. a \<le> snd x \<and> snd x < a + W) sends) \<le> 10"
proof -
  let ?P = "\<lambda>x. a \<le> snd x \<and> snd x < a + W"
  let ?S = "fst ` set (filter ?P sends)"
  have "card ?S \<le> 2"
  proof (rule starts_in_two_windows)
    show "a - W < s \<and> s < a + W" if "s \<in> ?S" for s
      using that sends_okD(3) [OF ok] by fastforce
    show "s + W \<le> s'" if "s \<in> ?S" "s' \<in> ?S" "s < s'" for s s'
      using that sends_okD(5) [OF ok] by auto
  qed (simp_all add: W_pos)
  have "length (filter ?P sends) \<le> (\<Sum>s\<in>?S. sent_in s sends)"
    unfolding sent_in_def by (rule length_filter_by_key) auto
  also have "\<dots> \<le> (\<Sum>s\<in>?S. newIssueMailMax)" by (intro sum_mono sends_okD(4) [OF ok])
  also have "\<dots> = card ?S * newIssueMailMax" by simp
  also have "\<dots> \<le> 2 * newIssueMailMax" using \<open>card ?S \<le> 2\<close> by (rule mult_le_mono1)
  finally show ?thesis by (simp add: newIssueMailMax_def)
qed

text \<open>Since the window that is open began, all admissions were admissions in it.\<close>

lemma sends_in_open_window:
  assumes ok: "sends_ok slug (l, clock, sends)" and u: "nl_projects l slug = Some u"
  shows "length (filter (\<lambda>x. iw_start u \<le> snd x) sends) \<le> 5"
proof -
  have "fst x = iw_start u" if "x \<in> set sends" "iw_start u \<le> snd x" for x
    using sends_okD(8) [OF ok u that(1)] sends_okD(3) [OF ok, of "fst x" "snd x"] that by fastforce
  then have "length (filter (\<lambda>x. iw_start u \<le> snd x) sends) \<le> sent_in (iw_start u) sends"
    unfolding sent_in_def by (induction sends) auto
  also have "\<dots> \<le> 5" using sends_okD(4) [OF ok, of "iw_start u"] by (simp add: newIssueMailMax_def)
  finally show ?thesis .
qed

text \<open>The limiter only matters to a project by its own window.\<close>

lemma sends_ok_cong:
  assumes "sends_ok slug (l, clock, sends)" "clock \<le> t"
    and "nl_max l' = nl_max l" "nl_window l' = nl_window l" "nl_projects l' slug = nl_projects l slug"
  shows "sends_ok slug (l', t, sends)"
proof (rule sends_okI)
  fix s u assume "(s, u) \<in> set sends"
  then show "s \<le> u \<and> u < s + W \<and> u \<le> t" using sends_okD(3) [OF assms(1), of s u] assms(2) by simp
next
  fix x assume "nl_projects l' slug = None" "x \<in> set sends"
  then show "fst x + W \<le> t" using sends_okD(6) [OF assms(1), of x] assms(2,5) by simp
next
  fix w assume "nl_projects l' slug = Some w"
  then show "iw_start w \<le> t \<and> iw_sent w = sent_in (iw_start w) sends"
    using sends_okD(7) [OF assms(1), of w] assms(2,5) by simp
qed (use sends_okD [OF assms(1)] assms(3-5) in simp_all)

section \<open>What an event and a timer start\<close>

text \<open>A delivery that mails about one new issue of a project: the administrator's, or that of a
  \<open>new_issue\<close> rule with an address.\<close>

definition new_issue_mail :: "string \<Rightarrow> alert_rule \<times> issue \<Rightarrow> bool" where
  "new_issue_mail slug d \<longleftrightarrow> al_condition (fst d) = ''new_issue'' \<and> al_email (fst d) \<noteq> [] \<and> is_ProjectSlug (snd d) = slug"

definition mailing_rule :: "alert_rule \<Rightarrow> bool" where
  "mailing_rule r \<longleftrightarrow> al_enabled r \<and> al_condition r = ''new_issue'' \<and> al_email r \<noteq> []"

definition mail_rules :: "alert_env \<Rightarrow> nat \<Rightarrow> bool" where
  "mail_rules env M \<longleftrightarrow> (\<forall>pid rules. ae_rules env pid = Some rules \<longrightarrow> length (filter mailing_rule rules) \<le> M)"

definition adds :: "string \<Rightarrow> nat \<Rightarrow> alert_world \<Rightarrow> alert_world \<Rightarrow> bool" where
  "adds slug n w w' \<longleftrightarrow> (\<exists>ds. aw_flying w' = aw_flying w @ ds \<and> length (filter (new_issue_mail slug) ds) \<le> n)"

lemma adds_refl: "aw_flying w' = aw_flying w \<Longrightarrow> adds slug n w w'"
  by (simp add: adds_def)

lemma adds_trans: "adds slug n w w1 \<Longrightarrow> adds slug m w1 w2 \<Longrightarrow> n + m \<le> k \<Longrightarrow> adds slug k w w2"
  unfolding adds_def by fastforce

lemma adds_notifyAdmin:
  "adds slug (if cond = ''new_issue'' \<and> is_ProjectSlug iss = slug then 1 else 0) w (notifyAdmin env iss cond w)"
  by (auto simp: adds_def notifyAdmin_def new_issue_mail_def admin_rule_def)

lemma length_filter_imp: "(\<And>x. P x \<Longrightarrow> Q x) \<Longrightarrow> length (filter P xs) \<le> length (filter Q xs)"
  by (induction xs) (auto intro: le_SucI)

lemma adds_evaluateRules:
  assumes "mail_rules env M"
  shows "adds slug (if cond = ''new_issue'' \<and> is_ProjectSlug iss = slug \<and> \<not> capped then M else 0) w
    (evaluateRules env now pid iss cond capped w)"
proof (cases "ae_rules env pid")
  case (Some rules)
  let ?rs = "filter (\<lambda>r. ruleMatches r iss cond capped \<and> cooldownPassed env now r (is_ID iss) w) rules"
  have fly: "aw_flying (evaluateRules env now pid iss cond capped w) = aw_flying w @ map (\<lambda>r. (r, iss)) ?rs"
    by (simp add: evaluateRules_def Some)
  have m: "new_issue_mail slug (r, iss) \<Longrightarrow> ruleMatches r iss cond capped
      \<Longrightarrow> cond = ''new_issue'' \<and> is_ProjectSlug iss = slug \<and> \<not> capped \<and> mailing_rule r" for r
    by (auto simp: new_issue_mail_def ruleMatches_def mailing_rule_def split: if_splits)
  have c: "length (filter (new_issue_mail slug) (map (\<lambda>r. (r, iss)) ?rs)) = length (filter (\<lambda>r. new_issue_mail slug (r, iss)) ?rs)"
    by (simp add: filter_map comp_def)
  show ?thesis
  proof (cases "cond = ''new_issue'' \<and> is_ProjectSlug iss = slug \<and> \<not> capped")
    case True
    have "length (filter (\<lambda>r. new_issue_mail slug (r, iss)) ?rs) \<le> length (filter mailing_rule rules)"
      unfolding filter_filter using m by (intro length_filter_imp) blast
    also have "\<dots> \<le> M" using assms Some by (simp add: mail_rules_def)
    finally show ?thesis unfolding adds_def fly using True c by auto
  next
    case False
    then have "filter (\<lambda>r. new_issue_mail slug (r, iss)) ?rs = []" using m by (auto simp: filter_empty_conv)
    then show ?thesis unfolding adds_def fly using False c by auto
  qed
qed (simp add: adds_refl evaluateRules_def)

lemma adds_notifySuppressed: "adds slug 0 w (notifySuppressed env slug' n w)"
proof -
  have n: "adds slug 0 v (notifyAdmin env iss ''new_issue_flood'' v)" for iss v
    using adds_notifyAdmin [of slug "''new_issue_flood''" iss v env] by simp
  show ?thesis unfolding notifySuppressed_def by (rule adds_trans [OF adds_refl n]) simp_all
qed

lemma adds_admitNewIssue: "adds slug 0 w (snd (admitNewIssue env now iss w))"
proof -
  obtain a l where al: "admit now (is_ProjectSlug iss) (aw_limiter w) = (a, l)" by (metis surj_pair)
  let ?w2 = "if 0 < ad_summarize a then notifySuppressed env (is_ProjectSlug iss) (ad_summarize a) (w\<lparr>aw_limiter := l\<rparr>)
    else w\<lparr>aw_limiter := l\<rparr>"
  have "adds slug 0 w (w\<lparr>aw_limiter := l\<rparr>)" by (rule adds_refl) simp
  then have "adds slug 0 w ?w2" using adds_trans [OF _ adds_notifySuppressed, of slug 0] by auto
  moreover have "adds slug 0 ?w2 (snd (admitNewIssue env now iss w))"
    by (rule adds_refl) (simp add: admitNewIssue_def al Let_def)
  ultimately show ?thesis by (rule adds_trans) simp
qed

text \<open>How many such mails an event starts.\<close>

definition event_mails :: "string \<Rightarrow> nat \<Rightarrow> time \<Rightarrow> domain_event \<Rightarrow> limiter \<Rightarrow> nat" where
  "event_mails slug M now ev l = (case ev of
     IssueCreated iss pid \<Rightarrow> if is_ProjectSlug iss = slug \<and> ad_send (fst (admit now slug l)) then M + 1 else 0
   | _ \<Rightarrow> 0)"

lemma fst_admitNewIssue: "fst (admitNewIssue env now iss w) = ad_send (fst (admit now (is_ProjectSlug iss) (aw_limiter w)))"
  by (simp add: admitNewIssue_def Let_def split: prod.splits)

lemma adds_HandleEvent:
  assumes "mail_rules env M"
  shows "adds slug (event_mails slug M now ev (aw_limiter w)) w (HandleEvent env now ev w)"
proof (cases ev)
  case (IssueCreated iss pid)
  obtain send w1 where s: "admitNewIssue env now iss w = (send, w1)" by (metis surj_pair)
  let ?w2 = "evaluateRules env now pid iss ''new_issue'' (\<not> send) w1"
  let ?w3 = "evaluateRules env now pid iss ''message_contains'' False ?w2"
  let ?n = "if is_ProjectSlug iss = slug \<and> send then M else 0"
  have "adds slug 0 w w1" using adds_admitNewIssue [of slug w env now iss] s by simp
  moreover have "adds slug ?n w1 ?w2" using adds_evaluateRules [OF assms, of slug "''new_issue''" iss "\<not> send"] by simp
  moreover have "adds slug 0 ?w2 ?w3" using adds_evaluateRules [OF assms, of slug "''message_contains''" iss False] by simp
  ultimately have w3: "adds slug ?n w ?w3" using adds_trans [of slug 0 w w1 ?n ?w2 ?n] adds_trans [of slug ?n w ?w2 0 ?w3 ?n] by simp
  have send: "send = ad_send (fst (admit now (is_ProjectSlug iss) (aw_limiter w)))"
    using fst_admitNewIssue [of env now iss w] s by simp
  show ?thesis
  proof (cases send)
    case True
    have "adds slug (if is_ProjectSlug iss = slug then M + 1 else 0) w (notifyAdmin env iss ''new_issue'' ?w3)"
      by (rule adds_trans [OF w3 adds_notifyAdmin]) simp
    then show ?thesis using True send
      by (cases "is_ProjectSlug iss = slug") (simp_all add: HandleEvent_def IssueCreated s Let_def event_mails_def)
  next
    case False
    then show ?thesis using w3 send
      by (cases "is_ProjectSlug iss = slug") (simp_all add: HandleEvent_def IssueCreated s Let_def event_mails_def)
  qed
next
  case (IssueRegressed iss pid)
  have e: "adds slug 0 v (evaluateRules env now pid iss cond False v)" if "cond \<noteq> ''new_issue''" for cond v
    using adds_evaluateRules [OF assms, of slug cond iss False v now pid] that by simp
  have n: "adds slug 0 v (notifyAdmin env iss ''regression'' v)" for v
    using adds_notifyAdmin [of slug "''regression''" iss v env] by simp
  have "adds slug 0 w (evaluateRules env now pid iss ''message_contains'' False (evaluateRules env now pid iss ''regression'' False w))"
    by (rule adds_trans [OF e e]) simp_all
  then have "adds slug 0 w (HandleEvent env now ev w)"
    unfolding HandleEvent_def IssueRegressed domain_event.case by (rule adds_trans [OF _ n]) simp
  then show ?thesis by (simp add: event_mails_def IssueRegressed)
next
  case (IssueEventRecorded iss pid)
  have "adds slug 0 w (evaluateRules env now pid iss ''event_count_exceeds'' False w)"
    using adds_evaluateRules [OF assms, of slug "''event_count_exceeds''" iss False w now pid] by simp
  moreover have "adds slug 0 v (notifyAdmin env iss ''event_spike'' v)" for v
    using adds_notifyAdmin [of slug "''event_spike''" iss v env] by simp
  ultimately have "adds slug 0 w (HandleEvent env now ev w)"
    using adds_trans [of slug 0 w _ 0 _ 0] by (auto simp: HandleEvent_def IssueEventRecorded Let_def)
  then show ?thesis by (simp add: event_mails_def IssueEventRecorded)
qed

section \<open>The mails of a run\<close>

text \<open>The deliveries a step starts, with its time.\<close>

definition started :: "time \<times> alert_op \<Rightarrow> alert_world \<Rightarrow> alert_world \<Rightarrow> (time \<times> alert_rule \<times> issue) list" where
  "started x w w' = (case snd x of
     ADone i delivered recorded \<Rightarrow> []
   | _ \<Rightarrow> map (Pair (fst x)) (drop (length (aw_flying w)) (aw_flying w')))"

fun run_started :: "alert_env \<Rightarrow> (time \<times> alert_op) list \<Rightarrow> alert_world \<times> time \<Rightarrow> (time \<times> alert_rule \<times> issue) list" where
  "run_started env [] s = []"
| "run_started env (x # xs) s = (case alert_step env x s of
     None \<Rightarrow> [] | Some s' \<Rightarrow> started x (fst s) (fst s') @ run_started env xs s')"

definition mails_when :: "string \<Rightarrow> (time \<Rightarrow> bool) \<Rightarrow> (time \<times> alert_rule \<times> issue) list \<Rightarrow> nat" where
  "mails_when slug P ds = length (filter (\<lambda>d. P (fst d) \<and> new_issue_mail slug (snd d)) ds)"

definition timers_due :: "alert_world \<Rightarrow> bool" where
  "timers_due w \<longleftrightarrow> (\<forall>(slug, start, due)\<in>set (aw_timers w). start + W \<le> due)"

definition mail_inv :: "string \<Rightarrow> alert_world \<times> time \<Rightarrow> (time \<times> time) list \<Rightarrow> bool" where
  "mail_inv slug s sends \<longleftrightarrow> capped_ok s \<and> timers_due (fst s) \<and> sends_ok slug (aw_limiter (fst s), snd s, sends)"

lemma mails_when_append: "mails_when slug P (ds @ es) = mails_when slug P ds + mails_when slug P es"
  by (simp add: mails_when_def)

lemma adds_mails:
  assumes "adds slug n w w'" "\<nexists>i d r. snd x = ADone i d r"
  shows "mails_when slug P (started x w w') \<le> (if P (fst x) then n else 0)"
proof -
  obtain ds where ds: "aw_flying w' = aw_flying w @ ds" "length (filter (new_issue_mail slug) ds) \<le> n"
    using assms(1) by (auto simp: adds_def)
  have "started x w w' = map (Pair (fst x)) ds"
    using assms(2) ds(1) by (cases "snd x") (simp_all add: started_def)
  then show ?thesis using ds(2) by (simp add: mails_when_def filter_map comp_def)
qed

lemma HandleEvent_limiter:
  "aw_limiter (HandleEvent env now ev w) = (case ev of
     IssueCreated iss pid \<Rightarrow> snd (admit now (is_ProjectSlug iss) (aw_limiter w)) | _ \<Rightarrow> aw_limiter w)"
  "aw_timers (HandleEvent env now ev w) = aw_timers w @ (case ev of
     IssueCreated iss pid \<Rightarrow> (let a = fst (admit now (is_ProjectSlug iss) (aw_limiter w)) in
        if ad_schedule a then [(is_ProjectSlug iss, ad_start a, now + ad_remaining a)] else [])
   | _ \<Rightarrow> [])"
proof -
  have part: "aw_limiter v = aw_limiter v'" "aw_timers v = aw_timers v'" if "capped_part v = capped_part v'" for v v'
    using that by (simp_all add: capped_part_def)
  have h: "capped_part (HandleEvent env now ev w) = (case ev of
     IssueCreated iss pid \<Rightarrow> capped_part (snd (admitNewIssue env now iss w)) | _ \<Rightarrow> capped_part w)"
    by (cases ev) (simp_all add: HandleEvent_def Let_def split: prod.splits)
  have n: "aw_limiter (notifySuppressed env slug n v) = aw_limiter v" "aw_timers (notifySuppressed env slug n v) = aw_timers v" for slug n v
    using notifySuppressed_part [of env slug n v] by (simp_all add: capped_part_def)
  have a: "aw_limiter (snd (admitNewIssue env now iss w)) = snd (admit now (is_ProjectSlug iss) (aw_limiter w))"
    "aw_timers (snd (admitNewIssue env now iss w)) = aw_timers w @ (let a = fst (admit now (is_ProjectSlug iss) (aw_limiter w)) in
        if ad_schedule a then [(is_ProjectSlug iss, ad_start a, now + ad_remaining a)] else [])" for iss
  proof -
    obtain a l where al: "admit now (is_ProjectSlug iss) (aw_limiter w) = (a, l)" by (metis surj_pair)
    let ?w2 = "if 0 < ad_summarize a then notifySuppressed env (is_ProjectSlug iss) (ad_summarize a) (w\<lparr>aw_limiter := l\<rparr>)
      else w\<lparr>aw_limiter := l\<rparr>"
    have w2: "aw_limiter ?w2 = l" "aw_timers ?w2 = aw_timers w" by (simp_all add: n)
    obtain v2 where v2: "v2 = ?w2" by blast
    have w2': "aw_limiter v2 = l" "aw_timers v2 = aw_timers w" unfolding v2 by (rule w2)+
    have s: "snd (admitNewIssue env now iss w) = (let w3 = (if \<not> ad_send a then v2\<lparr>aw_suppressed := (aw_suppressed v2)
          (is_ProjectSlug iss := Suc (aw_suppressed v2 (is_ProjectSlug iss)))\<rparr> else v2)
        in if ad_schedule a then w3\<lparr>aw_timers := aw_timers w3 @ [(is_ProjectSlug iss, ad_start a, now + ad_remaining a)]\<rparr> else w3)"
      unfolding admitNewIssue_def al Let_def split_conv snd_conv v2 [symmetric] by (rule refl)
    show "aw_limiter (snd (admitNewIssue env now iss w)) = snd (admit now (is_ProjectSlug iss) (aw_limiter w))"
      unfolding s al using w2'(1) by (simp add: Let_def)
    show "aw_timers (snd (admitNewIssue env now iss w)) = aw_timers w @ (let a = fst (admit now (is_ProjectSlug iss) (aw_limiter w)) in
        if ad_schedule a then [(is_ProjectSlug iss, ad_start a, now + ad_remaining a)] else [])"
      unfolding s al using w2'(2) by (simp add: Let_def)
  qed
  show "aw_limiter (HandleEvent env now ev w) = (case ev of
     IssueCreated iss pid \<Rightarrow> snd (admit now (is_ProjectSlug iss) (aw_limiter w)) | _ \<Rightarrow> aw_limiter w)"
  proof (cases ev)
    case (IssueCreated iss pid)
    then show ?thesis using part(1) [of "HandleEvent env now ev w" "snd (admitNewIssue env now iss w)"] h a(1) [of iss] by simp
  qed (use part(1) [of "HandleEvent env now ev w" w] h in simp_all)
  show "aw_timers (HandleEvent env now ev w) = aw_timers w @ (case ev of
     IssueCreated iss pid \<Rightarrow> (let a = fst (admit now (is_ProjectSlug iss) (aw_limiter w)) in
        if ad_schedule a then [(is_ProjectSlug iss, ad_start a, now + ad_remaining a)] else [])
   | _ \<Rightarrow> [])"
  proof (cases ev)
    case (IssueCreated iss pid)
    then show ?thesis using part(2) [of "HandleEvent env now ev w" "snd (admitNewIssue env now iss w)"] h a(2) [of iss] by simp
  qed (use part(2) [of "HandleEvent env now ev w" w] h in simp_all)
qed

lemma HandleEvent_timers_due:
  assumes "capped_ok (w, clock)" "clock \<le> now" "timers_due w"
  shows "timers_due (HandleEvent env now ev w)"
proof -
  have l: "limiter_ok (aw_limiter w) (aw_timers w) clock" using assms(1) by (simp add: capped_ok_def)
  then have win: "nl_window (aw_limiter w) = W" by (simp add: limiter_ok_def)
  have "ad_start (fst (admit now slug (aw_limiter w))) + W = now + ad_remaining (fst (admit now slug (aw_limiter w)))" for slug
    using admit_remaining [OF l assms(2), of slug] win by (simp add: admit_eq Let_def)
  then show ?thesis
    using assms(3) unfolding timers_due_def HandleEvent_limiter by (cases ev) (auto simp: Let_def)
qed

lemma admit_other: "slug' \<noteq> slug \<Longrightarrow> nl_projects (snd (admit t slug' l)) slug = nl_projects l slug"
  "nl_max (snd (admit t slug' l)) = nl_max l" "nl_window (snd (admit t slug' l)) = nl_window l"
  by (simp_all add: admit_eq Let_def)

lemma expire_other: "slug' \<noteq> slug \<Longrightarrow> nl_projects (snd (expire slug' start l)) slug = nl_projects l slug"
  "nl_max (snd (expire slug' start l)) = nl_max l" "nl_window (snd (expire slug' start l)) = nl_window l"
  by (simp_all add: expire_def split: option.splits)

lemma event_sends:
  assumes "mail_inv slug (w, clock) sends" "clock \<le> t" "mail_rules env M"
  shows "\<exists>new. mail_inv slug (HandleEvent env t ev w, t) (sends @ new) \<and> (\<forall>P. mails_when slug P (started (t, AEvent ev) w (HandleEvent env t ev w))
      \<le> (M + 1) * length (filter (P \<circ> snd) new))"
proof -
  let ?l = "aw_limiter w" and ?w = "HandleEvent env t ev w"
  have inv: "capped_ok (w, clock)" "timers_due w" "sends_ok slug (?l, clock, sends)" using assms(1) by (simp_all add: mail_inv_def)
  have base: "capped_ok (?w, t)" "timers_due ?w"
    using HandleEvent_ok [OF inv(1) assms(2)] HandleEvent_timers_due [OF inv(1) assms(2) inv(2)] by blast+
  have mails: "mails_when slug P (started (t, AEvent ev) w ?w) \<le> (if P t then event_mails slug M t ev ?l else 0)" for P
    using adds_mails [OF adds_HandleEvent [OF assms(3)], where x = "(t, AEvent ev)"] by simp
  show ?thesis
  proof (cases "\<exists>iss pid. ev = IssueCreated iss pid \<and> is_ProjectSlug iss = slug")
    case True
    then obtain iss pid where ev: "ev = IssueCreated iss pid" "is_ProjectSlug iss = slug" by blast
    let ?a = "fst (admit t slug ?l)"
    let ?new = "if ad_send ?a then [(ad_start ?a, t)] else []"
    have lim: "aw_limiter ?w = snd (admit t slug ?l)" by (simp add: HandleEvent_limiter ev)
    have "limit_step slug (t, LAdmit) (?l, clock, sends) = Some (aw_limiter ?w, t, sends @ ?new)"
      using assms(2) by (simp add: limit_step_def lim split: prod.splits)
    then have "sends_ok slug (aw_limiter ?w, t, sends @ ?new)" using limit_step_ok inv(3) by blast
    then have "mail_inv slug (?w, t) (sends @ ?new)" using base by (simp add: mail_inv_def)
    moreover have "mails_when slug P (started (t, AEvent ev) w ?w) \<le> (M + 1) * length (filter (P \<circ> snd) ?new)" for P
      using mails [of P] by (auto simp: event_mails_def ev split: if_splits)
    ultimately show ?thesis by blast
  next
    case False
    have p: "nl_projects (aw_limiter ?w) slug = nl_projects ?l slug" "nl_max (aw_limiter ?w) = nl_max ?l"
      "nl_window (aw_limiter ?w) = nl_window ?l"
      using False admit_other by (cases ev; simp add: HandleEvent_limiter)+
    have "sends_ok slug (aw_limiter ?w, t, sends)" by (rule sends_ok_cong [OF inv(3) assms(2) p(2,3,1)])
    moreover have "event_mails slug M t ev ?l = 0" using False by (cases ev) (auto simp: event_mails_def)
    then have "mails_when slug P (started (t, AEvent ev) w ?w) = 0" for P using mails [of P] by (simp split: if_splits)
    ultimately show ?thesis using base by (intro exI [of _ "[]"]) (simp add: mail_inv_def)
  qed
qed

lemma timer_sends:
  assumes "mail_inv slug (w, clock) sends" "clock \<le> t" "i < length (aw_timers w)" "aw_timers w ! i = (slug', start, due)" "due \<le> t"
    and "w' = summary_timer env slug' start (w\<lparr>aw_timers := remove_at i (aw_timers w)\<rparr>)"
  shows "mail_inv slug (w', t) sends \<and> (\<forall>P. mails_when slug P (started (t, ATimer i) w w') = 0)"
proof -
  let ?l = "aw_limiter w" and ?v = "w\<lparr>aw_timers := remove_at i (aw_timers w)\<rparr>"
  have inv: "capped_ok (w, clock)" "timers_due w" "sends_ok slug (?l, clock, sends)" using assms(1) by (simp_all add: mail_inv_def)
  have n: "aw_limiter (notifySuppressed env s n v) = aw_limiter v" "aw_timers (notifySuppressed env s n v) = aw_timers v" for s n v
    using notifySuppressed_part [of env s n v] by (simp_all add: capped_part_def)
  have l: "aw_limiter w' = snd (expire slug' start ?l)" "aw_timers w' = remove_at i (aw_timers w)"
    unfolding assms(6) summary_timer_def by (simp_all add: n split: prod.splits)
  have "(slug', start, due) \<in> set (aw_timers w)" using assms(3,4) nth_mem by metis
  then have due: "start + W \<le> t" using inv(2) assms(5) by (auto simp: timers_due_def)
  have c: "capped_ok (w', t)" using summary_timer_ok [OF inv(1) assms(2,4)] assms(6) by simp
  have "set (remove_at i (aw_timers w)) \<subseteq> set (aw_timers w)"
    by (auto simp: remove_at_def dest: in_set_takeD in_set_dropD)
  then have "timers_due w'" using inv(2) l(2) by (auto simp: timers_due_def)
  moreover have "sends_ok slug (aw_limiter w', t, sends)"
  proof (cases "slug' = slug")
    case True
    have "limit_step slug (t, LExpire start) (?l, clock, sends) = Some (aw_limiter w', t, sends)"
      using assms(2) due sends_okD(2) [OF inv(3)] by (simp add: limit_step_def l(1) True)
    then show ?thesis using limit_step_ok inv(3) by blast
  next
    case False
    then show ?thesis using sends_ok_cong [OF inv(3) assms(2)] expire_other(1) [of slug' slug start ?l] expire_other(2,3) [of slug' start ?l] by (simp add: l(1))
  qed
  moreover have "adds slug 0 w w'"
  proof -
    obtain k l' where e: "expire slug' start ?l = (k, l')" by (metis surj_pair)
    have "adds slug 0 w (notifySuppressed env slug' k (?v\<lparr>aw_limiter := l'\<rparr>))"
      by (rule adds_trans [OF adds_refl adds_notifySuppressed]) simp_all
    then show ?thesis unfolding assms(6) summary_timer_def by (simp add: e adds_refl)
  qed
  then have "mails_when slug P (started (t, ATimer i) w w') = 0" for P
    using adds_mails [of slug 0 w w' "(t, ATimer i)" P] by (simp split: if_splits)
  ultimately show ?thesis using c by (simp add: mail_inv_def)
qed

lemma step_sends:
  assumes "mail_inv slug s sends" "alert_step env x s = Some s'" "mail_rules env M"
  shows "\<exists>new. mail_inv slug s' (sends @ new) \<and> (\<forall>P. mails_when slug P (started x (fst s) (fst s')) \<le> (M + 1) * length (filter (P \<circ> snd) new))"
proof -
  obtain t op w clock where x: "x = (t, op)" "s = (w, clock)" by (metis surj_pair)
  have t: "clock \<le> t" using assms(2) x by (auto simp: alert_step_def split: if_splits)
  show ?thesis
  proof (cases op)
    case (AEvent ev)
    then have "s' = (HandleEvent env t ev w, t)" using assms(2) x t by (simp add: alert_step_def)
    then show ?thesis using event_sends [OF _ t assms(3), of slug w sends ev] assms(1) x AEvent by simp
  next
    case (ATimer i)
    obtain slug' start due where i: "aw_timers w ! i = (slug', start, due)" by (metis prod_cases3)
    then have s': "i < length (aw_timers w)" "due \<le> t" "s' = (summary_timer env slug' start (w\<lparr>aw_timers := remove_at i (aw_timers w)\<rparr>), t)"
      using assms(2) x ATimer by (auto simp: alert_step_def split: if_splits)
    then show ?thesis using timer_sends [OF _ t s'(1) i s'(2) refl, of slug sends env] assms(1) x ATimer
      by (intro exI [of _ "[]"]) simp
  next
    case (ADone i delivered recorded)
    then have s': "s' = (fireRule i delivered recorded t w, t)" using assms(2) x t by (simp add: alert_step_def)
    have "capped_part (fireRule i delivered recorded t w) = capped_part w" by simp
    then have l: "aw_limiter (fst s') = aw_limiter w" "aw_timers (fst s') = aw_timers w" by (simp_all add: s' capped_part_def)
    have "capped_ok s'" using alert_step_ok [OF _ assms(2)] assms(1) by (simp add: mail_inv_def)
    moreover have "sends_ok slug (aw_limiter w, t, sends)"
      by (rule sends_ok_cong [OF _ t]) (use assms(1) x in \<open>simp_all add: mail_inv_def\<close>)
    ultimately have "mail_inv slug s' sends" using assms(1) x l by (simp add: mail_inv_def timers_due_def s')
    then show ?thesis by (intro exI [of _ "[]"]) (simp add: started_def x(1) ADone mails_when_def)
  qed
qed

lemma run_sends:
  assumes "mail_rules env M"
  shows "mail_inv slug s sends \<Longrightarrow> alert_run env xs s = Some s' \<Longrightarrow>
    \<exists>new. mail_inv slug s' (sends @ new) \<and> (\<forall>P. mails_when slug P (run_started env xs s) \<le> (M + 1) * length (filter (P \<circ> snd) new))"
proof (induction xs arbitrary: s sends)
  case (Cons x xs)
  obtain s1 where s1: "alert_step env x s = Some s1" "alert_run env xs s1 = Some s'"
    using Cons.prems(2) by (auto split: option.splits)
  obtain new1 where n1: "mail_inv slug s1 (sends @ new1)"
    "\<And>P. mails_when slug P (started x (fst s) (fst s1)) \<le> (M + 1) * length (filter (P \<circ> snd) new1)"
    using step_sends [OF Cons.prems(1) s1(1) assms] by blast
  obtain new2 where n2: "mail_inv slug s' ((sends @ new1) @ new2)"
    "\<And>P. mails_when slug P (run_started env xs s1) \<le> (M + 1) * length (filter (P \<circ> snd) new2)"
    using Cons.IH [OF n1(1) s1(2)] by blast
  have "mails_when slug P (run_started env (x # xs) s) \<le> (M + 1) * length (filter (P \<circ> snd) (new1 @ new2))" for P
    using add_mono [OF n1(2) [of P] n2(2) [of P]] by (simp add: s1(1) mails_when_append distrib_left)
  moreover have "mail_inv slug s' (sends @ new1 @ new2)" using n2(1) by simp
  ultimately show ?case by blast
qed (auto simp: mails_when_def intro: exI [of _ "[]"])


text \<open>Six new issues, and a project with one rule that mails about new issues.\<close>

definition mail_env :: alert_env where
  "mail_env = quiet_alert_env\<lparr>ae_rules := (\<lambda>_. Some [\<lparr>al_id = ''alert-000003'', al_name = ''new'', al_enabled = True, al_project = 1,
     al_webhook = [], al_email = ''team@example.org'', al_condition = ''new_issue'', al_param = [], al_threshold = 0,
     al_cooldownMinutes = 0\<rparr>])\<rparr>"

definition crowd :: "(time \<times> alert_op) list" where
  "crowd = map (\<lambda>t. (t, AEvent (IssueCreated (blank_issue ''boom'' ''shop'') 1))) [1, 2, 3, 4, 5, 6]"

lemma crowd_run:
  "map_option (\<lambda>(w, t). length (aw_flying w)) (alert_run mail_env crowd (fresh_alerts, 0)) = Some 10"
  "mails_when ''shop'' (\<lambda>t. 0 \<le> t \<and> t < 0 + newIssueMailWindow) (run_started mail_env crowd (fresh_alerts, 0)) = 10"
  by (simp_all add: crowd_def alert_step_def HandleEvent_def admitNewIssue_def fresh_alerts_def quiet_alert_env_def mail_env_def
      newNewIssueLimiter_def admit_def rolled_over_def evaluateRules_def notifyAdmin_def newIssueMailMax_def ruleMatches_def
      newIssueMailWindow_def time_sub_def clamp64_def Let_def blank_issue_def cooldownPassed_def
      mails_when_def new_issue_mail_def started_def admin_rule_def)


section \<open>Cooldown\<close>

lemma LastAlertFiring_ge:
  "(a, i, t) \<in> set fs \<Longrightarrow> list_all (\<lambda>(_, _, t). 0 \<le> t) fs \<Longrightarrow> t \<le> LastAlertFiring a i fs \<and> LastAlertFiring a i fs \<noteq> zero_time"
proof (induction fs rule: rev_induct)
  case (snoc x fs)
  obtain a' i' t' where x: "x = (a', i', t')" by (cases x)
  let ?m = "LastAlertFiring a i fs"
  have m: "LastAlertFiring a i (fs @ [x]) = (if a' = a \<and> i' = i \<and> (?m = zero_time \<or> ?m < t') then t' else ?m)"
    by (auto simp: LastAlertFiring_def x)
  have t': "0 \<le> t'" "t' \<noteq> zero_time" using snoc.prems x by (auto simp: zero_time_def)
  have ih: "t \<le> ?m \<and> ?m \<noteq> zero_time" if "(a, i, t) \<in> set fs" using snoc.IH that snoc.prems by simp
  show ?case unfolding m using snoc.prems x t' ih by auto
qed simp

lemma flying_notifyAdmin: "\<exists>xs. aw_flying (notifyAdmin env iss cond w) = aw_flying w @ xs \<and> list_all (\<lambda>f. is_admin (fst f)) xs"
  by (auto simp: notifyAdmin_def admin_rule_def is_admin_def has_prefix_def intro: exI [of _ "[]"])

lemma firings_same [simp]:
  "aw_firings (notifyAdmin env iss cond w) = aw_firings w"
  "aw_firings (evaluateRules env now pid iss cond c w) = aw_firings w"
  by (auto simp: notifyAdmin_def evaluateRules_def split: option.splits)

lemma cooldownPassed_firings: "aw_firings w = aw_firings w' \<Longrightarrow> cooldownPassed env now r iid w = cooldownPassed env now r iid w'"
  by (simp add: cooldownPassed_def)

text \<open>What an operation starts: nothing is taken away, and each new delivery is the
  administrator's or one of a rule whose cooldown has passed.\<close>

definition starts_ok :: "alert_env \<Rightarrow> time \<Rightarrow> alert_world \<Rightarrow> alert_world \<Rightarrow> bool" where
  "starts_ok env now w w' \<longleftrightarrow> aw_firings w' = aw_firings w \<and>
     (\<exists>xs. aw_flying w' = aw_flying w @ xs \<and>
       list_all (\<lambda>(r, iss). is_admin r \<or> cooldownPassed env now r (is_ID iss) w) xs)"

lemma starts_ok_refl: "aw_firings w' = aw_firings w \<Longrightarrow> aw_flying w' = aw_flying w \<Longrightarrow> starts_ok env now w w'"
  by (simp add: starts_ok_def)

lemma starts_ok_trans: "starts_ok env now w w1 \<Longrightarrow> starts_ok env now w1 w2 \<Longrightarrow> starts_ok env now w w2"
  using cooldownPassed_firings [of w1 w env now] unfolding starts_ok_def by (auto simp: list.pred_set)

lemma starts_notifyAdmin: "starts_ok env now w (notifyAdmin env iss cond w)"
  using flying_notifyAdmin [of env iss cond w] unfolding starts_ok_def by (force simp: list.pred_set)

lemma starts_evaluateRules: "starts_ok env now w (evaluateRules env now pid iss cond c w)"
  by (auto simp: starts_ok_def evaluateRules_def list.pred_set split: option.splits)

lemma starts_notifySuppressed: "starts_ok env now w (notifySuppressed env slug n w)"
  using starts_ok_trans [OF starts_ok_refl starts_notifyAdmin] by (simp add: notifySuppressed_def)

lemma starts_admitNewIssue: "starts_ok env now w (snd (admitNewIssue env now iss w))"
proof -
  obtain a l where al: "admit now (is_ProjectSlug iss) (aw_limiter w) = (a, l)" by (metis surj_pair)
  let ?w2 = "if 0 < ad_summarize a then notifySuppressed env (is_ProjectSlug iss) (ad_summarize a) (w\<lparr>aw_limiter := l\<rparr>)
    else w\<lparr>aw_limiter := l\<rparr>"
  have "starts_ok env now w (w\<lparr>aw_limiter := l\<rparr>)" by (rule starts_ok_refl) simp_all
  then have "starts_ok env now w ?w2" using starts_ok_trans starts_notifySuppressed by auto
  moreover have "starts_ok env now ?w2 (snd (admitNewIssue env now iss w))"
    by (rule starts_ok_refl) (simp_all add: admitNewIssue_def al Let_def)
  ultimately show ?thesis by (rule starts_ok_trans)
qed

lemma starts_HandleEvent: "starts_ok env now w (HandleEvent env now ev w)"
proof (cases ev)
  case (IssueCreated iss pid)
  obtain send w1 where s: "admitNewIssue env now iss w = (send, w1)" by (metis surj_pair)
  have "starts_ok env now w w1" using starts_admitNewIssue [of env now w iss] s by simp
  then have "starts_ok env now w (evaluateRules env now pid iss ''message_contains'' False
      (evaluateRules env now pid iss ''new_issue'' (\<not> send) w1))"
    by (blast intro: starts_ok_trans starts_evaluateRules)
  then show ?thesis
    using starts_ok_trans starts_notifyAdmin by (auto simp: HandleEvent_def IssueCreated s Let_def)
next
  case (IssueRegressed iss pid)
  then show ?thesis
    unfolding HandleEvent_def
    by (simp only: domain_event.case)
      (rule starts_ok_trans [OF starts_ok_trans [OF starts_evaluateRules starts_evaluateRules] starts_notifyAdmin])
next
  case (IssueEventRecorded iss pid)
  then show ?thesis
    by (auto simp: HandleEvent_def Let_def intro: starts_ok_trans starts_notifyAdmin starts_evaluateRules)
qed

text \<open>a project rule starts a delivery for an issue only when every recorded firing of that rule
  for that issue lies at least the cooldown back, by the recorded whole second.\<close>

theorem cooldown_separates:
  assumes "(r, iss) \<in> set (drop (length (aw_flying w)) (aw_flying (HandleEvent env now ev w)))" "\<not> is_admin r"
    and "0 < al_cooldownMinutes r" "al_cooldownMinutes r \<le> 100000000"
    and "(al_id r, is_ID iss, t) \<in> set (aw_firings w)" "list_all (\<lambda>(_, _, t). 0 \<le> t) (aw_firings w)"
  shows "al_cooldownMinutes r * minutes \<le> now - t"
proof -
  obtain xs where xs: "aw_flying (HandleEvent env now ev w) = aw_flying w @ xs"
    "list_all (\<lambda>(r, iss). is_admin r \<or> cooldownPassed env now r (is_ID iss) w) xs"
    using starts_HandleEvent [of env now w ev] unfolding starts_ok_def by blast
  then have c: "cooldownPassed env now r (is_ID iss) w" using assms(1,2) by (auto simp: list.pred_set)
  let ?p = "LastAlertFiring (al_id r) (is_ID iss) (aw_firings w)"
  have p: "t \<le> ?p" "?p \<noteq> zero_time" using LastAlertFiring_ge [OF assms(5,6)] by auto
  have w: "wrap64 (al_cooldownMinutes r * minutes) = al_cooldownMinutes r * minutes"
    using assms(3,4) by (intro wrap64_id) auto
  have "al_cooldownMinutes r * minutes \<le> time_sub now ?p"
    using c p(2) assms(3) unfolding cooldownPassed_def by (simp add: w Let_def split: if_splits)
  then have "al_cooldownMinutes r * minutes \<le> now - ?p"
    using time_sub_less [of "al_cooldownMinutes r * minutes" now ?p] assms(3,4) by (auto simp: not_less [symmetric])
  also have "\<dots> \<le> now - t" using p(1) by simp
  finally show ?thesis .
qed

definition count_rule :: alert_rule where
  "count_rule = \<lparr>al_id = ''alert-000001'', al_name = ''volume'', al_enabled = True, al_project = 1, al_webhook = ''https://hook'',
     al_email = [], al_condition = ''event_count_exceeds'', al_param = [], al_threshold = 100, al_cooldownMinutes = 15\<rparr>"

definition count_env :: alert_env where
  "count_env = quiet_alert_env\<lparr>ae_rules := (\<lambda>_. Some [count_rule])\<rparr>"

lemma count_env_facts: "ae_rules count_env pid = Some [count_rule]" "ae_firingsReadable count_env"
  by (simp_all add: count_env_def quiet_alert_env_def)

definition counted_issue :: "int \<Rightarrow> issue" where
  "counted_issue n = (blank_issue ''boom'' ''shop'')\<lparr>is_ID := ''issue-000007'', is_Count := n\<rparr>"

definition fired_world :: alert_world where
  "fired_world = fresh_alerts\<lparr>aw_firings := [(''alert-000001'', ''issue-000007'', 60 * seconds)]\<rparr>"

lemma not_milestone: "n < 100 \<or> n mod 10 \<noteq> 0 \<and> n \<noteq> 1 \<Longrightarrow> 0 \<le> n \<Longrightarrow> \<not> isSpikeMilestone n"
  by (subst isSpikeMilestone_def, subst strip_tens.simps) (auto simp: machine_simps)

lemma count_event_starts:
  "101 \<le> n \<Longrightarrow> n mod 10 \<noteq> 0 \<Longrightarrow> cooldownPassed count_env now count_rule ''issue-000007'' w \<Longrightarrow>
   HandleEvent count_env now (IssueEventRecorded (counted_issue n) 1) w
     = w\<lparr>aw_flying := aw_flying w @ [(count_rule, counted_issue n)]\<rparr>"
  using not_milestone [of n]
  by (simp add: HandleEvent_def evaluateRules_def count_env_def quiet_alert_env_def ruleMatches_def count_rule_def
      counted_issue_def Let_def)

theorem cooldown_separates_witness:
  "al_cooldownMinutes count_rule * minutes \<le> 1000 * seconds - 60 * seconds"
proof -
  have "cooldownPassed count_env (1000 * seconds) count_rule ''issue-000007'' fired_world"
    by (simp add: cooldownPassed_def count_env_def quiet_alert_env_def count_rule_def fired_world_def LastAlertFiring_def
        zero_time_def time_sub_def clamp64_def wrap64_def)
  then have "HandleEvent count_env (1000 * seconds) (IssueEventRecorded (counted_issue 207) 1) fired_world
      = fired_world\<lparr>aw_flying := aw_flying fired_world @ [(count_rule, counted_issue 207)]\<rparr>"
    by (intro count_event_starts) auto
  then show ?thesis
    using cooldown_separates [of count_rule "counted_issue 207" fired_world count_env "1000 * seconds"
        "IssueEventRecorded (counted_issue 207) 1" "60 * seconds"]
    by (simp add: is_admin_def count_rule_def fired_world_def counted_issue_def has_prefix_def)
qed

section \<open>Where rules fire and should not\<close>

text \<open>the cooldown does not bound a burst: a firing is recorded when its delivery ends, so every
  event handled before that starts a delivery of its own, whatever the cooldown.\<close>

theorem burst_ignores_cooldown:
  assumes "ae_rules env pid = Some [r]" "ae_firingsReadable env" "ruleMatches r iss ''event_count_exceeds'' False"
    and "LastAlertFiring (al_id r) (is_ID iss) (aw_firings w) = zero_time" "\<not> isSpikeMilestone (is_Count iss)"
  shows "aw_flying ((HandleEvent env now (IssueEventRecorded iss pid) ^^ n) w) = aw_flying w @ replicate n (r, iss)"
proof -
  have step: "HandleEvent env now (IssueEventRecorded iss pid) v = v\<lparr>aw_flying := aw_flying v @ [(r, iss)]\<rparr>"
    if "aw_firings v = aw_firings w" for v
    using assms that by (simp add: HandleEvent_def evaluateRules_def cooldownPassed_def Let_def)
  have "aw_flying ((HandleEvent env now (IssueEventRecorded iss pid) ^^ n) w) = aw_flying w @ replicate n (r, iss) \<and>
      aw_firings ((HandleEvent env now (IssueEventRecorded iss pid) ^^ n) w) = aw_firings w"
    by (induction n) (auto simp: step replicate_append_same [symmetric])
  then show ?thesis by blast
qed

theorem burst_ignores_cooldown_witness:
  "length (aw_flying ((HandleEvent count_env 9 (IssueEventRecorded (counted_issue 203) 1) ^^ 50) fresh_alerts)) = 50"
proof -
  have "ruleMatches count_rule (counted_issue 203) ''event_count_exceeds'' False" "is_Count (counted_issue 203) = 203"
    by (simp_all add: ruleMatches_def count_rule_def counted_issue_def)
  moreover have "\<not> isSpikeMilestone 203" by (rule not_milestone) simp_all
  ultimately show ?thesis
    using burst_ignores_cooldown [of count_env 1 count_rule "counted_issue 203" fresh_alerts 50 9]
    by (simp add: count_env_facts fresh_alerts_def LastAlertFiring_def)
qed

text \<open>\<open>event_count_exceeds\<close> is not limited to the crossing of its threshold: on every
  event past it, however long past, the rule starts a delivery again as soon as its cooldown allows.\<close>

theorem count_exceeds_refires:
  assumes "ae_rules env pid = Some [r]" "al_enabled r" "al_condition r = ''event_count_exceeds''"
    and "0 < al_threshold r" "al_threshold r < is_Count iss" "\<not> isSpikeMilestone (is_Count iss)"
    and "cooldownPassed env now r (is_ID iss) w"
  shows "aw_flying (HandleEvent env now (IssueEventRecorded iss pid) w) = aw_flying w @ [(r, iss)]"
  using assms by (simp add: HandleEvent_def evaluateRules_def ruleMatches_def Let_def)

theorem count_exceeds_refires_witness:
  "aw_flying (HandleEvent count_env (1000 * seconds) (IssueEventRecorded (counted_issue 5003) 1) fired_world)
     = [(count_rule, counted_issue 5003)]"
proof -
  have "cooldownPassed count_env (1000 * seconds) count_rule ''issue-000007'' fired_world"
    by (simp add: cooldownPassed_def count_env_def quiet_alert_env_def count_rule_def fired_world_def LastAlertFiring_def
        zero_time_def time_sub_def clamp64_def wrap64_def)
  moreover have "\<not> isSpikeMilestone 5003" by (rule not_milestone) simp_all
  ultimately show ?thesis
    using count_exceeds_refires [of count_env 1 count_rule "counted_issue 5003" "1000 * seconds" fired_world]
    by (simp add: count_env_facts count_rule_def counted_issue_def fired_world_def fresh_alerts_def)
qed

text \<open>a muted issue alerts like any other: neither its status nor its mute mode changes what an
  event sets off.\<close>

theorem muting_does_not_silence:
  "map fst (aw_flying (HandleEvent env now (IssueEventRecorded (iss\<lparr>is_Status := s, is_Mute := m\<rparr>) pid) w))
   = map fst (aw_flying (HandleEvent env now (IssueEventRecorded iss pid) w))"
  by (auto simp: HandleEvent_def evaluateRules_def notifyAdmin_def ruleMatches_def Let_def o_def split: option.splits)

text \<open>the cap on new-issue mails does not reach \<open>message_contains\<close> rules: an issue over the
  cap still starts the mail of every such rule that matches its title.\<close>

theorem capped_issue_still_mails:
  assumes "ae_rules env pid = Some [r]" "al_enabled r" "al_condition r = ''message_contains''" "al_email r \<noteq> []"
    and "al_param r \<noteq> []" "contains_sub (to_lower (is_Title iss)) (to_lower (al_param r))"
    and "al_cooldownMinutes r \<le> 0"
    and "nl_projects (aw_limiter w) (is_ProjectSlug iss) = Some u" "\<not> rolled_over now (aw_limiter w) u"
    and "nl_max (aw_limiter w) \<le> iw_sent u"
  shows "\<not> fst (admitNewIssue env now iss w) \<and> (r, iss) \<in> set (aw_flying (HandleEvent env now (IssueCreated iss pid) w))"
  using assms
  by (auto simp: HandleEvent_def admitNewIssue_def admit_def evaluateRules_def ruleMatches_def cooldownPassed_def Let_def)

definition message_rule :: alert_rule where
  "message_rule = count_rule\<lparr>al_id := ''alert-000002'', al_condition := ''message_contains'', al_email := ''team@example.org'',
     al_param := ''Boom'', al_cooldownMinutes := 0\<rparr>"

definition full_world :: alert_world where
  "full_world = fresh_alerts\<lparr>aw_limiter := newNewIssueLimiter\<lparr>nl_projects :=
     [''shop'' \<mapsto> \<lparr>iw_start = 0, iw_sent = 5, iw_suppressed = 3\<rparr>]\<rparr>\<rparr>"

theorem capped_issue_still_mails_witness:
  "(message_rule, blank_issue ''boom'' ''shop'') \<in> set (aw_flying
     (HandleEvent (quiet_alert_env\<lparr>ae_rules := (\<lambda>_. Some [message_rule])\<rparr>) 9 (IssueCreated (blank_issue ''boom'' ''shop'') 1) full_world))"
proof -
  have "contains_sub (to_lower ''boom'') (to_lower ''Boom'')" by code_simp
  then show ?thesis
    using capped_issue_still_mails [of "quiet_alert_env\<lparr>ae_rules := (\<lambda>_. Some [message_rule])\<rparr>" 1 message_rule
        "blank_issue ''boom'' ''shop''" full_world "\<lparr>iw_start = 0, iw_sent = 5, iw_suppressed = 3\<rparr>" 9]
    by (simp add: quiet_alert_env_def message_rule_def count_rule_def blank_issue_def full_world_def fresh_alerts_def
        newNewIssueLimiter_def newIssueMailMax_def newIssueMailWindow_def rolled_over_def time_sub_def clamp64_def)
qed

section \<open>Slots for SMTP connections\<close>

text \<open>
  Each sender is a goroutine in one of these places of \<open>acquireMailSlot\<close> and of the send that
  follows.  \<open>Leaving\<close> and \<open>Aborting\<close> are between the select and the deferred decrement of
  the waiting count, \<open>Backing\<close> is between the increment that found the queue full and its
  undoing.
\<close>

datatype sender = Arriving | Busy | Queued | Backing | Leaving | Aborting | Holding | Dropped | Finished

record mail_pool =
  mp_slots :: nat
  mp_waiting :: int
  mp_dropped :: nat
  mp_senders :: "sender list"

definition defaultMailConcurrency :: nat where "defaultMailConcurrency = 4"
definition defaultMailQueue :: int where "defaultMailQueue = 64"

definition moved :: "nat \<Rightarrow> sender \<Rightarrow> mail_pool \<Rightarrow> mail_pool" where
  "moved i s p = p\<lparr>mp_senders := (mp_senders p)[i := s]\<rparr>"

definition at_place :: "nat \<Rightarrow> sender \<Rightarrow> mail_pool \<Rightarrow> bool" where
  "at_place i s p \<longleftrightarrow> i < length (mp_senders p) \<and> mp_senders p ! i = s"

inductive mail_step :: "nat \<Rightarrow> int \<Rightarrow> mail_pool \<Rightarrow> mail_pool \<Rightarrow> bool" for cap :: nat and queue :: int where
  arrive: "mail_step cap queue p (p\<lparr>mp_senders := mp_senders p @ [Arriving]\<rparr>)"
| take_free: "at_place i Arriving p \<Longrightarrow> mp_slots p < cap \<Longrightarrow>
    mail_step cap queue p (moved i Holding (p\<lparr>mp_slots := Suc (mp_slots p)\<rparr>))"
| none_free: "at_place i Arriving p \<Longrightarrow> cap \<le> mp_slots p \<Longrightarrow> mail_step cap queue p (moved i Busy p)"
| enqueue: "at_place i Busy p \<Longrightarrow> mp_waiting p + 1 \<le> queue \<Longrightarrow>
    mail_step cap queue p (moved i Queued (p\<lparr>mp_waiting := mp_waiting p + 1\<rparr>))"
| overflow: "at_place i Busy p \<Longrightarrow> queue < mp_waiting p + 1 \<Longrightarrow>
    mail_step cap queue p (moved i Backing (p\<lparr>mp_waiting := mp_waiting p + 1\<rparr>))"
| drop_full: "at_place i Backing p \<Longrightarrow>
    mail_step cap queue p (moved i Dropped (p\<lparr>mp_waiting := mp_waiting p - 1, mp_dropped := Suc (mp_dropped p)\<rparr>))"
| got_slot: "at_place i Queued p \<Longrightarrow> mp_slots p < cap \<Longrightarrow>
    mail_step cap queue p (moved i Leaving (p\<lparr>mp_slots := Suc (mp_slots p)\<rparr>))"
| gave_up: "at_place i Queued p \<Longrightarrow>
    mail_step cap queue p (moved i Aborting (p\<lparr>mp_dropped := Suc (mp_dropped p)\<rparr>))"
| leave: "at_place i Leaving p \<Longrightarrow> mail_step cap queue p (moved i Holding (p\<lparr>mp_waiting := mp_waiting p - 1\<rparr>))"
| abort: "at_place i Aborting p \<Longrightarrow> mail_step cap queue p (moved i Dropped (p\<lparr>mp_waiting := mp_waiting p - 1\<rparr>))"
| release: "at_place i Holding p \<Longrightarrow> mail_step cap queue p (moved i Finished (p\<lparr>mp_slots := mp_slots p - 1\<rparr>))"

inductive_cases mail_stepE: "mail_step cap queue p p'"

definition senders_at :: "sender set \<Rightarrow> mail_pool \<Rightarrow> nat" where
  "senders_at S p = length (filter (\<lambda>s. s \<in> S) (mp_senders p))"

lemma senders_at_moved:
  "at_place i s p \<Longrightarrow> int (senders_at S (moved i s' q)) =
     int (senders_at S p) - (if s \<in> S then 1 else 0) + (if s' \<in> S then 1 else 0)"
  if "mp_senders q = mp_senders p"
  using that by (simp add: senders_at_def moved_def at_place_def length_filter_update)

lemma moved_fields [simp]: "mp_slots (moved i s p) = mp_slots p" "mp_waiting (moved i s p) = mp_waiting p"
  "mp_dropped (moved i s p) = mp_dropped p"
  by (simp_all add: moved_def)

definition pool_ok :: "nat \<Rightarrow> int \<Rightarrow> mail_pool \<Rightarrow> bool" where
  "pool_ok cap queue p \<longleftrightarrow>
     int (mp_slots p) = int (senders_at {Holding, Leaving} p) \<and> mp_slots p \<le> cap \<and>
     mp_waiting p = int (senders_at {Queued, Leaving, Aborting, Backing} p) \<and>
     int (senders_at {Queued, Leaving, Aborting} p) \<le> queue \<and>
     int (mp_dropped p) = int (senders_at {Dropped, Aborting} p)"

lemma senders_at_subset: "S \<subseteq> T \<Longrightarrow> senders_at S p \<le> senders_at T p"
  unfolding senders_at_def by (rule length_filter_mono) auto

lemma senders_at_pos: "at_place i s p \<Longrightarrow> s \<in> S \<Longrightarrow> 0 < senders_at S p"
  unfolding senders_at_def at_place_def by (auto simp: filter_empty_conv)

lemma mail_step_ok: "mail_step cap queue p p' \<Longrightarrow> pool_ok cap queue p \<Longrightarrow> pool_ok cap queue p'"
proof (induction rule: mail_step.induct)
  case (arrive p)
  then show ?case by (simp add: pool_ok_def senders_at_def)
next
  case (enqueue i p)
  have "senders_at {Queued, Leaving, Aborting} p \<le> senders_at {Queued, Leaving, Aborting, Backing} p"
    by (rule senders_at_subset) auto
  then show ?case using enqueue by (simp add: pool_ok_def senders_at_moved [OF _ enqueue.hyps(1)])
next
  case (release i p)
  have "0 < senders_at {Holding, Leaving} p" using release.hyps by (intro senders_at_pos) auto
  then show ?case using release by (auto simp: pool_ok_def senders_at_moved [OF _ release.hyps(1)])
qed (auto simp: pool_ok_def senders_at_moved)

definition empty_pool :: mail_pool where
  "empty_pool = \<lparr>mp_slots = 0, mp_waiting = 0, mp_dropped = 0, mp_senders = []\<rparr>"

inductive mail_reachable :: "mail_pool \<Rightarrow> bool" where
  start: "mail_reachable empty_pool"
| step: "mail_reachable p \<Longrightarrow> mail_step defaultMailConcurrency defaultMailQueue p p' \<Longrightarrow> mail_reachable p'"

text \<open>C31: in every interleaving of senders at most four mails hold a connection and at most
  sixty-four wait, every sender that ends without sending is counted as dropped, and no slot and no
  place in the queue leaks: when no sender is under way both counts are back to zero.\<close>

theorem mail_pool_bounded:
  assumes "mail_reachable p"
  shows "senders_at {Holding, Leaving} p \<le> 4 \<and> senders_at {Queued, Leaving, Aborting} p \<le> 64 \<and>
    mp_dropped p = senders_at {Dropped, Aborting} p \<and>
    (senders_at (UNIV - {Dropped, Finished}) p = 0 \<longrightarrow> mp_slots p = 0 \<and> mp_waiting p = 0)"
proof -
  have ok: "pool_ok defaultMailConcurrency defaultMailQueue p"
    using assms
  proof induction
    case start
    show ?case by (simp add: pool_ok_def empty_pool_def senders_at_def defaultMailQueue_def)
  next
    case (step p p')
    then show ?case by (blast intro: mail_step_ok)
  qed
  have "senders_at S p \<le> senders_at (UNIV - {Dropped, Finished}) p" if "S \<subseteq> UNIV - {Dropped, Finished}" for S
    using that by (rule senders_at_subset)
  then have "senders_at {Holding, Leaving} p \<le> senders_at (UNIV - {Dropped, Finished}) p"
    "senders_at {Queued, Leaving, Aborting, Backing} p \<le> senders_at (UNIV - {Dropped, Finished}) p" by auto
  then show ?thesis using ok by (auto simp: pool_ok_def defaultMailConcurrency_def defaultMailQueue_def)
qed

theorem mail_pool_bounded_witness:
  "mail_reachable (empty_pool\<lparr>mp_slots := 1, mp_senders := [Holding]\<rparr>) \<and>
   senders_at {Holding, Leaving} (empty_pool\<lparr>mp_slots := 1, mp_senders := [Holding]\<rparr>) \<le> 4"
proof -
  have "mail_step defaultMailConcurrency defaultMailQueue empty_pool (empty_pool\<lparr>mp_senders := [Arriving]\<rparr>)"
    using mail_step.arrive [of _ _ empty_pool] by (simp add: empty_pool_def)
  moreover have "mail_step defaultMailConcurrency defaultMailQueue (empty_pool\<lparr>mp_senders := [Arriving]\<rparr>)
      (empty_pool\<lparr>mp_slots := 1, mp_senders := [Holding]\<rparr>)"
    using mail_step.take_free [of 0 "empty_pool\<lparr>mp_senders := [Arriving]\<rparr>" defaultMailConcurrency defaultMailQueue]
    by (simp add: at_place_def moved_def empty_pool_def defaultMailConcurrency_def)
  ultimately have r: "mail_reachable (empty_pool\<lparr>mp_slots := 1, mp_senders := [Holding]\<rparr>)"
    by (meson mail_reachable.intros)
  then show ?thesis using mail_pool_bounded [OF r] by blast
qed

end
