(* ===== verification/Projects.thy ===== *)
theory Projects
  imports IssueIds "HOL-Library.List_Lexorder" "HOL-Library.Char_ord"
begin

text \<open>
  The project table: \<open>internal/storage/projects.go\<close>, \<open>groups.go\<close> and the service over them,
  \<open>internal/service/projects/service.go\<close>.

  A database is the rows of its tables.  Of the tables a project owns only the issues are
  looked into; the others are \<open>(table, project)\<close> pairs.  The constraints are those of
  \<open>internal/storage/migrations\<close>: unique slugs, unique alias slugs, unique fingerprints within a
  project, and what a reference to a project does when it is deleted.  Each statement of a
  call may fail: \<open>q n\<close> is the error of its \<open>n\<close>-th statement.
\<close>

section \<open>The tables\<close>

record project =
  prj_id :: int
  prj_slug :: string
  prj_name :: string
  prj_status :: string
  prj_prefix :: string
  prj_group :: "int option"

record owned_issue =
  oi_id :: int
  oi_project :: int
  oi_fingerprint :: string
  oi_number :: int

record pdb =
  db_projects :: "project list"
  db_next :: int
  db_aliases :: "(string \<times> int) list"
  db_keys :: "int list"
  db_issues :: "owned_issue list"
  db_rows :: "(string \<times> int) list"
  db_groups :: "(int \<times> string) list"
  db_gnext :: int

type_synonym faults = "nat \<Rightarrow> db_error option"

abbreviation (input) fine :: faults where "fine \<equiv> \<lambda>n. None"

text \<open>An application error, or a database error handed on as it is.\<close>

datatype proj_error = App app_error | Raw db_error

abbreviation (input) unique_failed :: db_error where
  "unique_failed \<equiv> Sqlite SQLITE_CONSTRAINT_UNIQUE ''UNIQUE constraint failed''"
abbreviation (input) foreign_failed :: db_error where
  "foreign_failed \<equiv> Sqlite 787 ''FOREIGN KEY constraint failed''"

section \<open>Lookups\<close>

definition find_slug :: "string \<Rightarrow> pdb \<Rightarrow> project option" where
  "find_slug slug d = List.find (\<lambda>p. prj_slug p = slug) (db_projects d)"

definition find_id :: "int \<Rightarrow> pdb \<Rightarrow> project option" where
  "find_id i d = List.find (\<lambda>p. prj_id p = i) (db_projects d)"

definition one_row :: "db_error option \<Rightarrow> string \<Rightarrow> 'a option \<Rightarrow> proj_error + 'a" where
  "one_row fault msg row = (case fault of
     Some e \<Rightarrow> Inl (App (wrapNotFound e msg))
   | None \<Rightarrow> (case row of None \<Rightarrow> Inl (App (wrapNotFound NoRows msg)) | Some r \<Rightarrow> Inr r))"

definition ProjectBySlug :: "faults \<Rightarrow> nat \<Rightarrow> string \<Rightarrow> pdb \<Rightarrow> proj_error + project" where
  "ProjectBySlug q n slug d = one_row (q n) ''project not found'' (find_slug slug d)"

definition ProjectByID :: "faults \<Rightarrow> nat \<Rightarrow> int \<Rightarrow> pdb \<Rightarrow> proj_error + project" where
  "ProjectByID q n i d = one_row (q n) ''project not found'' (find_id i d)"

definition ResolveAlias :: "faults \<Rightarrow> nat \<Rightarrow> string \<Rightarrow> pdb \<Rightarrow> proj_error + int" where
  "ResolveAlias q n slug d = one_row (q n) ''alias not found'' (map_of (db_aliases d) slug)"

section \<open>Creating a project\<close>

text \<open>The loop of \<open>uniqueIssuePrefix\<close>: one count per candidate, until one is free.\<close>

partial_function (option) prefix_loop ::
  "faults \<Rightarrow> nat \<Rightarrow> string list \<Rightarrow> string \<Rightarrow> int \<Rightarrow> string \<Rightarrow> ((proj_error + string) \<times> nat) option" where
  "prefix_loop q n taken base i prefix = (case q n of
     Some e \<Rightarrow> Some (Inl (Raw e), Suc n)
   | None \<Rightarrow> if prefix \<notin> set taken then Some (Inr prefix, Suc n)
             else prefix_loop q (Suc n) taken base (i + 1) (base @ itoa i))"

definition uniqueIssuePrefix :: "faults \<Rightarrow> nat \<Rightarrow> string \<Rightarrow> pdb \<Rightarrow> ((proj_error + string) \<times> nat) option" where
  "uniqueIssuePrefix q n slug d =
     prefix_loop q n (map prj_prefix (db_projects d)) (deriveIssuePrefix slug) 2 (deriveIssuePrefix slug)"

definition insert_project :: "project \<Rightarrow> pdb \<Rightarrow> db_error + pdb" where
  "insert_project p d = (if prj_slug p \<in> set (map prj_slug (db_projects d)) then Inl unique_failed
     else Inr (d\<lparr>db_projects := db_projects d @ [p], db_next := db_next d + 1\<rparr>))"

definition new_project :: "string \<Rightarrow> string \<Rightarrow> string \<Rightarrow> string \<Rightarrow> pdb \<Rightarrow> project" where
  "new_project name slug status prefix d = \<lparr>prj_id = db_next d, prj_slug = slug, prj_name = name,
     prj_status = status, prj_prefix = prefix, prj_group = None\<rparr>"

text \<open>\<open>wrap\<close> is what the caller makes of a failing \<open>INSERT\<close>: \<open>CreateProject\<close> wraps it,
  \<open>CreateProjectPending\<close> does not.\<close>

definition create_with ::
  "(db_error \<Rightarrow> proj_error) \<Rightarrow> faults \<Rightarrow> nat \<Rightarrow> string \<Rightarrow> string \<Rightarrow> string \<Rightarrow> pdb
     \<Rightarrow> ((proj_error + project) \<times> pdb) option" where
  "create_with wrap q n name slug status d = (case uniqueIssuePrefix q n slug d of
     None \<Rightarrow> None
   | Some (Inl e, _) \<Rightarrow> Some (Inl e, d)
   | Some (Inr prefix, n') \<Rightarrow>
       (let p = new_project name slug status prefix d in
        case (case q n' of Some e \<Rightarrow> Inl e | None \<Rightarrow> insert_project p d) of
          Inl e \<Rightarrow> Some (Inl (wrap e), d)
        | Inr d' \<Rightarrow> Some (Inr p, d')))"

definition CreateProject :: "faults \<Rightarrow> nat \<Rightarrow> string \<Rightarrow> string \<Rightarrow> pdb \<Rightarrow> ((proj_error + project) \<times> pdb) option" where
  "CreateProject q n name slug d =
     create_with (\<lambda>e. App (wrapErr e ''create project'')) q n name slug ''active'' d"

definition CreateProjectPending :: "faults \<Rightarrow> nat \<Rightarrow> string \<Rightarrow> pdb \<Rightarrow> ((proj_error + project) \<times> pdb) option" where
  "CreateProjectPending q n slug d = create_with Raw q n slug slug ''pending'' d"

text \<open>Find, follow an alias, or create.  Any failure of the first lookup leads to the second, and
  any failure of the second to the creation.\<close>

definition EnsureProject :: "faults \<Rightarrow> bool \<Rightarrow> string \<Rightarrow> pdb \<Rightarrow> ((proj_error + project) \<times> pdb) option" where
  "EnsureProject q readonly slug d = (case ProjectBySlug q 0 slug d of
     Inr p \<Rightarrow> Some (Inr p, d)
   | Inl _ \<Rightarrow>
       (case ResolveAlias q 1 slug d of
          Inr targetID \<Rightarrow> Some (ProjectByID q 2 targetID d, d)
        | Inl _ \<Rightarrow>
            if readonly then Some (Inl (App (NotFound ''project not found (read-only)'')), d)
            else CreateProject q 2 slug slug d))"

definition EnsureProjectPending :: "faults \<Rightarrow> bool \<Rightarrow> string \<Rightarrow> pdb \<Rightarrow> ((proj_error + project) \<times> pdb) option" where
  "EnsureProjectPending q readonly slug d = (case ProjectBySlug q 0 slug d of
     Inr p \<Rightarrow> Some (Inr p, d)
   | Inl _ \<Rightarrow>
       (case ResolveAlias q 1 slug d of
          Inr targetID \<Rightarrow> Some (ProjectByID q 2 targetID d, d)
        | Inl _ \<Rightarrow>
            if readonly then Some (Inl (App (NotFound ''project not found (read-only)'')), d)
            else CreateProjectPending q 2 slug d))"

definition ApproveProject :: "faults \<Rightarrow> string \<Rightarrow> pdb \<Rightarrow> proj_error option \<times> pdb" where
  "ApproveProject q slug d = (case q 0 of
     Some e \<Rightarrow> (Some (Raw e), d)
   | None \<Rightarrow>
       if find_slug slug d = None then (Some (App (NotFound ''project not found'')), d)
       else (None, d\<lparr>db_projects := map (\<lambda>p. if prj_slug p = slug then p\<lparr>prj_status := ''active''\<rparr> else p)
              (db_projects d)\<rparr>))"

section \<open>Deleting a project\<close>

definition childTables :: "string list" where
  "childTables = [''issue_facets'', ''events'', ''issues'', ''analytics_pageviews'', ''analytics_daily'',
     ''releases'', ''alerts'', ''settings'', ''source_maps'', ''api_keys'', ''log_entries'',
     ''project_aliases'', ''held_events'']"

definition batchSize :: nat where "batchSize = 10000"

fun drop_first :: "nat \<Rightarrow> ('a \<Rightarrow> bool) \<Rightarrow> 'a list \<Rightarrow> 'a list" where
  "drop_first n P [] = []"
| "drop_first n P (x # xs) =
     (if P x then (case n of 0 \<Rightarrow> x # xs | Suc k \<Rightarrow> drop_first k P xs) else x # drop_first n P xs)"

lemma drop_first_le: "length (drop_first n P xs) \<le> length xs"
  by (induction n P xs rule: drop_first.induct) (auto split: nat.splits)

text \<open>\<open>deleteInBatches\<close>: statements of at most \<open>batchSize\<close> rows, until one removes fewer.\<close>

function delete_batches :: "faults \<Rightarrow> nat \<Rightarrow> ('a \<Rightarrow> bool) \<Rightarrow> 'a list \<Rightarrow> (db_error option \<times> nat) \<times> 'a list" where
  "delete_batches q n P rows = (case q n of
     Some e \<Rightarrow> ((Some e, Suc n), rows)
   | None \<Rightarrow>
       (let rows' = drop_first batchSize P rows
        in if length rows - length rows' < batchSize then ((None, Suc n), rows')
           else delete_batches q (Suc n) P rows'))"
  by pat_completeness auto
termination
proof (relation "measure (\<lambda>(q, n, P, rows). length rows)")
  fix q :: faults and n and P :: "'a \<Rightarrow> bool" and rows x
  assume "q n = None" "x = drop_first batchSize P rows" "\<not> length rows - length x < batchSize"
  then show "((q, Suc n, P, x), (q, n, P, rows)) \<in> measure (\<lambda>(q, n, P, rows). length rows)"
    by (simp add: batchSize_def)
qed simp

declare delete_batches.simps [simp del]

definition deleteInBatches :: "faults \<Rightarrow> nat \<Rightarrow> string \<Rightarrow> int \<Rightarrow> pdb \<Rightarrow> (db_error option \<times> nat) \<times> pdb" where
  "deleteInBatches q n table i d =
     (if table = ''issues'' then
        (case delete_batches q n (\<lambda>r. oi_project r = i) (db_issues d) of (r, xs) \<Rightarrow> (r, d\<lparr>db_issues := xs\<rparr>))
      else if table = ''api_keys'' then
        (case delete_batches q n (\<lambda>k. k = i) (db_keys d) of (r, xs) \<Rightarrow> (r, d\<lparr>db_keys := xs\<rparr>))
      else if table = ''project_aliases'' then
        (case delete_batches q n (\<lambda>(a, k). k = i) (db_aliases d) of (r, xs) \<Rightarrow> (r, d\<lparr>db_aliases := xs\<rparr>))
      else
        (case delete_batches q n (\<lambda>(t, k). t = table \<and> k = i) (db_rows d) of (r, xs) \<Rightarrow> (r, d\<lparr>db_rows := xs\<rparr>)))"

fun delete_children :: "faults \<Rightarrow> nat \<Rightarrow> string list \<Rightarrow> int \<Rightarrow> pdb \<Rightarrow> (proj_error option \<times> nat) \<times> pdb" where
  "delete_children q n [] i d = ((None, n), d)"
| "delete_children q n (t # ts) i d = (case deleteInBatches q n t i d of
     ((Some e, n'), d') \<Rightarrow> ((Some (App (Internal (''delete '' @ t))), n'), d')
   | ((None, n'), d') \<Rightarrow> delete_children q n' ts i d')"

text \<open>What deleting a project row does to the rows that refer to it: API keys hold it back, log
  lines and held events have no reference, everything else goes with it.\<close>

definition freeTables :: "string list" where
  "freeTables = [''log_entries'', ''held_events'', ''alert_firings'']"

definition delete_project_row :: "int \<Rightarrow> pdb \<Rightarrow> db_error + pdb" where
  "delete_project_row i d =
     (if i \<in> set (map prj_id (db_projects d)) \<and> i \<in> set (db_keys d) then Inl foreign_failed
      else if i \<notin> set (map prj_id (db_projects d)) then Inr d
      else Inr (d\<lparr>db_projects := filter (\<lambda>p. prj_id p \<noteq> i) (db_projects d),
             db_issues := filter (\<lambda>r. oi_project r \<noteq> i) (db_issues d),
             db_aliases := filter (\<lambda>(a, k). k \<noteq> i) (db_aliases d),
             db_rows := filter (\<lambda>(t, k). t \<in> set freeTables \<or> k \<noteq> i) (db_rows d)\<rparr>))"

definition DeleteProject :: "faults \<Rightarrow> string \<Rightarrow> pdb \<Rightarrow> proj_error option \<times> pdb" where
  "DeleteProject q slug d = (case q 0 of
     Some e \<Rightarrow> (Some (App (if e = NoRows then NotFound ''project not found'' else Internal ''lookup project'')), d)
   | None \<Rightarrow>
       (case find_slug slug d of
          None \<Rightarrow> (Some (App (NotFound ''project not found'')), d)
        | Some p \<Rightarrow>
            (case delete_children q 1 childTables (prj_id p) d of
               ((Some e, _), d') \<Rightarrow> (Some e, d')
             | ((None, n), d') \<Rightarrow>
                 (case (case q n of Some e \<Rightarrow> Inl e | None \<Rightarrow> delete_project_row (prj_id p) d') of
                    Inl e \<Rightarrow> (Some (App (Internal ''delete project row'')), d')
                  | Inr d'' \<Rightarrow> (None, d'')))))"

section \<open>Aliases, renaming and merging\<close>

definition insert_alias :: "string \<Rightarrow> int \<Rightarrow> pdb \<Rightarrow> db_error + pdb" where
  "insert_alias a i d =
     (if a \<in> set (map fst (db_aliases d)) then Inl unique_failed
      else if i \<notin> set (map prj_id (db_projects d)) then Inl foreign_failed
      else Inr (d\<lparr>db_aliases := db_aliases d @ [(a, i)]\<rparr>))"

definition CreateAlias :: "faults \<Rightarrow> string \<Rightarrow> int \<Rightarrow> pdb \<Rightarrow> proj_error option \<times> pdb" where
  "CreateAlias q a i d = (case (case q 0 of Some e \<Rightarrow> Inl e | None \<Rightarrow> insert_alias a i d) of
     Inl e \<Rightarrow> (Some (App (wrapErr e ''create alias'')), d)
   | Inr d' \<Rightarrow> (None, d'))"

definition DeleteAlias :: "faults \<Rightarrow> string \<Rightarrow> pdb \<Rightarrow> proj_error option \<times> pdb" where
  "DeleteAlias q a d = (case q 0 of
     Some e \<Rightarrow> (Some (App (wrapErr e ''delete alias'')), d)
   | None \<Rightarrow> if a \<notin> set (map fst (db_aliases d)) then (Some (App (NotFound ''alias not found'')), d)
             else (None, d\<lparr>db_aliases := filter (\<lambda>(b, k). b \<noteq> a) (db_aliases d)\<rparr>))"

definition update_slug :: "int \<Rightarrow> string \<Rightarrow> string \<Rightarrow> pdb \<Rightarrow> db_error + pdb" where
  "update_slug i slug name d =
     (if list_ex (\<lambda>p. prj_slug p = slug \<and> prj_id p \<noteq> i) (db_projects d) then Inl unique_failed
      else Inr (d\<lparr>db_projects := map (\<lambda>p. if prj_id p = i then p\<lparr>prj_slug := slug, prj_name := name\<rparr> else p)
             (db_projects d)\<rparr>))"

text \<open>A transaction whose statements run until one fails; then nothing of it is kept.\<close>

fun in_tx :: "faults \<Rightarrow> nat \<Rightarrow> ((pdb \<Rightarrow> db_error + pdb) \<times> (db_error \<Rightarrow> proj_error)) list \<Rightarrow> pdb
    \<Rightarrow> proj_error + pdb" where
  "in_tx q n [] d = (case q n of Some e \<Rightarrow> Inl (Raw e) | None \<Rightarrow> Inr d)"
| "in_tx q n ((f, wrap) # rest) d = (case (case q n of Some e \<Rightarrow> Inl e | None \<Rightarrow> f d) of
     Inl e \<Rightarrow> Inl (wrap e)
   | Inr d' \<Rightarrow> in_tx q (Suc n) rest d')"

definition tx_result :: "pdb \<Rightarrow> proj_error + pdb \<Rightarrow> proj_error option \<times> pdb" where
  "tx_result d r = (case r of Inl e \<Rightarrow> (Some e, d) | Inr d' \<Rightarrow> (None, d'))"

definition RenameProject :: "faults \<Rightarrow> string \<Rightarrow> string \<Rightarrow> string \<Rightarrow> pdb \<Rightarrow> proj_error option \<times> pdb" where
  "RenameProject q oldSlug newSlug newName d = (case q 0 of
     Some e \<Rightarrow> (Some (Raw e), d)
   | None \<Rightarrow>
       (case ProjectBySlug q 1 oldSlug d of
          Inl e \<Rightarrow> (Some e, d)
        | Inr p \<Rightarrow> tx_result d (in_tx q 2
            [(update_slug (prj_id p) newSlug newName, \<lambda>e. App (wrapErr e ''rename project'')),
             (insert_alias oldSlug (prj_id p), \<lambda>e. App (wrapErr e ''create rename alias''))] d)))"

definition move_issues :: "int \<Rightarrow> int \<Rightarrow> pdb \<Rightarrow> db_error + pdb" where
  "move_issues src tgt d =
     (let moved = map (\<lambda>r. if oi_project r = src then r\<lparr>oi_project := tgt\<rparr> else r) (db_issues d)
      in if tgt \<notin> set (map prj_id (db_projects d)) then Inl foreign_failed
         else if distinct (map (\<lambda>r. (oi_project r, oi_fingerprint r)) moved) then Inr (d\<lparr>db_issues := moved\<rparr>)
         else Inl unique_failed)"

definition move_rows :: "string \<Rightarrow> int \<Rightarrow> int \<Rightarrow> pdb \<Rightarrow> db_error + pdb" where
  "move_rows table src tgt d =
     Inr (d\<lparr>db_rows := map (\<lambda>(t, k). if t = table \<and> k = src then (t, tgt) else (t, k)) (db_rows d)\<rparr>)"

definition merge_steps :: "string \<Rightarrow> int \<Rightarrow> int \<Rightarrow> ((pdb \<Rightarrow> db_error + pdb) \<times> (db_error \<Rightarrow> proj_error)) list" where
  "merge_steps sourceSlug src tgt =
     [(move_issues src tgt, \<lambda>e. App (Internal ''merge: move issues'')),
      (move_rows ''events'' src tgt, \<lambda>e. App (Internal ''merge: move events'')),
      (move_rows ''issue_facets'' src tgt, \<lambda>e. App (Internal ''merge: move issue_facets'')),
      (move_rows ''analytics_pageviews'' src tgt, \<lambda>e. App (Internal ''merge: move analytics'')),
      (move_rows ''alerts'' src tgt, \<lambda>e. App (Internal ''merge: move alerts'')),
      (insert_alias sourceSlug tgt, \<lambda>e. App (wrapErr e ''merge: create alias'')),
      (delete_project_row src, \<lambda>e. App (Internal ''merge: delete source''))]"

definition MergeProjects :: "faults \<Rightarrow> string \<Rightarrow> string \<Rightarrow> pdb \<Rightarrow> proj_error option \<times> pdb" where
  "MergeProjects q sourceSlug targetSlug d = (case q 0 of
     Some e \<Rightarrow> (Some (Raw e), d)
   | None \<Rightarrow>
       (case (q 1, find_slug sourceSlug d) of
          (None, Some s) \<Rightarrow>
            (case (q 2, find_slug targetSlug d) of
               (None, Some t) \<Rightarrow> tx_result d (in_tx q 3 (merge_steps sourceSlug (prj_id s) (prj_id t)) d)
             | _ \<Rightarrow> (Some (App (NotFound ''target project not found'')), d))
        | _ \<Rightarrow> (Some (App (NotFound ''source project not found'')), d)))"

section \<open>Groups\<close>

definition find_group :: "string \<Rightarrow> pdb \<Rightarrow> int option" where
  "find_group slug d = map_option fst (List.find (\<lambda>g. snd g = slug) (db_groups d))"

definition CreateGroup :: "faults \<Rightarrow> string \<Rightarrow> pdb \<Rightarrow> proj_error option \<times> pdb" where
  "CreateGroup q slug d =
     (case (case q 0 of Some e \<Rightarrow> Inl e
            | None \<Rightarrow> if find_group slug d \<noteq> None then Inl unique_failed else Inr ()) of
        Inl e \<Rightarrow> (Some (App (wrapErr e ''create group'')), d)
      | Inr _ \<Rightarrow> (None, d\<lparr>db_groups := db_groups d @ [(db_gnext d, slug)], db_gnext := db_gnext d + 1\<rparr>))"

definition DeleteGroup :: "faults \<Rightarrow> string \<Rightarrow> pdb \<Rightarrow> proj_error option \<times> pdb" where
  "DeleteGroup q slug d = (case q 0 of
     Some e \<Rightarrow> (Some (App (wrapErr e ''delete group'')), d)
   | None \<Rightarrow>
       (case find_group slug d of
          None \<Rightarrow> (Some (App (NotFound ''group not found'')), d)
        | Some g \<Rightarrow> (None, d\<lparr>db_groups := filter (\<lambda>x. snd x \<noteq> slug) (db_groups d),
            db_projects := map (\<lambda>p. if prj_group p = Some g then p\<lparr>prj_group := None\<rparr> else p) (db_projects d)\<rparr>)))"

definition set_group :: "string \<Rightarrow> int option \<Rightarrow> pdb \<Rightarrow> proj_error option \<times> pdb" where
  "set_group slug g d =
     (if find_slug slug d = None then (Some (App (NotFound ''project not found'')), d)
      else (None, d\<lparr>db_projects := map (\<lambda>p. if prj_slug p = slug then p\<lparr>prj_group := g\<rparr> else p) (db_projects d)\<rparr>))"

definition AssignProjectToGroup :: "faults \<Rightarrow> string \<Rightarrow> string \<Rightarrow> pdb \<Rightarrow> proj_error option \<times> pdb" where
  "AssignProjectToGroup q projectSlug groupSlug d = (case (q 0, find_group groupSlug d) of
     (None, Some g) \<Rightarrow>
       (case q 1 of
          Some e \<Rightarrow> (Some (App (wrapErr e ''assign project to group'')), d)
        | None \<Rightarrow> set_group projectSlug (Some g) d)
   | _ \<Rightarrow> (Some (App (NotFound ''group not found'')), d))"

definition RemoveProjectFromGroup :: "faults \<Rightarrow> string \<Rightarrow> pdb \<Rightarrow> proj_error option \<times> pdb" where
  "RemoveProjectFromGroup q projectSlug d = (case q 0 of
     Some e \<Rightarrow> (Some (App (wrapErr e ''remove project from group'')), d)
   | None \<Rightarrow> set_group projectSlug None d)"

definition ListGroupProjects :: "faults \<Rightarrow> string \<Rightarrow> pdb \<Rightarrow> proj_error + project list" where
  "ListGroupProjects q groupSlug d = (case (q 0, find_group groupSlug d) of
     (None, Some g) \<Rightarrow>
       (case q 1 of
          Some e \<Rightarrow> Inl (Raw e)
        | None \<Rightarrow> Inr (sort_key prj_name (filter (\<lambda>p. prj_group p = Some g) (db_projects d))))
   | _ \<Rightarrow> Inl (App (NotFound ''group not found'')))"

section \<open>Free prefixes\<close>

lemma itoa_inj: "itoa i = itoa j \<Longrightarrow> 0 \<le> i \<Longrightarrow> 0 \<le> j \<Longrightarrow> i = j"
  by (metis parse_digits_nat_str itoa_def nat_eq_iff2 nat_0_le option.inject not_less)

text \<open>The prefixes the loop may still meet.\<close>

definition ahead :: "string list \<Rightarrow> string \<Rightarrow> int \<Rightarrow> string set" where
  "ahead taken base i = {base @ itoa j | j. i \<le> j} \<inter> set taken"

lemma ahead_step:
  assumes "2 \<le> i" "base @ itoa i \<in> set taken"
  shows "card (ahead taken base (i + 1)) < card (ahead taken base i)"
proof (rule psubset_card_mono)
  show "finite (ahead taken base i)" by (simp add: ahead_def)
  have "base @ itoa i \<notin> ahead taken base (i + 1)"
  proof
    assume "base @ itoa i \<in> ahead taken base (i + 1)"
    then obtain j where j: "itoa i = itoa j" "i + 1 \<le> j" by (auto simp: ahead_def)
    then have "i = j" using itoa_inj [of i j] assms(1) by simp
    then show False using j(2) by simp
  qed
  moreover have "base @ itoa i \<in> ahead taken base i" using assms(2) by (auto simp: ahead_def)
  moreover have "ahead taken base (i + 1) \<subseteq> ahead taken base i" by (force simp: ahead_def)
  ultimately show "ahead taken base (i + 1) \<subset> ahead taken base i" by blast
qed

lemma prefix_loop_total:
  assumes "2 \<le> i"
  shows "\<exists>r n'. prefix_loop q n taken base i prefix = Some (r, n') \<and> n < n'
    \<and> (\<forall>p. r = Inr p \<longrightarrow> p \<notin> set taken)
    \<and> ((\<forall>m \<ge> n. q m = None) \<longrightarrow> (\<exists>p. r = Inr p))"
  using assms
proof (induction "card (ahead taken base i)" arbitrary: i n prefix rule: less_induct)
  case less
  show ?case
  proof (cases "q n = None \<and> prefix \<in> set taken")
    case True
    show ?thesis
    proof (cases "base @ itoa i \<in> set taken")
      case t: True
      from less(1) [OF ahead_step [OF less(2) t], of "Suc n" "base @ itoa i"] less(2)
      obtain r n' where r: "prefix_loop q (Suc n) taken base (i + 1) (base @ itoa i) = Some (r, n')"
        "Suc n < n'" "\<forall>p. r = Inr p \<longrightarrow> p \<notin> set taken" "(\<forall>m \<ge> Suc n. q m = None) \<longrightarrow> (\<exists>p. r = Inr p)" by auto
      have "prefix_loop q n taken base i prefix = Some (r, n')"
        using r(1) True by (subst prefix_loop.simps) simp
      then show ?thesis using r(2,3,4) Suc_leD by fastforce
    next
      case f: False
      show ?thesis
      proof (cases "q (Suc n)")
        case None
        have "prefix_loop q n taken base i prefix = Some (Inr (base @ itoa i), Suc (Suc n))"
          using True f None by (subst prefix_loop.simps, simp, subst prefix_loop.simps, simp)
        then show ?thesis using f by (intro exI [of _ "Inr (base @ itoa i)"]) auto
      next
        case (Some x)
        have "prefix_loop q n taken base i prefix = Some (Inl (Raw x), Suc (Suc n))"
          using True Some by (subst prefix_loop.simps, simp, subst prefix_loop.simps, simp)
        then show ?thesis using Some by (intro exI [of _ "Inl (Raw x)"]) (auto intro!: exI [of _ "Suc n"])
      qed
    qed
  next
    case False
    then show ?thesis by (subst prefix_loop.simps) (auto split: option.splits)
  qed
qed

lemma uniqueIssuePrefix_total:
  "\<exists>r n'. uniqueIssuePrefix q n slug d = Some (r, n') \<and> n < n'
    \<and> (\<forall>p. r = Inr p \<longrightarrow> p \<notin> set (map prj_prefix (db_projects d)))
    \<and> ((\<forall>m \<ge> n. q m = None) \<longrightarrow> (\<exists>p. r = Inr p))"
  unfolding uniqueIssuePrefix_def by (rule prefix_loop_total) simp

text \<open>Choosing an issue prefix always ends, however many prefixes are taken and whichever
  statement fails: a prefix is returned only when no project has it, and when no count
  fails one is returned.\<close>

theorem unique_prefix_terminates:
  "\<exists>r n'. uniqueIssuePrefix q n slug d = Some (r, n')
    \<and> (case r of
         Inr p \<Rightarrow> p \<notin> prj_prefix ` set (db_projects d)
       | Inl e \<Rightarrow> \<exists>m \<ge> n. q m \<noteq> None)"
  using uniqueIssuePrefix_total [of q n slug d] by (fastforce split: sum.split)

section \<open>What every operation keeps\<close>

definition live_ids :: "pdb \<Rightarrow> int set" where
  "live_ids d = prj_id ` set (db_projects d)"

definition pdb_ok :: "pdb \<Rightarrow> bool" where
  "pdb_ok d \<longleftrightarrow>
     distinct (map prj_id (db_projects d)) \<and> distinct (map prj_slug (db_projects d))
     \<and> distinct (map prj_prefix (db_projects d)) \<and> (\<forall>p \<in> set (db_projects d). prj_id p < db_next d)
     \<and> distinct (map fst (db_aliases d)) \<and> (\<forall>a \<in> set (db_aliases d). snd a \<in> live_ids d)
     \<and> (\<forall>k \<in> set (db_keys d). k \<in> live_ids d) \<and> (\<forall>r \<in> set (db_issues d). oi_project r \<in> live_ids d)
     \<and> distinct (map (\<lambda>r. (oi_project r, oi_fingerprint r)) (db_issues d))
     \<and> (\<forall>p \<in> set (db_projects d). \<forall>g. prj_group p = Some g \<longrightarrow> g \<in> fst ` set (db_groups d))
     \<and> distinct (map fst (db_groups d)) \<and> distinct (map snd (db_groups d))
     \<and> (\<forall>x \<in> set (db_groups d). fst x < db_gnext d)"

lemma find_slug_Some: "find_slug slug d = Some p \<Longrightarrow> p \<in> set (db_projects d) \<and> prj_slug p = slug"
  by (auto simp: find_slug_def dest: find_SomeD)

lemma find_slug_None: "find_slug slug d = None \<longleftrightarrow> slug \<notin> prj_slug ` set (db_projects d)"
  by (auto simp: find_slug_def find_None_iff)

lemma one_row_Inr: "one_row f m r = Inr x \<longleftrightarrow> f = None \<and> r = Some x"
  by (auto simp: one_row_def split: option.splits)

lemma insert_project_ok:
  "pdb_ok d \<Longrightarrow> insert_project p d = Inr d' \<Longrightarrow> prj_id p = db_next d
   \<Longrightarrow> prj_prefix p \<notin> set (map prj_prefix (db_projects d)) \<Longrightarrow> prj_group p = None \<Longrightarrow> pdb_ok d'"
  by (auto simp: pdb_ok_def insert_project_def live_ids_def less_imp_le split: if_splits) force+

lemma create_with_ok:
  assumes "pdb_ok d"
  shows "\<exists>r d'. create_with wrap q n name slug status d = Some (r, d') \<and> pdb_ok d'"
proof -
  obtain r n' where r: "uniqueIssuePrefix q n slug d = Some (r, n')"
    "\<forall>p. r = Inr p \<longrightarrow> p \<notin> set (map prj_prefix (db_projects d))"
    using uniqueIssuePrefix_total by blast
  show ?thesis
  proof (cases r)
    case (Inl e)
    then show ?thesis using r(1) assms by (simp add: create_with_def)
  next
    case (Inr p)
    then show ?thesis
      using r assms insert_project_ok [OF assms, of "new_project name slug status p d"]
      by (auto simp: create_with_def Let_def new_project_def split: option.splits sum.splits)
  qed
qed

lemma EnsureProject_ok:
  assumes "pdb_ok d"
  shows "\<exists>r d'. EnsureProject q ro slug d = Some (r, d') \<and> pdb_ok d'"
    "\<exists>r d'. EnsureProjectPending q ro slug d = Some (r, d') \<and> pdb_ok d'"
  using assms create_with_ok [OF assms]
  by (auto simp: EnsureProject_def EnsureProjectPending_def CreateProject_def CreateProjectPending_def
      split: sum.splits)

lemma map_projects_ok:
  assumes "pdb_ok d" "\<And>p. prj_id (f p) = prj_id p" "\<And>p. prj_prefix (f p) = prj_prefix p"
    "distinct (map prj_slug (map f (db_projects d)))"
    "\<And>p g. p \<in> set (db_projects d) \<Longrightarrow> prj_group (f p) = Some g \<Longrightarrow> g \<in> fst ` set (db_groups d)"
  shows "pdb_ok (d\<lparr>db_projects := map f (db_projects d)\<rparr>)"
  using assms by (auto simp: pdb_ok_def live_ids_def comp_def image_image)

lemma ApproveProject_ok: "pdb_ok d \<Longrightarrow> pdb_ok (snd (ApproveProject q slug d))"
proof -
  assume a: "pdb_ok d"
  let ?f = "\<lambda>p. if prj_slug p = slug then p\<lparr>prj_status := ''active''\<rparr> else p"
  have "pdb_ok (d\<lparr>db_projects := map ?f (db_projects d)\<rparr>)"
    by (rule map_projects_ok [OF a]) (use a in \<open>auto simp: pdb_ok_def comp_def if_distrib cong: if_cong split: if_splits\<close>)
  then show ?thesis using a by (simp add: ApproveProject_def split: option.splits)
qed

subsection \<open>Deleting\<close>

lemma drop_first_set: "set (drop_first n P xs) \<subseteq> set xs"
  by (induction n P xs rule: drop_first.induct) (auto split: nat.splits if_splits)

lemma drop_first_distinct: "distinct (map f xs) \<Longrightarrow> distinct (map f (drop_first n P xs))"
proof (induction n P xs rule: drop_first.induct)
  case (2 n P x xs)
  have "f x \<notin> f ` set (drop_first n P xs)" using 2(3) drop_first_set [of n P xs] by auto
  then show ?case using 2 by (simp split: nat.split)
qed simp

lemma delete_batches_kept:
  "set (snd (delete_batches q n P xs)) \<subseteq> set xs"
  "distinct (map f xs) \<Longrightarrow> distinct (map f (snd (delete_batches q n P xs)))"
proof -
  have "set (snd (delete_batches q n P xs)) \<subseteq> set xs \<and>
    (distinct (map f xs) \<longrightarrow> distinct (map f (snd (delete_batches q n P xs))))"
  proof (induction q n P xs rule: delete_batches.induct)
    case (1 q n P xs)
    let ?xs = "drop_first batchSize P xs"
    show ?case
    proof (cases "q n = None \<and> \<not> length xs - length ?xs < batchSize")
      case True
      then have "delete_batches q n P xs = delete_batches q (Suc n) P ?xs"
        by (subst delete_batches.simps) (simp add: Let_def)
      then show ?thesis
        using 1 [of ?xs] True drop_first_set [of batchSize P xs] drop_first_distinct [of f xs batchSize P] by auto
    next
      case False
      then have "snd (delete_batches q n P xs) = xs \<or> snd (delete_batches q n P xs) = ?xs"
        by (subst (1 2) delete_batches.simps) (auto simp: Let_def split: option.split)
      then show ?thesis
        using drop_first_set [of batchSize P xs] drop_first_distinct [of f xs batchSize P] by auto
    qed
  qed
  then show "set (snd (delete_batches q n P xs)) \<subseteq> set xs"
    "distinct (map f xs) \<Longrightarrow> distinct (map f (snd (delete_batches q n P xs)))" by auto
qed

text \<open>When nothing fails, everything that matches is gone.\<close>

lemma drop_first_full:
  "length xs - length (drop_first n P xs) < n \<Longrightarrow> drop_first n P xs = filter (\<lambda>x. \<not> P x) xs"
proof (induction n P xs rule: drop_first.induct)
  case (2 n P x xs)
  show ?case
  proof (cases "P x")
    case True
    obtain k where k: "n = Suc k" using 2(3) True by (cases n) auto
    have "length (drop_first k P xs) \<le> length xs" by (rule drop_first_le)
    then show ?thesis using 2(1) [OF True k] 2(3) True k by simp
  next
    case False
    then show ?thesis using 2 by simp
  qed
qed simp

lemma filter_drop_first: "filter (\<lambda>x. \<not> P x) (drop_first n P xs) = filter (\<lambda>x. \<not> P x) xs"
  by (induction n P xs rule: drop_first.induct) (auto split: nat.splits)

lemma delete_batches_fine:
  "(\<And>n. q n = None) \<Longrightarrow> \<exists>n'. delete_batches q n P xs = ((None, n'), filter (\<lambda>x. \<not> P x) xs)"
proof (induction q n P xs rule: delete_batches.induct)
  case (1 q n P xs)
  let ?xs = "drop_first batchSize P xs"
  show ?case
  proof (cases "length xs - length ?xs < batchSize")
    case True
    then show ?thesis
      using 1(2) drop_first_full [OF True] by (subst delete_batches.simps) (simp add: Let_def)
  next
    case False
    then have "delete_batches q n P xs = delete_batches q (Suc n) P ?xs"
      using 1(2) by (subst delete_batches.simps) (simp add: Let_def)
    then show ?thesis
      using 1(1) [OF 1(2) refl False 1(2)] filter_drop_first [of P batchSize xs] by simp
  qed
qed

lemma fewer_rows_ok:
  assumes "pdb_ok d"
  shows "set is \<subseteq> set (db_issues d) \<Longrightarrow> distinct (map (\<lambda>r. (oi_project r, oi_fingerprint r)) is)
      \<Longrightarrow> pdb_ok (d\<lparr>db_issues := is\<rparr>)"
    "set ks \<subseteq> set (db_keys d) \<Longrightarrow> pdb_ok (d\<lparr>db_keys := ks\<rparr>)"
    "set as \<subseteq> set (db_aliases d) \<Longrightarrow> distinct (map fst as) \<Longrightarrow> pdb_ok (d\<lparr>db_aliases := as\<rparr>)"
    "pdb_ok (d\<lparr>db_rows := rs\<rparr>)"
  using assms by (auto simp: pdb_ok_def live_ids_def)

lemma deleteInBatches_ok:
  assumes "pdb_ok d"
  shows "pdb_ok (snd (deleteInBatches q n t i d))"
proof -
  have u: "distinct (map fst (db_aliases d))" "distinct (map (\<lambda>r. (oi_project r, oi_fingerprint r)) (db_issues d))"
    using assms by (simp_all add: pdb_ok_def)
  note k = fewer_rows_ok [OF assms] and b = delete_batches_kept(1) delete_batches_kept(2) [OF u(1)]
    delete_batches_kept(2) [OF u(2)]
  have "pdb_ok (d\<lparr>db_issues := snd (delete_batches q n P (db_issues d))\<rparr>)" for P by (rule k(1) [OF b(1) b(3)])
  moreover have "pdb_ok (d\<lparr>db_keys := snd (delete_batches q n P (db_keys d))\<rparr>)" for P by (rule k(2) [OF b(1)])
  moreover have "pdb_ok (d\<lparr>db_aliases := snd (delete_batches q n P (db_aliases d))\<rparr>)" for P by (rule k(3) [OF b(1) b(2)])
  ultimately show ?thesis using k(4) by (simp add: deleteInBatches_def split_beta)
qed

lemma delete_children_ok: "pdb_ok d \<Longrightarrow> pdb_ok (snd (delete_children q n ts i d))"
proof (induction q n ts i d rule: delete_children.induct)
  case (2 q n t ts i d)
  have "pdb_ok (snd (deleteInBatches q n t i d))" using 2(2) by (rule deleteInBatches_ok)
  then show ?case using 2(1) by (auto split: prod.splits option.splits)
qed simp

lemma delete_project_row_ok:
  assumes a: "pdb_ok d" and r: "delete_project_row i d = Inr d'"
  shows "pdb_ok d'"
proof (cases "i \<in> set (map prj_id (db_projects d))")
  case True
  then have k: "i \<notin> set (db_keys d)"
    and d': "d' = d\<lparr>db_projects := filter (\<lambda>p. prj_id p \<noteq> i) (db_projects d),
             db_issues := filter (\<lambda>r. oi_project r \<noteq> i) (db_issues d),
             db_aliases := filter (\<lambda>(a, k). k \<noteq> i) (db_aliases d),
             db_rows := filter (\<lambda>(t, k). t \<in> set freeTables \<or> k \<noteq> i) (db_rows d)\<rparr>"
    using r by (auto simp: delete_project_row_def split: if_splits)
  have ids: "live_ids d' = live_ids d - {i}" by (auto simp: d' live_ids_def)
  show ?thesis
    using a k by (auto simp: pdb_ok_def ids) (auto simp: d' intro!: distinct_map_filter_id)
next
  case False
  then show ?thesis using a r by (auto simp: delete_project_row_def split: if_splits)
qed

lemma DeleteProject_ok: "pdb_ok d \<Longrightarrow> pdb_ok (snd (DeleteProject q slug d))"
  using delete_children_ok [of d q 1 childTables] delete_project_row_ok
  by (auto simp: DeleteProject_def split: option.splits prod.splits sum.splits) (metis snd_conv)+

subsection \<open>Transactions\<close>

definition keeps_db :: "(pdb \<Rightarrow> db_error + pdb) \<Rightarrow> bool" where
  "keeps_db f \<longleftrightarrow> (\<forall>d d'. pdb_ok d \<longrightarrow> f d = Inr d' \<longrightarrow> pdb_ok d')"

lemma in_tx_ok: "list_all (\<lambda>x. keeps_db (fst x)) fs \<Longrightarrow> pdb_ok d \<Longrightarrow> in_tx q n fs d = Inr d' \<Longrightarrow> pdb_ok d'"
  by (induction q n fs d rule: in_tx.induct) (auto simp: keeps_db_def split: option.splits sum.splits)

lemma keeps_db_steps:
  "keeps_db (insert_alias a i)" "keeps_db (delete_project_row i)" "keeps_db (move_rows t i j)"
  "keeps_db (update_slug i slug name)" "keeps_db (move_issues i j)"
proof -
  show "keeps_db (insert_alias a i)"
    by (auto simp: keeps_db_def insert_alias_def pdb_ok_def live_ids_def split: if_splits)
  show "keeps_db (delete_project_row i)" using delete_project_row_ok by (auto simp: keeps_db_def)
  show "keeps_db (move_rows t i j)" by (auto simp: keeps_db_def move_rows_def pdb_ok_def live_ids_def)
  show "keeps_db (move_issues i j)"
    by (auto simp: keeps_db_def move_issues_def pdb_ok_def live_ids_def Let_def split: if_splits)
  show "keeps_db (update_slug i slug name)"
    unfolding keeps_db_def
  proof (intro allI impI)
    fix d d' assume a: "pdb_ok d" "update_slug i slug name d = Inr d'"
    let ?f = "\<lambda>p. if prj_id p = i then p\<lparr>prj_slug := slug, prj_name := name\<rparr> else p"
    have n: "\<not> list_ex (\<lambda>p. prj_slug p = slug \<and> prj_id p \<noteq> i) (db_projects d)"
      and d': "d' = d\<lparr>db_projects := map ?f (db_projects d)\<rparr>"
      using a(2) by (auto simp: update_slug_def split: if_splits)
    have ids: "distinct (map prj_id (db_projects d))" and slugs: "distinct (map prj_slug (db_projects d))"
      using a(1) by (simp_all add: pdb_ok_def)
    have "inj_on (\<lambda>p. prj_slug (?f p)) (set (db_projects d))"
    proof (rule inj_onI)
      fix p r assume p: "p \<in> set (db_projects d)" "r \<in> set (db_projects d)" "prj_slug (?f p) = prj_slug (?f r)"
      have "prj_id p = prj_id r \<or> prj_slug p = prj_slug r"
        using p n by (auto simp: list_ex_iff split: if_splits)
      then show "p = r" using ids slugs p(1,2) by (auto simp: distinct_map inj_on_def)
    qed
    then have "distinct (map prj_slug (map ?f (db_projects d)))"
      using ids by (simp add: distinct_map comp_def)
    then show "pdb_ok d'" unfolding d'
      by (intro map_projects_ok [OF a(1)]) (use a(1) in \<open>auto simp: pdb_ok_def split: if_splits\<close>)
  qed
qed

lemma tx_ok: "pdb_ok d \<Longrightarrow> list_all (\<lambda>x. keeps_db (fst x)) fs \<Longrightarrow> pdb_ok (snd (tx_result d (in_tx q n fs d)))"
  using in_tx_ok [of fs d q n] by (auto simp: tx_result_def split: sum.splits)

lemma RenameProject_ok: "pdb_ok d \<Longrightarrow> pdb_ok (snd (RenameProject q old new name d))"
  by (auto simp: RenameProject_def keeps_db_steps simp del: in_tx.simps split: option.splits sum.splits
      intro!: tx_ok)

lemma MergeProjects_ok: "pdb_ok d \<Longrightarrow> pdb_ok (snd (MergeProjects q src tgt d))"
  by (auto simp: MergeProjects_def merge_steps_def keeps_db_steps simp del: in_tx.simps split: option.splits
      intro!: tx_ok)

lemma Alias_ok:
  assumes "pdb_ok d"
  shows "pdb_ok (snd (CreateAlias q a i d))" "pdb_ok (snd (DeleteAlias q a d))"
proof -
  have "insert_alias a i d = Inr d' \<Longrightarrow> pdb_ok d'" for d'
    using keeps_db_steps(1) [of a i] assms unfolding keeps_db_def by blast
  then show "pdb_ok (snd (CreateAlias q a i d))"
    using assms by (simp add: CreateAlias_def split: option.split sum.split)
  have "distinct (map fst (filter (\<lambda>(b, k). b \<noteq> a) (db_aliases d)))"
    using assms by (simp add: pdb_ok_def distinct_map_filter_id)
  then have "pdb_ok (d\<lparr>db_aliases := filter (\<lambda>(b, k). b \<noteq> a) (db_aliases d)\<rparr>)"
    by (intro fewer_rows_ok(3) [OF assms]) auto
  then show "pdb_ok (snd (DeleteAlias q a d))"
    using assms by (simp add: DeleteAlias_def split: option.split)
qed

lemma find_group_Some: "find_group slug d = Some g \<Longrightarrow> (g, slug) \<in> set (db_groups d)"
  by (auto simp: find_group_def dest!: find_SomeD)

lemma set_group_ok:
  assumes "pdb_ok d" "\<And>h. g = Some h \<Longrightarrow> h \<in> fst ` set (db_groups d)"
  shows "pdb_ok (snd (set_group slug g d))"
proof -
  let ?f = "\<lambda>p. if prj_slug p = slug then p\<lparr>prj_group := g\<rparr> else p"
  have "pdb_ok (d\<lparr>db_projects := map ?f (db_projects d)\<rparr>)"
    by (rule map_projects_ok [OF assms(1)])
      (use assms in \<open>auto simp: pdb_ok_def comp_def if_distrib cong: if_cong split: if_splits\<close>)
  then show ?thesis using assms(1) by (simp add: set_group_def)
qed

lemma CreateGroup_ok: "pdb_ok d \<Longrightarrow> pdb_ok (snd (CreateGroup q slug d))"
proof -
  assume a: "pdb_ok d"
  have "find_group slug d = None \<Longrightarrow> slug \<notin> snd ` set (db_groups d)"
    by (auto simp: find_group_def find_None_iff)
  then have "find_group slug d = None \<Longrightarrow>
      pdb_ok (d\<lparr>db_groups := db_groups d @ [(db_gnext d, slug)], db_gnext := db_gnext d + 1\<rparr>)"
    using a by (auto simp: pdb_ok_def live_ids_def less_imp_le)
  then show ?thesis using a by (simp add: CreateGroup_def split: option.split)
qed

lemma distinct_snd: "distinct (map snd xs) \<Longrightarrow> (a, s) \<in> set xs \<Longrightarrow> (b, s) \<in> set xs \<Longrightarrow> a = b"
  by (induction xs) (force simp: image_iff)+

lemma DeleteGroup_ok: "pdb_ok d \<Longrightarrow> pdb_ok (snd (DeleteGroup q slug d))"
proof -
  assume a: "pdb_ok d"
  have "pdb_ok (d\<lparr>db_groups := filter (\<lambda>x. snd x \<noteq> slug) (db_groups d),
      db_projects := map (\<lambda>p. if prj_group p = Some g then p\<lparr>prj_group := None\<rparr> else p) (db_projects d)\<rparr>)"
    if g: "(g, slug) \<in> set (db_groups d)" for g
  proof -
    let ?f = "\<lambda>p. if prj_group p = Some g then p\<lparr>prj_group := None\<rparr> else p"
    have f: "map prj_id (map ?f ps) = map prj_id ps" "map prj_slug (map ?f ps) = map prj_slug ps"
      "map prj_prefix (map ?f ps) = map prj_prefix ps" for ps by (induction ps) auto
    have "h \<in> fst ` set (filter (\<lambda>x. snd x \<noteq> slug) (db_groups d))"
      if h: "h \<in> fst ` set (db_groups d)" "h \<noteq> g" for h
    proof -
      obtain s where s: "(h, s) \<in> set (db_groups d)" using h(1) by auto
      have "s \<noteq> slug" using distinct_snd [of "db_groups d" h slug g] s g a h(2) by (auto simp: pdb_ok_def)
      then show ?thesis using s by force
    qed
    moreover have "live_ids (d\<lparr>db_projects := map ?f (db_projects d)\<rparr>) = live_ids d"
      using arg_cong [OF f(1), of set "db_projects d"] by (simp add: live_ids_def del: set_map map_map) (simp only: set_map)
    ultimately show ?thesis
      using a by (auto simp: pdb_ok_def f live_ids_def image_image if_distrib
          intro!: distinct_map_filter_id simp del: map_map cong: if_cong split: if_splits)
  qed
  then show ?thesis using a find_group_Some by (auto simp: DeleteGroup_def split: option.split)
qed

lemma Group_membership_ok:
  "pdb_ok d \<Longrightarrow> pdb_ok (snd (AssignProjectToGroup q p g d))"
  "pdb_ok d \<Longrightarrow> pdb_ok (snd (RemoveProjectFromGroup q p d))"
proof -
  assume a: "pdb_ok d"
  have "find_group g d = Some h \<Longrightarrow> pdb_ok (snd (set_group p (Some h) d))" for h
    by (rule set_group_ok [OF a]) (force dest: find_group_Some)
  then show "pdb_ok (snd (AssignProjectToGroup q p g d))"
    using a by (simp add: AssignProjectToGroup_def split: option.split)
  show "pdb_ok (snd (RemoveProjectFromGroup q p d))"
    using a set_group_ok [OF a, of None] by (simp add: RemoveProjectFromGroup_def split: option.split)
qed

subsection \<open>Any sequence of calls\<close>

datatype project_call =
    CallCreate faults string string
  | CallCreatePending faults string
  | CallEnsure faults bool string
  | CallEnsurePending faults bool string
  | CallApprove faults string
  | CallDelete faults string
  | CallAlias faults string int
  | CallUnalias faults string
  | CallRename faults string string string
  | CallMerge faults string string
  | CallGroup faults string
  | CallUngroup faults string
  | CallAssign faults string string
  | CallUnassign faults string

definition left :: "('a \<times> pdb) option \<Rightarrow> pdb \<Rightarrow> pdb" where
  "left r d = (case r of None \<Rightarrow> d | Some (_, d') \<Rightarrow> d')"

fun project_step :: "pdb \<Rightarrow> project_call \<Rightarrow> pdb" where
  "project_step d (CallCreate q name slug) = left (CreateProject q 0 name slug d) d"
| "project_step d (CallCreatePending q slug) = left (CreateProjectPending q 0 slug d) d"
| "project_step d (CallEnsure q ro slug) = left (EnsureProject q ro slug d) d"
| "project_step d (CallEnsurePending q ro slug) = left (EnsureProjectPending q ro slug d) d"
| "project_step d (CallApprove q slug) = snd (ApproveProject q slug d)"
| "project_step d (CallDelete q slug) = snd (DeleteProject q slug d)"
| "project_step d (CallAlias q a i) = snd (CreateAlias q a i d)"
| "project_step d (CallUnalias q a) = snd (DeleteAlias q a d)"
| "project_step d (CallRename q old new name) = snd (RenameProject q old new name d)"
| "project_step d (CallMerge q src tgt) = snd (MergeProjects q src tgt d)"
| "project_step d (CallGroup q slug) = snd (CreateGroup q slug d)"
| "project_step d (CallUngroup q slug) = snd (DeleteGroup q slug d)"
| "project_step d (CallAssign q p g) = snd (AssignProjectToGroup q p g d)"
| "project_step d (CallUnassign q p) = snd (RemoveProjectFromGroup q p d)"

lemma left_ok: "pdb_ok d \<Longrightarrow> \<exists>r d'. x = Some (r, d') \<and> pdb_ok d' \<Longrightarrow> pdb_ok (left x d)"
  by (auto simp: left_def)

interpretation project_calls: guarded_machine project_step pdb_ok "\<lambda>c. True"
proof
  fix d c assume "pdb_ok d"
  then show "pdb_ok (project_step d c)"
    using create_with_ok [of d]
    by (cases c) (auto simp: CreateProject_def CreateProjectPending_def intro!: left_ok EnsureProject_ok
        ApproveProject_ok DeleteProject_ok Alias_ok RenameProject_ok MergeProjects_ok CreateGroup_ok
        DeleteGroup_ok Group_membership_ok)
qed

definition demo_project :: "int \<Rightarrow> string \<Rightarrow> string \<Rightarrow> project" where
  "demo_project i slug prefix = \<lparr>prj_id = i, prj_slug = slug, prj_name = slug, prj_status = ''active'',
     prj_prefix = prefix, prj_group = None\<rparr>"

definition demo_issue :: "int \<Rightarrow> int \<Rightarrow> string \<Rightarrow> owned_issue" where
  "demo_issue i p f = \<lparr>oi_id = i, oi_project = p, oi_fingerprint = f, oi_number = 1\<rparr>"

text \<open>Two projects with an issue each, and a key of the first.\<close>

definition demo_db :: "int list \<Rightarrow> pdb" where
  "demo_db keys = \<lparr>db_projects = [demo_project 1 ''web'' ''WEB'', demo_project 2 ''api'' ''API''], db_next = 3,
     db_aliases = [(''site'', 1)], db_keys = keys, db_issues = [demo_issue 10 1 ''f'', demo_issue 11 2 ''g''],
     db_rows = [(''events'', 1), (''log_entries'', 1), (''monitors'', 1)], db_groups = [], db_gnext = 1\<rparr>"

lemma demo_db_ok: "set keys \<subseteq> {1, 2} \<Longrightarrow> pdb_ok (demo_db keys)"
  by (auto simp: pdb_ok_def demo_db_def demo_project_def demo_issue_def live_ids_def)

text \<open>C5: Whatever calls are made on a consistent project table, in any order, with any statement of
  any of them failing, it stays consistent: ids, slugs and issue prefixes are each unique, an
  alias names one existing project, every issue and key belongs to an existing project, no two
  issues of a project share a fingerprint, and a project's group exists.\<close>

theorem project_table_consistent: "pdb_ok d \<Longrightarrow> pdb_ok (foldl project_step d calls)"
  using project_calls.run_inv [of d calls] by (simp add: list_all_iff)

theorem project_table_consistent_witness:
  "pdb_ok (foldl project_step (demo_db [1])
     [CallEnsure fine False ''web app'', CallDelete (\<lambda>n. if n = 5 then Some (Plain ''disk full'') else None) ''web'',
      CallMerge fine ''api'' ''web''])"
  by (rule project_table_consistent [OF demo_db_ok]) simp

section \<open>Finding a project\<close>

lemma find_slug_iff: "pdb_ok d \<Longrightarrow> find_slug slug d = Some p \<longleftrightarrow> p \<in> set (db_projects d) \<and> prj_slug p = slug"
proof
  assume a: "pdb_ok d" "p \<in> set (db_projects d) \<and> prj_slug p = slug"
  obtain r where r: "find_slug slug d = Some r" using a(2) find_slug_None [of slug d] by (cases "find_slug slug d") auto
  then have "r = p" using a find_slug_Some [OF r] by (auto simp: pdb_ok_def distinct_map inj_on_def)
  then show "find_slug slug d = Some p" using r by simp
qed (rule find_slug_Some)

lemma find_id_iff: "pdb_ok d \<Longrightarrow> find_id i d = Some p \<longleftrightarrow> p \<in> set (db_projects d) \<and> prj_id p = i"
proof
  assume a: "pdb_ok d" "p \<in> set (db_projects d) \<and> prj_id p = i"
  then obtain r where r: "find_id i d = Some r"
    by (cases "find_id i d") (auto simp: find_id_def find_None_iff)
  then have "r \<in> set (db_projects d) \<and> prj_id r = i" by (auto simp: find_id_def dest: find_SomeD)
  then show "find_id i d = Some p" using a r by (auto simp: pdb_ok_def distinct_map inj_on_def)
next
  show "find_id i d = Some p \<Longrightarrow> p \<in> set (db_projects d) \<and> prj_id p = i"
    by (auto simp: find_id_def dest: find_SomeD)
qed

text \<open>What a slug stands for: its project, or the project it is an alias of.\<close>

definition names :: "pdb \<Rightarrow> string \<Rightarrow> project option" where
  "names d slug = (case find_slug slug d of
     Some p \<Rightarrow> Some p
   | None \<Rightarrow> (case map_of (db_aliases d) slug of None \<Rightarrow> None | Some i \<Rightarrow> find_id i d))"

lemma names_project: "pdb_ok d \<Longrightarrow> names d slug = Some p \<Longrightarrow> p \<in> set (db_projects d)"
  by (auto simp: names_def find_slug_iff find_id_iff split: option.splits)

lemma alias_target: "pdb_ok d \<Longrightarrow> map_of (db_aliases d) slug = Some i \<Longrightarrow> \<exists>p. find_id i d = Some p"
proof -
  assume a: "pdb_ok d" "map_of (db_aliases d) slug = Some i"
  then have "i \<in> live_ids d" using map_of_SomeD [OF a(2)] by (auto simp: pdb_ok_def)
  then show ?thesis using find_id_iff [OF a(1)] by (auto simp: live_ids_def)
qed

lemma create_fine:
  assumes "\<And>m. n \<le> m \<Longrightarrow> q m = None"
  shows "\<exists>p d'. create_with wrap q n name slug status d =
      (if find_slug slug d = None then Some (Inr p, d') else Some (Inl (wrap unique_failed), d))
    \<and> prj_slug p = slug \<and> prj_id p = db_next d \<and> prj_status p = status \<and> d' = d\<lparr>db_projects := db_projects d @ [p], db_next := db_next d + 1\<rparr>"
proof -
  obtain x n' where x: "uniqueIssuePrefix q n slug d = Some (Inr x, n')" "n < n'"
    using uniqueIssuePrefix_total [of q n slug d] assms by auto
  then have "q n' = None" using assms by simp
  note x = x(1) this
  show ?thesis
    by (rule exI [of _ "new_project name slug status x d"])
      (auto simp: create_with_def x Let_def insert_project_def new_project_def find_slug_None)
qed

lemma ensure_named: "pdb_ok d \<Longrightarrow> names d slug = Some p \<Longrightarrow> EnsureProject fine ro slug d = Some (Inr p, d)"
  by (auto simp: names_def EnsureProject_def ProjectBySlug_def ResolveAlias_def ProjectByID_def one_row_def
      split: option.splits)

lemma ensure_new:
  assumes "find_slug slug d = None" "q 0 = None" "q 1 \<noteq> None \<or> map_of (db_aliases d) slug = None"
  shows "EnsureProject q False slug d = CreateProject q 2 slug slug d"
  using assms by (auto simp: EnsureProject_def ProjectBySlug_def ResolveAlias_def one_row_def split: option.splits)

lemma names_None: "pdb_ok d \<Longrightarrow> names d slug = None \<Longrightarrow> find_slug slug d = None \<and> map_of (db_aliases d) slug = None"
  using alias_target [of d slug] by (auto simp: names_def split: option.splits)

lemma find_append: "List.find P (xs @ ys) = (case List.find P xs of None \<Rightarrow> List.find P ys | Some x \<Rightarrow> Some x)"
  by (induction xs) auto

lemma names_added:
  "prj_slug p = slug \<Longrightarrow> find_slug slug d = None
   \<Longrightarrow> names (d\<lparr>db_projects := db_projects d @ [p], db_next := k\<rparr>) slug = Some p"
  by (auto simp: names_def find_slug_def find_append split: option.splits)

text \<open>C37: When nothing fails, \<open>EnsureProject\<close> never refuses a slug: a slug that names a project,
  directly or as an alias, returns that project and writes nothing; any other slug gets exactly
  one new active project.  Either way a second call returns the same project.\<close>

theorem ensure_finds_or_creates:
  assumes "pdb_ok d"
  shows "\<exists>p d'. EnsureProject fine False slug d = Some (Inr p, d')
    \<and> (case names d slug of
         Some r \<Rightarrow> p = r \<and> d' = d
       | None \<Rightarrow> prj_slug p = slug \<and> prj_status p = ''active'' \<and> db_projects d' = db_projects d @ [p]
           \<and> db_aliases d' = db_aliases d \<and> db_issues d' = db_issues d)
    \<and> EnsureProject fine False slug d' = Some (Inr p, d')"
proof (cases "names d slug")
  case (Some p)
  then show ?thesis using ensure_named [OF assms] by auto
next
  case None
  note n = names_None [OF assms None]
  obtain p d' where c: "CreateProject fine 2 slug slug d = Some (Inr p, d')" "prj_slug p = slug"
    "prj_status p = ''active''" "d' = d\<lparr>db_projects := db_projects d @ [p], db_next := db_next d + 1\<rparr>"
    using create_fine [of 2 fine _ slug slug "''active''" d] n unfolding CreateProject_def by fastforce
  have e: "EnsureProject fine False slug d = Some (Inr p, d')" using ensure_new [of slug d fine] n c(1) by simp
  then have "pdb_ok d'" using EnsureProject_ok(1) [OF assms, of fine False slug] by simp
  then have "EnsureProject fine False slug d' = Some (Inr p, d')"
    using names_added [OF c(2)] n c(4) by (intro ensure_named) auto
  then show ?thesis using e c None by simp
qed

theorem ensure_finds_or_creates_witness:
  "\<exists>p d'. EnsureProject fine False ''site'' (demo_db []) = Some (Inr p, d')
    \<and> EnsureProject fine False ''site'' d' = Some (Inr p, d')"
  using ensure_finds_or_creates [OF demo_db_ok, of "[]" "''site''"] by auto

lemma names_demo:
  "find_slug ''site'' (demo_db keys) = None" "names (demo_db keys) ''site'' = Some (demo_project 1 ''web'' ''WEB'')"
  by (simp_all add: names_def find_slug_def find_id_def demo_db_def demo_project_def)

text \<open>One failing alias lookup turns an alias into a project of its own: when only the second
  statement of \<open>EnsureProject\<close> fails, a slug that is an alias is created as a new project, empty
  and active, and from then on the slug names that project; the alias stays without effect.\<close>

theorem failed_alias_lookup_creates:
  assumes "pdb_ok d" "find_slug slug d = None" "names d slug = Some old"
  shows "\<exists>p d'. EnsureProject (fine(1 := Some e)) False slug d = Some (Inr p, d')
    \<and> prj_id p \<notin> live_ids d \<and> EnsureProject fine False slug d' = Some (Inr p, d')
    \<and> db_aliases d' = db_aliases d"
proof -
  let ?q = "fine(1 := Some e)"
  have q: "2 \<le> m \<Longrightarrow> ?q m = None" for m by simp
  obtain p d' where c: "CreateProject ?q 2 slug slug d = Some (Inr p, d')" "prj_slug p = slug"
    "prj_id p = db_next d" "d' = d\<lparr>db_projects := db_projects d @ [p], db_next := db_next d + 1\<rparr>"
    using create_fine [where q = ?q and n = 2 and name = slug and slug = slug and status = "''active''" and d = d, OF q] assms(2) unfolding CreateProject_def by fastforce
  have e: "EnsureProject ?q False slug d = Some (Inr p, d')" using ensure_new [of slug d ?q] assms(2) c(1) by simp
  then have "pdb_ok d'" using EnsureProject_ok(1) [OF assms(1), of ?q False slug] by simp
  then have "EnsureProject fine False slug d' = Some (Inr p, d')"
    using names_added [OF c(2) assms(2)] c(4) by (intro ensure_named) auto
  moreover have "prj_id p \<notin> live_ids d" using assms(1) c(3) by (auto simp: pdb_ok_def live_ids_def)
  ultimately show ?thesis using e c(4) by simp
qed

theorem failed_alias_lookup_creates_witness:
  "\<exists>p d'. EnsureProject (fine(1 := Some DeadlineExceeded)) False ''site'' (demo_db []) = Some (Inr p, d')
    \<and> prj_id p \<notin> live_ids (demo_db [])"
  using failed_alias_lookup_creates [OF demo_db_ok names_demo(1) names_demo(2), of "[]" DeadlineExceeded] by auto

section \<open>Renaming\<close>

lemma find_slug_unique: "pdb_ok d \<Longrightarrow> find_slug slug d = Some p \<Longrightarrow> r \<in> set (db_projects d) \<Longrightarrow>
    prj_slug r = slug \<longleftrightarrow> prj_id r = prj_id p"
  by (auto simp: find_slug_iff pdb_ok_def distinct_map inj_on_def)

lemma rename_fine:
  assumes "pdb_ok d" "find_slug old d = Some p"
  shows "RenameProject fine old new name d =
    (if list_ex (\<lambda>r. prj_slug r = new \<and> prj_id r \<noteq> prj_id p) (db_projects d)
     then (Some (App (Conflict ''rename project'')), d)
     else if old \<in> fst ` set (db_aliases d) then (Some (App (Conflict ''create rename alias'')), d)
     else (None, d\<lparr>db_projects := map (\<lambda>r. if prj_id r = prj_id p then r\<lparr>prj_slug := new, prj_name := name\<rparr> else r)
                 (db_projects d), db_aliases := db_aliases d @ [(old, prj_id p)]\<rparr>))"
proof -
  have "prj_id p \<in> (\<lambda>r. prj_id (if prj_id r = prj_id p then r\<lparr>prj_slug := new, prj_name := name\<rparr> else r)) ` set (db_projects d)"
    using find_slug_Some [OF assms(2)] by force
  then show ?thesis
    by (simp add: RenameProject_def ProjectBySlug_def one_row_def assms(2) update_slug_def insert_alias_def
        tx_result_def wrapErr_def isUniqueViolation_def image_image)
qed

text \<open>A renamed project is still found under its old slug: after a successful rename both slugs
  name the same project, and no other project or alias changes what it names.\<close>

theorem rename_keeps_old_slug:
  assumes "pdb_ok d" "find_slug old d = Some p" "RenameProject fine old new name d = (None, d')" "new \<noteq> old"
  shows "names d' old = Some (p\<lparr>prj_slug := new, prj_name := name\<rparr>)
    \<and> names d' new = Some (p\<lparr>prj_slug := new, prj_name := name\<rparr>)"
proof -
  let ?p = "p\<lparr>prj_slug := new, prj_name := name\<rparr>"
  let ?f = "\<lambda>r. if prj_id r = prj_id p then r\<lparr>prj_slug := new, prj_name := name\<rparr> else r"
  have d': "d' = d\<lparr>db_projects := map ?f (db_projects d), db_aliases := db_aliases d @ [(old, prj_id p)]\<rparr>"
    and fresh: "old \<notin> fst ` set (db_aliases d)"
    using assms(3) by (auto simp: rename_fine [OF assms(1,2)] split: if_splits)
  have ok: "pdb_ok d'" using RenameProject_ok [OF assms(1), of fine old new name] assms(3) by simp
  have in': "?p \<in> set (db_projects d')" using find_slug_Some [OF assms(2)] by (force simp: d')
  then have "find_slug new d' = Some ?p" "find_id (prj_id p) d' = Some ?p"
    by (simp_all add: find_slug_iff [OF ok] find_id_iff [OF ok])
  moreover have "find_slug old d' = None"
    using assms(4) find_slug_unique [OF assms(1,2)] by (auto simp: find_slug_None d')
  moreover have "map_of (db_aliases d') old = Some (prj_id p)"
  proof -
    have "map_of (db_aliases d) old = None" using fresh by (simp add: map_of_eq_None_iff)
    then show ?thesis by (simp add: d' map_add_def)
  qed
  ultimately show ?thesis by (simp add: names_def)
qed

theorem rename_keeps_old_slug_witness:
  "names (snd (RenameProject fine ''web'' ''www'' ''Web'' (demo_db []))) ''web'' = Some (demo_project 1 ''www'' ''WEB''\<lparr>prj_name := ''Web''\<rparr>)"
proof -
  have f: "find_slug ''web'' (demo_db []) = Some (demo_project 1 ''web'' ''WEB'')"
    by (simp add: find_slug_def demo_db_def demo_project_def)
  obtain d' where d': "RenameProject fine ''web'' ''www'' ''Web'' (demo_db []) = (None, d')"
    using rename_fine [OF demo_db_ok f, of "''www''" "''Web''"] by (auto simp: demo_db_def demo_project_def)
  from rename_keeps_old_slug [OF demo_db_ok f d'] show ?thesis by (simp add: d' demo_project_def)
qed

text \<open>The display name of a project can be changed only once: a rename that keeps the slug leaves
  an alias from the slug to itself, and every later rename of the project, whatever the new slug
  and name, is refused as a conflict and changes nothing.\<close>

theorem display_name_changes_once:
  assumes "pdb_ok d" "find_slug slug d = Some p" "slug \<notin> fst ` set (db_aliases d)"
  shows "\<exists>d1. RenameProject fine slug slug name d = (None, d1)
    \<and> (\<exists>e. RenameProject fine slug new name2 d1 = (Some (App (Conflict e)), d1))"
proof -
  let ?p = "p\<lparr>prj_name := name\<rparr>"
  let ?f = "\<lambda>r. if prj_id r = prj_id p then r\<lparr>prj_slug := slug, prj_name := name\<rparr> else r"
  obtain d1 where d1: "d1 = d\<lparr>db_projects := map ?f (db_projects d), db_aliases := db_aliases d @ [(slug, prj_id p)]\<rparr>"
    by blast
  have "\<not> list_ex (\<lambda>r. prj_slug r = slug \<and> prj_id r \<noteq> prj_id p) (db_projects d)"
    using find_slug_unique [OF assms(1,2)] by (auto simp: list_ex_iff)
  then have r: "RenameProject fine slug slug name d = (None, d1)"
    using assms(3) by (simp add: rename_fine [OF assms(1,2)] d1)
  have ok: "pdb_ok d1" using RenameProject_ok [OF assms(1), of fine slug slug name] r by simp
  have "?p \<in> set (db_projects d1)" using find_slug_Some [OF assms(2)] by (force simp: d1)
  then have "find_slug slug d1 = Some ?p" using find_slug_Some [OF assms(2)] by (simp add: find_slug_iff [OF ok])
  from rename_fine [OF ok this, of new name2] r show ?thesis by (auto simp: d1)
qed

theorem display_name_changes_once_witness:
  "\<exists>d1. RenameProject fine ''web'' ''web'' ''Web'' (demo_db []) = (None, d1)
    \<and> (\<exists>e. RenameProject fine ''web'' ''web'' ''Website'' d1 = (Some (App (Conflict e)), d1))"
proof -
  have "find_slug ''web'' (demo_db []) = Some (demo_project 1 ''web'' ''WEB'')"
    by (simp add: find_slug_def demo_db_def demo_project_def)
  from display_name_changes_once [OF demo_db_ok this, of "''Web''" "''web''" "''Website''"] show ?thesis
    by (simp add: demo_db_def)
qed

section \<open>Merging\<close>

definition reowned :: "int \<Rightarrow> int \<Rightarrow> owned_issue \<Rightarrow> owned_issue" where
  "reowned src tgt r = (if oi_project r = src then r\<lparr>oi_project := tgt\<rparr> else r)"

definition share_fingerprint :: "int \<Rightarrow> int \<Rightarrow> pdb \<Rightarrow> bool" where
  "share_fingerprint a b d \<longleftrightarrow> (\<exists>r \<in> set (db_issues d). \<exists>s \<in> set (db_issues d).
     oi_project r = a \<and> oi_project s = b \<and> oi_fingerprint r = oi_fingerprint s)"

lemma reowned_distinct:
  assumes "pdb_ok d" "src \<noteq> tgt"
  shows "distinct (map (\<lambda>r. (oi_project r, oi_fingerprint r)) (map (reowned src tgt) (db_issues d)))
    \<longleftrightarrow> \<not> share_fingerprint src tgt d"
proof -
  let ?k = "\<lambda>r. (oi_project r, oi_fingerprint r)"
  have d: "distinct (db_issues d)" "inj_on ?k (set (db_issues d))"
    using assms(1) by (auto simp: pdb_ok_def distinct_map)
  have "inj_on (?k \<circ> reowned src tgt) (set (db_issues d)) \<longleftrightarrow> \<not> share_fingerprint src tgt d"
  proof
    assume i: "inj_on (?k \<circ> reowned src tgt) (set (db_issues d))"
    show "\<not> share_fingerprint src tgt d"
    proof
      assume "share_fingerprint src tgt d"
      then obtain r s where rs: "r \<in> set (db_issues d)" "s \<in> set (db_issues d)" "oi_project r = src"
        "oi_project s = tgt" "oi_fingerprint r = oi_fingerprint s" by (auto simp: share_fingerprint_def)
      then have "r = s" using inj_onD [OF i _ rs(1,2)] assms(2) by (simp add: reowned_def)
      then show False using rs assms(2) by simp
    qed
  next
    assume n: "\<not> share_fingerprint src tgt d"
    show "inj_on (?k \<circ> reowned src tgt) (set (db_issues d))"
    proof (rule inj_onI)
      fix r s assume rs: "r \<in> set (db_issues d)" "s \<in> set (db_issues d)"
        "(?k \<circ> reowned src tgt) r = (?k \<circ> reowned src tgt) s"
      then have "?k r = ?k s" using n by (auto simp: reowned_def share_fingerprint_def split: if_splits) metis+
      then show "r = s" using inj_onD [OF d(2) _ rs(1,2)] by simp
    qed
  qed
  then show ?thesis using d(1) by (simp add: distinct_map)
qed

text \<open>The rows a merge moves besides the issues.\<close>

definition mergedTables :: "string list" where
  "mergedTables = [''events'', ''issue_facets'', ''analytics_pageviews'', ''alerts'']"

definition retagged :: "int \<Rightarrow> int \<Rightarrow> (string \<times> int) list \<Rightarrow> (string \<times> int) list" where
  "retagged src tgt rows = map (\<lambda>(t, k). if t \<in> set mergedTables \<and> k = src then (t, tgt) else (t, k)) rows"

lemma retag_steps:
  "map (\<lambda>(t, k). if t = ''alerts'' \<and> k = src then (t, tgt) else (t, k))
    (map (\<lambda>(t, k). if t = ''analytics_pageviews'' \<and> k = src then (t, tgt) else (t, k))
    (map (\<lambda>(t, k). if t = ''issue_facets'' \<and> k = src then (t, tgt) else (t, k))
    (map (\<lambda>(t, k). if t = ''events'' \<and> k = src then (t, tgt) else (t, k)) rows))) = retagged src tgt rows"
  unfolding retagged_def mergedTables_def by (induction rows) auto

lemma in_tx_fine: "in_tx fine n ((f, wrap) # rest) d = (case f d of Inl e \<Rightarrow> Inl (wrap e) | Inr d' \<Rightarrow> in_tx fine (Suc n) rest d')"
  by simp

lemma merge_fine:
  assumes "find_slug ss d = Some s" "find_slug ts d = Some t" "prj_id t \<in> live_ids d"
  shows "MergeProjects fine ss ts d = tx_result d
    (let is = map (reowned (prj_id s) (prj_id t)) (db_issues d) in
     if \<not> distinct (map (\<lambda>r. (oi_project r, oi_fingerprint r)) is) then Inl (App (Internal ''merge: move issues''))
     else if ss \<in> fst ` set (db_aliases d) then Inl (App (Conflict ''merge: create alias''))
     else case delete_project_row (prj_id s) (d\<lparr>db_issues := is, db_rows := retagged (prj_id s) (prj_id t) (db_rows d),
            db_aliases := db_aliases d @ [(ss, prj_id t)]\<rparr>) of
       Inl e \<Rightarrow> Inl (App (Internal ''merge: delete source'')) | Inr d' \<Rightarrow> Inr d')"
proof -
  have t: "prj_id t \<in> set (map prj_id (db_projects d))" using assms(3) by (simp add: live_ids_def)
  have m: "(\<lambda>r. if oi_project r = prj_id s then r\<lparr>oi_project := prj_id t\<rparr> else r) = reowned (prj_id s) (prj_id t)"
    by (simp add: reowned_def fun_eq_iff)
  show ?thesis
    using t by (simp add: MergeProjects_def assms(1,2) merge_steps_def move_issues_def m move_rows_def retag_steps
        insert_alias_def wrapErr_def isUniqueViolation_def Let_def del: map_map cong: sum.case_cong)
qed

lemma merge_target_id: "find_slug ts d = Some t \<Longrightarrow> prj_id t \<in> live_ids d"
  by (auto simp: live_ids_def dest: find_slug_Some)


lemma find_demo:
  "find_slug ''web'' (demo_db keys) = Some (demo_project 1 ''web'' ''WEB'')"
  "find_slug ''api'' (demo_db keys) = Some (demo_project 2 ''api'' ''API'')"
  by (simp_all add: find_slug_def demo_db_def demo_project_def)


text \<open>Merging a project into itself deletes it: the call reports success and the project, its
  slug and all of its issues are gone.\<close>

theorem self_merge_deletes:
  assumes "pdb_ok d" "find_slug slug d = Some s" "slug \<notin> fst ` set (db_aliases d)" "prj_id s \<notin> set (db_keys d)"
  shows "\<exists>d'. MergeProjects fine slug slug d = (None, d') \<and> prj_id s \<notin> live_ids d'
    \<and> names d' slug = None \<and> filter (\<lambda>r. oi_project r = prj_id s) (db_issues d') = []"
proof -
  let ?s = "prj_id s"
  note m = merge_fine [OF assms(2,2) merge_target_id [OF assms(2)]]
  have same: "map (reowned ?s ?s) (db_issues d) = db_issues d" by (rule map_idI) (simp add: reowned_def)
  have "distinct (map (\<lambda>r. (oi_project r, oi_fingerprint r)) (db_issues d))" using assms(1) by (simp add: pdb_ok_def)
  moreover have "?s \<in> prj_id ` set (db_projects d)" using find_slug_Some [OF assms(2)] by auto
  ultimately obtain d' where d': "MergeProjects fine slug slug d = (None, d')"
    "db_projects d' = filter (\<lambda>p. prj_id p \<noteq> ?s) (db_projects d)"
    "db_issues d' = filter (\<lambda>r. oi_project r \<noteq> ?s) (db_issues d)"
    "db_aliases d' = filter (\<lambda>(a, k). k \<noteq> ?s) (db_aliases d)"
    using assms(3,4) by (simp add: m same Let_def delete_project_row_def tx_result_def)
  have "find_slug slug d' = None"
    using find_slug_unique [OF assms(1,2)] by (auto simp: find_slug_None d'(2))
  moreover have "map_of (db_aliases d') slug = None"
    using assms(3) by (auto simp: map_of_eq_None_iff d'(4))
  ultimately have "names d' slug = None" by (simp add: names_def)
  then show ?thesis using d' by (auto simp: live_ids_def)
qed

theorem self_merge_deletes_witness:
  "\<exists>d'. MergeProjects fine ''web'' ''web'' (demo_db []) = (None, d') \<and> 1 \<notin> live_ids d'"
  using self_merge_deletes [OF demo_db_ok find_demo(1), of "[]"] by (auto simp: demo_db_def demo_project_def)

text \<open>Issues keep their numbers when they move, so an issue of the source and one of the target that
  had the same number are displayed under one id afterwards.\<close>

lemma merged_issues_share_ids:
  assumes "oi_project r = src" "oi_project i = tgt" "oi_number r = oi_number i" "0 < oi_number i" "prefix \<noteq> []"
  shows "oi_project (reowned src tgt r) = oi_project i
    \<and> displayIssueID prefix (oi_number (reowned src tgt r)) (oi_id r) = displayIssueID prefix (oi_number i) (oi_id i)"
  using assms by (simp add: reowned_def displayIssueID_def)

end
