(* ===== verification/KeyAuth.thy ===== *)
theory KeyAuth
  imports Projects
begin

text \<open>
  Who may call what: the API keys of \<open>internal/auth/auth.go\<close> and \<open>cmd/bugbarn/auth.go\<close>, the
  ingest routes' key check (\<open>internal/api/keycheck.go\<close>), the confinement of bound keys
  (\<open>keybind.go\<close>) and the pipeline of the protected routes (\<open>pipeline.go\<close>, \<open>middleware.go\<close>).

  SHA-256 and HMAC are arguments.  A key store's answer is an error, no key, or the key's
  project and scope.  What a request carries is the record \<open>web_request\<close>; whether its session
  is valid and whether its CSRF token matches are parts of it.
\<close>

section \<open>Keys\<close>

definition APIKeyScopeFull :: string where "APIKeyScopeFull = ''full''"
definition APIKeyScopeIngest :: string where "APIKeyScopeIngest = ''ingest''"
definition APIKeyScopeRead :: string where "APIKeyScopeRead = ''read''"

lemmas scope_defs = APIKeyScopeFull_def APIKeyScopeIngest_def APIKeyScopeRead_def

text \<open>\<open>Inl ()\<close> is a lookup that failed, \<open>Inr None\<close> a key that was not found.\<close>

type_synonym key_answer = "unit + (int \<times> string) option"

record authorizer =
  az_static :: "string option"
  az_lookup :: "(string \<Rightarrow> key_answer) option"
  az_setup :: "(string \<Rightarrow> string \<Rightarrow> unit + int option) option"

definition New :: "(string \<Rightarrow> string) \<Rightarrow> string \<Rightarrow> authorizer" where
  "New sha apiKey = \<lparr>az_static = (if trim_space apiKey = [] then None else Some (sha (trim_space apiKey))),
     az_lookup = None, az_setup = None\<rparr>"

definition WithDBLookup :: "(string \<Rightarrow> key_answer) \<Rightarrow> authorizer \<Rightarrow> authorizer" where
  "WithDBLookup f a = a\<lparr>az_lookup := Some f\<rparr>"

definition WithSetupKeyVerifier :: "(string \<Rightarrow> string \<Rightarrow> unit + int option) \<Rightarrow> authorizer \<Rightarrow> authorizer" where
  "WithSetupKeyVerifier v a = a\<lparr>az_setup := Some v\<rparr>"

definition auth_Enabled :: "authorizer \<Rightarrow> bool" where
  "auth_Enabled a \<longleftrightarrow> az_static a \<noteq> None \<or> az_lookup a \<noteq> None"

definition lookupStoredKey :: "authorizer \<Rightarrow> string \<Rightarrow> key_answer" where
  "lookupStoredKey a digest = (case az_lookup a of None \<Rightarrow> Inr None | Some f \<Rightarrow> f digest)"

definition resolveKeyErr :: "(string \<Rightarrow> string) \<Rightarrow> authorizer \<Rightarrow> string \<Rightarrow> key_answer" where
  "resolveKeyErr sha a provided =
     (if \<not> auth_Enabled a then Inr (Some (0, APIKeyScopeFull))
      else let key = trim_space provided in
        if key = [] then Inr None
        else if az_static a = Some (sha key) then Inr (Some (0, APIKeyScopeFull))
        else lookupStoredKey a (sha key))"

definition CheckWithSetupFallback ::
  "(string \<Rightarrow> string) \<Rightarrow> authorizer \<Rightarrow> string \<Rightarrow> string \<Rightarrow> key_answer" where
  "CheckWithSetupFallback sha a provided slug = (case resolveKeyErr sha a provided of
     Inr (Some k) \<Rightarrow> Inr (Some k)
   | Inl () \<Rightarrow> Inl ()
   | Inr None \<Rightarrow>
       (case az_setup a of
          None \<Rightarrow> Inr None
        | Some v \<Rightarrow>
            if slug = [] then Inr None
            else (case v (trim_space provided) slug of
                Inl () \<Rightarrow> Inl ()
              | Inr (Some pid) \<Rightarrow> Inr (Some (pid, APIKeyScopeIngest))
              | Inr None \<Rightarrow> Inr None)))"

text \<open>The setup key of a slug is its HMAC under the session secret; a revoked one is refused.\<close>

definition setupKey :: "(string \<Rightarrow> string \<Rightarrow> string) \<Rightarrow> string \<Rightarrow> string \<Rightarrow> string" where
  "setupKey mac secret slug = (if secret = [] then [] else take 40 (mac secret (''setup:'' @ slug)))"

definition newSetupKeyVerifier ::
  "(string \<Rightarrow> string \<Rightarrow> string) \<Rightarrow> string \<Rightarrow> string \<Rightarrow> string \<Rightarrow> unit + int option" where
  "newSetupKeyVerifier mac secret rawKey slug =
     (let expected = setupKey mac secret slug
      in if expected = [] \<or> rawKey \<noteq> expected then Inr None else Inr (Some 0))"

definition withSetupKeyRevocation ::
  "(string \<Rightarrow> string \<Rightarrow> unit + int option) \<Rightarrow> (string \<Rightarrow> unit + bool) \<Rightarrow> string \<Rightarrow> string \<Rightarrow> unit + int option" where
  "withSetupKeyRevocation verify revoked rawKey slug = (case verify rawKey slug of
     Inr (Some pid) \<Rightarrow>
       (case revoked slug of Inl () \<Rightarrow> Inl () | Inr True \<Rightarrow> Inr None | Inr False \<Rightarrow> Inr (Some pid))
   | r \<Rightarrow> r)"

definition newAPIAuthorizer ::
  "(string \<Rightarrow> string) \<Rightarrow> (string \<Rightarrow> string \<Rightarrow> string) \<Rightarrow> string \<Rightarrow> string \<Rightarrow> (string \<Rightarrow> key_answer) \<Rightarrow> (string \<Rightarrow> unit + bool)
     \<Rightarrow> authorizer" where
  "newAPIAuthorizer sha mac apiKey secret stored revoked =
     (let base = WithDBLookup stored (New sha apiKey)
      in if secret = [] then base
         else WithSetupKeyVerifier (withSetupKeyRevocation (newSetupKeyVerifier mac secret) revoked) base)"

section \<open>Confinement\<close>

definition confinedProject :: "int \<Rightarrow> string \<Rightarrow> int option" where
  "confinedProject pid scope = (if 0 < pid \<and> scope \<noteq> APIKeyScopeFull then Some pid else None)"

datatype slug_answer = Named project | Foreign | LookupFailed

text \<open>A confined caller's slug is looked up and never created; everyone else's is found or created.\<close>

definition projectForSlug ::
  "faults \<Rightarrow> bool \<Rightarrow> int option \<Rightarrow> string \<Rightarrow> pdb \<Rightarrow> slug_answer \<times> pdb" where
  "projectForSlug q readonly bound slug d = (case bound of
     None \<Rightarrow> (case EnsureProject q readonly slug d of
         Some (Inr p, d') \<Rightarrow> (Named p, d')
       | Some (Inl _, d') \<Rightarrow> (LookupFailed, d')
       | None \<Rightarrow> (LookupFailed, d))
   | Some b \<Rightarrow> (case ProjectBySlug q 0 slug d of
         Inl (App (NotFound _)) \<Rightarrow> (Foreign, d)
       | Inl _ \<Rightarrow> (LookupFailed, d)
       | Inr p \<Rightarrow> (if prj_id p \<noteq> b then (Foreign, d) else (Named p, d))))"

datatype key_verdict = KeyOk | Unauthorized401 | Forbidden403 | Unavailable503

definition requireOwnProject ::
  "faults \<Rightarrow> int \<Rightarrow> string \<Rightarrow> string \<Rightarrow> pdb \<Rightarrow> key_verdict" where
  "requireOwnProject q pid scope slug d = (case confinedProject pid scope of
     None \<Rightarrow> KeyOk
   | Some b \<Rightarrow>
       if slug = [] then KeyOk
       else (case fst (projectForSlug q True (Some b) slug d) of
           Named _ \<Rightarrow> KeyOk | Foreign \<Rightarrow> Forbidden403 | LookupFailed \<Rightarrow> Unavailable503))"

text \<open>\<open>answer\<close> is \<open>CheckAPIKey\<close> of the request.\<close>

definition requireIngestKey :: "faults \<Rightarrow> key_answer \<Rightarrow> string \<Rightarrow> pdb \<Rightarrow> key_verdict" where
  "requireIngestKey q answer slug d = (case answer of
     Inl () \<Rightarrow> Unavailable503
   | Inr None \<Rightarrow> Unauthorized401
   | Inr (Some (pid, scope)) \<Rightarrow> requireOwnProject q pid scope slug d)"

definition telemetryAuthorized :: "faults \<Rightarrow> key_answer \<Rightarrow> string \<Rightarrow> pdb \<Rightarrow> key_verdict" where
  "telemetryAuthorized q answer telemetryProject d = (case answer of
     Inl () \<Rightarrow> Unavailable503
   | Inr None \<Rightarrow> Unauthorized401
   | Inr (Some (pid, scope)) \<Rightarrow>
       if scope = APIKeyScopeFull then KeyOk
       else if telemetryProject = [] \<or> pid = 0 then Unauthorized401
       else (case ProjectBySlug q 0 telemetryProject d of
           Inl _ \<Rightarrow> Unauthorized401
         | Inr p \<Rightarrow> if prj_id p \<noteq> pid then Unauthorized401 else KeyOk))"

definition projectsInScope :: "int option \<Rightarrow> project list \<Rightarrow> project list" where
  "projectsInScope bound ps = (case bound of None \<Rightarrow> ps | Some b \<Rightarrow> filter (\<lambda>p. prj_id p = b) ps)"

section \<open>The protected routes\<close>

record web_request =
  wr_method :: string
  wr_path :: string
  wr_project :: string
  wr_query_project :: string
  wr_group :: string
  wr_key :: key_answer
  wr_session :: bool
  wr_csrf :: bool

text \<open>What the pipeline leaves in the request's context.\<close>

record caller =
  cl_bound :: "int option"
  cl_project :: int
  cl_group :: "int list option"

definition isIssueAction :: "web_request \<Rightarrow> bool" where
  "isIssueAction r \<longleftrightarrow> has_prefix (wr_path r) ''/api/v1/issues/''
     \<and> (has_suffix (wr_path r) ''/resolve'' \<or> has_suffix (wr_path r) ''/reopen''
        \<or> has_suffix (wr_path r) ''/mute'' \<or> has_suffix (wr_path r) ''/unmute'')"

definition isCSRFProtected :: "string \<Rightarrow> web_request \<Rightarrow> bool" where
  "isCSRFProtected tracesPath r \<longleftrightarrow> wr_method r \<in> {''POST'', ''PUT'', ''PATCH'', ''DELETE''}
     \<and> wr_path r \<notin> {''/api/v1/events'', ''/api/v1/login'', ''/api/v1/logout'', tracesPath}"

definition checkAPIKeyScope :: "web_request \<Rightarrow> string \<Rightarrow> bool" where
  "checkAPIKeyScope r scope \<longleftrightarrow>
     (scope = APIKeyScopeIngest \<longrightarrow> wr_path r = ''/api/v1/releases'' \<and> wr_method r = ''POST'')
     \<and> (scope = APIKeyScopeRead \<longrightarrow> wr_method r = ''GET''
          \<and> \<not> has_prefix (wr_path r) ''/api/v1/settings'' \<and> \<not> has_prefix (wr_path r) ''/api/v1/apikeys'')"

text \<open>\<open>Inl\<close> is the refusal that was answered, \<open>Inr None\<close> a request without a usable key.\<close>

definition authenticateAPIKey :: "web_request \<Rightarrow> key_verdict + (int \<times> string) option" where
  "authenticateAPIKey r = (case wr_key r of
     Inl () \<Rightarrow> if wr_session r then Inr None else Inl Unavailable503
   | Inr None \<Rightarrow> Inr None
   | Inr (Some (pid, scope)) \<Rightarrow>
       if checkAPIKeyScope r scope then Inr (Some (pid, scope)) else Inl Forbidden403)"

text \<open>Each name is a lookup of its own.\<close>

fun confineProjectNames :: "faults \<Rightarrow> int \<Rightarrow> string list \<Rightarrow> pdb \<Rightarrow> key_verdict" where
  "confineProjectNames q b [] d = KeyOk"
| "confineProjectNames q b (slug # slugs) d =
     (if slug = [] then confineProjectNames q b slugs d
      else case fst (projectForSlug q True (Some b) slug d) of
        Named _ \<Rightarrow> confineProjectNames (\<lambda>n. q (Suc n)) b slugs d
      | Foreign \<Rightarrow> Forbidden403
      | LookupFailed \<Rightarrow> Unavailable503)"

definition confineBoundKey :: "faults \<Rightarrow> web_request \<Rightarrow> (int \<times> string) option \<Rightarrow> pdb \<Rightarrow> key_verdict + int option" where
  "confineBoundKey q r key d = (case key of
     None \<Rightarrow> Inr None
   | Some (pid, scope) \<Rightarrow>
       (case confinedProject pid scope of
          None \<Rightarrow> Inr None
        | Some b \<Rightarrow>
            if wr_session r then Inr None
            else (case confineProjectNames q b [wr_project r, wr_query_project r] d of
                KeyOk \<Rightarrow> Inr (Some b) | v \<Rightarrow> Inl v)))"

text \<open>\<open>dflt\<close> is \<open>DefaultProjectID\<close>, \<open>readonly\<close> whether the process has no write connection, \<open>q\<close> the
  faults of this call's statements.\<close>

definition resolveProjectID ::
  "faults \<Rightarrow> bool \<Rightarrow> int \<Rightarrow> web_request \<Rightarrow> (int \<times> string) option \<Rightarrow> pdb \<Rightarrow> int \<times> pdb" where
  "resolveProjectID q readonly dflt r key d =
     (let (found, d') =
        (if wr_project r \<noteq> [] then
           (case EnsureProject q readonly (wr_project r) d of
              Some (Inr p, d') \<Rightarrow> (prj_id p, d') | Some (Inl _, d') \<Rightarrow> (0, d') | None \<Rightarrow> (0, d))
         else if (case key of Some (pid, _) \<Rightarrow> 0 < pid | None \<Rightarrow> False) then (fst (the key), d)
         else if wr_session r \<and> wr_method r \<noteq> ''GET'' \<and> \<not> isIssueAction r then
           (case ProjectBySlug q 0 ''default'' d of Inr p \<Rightarrow> (prj_id p, d) | Inl _ \<Rightarrow> (0, d))
         else (0, d))
      in (if found = 0 \<and> (\<not> wr_session r \<or> wr_method r \<noteq> ''GET'') then dflt else found, d'))"

definition applyGroupScope :: "faults \<Rightarrow> web_request \<Rightarrow> pdb \<Rightarrow> int list option" where
  "applyGroupScope q r d =
     (if wr_group r = [] then None
      else case ListGroupProjects q (wr_group r) d of
        Inl _ \<Rightarrow> None
      | Inr ps \<Rightarrow> if ps = [] then None else Some (map prj_id ps))"

definition resolveProjectScope ::
  "faults \<Rightarrow> faults \<Rightarrow> bool \<Rightarrow> int \<Rightarrow> web_request \<Rightarrow> int option \<Rightarrow> (int \<times> string) option \<Rightarrow> pdb \<Rightarrow> caller \<times> pdb" where
  "resolveProjectScope q qg readonly dflt r bound key d =
     (let (i, d') = resolveProjectID q readonly dflt r key d
      in (\<lparr>cl_bound = bound, cl_project = i,
           cl_group = (if wr_method r = ''GET'' \<and> i = 0 then applyGroupScope qg r d' else None)\<rparr>, d'))"

text \<open>Whether browser authentication is configured: local users that are enabled, or OpenID Connect.\<close>

definition authEnabled :: "bool option \<Rightarrow> bool \<Rightarrow> bool" where
  "authEnabled users oidc \<longleftrightarrow> users = Some True \<or> oidc"

text \<open>The context of a request that nothing was resolved for.\<close>

definition unresolved_caller :: caller where
  "unresolved_caller = \<lparr>cl_bound = None, cl_project = 0, cl_group = None\<rparr>"

text \<open>\<open>authOn\<close> is \<open>authEnabled\<close>; without it every request passes as it is.  \<open>qc\<close>, \<open>q\<close> and \<open>qg\<close> are the
  faults of the confinement's lookups, of the resolution and of the group's.\<close>

definition authenticateAndResolve ::
  "bool \<Rightarrow> string \<Rightarrow> faults \<Rightarrow> faults \<Rightarrow> faults \<Rightarrow> bool \<Rightarrow> int \<Rightarrow> web_request \<Rightarrow> pdb \<Rightarrow> (key_verdict + caller) \<times> pdb" where
  "authenticateAndResolve authOn tracesPath qc q qg readonly dflt r d =
     (if \<not> authOn then (Inr unresolved_caller, d)
      else case authenticateAPIKey r of
        Inl v \<Rightarrow> (Inl v, d)
      | Inr key \<Rightarrow>
       if \<not> wr_session r \<and> key = None then (Inl Unauthorized401, d)
       else if wr_session r \<and> key = None \<and> isCSRFProtected tracesPath r \<and> \<not> wr_csrf r then (Inl Forbidden403, d)
       else (case confineBoundKey qc r key d of
           Inl v \<Rightarrow> (Inl v, d)
         | Inr bound \<Rightarrow>
             (case resolveProjectScope q qg readonly dflt r bound key d of (c, d') \<Rightarrow> (Inr c, d'))))"

text \<open>\<open>GET /api/v1/groups/{slug}/projects\<close>, and the project list beside it.\<close>

definition getGroupProjects :: "faults \<Rightarrow> caller \<Rightarrow> string \<Rightarrow> pdb \<Rightarrow> proj_error + project list" where
  "getGroupProjects q c groupSlug d = ListGroupProjects q groupSlug d"

definition listProjects :: "caller \<Rightarrow> pdb \<Rightarrow> project list" where
  "listProjects c d = projectsInScope (cl_bound c) (sort_key prj_name (db_projects d))"

section \<open>A bound key stays in its project\<close>

lemma confined_lookup:
  "confineProjectNames q b slugs d = KeyOk \<Longrightarrow> slug \<in> set slugs \<Longrightarrow> slug \<noteq> []
   \<Longrightarrow> \<exists>p. find_slug slug d = Some p \<and> prj_id p = b"
proof (induction slugs arbitrary: q)
  case (Cons s slugs)
  then show ?case
    by (auto simp: projectForSlug_def ProjectBySlug_def one_row_Inr
        split: if_splits slug_answer.splits sum.splits proj_error.splits app_error.splits)
qed simp

lemma ensure_found: "find_slug slug d = Some p \<Longrightarrow> EnsureProject fine ro slug d = Some (Inr p, d)"
  by (simp add: EnsureProject_def ProjectBySlug_def one_row_def)

lemma bound_context:
  assumes "wr_key r = Inr (Some (pid, scope))" "0 < pid" "scope \<noteq> APIKeyScopeFull" "\<not> wr_session r"
    and "authenticateAndResolve True tp qc q qg ro dflt r d = (Inr c, d')"
  shows "cl_bound c = Some pid" "confineProjectNames qc pid [wr_project r, wr_query_project r] d = KeyOk"
    "(cl_project c, d') = resolveProjectID q ro dflt r (Some (pid, scope)) d"
    "cl_project c \<noteq> 0 \<Longrightarrow> cl_group c = None"
proof -
  have k: "confineBoundKey qc r (Some (pid, scope)) d =
      (case confineProjectNames qc pid [wr_project r, wr_query_project r] d of KeyOk \<Rightarrow> Inr (Some pid) | v \<Rightarrow> Inl v)"
    using assms(2-4) by (simp add: confineBoundKey_def confinedProject_def)
  have a: "authenticateAPIKey r = Inr (Some (pid, scope))"
    using assms(1,5) by (simp add: authenticateAPIKey_def authenticateAndResolve_def split: if_splits)
  show p: "confineProjectNames qc pid [wr_project r, wr_query_project r] d = KeyOk"
    using assms(4,5) by (auto simp: authenticateAndResolve_def a k split: key_verdict.splits)
  have "resolveProjectScope q qg ro dflt r (Some pid) (Some (pid, scope)) d = (c, d')"
    using assms(4,5) by (simp add: authenticateAndResolve_def a k p del: confineProjectNames.simps split: prod.splits)
  then show "cl_bound c = Some pid" "(cl_project c, d') = resolveProjectID q ro dflt r (Some (pid, scope)) d"
    "cl_project c \<noteq> 0 \<Longrightarrow> cl_group c = None"
    by (auto simp: resolveProjectScope_def split: prod.splits)
qed


definition demo_request :: "string \<Rightarrow> string \<Rightarrow> string \<Rightarrow> key_answer \<Rightarrow> web_request" where
  "demo_request meth path slug key = \<lparr>wr_method = meth, wr_path = path, wr_project = slug, wr_query_project = [],
     wr_group = [], wr_key = key, wr_session = False, wr_csrf = False\<rparr>"

lemma demo_passes:
  "authenticateAndResolve True [] fine q fine True 9 (demo_request ''GET'' ''/api/v1/issues'' ''web'' (Inr (Some (1, APIKeyScopeRead)))) (demo_db [1])
    = (let (i, d') = resolveProjectID q True 9 (demo_request ''GET'' ''/api/v1/issues'' ''web'' (Inr (Some (1, APIKeyScopeRead))))
          (Some (1, APIKeyScopeRead)) (demo_db [1])
       in (Inr \<lparr>cl_bound = Some 1, cl_project = i, cl_group = None\<rparr>, d'))"
proof -
  have f: "find_slug ''web'' (demo_db [1]) = Some (demo_project 1 ''web'' ''WEB'')" by (rule find_demo)
  show ?thesis
    by (simp add: authenticateAndResolve_def demo_request_def authenticateAPIKey_def checkAPIKeyScope_def scope_defs
        has_prefix_def confineBoundKey_def confinedProject_def projectForSlug_def ProjectBySlug_def one_row_def f
        demo_project_def resolveProjectScope_def applyGroupScope_def split: prod.split)
qed


text \<open>The confinement does not survive a failing read: the slug is looked up twice, once to
  confine the request and once to resolve it, and when the second lookup fails on a process
  without a write connection, a bound key's request for its own project is served on the
  default project.\<close>

theorem failed_resolution_leaves_project:
  assumes "find_slug (wr_project r) d = Some p" "map_of (db_aliases d) (wr_project r) = None"
    and "wr_key r = Inr (Some (prj_id p, scope))" "0 < prj_id p" "scope \<noteq> APIKeyScopeFull" "\<not> wr_session r"
    and "wr_project r \<noteq> []" "wr_query_project r = []" "checkAPIKeyScope r scope" "q 0 \<noteq> None" "0 < dflt"
  shows "\<exists>c. authenticateAndResolve True tp fine q qg True dflt r d = (Inr c, d) \<and> cl_project c = dflt
    \<and> cl_bound c = Some (prj_id p)"
proof -
  have e: "\<exists>x. EnsureProject q True (wr_project r) d = Some (Inl x, d)"
    using assms(2,10) by (auto simp: EnsureProject_def ProjectBySlug_def ResolveAlias_def one_row_def split: option.splits)
  then have "resolveProjectID q True dflt r (Some (prj_id p, scope)) d = (dflt, d)"
    using assms(6,7) by (auto simp: resolveProjectID_def)
  then show ?thesis
    using assms by (simp add: authenticateAndResolve_def authenticateAPIKey_def confineBoundKey_def confinedProject_def
        projectForSlug_def ProjectBySlug_def one_row_def resolveProjectScope_def)
qed

theorem failed_resolution_leaves_project_witness:
  "\<exists>c. authenticateAndResolve True [] fine (fine(0 := Some (Sqlite SQLITE_READONLY_RECOVERY ''recovery''))) fine True 2
      (demo_request ''GET'' ''/api/v1/issues'' ''web'' (Inr (Some (1, APIKeyScopeRead)))) (demo_db [1]) = (Inr c, demo_db [1])
    \<and> cl_project c = 2 \<and> cl_bound c = Some 1"
proof -
  let ?r = "demo_request ''GET'' ''/api/v1/issues'' ''web'' (Inr (Some (1, APIKeyScopeRead)))"
  have "find_slug (wr_project ?r) (demo_db [1]) = Some (demo_project 1 ''web'' ''WEB'')"
    using find_demo(1) [of "[1]"] by (simp add: demo_request_def)
  from failed_resolution_leaves_project [OF this, of APIKeyScopeRead
      "fine(0 := Some (Sqlite SQLITE_READONLY_RECOVERY ''recovery''))" 2 "[]" fine]
  show ?thesis
    by (simp add: demo_request_def demo_db_def demo_project_def scope_defs checkAPIKeyScope_def has_prefix_def)
qed

section \<open>Keys and renamed projects\<close>

text \<open>A rename locks a project's own keys out under the old name: after a successful rename the old
  slug still names the project, but a bound ingest or read key of that very project that sends
  it is refused for good, as if it had named another project.\<close>

theorem renamed_project_refuses_keys:
  assumes "pdb_ok d" "find_slug old d = Some p" "RenameProject fine old new name d = (None, d')" "new \<noteq> old"
    and "0 < prj_id p" "scope \<noteq> APIKeyScopeFull" "old \<noteq> []"
  shows "(\<exists>p'. names d' old = Some p' \<and> prj_id p' = prj_id p)
    \<and> requireIngestKey fine (Inr (Some (prj_id p, scope))) old d' = Forbidden403"
proof -
  let ?p = "p\<lparr>prj_slug := new, prj_name := name\<rparr>"
  have d': "d' = d\<lparr>db_projects := map (\<lambda>r. if prj_id r = prj_id p then r\<lparr>prj_slug := new, prj_name := name\<rparr> else r)
      (db_projects d), db_aliases := db_aliases d @ [(old, prj_id p)]\<rparr>"
    using assms(3) by (simp add: rename_fine [OF assms(1,2)] split: if_splits)
  have "find_slug old d' = None"
    using assms(4) find_slug_unique [OF assms(1,2)] by (auto simp: find_slug_None d')
  then have "requireIngestKey fine (Inr (Some (prj_id p, scope))) old d' = Forbidden403"
    using assms(5-7) by (simp add: requireIngestKey_def requireOwnProject_def confinedProject_def projectForSlug_def
        ProjectBySlug_def one_row_def wrapNotFound_def)
  moreover have "names d' old = Some ?p"
  proof -
    have ok: "pdb_ok d'" using RenameProject_ok [OF assms(1), of fine old new name] assms(3) by simp
    have "old \<notin> fst ` set (db_aliases d)"
      using assms(3) by (auto simp: rename_fine [OF assms(1,2)] split: if_splits)
    then have "map_of (db_aliases d') old = Some (prj_id p)"
      using map_of_eq_None_iff [of "db_aliases d" old] by (simp add: d' map_add_def)
    moreover have "?p \<in> set (db_projects d')" using find_slug_Some [OF assms(2)] by (force simp: d')
    then have "find_id (prj_id p) d' = Some ?p" by (simp add: find_id_iff [OF ok])
    ultimately show ?thesis using \<open>find_slug old d' = None\<close> by (simp add: names_def)
  qed
  ultimately show ?thesis by simp
qed

theorem renamed_project_refuses_keys_witness:
  "requireIngestKey fine (Inr (Some (1, APIKeyScopeIngest))) ''web''
     (snd (RenameProject fine ''web'' ''www'' ''Web'' (demo_db [1]))) = Forbidden403"
proof -
  have ok: "pdb_ok (demo_db [1])" by (rule demo_db_ok) simp
  obtain d' where d': "RenameProject fine ''web'' ''www'' ''Web'' (demo_db [1]) = (None, d')"
    using rename_fine [OF ok find_demo(1), of "''www''" "''Web''"] by (auto simp: demo_db_def demo_project_def)
  from renamed_project_refuses_keys [OF ok find_demo(1) d', of APIKeyScopeIngest] show ?thesis
    by (simp add: d' demo_project_def scope_defs)
qed

section \<open>What the pipeline lets through\<close>

text \<open>C20: Where authentication is configured, nothing reaches a protected handler without a session or an
  accepted key; a session alone needs a matching CSRF token to change anything, an ingest key gets
  through for the release marker only, and a read key for \<open>GET\<close> outside the settings and the key
  list only, also when the request carries a session.  Where neither local users nor OpenID Connect
  is configured every request passes, with nothing resolved for it.\<close>

theorem protected_needs_credentials:
  assumes "authenticateAndResolve authOn tp qc q qg ro dflt r d = (Inr c, d')"
  shows "if authOn then
      (wr_session r \<or> (\<exists>k. wr_key r = Inr (Some k)))
    \<and> (case wr_key r of
         Inr (Some (pid, scope)) \<Rightarrow>
           (scope = APIKeyScopeIngest \<longrightarrow> wr_path r = ''/api/v1/releases'' \<and> wr_method r = ''POST'')
           \<and> (scope = APIKeyScopeRead \<longrightarrow> wr_method r = ''GET'' \<and> \<not> has_prefix (wr_path r) ''/api/v1/apikeys''
                \<and> \<not> has_prefix (wr_path r) ''/api/v1/settings'')
       | _ \<Rightarrow> isCSRFProtected tp r \<longrightarrow> wr_csrf r)
    else c = unresolved_caller \<and> d' = d"
  using assms
  by (auto simp: authenticateAndResolve_def authenticateAPIKey_def checkAPIKeyScope_def
      split: sum.splits option.splits if_splits unit.splits)

text \<open>A POST without session or key, on a server without users.\<close>

lemma open_server_passes:
  "authenticateAndResolve (authEnabled (Some False) False) tp qc q qg ro dflt r d = (Inr unresolved_caller, d)"
  by (simp add: authenticateAndResolve_def authEnabled_def)

theorem protected_needs_credentials_witness:
  "\<exists>c d'. authenticateAndResolve True [] fine fine fine True 9
      (demo_request ''GET'' ''/api/v1/issues'' ''web'' (Inr (Some (1, APIKeyScopeRead)))) (demo_db [1]) = (Inr c, d')
    \<and> \<not> has_prefix ''/api/v1/issues'' ''/api/v1/settings''"
proof -
  let ?r = "demo_request ''GET'' ''/api/v1/issues'' ''web'' (Inr (Some (1, APIKeyScopeRead)))"
  obtain c d' where a: "authenticateAndResolve True [] fine fine fine True 9 ?r (demo_db [1]) = (Inr c, d')"
    using demo_passes [of fine] by (simp split: prod.splits)
  from protected_needs_credentials [OF this] have "\<not> has_prefix ''/api/v1/issues'' ''/api/v1/settings''"
    by (simp add: demo_request_def)
  then show ?thesis using a by blast
qed

text \<open>A key is retired only on knowledge: a 401 on an ingest route means that every store that was
  asked answered that it has no such key; when any of them failed, the answer is the
  retryable 503.\<close>

theorem unauthorized_means_unknown:
  "requireIngestKey q (CheckWithSetupFallback sha a key slug) slug d = Unauthorized401 \<longleftrightarrow>
     auth_Enabled a
     \<and> (trim_space key = [] \<or> az_static a \<noteq> Some (sha (trim_space key)) \<and> lookupStoredKey a (sha (trim_space key)) = Inr None)
     \<and> (case az_setup a of None \<Rightarrow> True | Some v \<Rightarrow> slug = [] \<or> v (trim_space key) slug = Inr None)"
proof -
  have "requireOwnProject q pid scope slug d \<noteq> Unauthorized401" for pid scope
    by (auto simp: requireOwnProject_def split: option.splits slug_answer.splits)
  then show ?thesis
    by (auto simp: requireIngestKey_def CheckWithSetupFallback_def resolveKeyErr_def Let_def
        split: sum.splits option.splits unit.splits if_splits)
qed

section \<open>Setup keys\<close>

text \<open>Approval can be skipped with a setup key: for a slug no project has, the key the public setup
  page derives posts a release marker, and that request creates the project as active, where
  the ingest path would have created it pending.\<close>

theorem setup_key_skips_approval:
  assumes "pdb_ok d" "names d slug = None" "slug \<noteq> []" "secret \<noteq> []" "key = setupKey mac secret slug"
    and "key \<noteq> []" "trim_space key = key" "trim_space apiKey = []"
    and "stored (sha key) = Inr None" "revoked slug = Inr False"
  shows "\<exists>c d' p p'. authenticateAndResolve True tp fine fine fine False dflt
        (demo_request ''POST'' ''/api/v1/releases'' slug
          (CheckWithSetupFallback sha (newAPIAuthorizer sha mac apiKey secret stored revoked) key slug)) d = (Inr c, d')
    \<and> find_slug slug d' = Some p \<and> prj_status p = ''active''
    \<and> fst (the (EnsureProjectPending fine False slug d)) = Inr p' \<and> prj_status p' = ''pending''"
proof -
  let ?a = "newAPIAuthorizer sha mac apiKey secret stored revoked"
  have k: "CheckWithSetupFallback sha ?a key slug = Inr (Some (0, APIKeyScopeIngest))"
    using assms(3-10) by (simp add: CheckWithSetupFallback_def resolveKeyErr_def newAPIAuthorizer_def New_def
        WithDBLookup_def WithSetupKeyVerifier_def auth_Enabled_def lookupStoredKey_def withSetupKeyRevocation_def
        newSetupKeyVerifier_def Let_def)
  note n = names_None [OF assms(1,2)]
  obtain p d' where c: "CreateProject fine 2 slug slug d = Some (Inr p, d')" "prj_slug p = slug" "prj_id p = db_next d"
    "prj_status p = ''active''" "d' = d\<lparr>db_projects := db_projects d @ [p], db_next := db_next d + 1\<rparr>"
    using create_fine [where q = fine and n = 2 and name = slug and slug = slug and status = "''active''" and d = d] n
    unfolding CreateProject_def by fastforce
  obtain p' where p': "fst (the (CreateProjectPending fine 2 slug d)) = Inr p'" "prj_status p' = ''pending''"
    using create_fine [where q = fine and n = 2 and wrap = Raw and name = slug and slug = slug and status = "''pending''" and d = d] n
    unfolding CreateProjectPending_def by auto
  have e: "EnsureProject fine False slug d = Some (Inr p, d')" using ensure_new [of slug d fine] n c(1) by simp
  have e': "EnsureProjectPending fine False slug d = CreateProjectPending fine 2 slug d"
    using n by (simp add: EnsureProjectPending_def ProjectBySlug_def ResolveAlias_def one_row_def)
  let ?i = "if prj_id p = 0 then dflt else prj_id p"
  have "authenticateAndResolve True tp fine fine fine False dflt
      (demo_request ''POST'' ''/api/v1/releases'' slug (Inr (Some (0, APIKeyScopeIngest)))) d
    = (Inr \<lparr>cl_bound = None, cl_project = ?i, cl_group = None\<rparr>, d')"
    using assms(3) e by (simp add: authenticateAndResolve_def demo_request_def authenticateAPIKey_def checkAPIKeyScope_def
        scope_defs confineBoundKey_def confinedProject_def resolveProjectScope_def resolveProjectID_def)
  moreover have "find_slug slug d' = Some p" using n c(2,5) by (simp add: find_slug_def find_append split: option.splits)
  ultimately show ?thesis using c(3,4) p' k e' by auto
qed

theorem setup_key_skips_approval_witness:
  "\<exists>c d' p. authenticateAndResolve True [] fine fine fine False 1
      (demo_request ''POST'' ''/api/v1/releases'' ''shop''
        (CheckWithSetupFallback id (newAPIAuthorizer id (\<lambda>secret m. secret @ m) [] ''s3'' (\<lambda>_. Inr None) (\<lambda>_. Inr False))
          ''s3setup:shop'' ''shop'')) (demo_db []) = (Inr c, d')
    \<and> find_slug ''shop'' d' = Some p \<and> prj_status p = ''active''"
proof -
  have n: "names (demo_db []) ''shop'' = None"
    by (simp add: names_def find_slug_def demo_db_def demo_project_def)
  have k: "''s3setup:shop'' = setupKey (\<lambda>secret m. secret @ m) ''s3'' ''shop''" by (simp add: setupKey_def)
  have t: "trim_space ''s3setup:shop'' = ''s3setup:shop''" by code_simp
  have "trim_space [] = []" by code_simp
  from setup_key_skips_approval [OF demo_db_ok n _ _ k _ t this, of "\<lambda>_. Inr None" id "\<lambda>_. Inr False" "[]" 1]
  show ?thesis by auto
qed

section \<open>Listing projects\<close>

text \<open>The group listing ignores the confinement: a caller bound to one project, whose project list
  holds that project at most, is given every project of any group it names.\<close>

theorem group_listing_ignores_confinement:
  assumes "cl_bound c = Some b" "find_group g d = Some i" "p \<in> set (db_projects d)" "prj_group p = Some i" "prj_id p \<noteq> b"
  shows "p \<notin> set (listProjects c d) \<and> (\<exists>ps. getGroupProjects fine c g d = Inr ps \<and> p \<in> set ps)"
  using assms by (auto simp: listProjects_def projectsInScope_def getGroupProjects_def ListGroupProjects_def)

definition grouped_db :: pdb where
  "grouped_db = (demo_db [])\<lparr>db_groups := [(1, ''all'')], db_gnext := 2,
     db_projects := [demo_project 1 ''web'' ''WEB'', (demo_project 2 ''api'' ''API'')\<lparr>prj_group := Some 1\<rparr>]\<rparr>"

theorem group_listing_ignores_confinement_witness:
  "\<exists>ps. getGroupProjects fine \<lparr>cl_bound = Some 1, cl_project = 1, cl_group = None\<rparr> ''all'' grouped_db = Inr ps
     \<and> (demo_project 2 ''api'' ''API'')\<lparr>prj_group := Some 1\<rparr> \<in> set ps"
  using group_listing_ignores_confinement [of "\<lparr>cl_bound = Some 1, cl_project = 1, cl_group = None\<rparr>" 1 "''all''" grouped_db 1
      "(demo_project 2 ''api'' ''API'')\<lparr>prj_group := Some 1\<rparr>"]
  by (auto simp: grouped_db_def find_group_def demo_project_def)

end
