(* ===== verification/ForwardRequest.thy ===== *)
theory ForwardRequest
  imports WriteQueue KeyAuth
begin

text \<open>
  Ingest on a reader: the routes of \<open>internal/api/routes.go\<close> and \<open>telemetry_ingest.go\<close>, the
  handler that turns a request into a spooled record (\<open>spool_forwarder.go\<close>, \<open>Forward\<close>), and
  what the drain makes of a record (\<open>forwardOne\<close>, \<open>publishOne\<close>, \<open>alertmanager_forwarder.go\<close>).

  The parsers that judge a body (\<open>normalize.Validate\<close>, \<open>logparse\<close>, \<open>AlertmanagerEvents\<close>) are
  the record \<open>parsers\<close>.
\<close>

section \<open>Answers\<close>

text \<open>\<open>internal/ingestresp\<close>.\<close>

record ingest_drop =
  id_status :: int
  id_reason :: string
  id_retryable :: bool

definition DropMalformed :: ingest_drop where
  "DropMalformed = \<lparr>id_status = 400, id_reason = ''malformed_payload'', id_retryable = False\<rparr>"
definition DropUnauthorized :: ingest_drop where
  "DropUnauthorized = \<lparr>id_status = 401, id_reason = ''unauthorized'', id_retryable = False\<rparr>"
definition DropForbidden :: ingest_drop where
  "DropForbidden = \<lparr>id_status = 403, id_reason = ''forbidden'', id_retryable = False\<rparr>"
definition DropTooLarge :: ingest_drop where
  "DropTooLarge = \<lparr>id_status = 413, id_reason = ''payload_too_large'', id_retryable = False\<rparr>"
definition DropSpoolFull :: ingest_drop where
  "DropSpoolFull = \<lparr>id_status = 429, id_reason = ''spool_full'', id_retryable = True\<rparr>"
definition DropUnavailable :: ingest_drop where
  "DropUnavailable = \<lparr>id_status = 503, id_reason = ''ingest_unavailable'', id_retryable = True\<rparr>"

datatype ingest_reply = Accepted202 | DroppedWith ingest_drop | ProjectRequired400 | PlainStatus int

fun reply_status :: "ingest_reply \<Rightarrow> int" where
  "reply_status Accepted202 = 202"
| "reply_status (DroppedWith x) = id_status x"
| "reply_status ProjectRequired400 = 400"
| "reply_status (PlainStatus n) = n"

fun refusal :: "key_verdict \<Rightarrow> ingest_reply" where
  "refusal KeyOk = Accepted202"
| "refusal Unauthorized401 = PlainStatus 401"
| "refusal Forbidden403 = DroppedWith DropForbidden"
| "refusal Unavailable503 = DroppedWith DropUnavailable"

section \<open>Requests and records\<close>

record ingest_request =
  iq_method :: string
  iq_path :: string
  iq_uri :: string
  iq_header :: "string \<Rightarrow> string"
  iq_body :: "(string \<times> bool) option"

text \<open>The body's bytes and whether reading past them fails; \<open>None\<close> is no body.\<close>

record spooled =
  sp_receivedAt :: time
  sp_method :: string
  sp_path :: string
  sp_headers :: "(string \<times> string) list"
  sp_body64 :: string

record parsers =
  ps_event :: "string \<Rightarrow> bool"
  ps_logs :: "string \<Rightarrow> bool"
  ps_alerts :: "string \<Rightarrow> string list option"

record forward_cfg =
  fc_queue :: bool
  fc_max :: int
  fc_resolve :: "(string \<Rightarrow> unit + string) option"

definition apiKeyHeader :: string where "apiKeyHeader = ''X-Bugbarn-Api-Key''"
definition projectHeader :: string where "projectHeader = ''X-Bugbarn-Project''"

definition forwardedHeaders :: "string list" where
  "forwardedHeaders = [''Content-Type'', apiKeyHeader, projectHeader, ''User-Agent'']"

definition header_of :: "(string \<times> string) list \<Rightarrow> string \<Rightarrow> string" where
  "header_of hs h = (case map_of hs h of None \<Rightarrow> [] | Some v \<Rightarrow> v)"

definition telemetryKind :: "string \<Rightarrow> string" where
  "telemetryKind path = (if path = ''/api/v1/telemetry/security'' then KindSecurity
     else if path = ''/api/v1/telemetry/metrics'' then KindMetrics else [])"

definition kindForPath :: "string \<Rightarrow> string" where
  "kindForPath path = (if has_prefix path ''/api/v1/events'' then KindEvent
     else if has_prefix path ''/api/v1/logs'' then KindLog
     else telemetryKind (fst (cut (CHR ''?'') path)))"

definition IsNDJSON :: "string \<Rightarrow> bool" where
  "IsNDJSON contentType \<longleftrightarrow> trim_space (fst (cut (CHR '';'') contentType)) = ''application/x-ndjson''"

definition bodyHasIngestShape :: "parsers \<Rightarrow> string \<Rightarrow> string \<Rightarrow> string \<Rightarrow> bool" where
  "bodyHasIngestShape P path contentType body =
     (if kindForPath path = KindEvent then ps_event P body
      else if kindForPath path = KindLog then IsNDJSON contentType \<or> ps_logs P body
      else if has_prefix path ''/api/v1/alertmanager'' then ps_alerts P body \<noteq> None
      else True)"

text \<open>With a limit set, one byte more than the limit is read.\<close>

definition read_body :: "int \<Rightarrow> (string \<times> bool) option \<Rightarrow> ingest_drop + string" where
  "read_body limit b = (case b of
     None \<Rightarrow> Inr []
   | Some (bytes, fails) \<Rightarrow>
       if 0 < limit \<and> limit < int (length bytes) then Inl DropTooLarge
       else if fails then Inl DropMalformed else Inr bytes)"

definition kept_headers :: "(string \<Rightarrow> string) \<Rightarrow> (string \<times> string) list" where
  "kept_headers hdr = concat (map (\<lambda>h. if hdr h \<noteq> [] then [(h, hdr h)] else []) forwardedHeaders)"

text \<open>The header wins; without one, a project-scoped key names its project.\<close>

definition stamp_project :: "forward_cfg \<Rightarrow> (string \<times> string) list \<Rightarrow> ingest_drop + (string \<times> string) list" where
  "stamp_project cfg hs =
     (if header_of hs projectHeader \<noteq> [] then Inr hs
      else case fc_resolve cfg of
        None \<Rightarrow> Inr hs
      | Some f \<Rightarrow>
          (case f (header_of hs apiKeyHeader) of
             Inl () \<Rightarrow> Inl DropUnavailable
           | Inr slug \<Rightarrow> Inr (if slug = [] then hs else hs @ [(projectHeader, slug)])))"

text \<open>\<open>Forward\<close> up to the append: the refusal, or the record to append.\<close>

definition forward_record :: "parsers \<Rightarrow> forward_cfg \<Rightarrow> time \<Rightarrow> ingest_request \<Rightarrow> ingest_reply + spooled" where
  "forward_record P cfg now r = (case read_body (fc_max cfg) (iq_body r) of
     Inl x \<Rightarrow> Inl (DroppedWith x)
   | Inr body \<Rightarrow>
       if \<not> bodyHasIngestShape P (iq_path r) (iq_header r ''Content-Type'') body then Inl (DroppedWith DropMalformed)
       else (case stamp_project cfg (kept_headers (iq_header r)) of
           Inl x \<Rightarrow> Inl (DroppedWith x)
         | Inr hs \<Rightarrow>
             if fc_queue cfg \<and> kindForPath (iq_path r) = KindLog \<and> header_of hs projectHeader = []
             then Inl ProjectRequired400
             else Inr \<lparr>sp_receivedAt = now, sp_method = iq_method r, sp_path = iq_uri r, sp_headers = hs,
                    sp_body64 = b64_encode body\<rparr>))"

section \<open>The routes that spool\<close>

text \<open>What a route does with a request on a reader with a spool: nothing (another route's), a plain
  answer, or \<open>Forward\<close>.  \<open>key\<close> is the verdict of the key check.\<close>

datatype route = NotMine | Answer ingest_reply | ToSpool

definition after_key :: "key_verdict \<Rightarrow> route" where
  "after_key key = (if key = KeyOk then ToSpool else Answer (refusal key))"

definition serveEventsIngestEndpoint :: "key_verdict \<Rightarrow> string \<Rightarrow> string \<Rightarrow> route" where
  "serveEventsIngestEndpoint key meth path =
     (if path \<noteq> ''/api/v1/events'' then NotMine
      else if meth = ''OPTIONS'' then Answer (PlainStatus 204)
      else if meth = ''POST'' then after_key key
      else Answer (PlainStatus 405))"

definition serveAlertmanagerIngestEndpoint :: "key_verdict \<Rightarrow> string \<Rightarrow> string \<Rightarrow> route" where
  "serveAlertmanagerIngestEndpoint key meth path =
     (if path \<noteq> ''/api/v1/alertmanager'' then NotMine
      else if meth \<noteq> ''POST'' then Answer (PlainStatus 405)
      else after_key key)"

definition serveLogsIngestEndpoint :: "key_verdict \<Rightarrow> string \<Rightarrow> string \<Rightarrow> route" where
  "serveLogsIngestEndpoint key meth path =
     (if path = ''/api/v1/logs'' \<and> meth = ''POST'' then after_key key
      else if path = ''/api/v1/logs'' \<and> meth = ''OPTIONS'' then Answer (PlainStatus 204)
      else NotMine)"

definition serveTelemetryIngestEndpoint :: "key_verdict \<Rightarrow> string \<Rightarrow> string \<Rightarrow> route" where
  "serveTelemetryIngestEndpoint key meth path =
     (if telemetryKind path = [] \<or> meth = ''GET'' then NotMine
      else if meth \<noteq> ''POST'' then Answer (PlainStatus 405)
      else (case key of
          KeyOk \<Rightarrow> ToSpool
        | Unauthorized401 \<Rightarrow> Answer (DroppedWith DropUnauthorized)
        | Forbidden403 \<Rightarrow> Answer (DroppedWith DropForbidden)
        | Unavailable503 \<Rightarrow> Answer (DroppedWith DropUnavailable)))"

definition serveAnalyticsCollectEndpoint :: "string \<Rightarrow> string \<Rightarrow> route" where
  "serveAnalyticsCollectEndpoint meth path =
     (if path \<noteq> ''/api/v1/analytics/collect'' then NotMine
      else if meth = ''OPTIONS'' then Answer (PlainStatus 204)
      else if meth = ''POST'' then ToSpool
      else Answer (PlainStatus 405))"

fun first_route :: "route list \<Rightarrow> route" where
  "first_route [] = NotMine"
| "first_route (NotMine # rs) = first_route rs"
| "first_route (r # rs) = r"

text \<open>The ingest part of \<open>serveSpecialEndpoint\<close>, in its order.\<close>

definition ingest_route :: "key_verdict \<Rightarrow> key_verdict \<Rightarrow> string \<Rightarrow> string \<Rightarrow> route" where
  "ingest_route key telemetryKey meth path = first_route
     [serveEventsIngestEndpoint key meth path, serveAlertmanagerIngestEndpoint key meth path,
      serveLogsIngestEndpoint key meth path, serveTelemetryIngestEndpoint telemetryKey meth path,
      serveAnalyticsCollectEndpoint meth path]"

section \<open>What the drain makes of a record\<close>

definition alert_item :: "spooled \<Rightarrow> string \<Rightarrow> item" where
  "alert_item rec payload = \<lparr>it_kind = KindEvent, it_ingestID = [], it_receivedAt = sp_receivedAt rec,
     it_contentType = ''application/json'', it_projectSlug = header_of (sp_headers rec) projectHeader,
     it_body = b64_encode payload\<rparr>"

definition record_item :: "string \<Rightarrow> spooled \<Rightarrow> item" where
  "record_item kind rec = \<lparr>it_kind = kind, it_ingestID = [], it_receivedAt = sp_receivedAt rec,
     it_contentType = header_of (sp_headers rec) ''Content-Type'',
     it_projectSlug = header_of (sp_headers rec) projectHeader, it_body = sp_body64 rec\<rparr>"

text \<open>The items a record is published as; \<open>None\<close> when it is dropped.\<close>

definition publish_items :: "parsers \<Rightarrow> spooled \<Rightarrow> item list option" where
  "publish_items P rec =
     (if has_prefix (sp_path rec) ''/api/v1/alertmanager'' then
        (case b64_decode (sp_body64 rec) of
           None \<Rightarrow> None
         | Some body \<Rightarrow> map_option (map (alert_item rec)) (ps_alerts P body))
      else if kindForPath (sp_path rec) = [] then None
      else Some [record_item (kindForPath (sp_path rec)) rec])"

text \<open>What became of a record: to be tried again, handed over, or given up.\<close>

datatype sent = Again | Handed | Discarded

definition publishOne :: "parsers \<Rightarrow> 's redis \<Rightarrow> spooled \<Rightarrow> 's \<Rightarrow> sent \<times> 's" where
  "publishOne P R rec s = (case publish_items P rec of
     None \<Rightarrow> (Discarded, s)
   | Some items \<Rightarrow> (case Publish R items s of (True, s') \<Rightarrow> (Handed, s') | (False, s') \<Rightarrow> (Again, s')))"

text \<open>The writer's answer to a replayed request: no answer, or a status.\<close>

datatype http_answer = HttpError | HttpStatus int

definition forwardHTTP :: "(spooled \<Rightarrow> 's \<Rightarrow> http_answer \<times> 's) \<Rightarrow> spooled \<Rightarrow> 's \<Rightarrow> sent \<times> 's" where
  "forwardHTTP writer rec s =
     (if b64_decode (sp_body64 rec) = None then (Discarded, s)
      else case writer rec s of
        (HttpError, s') \<Rightarrow> (Again, s')
      | (HttpStatus n, s') \<Rightarrow> ((if 500 \<le> n then Again else if 400 \<le> n then Discarded else Handed), s'))"

section \<open>What is accepted and what is published\<close>

text \<open>A request whose path needs no escaping: the request URI is the path and the query.\<close>

definition plain_uri :: "ingest_request \<Rightarrow> bool" where
  "plain_uri r \<longleftrightarrow> (\<exists>q. iq_uri r = iq_path r @ q \<and> (q = [] \<or> hd q = CHR ''?''))"

definition spool_paths :: "string list" where
  "spool_paths = [''/api/v1/events'', ''/api/v1/alertmanager'', ''/api/v1/logs'', ''/api/v1/telemetry/security'',
     ''/api/v1/telemetry/metrics'', ''/api/v1/analytics/collect'']"

lemma spool_route_paths:
  "ingest_route key tk meth path = ToSpool \<Longrightarrow> meth = ''POST'' \<and> path \<in> set spool_paths"
  by (auto simp: ingest_route_def serveEventsIngestEndpoint_def serveAlertmanagerIngestEndpoint_def
      serveLogsIngestEndpoint_def serveTelemetryIngestEndpoint_def serveAnalyticsCollectEndpoint_def
      telemetryKind_def spool_paths_def after_key_def
      split: if_splits key_verdict.splits)

lemma cut_query: "CHR ''?'' \<notin> set p \<Longrightarrow> q = [] \<or> hd q = CHR ''?'' \<Longrightarrow> fst (cut (CHR ''?'') (p @ q)) = p"
proof -
  assume p: "CHR ''?'' \<notin> set p" and q: "q = [] \<or> hd q = CHR ''?''"
  have "takeWhile (\<lambda>c. c \<noteq> CHR ''?'') (p @ q) = p @ takeWhile (\<lambda>c. c \<noteq> CHR ''?'') q"
    using p by (intro takeWhile_append2) auto
  also have "takeWhile (\<lambda>c. c \<noteq> CHR ''?'') q = []" using q by (cases q) auto
  finally show ?thesis by (simp add: cut_def)
qed

lemma has_prefix_app:
  "has_prefix (p @ q) pre \<longleftrightarrow>
     (if length pre \<le> length p then has_prefix p pre
      else take (length p) pre = p \<and> has_prefix q (drop (length p) pre))"
proof (cases "length pre \<le> length p")
  case False
  have "pre = take (length p) pre @ drop (length p) pre" by simp
  then show ?thesis using False unfolding has_prefix_def
    by (metis append_eq_append_conv length_take min.absorb4 min.commute not_le take_append take_all_iff
        nat_le_linear length_drop)
qed (simp add: has_prefix_def)

definition kind_prefixes :: "string list" where
  "kind_prefixes = [''/api/v1/events'', ''/api/v1/logs'', ''/api/v1/alertmanager'']"

definition path_facts :: "string \<Rightarrow> bool" where
  "path_facts p \<longleftrightarrow> CHR ''?'' \<notin> set p
     \<and> (has_prefix p ''/api/v1/alertmanager'' \<longleftrightarrow> p = ''/api/v1/alertmanager'')
     \<and> (kindForPath p = [] \<longleftrightarrow> p = ''/api/v1/alertmanager'' \<or> p = ''/api/v1/analytics/collect'')
     \<and> list_all (\<lambda>pre. length p < length pre \<longrightarrow> take (length p) pre \<noteq> p) kind_prefixes"

lemma spool_path_facts: "list_all path_facts spool_paths"
  by code_simp

lemma kind_of_uri:
  assumes "p \<in> set spool_paths" "q = [] \<or> hd q = CHR ''?''"
  shows "kindForPath (p @ q) = kindForPath p"
    "has_prefix (p @ q) ''/api/v1/alertmanager'' \<longleftrightarrow> p = ''/api/v1/alertmanager''"
    "kindForPath p = [] \<longleftrightarrow> p = ''/api/v1/alertmanager'' \<or> p = ''/api/v1/analytics/collect''"
proof -
  have f: "path_facts p" using spool_path_facts assms(1) by (simp only: list_all_iff)
  have k: "CHR ''?'' \<notin> set p" "has_prefix p ''/api/v1/alertmanager'' \<longleftrightarrow> p = ''/api/v1/alertmanager''"
    "kindForPath p = [] \<longleftrightarrow> p = ''/api/v1/alertmanager'' \<or> p = ''/api/v1/analytics/collect''"
    using f unfolding path_facts_def by blast+
  have h: "has_prefix (p @ q) pre = has_prefix p pre" if pre: "pre \<in> set kind_prefixes" for pre
  proof (cases "length pre \<le> length p")
    case False
    then have "take (length p) pre \<noteq> p" using f pre unfolding path_facts_def list_all_iff by auto
    then show ?thesis using False by (simp only: has_prefix_app) (auto simp: has_prefix_def)
  qed (simp add: has_prefix_app)
  have m: "''/api/v1/events'' \<in> set kind_prefixes" "''/api/v1/logs'' \<in> set kind_prefixes"
    "''/api/v1/alertmanager'' \<in> set kind_prefixes" by (simp_all add: kind_prefixes_def)
  have c: "fst (cut (CHR ''?'') (p @ q)) = p" "fst (cut (CHR ''?'') p) = p"
    using cut_query [OF k(1) assms(2)] cut_query [OF k(1), of "[]"] by simp_all
  show "kindForPath (p @ q) = kindForPath p" 
    by (simp only: kindForPath_def h [OF m(1)] h [OF m(2)] c)
  show "has_prefix (p @ q) ''/api/v1/alertmanager'' \<longleftrightarrow> p = ''/api/v1/alertmanager''"
    by (simp only: h [OF m(3)] k(2))
  show "kindForPath p = [] \<longleftrightarrow> p = ''/api/v1/alertmanager'' \<or> p = ''/api/v1/analytics/collect''" by (rule k(3))
qed

lemma forward_record_fields:
  assumes "forward_record P cfg now r = Inr rec"
  shows "\<exists>body hs. read_body (fc_max cfg) (iq_body r) = Inr body
    \<and> bodyHasIngestShape P (iq_path r) (iq_header r ''Content-Type'') body
    \<and> stamp_project cfg (kept_headers (iq_header r)) = Inr hs
    \<and> \<not> (fc_queue cfg \<and> kindForPath (iq_path r) = KindLog \<and> header_of hs projectHeader = [])
    \<and> rec = \<lparr>sp_receivedAt = now, sp_method = iq_method r, sp_path = iq_uri r, sp_headers = hs, sp_body64 = b64_encode body\<rparr>"
  using assms by (auto simp: forward_record_def split: sum.splits if_splits)

text \<open>In queue mode exactly the page views are lost: of the requests a reader accepts into its
  spool, whichever route they came by, the drain turns each into queue items, except those of the
  analytics endpoint, which it discards without touching the queue.\<close>

theorem accepted_page_views_discarded:
  assumes "ingest_route key tk (iq_method r) (iq_path r) = ToSpool" "forward_record P cfg now r = Inr rec" "plain_uri r"
  shows "(publish_items P rec = None) = (iq_path r = ''/api/v1/analytics/collect'')
    \<and> (iq_path r = ''/api/v1/analytics/collect'' \<longrightarrow> publishOne P R rec s = (Discarded, s))"
proof -
  obtain q where q: "iq_uri r = iq_path r @ q" "q = [] \<or> hd q = CHR ''?''" using assms(3) by (auto simp: plain_uri_def)
  have p: "iq_path r \<in> set spool_paths" using spool_route_paths [OF assms(1)] by simp
  obtain body hs where f: "bodyHasIngestShape P (iq_path r) (iq_header r ''Content-Type'') body"
    "rec = \<lparr>sp_receivedAt = now, sp_method = iq_method r, sp_path = iq_uri r, sp_headers = hs, sp_body64 = b64_encode body\<rparr>"
    using forward_record_fields [OF assms(2)] by blast
  note k = kind_of_uri [OF p q(2)]
  have e: "KindEvent \<noteq> []" "KindLog \<noteq> []" by (simp_all add: KindEvent_def KindLog_def)
  have "(publish_items P rec = None) = (iq_path r = ''/api/v1/analytics/collect'')"
  proof (cases "iq_path r = ''/api/v1/alertmanager''")
    case True
    then have "kindForPath (iq_path r) = []" using k(3) by simp
    then have "ps_alerts P body \<noteq> None" using f(1) e True by (simp add: bodyHasIngestShape_def has_prefix_def)
    then show ?thesis using True k f(2) q(1) by (simp add: publish_items_def b64_roundtrip)
  next
    case False
    then show ?thesis using k f(2) q(1) by (simp add: publish_items_def)
  qed
  then show ?thesis by (auto simp: publishOne_def)
qed

definition lenient_parsers :: parsers where
  "lenient_parsers = \<lparr>ps_event = \<lambda>_. True, ps_logs = \<lambda>_. True, ps_alerts = \<lambda>b. Some [b]\<rparr>"

definition demo_post :: "string \<Rightarrow> ingest_request" where
  "demo_post path = \<lparr>iq_method = ''POST'', iq_path = path, iq_uri = path @ ''?v=1'', iq_header = \<lambda>_. [],
     iq_body = Some (''{}'', False)\<rparr>"

definition queue_cfg :: forward_cfg where
  "queue_cfg = \<lparr>fc_queue = True, fc_max = 100, fc_resolve = Some (\<lambda>_. Inr ''web'')\<rparr>"

lemma demo_post_spooled: "\<exists>rec. forward_record lenient_parsers queue_cfg 0 (demo_post path) = Inr rec"
  by (simp add: forward_record_def read_body_def queue_cfg_def demo_post_def bodyHasIngestShape_def lenient_parsers_def
      stamp_project_def kept_headers_def forwardedHeaders_def header_of_def)

theorem accepted_page_views_discarded_witness:
  "\<exists>rec. forward_record lenient_parsers queue_cfg 0 (demo_post ''/api/v1/analytics/collect'') = Inr rec
    \<and> publishOne lenient_parsers script_redis rec (demo_server []) = (Discarded, demo_server [])"
proof -
  let ?r = "demo_post ''/api/v1/analytics/collect''"
  obtain rec where f: "forward_record lenient_parsers queue_cfg 0 ?r = Inr rec" using demo_post_spooled by blast
  have "ingest_route KeyOk KeyOk (iq_method ?r) (iq_path ?r) = ToSpool"
    by (simp add: demo_post_def ingest_route_def serveEventsIngestEndpoint_def serveAlertmanagerIngestEndpoint_def
        serveLogsIngestEndpoint_def serveTelemetryIngestEndpoint_def serveAnalyticsCollectEndpoint_def telemetryKind_def)
  moreover have "plain_uri ?r" by (simp add: plain_uri_def demo_post_def)
  ultimately show ?thesis
    using accepted_page_views_discarded [OF _ f, of KeyOk KeyOk script_redis "demo_server []"] f by (auto simp: demo_post_def)
qed

text \<open>An accepted log batch keeps its project: in queue mode every log item that is published from a
  request the reader accepted carries a project slug, so the consumer never drops it for want of
  one, and it carries the slug the caller named when the caller named one.\<close>

theorem log_items_have_project:
  assumes "forward_record P cfg now r = Inr rec" "plain_uri r" "fc_queue cfg" "iq_path r \<in> set spool_paths"
    and "publish_items P rec = Some items" "i \<in> set items" "it_kind i = KindLog"
  shows "it_projectSlug i \<noteq> [] \<and> (iq_header r projectHeader \<noteq> [] \<longrightarrow> it_projectSlug i = iq_header r projectHeader)"
proof -
  obtain q where q: "iq_uri r = iq_path r @ q" "q = [] \<or> hd q = CHR ''?''" using assms(2) by (auto simp: plain_uri_def)
  obtain body hs where f: "stamp_project cfg (kept_headers (iq_header r)) = Inr hs"
    "\<not> (fc_queue cfg \<and> kindForPath (iq_path r) = KindLog \<and> header_of hs projectHeader = [])"
    "rec = \<lparr>sp_receivedAt = now, sp_method = iq_method r, sp_path = iq_uri r, sp_headers = hs, sp_body64 = b64_encode body\<rparr>"
    using forward_record_fields [OF assms(1)] by blast
  note k = kind_of_uri [OF assms(4) q(2)]
  have ne: "KindEvent \<noteq> KindLog" by (simp add: KindEvent_def KindLog_def)
  have i: "i = record_item (kindForPath (iq_path r)) rec" "kindForPath (iq_path r) = KindLog"
    using assms(5-7) k q(1) f(3) ne
    by (auto simp: publish_items_def alert_item_def record_item_def split: if_splits option.splits)
  then have "header_of hs projectHeader \<noteq> []" using f(2) assms(3) by simp
  moreover have "header_of hs projectHeader = iq_header r projectHeader" if "iq_header r projectHeader \<noteq> []"
    using that f(1) by (auto simp: stamp_project_def header_of_def kept_headers_def forwardedHeaders_def apiKeyHeader_def
        projectHeader_def split: if_splits option.splits sum.splits)
  ultimately show ?thesis using i(1) f(3) by (auto simp: record_item_def)
qed

theorem log_items_have_project_witness:
  "\<exists>rec i. publish_items lenient_parsers rec = Some [i] \<and> it_kind i = KindLog \<and> it_projectSlug i \<noteq> []"
proof -
  let ?r = "demo_post ''/api/v1/logs''"
  obtain rec where f: "forward_record lenient_parsers queue_cfg 0 ?r = Inr rec" using demo_post_spooled by blast
  have u: "plain_uri ?r" by (simp add: plain_uri_def demo_post_def)
  have s: "sp_path rec = ''/api/v1/logs?v=1''" using forward_record_fields [OF f] by (auto simp: demo_post_def)
  then have p: "publish_items lenient_parsers rec = Some [record_item KindLog rec]"
    by (simp add: publish_items_def has_prefix_def kindForPath_def KindLog_def)
  from log_items_have_project [OF f u _ _ p] have "it_projectSlug (record_item KindLog rec) \<noteq> []"
    by (simp add: queue_cfg_def demo_post_def spool_paths_def record_item_def)
  moreover have "it_kind (record_item KindLog rec) = KindLog" by (simp add: record_item_def)
  ultimately show ?thesis using p by blast
qed

end
