(* ===== verification/IngestHandler.thy ===== *)
theory IngestHandler
  imports ForwardRequest Spool
begin

text \<open>
  Ingest on the writer: \<open>internal/ingest/handler.go\<close> (\<open>ServeHTTP\<close>,
  \<open>ServeAlertmanagerHTTP\<close>, \<open>SpoolRelease\<close>), the Alertmanager expansion
  (\<open>alertmanager.go\<close>), and the two bounded tables a key check keeps: who was denied
  (\<open>denied.go\<close>) and which pairs of projects were seen (\<open>foreign_project.go\<close>).

  The event validator, the JSON parser of the webhook and the JSON printer are fields of
  \<open>handler\<close>; the outcome of the spool write is an argument of a request.
\<close>

section \<open>Alertmanager webhooks\<close>

record am_alert =
  al_status :: string
  al_labels :: "(string \<times> string) list option"
  al_annotations :: "(string \<times> string) list option"
  al_startsAt :: string
  al_generatorURL :: string
  al_fingerprint :: string

text \<open>Reading a missing key, or any key of a nil map, gives the empty string.\<close>

definition map_get :: "(string \<times> string) list option \<Rightarrow> string \<Rightarrow> string" where
  "map_get m k = (case m of None \<Rightarrow> [] | Some kvs \<Rightarrow> (case map_of kvs k of None \<Rightarrow> [] | Some v \<Rightarrow> v))"

definition map_value :: "(string \<times> string) list option \<Rightarrow> jval" where
  "map_value m = (case m of None \<Rightarrow> JNull | Some kvs \<Rightarrow> JObj (map (\<lambda>(k, v). (k, JStr v)) kvs))"

text \<open>\<open>strings.EqualFold\<close> with an ASCII word that has no \<open>k\<close>: letters match in either case, and
  the long s, two bytes in UTF-8, matches an s.\<close>

fun fold_text :: "string \<Rightarrow> string" where
  "fold_text [] = []"
| "fold_text [c] = [lower_char c]"
| "fold_text (c # d # s) = (if c = CHR 0xC5 \<and> d = CHR 0xBF then CHR ''s'' # fold_text s
     else lower_char c # fold_text (d # s))"

definition is_resolved :: "string \<Rightarrow> bool" where
  "is_resolved status \<longleftrightarrow> fold_text status = ''resolved''"

definition alert_message :: "am_alert \<Rightarrow> string" where
  "alert_message a =
     (let alertName = trim_space (map_get (al_labels a) ''alertname'');
          summary = trim_space (map_get (al_annotations a) ''summary'')
      in if alertName \<noteq> [] \<and> summary \<noteq> [] then alertName @ '': '' @ summary
         else if summary = [] then alertName else summary)"

definition alertmanagerPayload :: "am_alert \<Rightarrow> string \<Rightarrow> jval" where
  "alertmanagerPayload a envelopeStatus =
     (let status = (if al_status a = [] then envelopeStatus else al_status a);
          severity = (if is_resolved status then ''info'' else map_get (al_labels a) ''severity'')
      in JObj ([(''body'', JStr (alert_message a)), (''severityText'', JStr severity),
           (''observedTimestamp'', JStr (al_startsAt a)),
           (''attributes'', JObj [(''labels'', map_value (al_labels a)),
              (''description'', JStr (map_get (al_annotations a) ''description'')),
              (''alertmanager'', JObj [(''fingerprint'', JStr (al_fingerprint a)),
                 (''generatorURL'', JStr (al_generatorURL a)), (''status'', JStr status)])])]
         @ (if al_fingerprint a = [] then [] else [(''fingerprint'', JStr (''alertmanager:'' @ al_fingerprint a))])))"

fun encode_alerts :: "(jval \<Rightarrow> string option) \<Rightarrow> string \<Rightarrow> am_alert list \<Rightarrow> string list option" where
  "encode_alerts marshal st [] = Some []"
| "encode_alerts marshal st (a # as) = (case marshal (alertmanagerPayload a st) of
     None \<Rightarrow> None
   | Some p \<Rightarrow> map_option ((#) p) (encode_alerts marshal st as))"

text \<open>\<open>parse\<close> is \<open>json.Unmarshal\<close> into the envelope; a missing list of alerts is an error.\<close>

definition AlertmanagerEvents ::
  "(string \<Rightarrow> (string \<times> am_alert list option) option) \<Rightarrow> (jval \<Rightarrow> string option) \<Rightarrow> string \<Rightarrow> string list option" where
  "AlertmanagerEvents parse marshal raw = (case parse raw of
     None \<Rightarrow> None
   | Some (st, None) \<Rightarrow> None
   | Some (st, Some alerts) \<Rightarrow> encode_alerts marshal st alerts)"

section \<open>The handler\<close>

record handler =
  hn_auth :: "authorizer option"
  hn_sha :: "string \<Rightarrow> string"
  hn_spool :: bool
  hn_maxBody :: int
  hn_codec :: codec
  hn_maxBytes :: int
  hn_slugOf :: "(int \<Rightarrow> unit + string) option"
  hn_validate :: "string \<Rightarrow> bool"
  hn_parse :: "string \<Rightarrow> (string \<times> am_alert list option) option"
  hn_marshal :: "jval \<Rightarrow> string option"

text \<open>What the handler remembers, and the active file of its spool.\<close>

record hstate =
  hd_denied :: "(string \<times> time) list"
  hd_fired :: "int \<Rightarrow> time option"
  hd_slugs :: "int \<Rightarrow> string option"
  hd_pairs :: "string list"
  hd_file :: string

definition NewHandler :: "int \<Rightarrow> handler \<Rightarrow> handler" where
  "NewHandler maxBodyBytes h = h\<lparr>hn_maxBody := if maxBodyBytes \<le> 0 then 1048576 else maxBodyBytes\<rparr>"

definition deniedLogEvery :: duration where "deniedLogEvery = minutes"
definition deniedLogMaxCallers :: nat where "deniedLogMaxCallers = 1000"
definition maxForeignPairs :: nat where "maxForeignPairs = 1000"
definition funnelbarnEventThrottle :: duration where "funnelbarnEventThrottle = 5 * minutes"

definition keyFingerprint :: "(string \<Rightarrow> string) \<Rightarrow> string \<Rightarrow> string" where
  "keyFingerprint sha key = (if key = [] then ''missing'' else take 6 (sha key))"

definition denied_caller :: "handler \<Rightarrow> ingest_request \<Rightarrow> string" where
  "denied_caller h r = keyFingerprint (hn_sha h) (iq_header r apiKeyHeader) @ ''|''
     @ take 120 (iq_header r ''User-Agent'') @ ''|'' @ take 64 (iq_header r projectHeader)"

text \<open>Whether the denial is logged, and the table after it.\<close>

definition logDenied :: "handler \<Rightarrow> time \<Rightarrow> ingest_request \<Rightarrow> hstate \<Rightarrow> bool \<times> hstate" where
  "logDenied h now r s =
     (let caller = denied_caller h r;
          table = (if deniedLogMaxCallers \<le> length (hd_denied s) then [] else hd_denied s);
          throttled = (case map_of table caller of None \<Rightarrow> False | Some last_at \<Rightarrow> time_sub now last_at < deniedLogEvery)
      in if throttled then (False, s\<lparr>hd_denied := table\<rparr>)
         else (True, s\<lparr>hd_denied := (caller, now) # filter (\<lambda>(c, t). c \<noteq> caller) table\<rparr>))"

definition firstOfPair :: "string \<Rightarrow> hstate \<Rightarrow> bool \<times> hstate" where
  "firstOfPair pair s =
     (if pair \<in> set (hd_pairs s) \<or> maxForeignPairs \<le> length (hd_pairs s) then (False, s)
      else (True, s\<lparr>hd_pairs := pair # hd_pairs s\<rparr>))"

definition observeProjectHeader :: "handler \<Rightarrow> int \<Rightarrow> string \<Rightarrow> string \<Rightarrow> hstate \<Rightarrow> hstate" where
  "observeProjectHeader h pid scope headerSlug s = (case hn_slugOf h of
     None \<Rightarrow> s
   | Some slugOf \<Rightarrow>
       if pid \<le> 0 \<or> headerSlug = [] \<or> scope = APIKeyScopeFull then s
       else (let found = (case hd_slugs s pid of
                 Some own \<Rightarrow> Some (own, s)
               | None \<Rightarrow> (case slugOf pid of
                     Inl _ \<Rightarrow> None
                   | Inr slug \<Rightarrow> if slug = [] then None else Some (slug, s\<lparr>hd_slugs := (hd_slugs s)(pid \<mapsto> slug)\<rparr>)))
             in case found of
                  None \<Rightarrow> s
                | Some (own, s') \<Rightarrow> if own = headerSlug then s' else snd (firstOfPair (own @ ''->'' @ headerSlug) s')))"

definition CheckAPIKey :: "handler \<Rightarrow> time \<Rightarrow> ingest_request \<Rightarrow> hstate \<Rightarrow> key_answer \<times> hstate" where
  "CheckAPIKey h now r s = (case hn_auth h of
     None \<Rightarrow> (Inr (Some (0, APIKeyScopeFull)), s)
   | Some a \<Rightarrow>
       (let slug = iq_header r projectHeader;
            answer = CheckWithSetupFallback (hn_sha h) a (iq_header r apiKeyHeader) slug
        in case answer of
             Inl _ \<Rightarrow> (answer, s)
           | Inr None \<Rightarrow> (answer, snd (logDenied h now r s))
           | Inr (Some (pid, scope)) \<Rightarrow> (answer, observeProjectHeader h pid scope slug s)))"

definition authorize :: "handler \<Rightarrow> time \<Rightarrow> ingest_request \<Rightarrow> hstate \<Rightarrow> (ingest_drop + int \<times> string) \<times> hstate" where
  "authorize h now r s = (case CheckAPIKey h now r s of
     (Inl _, s') \<Rightarrow> (Inl DropUnavailable, s')
   | (Inr None, s') \<Rightarrow> (Inl DropUnauthorized, s')
   | (Inr (Some k), s') \<Rightarrow> (Inr k, s'))"

text \<open>Whether the product event is sent, and the table after it.\<close>

definition trackEventIngested :: "time \<Rightarrow> int \<Rightarrow> hstate \<Rightarrow> bool \<times> hstate" where
  "trackEventIngested now pid s =
     (if pid \<le> 0 then (False, s)
      else case hd_fired s pid of
        Some last_at \<Rightarrow>
          if time_sub now last_at < funnelbarnEventThrottle then (False, s)
          else (True, s\<lparr>hd_fired := (hd_fired s)(pid \<mapsto> now)\<rparr>)
      | None \<Rightarrow> (True, s\<lparr>hd_fired := (hd_fired s)(pid \<mapsto> now)\<rparr>))"

definition spool_refusal :: "append_error \<Rightarrow> ingest_drop" where
  "spool_refusal e = (if e = ErrFull then DropSpoolFull else DropUnavailable)"

definition spool_event :: "string \<Rightarrow> time \<Rightarrow> string \<Rightarrow> string \<Rightarrow> string \<Rightarrow> string \<Rightarrow> spool_record" where
  "spool_event ingestID now contentType remote slug body = \<lparr>sr_ingestID = ingestID, sr_receivedAt = now, sr_kind = [],
     sr_contentType = contentType, sr_remoteAddr = remote, sr_contentLength = int (length body),
     sr_body = b64_encode body, sr_projectSlug = slug, sr_projectID = 0, sr_internal = False\<rparr>"

text \<open>What both handlers begin with: the refusal, or the key's project and the body.  One reading of
  the clock stands for those of the request.\<close>

definition ingest_gate :: "handler \<Rightarrow> time \<Rightarrow> ingest_request \<Rightarrow> hstate \<Rightarrow> (ingest_reply + int \<times> string) \<times> hstate" where
  "ingest_gate h now r s =
     (if hn_auth h = None \<or> \<not> hn_spool h then (Inl (DroppedWith DropUnavailable), s)
      else if iq_method r \<noteq> ''POST'' then (Inl (PlainStatus 405), s)
      else case authorize h now r s of
        (Inl deny, s1) \<Rightarrow> (Inl (DroppedWith deny), s1)
      | (Inr (pid, scope), s1) \<Rightarrow>
          (case read_body (hn_maxBody h) (iq_body r) of
             Inl x \<Rightarrow> (Inl (DroppedWith x), s1)
           | Inr body \<Rightarrow> (Inr (pid, body), s1)))"

text \<open>\<open>remote\<close> is the peer's address, \<open>ingestID\<close> the fresh id, \<open>outc\<close> what the spool write does.
  The answer is the reply and the id it carries.\<close>

definition IngestServeHTTP ::
  "handler \<Rightarrow> time \<Rightarrow> string \<Rightarrow> string \<Rightarrow> write_outcome \<Rightarrow> ingest_request \<Rightarrow> hstate \<Rightarrow> (ingest_reply \<times> string) \<times> hstate" where
  "IngestServeHTTP h now remote ingestID outc r s = (case ingest_gate h now r s of
     (Inl refused, s1) \<Rightarrow> ((refused, []), s1)
   | (Inr (pid, body), s1) \<Rightarrow>
       if \<not> hn_validate h body then ((DroppedWith DropMalformed, []), s1)
       else (case Append (hn_codec h) (hn_maxBytes h) outc
                (spool_event ingestID now (iq_header r ''Content-Type'') remote (iq_header r projectHeader) body)
                (hd_file s1) of
           (Some e, file) \<Rightarrow> ((DroppedWith (spool_refusal e), []), s1\<lparr>hd_file := file\<rparr>)
         | (None, file) \<Rightarrow>
             ((Accepted202, ingestID), snd (trackEventIngested now pid (s1\<lparr>hd_file := file\<rparr>)))))"

text \<open>One record per alert, written in one append; \<open>ids i\<close> is the id of the \<open>i\<close>-th.\<close>

definition alert_records :: "time \<Rightarrow> string \<Rightarrow> (nat \<Rightarrow> string) \<Rightarrow> ingest_request \<Rightarrow> string list \<Rightarrow> spool_record list" where
  "alert_records now remote ids r payloads =
     map (\<lambda>(i, p). spool_event (ids i) now ''application/json'' remote (iq_header r projectHeader) p) (enumerate 0 payloads)"

definition ServeAlertmanagerHTTP ::
  "handler \<Rightarrow> time \<Rightarrow> string \<Rightarrow> (nat \<Rightarrow> string) \<Rightarrow> write_outcome \<Rightarrow> ingest_request \<Rightarrow> hstate \<Rightarrow> ingest_reply \<times> hstate" where
  "ServeAlertmanagerHTTP h now remote ids outc r s = (case ingest_gate h now r s of
     (Inl refused, s1) \<Rightarrow> (refused, s1)
   | (Inr (pid, body), s1) \<Rightarrow>
       (case AlertmanagerEvents (hn_parse h) (hn_marshal h) body of
          None \<Rightarrow> (DroppedWith DropMalformed, s1)
        | Some payloads \<Rightarrow>
            (case AppendBatch (hn_codec h) (hn_maxBytes h) outc (alert_records now remote ids r payloads) (hd_file s1) of
               (Some e, file) \<Rightarrow> (DroppedWith (spool_refusal e), s1\<lparr>hd_file := file\<rparr>)
             | (None, file) \<Rightarrow> (Accepted202, snd (trackEventIngested now pid (s1\<lparr>hd_file := file\<rparr>))))))"

text \<open>A release marker: the body as it came, the project already resolved.\<close>

definition SpoolRelease ::
  "handler \<Rightarrow> time \<Rightarrow> string \<Rightarrow> write_outcome \<Rightarrow> int \<Rightarrow> string \<Rightarrow> string \<Rightarrow> string \<Rightarrow> hstate \<Rightarrow> (unit + string) \<times> hstate" where
  "SpoolRelease h now ingestID outc pid contentType remote body s =
     (if \<not> hn_spool h then (Inl (), s)
      else case Append (hn_codec h) (hn_maxBytes h) outc
             ((spool_event ingestID now contentType remote [] body)\<lparr>sr_kind := ''release'', sr_projectID := pid\<rparr>) (hd_file s) of
        (Some e, file) \<Rightarrow> (Inl (), s\<lparr>hd_file := file\<rparr>)
      | (None, file) \<Rightarrow> (Inr ingestID, s\<lparr>hd_file := file\<rparr>))"

section \<open>What an answer means\<close>

lemma logDenied_file [simp]: "hd_file (snd (logDenied h now r s)) = hd_file s"
  by (simp add: logDenied_def Let_def)

lemma first_pair_file [simp]: "hd_file (snd (firstOfPair pair s)) = hd_file s"
  by (simp add: firstOfPair_def)

lemma observe_file [simp]: "hd_file (observeProjectHeader h pid scope slug s) = hd_file s"
proof (cases "hn_slugOf h")
  case (Some f)
  show ?thesis
    by (cases "hd_slugs s pid"; cases "f pid") (simp_all add: observeProjectHeader_def Some Let_def)
qed (simp add: observeProjectHeader_def)

lemma check_file [simp]: "hd_file (snd (CheckAPIKey h now r s)) = hd_file s"
proof (cases "hn_auth h")
  case (Some a)
  show ?thesis
    by (simp add: CheckAPIKey_def Some Let_def split: sum.split option.split prod.split)
qed (simp add: CheckAPIKey_def)

lemma authorize_file:
  assumes "authorize h now r s = (a, s')"
  shows "hd_file s' = hd_file s"
proof -
  obtain b s1 where c: "CheckAPIKey h now r s = (b, s1)" by fastforce
  have "s1 = s'"
    using assms by (simp add: authorize_def c split: sum.split_asm option.split_asm)
  then show ?thesis using check_file [of h now r s] c by simp
qed

lemma track_file [simp]: "hd_file (snd (trackEventIngested now pid s)) = hd_file s"
  by (auto simp: trackEventIngested_def split: option.splits)

lemma append_file:
  assumes "AppendBatch K n outc rs f = (e, f')"
  shows "e = None \<Longrightarrow> f' = f @ file_of K rs" "e \<noteq> None \<Longrightarrow> outc = Wrote \<Longrightarrow> f' = f"
  using assms by (auto simp: AppendBatch_def write_bytes_def split: if_splits write_outcome.splits)

lemma append_single: "Append K n outc rec f = AppendBatch K n outc [rec] f"
  by (simp add: Append_def AppendBatch_def file_of_def)

text \<open>The bytes of a request's body, when it has any.\<close>

definition body_of :: "ingest_request \<Rightarrow> string" where
  "body_of r = (case iq_body r of None \<Rightarrow> [] | Some (b, f) \<Rightarrow> b)"

lemma read_body_bytes: "read_body n (iq_body r) = Inr body \<Longrightarrow> body = body_of r"
  by (auto simp: read_body_def body_of_def split: option.splits if_splits)

lemma gate_refusal: "ingest_gate h now r s = (Inl refused, s1) \<Longrightarrow> refused \<noteq> Accepted202 \<and> hd_file s1 = hd_file s"
  by (cases "authorize h now r s")
    (auto simp: ingest_gate_def authorize_file split: if_split_asm sum.split_asm)

lemma gate_pass: "ingest_gate h now r s = (Inr (pid, body), s1) \<Longrightarrow> body = body_of r \<and> hd_file s1 = hd_file s"
  by (cases "authorize h now r s")
    (auto simp: ingest_gate_def authorize_file read_body_bytes split: if_split_asm sum.split_asm)

lemma served_accepted:
  assumes "IngestServeHTTP h now remote ingestID outc r s = ((Accepted202, answered), s')"
  shows "answered = ingestID" "hn_validate h (body_of r)"
    "hd_file s' = hd_file s @ file_of (hn_codec h)
       [spool_event ingestID now (iq_header r ''Content-Type'') remote (iq_header r projectHeader) (body_of r)]"
proof -
  let ?rec = "spool_event ingestID now (iq_header r ''Content-Type'') remote (iq_header r projectHeader) (body_of r)"
  obtain pid s1 where a: "ingest_gate h now r s = (Inr (pid, body_of r), s1)" "hd_file s1 = hd_file s"
    using assms gate_refusal gate_pass
    by (cases "ingest_gate h now r s") (fastforce simp: IngestServeHTTP_def split: sum.split_asm)
  show v: "hn_validate h (body_of r)" using assms a by (simp add: IngestServeHTTP_def split: if_split_asm)
  obtain e f where c: "AppendBatch (hn_codec h) (hn_maxBytes h) outc [?rec] (hd_file s) = (e, f)" by fastforce
  have e: "e = None" using assms a v c by (cases e) (simp_all add: IngestServeHTTP_def append_single)
  have "ingestID = answered \<and> snd (trackEventIngested now pid (s1\<lparr>hd_file := f\<rparr>)) = s'"
    using assms a v c e by (simp add: IngestServeHTTP_def append_single)
  then show "answered = ingestID" "hd_file s' = hd_file s @ file_of (hn_codec h) [?rec]"
    using append_file(1) [OF c e] track_file [of now pid "s1\<lparr>hd_file := f\<rparr>"] by auto
qed

lemma served_refused:
  assumes "IngestServeHTTP h now remote ingestID Wrote r s = ((reply, answered), s')" "reply \<noteq> Accepted202"
  shows "hd_file s' = hd_file s"
proof (cases "ingest_gate h now r s")
  case (Pair a s1)
  show ?thesis
  proof (cases a)
    case (Inl x)
    then show ?thesis using assms Pair gate_refusal by (auto simp: IngestServeHTTP_def)
  next
    case (Inr b)
    let ?rec = "spool_event ingestID now (iq_header r ''Content-Type'') remote (iq_header r projectHeader) (snd b)"
    obtain e f where c: "AppendBatch (hn_codec h) (hn_maxBytes h) Wrote [?rec] (hd_file s1) = (e, f)" by fastforce
    have g: "hd_file s1 = hd_file s" using gate_pass [of h now r s "fst b" "snd b" s1] Pair Inr by simp
    show ?thesis using assms Pair Inr c g append_file(2) [OF c]
      by (cases b; cases e) (auto simp: IngestServeHTTP_def append_single split: if_split_asm)
  qed
qed

text \<open>C21: The writer's answer to an event is true: a 202 means that the spool holds, behind what it
  held, exactly one more record, with the answered id, the request's project header and the
  exact bytes of a body the validator accepts, and reading the spool from the old end returns
  that record; any other answer leaves the spool as it was, unless the write itself failed.\<close>

theorem accepted_event_is_spooled:
  assumes "codec_ok (hn_codec h)" "hd_file s = file_of (hn_codec h) rs"
    and "IngestServeHTTP h now remote ingestID outc r s = ((reply, answered), s')"
  shows "if reply = Accepted202 then
      \<exists>rec. hd_file s' = file_of (hn_codec h) (rs @ [rec]) \<and> sr_ingestID rec = answered \<and> sr_receivedAt rec = now
        \<and> sr_projectSlug rec = iq_header r projectHeader \<and> b64_decode (sr_body rec) = Some (body_of r)
        \<and> hn_validate h (body_of r)
        \<and> (fits (hn_codec h) rec \<longrightarrow>
             ReadRecordsFrom (hn_codec h) (Some (hd_file s')) (size_of (hn_codec h) rs)
               = Inr [(rec, size_of (hn_codec h) (rs @ [rec]))])
    else outc = Wrote \<longrightarrow> hd_file s' = hd_file s"
proof (cases "reply = Accepted202")
  case True
  let ?rec = "spool_event ingestID now (iq_header r ''Content-Type'') remote (iq_header r projectHeader) (body_of r)"
  note a = served_accepted [OF assms(3) [unfolded True]]
  have f: "hd_file s' = file_of (hn_codec h) (rs @ [?rec])" using a(3) assms(2) by simp
  have p: "public ?rec = ?rec" by (simp add: public_def spool_event_def)
  have "ReadRecordsFrom (hn_codec h) (Some (hd_file s')) (size_of (hn_codec h) rs)
      = Inr [(?rec, size_of (hn_codec h) (rs @ [?rec]))]" if "fits (hn_codec h) ?rec"
    using read_records [OF assms(1), of "[?rec]" rs] that f p by simp
  moreover have "sr_ingestID ?rec = answered \<and> sr_receivedAt ?rec = now \<and> sr_projectSlug ?rec = iq_header r projectHeader
      \<and> b64_decode (sr_body ?rec) = Some (body_of r)"
    using a(1) by (simp add: spool_event_def b64_roundtrip)
  ultimately show ?thesis using True f a(2) by auto
next
  case False
  then show ?thesis using served_refused assms(3) by auto
qed

section \<open>The bounded tables\<close>

definition tables_ok :: "hstate \<Rightarrow> bool" where
  "tables_ok s \<longleftrightarrow> length (hd_denied s) \<le> deniedLogMaxCallers \<and> distinct (map fst (hd_denied s))
     \<and> length (hd_pairs s) \<le> maxForeignPairs \<and> distinct (hd_pairs s)"

lemma denied_tables: "tables_ok s \<Longrightarrow> tables_ok (snd (logDenied h now r s))"
proof -
  assume ok: "tables_ok s"
  define c where "c = denied_caller h r"
  define tb where "tb = (if deniedLogMaxCallers \<le> length (hd_denied s) then [] else hd_denied s)"
  have t: "length tb < deniedLogMaxCallers" "distinct (map fst tb)"
    using ok by (auto simp: tb_def tables_ok_def deniedLogMaxCallers_def)
  have "length (filter (\<lambda>(k, v). k \<noteq> c) tb) \<le> length tb" by simp
  then have "Suc (length (filter (\<lambda>(k, v). k \<noteq> c) tb)) \<le> deniedLogMaxCallers" using t(1) by linarith
  moreover have "distinct (map fst (filter (\<lambda>(k, v). k \<noteq> c) tb))" using t(2) by (rule distinct_map_filter)
  moreover have "c \<notin> fst ` set (filter (\<lambda>(k, v). k \<noteq> c) tb)" by auto
  ultimately show ?thesis
    using ok t by (simp add: logDenied_def c_def [symmetric] tb_def [symmetric] tables_ok_def Let_def)
qed

lemma pair_tables: "tables_ok s \<Longrightarrow> tables_ok (snd (firstOfPair pair s))"
  by (simp add: firstOfPair_def tables_ok_def)

lemma slug_tables: "tables_ok (s\<lparr>hd_slugs := f\<rparr>) = tables_ok s"
  by (simp add: tables_ok_def)

lemma observe_tables: "tables_ok s \<Longrightarrow> tables_ok (observeProjectHeader h pid scope slug s)"
proof (cases "hn_slugOf h")
  case (Some f)
  assume "tables_ok s"
  then show ?thesis
    by (cases "hd_slugs s pid"; cases "f pid") (simp_all add: observeProjectHeader_def Some Let_def pair_tables slug_tables)
qed (simp add: observeProjectHeader_def)

lemma check_tables: "tables_ok s \<Longrightarrow> tables_ok (snd (CheckAPIKey h now r s))"
proof (cases "hn_auth h")
  case (Some a)
  assume "tables_ok s"
  then show ?thesis
    by (simp add: CheckAPIKey_def Some Let_def denied_tables observe_tables split: sum.split option.split prod.split)
qed (simp add: CheckAPIKey_def)

text \<open>However many keys are checked, and whatever headers the callers send, the table of denied
  callers never holds more than a thousand of them and the set of project pairs never more than
  a thousand pairs, each once.\<close>

theorem caller_tables_bounded:
  "tables_ok s \<Longrightarrow> tables_ok (foldl (\<lambda>s (now, r). snd (CheckAPIKey h now r s)) s calls)"
  by (induction calls arbitrary: s) (auto simp: check_tables)

section \<open>From the answer to the stored event\<close>

lemma tail_outcome: "pr_outcome (fst (persist_tail px p pid shown w)) \<noteq> OutcomeParseError"
  by (simp add: persist_tail_def Let_def split: prod.split sum.split)

lemma persist_outcome: "ProcessRecord px rec = Some p \<Longrightarrow> pr_outcome (fst (PersistRecord px rec w)) \<noteq> OutcomeParseError"
  by (simp add: PersistRecord_def next_attempt_def tail_outcome split: option.split prod.split)

text \<open>The project of the key is not carried over: an event accepted without a project header is
  stored in the default project, whatever project its key is bound to.\<close>

theorem bound_key_event_in_default:
  assumes "IngestServeHTTP h now remote ingestID outc r s = ((Accepted202, answered), s')"
    and "iq_header r projectHeader = []"
  shows "\<exists>rec. hd_file s' = hd_file s @ file_of (hn_codec h) [rec] \<and> b64_decode (sr_body rec) = Some (body_of r)
    \<and> (\<forall>px w p. ProcessRecord px rec = Some p
         \<longrightarrow> PersistRecord px rec w = next_attempt (persist_tail px p (px_default px) 0 w))"
proof -
  let ?rec = "spool_event ingestID now (iq_header r ''Content-Type'') remote (iq_header r projectHeader) (body_of r)"
  have "EnsureProjectForIngest px (sr_projectSlug ?rec) w = None" for px w
    using assms(2) by (simp add: EnsureProjectForIngest_def spool_event_def)
  then have "PersistRecord px ?rec w = next_attempt (persist_tail px p (px_default px) 0 w)"
    if "ProcessRecord px ?rec = Some p" for px w p
    using that by (simp add: PersistRecord_def)
  moreover have "b64_decode (sr_body ?rec) = Some (body_of r)" by (simp add: spool_event_def b64_roundtrip)
  ultimately show ?thesis using served_accepted(3) [OF assms(1)] by blast
qed

section \<open>One webhook, two paths\<close>

lemma alert_records_map:
  "map f (alert_records now remote ids r payloads)
     = map (\<lambda>i. f (spool_event (ids i) now ''application/json'' remote (iq_header r projectHeader) (payloads ! i))) [0..<length payloads]"
  by (rule nth_equalityI) (simp_all add: alert_records_def nth_enumerate_eq)

lemma alerts_accepted:
  assumes "ServeAlertmanagerHTTP h now remote ids outc r s = (Accepted202, s')"
  shows "\<exists>payloads. AlertmanagerEvents (hn_parse h) (hn_marshal h) (body_of r) = Some payloads
    \<and> hd_file s' = hd_file s @ file_of (hn_codec h) (alert_records now remote ids r payloads)"
proof -
  obtain pid s1 where a: "ingest_gate h now r s = (Inr (pid, body_of r), s1)" "hd_file s1 = hd_file s"
    using assms gate_refusal gate_pass
    by (cases "ingest_gate h now r s") (fastforce simp: ServeAlertmanagerHTTP_def split: sum.split_asm)
  obtain payloads where p: "AlertmanagerEvents (hn_parse h) (hn_marshal h) (body_of r) = Some payloads"
    using assms a by (simp add: ServeAlertmanagerHTTP_def split: option.split_asm)
  obtain e f where c: "AppendBatch (hn_codec h) (hn_maxBytes h) outc (alert_records now remote ids r payloads) (hd_file s) = (e, f)"
    by fastforce
  have e: "e = None" using assms a p c by (cases e) (simp_all add: ServeAlertmanagerHTTP_def)
  have "snd (trackEventIngested now pid (s1\<lparr>hd_file := f\<rparr>)) = s'"
    using assms a p c e by (simp add: ServeAlertmanagerHTTP_def)
  then show ?thesis
    using p append_file(1) [OF c e] track_file [of now pid "s1\<lparr>hd_file := f\<rparr>"] by auto
qed

lemma alert_bodies: "map sr_body (alert_records now remote ids r payloads) = map b64_encode payloads"
  unfolding alert_records_map by (rule nth_equalityI) (simp_all add: spool_event_def)


section \<open>A concrete writer\<close>

text \<open>A handler whose key store knows one key, bound to project 9 with scope \<open>ingest\<close>.\<close>

definition demo_handler :: handler where
  "demo_handler = \<lparr>hn_auth = Some \<lparr>az_static = None, az_lookup = Some (\<lambda>k. if k = ''k7'' then Inr (Some (9, APIKeyScopeIngest)) else Inr None),
       az_setup = None\<rparr>, hn_sha = (\<lambda>x. x), hn_spool = True, hn_maxBody = 1048576, hn_codec = plain_codec, hn_maxBytes = 0,
     hn_slugOf = None, hn_validate = (\<lambda>b. b \<noteq> []),
     hn_parse = (\<lambda>b. Some (''firing'', Some [\<lparr>al_status = [], al_labels = Some [(''alertname'', b)], al_annotations = None,
        al_startsAt = [], al_generatorURL = [], al_fingerprint = []\<rparr>])),
     hn_marshal = (\<lambda>v. Some ''{}'')\<rparr>"

definition empty_hstate :: hstate where
  "empty_hstate = \<lparr>hd_denied = [], hd_fired = (\<lambda>_. None), hd_slugs = (\<lambda>_. None), hd_pairs = [], hd_file = []\<rparr>"

definition demo_event_post :: "string \<Rightarrow> string \<Rightarrow> ingest_request" where
  "demo_event_post path slug = \<lparr>iq_method = ''POST'', iq_path = path, iq_uri = path,
     iq_header = (\<lambda>k. if k = apiKeyHeader then ''k7'' else if k = projectHeader then slug else []),
     iq_body = Some (''{}'', False)\<rparr>"

lemma demo_handler_fields [simp]:
  "hn_codec demo_handler = plain_codec" "hn_maxBytes demo_handler = 0" "hn_validate demo_handler b \<longleftrightarrow> b \<noteq> []"
  by (simp_all add: demo_handler_def)

lemma demo_gate:
  "ingest_gate demo_handler now (demo_event_post path slug) empty_hstate = (Inr (9, ''{}''), empty_hstate)"
  by (simp add: ingest_gate_def demo_handler_def demo_event_post_def authorize_def CheckAPIKey_def Let_def
      CheckWithSetupFallback_def resolveKeyErr_def auth_Enabled_def lookupStoredKey_def trim_space_def is_space_def
      observeProjectHeader_def read_body_def)

lemma demo_served:
  "\<exists>s'. IngestServeHTTP demo_handler now remote ingestID Wrote (demo_event_post path slug) empty_hstate = ((Accepted202, ingestID), s')"
  by (simp add: IngestServeHTTP_def demo_gate append_single AppendBatch_def write_bytes_def)

theorem accepted_event_is_spooled_witness:
  "\<exists>s' rec. IngestServeHTTP demo_handler 5 [] ''a'' Wrote (demo_event_post ''/api/v1/events'' ''web'') empty_hstate = ((Accepted202, ''a''), s')
     \<and> hd_file s' = file_of plain_codec [rec] \<and> sr_projectSlug rec = ''web''"
proof -
  obtain s' where a: "IngestServeHTTP demo_handler 5 [] ''a'' Wrote (demo_event_post ''/api/v1/events'' ''web'') empty_hstate = ((Accepted202, ''a''), s')"
    using demo_served by blast
  have k: "hn_codec demo_handler = plain_codec" by (simp add: demo_handler_def)
  have ok: "codec_ok (hn_codec demo_handler)" unfolding k by (rule plain_codec_ok)
  have e: "hd_file empty_hstate = file_of (hn_codec demo_handler) []" by (simp add: empty_hstate_def)
  have h: "iq_header (demo_event_post ''/api/v1/events'' ''web'') projectHeader = ''web''"
    by (simp add: demo_event_post_def projectHeader_def apiKeyHeader_def)
  from accepted_event_is_spooled [OF ok e a]
  obtain rec where "hd_file s' = file_of (hn_codec demo_handler) ([] @ [rec])"
      "sr_projectSlug rec = iq_header (demo_event_post ''/api/v1/events'' ''web'') projectHeader" by auto
  then show ?thesis using a h k by auto
qed

theorem caller_tables_bounded_witness:
  "tables_ok (foldl (\<lambda>s (now, r). snd (CheckAPIKey demo_handler now r s)) empty_hstate [(5, demo_event_post [] [])])"
  by (rule caller_tables_bounded) (simp add: tables_ok_def empty_hstate_def)

text \<open>The key of project 9, and an event of it that goes to the default project.\<close>

theorem bound_key_event_in_default_witness:
  "\<exists>s' rec p. fst (CheckAPIKey demo_handler 5 (demo_event_post ''/api/v1/events'' []) empty_hstate) = Inr (Some (9, APIKeyScopeIngest))
     \<and> IngestServeHTTP demo_handler 5 [] ''a'' Wrote (demo_event_post ''/api/v1/events'' []) empty_hstate = ((Accepted202, ''a''), s')
     \<and> hd_file s' = file_of plain_codec [rec] \<and> px_default readonly_px \<noteq> 9
     \<and> PersistRecord readonly_px rec demo_world = next_attempt (persist_tail readonly_px p (px_default readonly_px) 0 demo_world)"
proof -
  let ?r = "demo_event_post ''/api/v1/events'' []"
  obtain s' where a: "IngestServeHTTP demo_handler 5 [] ''a'' Wrote ?r empty_hstate = ((Accepted202, ''a''), s')"
    using demo_served by blast
  have n: "iq_header ?r projectHeader = []" by (simp add: demo_event_post_def projectHeader_def apiKeyHeader_def)
  from bound_key_event_in_default [OF a n]
  obtain rec where r: "hd_file s' = hd_file empty_hstate @ file_of (hn_codec demo_handler) [rec]"
    "b64_decode (sr_body rec) = Some (body_of ?r)"
    "\<And>px w p. ProcessRecord px rec = Some p \<Longrightarrow> PersistRecord px rec w = next_attempt (persist_tail px p (px_default px) 0 w)"
    by blast
  have "\<exists>p. ProcessRecord readonly_px rec = Some p"
    by (simp add: ProcessRecord_def r(2) readonly_px_def demo_px_def Let_def)
  then obtain p where p: "ProcessRecord readonly_px rec = Some p" by blast
  have k: "fst (CheckAPIKey demo_handler 5 ?r empty_hstate) = Inr (Some (9, APIKeyScopeIngest))"
    by (simp add: demo_handler_def demo_event_post_def CheckAPIKey_def Let_def
      CheckWithSetupFallback_def resolveKeyErr_def auth_Enabled_def lookupStoredKey_def trim_space_def is_space_def)
  have "px_default readonly_px \<noteq> 9" by (simp add: readonly_px_def demo_px_def)
  moreover have "hd_file empty_hstate = []" by (simp add: empty_hstate_def)
  ultimately show ?thesis using a k r(1) r(3) [OF p] by auto
qed


end
