(* ===== verification/Forwarder.thy ===== *)
theory Forwarder
  imports IngestHandler
begin

text \<open>
  The reader's ingest spool and its drain: \<open>internal/api/spool_forwarder.go\<close> (\<open>append\<close>,
  \<open>Drain\<close>, \<open>DrainOnce\<close>, \<open>maybeRotateLocked\<close>) and \<open>spool_forwarder_disk.go\<close>, and the
  shutdown of \<open>cmd/bugbarn/reader.go\<close>.

  Request handlers and the drain loop run side by side; only the append and the rotation hold
  the mutex.  The drain is therefore cut into the steps between which an append may fall:
  reading, each send, the write of the cursor, the rotation.  A process may die between any
  two steps; a rotation that dies inside is the rotation failing there, followed by the death.
  Operations on the directory are durable once they have returned.
\<close>

section \<open>Records on disk\<close>

record request_codec =
  rc_enc :: "spooled \<Rightarrow> string"
  rc_dec :: "string \<Rightarrow> spooled option"

definition request_codec_ok :: "request_codec \<Rightarrow> bool" where
  "request_codec_ok K \<longleftrightarrow> (\<forall>r. rc_enc K r \<noteq> [] \<and> NL \<notin> set (rc_enc K r) \<and> last (rc_enc K r) \<noteq> CR
     \<and> rc_dec K (rc_enc K r) = Some r)"

definition maxRequestLine :: nat where "maxRequestLine = 8 * 1024 * 1024"

text \<open>The loop of \<open>readRecords\<close>: the records with the ends of their lines, and the position
  reached.  A line that does not decode is skipped; one that is too long is an error.\<close>

fun scan_requests :: "request_codec \<Rightarrow> int \<Rightarrow> string list \<Rightarrow> unit + (spooled \<times> int) list \<times> int" where
  "scan_requests K pos [] = Inr ([], pos)"
| "scan_requests K pos (l # ls) =
     (if maxRequestLine \<le> length l then Inl ()
      else let line = drop_cr l; pos' = pos + int (length line) + 1
           in case scan_requests K pos' ls of
                Inl e \<Rightarrow> Inl e
              | Inr (rest, end_pos) \<Rightarrow>
                  (if line = [] then Inr (rest, end_pos)
                   else case rc_dec K line of
                     None \<Rightarrow> Inr (rest, end_pos) | Some r \<Rightarrow> Inr ((r, pos') # rest, end_pos)))"

definition readRecords :: "request_codec \<Rightarrow> string option \<Rightarrow> int \<Rightarrow> unit + (spooled \<times> int) list \<times> int" where
  "readRecords K file offset = (case file of
     None \<Rightarrow> Inr ([], offset)
   | Some s \<Rightarrow>
       (let off = (if int (length s) < offset then 0 else offset)
        in scan_requests K off (raw_lines (drop (nat off) s))))"

section \<open>The forwarder\<close>

text \<open>Where the drain loop is: before a read; after a read that found nothing up to an end; or with
  the records still to send, the position acknowledged so far and the one read from.\<close>

datatype drain_pc = AtTop | FoundNothing int | Sending int "(spooled \<times> int) list" int

text \<open>\<open>fw_file\<close> is what the path holds, \<open>fw_open\<close> whether the append handle is open, \<open>fw_cursor\<close>
  the cursor file.  \<open>fw_accepted\<close> are the records answered 202, \<open>fw_done\<close> those the drain handed
  over or gave up, in order.\<close>

record forwarder =
  fw_file :: "string option"
  fw_open :: bool
  fw_cursor :: "int option"
  fw_pending :: int
  fw_pc :: drain_pc
  fw_accepted :: "spooled list"
  fw_done :: "spooled list"

definition readCursor :: "forwarder \<Rightarrow> int" where
  "readCursor s = (case fw_cursor s of None \<Rightarrow> 0 | Some n \<Rightarrow> n)"

definition writeCursor :: "int \<Rightarrow> forwarder \<Rightarrow> forwarder" where
  "writeCursor n s = s\<lparr>fw_cursor := Some n\<rparr>"

definition resetCursor :: "forwarder \<Rightarrow> forwarder" where
  "resetCursor s = s\<lparr>fw_cursor := None\<rparr>"

definition defaultRotateBytes :: int where "defaultRotateBytes = 64 * 1024 * 1024"

text \<open>\<open>os.OpenFile\<close> with \<open>O_CREATE\<close> and \<open>O_APPEND\<close>.\<close>

definition open_spool :: "forwarder \<Rightarrow> forwarder" where
  "open_spool s = s\<lparr>fw_open := True, fw_file := (case fw_file s of None \<Rightarrow> Some [] | Some f \<Rightarrow> Some f)\<rparr>"

text \<open>A new process on the directory: nothing is pending, the drain starts over.\<close>

definition NewSpoolForwarder :: "forwarder \<Rightarrow> forwarder" where
  "NewSpoolForwarder s = (open_spool s)\<lparr>fw_pending := 0, fw_pc := AtTop\<rparr>"

definition request_line :: "request_codec \<Rightarrow> spooled \<Rightarrow> string" where
  "request_line K r = rc_enc K r @ [NL]"

text \<open>The append and whether it succeeded.  The handle of a closed file refuses the write.\<close>

definition fwd_append :: "request_codec \<Rightarrow> write_outcome \<Rightarrow> spooled \<Rightarrow> forwarder \<Rightarrow> bool \<times> forwarder" where
  "fwd_append K outc r s = (case (fw_open s, fw_file s) of
     (True, Some f) \<Rightarrow>
       (case outc of
          Wrote \<Rightarrow> (True, s\<lparr>fw_file := Some (f @ request_line K r), fw_pending := fw_pending s + 1\<rparr>)
        | Torn n \<Rightarrow> (False, s\<lparr>fw_file := Some (f @ take n (request_line K r))\<rparr>)
        | SyncFailed \<Rightarrow> (False, s\<lparr>fw_file := Some (f @ request_line K r)\<rparr>))
   | _ \<Rightarrow> (False, s))"

text \<open>Which step of a rotation fails.\<close>

datatype rotate_fault = NoFault | CloseFails | RemoveFails | ResetFails | OpenFails

definition maybeRotateLocked :: "int \<Rightarrow> rotate_fault \<Rightarrow> int \<Rightarrow> forwarder \<Rightarrow> bool \<times> forwarder" where
  "maybeRotateLocked rotateBytes fault currentEnd s =
     (if rotateBytes \<le> 0 \<or> currentEnd < rotateBytes then (True, s)
      else if \<not> fw_open s then (False, s)
      else let s1 = s\<lparr>fw_open := False\<rparr> in
        if fault = CloseFails \<or> fault = RemoveFails then (False, s1)
        else let s2 = s1\<lparr>fw_file := None\<rparr> in
          if fault = ResetFails then (False, s2)
          else let s3 = resetCursor s2 in
            if fault = OpenFails then (False, s3) else (True, open_spool s3))"

section \<open>The drain\<close>

text \<open>What can happen: a request that is to be spooled, a step of the drain loop, the process dying
  and a new one starting.  \<open>DrainRead\<close> carries whether reading the cursor and reading the records
  work, \<open>DrainAck\<close> whether the cursor is written.\<close>

datatype fwd_event =
    Post spooled write_outcome
  | DrainRead bool bool
  | DrainSend
  | DrainAck bool
  | DrainRotate rotate_fault
  | Restart

definition drain_read :: "request_codec \<Rightarrow> bool \<Rightarrow> bool \<Rightarrow> forwarder \<Rightarrow> forwarder" where
  "drain_read K cursorOk readOk s =
     (if \<not> cursorOk \<or> \<not> readOk then s
      else case readRecords K (fw_file s) (readCursor s) of
        Inl e \<Rightarrow> s
      | Inr (records, newOffset) \<Rightarrow>
          s\<lparr>fw_pc := if records = [] then FoundNothing newOffset
                    else Sending (readCursor s) records (readCursor s)\<rparr>)"

text \<open>One send: a failure ends the pass, which still acknowledges what went before.\<close>

definition drain_send ::
  "(spooled \<Rightarrow> 'w \<Rightarrow> sent \<times> 'w) \<Rightarrow> int \<Rightarrow> spooled \<times> int \<Rightarrow> (spooled \<times> int) list \<Rightarrow> int \<Rightarrow> forwarder \<times> 'w \<Rightarrow> forwarder \<times> 'w" where
  "drain_send send offset rec rest ackedTo sw = (case sw of (s, w) \<Rightarrow>
     (case send (fst rec) w of
        (Again, w') \<Rightarrow> (s\<lparr>fw_pc := Sending offset [] ackedTo\<rparr>, w')
      | (_, w') \<Rightarrow> (s\<lparr>fw_pc := Sending offset rest (snd rec), fw_pending := fw_pending s - 1,
                     fw_done := fw_done s @ [fst rec]\<rparr>, w')))"

definition drain_ack :: "bool \<Rightarrow> int \<Rightarrow> int \<Rightarrow> forwarder \<Rightarrow> forwarder" where
  "drain_ack ok offset ackedTo s =
     (if offset < ackedTo \<and> ok then writeCursor ackedTo s else s)\<lparr>fw_pc := AtTop\<rparr>"

definition fwd_step ::
  "(spooled \<Rightarrow> 'w \<Rightarrow> sent \<times> 'w) \<Rightarrow> request_codec \<Rightarrow> int \<Rightarrow> forwarder \<times> 'w \<Rightarrow> fwd_event \<Rightarrow> forwarder \<times> 'w" where
  "fwd_step send K rotateBytes sw ev = (case sw of (s, w) \<Rightarrow> (case ev of
     Post r outc \<Rightarrow>
       (case fwd_append K outc r s of
          (True, s') \<Rightarrow> (s'\<lparr>fw_accepted := fw_accepted s' @ [r]\<rparr>, w)
        | (False, s') \<Rightarrow> (s', w))
   | DrainRead c r \<Rightarrow> (if fw_pc s = AtTop then (drain_read K c r s, w) else (s, w))
   | DrainSend \<Rightarrow>
       (case fw_pc s of Sending offset (rec # rest) ackedTo \<Rightarrow> drain_send send offset rec rest ackedTo (s, w)
        | _ \<Rightarrow> (s, w))
   | DrainAck ok \<Rightarrow> (case fw_pc s of Sending offset [] ackedTo \<Rightarrow> (drain_ack ok offset ackedTo s, w) | _ \<Rightarrow> (s, w))
   | DrainRotate fault \<Rightarrow>
       (case fw_pc s of
          FoundNothing n \<Rightarrow> ((snd (maybeRotateLocked rotateBytes fault n s))\<lparr>fw_pc := AtTop\<rparr>, w)
        | _ \<Rightarrow> (s, w))
   | Restart \<Rightarrow> (NewSpoolForwarder s, w)))"

definition fwd_run ::
  "(spooled \<Rightarrow> 'w \<Rightarrow> sent \<times> 'w) \<Rightarrow> request_codec \<Rightarrow> int \<Rightarrow> forwarder \<times> 'w \<Rightarrow> fwd_event list \<Rightarrow> forwarder \<times> 'w" where
  "fwd_run send K rotateBytes sw evs = foldl (fwd_step send K rotateBytes) sw evs"

text \<open>The records a read from the cursor would return.\<close>

definition unsent :: "request_codec \<Rightarrow> forwarder \<Rightarrow> spooled list" where
  "unsent K s = (case readRecords K (fw_file s) (readCursor s) of Inl e \<Rightarrow> [] | Inr (rs, e) \<Rightarrow> map fst rs)"

definition fresh_forwarder :: forwarder where
  "fresh_forwarder = \<lparr>fw_file = Some [], fw_open = True, fw_cursor = None, fw_pending = 0, fw_pc = AtTop,
     fw_accepted = [], fw_done = []\<rparr>"

section \<open>Draining at shutdown\<close>

fun send_all ::
  "(spooled \<Rightarrow> 'w \<Rightarrow> sent \<times> 'w) \<Rightarrow> (spooled \<times> int) list \<Rightarrow> int \<Rightarrow> forwarder \<times> 'w \<Rightarrow> int option \<times> forwarder \<times> 'w" where
  "send_all send [] ackedTo sw = (Some ackedTo, sw)"
| "send_all send (rec # rest) ackedTo (s, w) = (case send (fst rec) w of
     (Again, w') \<Rightarrow> (None, s, w')
   | (_, w') \<Rightarrow> send_all send rest (snd rec)
        (s\<lparr>fw_pending := fw_pending s - 1, fw_done := fw_done s @ [fst rec]\<rparr>, w'))"

text \<open>\<open>DrainOnce\<close> with a bound on its passes, which stands for the deadline: \<open>None\<close> is a drain the
  deadline ends, otherwise whether it succeeded.  \<open>faults n\<close> is whether the cursor read, the
  record read and the cursor write of the pass with \<open>n\<close> passes left work.\<close>

fun DrainOnce ::
  "(spooled \<Rightarrow> 'w \<Rightarrow> sent \<times> 'w) \<Rightarrow> request_codec \<Rightarrow> (nat \<Rightarrow> bool \<times> bool \<times> bool) \<Rightarrow> nat \<Rightarrow> forwarder \<times> 'w
     \<Rightarrow> (bool \<times> forwarder \<times> 'w) option" where
  "DrainOnce send K faults 0 sw = None"
| "DrainOnce send K faults (Suc n) (s, w) = (case faults n of (cursorOk, readOk, writeOk) \<Rightarrow>
     if \<not> cursorOk \<or> \<not> readOk then Some (False, s, w)
     else case readRecords K (fw_file s) (readCursor s) of
       Inl e \<Rightarrow> Some (False, s, w)
     | Inr (records, e) \<Rightarrow>
         if records = [] then Some (True, s, w)
         else case send_all send records (readCursor s) (s, w) of
           (None, sw') \<Rightarrow> Some (False, sw')
         | (Some ackedTo, s', w') \<Rightarrow>
             if \<not> writeOk then Some (False, s', w')
             else DrainOnce send K faults n (writeCursor ackedTo s', w'))"

text \<open>The reader drains before it exits only when records are pending, and again after a failure.  The
  bound on the attempts, and on the passes of each, stands for the deadline of 45 seconds: whether
  the drain completed, and the state at the end.\<close>

fun shutdown_attempts ::
  "(spooled \<Rightarrow> 'w \<Rightarrow> sent \<times> 'w) \<Rightarrow> request_codec \<Rightarrow> (nat \<Rightarrow> nat \<Rightarrow> bool \<times> bool \<times> bool) \<Rightarrow> nat \<Rightarrow> nat \<Rightarrow> forwarder \<times> 'w
     \<Rightarrow> (bool \<times> forwarder \<times> 'w) option" where
  "shutdown_attempts send K faults n 0 sw = Some (False, sw)"
| "shutdown_attempts send K faults n (Suc k) sw = (case DrainOnce send K (faults k) n sw of
     None \<Rightarrow> None
   | Some (drained, sw') \<Rightarrow> if drained then Some (True, sw') else shutdown_attempts send K faults n k sw')"

definition shutdown_drain ::
  "(spooled \<Rightarrow> 'w \<Rightarrow> sent \<times> 'w) \<Rightarrow> request_codec \<Rightarrow> (nat \<Rightarrow> nat \<Rightarrow> bool \<times> bool \<times> bool) \<Rightarrow> nat \<Rightarrow> nat \<Rightarrow> forwarder \<times> 'w
     \<Rightarrow> (bool \<times> forwarder \<times> 'w) option" where
  "shutdown_drain send K faults n k sw =
     (if fw_pending (fst sw) \<le> 0 then Some (True, sw) else shutdown_attempts send K faults n k sw)"

section \<open>Files of whole records\<close>

definition request_file :: "request_codec \<Rightarrow> spooled list \<Rightarrow> string" where
  "request_file K rs = concat (map (request_line K) rs)"

definition request_size :: "request_codec \<Rightarrow> spooled list \<Rightarrow> int" where
  "request_size K rs = int (length (request_file K rs))"

lemma request_file_simps [simp]:
  "request_file K [] = []" "request_file K (r # rs) = request_line K r @ request_file K rs"
  "request_file K (rs @ qs) = request_file K rs @ request_file K qs"
  by (simp_all add: request_file_def)

lemma request_size_simps [simp]:
  "request_size K [] = 0" "request_size K (r # rs) = int (length (rc_enc K r)) + 1 + request_size K rs"
  "request_size K (rs @ qs) = request_size K rs + request_size K qs" "0 \<le> request_size K rs"
  by (simp_all add: request_size_def request_line_def)

lemma request_size_pos: "0 < request_size K rs \<longleftrightarrow> rs \<noteq> []"
  by (cases rs) (simp_all add: add_nonneg_pos add.commute add_pos_nonneg)

definition line_fits :: "request_codec \<Rightarrow> spooled \<Rightarrow> bool" where
  "line_fits K r \<longleftrightarrow> length (rc_enc K r) < maxRequestLine"

fun request_ends :: "request_codec \<Rightarrow> int \<Rightarrow> spooled list \<Rightarrow> (spooled \<times> int) list" where
  "request_ends K pos [] = []"
| "request_ends K pos (r # rs) =
     (r, pos + int (length (rc_enc K r)) + 1) # request_ends K (pos + int (length (rc_enc K r)) + 1) rs"

lemma request_ends_facts [simp]:
  "map fst (request_ends K pos rs) = rs" "request_ends K pos rs = [] \<longleftrightarrow> rs = []"
  by (induction rs arbitrary: pos) simp_all

lemma request_lines: "request_codec_ok K \<Longrightarrow> raw_lines (request_file K rs) = map (rc_enc K) rs"
  using raw_lines_concat [of "map (rc_enc K) rs"]
  by (simp add: request_file_def request_line_def [abs_def] request_codec_ok_def list_all_iff comp_def)

lemma request_decoded: "request_codec_ok K \<Longrightarrow> drop_cr (rc_enc K r) = rc_enc K r \<and> rc_enc K r \<noteq> []
    \<and> rc_dec K (rc_enc K r) = Some r"
  by (auto simp: request_codec_ok_def drop_cr_def)

lemma scan_whole:
  "request_codec_ok K \<Longrightarrow> list_all (line_fits K) rs
   \<Longrightarrow> scan_requests K pos (map (rc_enc K) rs) = Inr (request_ends K pos rs, pos + request_size K rs)"
  by (induction rs arbitrary: pos) (auto simp: line_fits_def request_decoded Let_def)

lemma read_at_boundary:
  assumes "request_codec_ok K" "list_all (line_fits K) b"
  shows "readRecords K (Some (request_file K (a @ b))) (request_size K a)
    = Inr (request_ends K (request_size K a) b, request_size K (a @ b))"
proof -
  have "drop (nat (request_size K a)) (request_file K (a @ b)) = request_file K b"
    by (simp add: request_size_def)
  moreover have "\<not> int (length (request_file K (a @ b))) < request_size K a" by (simp add: request_size_def)
  ultimately show ?thesis by (simp add: readRecords_def Let_def request_lines scan_whole assms)
qed

section \<open>Nothing accepted is lost\<close>

text \<open>The view of a forwarder as its acknowledged records \<open>a\<close> and the others \<open>b\<close>.\<close>

definition view :: "request_codec \<Rightarrow> int \<Rightarrow> forwarder \<Rightarrow> spooled list \<Rightarrow> spooled list \<Rightarrow> bool" where
  "view K rb s a b \<longleftrightarrow> list_all (line_fits K) (a @ b) \<and> readCursor s = request_size K a
     \<and> (fw_file s = Some (request_file K (a @ b)) \<or> fw_file s = None \<and> a = [] \<and> b = [] \<and> \<not> fw_open s)
     \<and> (case fw_pc s of
          AtTop \<Rightarrow> mset (fw_accepted s) \<subseteq># mset (fw_done s) + mset b
        | FoundNothing n \<Rightarrow> mset (fw_accepted s) \<subseteq># mset (fw_done s) + mset b \<and> (0 < rb \<and> rb \<le> n \<longrightarrow> b = [])
        | Sending off recs acked \<Rightarrow> off = readCursor s \<and> (\<exists>base sent next later. b = sent @ next @ later
            \<and> fw_done s = base @ sent \<and> mset (fw_accepted s) \<subseteq># mset base + mset b
            \<and> acked = request_size K (a @ sent) \<and> (recs = request_ends K acked next \<or> recs = [])))"

text \<open>The steps under which nothing is lost: writes are whole, a rotation gets to reset the cursor
  once it has removed the file, and nothing is accepted between the read that found an
  oversized file drained and the rotation that follows.\<close>

definition rotation_due :: "int \<Rightarrow> forwarder \<Rightarrow> bool" where
  "rotation_due rb s \<longleftrightarrow> (case fw_pc s of FoundNothing n \<Rightarrow> 0 < rb \<and> rb \<le> n | _ \<Rightarrow> False)"

definition clean_event :: "request_codec \<Rightarrow> int \<Rightarrow> forwarder \<Rightarrow> fwd_event \<Rightarrow> bool" where
  "clean_event K rb s ev = (case ev of
     Post r outc \<Rightarrow> line_fits K r \<and> \<not> rotation_due rb s \<and> (case outc of Torn n \<Rightarrow> False | _ \<Rightarrow> True)
   | DrainRotate fault \<Rightarrow> fault \<noteq> ResetFails
   | _ \<Rightarrow> True)"

fun clean_run ::
  "(spooled \<Rightarrow> 'w \<Rightarrow> sent \<times> 'w) \<Rightarrow> request_codec \<Rightarrow> int \<Rightarrow> forwarder \<times> 'w \<Rightarrow> fwd_event list \<Rightarrow> bool" where
  "clean_run send K rb sw [] \<longleftrightarrow> True"
| "clean_run send K rb sw (ev # evs) \<longleftrightarrow>
     clean_event K rb (fst sw) ev \<and> clean_run send K rb (fwd_step send K rb sw ev) evs"

text \<open>What the file and the cursor hold, whatever the drain does.\<close>

definition stored :: "request_codec \<Rightarrow> forwarder \<Rightarrow> spooled list \<Rightarrow> spooled list \<Rightarrow> bool" where
  "stored K s a b \<longleftrightarrow> list_all (line_fits K) (a @ b) \<and> readCursor s = request_size K a
     \<and> (fw_file s = Some (request_file K (a @ b)) \<or> fw_file s = None \<and> a = [] \<and> b = [] \<and> \<not> fw_open s)"

lemma view_stored: "view K rb s a b \<Longrightarrow> stored K s a b"
  by (simp add: view_def stored_def)

lemma view_top: "fw_pc s = AtTop \<Longrightarrow> view K rb s a b \<longleftrightarrow> stored K s a b \<and> mset (fw_accepted s) \<subseteq># mset (fw_done s) + mset b"
  by (auto simp: view_def stored_def)

lemma view_nothing: "fw_pc s = FoundNothing n \<Longrightarrow> view K rb s a b \<longleftrightarrow> stored K s a b
    \<and> mset (fw_accepted s) \<subseteq># mset (fw_done s) + mset b \<and> (0 < rb \<and> rb \<le> n \<longrightarrow> b = [])"
  by (auto simp: view_def stored_def)

lemma view_sending:
  "fw_pc s = Sending off recs acked \<Longrightarrow> view K rb s a b \<longleftrightarrow> stored K s a b \<and> off = readCursor s
     \<and> (\<exists>base sent next later. b = sent @ next @ later \<and> fw_done s = base @ sent
          \<and> mset (fw_accepted s) \<subseteq># mset base + mset b \<and> acked = request_size K (a @ sent)
          \<and> (recs = request_ends K acked next \<or> recs = []))"
  by (simp add: view_def stored_def)

lemma view_sendingI:
  assumes "fw_pc s = Sending (readCursor s) recs acked" "stored K s a b" "b = sent @ next @ later"
    "fw_done s = base @ sent" "mset (fw_accepted s) \<subseteq># mset base + mset b" "acked = request_size K (a @ sent)"
    "recs = request_ends K acked next \<or> recs = []"
  shows "view K rb s a b"
  unfolding view_sending [OF assms(1)] using assms(2-7) by blast

lemma view_accepted: "view K rb s a b \<Longrightarrow> mset (fw_accepted s) \<subseteq># mset (fw_done s) + mset b"
proof (cases "fw_pc s")
  case (Sending off recs acked)
  assume "view K rb s a b"
  then obtain base sent where "fw_done s = base @ sent" "mset (fw_accepted s) \<subseteq># mset base + mset b"
    by (auto simp: view_sending [OF Sending])
  moreover have "mset base + mset b \<subseteq># mset (base @ sent) + mset b" by simp
  ultimately show ?thesis using subset_mset.order_trans by fastforce
qed (auto simp: view_top view_nothing)

lemma stored_pc [simp]: "stored K (s\<lparr>fw_pc := q\<rparr>) a b = stored K s a b"
  by (simp add: stored_def readCursor_def)

lemma stored_read:
  assumes "request_codec_ok K" "stored K s a b"
  shows "readRecords K (fw_file s) (readCursor s) = Inr (request_ends K (request_size K a) b, request_size K (a @ b))"
proof (cases "fw_file s")
  case None
  then show ?thesis using assms(2) by (auto simp: stored_def readRecords_def)
next
  case (Some f)
  then have "f = request_file K (a @ b)" "list_all (line_fits K) b" "readCursor s = request_size K a"
    using assms(2) by (auto simp: stored_def)
  then show ?thesis using read_at_boundary [OF assms(1), of b a] Some by simp
qed

lemma view_unsent: "request_codec_ok K \<Longrightarrow> view K rb s a b \<Longrightarrow> unsent K s = b"
  using stored_read [OF _ view_stored] by (simp add: unsent_def)

lemma view_read:
  assumes "request_codec_ok K" "view K rb s a b" "fw_pc s = AtTop"
  shows "view K rb (drain_read K c r s) a b"
proof (cases "c \<and> r")
  case True
  note st = view_stored [OF assms(2)]
  show ?thesis
  proof (cases "b = []")
    case True
    then have "drain_read K c r s = s\<lparr>fw_pc := FoundNothing (request_size K (a @ b))\<rparr>"
      using \<open>c \<and> r\<close> stored_read [OF assms(1) st] by (simp add: drain_read_def)
    then show ?thesis using assms(2,3) True by (simp add: view_top view_nothing)
  next
    case False
    let ?s = "s\<lparr>fw_pc := Sending (readCursor s) (request_ends K (request_size K a) b) (readCursor s)\<rparr>"
    have d: "drain_read K c r s = ?s"
      using False \<open>c \<and> r\<close> stored_read [OF assms(1) st] by (simp add: drain_read_def)
    have c: "readCursor ?s = readCursor s" by (simp add: readCursor_def)
    have "view K rb ?s a b"
    proof (rule view_sendingI)
      show "fw_pc ?s = Sending (readCursor ?s) (request_ends K (request_size K a) b) (readCursor s)" by (simp add: c)
      show "stored K ?s a b" using st by simp
      show "b = [] @ b @ []" "fw_done ?s = fw_done s @ []" by simp_all
      show "mset (fw_accepted ?s) \<subseteq># mset (fw_done s) + mset b" using assms(2,3) by (simp add: view_top)
      show "readCursor s = request_size K (a @ [])" using st by (simp add: stored_def)
      then show "request_ends K (request_size K a) b = request_ends K (readCursor s) b
          \<or> request_ends K (request_size K a) b = []" by simp
    qed
    then show ?thesis unfolding d .
  qed
qed (use assms in \<open>auto simp: drain_read_def\<close>)

lemma view_send:
  assumes "view K rb s a b" "fw_pc s = Sending off (rec # rest) acked"
  shows "view K rb (fst (drain_send send off rec rest acked (s, w))) a b"
proof -
  from assms obtain base sent nxt later where v: "off = readCursor s" "b = sent @ nxt @ later" "fw_done s = base @ sent"
    "mset (fw_accepted s) \<subseteq># mset base + mset b" "acked = request_size K (a @ sent)"
    "rec # rest = request_ends K acked nxt" "stored K s a b"
    unfolding view_sending [OF assms(2)] by auto
  obtain r nxt' where n: "nxt = r # nxt'" using v(6) by (cases nxt) auto
  let ?e = "acked + int (length (rc_enc K r)) + 1"
  have rec: "rec = (r, ?e)" "rest = request_ends K ?e nxt'" using v(6) n by simp_all
  show ?thesis
  proof (cases "fst (send (fst rec) w) = Again")
    case True
    let ?s = "s\<lparr>fw_pc := Sending off [] acked\<rparr>"
    have d: "fst (drain_send send off rec rest acked (s, w)) = ?s"
      using True by (cases "send (fst rec) w") (simp add: drain_send_def)
    have "readCursor ?s = off" using v(1) by (simp add: readCursor_def)
    then have "view K rb ?s a b"
      using v by (intro view_sendingI [of ?s "[]" acked K a b sent nxt later base]) simp_all
    then show ?thesis unfolding d .
  next
    case False
    let ?s = "s\<lparr>fw_pc := Sending off rest (snd rec), fw_pending := fw_pending s - 1, fw_done := fw_done s @ [fst rec]\<rparr>"
    have d: "fst (drain_send send off rec rest acked (s, w)) = ?s"
      using False by (cases "send (fst rec) w"; cases "fst (send (fst rec) w)") (simp_all add: drain_send_def)
    have "readCursor ?s = off" "stored K ?s a b" using v(1,7) by (simp_all add: readCursor_def stored_def)
    then have "view K rb ?s a b"
      using v n rec
      by (intro view_sendingI [of ?s rest ?e K a b "sent @ [r]" nxt' later base]) simp_all
    then show ?thesis unfolding d .
  qed
qed

lemma view_ack:
  assumes "view K rb s a b" "fw_pc s = Sending off [] acked"
  shows "\<exists>a' b'. view K rb (drain_ack ok off acked s) a' b'"
proof -
  from assms obtain base sent nxt later where v: "off = readCursor s" "b = sent @ nxt @ later" "fw_done s = base @ sent"
    "mset (fw_accepted s) \<subseteq># mset base + mset b" "acked = request_size K (a @ sent)" "stored K s a b"
    unfolding view_sending [OF assms(2)] by auto
  have off: "off = request_size K a" using v(1,6) by (simp add: stored_def)
  show ?thesis
  proof (cases "off < acked \<and> ok")
    case True
    let ?s = "(writeCursor acked s)\<lparr>fw_pc := AtTop\<rparr>"
    have "stored K ?s (a @ sent) (nxt @ later)"
      using v(2,5,6) True off request_size_pos [of K sent] by (auto simp: stored_def writeCursor_def readCursor_def)
    moreover have "mset (fw_accepted s) \<subseteq># mset (fw_done s) + mset (nxt @ later)"
      using v(2,3,4) by (simp add: add.assoc)
    ultimately have "view K rb ?s (a @ sent) (nxt @ later)" by (simp add: view_top writeCursor_def)
    then show ?thesis using True by (auto simp: drain_ack_def)
  next
    case False
    have "view K rb (s\<lparr>fw_pc := AtTop\<rparr>) a b" using v(6) view_accepted [OF assms(1)] by (simp add: view_top)
    then show ?thesis using False by (auto simp: drain_ack_def)
  qed
qed

lemma view_rotate:
  assumes "view K rb s a b" "fw_pc s = FoundNothing n" "fault \<noteq> ResetFails"
  shows "\<exists>a' b'. view K rb ((snd (maybeRotateLocked rb fault n s))\<lparr>fw_pc := AtTop\<rparr>) a' b'"
proof -
  have v: "stored K s a b" "mset (fw_accepted s) \<subseteq># mset (fw_done s) + mset b" "0 < rb \<and> rb \<le> n \<longrightarrow> b = []"
    using assms(1) by (auto simp: view_nothing [OF assms(2)])
  have same: "view K rb ((s\<lparr>fw_open := f\<rparr>)\<lparr>fw_pc := AtTop\<rparr>) a b" if "f \<longrightarrow> fw_open s" for f
    using that v by (auto simp: view_top stored_def readCursor_def)
  have self: "s\<lparr>fw_open := fw_open s\<rparr> = s" by simp
  consider "rb \<le> 0 \<or> n < rb \<or> \<not> fw_open s" | "0 < rb" "rb \<le> n" "fw_open s" "fault = CloseFails \<or> fault = RemoveFails"
    | "0 < rb" "rb \<le> n" "fw_open s" "fault = OpenFails" | "0 < rb" "rb \<le> n" "fw_open s" "fault = NoFault"
    using assms(3) by (cases fault) force+
  then show ?thesis
  proof cases
    case 1
    then have "snd (maybeRotateLocked rb fault n s) = s" by (auto simp: maybeRotateLocked_def)
    then show ?thesis using same [of "fw_open s"] self by auto
  next
    case 2
    then show ?thesis using same [of False] by (auto simp: maybeRotateLocked_def)
  next
    case 3
    then have "view K rb ((snd (maybeRotateLocked rb fault n s))\<lparr>fw_pc := AtTop\<rparr>) [] []"
      using v by (simp add: maybeRotateLocked_def view_top stored_def resetCursor_def readCursor_def Let_def)
    then show ?thesis by blast
  next
    case 4
    then have "view K rb ((snd (maybeRotateLocked rb fault n s))\<lparr>fw_pc := AtTop\<rparr>) [] []"
      using v by (simp add: maybeRotateLocked_def view_top stored_def resetCursor_def readCursor_def open_spool_def Let_def)
    then show ?thesis by blast
  qed
qed

lemma view_restart:
  assumes "view K rb s a b"
  shows "view K rb (NewSpoolForwarder s) a b"
  using view_stored [OF assms] view_accepted [OF assms]
  by (auto simp: view_top NewSpoolForwarder_def open_spool_def stored_def readCursor_def)

text \<open>A whole write behind the file, accepted or not.\<close>

lemma view_grow:
  assumes "view K rb s a b" "line_fits K r" "\<not> rotation_due rb s" "fw_open s"
    and "fw_file s' = Some (the (fw_file s) @ request_line K r)" "fw_open s'" "fw_cursor s' = fw_cursor s"
    and "fw_pc s' = fw_pc s" "fw_done s' = fw_done s" "fw_accepted s' = fw_accepted s \<or> fw_accepted s' = fw_accepted s @ [r]"
  shows "view K rb s' a (b @ [r])"
proof -
  have cur: "readCursor s' = readCursor s" using assms(7) by (simp add: readCursor_def)
  have st: "stored K s' a (b @ [r])"
    using view_stored [OF assms(1)] assms(2,4,5) cur by (auto simp: stored_def)
  have acc: "mset (fw_accepted s') \<subseteq># M + mset (b @ [r])" if "mset (fw_accepted s) \<subseteq># M + mset b" for M
  proof -
    have "mset (fw_accepted s') \<subseteq># mset (fw_accepted s) + {#r#}" using assms(10) by auto
    also have "\<dots> \<subseteq># M + mset b + {#r#}" using that by simp
    finally show ?thesis by simp
  qed
  show ?thesis
  proof (cases "fw_pc s")
    case AtTop
    then show ?thesis using assms(1,8,9) st acc by (simp add: view_top)
  next
    case (FoundNothing n)
    then have "fw_pc s' = FoundNothing n" using assms(8) by simp
    then show ?thesis using assms(1,3,9) st acc FoundNothing by (auto simp: view_nothing rotation_due_def)
  next
    case (Sending off recs acked)
    then obtain base sent nxt later where v: "off = readCursor s" "b = sent @ nxt @ later" "fw_done s = base @ sent"
      "mset (fw_accepted s) \<subseteq># mset base + mset b" "acked = request_size K (a @ sent)"
      "recs = request_ends K acked nxt \<or> recs = []"
      using assms(1) by (auto simp: view_sending)
    show ?thesis
    proof (rule view_sendingI)
      show "fw_pc s' = Sending (readCursor s') recs acked" using Sending v(1) cur assms(8) by simp
      show "b @ [r] = sent @ nxt @ (later @ [r])" using v(2) by simp
      show "fw_done s' = base @ sent" using v(3) assms(9) by simp
      show "mset (fw_accepted s') \<subseteq># mset base + mset (b @ [r])" by (rule acc [OF v(4)])
    qed (use st v in auto)
  qed
qed

lemma view_post:
  assumes "view K rb s a b" "clean_event K rb s (Post r outc)"
  shows "\<exists>a' b'. view K rb (fst (fwd_step send K rb (s, w) (Post r outc))) a' b'"
proof (cases "fw_open s")
  case False
  then show ?thesis using assms(1) by (auto simp: fwd_step_def fwd_append_def)
next
  case True
  then obtain f where f: "fw_file s = Some f" using view_stored [OF assms(1)] by (auto simp: stored_def)
  have c: "line_fits K r" "\<not> rotation_due rb s" using assms(2) by (auto simp: clean_event_def)
  show ?thesis
  proof (cases outc)
    case Wrote
    let ?s = "s\<lparr>fw_file := Some (f @ request_line K r), fw_pending := fw_pending s + 1, fw_accepted := fw_accepted s @ [r]\<rparr>"
    have "view K rb ?s a (b @ [r])" by (rule view_grow [OF assms(1) c True]) (simp_all add: f True)
    then show ?thesis using Wrote True f by (auto simp: fwd_step_def fwd_append_def)
  next
    case (Torn n)
    then show ?thesis using assms(2) by (simp add: clean_event_def)
  next
    case SyncFailed
    let ?s = "s\<lparr>fw_file := Some (f @ request_line K r)\<rparr>"
    have "view K rb ?s a (b @ [r])" by (rule view_grow [OF assms(1) c True]) (simp_all add: f True)
    then show ?thesis using SyncFailed True f by (auto simp: fwd_step_def fwd_append_def)
  qed
qed

lemma view_step:
  assumes "request_codec_ok K" "view K rb s a b" "clean_event K rb s ev"
  shows "\<exists>a' b'. view K rb (fst (fwd_step send K rb (s, w) ev)) a' b'"
proof (cases ev)
  case (Post r outc)
  show ?thesis unfolding Post by (rule view_post [OF assms(2) assms(3) [unfolded Post]])
next
  case (DrainRead c r)
  then show ?thesis using view_read [OF assms(1,2)] assms(2) by (cases "fw_pc s = AtTop") (auto simp: fwd_step_def)
next
  case DrainSend
  then show ?thesis using view_send [OF assms(2), of _ _ _ _ send w] assms(2)
    by (auto simp: fwd_step_def split: drain_pc.split list.split) blast
next
  case (DrainAck ok)
  then show ?thesis using view_ack [OF assms(2)] assms(2)
    by (auto simp: fwd_step_def split: drain_pc.split list.split)
next
  case (DrainRotate fault)
  then show ?thesis using view_rotate [OF assms(2)] assms(2,3)
    by (auto simp: fwd_step_def clean_event_def split: drain_pc.split)
next
  case Restart
  then show ?thesis using view_restart [OF assms(2)] by (auto simp: fwd_step_def)
qed

lemma view_run:
  "request_codec_ok K \<Longrightarrow> view K rb (fst sw) a b \<Longrightarrow> clean_run send K rb sw evs
   \<Longrightarrow> \<exists>a' b'. view K rb (fst (fwd_run send K rb sw evs)) a' b'"
proof (induction evs arbitrary: sw a b)
  case (Cons ev evs)
  obtain s w where sw: "sw = (s, w)" by fastforce
  obtain a' b' where "view K rb (fst (fwd_step send K rb sw ev)) a' b'"
    using view_step [OF Cons.prems(1), of rb s a b ev send w] Cons.prems(2,3) sw by auto
  then show ?case using Cons.IH [OF Cons.prems(1)] Cons.prems(3) by (fastforce simp: fwd_run_def)
qed (auto simp: fwd_run_def)

lemma view_fresh: "view K rb fresh_forwarder [] []"
  by (simp add: view_top fresh_forwarder_def stored_def readCursor_def)


section \<open>What the provisos exclude\<close>

lemma run_Cons: "fwd_run send K rb sw (ev # evs) = fwd_run send K rb (fwd_step send K rb sw ev) evs"
  by (simp add: fwd_run_def)

lemma run_append: "fwd_run send K rb sw (evs @ evs') = fwd_run send K rb (fwd_run send K rb sw evs) evs'"
  by (simp add: fwd_run_def)

lemma run_Nil [simp]: "fwd_run send K rb sw [] = sw"
  by (simp add: fwd_run_def)

text \<open>The rotation can delete a request that was answered 202: it does not look at the file again
  under the mutex, so a request accepted between the read that found the oversized file drained
  and the rotation is removed with it, unsent.\<close>

theorem rotation_race_loses:
  assumes "fw_pc s = FoundNothing n" "0 < rb" "rb \<le> n" "fw_open s" "fw_file s = Some f"
  shows "\<exists>s'. fwd_run send K rb (s, w) [Post r Wrote, DrainRotate NoFault] = (s', w)
    \<and> fw_accepted s' = fw_accepted s @ [r] \<and> fw_done s' = fw_done s \<and> unsent K s' = [] \<and> fw_file s' = Some []"
proof -
  let ?s1 = "s\<lparr>fw_file := Some (f @ request_line K r), fw_pending := fw_pending s + 1, fw_accepted := fw_accepted s @ [r]\<rparr>"
  have p: "fwd_step send K rb (s, w) (Post r Wrote) = (?s1, w)"
    using assms by (simp add: fwd_step_def fwd_append_def)
  let ?s2 = "(open_spool (resetCursor (?s1\<lparr>fw_open := False, fw_file := None\<rparr>)))\<lparr>fw_pc := AtTop\<rparr>"
  have q: "fwd_step send K rb (?s1, w) (DrainRotate NoFault) = (?s2, w)"
    using assms by (simp add: fwd_step_def maybeRotateLocked_def Let_def resetCursor_def)
  have "unsent K ?s2 = []"
    by (simp add: unsent_def readRecords_def open_spool_def resetCursor_def readCursor_def raw_lines_def)
  then show ?thesis
    by (simp add: run_Cons p q) (simp add: open_spool_def resetCursor_def)
qed

text \<open>Accepting requests one after the other.\<close>

lemma posts_run:
  "fw_open s \<Longrightarrow> fw_file s = Some f \<Longrightarrow> fwd_run send K rb (s, w) (map (\<lambda>r. Post r Wrote) rs)
     = (s\<lparr>fw_file := Some (f @ request_file K rs), fw_pending := fw_pending s + int (length rs),
          fw_accepted := fw_accepted s @ rs\<rparr>, w)"
proof (induction rs arbitrary: s f)
  case (Cons r rs)
  let ?s1 = "s\<lparr>fw_file := Some (f @ request_line K r), fw_pending := fw_pending s + 1, fw_accepted := fw_accepted s @ [r]\<rparr>"
  have p: "fwd_step send K rb (s, w) (Post r Wrote) = (?s1, w)"
    using Cons.prems by (simp add: fwd_step_def fwd_append_def)
  have "fwd_run send K rb (?s1, w) (map (\<lambda>r. Post r Wrote) rs)
     = (?s1\<lparr>fw_file := Some ((f @ request_line K r) @ request_file K rs), fw_pending := fw_pending ?s1 + int (length rs),
          fw_accepted := fw_accepted ?s1 @ rs\<rparr>, w)"
    by (rule Cons.IH) (use Cons.prems in simp_all)
  then show ?case using p by (simp add: run_Cons add.assoc add.commute)
qed simp

text \<open>A cursor that outlives its file deletes requests: when a rotation removes the file and then
  fails to remove the cursor, or the process dies between the two, the next process starts on an
  empty file with the old cursor; requests that fill the file up to that cursor before a read,
  as in an outage of the receiver, are all taken for sent, and the next rotation deletes them.\<close>

theorem stale_cursor_deletes_unsent:
  assumes "request_codec_ok K" "list_all (line_fits K) rs" "request_size K rs = n"
    and "fw_pc s = FoundNothing n" "fw_cursor s = Some n" "0 < rb" "rb \<le> n" "fw_open s"
  shows "\<exists>s'. fwd_run send K rb (s, w)
        ([DrainRotate ResetFails, Restart] @ map (\<lambda>r. Post r Wrote) rs @ [DrainRead True True, DrainRotate NoFault]) = (s', w)
    \<and> fw_accepted s' = fw_accepted s @ rs \<and> fw_done s' = fw_done s \<and> fw_file s' = Some []"
proof -
  let ?s1 = "s\<lparr>fw_open := True, fw_file := Some [], fw_pending := 0, fw_pc := AtTop\<rparr>"
  have a: "fwd_run send K rb (s, w) [DrainRotate ResetFails, Restart] = (?s1, w)"
    using assms by (simp add: run_Cons fwd_step_def maybeRotateLocked_def Let_def NewSpoolForwarder_def open_spool_def)
  let ?s2 = "?s1\<lparr>fw_file := Some (request_file K rs), fw_pending := int (length rs), fw_accepted := fw_accepted s @ rs\<rparr>"
  have b: "fwd_run send K rb (?s1, w) (map (\<lambda>r. Post r Wrote) rs) = (?s2, w)"
    using posts_run [of ?s1 "[]" send K rb w rs] by simp
  have "readRecords K (fw_file ?s2) (readCursor ?s2) = Inr ([], n)"
    using read_at_boundary [OF assms(1), of "[]" rs] assms(3,5) by (simp add: readCursor_def)
  then have c: "fwd_step send K rb (?s2, w) (DrainRead True True) = (?s2\<lparr>fw_pc := FoundNothing n\<rparr>, w)"
    by (simp add: fwd_step_def drain_read_def)
  have d: "fwd_step send K rb (?s2\<lparr>fw_pc := FoundNothing n\<rparr>, w) (DrainRotate NoFault)
      = ((open_spool (resetCursor (?s2\<lparr>fw_open := False, fw_file := None\<rparr>)))\<lparr>fw_pc := AtTop\<rparr>, w)"
    using assms(6,7) by (simp add: fwd_step_def maybeRotateLocked_def Let_def resetCursor_def open_spool_def)
  let ?s3 = "(open_spool (resetCursor (?s2\<lparr>fw_open := False, fw_file := None\<rparr>)))\<lparr>fw_pc := AtTop\<rparr>"
  have e: "fwd_run send K rb (?s2, w) [DrainRead True True, DrainRotate NoFault] = (?s3, w)"
    by (simp only: run_Cons c d run_Nil)
  have "fw_accepted ?s3 = fw_accepted s @ rs \<and> fw_done ?s3 = fw_done s \<and> fw_file ?s3 = Some []"
    by (simp add: open_spool_def resetCursor_def)
  then show ?thesis by (simp only: run_append a b e) blast
qed

text \<open>A handle closed by a failed rotation stays closed: until the process restarts, every request
  is answered 503, although the drain goes on.\<close>

lemma closed_step: "\<not> fw_open s \<Longrightarrow> ev \<noteq> Restart \<Longrightarrow> fwd_step send K rb (s, w) ev = (s', w')
   \<Longrightarrow> \<not> fw_open s' \<and> fw_accepted s' = fw_accepted s"
  by (cases ev) (auto simp: fwd_step_def fwd_append_def drain_read_def drain_send_def drain_ack_def writeCursor_def
      maybeRotateLocked_def split: if_split_asm drain_pc.split_asm list.split_asm prod.split_asm sent.split_asm sum.split_asm)

lemma closed_spool_refuses:
  "\<not> fw_open s \<Longrightarrow> Restart \<notin> set evs \<Longrightarrow> fwd_run send K rb (s, w) evs = (s', w')
   \<Longrightarrow> \<not> fw_open s' \<and> fw_accepted s' = fw_accepted s"
proof (induction evs arbitrary: s w)
  case (Cons ev evs)
  obtain s1 w1 where st: "fwd_step send K rb (s, w) ev = (s1, w1)" by fastforce
  have "\<not> fw_open s1 \<and> fw_accepted s1 = fw_accepted s" using closed_step [OF _ _ st] Cons.prems by auto
  then show ?case using Cons.IH [of s1 w1] Cons.prems st by (simp add: run_Cons)
qed simp

lemma failed_rotation_closes:
  "maybeRotateLocked rb fault n s = (False, s') \<Longrightarrow> \<not> fw_open s'"
  by (auto simp: maybeRotateLocked_def Let_def resetCursor_def split: if_splits)

section \<open>Draining\<close>

definition no_drain_faults :: "nat \<Rightarrow> bool \<times> bool \<times> bool" where "no_drain_faults n = (True, True, True)"

lemma drain_pass:
  "DrainOnce send K no_drain_faults (Suc n) (s, w) = (case readRecords K (fw_file s) (readCursor s) of
       Inl e \<Rightarrow> Some (False, s, w)
     | Inr (records, e) \<Rightarrow>
         if records = [] then Some (True, s, w)
         else case send_all send records (readCursor s) (s, w) of
           (None, sw') \<Rightarrow> Some (False, sw')
         | (Some ackedTo, s', w') \<Rightarrow> DrainOnce send K no_drain_faults n (writeCursor ackedTo s', w'))"
  by (simp add: no_drain_faults_def split: sum.split prod.split option.split)

text \<open>What offering records to the receiver one after the other makes of the world.\<close>

definition offered :: "(spooled \<Rightarrow> 'w \<Rightarrow> sent \<times> 'w) \<Rightarrow> spooled list \<Rightarrow> 'w \<Rightarrow> 'w" where
  "offered send rs w = fold (\<lambda>r w. snd (send r w)) rs w"

lemma offered_simps [simp]: "offered send [] w = w" "offered send (r # rs) w = offered send rs (snd (send r w))"
  by (simp_all add: offered_def)

lemma send_all_working:
  assumes "\<And>r w. fst (send r w) \<noteq> Again"
  shows "send_all send recs acked (s, w) = (Some (if recs = [] then acked else snd (last recs)),
     s\<lparr>fw_pending := fw_pending s - int (length recs), fw_done := fw_done s @ map fst recs\<rparr>, offered send (map fst recs) w)"
proof (induction recs arbitrary: acked s w)
  case (Cons rec recs)
  obtain a w1 where s: "send (fst rec) w = (a, w1)" by fastforce
  have "a \<noteq> Again" using assms [of "fst rec" w] s by simp
  then have "send_all send (rec # recs) acked (s, w) = send_all send recs (snd rec)
      (s\<lparr>fw_pending := fw_pending s - 1, fw_done := fw_done s @ [fst rec]\<rparr>, w1)"
    using s by (cases a) simp_all
  then show ?case using Cons.IH [of "snd rec" "s\<lparr>fw_pending := fw_pending s - 1, fw_done := fw_done s @ [fst rec]\<rparr>" w1] s
    by (auto simp: algebra_simps)
qed simp

lemma last_end: "rs \<noteq> [] \<Longrightarrow> snd (last (request_ends K pos rs)) = pos + request_size K rs"
  by (induction rs arbitrary: pos) auto

lemma drain_once_stored:
  assumes "request_codec_ok K" "stored K s a b" "\<And>r w. fst (send r w) \<noteq> Again"
  shows "\<exists>s'. DrainOnce send K no_drain_faults (Suc (Suc n)) (s, w) = Some (True, s', offered send b w) \<and> stored K s' (a @ b) []
    \<and> fw_done s' = fw_done s @ b \<and> fw_accepted s' = fw_accepted s"
proof (cases "b = []")
  case True
  then show ?thesis using stored_read [OF assms(1,2)] assms(2) by (simp add: drain_pass del: DrainOnce.simps)
next
  case False
  note rd = stored_read [OF assms(1,2)]
  let ?s = "s\<lparr>fw_pending := fw_pending s - int (length (request_ends K (request_size K a) b)), fw_done := fw_done s @ b\<rparr>"
  have sa: "send_all send (request_ends K (request_size K a) b) (readCursor s) (s, w)
      = (Some (request_size K (a @ b)), ?s, offered send b w)"
    using send_all_working [of send "request_ends K (request_size K a) b" "readCursor s" s w, OF assms(3)] False
    by (auto simp: last_end)
  let ?s1 = "writeCursor (request_size K (a @ b)) ?s"
  have st: "stored K ?s1 (a @ b) []" using assms(2) False by (auto simp: stored_def writeCursor_def readCursor_def)
  have "DrainOnce send K no_drain_faults (Suc (Suc n)) (s, w) = DrainOnce send K no_drain_faults (Suc n) (?s1, offered send b w)"
    using rd sa False by (simp add: drain_pass del: DrainOnce.simps)
  also have "\<dots> = Some (True, ?s1, offered send b w)" using stored_read [OF assms(1) st] by (simp add: drain_pass del: DrainOnce.simps)
  finally show ?thesis using st by (auto simp: writeCursor_def)
qed

text \<open>C24: A drain at shutdown ends and delivers: on a spool with a history of whole writes, whole rotations
  and no request between a drained read and its rotation, with a receiver that answers every
  record (taking it or refusing it for good) and a disk that works, \<open>DrainOnce\<close> succeeds on its second
  pass at the latest; it offers the receiver exactly the records behind the cursor, once each and
  in order, leaves nothing behind the cursor, and then every record ever accepted has been taken
  by the receiver or given up.\<close>

theorem drain_once_delivers:
  assumes "request_codec_ok K" "clean_run send0 K rb (fresh_forwarder, w0) evs"
    and "fwd_run send0 K rb (fresh_forwarder, w0) evs = (s, w1)"
    and "\<And>r w. fst (send r w) \<noteq> Again"
  shows "\<exists>s'. DrainOnce send K no_drain_faults (Suc (Suc n)) (s, w) = Some (True, s', offered send (unsent K s) w)
    \<and> fw_done s' = fw_done s @ unsent K s \<and> unsent K s' = []
    \<and> fw_accepted s' = fw_accepted s \<and> mset (fw_accepted s) \<subseteq># mset (fw_done s')"
proof -
  obtain a b where v: "view K rb s a b" using view_run [OF assms(1) _ assms(2)] view_fresh assms(3) by force
  have u: "unsent K s = b" by (rule view_unsent [OF assms(1) v])
  obtain s' where d: "DrainOnce send K no_drain_faults (Suc (Suc n)) (s, w) = Some (True, s', offered send b w)" "stored K s' (a @ b) []"
    "fw_done s' = fw_done s @ b" "fw_accepted s' = fw_accepted s"
    using drain_once_stored [where send = send and w = w and n = n, OF assms(1) view_stored [OF v] assms(4)] by blast
  have "unsent K s' = []" using stored_read [OF assms(1) d(2)] by (simp add: unsent_def)
  moreover have "mset (fw_accepted s) \<subseteq># mset (fw_done s')" using view_accepted [OF v] d(3) by simp
  ultimately show ?thesis using d u by blast
qed

text \<open>The shutdown skips the drain when nothing is pending, which is so after every restart, whatever
  is on disk.\<close>

lemma restart_backlog_not_drained:
  "shutdown_drain send K faults n k (NewSpoolForwarder s, w) = Some (True, NewSpoolForwarder s, w)
   \<and> (fw_file s \<noteq> None \<longrightarrow> unsent K (NewSpoolForwarder s) = unsent K s)"
  by (auto simp: shutdown_drain_def NewSpoolForwarder_def open_spool_def unsent_def readCursor_def)

section \<open>A line without its end\<close>

lemma raw_lines_tail: "request_codec_ok K \<Longrightarrow> raw_lines (request_file K rs @ rc_enc K r) = map (rc_enc K) (rs @ [r])"
proof (induction rs)
  case Nil
  have "NL \<notin> set (rc_enc K r)" "rc_enc K r \<noteq> []" using Nil by (auto simp: request_codec_ok_def)
  moreover have "d \<notin> set l \<Longrightarrow> split_on d l = [l]" for d and l :: string by (induction l) auto
  ultimately show ?case by (simp add: raw_lines_def)
next
  case (Cons q rs)
  have "NL \<notin> set (rc_enc K q)" using Cons.prems by (auto simp: request_codec_ok_def)
  then show ?case using Cons by (simp add: request_line_def raw_lines_line)
qed

lemma read_tail:
  assumes "request_codec_ok K" "list_all (line_fits K) (rs @ [r])"
    and "fw_file s = Some (request_file K rs @ rc_enc K r)" "readCursor s = 0 \<or> readCursor s = request_size K (rs @ [r])"
  shows "readRecords K (fw_file s) (readCursor s) = Inr (request_ends K 0 (rs @ [r]), request_size K (rs @ [r]))"
proof -
  let ?f = "request_file K rs @ rc_enc K r"
  have "int (length ?f) < request_size K (rs @ [r])" by (simp add: request_size_def request_line_def)
  then have "(if int (length ?f) < readCursor s then 0 else readCursor s) = 0" using assms(4) by auto
  then have "readRecords K (fw_file s) (readCursor s) = scan_requests K 0 (raw_lines ?f)"
    unfolding readRecords_def assms(3) by (simp only: option.case Let_def) simp
  then show ?thesis using raw_lines_tail [OF assms(1)] scan_whole [OF assms(1,2), of 0] by simp
qed

text \<open>A line that lost only its newline is never acknowledged: the reader counts the newline that
  is not there, the cursor lands behind the end of the file, and the next read starts over at
  the beginning.  However often the shutdown's drain reads, it does not end, and sends all
  records of the file again each time.\<close>

theorem unterminated_tail_never_drains:
  assumes "request_codec_ok K" "list_all (line_fits K) (rs @ [r])"
    and "fw_file s = Some (request_file K rs)" "fw_open s" "fw_cursor s = None"
    and "\<And>r w. fst (send r w) \<noteq> Again"
  shows "\<exists>s'. fwd_step send K rb (s, w) (Post r (Torn (length (rc_enc K r)))) = (s', w) \<and> DrainOnce send K no_drain_faults n (s', w) = None"
proof -
  let ?s = "s\<lparr>fw_file := Some (request_file K rs @ rc_enc K r)\<rparr>"
  have p: "fwd_step send K rb (s, w) (Post r (Torn (length (rc_enc K r)))) = (?s, w)"
    using assms(3,4) by (simp add: fwd_step_def fwd_append_def request_line_def)
  have "DrainOnce send K no_drain_faults n (q, w) = None"
    if "fw_file q = Some (request_file K rs @ rc_enc K r)" "readCursor q = 0 \<or> readCursor q = request_size K (rs @ [r])" for q w
    using that
  proof (induction n arbitrary: q w)
    case (Suc n)
    let ?recs = "request_ends K 0 (rs @ [r])"
    let ?q = "q\<lparr>fw_pending := fw_pending q - int (length ?recs), fw_done := fw_done q @ (rs @ [r])\<rparr>"
    obtain w1 where sa: "send_all send ?recs (readCursor q) (q, w) = (Some (request_size K (rs @ [r])), ?q, w1)"
      using send_all_working [of send ?recs "readCursor q" q w, OF assms(6)] by (auto simp: last_end)
    let ?q1 = "writeCursor (request_size K (rs @ [r])) ?q"
    have "DrainOnce send K no_drain_faults n (?q1, w1) = None"
      by (rule Suc.IH) (use Suc.prems in \<open>simp_all add: writeCursor_def readCursor_def\<close>)
    then show ?case using read_tail [OF assms(1,2) Suc.prems] sa by (simp add: drain_pass del: DrainOnce.simps)
  qed simp
  then show ?thesis using p assms(5) by (auto simp: readCursor_def)
qed

section \<open>A writer whose spool is full\<close>

text \<open>The request the drain replays, and the writer that answers it.\<close>

definition replayed :: "spooled \<Rightarrow> ingest_request" where
  "replayed rec = \<lparr>iq_method = sp_method rec, iq_path = fst (cut (CHR ''?'') (sp_path rec)), iq_uri = sp_path rec,
     iq_header = header_of (sp_headers rec),
     iq_body = map_option (\<lambda>b. (b, False)) (b64_decode (sp_body64 rec))\<rparr>"

definition writer_events ::
  "handler \<Rightarrow> time \<Rightarrow> string \<Rightarrow> string \<Rightarrow> write_outcome \<Rightarrow> spooled \<Rightarrow> hstate \<Rightarrow> http_answer \<times> hstate" where
  "writer_events h now remote ingestID outc rec s =
     (case IngestServeHTTP h now remote ingestID outc (replayed rec) s of
        ((reply, i), s') \<Rightarrow> (HttpStatus (reply_status reply), s'))"

text \<open>C39: An event a reader has answered 202 is dropped when the writer's spool is full: the writer
  refuses the replay with a 429 that it calls retryable, the drain takes every 4xx for a permanent
  failure, acknowledges the record and goes on; it is on neither disk afterwards.\<close>

theorem full_writer_spool_drops:
  assumes "ingest_gate h now (replayed rec) ws = (Inr (pid, body), ws1)" "hn_validate h body"
    and "0 < hn_maxBytes h" "hn_maxBytes h \<le> int (length (hd_file ws))"
    and "b64_decode (sp_body64 rec) \<noteq> None" "fw_pc s = Sending off ((rec, e) # rest) acked"
  shows "\<exists>s' ws'. writer_events h now remote ingestID outc rec ws = (HttpStatus (id_status DropSpoolFull), ws')
    \<and> id_retryable DropSpoolFull
    \<and> fwd_step (forwardHTTP (writer_events h now remote ingestID outc)) K rb (s, ws) DrainSend = (s', ws')
    \<and> hd_file ws' = hd_file ws \<and> fw_done s' = fw_done s @ [rec] \<and> fw_pc s' = Sending off rest e"
proof -
  have g: "hd_file ws1 = hd_file ws" using gate_pass [OF assms(1)] by simp
  let ?rec = "spool_event ingestID now (iq_header (replayed rec) ''Content-Type'') remote
     (iq_header (replayed rec) projectHeader) body"
  have "AppendBatch (hn_codec h) (hn_maxBytes h) outc [?rec] (hd_file ws1) = (Some ErrFull, hd_file ws1)"
    using assms(3,4) g by (simp add: AppendBatch_def write_bytes_def file_of_def line_of_def)
  then have "IngestServeHTTP h now remote ingestID outc (replayed rec) ws
      = ((DroppedWith DropSpoolFull, []), ws1\<lparr>hd_file := hd_file ws1\<rparr>)"
    using assms(1,2) by (simp add: IngestServeHTTP_def append_single spool_refusal_def)
  then have w: "writer_events h now remote ingestID outc rec ws = (HttpStatus 429, ws1\<lparr>hd_file := hd_file ws1\<rparr>)"
    by (simp add: writer_events_def DropSpoolFull_def)
  then have "forwardHTTP (writer_events h now remote ingestID outc) rec ws = (Discarded, ws1\<lparr>hd_file := hd_file ws1\<rparr>)"
    using assms(5) by (auto simp: forwardHTTP_def)
  then show ?thesis using w assms(6) g by (simp add: fwd_step_def drain_send_def DropSpoolFull_def)
qed

section \<open>A concrete codec\<close>

fun enc_headers :: "(string \<times> string) list \<Rightarrow> string" where
  "enc_headers [] = []"
| "enc_headers ((k, v) # hs) = enc_text k @ enc_text v @ enc_headers hs"

fun dec_headers :: "nat \<Rightarrow> string \<Rightarrow> (string \<times> string) list option" where
  "dec_headers 0 s = (if s = [] then Some [] else None)"
| "dec_headers (Suc n) s = (if s = [] then Some []
     else Option.bind (dec_text s) (\<lambda>(k, s1). Option.bind (dec_text s1) (\<lambda>(v, s2).
       map_option ((#) (k, v)) (dec_headers n s2))))"

lemma enc_text_nonempty [simp]: "enc_text s \<noteq> []" by (cases s) simp_all

lemma dec_enc_headers: "length hs \<le> n \<Longrightarrow> dec_headers n (enc_headers hs) = Some hs"
  by (induction hs arbitrary: n) (case_tac n; force)+

lemma headers_length: "length hs \<le> length (enc_headers hs)"
  by (induction hs) (auto simp: length_enc_text)

definition plain_request_codec :: request_codec where
  "plain_request_codec = \<lparr>rc_enc = (\<lambda>r. enc_int (sp_receivedAt r) @ enc_text (sp_method r) @ enc_text (sp_path r)
       @ enc_text (sp_body64 r) @ enc_headers (sp_headers r)),
     rc_dec = (\<lambda>s0. Option.bind (dec_int s0) (\<lambda>(t, s1). Option.bind (dec_text s1) (\<lambda>(m, s2).
       Option.bind (dec_text s2) (\<lambda>(p, s3). Option.bind (dec_text s3) (\<lambda>(b, s4).
       map_option (\<lambda>hs. \<lparr>sp_receivedAt = t, sp_method = m, sp_path = p, sp_headers = hs, sp_body64 = b\<rparr>)
         (dec_headers (length s4) s4))))))\<rparr>"

lemma headers_chars: "NL \<notin> set (enc_headers hs) \<and> (enc_headers hs \<noteq> [] \<longrightarrow> last (enc_headers hs) = CHR '','')"
proof (induction hs)
  case (Cons h hs)
  then show ?case using enc_text_chars by (cases h) (auto simp: last_append)
qed simp

lemma plain_request_codec_ok: "request_codec_ok plain_request_codec"
  unfolding request_codec_ok_def plain_request_codec_def request_codec.simps
proof (intro allI conjI)
  fix r :: spooled
  let ?e = "enc_int (sp_receivedAt r) @ enc_text (sp_method r) @ enc_text (sp_path r)
       @ enc_text (sp_body64 r) @ enc_headers (sp_headers r)"
  show "?e \<noteq> []" by simp
  show "NL \<notin> set ?e" using enc_text_chars headers_chars by (simp add: enc_int_def)
  have "last ?e = CHR '',''" using enc_text_chars [of "sp_body64 r"] headers_chars [of "sp_headers r"]
    by (cases "enc_headers (sp_headers r) = []") (simp_all add: last_append)
  then show "last ?e \<noteq> CR" by simp
  show "Option.bind (dec_int ?e) (\<lambda>(t, s1). Option.bind (dec_text s1) (\<lambda>(m, s2).
       Option.bind (dec_text s2) (\<lambda>(p, s3). Option.bind (dec_text s3) (\<lambda>(b, s4).
       map_option (\<lambda>hs. \<lparr>sp_receivedAt = t, sp_method = m, sp_path = p, sp_headers = hs, sp_body64 = b\<rparr>)
         (dec_headers (length s4) s4))))) = Some r"
    by (simp add: dec_enc_headers headers_length)
qed

definition small_request :: "string \<Rightarrow> spooled" where
  "small_request p = \<lparr>sp_receivedAt = 0, sp_method = ''POST'', sp_path = p, sp_headers = [(apiKeyHeader, ''k7'')],
     sp_body64 = b64_encode ''{}''\<rparr>"

lemma small_request_fits: "length p < 1000 \<Longrightarrow> line_fits plain_request_codec (small_request p)"
  by (simp add: line_fits_def plain_request_codec_def small_request_def enc_int_def length_enc_text maxRequestLine_def
      itoa_def nat_str.simps apiKeyHeader_def)

definition taking :: "spooled \<Rightarrow> unit \<Rightarrow> sent \<times> unit" where "taking r w = (Handed, ())"


text \<open>A file of one record, sent and acknowledged, found drained with the limit reached.\<close>

definition drained_spool :: forwarder where
  "drained_spool = fresh_forwarder\<lparr>fw_file := Some (request_file plain_request_codec [small_request ''/a'']),
     fw_cursor := Some (request_size plain_request_codec [small_request ''/a'']),
     fw_pc := FoundNothing (request_size plain_request_codec [small_request ''/a'']),
     fw_accepted := [small_request ''/a''], fw_done := [small_request ''/a'']\<rparr>"

lemma one_request: "1 \<le> request_size plain_request_codec [r]"
  by simp

theorem rotation_race_loses_witness:
  "\<exists>s'. fwd_run taking plain_request_codec 1 (drained_spool, ()) [Post (small_request ''/b'') Wrote, DrainRotate NoFault] = (s', ())
    \<and> fw_accepted s' = [small_request ''/a'', small_request ''/b''] \<and> fw_done s' = [small_request ''/a'']
    \<and> unsent plain_request_codec s' = []"
  using rotation_race_loses [of drained_spool "request_size plain_request_codec [small_request ''/a'']" 1
      "request_file plain_request_codec [small_request ''/a'']" taking plain_request_codec "()" "small_request ''/b''"] one_request
  by (fastforce simp: drained_spool_def fresh_forwarder_def simp del: request_size_simps request_file_simps)

theorem stale_cursor_deletes_unsent_witness:
  "\<exists>s'. fwd_run taking plain_request_codec 1 (drained_spool, ())
        ([DrainRotate ResetFails, Restart] @ map (\<lambda>r. Post r Wrote) [small_request ''/a''] @ [DrainRead True True, DrainRotate NoFault]) = (s', ())
    \<and> fw_accepted s' = [small_request ''/a'', small_request ''/a''] \<and> fw_done s' = [small_request ''/a''] \<and> fw_file s' = Some []"
proof -
  have "list_all (line_fits plain_request_codec) [small_request ''/a'']" by (simp add: small_request_fits)
  from stale_cursor_deletes_unsent [OF plain_request_codec_ok this refl, of drained_spool 1 taking "()"] one_request
  show ?thesis
    by (simp add: drained_spool_def fresh_forwarder_def del: request_size_simps request_file_simps)
qed

theorem drain_once_delivers_witness:
  "\<exists>s s'. fwd_run taking plain_request_codec 1 (fresh_forwarder, ()) [Post (small_request ''/a'') Wrote] = (s, ())
     \<and> DrainOnce taking plain_request_codec no_drain_faults 2 (s, ()) = Some (True, s', ())
     \<and> fw_done s' = fw_done s @ unsent plain_request_codec s \<and> unsent plain_request_codec s' = []"
proof -
  let ?evs = "[Post (small_request ''/a'') Wrote]"
  obtain s where r: "fwd_run taking plain_request_codec 1 (fresh_forwarder, ()) ?evs = (s, ())"
    by (cases "fwd_run taking plain_request_codec 1 (fresh_forwarder, ()) ?evs") simp
  have c: "clean_run taking plain_request_codec 1 (fresh_forwarder, ()) ?evs"
    by (simp add: clean_event_def small_request_fits rotation_due_def fresh_forwarder_def)
  have "fst (taking q w) \<noteq> Again" for q w by (simp add: taking_def)
  from drain_once_delivers [where send = taking and w = "()" and n = 0, OF plain_request_codec_ok c r this] r show ?thesis
    unfolding numeral_2_eq_2 by auto
qed

theorem unterminated_tail_never_drains_witness:
  "\<exists>s'. fwd_step taking plain_request_codec 1 (fresh_forwarder, ())
        (Post (small_request ''/a'') (Torn (length (rc_enc plain_request_codec (small_request ''/a''))))) = (s', ())
    \<and> DrainOnce taking plain_request_codec no_drain_faults 1000 (s', ()) = None"
proof -
  have "list_all (line_fits plain_request_codec) ([] @ [small_request ''/a''])" by (simp add: small_request_fits)
  from unterminated_tail_never_drains [OF plain_request_codec_ok this, of fresh_forwarder taking 1 "()" 1000]
  show ?thesis by (simp add: fresh_forwarder_def taking_def)
qed

theorem full_writer_spool_drops_witness:
  "\<exists>s' ws'. fwd_step (forwardHTTP (writer_events (demo_handler\<lparr>hn_maxBytes := 1\<rparr>) 5 [] ''a'' Wrote)) plain_request_codec 1
       (fresh_forwarder\<lparr>fw_pc := Sending 0 [(small_request ''/api/v1/events'', 9)] 0\<rparr>, empty_hstate\<lparr>hd_file := ''x''\<rparr>) DrainSend = (s', ws')
     \<and> hd_file ws' = ''x'' \<and> fw_done s' = [small_request ''/api/v1/events''] \<and> fw_pc s' = Sending 0 [] 9"
proof -
  let ?h = "demo_handler\<lparr>hn_maxBytes := 1\<rparr>" and ?ws = "empty_hstate\<lparr>hd_file := ''x''\<rparr>"
  let ?s = "fresh_forwarder\<lparr>fw_pc := Sending 0 [(small_request ''/api/v1/events'', 9)] 0\<rparr>"
  have g: "ingest_gate ?h 5 (replayed (small_request ''/api/v1/events'')) ?ws = (Inr (9, ''{}''), ?ws)"
    by (simp add: ingest_gate_def demo_handler_def replayed_def small_request_def authorize_def CheckAPIKey_def Let_def
      CheckWithSetupFallback_def resolveKeyErr_def auth_Enabled_def lookupStoredKey_def trim_space_def is_space_def
      observeProjectHeader_def read_body_def header_of_def apiKeyHeader_def projectHeader_def b64_roundtrip del: b64_encode.simps)
  have "hn_validate ?h ''{}''" "0 < hn_maxBytes ?h" "hn_maxBytes ?h \<le> int (length (hd_file ?ws))"
    by (simp_all add: demo_handler_def)
  moreover have "b64_decode (sp_body64 (small_request ''/api/v1/events'')) \<noteq> None"
    by (simp add: small_request_def b64_roundtrip del: b64_encode.simps)
  moreover have "fw_pc ?s = Sending 0 [(small_request ''/api/v1/events'', 9)] 0" by simp
  ultimately show ?thesis
    using full_writer_spool_drops [OF g, of ?s 0 9 "[]" 0 "[]" "''a''" Wrote plain_request_codec 1]
    by (auto simp: fresh_forwarder_def)
qed

end
