(* ===== verification/GoRegexp.thy ===== *)
theory GoRegexp
  imports GoStrings
begin

text \<open>
  Go's \<open>regexp\<close> as the repository uses it: leftmost-first matching of the constructs its
  patterns are built of, and \<open>ReplaceAllString\<close>.  The matcher backtracks with a continuation, in
  the order that Go's semantics prescribes; \<open>lang\<close> is the reference, the set of texts a pattern
  stands for, and the matcher is sound and complete for it.

  A text is its UTF-8 bytes.  The patterns' classes are ASCII or complements of ASCII sets, so a
  class never splits a code point; a case-insensitive class that has an s or a k also matches
  the long s and the Kelvin sign, which are spelled out as their bytes.
\<close>

section \<open>Patterns and matching\<close>

datatype re =
    Eps
  | Cls "char \<Rightarrow> bool"
  | Seq re re
  | Alt re re
  | Star re
  | WordB

type_synonym cursor = "char option \<times> string"

definition is_word :: "char option \<Rightarrow> bool" where
  "is_word p = (case p of None \<Rightarrow> False
   | Some c \<Rightarrow> (let n = (of_char c :: nat) in (48 \<le> n \<and> n \<le> 57) \<or> (65 \<le> n \<and> n \<le> 90) \<or> n = 95 \<or> (97 \<le> n \<and> n \<le> 122)))"

definition first_char :: "string \<Rightarrow> char option" where
  "first_char s = (case s of [] \<Rightarrow> None | c # s' \<Rightarrow> Some c)"

definition boundary :: "char option \<Rightarrow> string \<Rightarrow> bool" where
  "boundary p s \<longleftrightarrow> is_word p \<noteq> is_word (first_char s)"

text \<open>\<open>re_match r st k\<close> tries \<open>r\<close> at a cursor, the character before it and the text behind it, and
  goes on with \<open>k\<close>; the first success in the order of preference counts.  A round of a star that
  consumes nothing is not repeated.\<close>

function (sequential) re_match :: "re \<Rightarrow> cursor \<Rightarrow> (cursor \<Rightarrow> 'a option) \<Rightarrow> 'a option" where
  "re_match Eps st k = k st"
| "re_match (Cls P) (p, []) k = None"
| "re_match (Cls P) (p, c # s) k = (if P c then k (Some c, s) else None)"
| "re_match (Seq a b) st k = re_match a st (\<lambda>st'. re_match b st' k)"
| "re_match (Alt a b) st k = (case re_match a st k of Some x \<Rightarrow> Some x | None \<Rightarrow> re_match b st k)"
| "re_match (Star a) st k =
     (case re_match a st (\<lambda>st'. if length (snd st') < length (snd st) then re_match (Star a) st' k else None) of
        Some x \<Rightarrow> Some x | None \<Rightarrow> k st)"
| "re_match WordB (p, s) k = (if boundary p s then k (p, s) else None)"
  by pat_completeness auto
termination
  by (relation "measures [\<lambda>(r, st, k). size r, \<lambda>(r, st, k). length (snd st)]") auto

text \<open>The leftmost matches, none of them empty, replaced.\<close>

function replace_all :: "re \<Rightarrow> string \<Rightarrow> char option \<Rightarrow> string \<Rightarrow> string" where
  "replace_all r rep p [] = []"
| "replace_all r rep p (c # s) = (case re_match r (p, c # s) Some of
     Some (p', rest) \<Rightarrow>
       (if length rest < length (c # s) then rep @ replace_all r rep p' rest
        else c # replace_all r rep (Some c) s)
   | None \<Rightarrow> c # replace_all r rep (Some c) s)"
  by pat_completeness auto
termination
  by (relation "measure (\<lambda>(r, rep, p, s). length s)") auto

definition ReplaceAllString :: "re \<Rightarrow> string \<Rightarrow> string \<Rightarrow> string" where
  "ReplaceAllString r rep s = replace_all r rep None s"

section \<open>Building patterns\<close>

fun times :: "nat \<Rightarrow> re \<Rightarrow> re" where
  "times 0 r = Eps"
| "times (Suc 0) r = r"
| "times (Suc n) r = Seq r (times n r)"

definition Opt :: "re \<Rightarrow> re" where "Opt r = Alt r Eps"
definition Plus :: "re \<Rightarrow> re" where "Plus r = Seq r (Star r)"
definition at_least :: "nat \<Rightarrow> re \<Rightarrow> re" where "at_least n r = Seq (times n r) (Star r)"

fun seqs :: "re list \<Rightarrow> re" where
  "seqs [] = Eps"
| "seqs [r] = r"
| "seqs (r # rs) = Seq r (seqs rs)"

definition ch :: "char \<Rightarrow> re" where "ch c = Cls (\<lambda>d. d = c)"
definition lit :: "string \<Rightarrow> re" where "lit s = seqs (map ch s)"

definition is_digit :: "char \<Rightarrow> bool" where
  "is_digit c \<longleftrightarrow> (let n = (of_char c :: nat) in 48 \<le> n \<and> n \<le> 57)"

definition is_lower :: "char \<Rightarrow> bool" where
  "is_lower c \<longleftrightarrow> (let n = (of_char c :: nat) in 97 \<le> n \<and> n \<le> 122)"

definition is_alpha :: "char \<Rightarrow> bool" where
  "is_alpha c \<longleftrightarrow> is_lower (lower_char c)"

definition is_hex :: "char \<Rightarrow> bool" where
  "is_hex c \<longleftrightarrow> is_digit c \<or> (let n = (of_char (lower_char c) :: nat) in 97 \<le> n \<and> n \<le> 102)"

text \<open>\<open>\s\<close>: tab, newline, form feed, carriage return, space.\<close>

definition is_blank :: "char \<Rightarrow> bool" where
  "is_blank c \<longleftrightarrow> (let n = (of_char c :: nat) in n = 9 \<or> n = 10 \<or> n = 12 \<or> n = 13 \<or> n = 32)"

text \<open>The two code points outside ASCII that fold to a letter.\<close>

definition long_s :: re where "long_s = Seq (ch (CHR 0xC5)) (ch (CHR 0xBF))"
definition kelvin :: re where "kelvin = seqs [ch (CHR 0xE2), ch (CHR 0x84), ch (CHR 0xAA)]"

definition fold_class :: "(char \<Rightarrow> bool) \<Rightarrow> re" where
  "fold_class P = Alt (Cls P) (Alt long_s kelvin)"

text \<open>A letter in either case.\<close>

definition fold_ch :: "char \<Rightarrow> re" where
  "fold_ch c = (if c = CHR ''s'' then Alt (Cls (\<lambda>d. lower_char d = c)) long_s
     else if c = CHR ''k'' then Alt (Cls (\<lambda>d. lower_char d = c)) kelvin
     else Cls (\<lambda>d. lower_char d = c))"

definition fold_lit :: "string \<Rightarrow> re" where "fold_lit s = seqs (map fold_ch s)"

section \<open>The reference: the texts of a pattern\<close>

fun lang :: "re \<Rightarrow> string set" where
  "lang Eps = {[]}"
| "lang (Cls P) = {[c] | c. P c}"
| "lang (Seq a b) = {u @ v | u v. u \<in> lang a \<and> v \<in> lang b}"
| "lang (Alt a b) = lang a \<union> lang b"
| "lang (Star a) = {concat us | us. set us \<subseteq> lang a}"
| "lang WordB = {[]}"

fun plain :: "re \<Rightarrow> bool" where
  "plain (Seq a b) \<longleftrightarrow> plain a \<and> plain b"
| "plain (Alt a b) \<longleftrightarrow> plain a \<and> plain b"
| "plain (Star a) \<longleftrightarrow> plain a"
| "plain WordB \<longleftrightarrow> False"
| "plain _ \<longleftrightarrow> True"

definition last_char :: "char option \<Rightarrow> string \<Rightarrow> char option" where
  "last_char p u = (if u = [] then p else Some (last u))"

lemma last_char_simps [simp]:
  "last_char p [] = p" "last_char p (c # u) = last_char (Some c) u" "last_char (last_char p u) v = last_char p (u @ v)"
  by (auto simp: last_char_def)

lemma star_Cons: "u \<in> lang a \<Longrightarrow> v \<in> lang (Star a) \<Longrightarrow> u @ v \<in> lang (Star a)"
proof -
  assume u: "u \<in> lang a" and v: "v \<in> lang (Star a)"
  then obtain us where "v = concat us" "set us \<subseteq> lang a" by auto
  then have "u @ v = concat (u # us)" "set (u # us) \<subseteq> lang a" using u by auto
  then show ?thesis unfolding lang.simps by blast
qed

lemma star_split:
  assumes "w \<in> lang (Star a)" "w \<noteq> []"
  shows "\<exists>u v. w = u @ v \<and> u \<noteq> [] \<and> u \<in> lang a \<and> v \<in> lang (Star a)"
proof -
  obtain us where "w = concat us" "set us \<subseteq> lang a" using assms(1) by auto
  then show ?thesis using assms(2)
  proof (induction us arbitrary: w)
    case (Cons x us)
    then show ?case
    proof (cases "x = []")
      case False
      then show ?thesis using Cons.prems by (intro exI [of _ x] exI [of _ "concat us"]) auto
    qed auto
  qed simp
qed

text \<open>Soundness: a match consumes a text of the pattern.\<close>

lemma match_sound:
  "re_match r st k = Some x \<Longrightarrow> \<exists>u v. snd st = u @ v \<and> u \<in> lang r \<and> k (last_char (fst st) u, v) = Some x"
proof (induction r st k arbitrary: x rule: re_match.induct)
  case (1 st k)
  then show ?case by (auto intro: exI [of _ "[]"])
next
  case (3 P p c s k)
  then show ?case by (intro exI [of _ "[c]"] exI [of _ s]) (auto split: if_splits)
next
  case (4 a b st k)
  obtain u v where a: "snd st = u @ v" "u \<in> lang a" "re_match b (last_char (fst st) u, v) k = Some x"
    using 4(2) [of x] 4(3) by auto
  obtain u' v' where b: "v = u' @ v'" "u' \<in> lang b" "k (last_char (fst st) (u @ u'), v') = Some x"
    using 4(1) [OF a(3)] by auto
  show ?case using a b by (intro exI [of _ "u @ u'"] exI [of _ v']) auto
next
  case (5 a b st k)
  then show ?case by (auto split: option.splits)
next
  case (6 a st k)
  let ?k = "\<lambda>st'. if length (snd st') < length (snd st) then re_match (Star a) st' k else None"
  show ?case
  proof (cases "re_match a st ?k")
    case None
    then have "k st = Some x" using 6(3) by simp
    moreover have "[] \<in> lang (Star a)" by (auto intro: exI [of _ "[]"])
    ultimately show ?thesis by (intro exI [of _ "[]"] exI [of _ "snd st"]) simp
  next
    case (Some y)
    then have y: "re_match a st ?k = Some x" using 6(3) by simp
    obtain u v where a: "snd st = u @ v" "u \<in> lang a" "?k (last_char (fst st) u, v) = Some x"
      using 6(2) [OF y] by auto
    then have l: "length v < length (snd st)" "re_match (Star a) (last_char (fst st) u, v) k = Some x"
      by (auto split: if_splits)
    obtain u' v' where b: "v = u' @ v'" "u' \<in> lang (Star a)" "k (last_char (fst st) (u @ u'), v') = Some x"
      using 6(1) [OF _ l(2)] l(1) by auto
    show ?thesis using a(1) b star_Cons [OF a(2) b(2)] by (intro exI [of _ "u @ u'"] exI [of _ v']) auto
  qed
next
  case (7 p s k)
  then show ?case by (auto split: if_splits)
qed auto

text \<open>Completeness: a text of a pattern is found whenever the rest goes on.\<close>

lemma match_complete:
  "plain r \<Longrightarrow> snd st = u @ v \<Longrightarrow> u \<in> lang r \<Longrightarrow> k (last_char (fst st) u, v) \<noteq> None \<Longrightarrow> re_match r st k \<noteq> None"
proof (induction r st k arbitrary: u v rule: re_match.induct)
  case (4 a b st k)
  then obtain u1 u2 where u: "u = u1 @ u2" "u1 \<in> lang a" "u2 \<in> lang b" by auto
  have "re_match b (last_char (fst st) u1, u2 @ v) k \<noteq> None"
    by (rule 4(1)) (use 4(3,4,6) u in auto)
  then show ?case using 4(2) [of u1 "u2 @ v"] 4(3,4) u by auto
next
  case (5 a b st k)
  show ?case
  proof (cases "re_match a st k")
    case None
    then have "u \<in> lang b" using 5(1) [of u v] 5(3-6) by auto
    then show ?thesis using 5(2) [of u v] 5(3-6) None by auto
  qed simp
next
  case (6 a st k)
  let ?k = "\<lambda>st'. if length (snd st') < length (snd st) then re_match (Star a) st' k else None"
  show ?case
  proof (cases "u = []")
    case True
    then show ?thesis using 6(4,6) by (cases st) (auto split: option.splits)
  next
    case False
    obtain u1 u2 where u: "u = u1 @ u2" "u1 \<noteq> []" "u1 \<in> lang a" "u2 \<in> lang (Star a)"
      using star_split [OF 6(5) False] by blast
    have "length (u2 @ v) < length (snd st)" using 6(4) u(1,2) by simp
    moreover have "re_match (Star a) (last_char (fst st) u1, u2 @ v) k \<noteq> None"
      by (rule 6(1)) (use 6(3,4,6) u calculation in auto)
    ultimately have "?k (last_char (fst st) u1, u2 @ v) \<noteq> None" by simp
    then have "re_match a st ?k \<noteq> None" using 6(2) [of u1 "u2 @ v"] 6(3,4) u by auto
    then show ?thesis by (auto split: option.split)
  qed
next
  case (3 P p c s k)
  then show ?case by auto
qed auto

section \<open>Occurrences\<close>

text \<open>A pattern between word boundaries, \<open>\b...\b\<close>, and where it occurs.\<close>

definition bounded :: "re \<Rightarrow> re" where "bounded r = Seq WordB (Seq r WordB)"

definition occurs_at :: "re \<Rightarrow> char option \<Rightarrow> string \<Rightarrow> bool" where
  "occurs_at r p s \<longleftrightarrow> boundary p s \<and> (\<exists>u v. s = u @ v \<and> u \<in> lang r \<and> boundary (last_char p u) v)"

fun occurs :: "re \<Rightarrow> char option \<Rightarrow> string \<Rightarrow> bool" where
  "occurs r p [] \<longleftrightarrow> False"
| "occurs r p (c # s) \<longleftrightarrow> occurs_at r p (c # s) \<or> occurs r (Some c) s"

lemma bounded_match:
  assumes "re_match (bounded r) (p, s) Some = Some (p', v)"
  shows "\<exists>u. s = u @ v \<and> u \<in> lang r \<and> p' = last_char p u \<and> boundary p s \<and> boundary p' v"
proof -
  have b: "boundary p s" "re_match r (p, s) (\<lambda>st'. re_match WordB st' Some) = Some (p', v)"
    using assms by (auto simp: bounded_def split: if_splits)
  obtain u w where u: "s = u @ w" "u \<in> lang r" "re_match WordB (last_char p u, w) Some = Some (p', v)"
    using match_sound [OF b(2)] by auto
  then show ?thesis using b(1) by (auto split: if_splits)
qed

lemma bounded_found:
  assumes "plain r" "occurs_at r p s"
  shows "re_match (bounded r) (p, s) Some \<noteq> None"
proof -
  obtain u v where u: "s = u @ v" "u \<in> lang r" "boundary (last_char p u) v" "boundary p s"
    using assms(2) by (auto simp: occurs_at_def)
  have "re_match r (p, s) (\<lambda>st'. re_match WordB st' Some) \<noteq> None"
    by (rule match_complete [OF assms(1), of _ u v]) (use u in auto)
  then show ?thesis using u(4) by (simp add: bounded_def)
qed

text \<open>A replacement that a scan never merges with the text around it: a word between two brackets,
  which the pattern does not match.\<close>

definition placeholder :: "char \<Rightarrow> string \<Rightarrow> char \<Rightarrow> string" where "placeholder lb mid rb = lb # mid @ [rb]"

definition no_brackets :: "char \<Rightarrow> char \<Rightarrow> re \<Rightarrow> bool" where
  "no_brackets lb rb r \<longleftrightarrow> (\<forall>u \<in> lang r. u \<noteq> [] \<and> lb \<notin> set u \<and> rb \<notin> set u)"

definition factor_free :: "re \<Rightarrow> string \<Rightarrow> bool" where
  "factor_free r mid \<longleftrightarrow> (\<forall>a u b. mid = a @ u @ b \<longrightarrow> u \<notin> lang r)"

lemma occurs_placeholder:
  assumes "no_brackets lb rb r" "factor_free r mid" "occurs r q (placeholder lb mid rb @ out)"
  shows "occurs r (Some rb) out"
proof -
  have start: "\<not> occurs_at r x (c # s)" if "c = lb \<or> c = rb" for x c s
    using that assms(1) by (auto simp: occurs_at_def no_brackets_def Cons_eq_append_conv)
  have inner: "occurs r x (m @ rb # out) \<Longrightarrow> occurs r (Some rb) out" if "mid = a @ m" for a m x
    using that
  proof (induction m arbitrary: a x)
    case Nil
    then show ?case using start by simp
  next
    case (Cons c m)
    have "\<not> occurs_at r x (c # m @ rb # out)"
    proof
      assume "occurs_at r x (c # m @ rb # out)"
      then obtain u v where u: "(c # m) @ rb # out = u @ v" "u \<in> lang r" by (auto simp: occurs_at_def)
      have "rb \<notin> set u" using assms(1) u(2) by (auto simp: no_brackets_def)
      then obtain b where "c # m = u @ b" using u(1) by (auto simp: append_eq_append_conv2 Cons_eq_append_conv)
      then show False using assms(2) u(2) Cons.prems(2) by (auto simp: factor_free_def)
    qed
    then have "occurs r (Some c) (m @ rb # out)" using Cons.prems(1) by simp
    then show ?case using Cons.IH [of "Some c" "a @ [c]"] Cons.prems(2) by simp
  qed
  show ?thesis using inner [of "[]" mid] assms(3) start by (simp add: placeholder_def)
qed

text \<open>An occurrence of \<open>r\<close> at a place where a scan for \<open>R\<close> finds nothing.\<close>

function missed :: "re \<Rightarrow> re \<Rightarrow> char option \<Rightarrow> string \<Rightarrow> bool" where
  "missed r R p [] \<longleftrightarrow> False"
| "missed r R p (c # s) \<longleftrightarrow> (case re_match (bounded R) (p, c # s) Some of
     Some (p', rest) \<Rightarrow>
       (if length rest < length (c # s) then missed r R p' rest
        else occurs_at r p (c # s) \<or> missed r R (Some c) s)
   | None \<Rightarrow> occurs_at r p (c # s) \<or> missed r R (Some c) s)"
  by pat_completeness auto
termination
  by (relation "measure (\<lambda>(r, R, p, s). length s)") auto

lemma occurs_suffix: "occurs r (last_char p u) v \<Longrightarrow> occurs r p (u @ v)"
  by (induction u arbitrary: p) auto

lemma missed_occurs: "missed r R p s \<Longrightarrow> occurs r p s"
proof (induction r R p s rule: missed.induct)
  case (2 r R p c s)
  show ?case
  proof (cases "re_match (bounded R) (p, c # s) Some")
    case (Some x)
    obtain p' rest where x: "x = (p', rest)" by fastforce
    obtain u where u: "c # s = u @ rest" "p' = last_char p u" using bounded_match Some x by blast
    show ?thesis
    proof (cases "length rest < length (c # s)")
      case True
      then have "missed r R p' rest" using 2(4) Some x by simp
      then have "occurs r p' rest" using 2(2) [OF Some x [symmetric]] True by simp
      then show ?thesis using occurs_suffix u by metis
    qed (use 2(3) [OF Some x [symmetric]] 2(4) Some x in auto)
  qed (use 2(1,4) in auto)
qed simp

lemma missed_self:
  assumes "plain r" "no_brackets lb rb r"
  shows "\<not> missed r r p s"
proof (induction s arbitrary: p rule: length_induct)
  case (1 s)
  show ?case
  proof (cases s)
    case (Cons c s')
    show ?thesis
    proof (cases "re_match (bounded r) (p, s) Some")
      case None
      then show ?thesis using 1 bounded_found [OF assms(1), of p s] by (auto simp: Cons)
    next
      case (Some x)
      obtain p' rest where x: "x = (p', rest)" by fastforce
      obtain u where u: "s = u @ rest" "u \<in> lang r" using bounded_match Some x by blast
      then have "length rest < length s" using assms(2) by (auto simp: no_brackets_def)
      then show ?thesis using 1 Some x by (auto simp: Cons)
    qed
  qed simp
qed

text \<open>Between replacements the scan copies the text.\<close>

lemma replace_segment:
  "replace_all (bounded R) (placeholder lb mid rb) p s = u @ v \<Longrightarrow> lb \<notin> set u
   \<Longrightarrow> \<exists>v'. s = u @ v' \<and> v = replace_all (bounded R) (placeholder lb mid rb) (last_char p u) v'"
proof (induction u arbitrary: p s)
  case (Cons d u)
  then obtain c s' where s: "s = c # s'" by (cases s) auto
  show ?case
    using Cons.prems Cons.IH [of "Some c" s'] unfolding s
    by (auto simp: placeholder_def split: option.splits if_splits)
qed auto

lemma replace_boundary:
  "boundary l (replace_all (bounded R) (placeholder lb mid rb) l s) \<Longrightarrow> boundary l s"
proof (cases s)
  case (Cons c s')
  assume b: "boundary l (replace_all (bounded R) (placeholder lb mid rb) l s)"
  show ?thesis
  proof (cases "re_match (bounded R) (l, s) Some")
    case None
    then show ?thesis using b by (simp add: Cons boundary_def first_char_def)
  next
    case (Some x)
    then show ?thesis using bounded_match [of R l s "fst x" "snd x"] by auto
  qed
qed simp

text \<open>An occurrence in the output of a scan was one in its input, at a place the scan did not match.\<close>

lemma replaced_occurs:
  assumes "no_brackets lb rb r" "factor_free r mid"
  shows "occurs r q (replace_all (bounded R) (placeholder lb mid rb) p s)
    \<Longrightarrow> q = p \<or> q = Some rb \<and> boundary p s \<Longrightarrow> missed r R p s"
proof (induction s arbitrary: p q rule: length_induct)
  case (1 s)
  show ?case
  proof (cases s)
    case Nil
    then show ?thesis using 1(2) by simp
  next
    case (Cons c s')
    let ?out = "replace_all (bounded R) (placeholder lb mid rb)"
    have step: "missed r R p s"
      if o: "?out p s = c # ?out (Some c) s'" and m: "missed r R p s \<longleftrightarrow> occurs_at r p s \<or> missed r R (Some c) s'"
    proof (cases "occurs_at r q (c # ?out (Some c) s')")
      case True
      then obtain u v where u: "c # ?out (Some c) s' = u @ v" "u \<in> lang r" "boundary (last_char q u) v"
        "boundary q (c # ?out (Some c) s')" by (auto simp: occurs_at_def)
      have n: "u \<noteq> []" "lb \<notin> set u" using u(2) assms(1) by (auto simp: no_brackets_def)
      obtain v' where v: "s = u @ v'" "v = ?out (last_char p u) v'"
        using replace_segment [of R lb mid rb p s u v] u(1) o n(2) by auto
      have "last_char q u = last_char p u" using n(1) by (simp add: last_char_def)
      then have "boundary (last_char p u) v'" using u(3) v(2) replace_boundary by simp
      moreover have "boundary p s"
      proof (cases "q = p")
        case True
        then show ?thesis using u(4) by (simp add: Cons boundary_def first_char_def)
      qed (use 1(3) in simp)
      ultimately have "occurs_at r p s" using v(1) u(2) by (auto simp: occurs_at_def)
      then show ?thesis using m by simp
    next
      case False
      then have "occurs r (Some c) (?out (Some c) s')" using 1(2) o by simp
      then have "missed r R (Some c) s'" using 1(1) Cons by simp
      then show ?thesis using m by simp
    qed
    show ?thesis
    proof (cases "re_match (bounded R) (p, s) Some")
      case None
      then show ?thesis by (intro step) (simp_all add: Cons)
    next
      case (Some x)
      obtain p' rest where x: "x = (p', rest)" by fastforce
      show ?thesis
      proof (cases "length rest < length s")
        case True
        have o: "?out p s = placeholder lb mid rb @ ?out p' rest" and m: "missed r R p s \<longleftrightarrow> missed r R p' rest"
          using Some x True by (simp_all add: Cons)
        have "occurs r (Some rb) (?out p' rest)" using occurs_placeholder [OF assms] 1(2) o by simp
        moreover have "boundary p' rest" using bounded_match Some x by blast
        ultimately show ?thesis using 1(1) True m by blast
      next
        case False
        then show ?thesis using Some x by (intro step) (simp_all add: Cons)
      qed
    qed
  qed
qed

text \<open>What a replacement removes is gone, and another one does not bring it back.\<close>

theorem replaced_is_gone:
  assumes "plain r" "no_brackets lb rb r" "factor_free r mid"
  shows "\<not> occurs r None (ReplaceAllString (bounded r) (placeholder lb mid rb) s)"
  using replaced_occurs [OF assms(2,3), of None r None s] missed_self [OF assms(1,2)]
  by (auto simp: ReplaceAllString_def)

theorem replaced_stays_gone:
  assumes "no_brackets lb rb r" "factor_free r mid" "\<not> occurs r None s"
  shows "\<not> occurs r None (ReplaceAllString (bounded R) (placeholder lb mid rb) s)"
  using replaced_occurs [OF assms(1,2), of None R None s] missed_occurs assms(3)
  by (auto simp: ReplaceAllString_def)

section \<open>Whether a pattern matches at all\<close>

fun match_from :: "re \<Rightarrow> char option \<Rightarrow> string \<Rightarrow> bool" where
  "match_from r p [] \<longleftrightarrow> re_match r (p, []) Some \<noteq> None"
| "match_from r p (c # s) \<longleftrightarrow> re_match r (p, c # s) Some \<noteq> None \<or> match_from r (Some c) s"

definition MatchString :: "re \<Rightarrow> string \<Rightarrow> bool" where "MatchString r s \<longleftrightarrow> match_from r None s"

lemma bounded_iff:
  assumes "plain r"
  shows "re_match (bounded r) (p, s) Some \<noteq> None \<longleftrightarrow> occurs_at r p s"
proof
  assume "re_match (bounded r) (p, s) Some \<noteq> None"
  then obtain p' v where "re_match (bounded r) (p, s) Some = Some (p', v)" by auto
  then show "occurs_at r p s" using bounded_match [of r p s p' v] by (auto simp: occurs_at_def)
qed (rule bounded_found [OF assms])

lemma MatchString_iff:
  assumes "plain r" "no_brackets lb rb r"
  shows "MatchString (bounded r) s \<longleftrightarrow> occurs r None s"
proof -
  have "match_from (bounded r) p s \<longleftrightarrow> occurs r p s" for p
    by (induction s arbitrary: p)
      (use assms in \<open>auto simp: bounded_iff occurs_at_def no_brackets_def simp del: not_None_eq\<close>)
  then show ?thesis by (simp add: MatchString_def)
qed

section \<open>Redactions\<close>

text \<open>What a redaction relies on, and what it then promises: the pattern never takes a bracket and does
  not match inside the mark; so the pattern is gone from the result, other redactions between the
  same brackets do not bring it back, and redacting again changes nothing.\<close>

lemma replace_absent: "plain r \<Longrightarrow> \<not> occurs r p s \<Longrightarrow> replace_all (bounded r) rep p s = s"
proof (induction s arbitrary: p)
  case (Cons c s)
  then have "re_match (bounded r) (p, c # s) Some = None"
    using bounded_iff [OF Cons.prems(1), of p "c # s"] by (auto simp del: not_None_eq)
  then show ?case using Cons by simp
qed simp

locale redaction =
  fixes lb rb :: char and core :: re and mark :: string
  assumes core_plain: "plain core"
    and core_brackets: "no_brackets lb rb core"
    and core_mark: "factor_free core mark"
begin

lemma gone: "\<not> occurs core None (ReplaceAllString (bounded core) (placeholder lb mark rb) s)"
  by (rule replaced_is_gone [OF core_plain core_brackets core_mark])

lemma stays_gone:
  "factor_free core other \<Longrightarrow> \<not> occurs core None s
   \<Longrightarrow> \<not> occurs core None (ReplaceAllString (bounded R) (placeholder lb other rb) s)"
  by (rule replaced_stays_gone [OF core_brackets])

lemma absent_unchanged: "\<not> occurs core None s \<Longrightarrow> ReplaceAllString (bounded core) rep s = s"
  unfolding ReplaceAllString_def by (rule replace_absent [OF core_plain])

lemma again_unchanged:
  "ReplaceAllString (bounded core) rep (ReplaceAllString (bounded core) (placeholder lb mark rb) s)
   = ReplaceAllString (bounded core) (placeholder lb mark rb) s"
  by (rule absent_unchanged [OF gone])

lemma matches_iff: "MatchString (bounded core) s \<longleftrightarrow> occurs core None s"
  by (rule MatchString_iff [OF core_plain core_brackets])

end

end
