(* ===== verification/Privacy.thy ===== *)
theory Privacy
  imports GoRegexp EventData
begin

text \<open>
  The privacy scrubber, \<open>internal/privacy/scrub.go\<close>: its four patterns, the scrubbing of a
  string, of a value, and the keys whose values are dropped.
\<close>

section \<open>The patterns\<close>

definition digits_1_3 :: re where
  "digits_1_3 = Seq (Cls is_digit) (Opt (Seq (Cls is_digit) (Opt (Cls is_digit))))"

definition ipv4_core :: re where
  "ipv4_core = Seq (times 3 (Seq digits_1_3 (ch (CHR ''.'')))) digits_1_3"

definition is_email_user :: "char \<Rightarrow> bool" where
  "is_email_user c \<longleftrightarrow> is_alpha c \<or> is_digit c \<or> c \<in> set ''._%+-''"

definition is_email_host :: "char \<Rightarrow> bool" where
  "is_email_host c \<longleftrightarrow> is_alpha c \<or> is_digit c \<or> c \<in> set ''.-''"

definition email_core :: re where
  "email_core = Seq (Plus (fold_class is_email_user)) (Seq (ch (CHR ''@''))
     (Seq (Plus (fold_class is_email_host)) (Seq (ch (CHR ''.'')) (at_least 2 (fold_class is_alpha)))))"

definition dash :: re where "dash = ch (CHR ''-'')"

definition uuid_core :: re where
  "uuid_core = Seq (times 8 (Cls is_hex)) (Seq dash (Seq (times 4 (Cls is_hex)) (Seq dash
     (Seq (Cls (\<lambda>c. c \<in> set ''12345'')) (Seq (times 3 (Cls is_hex)) (Seq dash
     (Seq (Cls (\<lambda>c. lower_char c \<in> set ''89ab'')) (Seq (times 3 (Cls is_hex)) (Seq dash (times 12 (Cls is_hex)))))))))))"

definition is_token_char :: "char \<Rightarrow> bool" where
  "is_token_char c \<longleftrightarrow> is_alpha c \<or> is_digit c \<or> c \<in> set ''._-''"

definition token_word :: re where
  "token_word = Alt (fold_lit ''bearer'') (Alt (fold_lit ''token'') (Alt (fold_lit ''apikey'')
     (Alt (fold_lit ''api_key'') (fold_lit ''secret''))))"

definition token_core :: re where
  "token_core = Seq token_word (Seq (Opt (ch (CHR ''=''))) (Seq (Plus (Cls (\<lambda>c. c \<in> set '' :'')))
     (at_least 12 (fold_class is_token_char))))"

definition emailPattern :: re where "emailPattern = bounded email_core"
definition ipv4Pattern :: re where "ipv4Pattern = bounded ipv4_core"
definition uuidPattern :: re where "uuidPattern = bounded uuid_core"
definition tokenPattern :: re where "tokenPattern = bounded token_core"

section \<open>Scrubbing\<close>

definition redacted :: "string \<Rightarrow> string" where "redacted what = placeholder (CHR ''['') what (CHR '']'')"

text \<open>\<open>keepIPs\<close> is the option of the in-process producers.\<close>

definition scrubString :: "bool \<Rightarrow> string \<Rightarrow> string" where
  "scrubString keepIPs value =
     (let v1 = ReplaceAllString emailPattern (redacted ''redacted-email'') value;
          v2 = (if keepIPs then v1 else ReplaceAllString ipv4Pattern (redacted ''redacted-ip'') v1);
          v3 = ReplaceAllString uuidPattern (redacted ''redacted-id'') v2
      in ReplaceAllString tokenPattern (redacted ''redacted-secret'') v3)"

definition sensitiveKeyParts :: "string list" where
  "sensitiveKeyParts = [''authorization'', ''cookie'', ''password'', ''passwd'', ''secret'', ''token'', ''api_key'',
     ''apikey'', ''session'', ''csrf'', ''email'']"

text \<open>\<open>strings.ToLower\<close> as far as it yields ASCII: two code points outside ASCII, the Kelvin sign and
  the dotted capital I, become a letter of it.\<close>

fun lower_key :: "string \<Rightarrow> string" where
  "lower_key [] = []"
| "lower_key (c # s) =
     (if has_prefix (c # s) [CHR 0xE2, CHR 0x84, CHR 0xAA] then CHR ''k'' # lower_key (drop 2 s)
      else if has_prefix (c # s) [CHR 0xC4, CHR 0xB0] then CHR ''i'' # lower_key (drop 1 s)
      else lower_char c # lower_key s)"

definition isSensitiveKey :: "string \<Rightarrow> bool" where
  "isSensitiveKey key \<longleftrightarrow>
     list_ex (contains_sub (lower_key (map (\<lambda>c. if c = CHR ''-'' then CHR ''_'' else c) key))) sensitiveKeyParts"

fun ScrubWith :: "bool \<Rightarrow> jval \<Rightarrow> jval" where
  "ScrubWith keepIPs (JObj kvs) =
     JObj (map (\<lambda>(k, v). (k, if isSensitiveKey k then JStr ''[redacted]'' else ScrubWith keepIPs v)) kvs)"
| "ScrubWith keepIPs (JArr vs) = JArr (map (ScrubWith keepIPs) vs)"
| "ScrubWith keepIPs (JStr s) = JStr (scrubString keepIPs s)"
| "ScrubWith keepIPs v = v"

definition Scrub :: "jval \<Rightarrow> jval" where "Scrub v = ScrubWith False v"

section \<open>What the patterns can match\<close>

fun avoids :: "char \<Rightarrow> re \<Rightarrow> bool" where
  "avoids c (Cls P) \<longleftrightarrow> \<not> P c"
| "avoids c (Seq a b) \<longleftrightarrow> avoids c a \<and> avoids c b"
| "avoids c (Alt a b) \<longleftrightarrow> avoids c a \<and> avoids c b"
| "avoids c (Star a) \<longleftrightarrow> avoids c a"
| "avoids c _ \<longleftrightarrow> True"

lemma avoids_lang: "avoids c r \<Longrightarrow> u \<in> lang r \<Longrightarrow> c \<notin> set u"
  by (induction r arbitrary: u) (auto 0 3)

fun nullable :: "re \<Rightarrow> bool" where
  "nullable (Cls P) \<longleftrightarrow> False"
| "nullable (Seq a b) \<longleftrightarrow> nullable a \<and> nullable b"
| "nullable (Alt a b) \<longleftrightarrow> nullable a \<or> nullable b"
| "nullable _ \<longleftrightarrow> True"

lemma nullable_lang: "[] \<in> lang r \<longleftrightarrow> nullable r"
  by (induction r) (auto intro: exI [of _ "[]"])

lemma times_facts [simp]:
  "plain (times n r) \<longleftrightarrow> n = 0 \<or> plain r" "nullable (times n r) \<longleftrightarrow> n = 0 \<or> nullable r"
  "avoids c (times n r) \<longleftrightarrow> n = 0 \<or> avoids c r"
  by (induction n r rule: times.induct) auto

lemma no_bracketsI: "\<not> nullable r \<Longrightarrow> avoids lb r \<Longrightarrow> avoids rb r \<Longrightarrow> no_brackets lb rb r"
  using nullable_lang avoids_lang by (auto simp: no_brackets_def)

definition needs :: "(char \<Rightarrow> bool) \<Rightarrow> re \<Rightarrow> bool" where
  "needs P r \<longleftrightarrow> (\<forall>u \<in> lang r. \<exists>c \<in> set u. P c)"

lemma needs_rules:
  "(\<And>c. Q c \<Longrightarrow> P c) \<Longrightarrow> needs P (Cls Q)" "needs P a \<Longrightarrow> needs P (Seq a b)" "needs P b \<Longrightarrow> needs P (Seq a b)"
  by (fastforce simp: needs_def)+

lemma factor_freeI: "needs P r \<Longrightarrow> list_all (\<lambda>c. \<not> P c) mid \<Longrightarrow> factor_free r mid"
  by (force simp: factor_free_def needs_def list_all_iff)

lemmas pattern_defs = digits_1_3_def ipv4_core_def email_core_def dash_def uuid_core_def token_word_def token_core_def
  Opt_def Plus_def at_least_def ch_def fold_class_def long_s_def kelvin_def fold_lit_def fold_ch_def

lemmas class_defs = is_digit_def is_lower_def is_alpha_def is_hex_def is_email_user_def is_email_host_def is_token_char_def
  lower_char_def

lemma cores_plain: "plain email_core" "plain ipv4_core" "plain uuid_core" "plain token_core"
  by (simp_all add: pattern_defs)

lemma cores_bracket_free:
  "no_brackets (CHR ''['') (CHR '']'') email_core" "no_brackets (CHR ''['') (CHR '']'') ipv4_core"
  "no_brackets (CHR ''['') (CHR '']'') uuid_core" "no_brackets (CHR ''['') (CHR '']'') token_core"
  by (rule no_bracketsI; simp add: pattern_defs class_defs)+

lemma cores_need:
  "needs (\<lambda>c. c = CHR ''@'') email_core" "needs (\<lambda>c. c = CHR ''.'') ipv4_core"
  "needs (\<lambda>c. c \<in> set ''12345'') uuid_core" "needs (\<lambda>c. c \<in> set '' :'') token_core"
proof -
  show "needs (\<lambda>c. c = CHR ''@'') email_core"
    unfolding email_core_def ch_def by (rule needs_rules(3), rule needs_rules(2), rule needs_rules(1))
  show "needs (\<lambda>c. c = CHR ''.'') ipv4_core"
    unfolding ipv4_core_def ch_def eval_nat_numeral times.simps
    by (rule needs_rules(2), rule needs_rules(2), rule needs_rules(3), rule needs_rules(1))
  show "needs (\<lambda>c. c \<in> set ''12345'') uuid_core"
    unfolding uuid_core_def
    by (rule needs_rules(3), rule needs_rules(3), rule needs_rules(3), rule needs_rules(3), rule needs_rules(2), rule needs_rules(1))
  show "needs (\<lambda>c. c \<in> set '' :'') token_core"
    unfolding token_core_def Plus_def
    by (rule needs_rules(3), rule needs_rules(3), rule needs_rules(2), rule needs_rules(2), rule needs_rules(1))
qed

lemma marks_free:
  "r \<in> {email_core, ipv4_core, uuid_core, token_core} \<Longrightarrow> m \<in> {''redacted-email'', ''redacted-ip'', ''redacted-id'', ''redacted-secret''}
   \<Longrightarrow> factor_free r m"
  using cores_need by (auto intro!: factor_freeI [OF cores_need(1)] factor_freeI [OF cores_need(2)]
      factor_freeI [OF cores_need(3)] factor_freeI [OF cores_need(4)])

interpretation emails: redaction "CHR ''[''" "CHR '']''" email_core "''redacted-email''"
  using cores_plain cores_bracket_free marks_free by unfold_locales simp_all

interpretation addresses: redaction "CHR ''[''" "CHR '']''" ipv4_core "''redacted-ip''"
  using cores_plain cores_bracket_free marks_free by unfold_locales simp_all

interpretation uuids: redaction "CHR ''[''" "CHR '']''" uuid_core "''redacted-id''"
  using cores_plain cores_bracket_free marks_free by unfold_locales simp_all

interpretation tokens: redaction "CHR ''[''" "CHR '']''" token_core "''redacted-secret''"
  using cores_plain cores_bracket_free marks_free by unfold_locales simp_all

section \<open>Scrubbed text\<close>

text \<open>A text without anything the patterns match.\<close>

definition clean_text :: "bool \<Rightarrow> string \<Rightarrow> bool" where
  "clean_text keepIPs s \<longleftrightarrow> \<not> MatchString emailPattern s \<and> (keepIPs \<or> \<not> MatchString ipv4Pattern s)
     \<and> \<not> MatchString uuidPattern s \<and> \<not> MatchString tokenPattern s"

lemma pattern_matches:
  "MatchString emailPattern s \<longleftrightarrow> occurs email_core None s" "MatchString ipv4Pattern s \<longleftrightarrow> occurs ipv4_core None s"
  "MatchString uuidPattern s \<longleftrightarrow> occurs uuid_core None s" "MatchString tokenPattern s \<longleftrightarrow> occurs token_core None s"
  unfolding emailPattern_def ipv4Pattern_def uuidPattern_def tokenPattern_def
  by (rule emails.matches_iff addresses.matches_iff uuids.matches_iff tokens.matches_iff)+

text \<open>Nothing the scrubber looks for is left in what it returns, wherever its replacements put the
  pieces together.\<close>

lemma scrub_text_clean: "clean_text keepIPs (scrubString keepIPs value)"
proof -
  let ?R = "\<lambda>P m. ReplaceAllString P (redacted m)"
  let ?v1 = "?R emailPattern ''redacted-email'' value"
  let ?v2 = "if keepIPs then ?v1 else ?R ipv4Pattern ''redacted-ip'' ?v1"
  let ?v3 = "?R uuidPattern ''redacted-id'' ?v2" and ?v4 = "scrubString keepIPs value"
  note defs = redacted_def emailPattern_def ipv4Pattern_def uuidPattern_def tokenPattern_def
  have v4: "?v4 = ?R tokenPattern ''redacted-secret'' ?v3" by (simp add: scrubString_def Let_def)
  have "\<not> occurs email_core None ?v1" unfolding defs by (rule emails.gone)
  then have "\<not> occurs email_core None ?v2" unfolding defs using emails.stays_gone [OF marks_free] by simp
  then have "\<not> occurs email_core None ?v3" unfolding defs using emails.stays_gone [OF marks_free] by simp
  then have e: "\<not> occurs email_core None ?v4" unfolding v4 defs using emails.stays_gone [OF marks_free] by simp
  have "keepIPs \<or> \<not> occurs ipv4_core None ?v2" unfolding defs using addresses.gone by simp
  then have "keepIPs \<or> \<not> occurs ipv4_core None ?v3" unfolding defs using addresses.stays_gone [OF marks_free] by auto
  then have i: "keepIPs \<or> \<not> occurs ipv4_core None ?v4" unfolding v4 defs using addresses.stays_gone [OF marks_free] by auto
  have "\<not> occurs uuid_core None ?v3" unfolding defs by (rule uuids.gone)
  then have u: "\<not> occurs uuid_core None ?v4" unfolding v4 defs using uuids.stays_gone [OF marks_free] by simp
  have "\<not> occurs token_core None ?v4" unfolding v4 defs by (rule tokens.gone)
  with e i u show ?thesis by (simp add: clean_text_def pattern_matches)
qed

text \<open>Every string value is clean, and behind a sensitive key is only the mark.  This says nothing of
  the object keys, which the code copies, nor of \<open>JOther\<close>, which no JSON text decodes to.\<close>

fun clean_value :: "bool \<Rightarrow> jval \<Rightarrow> bool" where
  "clean_value keepIPs (JObj kvs) \<longleftrightarrow>
     (\<forall>kv \<in> set kvs. if isSensitiveKey (fst kv) then snd kv = JStr ''[redacted]'' else clean_value keepIPs (snd kv))"
| "clean_value keepIPs (JArr vs) \<longleftrightarrow> (\<forall>v \<in> set vs. clean_value keepIPs v)"
| "clean_value keepIPs (JStr s) \<longleftrightarrow> clean_text keepIPs s"
| "clean_value keepIPs v \<longleftrightarrow> True"

lemma scrub_clean: "clean_value keepIPs (ScrubWith keepIPs v)"
  by (induction keepIPs v rule: ScrubWith.induct) (auto simp: scrub_text_clean)

text \<open>A clean text has nothing to replace.\<close>

lemma clean_text_fixed:
  assumes "clean_text keepIPs s"
  shows "scrubString keepIPs s = s"
proof -
  have o: "\<not> occurs email_core None s" "keepIPs \<or> \<not> occurs ipv4_core None s" "\<not> occurs uuid_core None s" "\<not> occurs token_core None s"
    using assms unfolding clean_text_def pattern_matches by blast+
  have "keepIPs \<or> ReplaceAllString (bounded ipv4_core) rep s = s" for rep using o(2) addresses.absent_unchanged by blast
  then show ?thesis
    unfolding scrubString_def Let_def emailPattern_def ipv4Pattern_def uuidPattern_def tokenPattern_def
      emails.absent_unchanged [OF o(1)]
    using uuids.absent_unchanged [OF o(3)] tokens.absent_unchanged [OF o(4)] by (cases keepIPs) simp_all
qed

lemma clean_value_fixed: "clean_value keepIPs v \<Longrightarrow> ScrubWith keepIPs v = v"
proof (induction keepIPs v rule: ScrubWith.induct)
  case (1 keepIPs kvs)
  have "(case kv of (k, v) \<Rightarrow> (k, if isSensitiveKey k then JStr ''[redacted]'' else ScrubWith keepIPs v)) = kv"
    if kv: "kv \<in> set kvs" for kv
  proof (cases "isSensitiveKey (fst kv)")
    case True
    then show ?thesis using 1(2) kv by (cases kv) fastforce
  next
    case False
    then have "clean_value keepIPs (snd kv)" using 1(2) kv by (auto simp: split: if_splits)
    then show ?thesis using 1(1) [of kv "fst kv" "snd kv"] kv False by (cases kv) simp
  qed
  then show ?case unfolding ScrubWith.simps by (simp only: map_idI)
qed (auto simp: clean_text_fixed map_idI)

text \<open>The object keys that are left visible, at every depth.\<close>

fun object_keys :: "jval \<Rightarrow> string list" where
  "object_keys (JObj kvs) = concat (map (\<lambda>(k, v). k # (if isSensitiveKey k then [] else object_keys v)) kvs)"
| "object_keys (JArr vs) = concat (map object_keys vs)"
| "object_keys _ = []"

lemma scrub_keeps_keys: "object_keys (ScrubWith keepIPs v) = object_keys v"
proof (induction keepIPs v rule: ScrubWith.induct)
  case (1 keepIPs kvs)
  have "(\<lambda>(k, v). k # (if isSensitiveKey k then [] else object_keys v))
      (case kv of (k, v) \<Rightarrow> (k, if isSensitiveKey k then JStr ''[redacted]'' else ScrubWith keepIPs v))
    = (\<lambda>(k, v). k # (if isSensitiveKey k then [] else object_keys v)) kv" if "kv \<in> set kvs" for kv
    using 1 [of kv "fst kv" "snd kv"] that by (cases kv) simp
  then show ?case unfolding ScrubWith.simps object_keys.simps map_map comp_def by (metis (no_types, lifting) map_eq_conv)
next
  case (2 keepIPs vs)
  then have "map (object_keys \<circ> ScrubWith keepIPs) vs = map object_keys vs" by simp
  then show ?case by (simp only: ScrubWith.simps object_keys.simps map_map)
qed simp_all


text \<open>An address is one.\<close>

lemma lang_seq: "u \<in> lang a \<Longrightarrow> v \<in> lang b \<Longrightarrow> u @ v \<in> lang (Seq a b)"
  by auto

lemma lang_plus: "u \<in> lang r \<Longrightarrow> u \<in> lang (Plus r)"
  using lang_seq [of u r "[]" "Star r"] by (simp add: Plus_def nullable_lang del: lang.simps)

lemma lang_class: "P c \<Longrightarrow> [c] \<in> lang (fold_class P)"
  by (simp add: fold_class_def)

lemma lang_ch: "[c] \<in> lang (ch c)"
  by (simp add: ch_def)

lemma lang_two:
  assumes "[c] \<in> lang r" "[d] \<in> lang r"
  shows "[c, d] \<in> lang (at_least 2 r)"
proof -
  have "[c, d] \<in> lang (times 2 r)" using lang_seq [OF assms] by (simp add: eval_nat_numeral del: lang.simps)
  from lang_seq [OF this, of "[]" "Star r"] show ?thesis by (simp add: at_least_def nullable_lang del: lang.simps)
qed

lemma email_found: "MatchString emailPattern ''a@b.co''"
proof -
  have c: "is_email_user CHR ''a''" "is_email_host CHR ''b''" "is_alpha CHR ''c''" "is_alpha CHR ''o''"
    by (simp_all add: is_email_user_def is_email_host_def is_alpha_def is_lower_def lower_char_def)
  have "[CHR ''a''] @ [CHR ''@''] @ [CHR ''b''] @ [CHR ''.''] @ [CHR ''c'', CHR ''o''] \<in> lang email_core"
    unfolding email_core_def
    by (intro lang_seq lang_plus lang_two lang_class lang_ch c)
  then have "''a@b.co'' \<in> lang email_core" by simp
  moreover have "boundary None ''a@b.co''" "boundary (last_char None ''a@b.co'') []"
    by (simp_all add: boundary_def first_char_def is_word_def last_char_def)
  ultimately have "occurs_at email_core None ''a@b.co''"
    unfolding occurs_at_def by (metis append_Nil2)
  then have "occurs email_core None ''a@b.co''" by (simp only: occurs.simps simp_thms)
  then show ?thesis by (simp only: pattern_matches)
qed

text \<open>An address used as a key, as in a map of counts by user, is stored with the event.\<close>

lemma address_as_key_is_kept:
  "ScrubWith keepIPs (JObj [(''a@b.co'', JNum ''1'' ''1'')]) = JObj [(''a@b.co'', JNum ''1'' ''1'')] \<and> MatchString emailPattern ''a@b.co''"
proof -
  have "\<not> isSensitiveKey ''a@b.co''" by code_simp
  then show ?thesis using email_found by simp
qed

end
