(* ===== verification/Normalize.thy ===== *)
theory Normalize
  imports Privacy
begin

text \<open>
  From a request body to the canonical event: \<open>internal/normalize/normalize.go\<close>.

  The JSON parser, the timestamp parser, the conversion of a JSON number to an int and the JSON
  text of the exception are fields of \<open>norm_env\<close>.  The event is the record of \<open>EventData\<close>
  extended by what only the stored JSON shows: the ingest id, the rest of the user, the stack
  frames and the breadcrumbs.
\<close>

section \<open>The event\<close>

record frame =
  fr_function :: string
  fr_file :: string
  fr_line :: int
  fr_column :: int
  fr_module :: string

record breadcrumb =
  bc_timestamp :: string
  bc_category :: string
  bc_message :: string
  bc_level :: string
  bc_data :: "jobj option"

record full_event = event +
  EvIngestID :: string
  UserEmail :: string
  UserName :: string
  Frames :: "frame list"
  Breadcrumbs :: "breadcrumb list"

record norm_env =
  ne_parse :: "string \<Rightarrow> jobj option"
  ne_time :: "string \<Rightarrow> time option"
  ne_int :: "string \<Rightarrow> string \<Rightarrow> int"
  ne_excText :: "string \<Rightarrow> string \<Rightarrow> frame list \<Rightarrow> string"

section \<open>Reading fields\<close>

definition stringValue :: "jval option \<Rightarrow> string" where
  "stringValue v = (case v of Some (JStr s) \<Rightarrow> s | _ \<Rightarrow> [])"

fun firstString :: "jobj \<Rightarrow> string list \<Rightarrow> string" where
  "firstString m [] = []"
| "firstString m (k # ks) = (if stringValue (map_of m k) \<noteq> [] then stringValue (map_of m k) else firstString m ks)"

definition objectValue :: "jval option \<Rightarrow> jobj option" where
  "objectValue v = (case v of Some (JObj m) \<Rightarrow> Some m | _ \<Rightarrow> None)"

text \<open>\<open>strconv.Atoi\<close> with its error dropped: 0 for what is no number, the limit for one out of range.\<close>

definition atoi :: "string \<Rightarrow> int" where
  "atoi s =
     (let neg = (s \<noteq> [] \<and> hd s = CHR ''-'');
          body = (if s \<noteq> [] \<and> (hd s = CHR ''-'' \<or> hd s = CHR ''+'') then tl s else s)
      in if body = [] then 0
         else case parse_digits 0 body of
           None \<Rightarrow> 0
         | Some n \<Rightarrow> clamp64 (if neg then - int n else int n))"

definition intValue :: "norm_env \<Rightarrow> jval option \<Rightarrow> int" where
  "intValue E v = (case v of Some (JNum a b) \<Rightarrow> ne_int E a b | Some (JStr s) \<Rightarrow> atoi s | _ \<Rightarrow> 0)"

definition norm_time :: "norm_env \<Rightarrow> string \<Rightarrow> time" where
  "norm_time E value = (if trim_space value = [] then zero_time
     else case ne_time E value of None \<Rightarrow> zero_time | Some t \<Rightarrow> t)"

section \<open>Severity\<close>

definition knownSeverities :: "string list" where
  "knownSeverities = [''TRACE'', ''DEBUG'', ''INFO'', ''NOTICE'', ''WARN'', ''WARNING'', ''ERROR'',
     ''CRITICAL'', ''FATAL'', ''ALERT'', ''EMERGENCY'']"

text \<open>\<open>strings.ToUpper\<close> as far as it yields ASCII: the dotless i and the long s have ASCII capitals.\<close>

fun upper_label :: "string \<Rightarrow> string" where
  "upper_label [] = []"
| "upper_label [c] = [upper_char c]"
| "upper_label (c # d # s) =
     (if c = CHR 0xC4 \<and> d = CHR 0xB1 then CHR ''I'' # upper_label s
      else if c = CHR 0xC5 \<and> d = CHR 0xBF then CHR ''S'' # upper_label s
      else upper_char c # upper_label (d # s))"

definition label_char :: "char \<Rightarrow> bool" where
  "label_char c \<longleftrightarrow> is_alpha c \<or> is_digit c \<or> c \<in> set ''_-. ''"

definition sanitizeLabel :: "string \<Rightarrow> nat \<Rightarrow> string" where
  "sanitizeLabel s maxLen = take maxLen (trim_space (filter label_char s))"

definition normalizeSeverity :: "string \<Rightarrow> string" where
  "normalizeSeverity raw =
     (let trimmed = trim_space raw
      in if trimmed = [] then []
         else if upper_label trimmed \<in> set knownSeverities then upper_label trimmed
         else let cleaned = sanitizeLabel trimmed 32 in if cleaned \<noteq> [] then cleaned else ''ERROR'')"

section \<open>The parts\<close>

definition normalizeUser :: "jval option \<Rightarrow> string \<times> string \<times> string" where
  "normalizeUser v = (case objectValue v of
     None \<Rightarrow> ([], [], [])
   | Some m \<Rightarrow> (firstString m [''id'', ''user_id''], firstString m [''email''], firstString m [''username'', ''name'']))"

definition crumb_of :: "jobj \<Rightarrow> breadcrumb" where
  "crumb_of m = \<lparr>bc_timestamp = firstString m [''timestamp''], bc_category = firstString m [''category''],
     bc_message = firstString m [''message''], bc_level = firstString m [''level''],
     bc_data = objectValue (map_of m ''data'')\<rparr>"

definition kept_crumb :: "breadcrumb \<Rightarrow> bool" where
  "kept_crumb b \<longleftrightarrow> bc_timestamp b \<noteq> [] \<or> bc_message b \<noteq> []"

text \<open>Of a list of values the objects; the last 100 of what they give.\<close>

definition objects :: "jval list \<Rightarrow> jobj list" where
  "objects vs = concat (map (\<lambda>v. case objectValue (Some v) of None \<Rightarrow> [] | Some m \<Rightarrow> [m]) vs)"

definition normalizeBreadcrumbs :: "jval option \<Rightarrow> breadcrumb list" where
  "normalizeBreadcrumbs v = (case v of
     Some (JArr vs) \<Rightarrow> (let out = filter kept_crumb (map crumb_of (objects vs)) in drop (length out - 100) out)
   | _ \<Rightarrow> [])"

definition frame_of :: "norm_env \<Rightarrow> jobj \<Rightarrow> frame" where
  "frame_of E m = \<lparr>fr_function = firstString m [''function'', ''functionName''],
     fr_file = firstString m [''file'', ''filename'', ''abs_path''], fr_line = intValue E (map_of m ''line''),
     fr_column = intValue E (map_of m ''column''), fr_module = stringValue (map_of m ''module'')\<rparr>"

definition normalizeStacktrace :: "norm_env \<Rightarrow> jval option \<Rightarrow> frame list" where
  "normalizeStacktrace E v = (case v of Some (JArr vs) \<Rightarrow> map (frame_of E) (objects vs) | _ \<Rightarrow> [])"

definition normalizeException :: "norm_env \<Rightarrow> jval option \<Rightarrow> string \<times> string \<times> frame list" where
  "normalizeException E v = (case objectValue v of
     None \<Rightarrow> ([], [], [])
   | Some m \<Rightarrow> (firstString m [''type'', ''name''], firstString m [''message'', ''value''],
               normalizeStacktrace E (map_of m ''stacktrace'')))"

text \<open>An assignment to a key of a map.\<close>

fun obj_set :: "string \<Rightarrow> jval \<Rightarrow> jobj \<Rightarrow> jobj" where
  "obj_set k v [] = [(k, v)]"
| "obj_set k v ((j, w) # m) = (if j = k then (k, v) # m else (j, w) # obj_set k v m)"

definition mergeAttributes :: "jobj \<Rightarrow> jobj" where
  "mergeAttributes scrubbed =
     (let attrs = (case objectValue (map_of scrubbed ''attributes'') of None \<Rightarrow> [] | Some m \<Rightarrow> m);
          a1 = (case objectValue (map_of scrubbed ''tags'') of None \<Rightarrow> attrs | Some m \<Rightarrow> obj_set ''tags'' (JObj m) attrs)
      in case objectValue (map_of scrubbed ''extra'') of None \<Rightarrow> a1 | Some m \<Rightarrow> obj_set ''extra'' (JObj m) a1)"

text \<open>The merge writes into the map of the payload itself, when there is one, and the event keeps
  that payload.\<close>

definition merged_payload :: "jobj \<Rightarrow> jobj" where
  "merged_payload scrubbed = (if objectValue (map_of scrubbed ''attributes'') = None then scrubbed
     else obj_set ''attributes'' (JObj (mergeAttributes scrubbed)) scrubbed)"

definition sdkName :: "jobj \<Rightarrow> string" where
  "sdkName p = (case objectValue (map_of p ''sender'') of
     None \<Rightarrow> firstString p [''sdk'']
   | Some sender \<Rightarrow>
       (let name = (case objectValue (map_of sender ''sdk'') of None \<Rightarrow> [] | Some sdk \<Rightarrow> firstString sdk [''name'', ''sdk.name''])
        in if name \<noteq> [] then name else firstString sender [''sdk.name'', ''name'']))"

section \<open>The event of a body\<close>

definition Validate :: "norm_env \<Rightarrow> string \<Rightarrow> bool" where
  "Validate E raw \<longleftrightarrow> ne_parse E raw \<noteq> None"

definition scrub_object :: "bool \<Rightarrow> jobj \<Rightarrow> jobj" where
  "scrub_object keepIPs payload = (case ScrubWith keepIPs (JObj payload) of JObj m \<Rightarrow> m | _ \<Rightarrow> [])"

definition message_of :: "jobj \<Rightarrow> jobj \<Rightarrow> string \<Rightarrow> string" where
  "message_of payload scrubbed excMessage =
     first_nonempty [stringValue (map_of payload ''body''), stringValue (map_of scrubbed ''message''), excMessage,
       (case objectValue (map_of scrubbed ''properties'') of None \<Rightarrow> [] | Some props \<Rightarrow> stringValue (map_of props ''message''))]"

definition observed_at :: "norm_env \<Rightarrow> jobj \<Rightarrow> time \<Rightarrow> time" where
  "observed_at E payload receivedAt =
     (let t = norm_time E (firstString payload [''observedTimestamp'', ''timestamp'']) in if t = zero_time then receivedAt else t)"

definition severity_of :: "jobj \<Rightarrow> string" where
  "severity_of payload =
     (let sev = normalizeSeverity (firstString payload [''severityText'', ''level'']) in if sev = [] then ''ERROR'' else sev)"

definition event_of :: "norm_env \<Rightarrow> string \<Rightarrow> time \<Rightarrow> jobj \<Rightarrow> jobj \<Rightarrow> full_event" where
  "event_of E ingestID receivedAt payload scrubbed =
     (case normalizeException E (map_of scrubbed ''exception'') of (excType, excMessage, frames) \<Rightarrow>
      case normalizeUser (map_of scrubbed ''user'') of (userID, email, username) \<Rightarrow>
        \<lparr>ReceivedAt = receivedAt, ObservedAt = observed_at E payload receivedAt, Severity = severity_of payload,
         Message = message_of payload scrubbed excMessage, ExcType = excType, ExcMessage = excMessage,
         ExcText = ne_excText E excType excMessage frames,
         Resource = (case objectValue (map_of scrubbed ''resource'') of None \<Rightarrow> [] | Some m \<Rightarrow> m),
         Attributes = mergeAttributes scrubbed, TraceID = stringValue (map_of scrubbed ''traceId''),
         SpanID = stringValue (map_of scrubbed ''spanId''), SDKName = sdkName scrubbed,
         EvFingerprint = stringValue (map_of scrubbed ''fingerprint''), EvMaterial = [], EvExplanation = [],
         RawScrubbed = merged_payload scrubbed, UserID = userID, EvIngestID = ingestID, UserEmail = email,
         UserName = username, Frames = frames, Breadcrumbs = normalizeBreadcrumbs (map_of payload ''breadcrumbs'')\<rparr>)"

definition NormalizeWith :: "norm_env \<Rightarrow> bool \<Rightarrow> string \<Rightarrow> string \<Rightarrow> time \<Rightarrow> full_event option" where
  "NormalizeWith E keepIPs raw ingestID receivedAt = (case ne_parse E raw of
     None \<Rightarrow> None
   | Some payload \<Rightarrow> Some (event_of E ingestID receivedAt payload (scrub_object keepIPs payload)))"

definition Normalize :: "norm_env \<Rightarrow> string \<Rightarrow> string \<Rightarrow> time \<Rightarrow> full_event option" where
  "Normalize E raw ingestID receivedAt = NormalizeWith E False raw ingestID receivedAt"

section \<open>What reaches the event\<close>

text \<open>The event sees the payload through the scrubber: two bodies that scrub to the same object and
  agree on the message body, the breadcrumbs, the timestamp and the severity give the same event,
  whatever else they hold.\<close>

theorem event_from_scrubbed:
  assumes "ne_parse E raw1 = Some p1" "ne_parse E raw2 = Some p2" "scrub_object keepIPs p1 = scrub_object keepIPs p2"
    and "\<And>k. k \<in> {''body'', ''breadcrumbs'', ''observedTimestamp'', ''timestamp'', ''severityText'', ''level''}
      \<Longrightarrow> map_of p1 k = map_of p2 k"
  shows "NormalizeWith E keepIPs raw1 i t = NormalizeWith E keepIPs raw2 i t"
proof -
  have k: "map_of p1 ''body'' = map_of p2 ''body''" "map_of p1 ''breadcrumbs'' = map_of p2 ''breadcrumbs''"
    "map_of p1 ''observedTimestamp'' = map_of p2 ''observedTimestamp''" "map_of p1 ''timestamp'' = map_of p2 ''timestamp''"
    "map_of p1 ''severityText'' = map_of p2 ''severityText''" "map_of p1 ''level'' = map_of p2 ''level''"
    by (rule assms(4); simp only: insert_iff simp_thms)+
  have f: "firstString p1 [''observedTimestamp'', ''timestamp''] = firstString p2 [''observedTimestamp'', ''timestamp'']"
    "firstString p1 [''severityText'', ''level''] = firstString p2 [''severityText'', ''level'']"
    unfolding firstString.simps k by (rule refl)+
  have "message_of p1 s x = message_of p2 s x" "observed_at E p1 t = observed_at E p2 t" "severity_of p1 = severity_of p2" for s x
    unfolding message_of_def observed_at_def severity_of_def f k(1) by (rule refl)+
  then have "event_of E i t p1 s = event_of E i t p2 s" for s
    unfolding event_of_def k(2) by presburger
  then show ?thesis
    unfolding NormalizeWith_def assms(1-3) option.case by presburger
qed

lemma scrub_object_value: "JObj (scrub_object keepIPs p) = ScrubWith keepIPs (JObj p)"
  by (simp add: scrub_object_def)

lemma clean_blank: "clean_text keepIPs []" "clean_text keepIPs ''[redacted]''"
proof -
  have "\<not> occurs r None ''[redacted]''" if "r \<in> {email_core, ipv4_core, uuid_core, token_core}" for r
  proof -
    have n: "\<exists>P. needs P r \<and> list_all (\<lambda>c. \<not> P c) ''[redacted]''"
      using that cores_need by (elim insertE emptyE) (auto intro!: exI)
    have "\<not> occurs r p s" if "list_all (\<lambda>c. \<not> P c) s" "needs P r" for P p s
      using that
    proof (induction s arbitrary: p)
      case (Cons c s)
      have "\<not> occurs_at r p (c # s)"
      proof
        assume "occurs_at r p (c # s)"
        then obtain u v where "c # s = u @ v" "u \<in> lang r" by (auto simp: occurs_at_def)
        then show False using Cons.prems by (metis list_all_append list_all_iff needs_def)
      qed
      then show ?case using Cons by simp
    qed simp
    then show ?thesis using n by blast
  qed
  then show "clean_text keepIPs ''[redacted]''" by (simp add: clean_text_def pattern_matches)
  show "clean_text keepIPs []" by (simp add: clean_text_def pattern_matches)
qed

abbreviation clean_obj :: "bool \<Rightarrow> jobj \<Rightarrow> bool" where "clean_obj keepIPs m \<equiv> clean_value keepIPs (JObj m)"

lemma clean_lookup: "clean_obj keepIPs m \<Longrightarrow> map_of m k = Some v \<Longrightarrow> clean_value keepIPs v"
  using clean_blank(2) [of keepIPs] by (auto dest!: map_of_SomeD split: if_splits)

lemma clean_string: "clean_obj keepIPs m \<Longrightarrow> clean_text keepIPs (stringValue (map_of m k))"
  using clean_lookup [of keepIPs m k] clean_blank(1) by (fastforce simp: stringValue_def split: option.split jval.split)

lemma clean_first: "clean_obj keepIPs m \<Longrightarrow> clean_text keepIPs (firstString m ks)"
  by (induction ks) (simp_all add: clean_string clean_blank del: clean_value.simps)

lemma clean_object: "clean_obj keepIPs m \<Longrightarrow> objectValue (map_of m k) = Some n \<Longrightarrow> clean_obj keepIPs n"
  using clean_lookup [of keepIPs m k]
  by (auto simp: objectValue_def simp del: clean_value.simps split: option.splits jval.splits)

lemma clean_obj_simps:
  "clean_obj keepIPs []"
  "clean_obj keepIPs ((j, w) # m) \<longleftrightarrow> (if isSensitiveKey j then w = JStr ''[redacted]'' else clean_value keepIPs w) \<and> clean_obj keepIPs m"
  by simp_all

lemma clean_set:
  assumes "clean_value keepIPs v" "\<not> isSensitiveKey k"
  shows "clean_obj keepIPs m \<Longrightarrow> clean_obj keepIPs (obj_set k v m)"
proof (induction m)
  case Nil
  show ?case using assms clean_obj_simps(1) [of keepIPs] by (simp only: obj_set.simps clean_obj_simps(2) if_False simp_thms)
next
  case (Cons kv m)
  obtain j w where kv: "kv = (j, w)" by (cases kv)
  show ?case
  proof (cases "j = k")
    case True
    then show ?thesis using Cons.prems assms unfolding kv obj_set.simps by (simp only: clean_obj_simps if_True if_False simp_thms)
  next
    case False
    have p: "(if isSensitiveKey j then w = JStr ''[redacted]'' else clean_value keepIPs w) \<and> clean_obj keepIPs m"
      using Cons.prems unfolding kv clean_obj_simps(2) .
    show ?thesis unfolding kv obj_set.simps if_not_P [OF False] clean_obj_simps(2)
      using p Cons.IH by blast
  qed
qed

text \<open>A key of small letters that lacks a letter of every part of the list is plain.\<close>

lemma contains_sub_set: "contains_sub s p \<Longrightarrow> set p \<subseteq> set s"
proof (induction s)
  case (Cons c s)
  then show ?case using set_take_subset [of "length p" "c # s"] by (auto simp: has_prefix_def)
qed simp

lemma lower_key_same: "list_all is_lower s \<Longrightarrow> lower_key (map (\<lambda>c. if c = CHR ''-'' then CHR ''_'' else c) s) = s"
proof (induction s)
  case (Cons c s)
  have c: "c \<noteq> CHR ''-''" "c \<noteq> CHR 0xE2" "c \<noteq> CHR 0xC4" "lower_char c = c"
    using Cons.prems by (auto simp: is_lower_def lower_char_def Let_def)
  then show ?case using Cons by (simp add: has_prefix_def)
qed simp

lemma plain_keyI:
  "list_all is_lower key \<Longrightarrow> list_all (\<lambda>p. \<not> set p \<subseteq> set key) sensitiveKeyParts \<Longrightarrow> \<not> isSensitiveKey key"
  unfolding isSensitiveKey_def using contains_sub_set [of key] by (auto simp: lower_key_same list_ex_iff list_all_iff)

lemma plain_keys: "\<not> isSensitiveKey ''tags''" "\<not> isSensitiveKey ''extra''" "\<not> isSensitiveKey ''attributes''"
  by (rule plain_keyI; simp add: is_lower_def sensitiveKeyParts_def)+

lemma clean_attributes: "clean_obj keepIPs s \<Longrightarrow> clean_obj keepIPs (mergeAttributes s)"
proof -
  assume c: "clean_obj keepIPs s"
  have set_or: "clean_obj keepIPs a \<Longrightarrow> \<not> isSensitiveKey k \<Longrightarrow>
      clean_obj keepIPs (case objectValue (map_of s k) of None \<Rightarrow> a | Some m \<Rightarrow> obj_set k (JObj m) a)" for k a
    using clean_object [OF c, of k] clean_set [of keepIPs _ k a] by (cases "objectValue (map_of s k)") (simp_all del: clean_value.simps)
  have a: "clean_obj keepIPs (case objectValue (map_of s ''attributes'') of None \<Rightarrow> [] | Some m \<Rightarrow> m)"
    using clean_object [OF c] by (cases "objectValue (map_of s ''attributes'')") auto
  show ?thesis
    unfolding mergeAttributes_def Let_def by (rule set_or [OF set_or [OF a plain_keys(1)] plain_keys(2)])
qed

lemma clean_sdk: "clean_obj keepIPs s \<Longrightarrow> clean_text keepIPs (sdkName s)"
proof -
  assume c: "clean_obj keepIPs s"
  show ?thesis
  proof (cases "objectValue (map_of s ''sender'')")
    case None
    then show ?thesis unfolding sdkName_def option.case(1) using clean_first [OF c] by (simp only: option.case(1))
  next
    case (Some sender)
    note d = clean_object [OF c Some]
    have "clean_text keepIPs (case objectValue (map_of sender ''sdk'') of None \<Rightarrow> [] | Some sdk \<Rightarrow> firstString sdk ks)" for ks
      using clean_object [OF d] clean_first [of keepIPs _ ks] clean_blank(1)
      by (cases "objectValue (map_of sender ''sdk'')") (simp_all del: clean_value.simps firstString.simps)
    then show ?thesis
      unfolding sdkName_def Some option.case(2) Let_def using clean_first [OF d] by presburger
  qed
qed

lemma clean_user:
  assumes "clean_obj keepIPs s" "normalizeUser (map_of s k) = (i, e, n)"
  shows "clean_text keepIPs i \<and> clean_text keepIPs n \<and> e \<in> {[], ''[redacted]''}"
proof (cases "objectValue (map_of s k)")
  case None
  then have "i = []" "e = []" "n = []" using assms(2) by (simp_all add: normalizeUser_def)
  then show ?thesis using clean_blank(1) by blast
next
  case (Some m)
  note d = clean_object [OF assms(1) Some]
  have v: "i = firstString m [''id'', ''user_id'']" "e = firstString m [''email'']" "n = firstString m [''username'', ''name'']"
    using assms(2) unfolding normalizeUser_def Some option.case(2) prod.inject by blast+
  have "contains_sub s s" for s by (cases s) (simp_all add: has_prefix_def)
  moreover have "list_all is_lower ''email''" "''email'' \<in> set sensitiveKeyParts"
    by (simp_all add: is_lower_def sensitiveKeyParts_def)
  ultimately have "isSensitiveKey ''email''"
    unfolding isSensitiveKey_def lower_key_same [OF \<open>list_all is_lower ''email''\<close>] list_ex_iff by blast
  then have "map_of m ''email'' = Some w \<Longrightarrow> w = JStr ''[redacted]''" for w
    using d by (auto dest!: map_of_SomeD)
  then have "e \<in> {[], ''[redacted]''}"
    unfolding v(2) firstString.simps stringValue_def by (cases "map_of m ''email''") auto
  then show ?thesis unfolding v(1,3) using clean_first [OF d] by blast
qed

definition clean_frame :: "bool \<Rightarrow> frame \<Rightarrow> bool" where
  "clean_frame keepIPs f \<longleftrightarrow> clean_text keepIPs (fr_function f) \<and> clean_text keepIPs (fr_file f) \<and> clean_text keepIPs (fr_module f)"

lemma clean_frames: "(\<And>w. v = Some w \<Longrightarrow> clean_value keepIPs w) \<Longrightarrow> list_all (clean_frame keepIPs) (normalizeStacktrace E v)"
proof -
  assume c: "\<And>w. v = Some w \<Longrightarrow> clean_value keepIPs w"
  have fr: "clean_obj keepIPs m \<Longrightarrow> clean_frame keepIPs (frame_of E m)" for m
    by (simp add: clean_frame_def frame_of_def clean_first clean_string del: clean_value.simps firstString.simps)
  have ob: "m \<in> set (objects vs) \<Longrightarrow> JObj m \<in> set vs" for m vs
    by (induction vs) (auto simp: objects_def objectValue_def split: jval.splits)
  show ?thesis
  proof (cases "\<exists>vs. v = Some (JArr vs)")
    case True
    then obtain vs where vs: "v = Some (JArr vs)" by blast
    have "clean_obj keepIPs m" if "m \<in> set (objects vs)" for m
      using c [OF vs] ob [OF that] by (simp only: clean_value.simps(2))
    then show ?thesis using fr by (simp add: vs normalizeStacktrace_def list_all_iff del: clean_value.simps)
  qed (auto simp: normalizeStacktrace_def split: option.split jval.split)
qed

lemma clean_exception:
  assumes "clean_obj keepIPs s" "normalizeException E (map_of s k) = (ty, msg, fs)"
  shows "clean_text keepIPs ty \<and> clean_text keepIPs msg \<and> list_all (clean_frame keepIPs) fs"
proof (cases "objectValue (map_of s k)")
  case None
  then have "ty = []" "msg = []" "fs = []" using assms(2) by (simp_all add: normalizeException_def)
  then show ?thesis using clean_blank(1) by simp
next
  case (Some m)
  note d = clean_object [OF assms(1) Some]
  have v: "ty = firstString m [''type'', ''name'']" "msg = firstString m [''message'', ''value'']"
    "fs = normalizeStacktrace E (map_of m ''stacktrace'')"
    using assms(2) unfolding normalizeException_def Some option.case(2) prod.inject by blast+
  show ?thesis unfolding v using clean_first [OF d] clean_frames clean_lookup [OF d] by blast
qed

lemma clean_merged: "clean_obj keepIPs s \<Longrightarrow> clean_obj keepIPs (merged_payload s)"
  unfolding merged_payload_def using clean_attributes [of keepIPs s] clean_set plain_keys(3) by presburger

lemma clean_resource:
  "clean_obj keepIPs s \<Longrightarrow> clean_obj keepIPs (case objectValue (map_of s k) of None \<Rightarrow> [] | Some m \<Rightarrow> m)"
  using clean_object [of keepIPs s k] by (cases "objectValue (map_of s k)") (simp_all only: option.case clean_obj_simps)


definition demo_norm :: "jobj \<Rightarrow> norm_env" where
  "demo_norm p = \<lparr>ne_parse = (\<lambda>raw. if raw = [] then None else Some p), ne_time = (\<lambda>s. None), ne_int = (\<lambda>a b. 0),
     ne_excText = (\<lambda>a b fs. [])\<rparr>"

lemma demo_norm_parse: "ne_parse (demo_norm p) ''{}'' = Some p"
  by (simp add: demo_norm_def)

definition mail_body :: jobj where
  "mail_body = [(''user'', JObj [(''email'', JStr ''a@b.co'')]), (''body'', JStr ''a@b.co'')]"


text \<open>C38: The message and the breadcrumbs go around the scrubber: an address, UUID or token in the body of an
  event is in the stored event's message, letter for letter, and the breadcrumbs are those of the
  payload as it was sent.\<close>

theorem message_is_not_scrubbed:
  assumes "ne_parse E raw = Some p" "map_of p ''body'' = Some (JStr b)" "\<not> clean_text keepIPs b"
  shows "\<exists>e. NormalizeWith E keepIPs raw i t = Some e \<and> Message e = b
    \<and> Breadcrumbs e = normalizeBreadcrumbs (map_of p ''breadcrumbs'')"
proof -
  let ?s = "scrub_object keepIPs p"
  obtain ty msg fs where x: "normalizeException E (map_of ?s ''exception'') = (ty, msg, fs)" by (rule prod_cases3)
  obtain ui em un where u: "normalizeUser (map_of ?s ''user'') = (ui, em, un)" by (rule prod_cases3)
  have b: "b \<noteq> []" using assms(3) clean_blank(1) by blast
  have "message_of p ?s msg = b"
    unfolding message_of_def assms(2) stringValue_def option.case(2) jval.case using b by simp
  then have "Message (event_of E i t p ?s) = b \<and> Breadcrumbs (event_of E i t p ?s) = normalizeBreadcrumbs (map_of p ''breadcrumbs'')"
    unfolding event_of_def x u prod.case by (simp only: event.simps full_event.simps)
  then show ?thesis unfolding NormalizeWith_def assms(1) option.case(2) by blast
qed

theorem message_is_not_scrubbed_witness:
  "\<exists>e. NormalizeWith (demo_norm mail_body) False ''{}'' ''id'' 7 = Some e \<and> Message e = ''a@b.co'' \<and> \<not> clean_text False (Message e)"
proof -
  have m: "map_of mail_body ''body'' = Some (JStr ''a@b.co'')" by (simp add: mail_body_def)
  have c: "\<not> clean_text False ''a@b.co''" using email_found unfolding clean_text_def by blast
  from message_is_not_scrubbed [OF demo_norm_parse m c] c show ?thesis by metis
qed

lemma label_bounds:
  "length (sanitizeLabel s n) \<le> n" "list_all label_char (sanitizeLabel s n)"
proof -
  have "set (trim_space s) \<subseteq> set s" for s
    unfolding trim_space_def by (metis set_dropWhileD set_rev subsetI)
  moreover have "set (take n s) \<subseteq> set s" for s by (rule set_take_subset)
  ultimately show "list_all label_char (sanitizeLabel s n)"
    unfolding sanitizeLabel_def list_all_iff by (metis (no_types, lifting) mem_Collect_eq set_filter subsetD)
qed (simp add: sanitizeLabel_def)

lemma severity_label: "length (normalizeSeverity raw) \<le> 32 \<and> list_all label_char (normalizeSeverity raw)"
proof -
  have k: "list_all (\<lambda>s. length s \<le> 32 \<and> list_all label_char s) knownSeverities"
    by (simp add: knownSeverities_def label_char_def is_alpha_def is_lower_def lower_char_def)
  then have "s \<in> set knownSeverities \<Longrightarrow> length s \<le> 32 \<and> list_all label_char s" for s by (simp add: list_all_iff)
  moreover have "length ''ERROR'' \<le> 32 \<and> list_all label_char ''ERROR''"
    by (simp add: label_char_def is_alpha_def is_lower_def lower_char_def)
  ultimately show ?thesis
    unfolding normalizeSeverity_def Let_def using label_bounds by (simp split: if_split)
qed

lemma event_severity:
  assumes "NormalizeWith E keepIPs raw i t = Some e"
  shows "Severity e \<noteq> [] \<and> length (Severity e) \<le> 32 \<and> list_all label_char (Severity e)"
proof -
  obtain p where p: "ne_parse E raw = Some p" and e: "e = event_of E i t p (scrub_object keepIPs p)"
    using assms by (cases "ne_parse E raw") (simp_all add: NormalizeWith_def)
  let ?s = "scrub_object keepIPs p"
  obtain ty msg fs where x: "normalizeException E (map_of ?s ''exception'') = (ty, msg, fs)" by (rule prod_cases3)
  obtain ui em un where u: "normalizeUser (map_of ?s ''user'') = (ui, em, un)" by (rule prod_cases3)
  have f: "Severity e = severity_of p"
    unfolding e event_of_def x u prod.case by (simp only: event.simps full_event.simps)
  have r: "''ERROR'' \<noteq> []" "length ''ERROR'' \<le> 32" "list_all label_char ''ERROR''"
    by (simp_all add: label_char_def is_alpha_def is_lower_def lower_char_def)
  show ?thesis unfolding f severity_of_def Let_def using r severity_label by presburger
qed

text \<open>C27: A reporter cannot blow up the labels: the severity of every event is a non-empty label of at most 32
  letters, digits and separators, and at most 100 breadcrumbs are kept, each with a time or a message.\<close>

theorem event_labels_bounded:
  assumes "NormalizeWith E keepIPs raw i t = Some e"
  shows "Severity e \<noteq> [] \<and> length (Severity e) \<le> 32 \<and> list_all label_char (Severity e)
    \<and> length (Breadcrumbs e) \<le> 100 \<and> list_all kept_crumb (Breadcrumbs e)"
proof -
  obtain p where p: "ne_parse E raw = Some p" and e: "e = event_of E i t p (scrub_object keepIPs p)"
    using assms by (cases "ne_parse E raw") (simp_all add: NormalizeWith_def)
  let ?s = "scrub_object keepIPs p"
  obtain ty msg fs where x: "normalizeException E (map_of ?s ''exception'') = (ty, msg, fs)" by (rule prod_cases3)
  obtain ui em un where u: "normalizeUser (map_of ?s ''user'') = (ui, em, un)" by (rule prod_cases3)
  have f: "Breadcrumbs e = normalizeBreadcrumbs (map_of p ''breadcrumbs'')"
    unfolding e event_of_def x u prod.case by (simp only: event.simps full_event.simps)
  have "list_all kept_crumb (drop n (filter kept_crumb xs))" for n xs
    unfolding list_all_iff using set_drop_subset by fastforce
  then have "length (normalizeBreadcrumbs v) \<le> 100 \<and> list_all kept_crumb (normalizeBreadcrumbs v)" for v
    by (auto simp: normalizeBreadcrumbs_def Let_def split: option.split jval.split)
  with event_severity [OF assms] show ?thesis unfolding f by blast
qed

theorem event_labels_bounded_witness:
  "\<exists>e. NormalizeWith (demo_norm mail_body) False ''{}'' ''id'' 7 = Some e \<and> length (Severity e) \<le> 32 \<and> length (Breadcrumbs e) \<le> 100"
proof -
  obtain e where e: "NormalizeWith (demo_norm mail_body) False ''{}'' ''id'' 7 = Some e"
    unfolding NormalizeWith_def demo_norm_parse by simp
  from event_labels_bounded [OF e] show ?thesis using e by blast
qed

text \<open>\<open>Validate\<close> accepts a body exactly if it normalises, whatever the options.\<close>

lemma validate_iff_normalizes: "Validate E raw \<longleftrightarrow> NormalizeWith E keepIPs raw i t \<noteq> None"
  by (simp add: Validate_def NormalizeWith_def split: option.split)

text \<open>The normaliser as the processor calls it, with the fields of the processor's event.\<close>

definition pipeline_normaliser :: "norm_env \<Rightarrow> string \<Rightarrow> string \<Rightarrow> time \<Rightarrow> bool \<Rightarrow> event option" where
  "pipeline_normaliser E body ingestID receivedAt internal = map_option event.truncate (NormalizeWith E internal body ingestID receivedAt)"

end
