(* ===== verification/Fingerprint.thy ===== *)
theory Fingerprint
  imports Normalize "HOL-Library.Multiset" "HOL-Library.List_Lexorder" "HOL-Library.Char_ord"
begin

text \<open>
  What makes two events one issue: \<open>internal/fingerprint/fingerprint.go\<close>, and the title normaliser of
  \<open>internal/storage/issues_insert.go\<close>.

  \<open>strings.ToLower\<close>, the JSON encoding of the material and SHA-256 are fields of \<open>fp_env\<close>.  A Go map is
  the sequence of the assignments made to it; its entries in key order are \<open>sorted_entries\<close>.  Objects
  are in the order in which the code happens to iterate them.
\<close>

record material =
  ma_exceptionType :: string
  ma_message :: string
  ma_stacktrace :: "string list"
  ma_context :: "(string \<times> string) list"

record fp_env =
  fe_lower :: "string \<Rightarrow> string"
  fe_marshal :: "material \<Rightarrow> string"
  fe_hash :: "string \<Rightarrow> string"

section \<open>The patterns\<close>

definition digits :: "nat \<Rightarrow> re" where "digits n = times n (Cls is_digit)"

definition hms :: re where
  "hms = Seq (digits 2) (Seq (ch (CHR '':'')) (Seq (digits 2)
     (Opt (Seq (ch (CHR '':'')) (Seq (digits 2) (Opt (Seq (Cls (\<lambda>c. c \<in> set ''.,'')) (Plus (Cls is_digit)))))))))"

definition tz_offset :: re where
  "tz_offset = Alt (ch (CHR ''z'')) (Seq (Cls (\<lambda>c. c \<in> set ''+-''))
     (Seq (digits 2) (Opt (Seq (Opt (ch (CHR '':''))) (digits 2)))))"

definition timestamp_core :: re where
  "timestamp_core = Seq (digits 4) (Seq dash (Seq (digits 2) (Seq dash (Seq (digits 2)
     (Opt (Seq (Cls (\<lambda>c. c \<in> set ''t '')) (Seq hms (Opt tz_offset))))))))"

definition hex_address_core :: re where
  "hex_address_core = Seq (ch (CHR ''0'')) (Seq (fold_ch (CHR ''x'')) (at_least 6 (Cls is_hex)))"

definition timestampPattern :: re where "timestampPattern = bounded timestamp_core"
definition hexAddress :: re where "hexAddress = bounded hex_address_core"
definition hexToken :: re where "hexToken = bounded (at_least 12 (Cls is_hex))"
definition longNumber :: re where "longNumber = bounded (Plus (Cls is_digit))"

definition redactedID :: re where
  "redactedID = Seq (ch (CHR ''['')) (Seq (fold_lit ''redacted-'')
     (Seq (Alt (fold_lit ''id'') (Alt (fold_lit ''ip'') (Alt (fold_lit ''email'') (fold_lit ''secret'')))) (ch (CHR '']''))))"

definition sourceLocation :: re where
  "sourceLocation = Seq (ch (CHR '':'')) (Seq (Plus (Cls is_digit)) (Plus (Seq (ch (CHR '':'')) (Plus (Cls is_digit)))))"

definition whitespace :: re where "whitespace = Plus (Cls is_blank)"
definition pathNumberSegment :: re where "pathNumberSegment = Seq (ch (CHR ''/'')) (Plus (Cls is_digit))"

text \<open>The URL pattern in two halves: the part in the parentheses, and the rest.\<close>

definition scheme_char :: "char \<Rightarrow> bool" where
  "scheme_char c \<longleftrightarrow> is_alpha c \<or> is_digit c \<or> c \<in> set ''+.-''"

definition stop_char :: "char \<Rightarrow> bool" where
  "stop_char c \<longleftrightarrow> is_blank c \<or> c \<in> {CHR 0x22, CHR 0x27} \<or> c \<in> set ''<>()[]''"

definition path_start :: "char \<Rightarrow> bool" where "path_start c \<longleftrightarrow> c \<in> set ''/?#''"

definition urlHead :: re where
  "urlHead = Seq WordB (Seq (fold_class is_alpha) (Seq (Star (fold_class scheme_char)) (Seq (lit ''://'')
     (Plus (Cls (\<lambda>c. \<not> stop_char c \<and> \<not> path_start c))))))"

definition urlTail :: re where
  "urlTail = Seq (Cls path_start) (Star (Cls (\<lambda>c. \<not> stop_char c)))"

definition urlPathPlaceholder :: string where "urlPathPlaceholder = ''/<path>''"

text \<open>A match, with the end of its first half; replaced by that half and the placeholder.\<close>

definition url_match :: "char option \<Rightarrow> string \<Rightarrow> (cursor \<times> cursor) option" where
  "url_match p s = re_match urlHead (p, s) (\<lambda>mid. re_match urlTail mid (\<lambda>end. Some (mid, end)))"

function replace_urls :: "char option \<Rightarrow> string \<Rightarrow> string" where
  "replace_urls p [] = []"
| "replace_urls p (c # s) = (case url_match p (c # s) of
     Some ((q, t), (p', rest)) \<Rightarrow>
       (if length rest < length (c # s)
        then take (length (c # s) - length t) (c # s) @ urlPathPlaceholder @ replace_urls p' rest
        else c # replace_urls (Some c) s)
   | None \<Rightarrow> c # replace_urls (Some c) s)"
  by pat_completeness auto
termination
  by (relation "measure (\<lambda>(p, s). length s)") auto

section \<open>Normalising\<close>

definition normalize_text :: "fp_env \<Rightarrow> string \<Rightarrow> string" where
  "normalize_text E value =
     (let v0 = fe_lower E (trim_space value);
          v1 = ReplaceAllString uuidPattern ''<id>'' v0;
          v2 = ReplaceAllString timestampPattern ''<ts>'' v1;
          v3 = ReplaceAllString ipv4Pattern ''<ip>'' v2;
          v4 = ReplaceAllString hexAddress ''<hex>'' v3;
          v5 = ReplaceAllString hexToken ''<hex>'' v4;
          v6 = ReplaceAllString longNumber ''<num>'' v5;
          v7 = ReplaceAllString sourceLocation '':<loc>'' v6;
          v8 = ReplaceAllString redactedID ''<redacted>'' v7
      in ReplaceAllString whitespace '' '' v8)"

definition normalizeMessage :: "fp_env \<Rightarrow> string \<Rightarrow> string" where
  "normalizeMessage E value = normalize_text E (replace_urls None value)"

definition normalizePath :: "fp_env \<Rightarrow> string \<Rightarrow> string" where
  "normalizePath E value = normalize_text E
     (ReplaceAllString pathNumberSegment ''/:num'' (map (\<lambda>c. if c = CHR 0x5C then CHR ''/'' else c) value))"

definition pathValueKeys :: "string list" where "pathValueKeys = [''http.route'', ''route'']"

definition normalizeContextValue :: "fp_env \<Rightarrow> string \<Rightarrow> string \<Rightarrow> string" where
  "normalizeContextValue E key value =
     (if key \<in> set pathValueKeys \<or> has_suffix key ''.route'' then normalize_text E value
      else let v = normalizeMessage E value
           in if contains_sub v ''/'' \<and> \<not> contains_sub v ''://'' then ''<path>'' else v)"

section \<open>The context\<close>

definition stableContextKeys :: "string list" where
  "stableContextKeys = [''environment'', ''http.method'', ''http.route'', ''http.status_code'', ''route'',
     ''service.name'', ''service.namespace'', ''status_code'']"

definition isStableContextKey :: "string \<Rightarrow> bool" where
  "isStableContextKey key \<longleftrightarrow>
     list_ex (\<lambda>stable. key = stable \<or> has_suffix key (CHR ''.'' # stable) \<or> has_suffix key (CHR ''/'' # stable)) stableContextKeys"

text \<open>The assignments of \<open>flattenScalarFieldsInto\<close>, in their order.\<close>

definition scalar_at :: "string \<Rightarrow> string \<Rightarrow> (string \<times> string) list" where
  "scalar_at prefix text = (if trim_space prefix \<noteq> [] then [(prefix, text)] else [])"

fun flattenScalarFieldsInto :: "string \<Rightarrow> jval \<Rightarrow> (string \<times> string) list"
  and flatten_members :: "string \<Rightarrow> jobj \<Rightarrow> (string \<times> string) list"
  and flatten_items :: "string \<Rightarrow> nat \<Rightarrow> jval list \<Rightarrow> (string \<times> string) list" where
  "flattenScalarFieldsInto prefix (JObj kvs) = flatten_members prefix kvs"
| "flattenScalarFieldsInto prefix (JArr vs) = flatten_items prefix 0 vs"
| "flattenScalarFieldsInto prefix (JStr s) = scalar_at prefix s"
| "flattenScalarFieldsInto prefix (JBool b) = scalar_at prefix (if b then ''true'' else ''false'')"
| "flattenScalarFieldsInto prefix (JNum _ text) = scalar_at prefix text"
| "flattenScalarFieldsInto prefix JNull = []"
| "flattenScalarFieldsInto prefix (JOther s) = []"
| "flatten_members prefix [] = []"
| "flatten_members prefix ((key, v) # rest) =
     flattenScalarFieldsInto (if prefix \<noteq> [] then prefix @ CHR ''.'' # key else key) v @ flatten_members prefix rest"
| "flatten_items prefix idx [] = []"
| "flatten_items prefix idx (v # rest) =
     flattenScalarFieldsInto (prefix @ ''['' @ itoa (int idx) @ '']'') v @ flatten_items prefix (Suc idx) rest"

definition sorted_entries :: "(string \<times> string) list \<Rightarrow> (string \<times> string) list" where
  "sorted_entries as = map (\<lambda>k. (k, the (map_of (rev as) k))) (sort (remdups (map fst as)))"

text \<open>The assignments to the field map: those of the resource, then those of the attributes.\<close>

definition context_fields :: "event \<Rightarrow> (string \<times> string) list" where
  "context_fields evt = flattenScalarFieldsInto [] (JObj (Resource evt)) @ flattenScalarFieldsInto [] (JObj (Attributes evt))"

definition stable_field :: "fp_env \<Rightarrow> string \<times> string \<Rightarrow> bool" where
  "stable_field E kv \<longleftrightarrow> isStableContextKey (normalize_text E (fst kv))"

definition context_entry :: "fp_env \<Rightarrow> string \<times> string \<Rightarrow> string \<times> string" where
  "context_entry E kv = (normalize_text E (fst kv), normalizeContextValue E (normalize_text E (fst kv)) (snd kv))"

definition stableContext :: "fp_env \<Rightarrow> event \<Rightarrow> (string \<times> string) list" where
  "stableContext E evt = sorted_entries (filter (\<lambda>kv. snd kv \<noteq> [])
     (map (context_entry E) (filter (stable_field E) (sorted_entries (context_fields evt)))))"

section \<open>The snapshot\<close>

definition rawSource :: "jobj \<Rightarrow> string" where
  "rawSource raw = (case map_of raw ''properties'' of
     Some (JObj props) \<Rightarrow> (let source = str_field props ''source'' in if source \<noteq> [] then source else str_field props ''url'')
   | _ \<Rightarrow> [])"

definition trimEmpty :: "string list \<Rightarrow> string list" where "trimEmpty values = filter (\<lambda>v. trim_space v \<noteq> []) values"

fun join_colon :: "string list \<Rightarrow> string" where
  "join_colon [] = []"
| "join_colon [s] = s"
| "join_colon (s # ss) = s @ CHR '':'' # join_colon ss"

definition frame_part :: "fp_env \<Rightarrow> frame \<Rightarrow> string" where
  "frame_part E f = join_colon (trimEmpty
     [normalize_text E (fr_module f), normalize_text E (fr_function f), normalizePath E (fr_file f)])"

definition exception_parts :: "fp_env \<Rightarrow> full_event \<Rightarrow> string \<times> string" where
  "exception_parts E evt =
     (let ty = normalize_text E (ExcType evt);
          m0 = normalizeMessage E (ExcMessage evt);
          m1 = (if m0 = [] then normalizeMessage E (Message evt) else m0);
          raw = rawScrubbedFallback (RawScrubbed evt)
      in if ty = [] \<and> m1 = [] \<and> Frames evt = [] \<and> (fst raw \<noteq> [] \<or> snd raw \<noteq> [])
         then (normalize_text E (fst raw),
               let m = normalizeMessage E (snd raw) in if m = [] then normalizeMessage E (rawSource (RawScrubbed evt)) else m)
         else (ty, m1))"

definition frame_parts :: "fp_env \<Rightarrow> full_event \<Rightarrow> string list" where
  "frame_parts E evt = filter (\<lambda>v. v \<noteq> []) (map (frame_part E) (Frames evt))"

definition labelled_part :: "string \<Rightarrow> string \<Rightarrow> string list" where "labelled_part name v = (if v \<noteq> [] then [name @ v] else [])"

definition SnapshotFor :: "fp_env \<Rightarrow> full_event \<Rightarrow> string \<times> string list" where
  "SnapshotFor E evt = (case exception_parts E evt of (ty, msg) \<Rightarrow>
     (let frames = frame_parts E evt; context = stableContext E (event.truncate evt)
      in (fe_marshal E \<lparr>ma_exceptionType = ty, ma_message = msg, ma_stacktrace = frames, ma_context = context\<rparr>,
          labelled_part ''exception.type='' ty @ labelled_part ''exception.message='' msg
            @ map (\<lambda>f. ''stacktrace='' @ f) frames @ map (\<lambda>(k, v). ''context.'' @ k @ ''='' @ v) context)))"

definition fp_Material :: "fp_env \<Rightarrow> full_event \<Rightarrow> string" where "fp_Material E evt = fst (SnapshotFor E evt)"
definition fp_Explanation :: "fp_env \<Rightarrow> full_event \<Rightarrow> string list" where "fp_Explanation E evt = snd (SnapshotFor E evt)"
definition event_Fingerprint :: "fp_env \<Rightarrow> full_event \<Rightarrow> string" where "event_Fingerprint E evt = fe_hash E (fp_Material E evt)"

section \<open>The title of an issue\<close>

text \<open>The patterns of \<open>storage.go\<close>; the trimming pattern strips both ends.\<close>

definition title_longNumber :: re where "title_longNumber = bounded (at_least 4 (Cls is_digit))"

definition trim_char :: "char \<Rightarrow> bool" where "trim_char c \<longleftrightarrow> is_blank c \<or> c \<in> set '':;,_-''"

definition trimPunctuation :: "string \<Rightarrow> string" where
  "trimPunctuation s = rev (dropWhile trim_char (rev (dropWhile trim_char s)))"

definition normalizeTitle :: "(string \<Rightarrow> string) \<Rightarrow> string \<Rightarrow> string" where
  "normalizeTitle lower value =
     (let v0 = lower (trim_space value);
          v1 = ReplaceAllString uuidPattern ''<id>'' v0;
          v2 = ReplaceAllString ipv4Pattern ''<ip>'' v1;
          v3 = ReplaceAllString hexAddress ''<hex>'' v2;
          v4 = ReplaceAllString title_longNumber ''<num>'' v3;
          v5 = ReplaceAllString pathNumberSegment ''/:num'' v4;
          v6 = ReplaceAllString whitespace '' '' v5
      in trimPunctuation v6)"

section \<open>Scans that change nothing\<close>

lemma replace_all_none:
  "(\<And>q u v. s = u @ v \<Longrightarrow> re_match r (q, v) Some = None) \<Longrightarrow> replace_all r rep p s = s"
proof (induction s arbitrary: p)
  case (Cons c s)
  have "replace_all r rep (Some c) s = s"
  proof (rule Cons.IH)
    show "re_match r (q, v) Some = None" if "s = u @ v" for q u v
      using Cons.prems [of "c # u" v q] that by simp
  qed
  then show ?case using Cons.prems [of "[]" "c # s" p] by simp
qed simp

lemma ReplaceAllString_none:
  "(\<And>q u v. s = u @ v \<Longrightarrow> re_match r (q, v) Some = None) \<Longrightarrow> ReplaceAllString r rep s = s"
  unfolding ReplaceAllString_def by (rule replace_all_none)

lemma match_prefix: "re_match r (q, v) Some = Some x \<Longrightarrow> \<exists>w z. v = w @ z \<and> w \<in> lang r"
  using match_sound [of r "(q, v)" Some x] by auto

text \<open>A text without a character that every text of the pattern has, or a shorter one.\<close>

lemma replace_needs: "needs P r \<Longrightarrow> list_all (\<lambda>c. \<not> P c) s \<Longrightarrow> ReplaceAllString r rep s = s"
proof (rule ReplaceAllString_none, rule ccontr)
  fix q u v assume n: "needs P r" "list_all (\<lambda>c. \<not> P c) s" and s: "s = u @ v" and m: "re_match r (q, v) Some \<noteq> None"
  obtain w z where w: "v = w @ z" "w \<in> lang r" using match_prefix m by blast
  then obtain c where "c \<in> set w" "P c" using n(1) by (auto simp: needs_def)
  then show False using n(2) s w(1) by (auto simp: list_all_iff)
qed

fun min_len :: "re \<Rightarrow> nat" where
  "min_len (Cls P) = 1"
| "min_len (Seq a b) = min_len a + min_len b"
| "min_len (Alt a b) = min (min_len a) (min_len b)"
| "min_len _ = 0"

lemma min_len_lang: "u \<in> lang r \<Longrightarrow> min_len r \<le> length u"
  by (induction r arbitrary: u) (fastforce simp: min_le_iff_disj add_mono)+

lemma replace_short: "length s < min_len r \<Longrightarrow> ReplaceAllString r rep s = s"
proof (rule ReplaceAllString_none, rule ccontr)
  fix q u v assume l: "length s < min_len r" and s: "s = u @ v" and m: "re_match r (q, v) Some \<noteq> None"
  obtain w z where w: "v = w @ z" "w \<in> lang r" using match_prefix m by blast
  then show False using min_len_lang [OF w(2)] l s by simp
qed

section \<open>The pattern for source locations\<close>

interpretation numbers: redaction "CHR ''<''" "CHR ''>''" "Plus (Cls is_digit)" "''num''"
proof
  have n: "needs is_digit (Plus (Cls is_digit))" unfolding Plus_def by (rule needs_rules(2), rule needs_rules(1))
  show "factor_free (Plus (Cls is_digit)) ''num''" by (rule factor_freeI [OF n]) (simp add: is_digit_def)
  show "no_brackets (CHR ''<'') (CHR ''>'') (Plus (Cls is_digit))" by (rule no_bracketsI) (simp_all add: Plus_def is_digit_def)
qed (simp add: Plus_def)

lemma numbers_gone: "\<not> occurs (Plus (Cls is_digit)) None (ReplaceAllString longNumber ''<num>'' s)"
  using numbers.gone [of s] by (simp add: longNumber_def placeholder_def)

lemma lang_digits: "d \<in> lang (Plus (Cls is_digit)) \<Longrightarrow> d \<noteq> [] \<and> list_all is_digit d"
proof -
  assume d: "d \<in> lang (Plus (Cls is_digit))"
  then obtain c us where "d = c # concat us" "is_digit c" "set us \<subseteq> {[e] | e. is_digit e}" by (auto simp: Plus_def)
  then show ?thesis by (auto simp: list_all_iff)
qed

lemma digit_word: "is_digit c \<Longrightarrow> is_word (Some c)"
  by (auto simp: is_digit_def is_word_def Let_def)

lemma location_has_number:
  assumes "u \<in> lang sourceLocation"
  shows "occurs (Plus (Cls is_digit)) p (u @ v)"
proof -
  obtain d w where u: "u = CHR '':'' # d @ w" "d \<in> lang (Plus (Cls is_digit))" "w \<in> lang (Plus (Seq (ch (CHR '':'')) (Plus (Cls is_digit))))"
    using assms unfolding sourceLocation_def ch_def lang.simps(2,3) by (auto simp del: lang.simps)
  obtain w' where w: "w = CHR '':'' # w'" using u(3) by (auto simp: Plus_def ch_def)
  note d = lang_digits [OF u(2)]
  have "is_word (Some (hd d))" "is_word (Some (last d))" using d digit_word by (auto simp: list_all_iff)
  moreover have "\<not> is_word (Some (CHR '':''))" by (simp add: is_word_def)
  ultimately have "boundary (Some (CHR '':'')) (d @ w @ v)" "boundary (last_char (Some (CHR '':'')) d) (w @ v)"
    using d w by (cases d; simp add: boundary_def first_char_def last_char_def)+
  then have "occurs_at (Plus (Cls is_digit)) (Some (CHR '':'')) (d @ w @ v)"
    unfolding occurs_at_def using u(2) by blast
  then have "occurs (Plus (Cls is_digit)) (Some (CHR '':'')) (d @ w @ v)" using d by (cases d) auto
  then show ?thesis unfolding u(1) by simp
qed

text \<open>The pattern for source locations never matches where the code uses it: every number of one has been
  replaced by the mark for numbers before, so the normalised text has no mark for locations from it.\<close>

theorem source_location_is_dead:
  "normalize_text E value =
     (let hexed = ReplaceAllString hexToken ''<hex>'' (ReplaceAllString hexAddress ''<hex>'' (ReplaceAllString ipv4Pattern ''<ip>''
        (ReplaceAllString timestampPattern ''<ts>'' (ReplaceAllString uuidPattern ''<id>'' (fe_lower E (trim_space value))))))
      in ReplaceAllString whitespace '' '' (ReplaceAllString redactedID ''<redacted>'' (ReplaceAllString longNumber ''<num>'' hexed)))"
proof -
  have "ReplaceAllString sourceLocation rep s = s" if n: "\<not> occurs (Plus (Cls is_digit)) None s" for rep s
  proof (rule ReplaceAllString_none, rule ccontr)
    fix q u v assume s: "s = u @ v" and "re_match sourceLocation (q, v) Some \<noteq> None"
    then obtain w z where "v = w @ z" "w \<in> lang sourceLocation" using match_prefix by blast
    then have "occurs (Plus (Cls is_digit)) (last_char None u) v" using location_has_number by metis
    then show False using occurs_suffix n s by metis
  qed
  then show ?thesis unfolding normalize_text_def Let_def using numbers_gone by presburger
qed

section \<open>Pages of one site\<close>

text \<open>The greedy repetitions take everything they can.\<close>

lemma first_fold: "P c \<Longrightarrow> k (Some c, s) = Some x \<Longrightarrow> re_match (fold_class P) (p, c # s) k = Some x"
  by (simp add: fold_class_def)

lemma fold_stops:
  "list_all (\<lambda>c. \<not> P c \<and> c \<noteq> CHR 0xC5 \<and> c \<noteq> CHR 0xE2) (take 1 s) \<Longrightarrow> re_match (fold_class P) (p, s) k = None"
  by (cases s) (simp_all add: fold_class_def long_s_def kelvin_def ch_def)

lemma star_fold:
  "list_all P s \<Longrightarrow> list_all (\<lambda>c. \<not> P c \<and> c \<noteq> CHR 0xC5 \<and> c \<noteq> CHR 0xE2) (take 1 r)
   \<Longrightarrow> k (last_char p s, r) = Some x \<Longrightarrow> re_match (Star (fold_class P)) (p, s @ r) k = Some x"
proof (induction s arbitrary: p)
  case (Cons c s)
  have "re_match (Star (fold_class P)) (Some c, s @ r) k = Some x"
    using Cons.IH [of "Some c"] Cons.prems by simp
  then show ?case using Cons.prems(1) by (simp add: first_fold)
qed (simp add: fold_stops)

lemma star_class:
  "list_all P s \<Longrightarrow> list_all (\<lambda>c. \<not> P c) (take 1 r)
   \<Longrightarrow> k (last_char p s, r) = Some x \<Longrightarrow> re_match (Star (Cls P)) (p, s @ r) k = Some x"
proof (induction s arbitrary: p)
  case Nil
  then show ?case by (cases r) simp_all
qed simp

declare re_match.simps(6) [simp del]

abbreviation host_char :: "char \<Rightarrow> bool" where "host_char c \<equiv> \<not> stop_char c \<and> \<not> path_start c"

text \<open>A character that can be in no scheme.\<close>

definition ends_scheme :: "char \<Rightarrow> bool" where
  "ends_scheme e \<longleftrightarrow> \<not> scheme_char e \<and> e \<notin> {CHR 0xC5, CHR 0xBF, CHR 0xE2, CHR 0x84, CHR 0xAA}"

lemma ends_scheme_avoids:
  "ends_scheme e \<Longrightarrow> avoids e (fold_class is_alpha) \<and> avoids e (Star (fold_class scheme_char))"
  by (simp add: ends_scheme_def fold_class_def long_s_def kelvin_def ch_def scheme_char_def)

lemma stop_facts:
  "stop_char e \<Longrightarrow> ends_scheme e \<and> \<not> is_word (Some e) \<and> \<not> path_start e \<and> e \<noteq> CHR '':'' \<and> e \<noteq> CHR ''/''"
proof -
  assume "stop_char e"
  then have "e \<in> {CHR 0x09, CHR 0x0A, CHR 0x0C, CHR 0x0D, CHR 0x20, CHR 0x22, CHR 0x27} \<union> set ''<>()[]''"
  proof (cases "is_blank e")
    case True
    have "e = char_of (of_char e :: nat)" by simp
    then show ?thesis using True by (auto simp: is_blank_def Let_def char_of_def)
  qed (auto simp: stop_char_def)
  then show ?thesis
    by (auto simp: ends_scheme_def is_alpha_def is_lower_def lower_char_def scheme_char_def is_digit_def is_word_def path_start_def)
qed

text \<open>A match of a pattern that has no place for \<open>e\<close> does not see what is behind an \<open>e\<close>: on two texts
  that agree up to there it goes through the same cursors.\<close>

lemma match_stop:
  assumes none: "\<And>x y. R x y \<Longrightarrow> (x = None) = (y = None)" and R0: "R None None"
  shows "avoids e r \<Longrightarrow> (\<And>p u. length u \<le> length s \<Longrightarrow> R (k (p, u @ e # t)) (k' (p, u @ e # t')))
    \<Longrightarrow> R (re_match r (q, s @ e # t) k) (re_match r (q, s @ e # t') k')"
proof (induction r arbitrary: q s k k')
  case (Cls P)
  then show ?case using R0 by (cases s) (auto intro: Cls.prems(2))
next
  case (Seq a b)
  have "R (re_match b (p, u @ e # t) k) (re_match b (p, u @ e # t') k')" if "length u \<le> length s" for p u
    by (rule Seq.IH(2)) (use Seq.prems that in auto)
  then show ?case using Seq.IH(1) [of s "\<lambda>st. re_match b st k" "\<lambda>st. re_match b st k'" q] Seq.prems(1) by simp
next
  case (Alt a b)
  have "R (re_match a (q, s @ e # t) k) (re_match a (q, s @ e # t') k')" "R (re_match b (q, s @ e # t) k) (re_match b (q, s @ e # t') k')"
    using Alt by auto
  then show ?case using none by (fastforce split: option.split)
next
  case (Star a)
  show ?case
    using Star.prems(2)
  proof (induction s arbitrary: q rule: length_induct)
    case (1 s)
    let ?j = "\<lambda>st'. if length (snd st') < length (s @ e # t) then re_match (Star a) st' k else None"
    let ?j' = "\<lambda>st'. if length (snd st') < length (s @ e # t') then re_match (Star a) st' k' else None"
    have "R (?j (p, u @ e # t)) (?j' (p, u @ e # t'))" if "length u \<le> length s" for p u
    proof (cases "length u < length s")
      case True
      then have "R (re_match (Star a) (p, u @ e # t) k) (re_match (Star a) (p, u @ e # t') k')"
        using 1 by auto
      then show ?thesis using True by simp
    next
      case False
      then show ?thesis using R0 by simp
    qed
    then have a: "R (re_match a (q, s @ e # t) ?j) (re_match a (q, s @ e # t') ?j')"
      using Star.IH [of s ?j ?j' q] Star.prems(1) by simp
    have k: "R (k (q, s @ e # t)) (k' (q, s @ e # t'))" using 1(2) by simp
    show ?case using none [OF a] a k by (auto simp: re_match.simps(6) split: option.splits)
  qed
next
  case WordB
  have "boundary q (s @ e # t) = boundary q (s @ e # t')" by (cases s) (simp_all add: boundary_def first_char_def)
  then show ?case using R0 WordB.prems(2) [of s q] by simp
qed auto

definition same_upto :: "char \<Rightarrow> string \<Rightarrow> string \<Rightarrow> (cursor \<times> cursor) option \<Rightarrow> (cursor \<times> cursor) option \<Rightarrow> bool" where
  "same_upto e t t' x y \<longleftrightarrow> x = None \<and> y = None
     \<or> (\<exists>q u q' v. x = Some ((q, u @ e # t), (q', v @ e # t)) \<and> y = Some ((q, u @ e # t'), (q', v @ e # t')))"

lemma same_match:
  "avoids e r \<Longrightarrow> (\<And>p u. same_upto e t t' (k (p, u @ e # t)) (k' (p, u @ e # t')))
   \<Longrightarrow> same_upto e t t' (re_match r (q, s @ e # t) k) (re_match r (q, s @ e # t') k')"
  by (rule match_stop) (auto simp: same_upto_def)

lemma url_match_stop:
  assumes "stop_char e"
  shows "same_upto e t t' (url_match p (s @ e # t)) (url_match p (s @ e # t'))"
proof -
  have "avoids e urlTail" using stop_facts [OF assms] assms by (simp add: urlTail_def)
  then have tl: "same_upto e t t' (re_match urlTail (q, u @ e # t) (\<lambda>end. Some ((q, u @ e # t), end)))
      (re_match urlTail (q, u @ e # t') (\<lambda>end. Some ((q, u @ e # t'), end)))" for q u
    by (rule same_match) (auto simp: same_upto_def)
  have "avoids e urlHead"
    using stop_facts [OF assms] ends_scheme_avoids assms by (simp add: urlHead_def lit_def ch_def Plus_def)
  then show ?thesis
    unfolding url_match_def by (rule same_match) (rule tl)
qed

lemma lang_seqE: "u \<in> lang (Seq a b) \<Longrightarrow> (\<And>v w. u = v @ w \<Longrightarrow> v \<in> lang a \<Longrightarrow> w \<in> lang b \<Longrightarrow> P) \<Longrightarrow> P"
  by auto

lemma url_head_lang:
  "u \<in> lang urlHead \<Longrightarrow> \<exists>x y z. u = x @ y @ ''://'' @ z \<and> x \<in> lang (fold_class is_alpha) \<and> y \<in> lang (Star (fold_class scheme_char))"
proof -
  assume "u \<in> lang urlHead"
  then obtain e w where e: "u = e @ w" "e \<in> lang WordB"
      "w \<in> lang (Seq (fold_class is_alpha) (Seq (Star (fold_class scheme_char)) (Seq (lit ''://'') (Plus (Cls host_char)))))"
    unfolding urlHead_def by (rule lang_seqE)
  have "u = w" using e(1,2) by simp
  with e(3) obtain x y l h where u: "u = x @ y @ l @ h" "x \<in> lang (fold_class is_alpha)" "y \<in> lang (Star (fold_class scheme_char))" "l \<in> lang (lit ''://'')"
    by (elim lang_seqE) (simp only: append_assoc)
  have "l = ''://''" using u(4) by (auto simp: lit_def ch_def)
  then show ?thesis using u(1-3) by force
qed

text \<open>A text that ends in a character no scheme has, nor the rest of \<open>://\<close>, and that has no \<open>://\<close>: no URL begins in it.\<close>

definition lead_in :: "string \<Rightarrow> bool" where
  "lead_in m \<longleftrightarrow> \<not> contains_sub m ''://''
     \<and> (m \<noteq> [] \<longrightarrow> ends_scheme (last m) \<and> \<not> is_word (Some (last m)) \<and> last m \<noteq> CHR '':'' \<and> last m \<noteq> CHR ''/'')"

lemma contains_sub_mid: "contains_sub (u @ p @ v) p"
proof (induction u)
  case Nil
  have "has_prefix (p @ v) p" by (simp add: has_prefix_def)
  then show ?case by (cases "p @ v") auto
qed simp

lemma append_longer: "m @ r = a @ b \<Longrightarrow> length a \<le> length m \<Longrightarrow> \<exists>w. m = a @ w"
proof -
  assume e: "m @ r = a @ b" "length a \<le> length m"
  have "m = take (length m) (a @ b)" using arg_cong [OF e(1), of "take (length m)"] by simp
  then show ?thesis using e(2) by (simp del: append_take_drop_id) blast
qed

lemma no_url_before_stop:
  assumes "m \<noteq> []" "lead_in m"
  shows "url_match p (m @ r) = None"
proof (rule ccontr)
  assume "url_match p (m @ r) \<noteq> None"
  then obtain x where "re_match urlHead (p, m @ r) (\<lambda>mid. re_match urlTail mid (\<lambda>end. Some (mid, end))) = Some x"
    unfolding url_match_def by blast
  from match_sound [OF this] obtain u v where uv: "m @ r = u @ v" "u \<in> lang urlHead"
    unfolding snd_conv by blast
  obtain x y z where u: "u = x @ y @ ''://'' @ z" "x \<in> lang (fold_class is_alpha)" "y \<in> lang (Star (fold_class scheme_char))"
    using url_head_lang [OF uv(2)] by blast
  let ?n = "length m" and ?k = "length (x @ y)"
  have l: "ends_scheme (last m)" "last m \<noteq> CHR '':''" "last m \<noteq> CHR ''/''" using assms by (simp_all add: lead_in_def)
  have eq: "m @ r = (x @ y) @ ''://'' @ z @ v" using uv(1) u(1) by simp
  have last: "(m @ r) ! (?n - 1) = last m" using assms(1) by (simp add: nth_append last_conv_nth)
  have "last m \<notin> set (x @ y)" using ends_scheme_avoids [OF l(1)] avoids_lang u(2,3) unfolding set_append by blast
  then have "?k \<le> ?n - 1" using last unfolding eq by (metis nth_append nth_mem not_less)
  moreover have "((x @ y) @ ''://'' @ z @ v) ! ?k = CHR '':''" "((x @ y) @ ''://'' @ z @ v) ! Suc ?k = CHR ''/''"
    "((x @ y) @ ''://'' @ z @ v) ! Suc (Suc ?k) = CHR ''/''" by (simp_all add: nth_append)
  then have "?n - 1 \<noteq> ?k" "?n - 1 \<noteq> Suc ?k" "?n - 1 \<noteq> Suc (Suc ?k)" using l(2,3) last unfolding eq by metis+
  ultimately have "length ((x @ y) @ ''://'') \<le> ?n" using assms(1) by (cases m) auto
  moreover have "m @ r = ((x @ y) @ ''://'') @ z @ v" using eq by simp
  ultimately obtain w where "m = ((x @ y) @ ''://'') @ w" using append_longer by blast
  then have "contains_sub m ''://''" using contains_sub_mid [of "x @ y" "''://''" w] by simp
  then show False using assms(2) by (simp add: lead_in_def)
qed

lemma lead_in_tail: "lead_in (c # m) \<Longrightarrow> lead_in m"
  by (auto simp: lead_in_def)

lemma lead_in_stop: "stop_char e \<Longrightarrow> lead_in [e]"
  using stop_facts [of e] by (auto simp: lead_in_def has_prefix_def)

lemma replace_before_stop:
  "lead_in m \<Longrightarrow> replace_urls p (m @ r) = m @ replace_urls (last_char p m) r"
proof (induction m arbitrary: p)
  case (Cons c m)
  have "url_match p ((c # m) @ r) = None" by (rule no_url_before_stop) (use Cons.prems in simp_all)
  then show ?case using Cons lead_in_tail by simp
qed simp

text \<open>So what the replacement makes of a text up to such a character does not depend on what follows.\<close>

lemma replace_upto_stop:
  assumes "stop_char e"
  shows "\<exists>out. \<forall>t. replace_urls p (s @ e # t) = out @ replace_urls (Some e) t"
proof (induction s arbitrary: p rule: length_induct)
  case (1 s)
  have at_e: "url_match p (e # t) = None" for p t
    using no_url_before_stop [OF _ lead_in_stop [OF assms], of p t] by simp
  show ?case
  proof (cases s)
    case Nil
    then show ?thesis using at_e by (intro exI [of _ "[e]"]) simp
  next
    case (Cons c s')
    have IH: "\<exists>out. \<forall>t. replace_urls q (w @ e # t) = out @ replace_urls (Some e) t" if "length w < length s" for q w
      using 1 that by blast
    have plain: ?thesis if "\<And>t. replace_urls p (s @ e # t) = c # replace_urls (Some c) (s' @ e # t)"
    proof -
      obtain out where "\<forall>t. replace_urls (Some c) (s' @ e # t) = out @ replace_urls (Some e) t" using IH [of s' "Some c"] Cons by auto
      then show ?thesis using that by (intro exI [of _ "c # out"]) simp
    qed
    show ?thesis
    proof (cases "url_match p (s @ [e])")
      case None
      then have "url_match p (s @ e # t) = None" for t
        using url_match_stop [OF assms, of t "[]" p s] by (auto simp: same_upto_def)
      then show ?thesis by (intro plain) (simp add: Cons)
    next
      case (Some x)
      then obtain q u q' v where x: "url_match p (s @ [e]) = Some ((q, u @ [e]), (q', v @ [e]))"
        using url_match_stop [OF assms, of "[]" "[]" p s] by (auto simp: same_upto_def)
      have m: "url_match p (s @ e # t) = Some ((q, u @ e # t), (q', v @ e # t))" for t
        using url_match_stop [OF assms, of "[]" t p s] x by (auto simp: same_upto_def)
      show ?thesis
      proof (cases "length v < length s")
        case True
        obtain out where o: "\<forall>t. replace_urls q' (v @ e # t) = out @ replace_urls (Some e) t" using IH [OF True] by blast
        have "replace_urls p (s @ e # t) = take (length s - length u) s @ urlPathPlaceholder @ replace_urls q' (v @ e # t)" for t
        proof -
          have "take (length (s @ e # t) - length (u @ e # t)) (s @ e # t) = take (length s - length u) s" by simp
          then show ?thesis using m [of t] True unfolding Cons append_Cons replace_urls.simps by simp
        qed
        then show ?thesis using o by (intro exI [of _ "take (length s - length u) s @ urlPathPlaceholder @ out"]) simp
      next
        case False
        then show ?thesis using m by (intro plain) (simp add: Cons)
      qed
    qed
  qed
qed

lemma url_here:
  assumes "\<not> is_word p" "is_alpha a" "list_all scheme_char s" "host \<noteq> []" "list_all host_char host"
    "path_start c" "list_all (\<lambda>d. \<not> stop_char d) t" "post \<noteq> [] \<longrightarrow> stop_char (hd post)"
  shows "\<exists>q q'. url_match p (a # s @ ''://'' @ host @ c # t @ post) = Some ((q, c # t @ post), (q', post))"
proof -
  let ?K = "\<lambda>mid. re_match urlTail mid (\<lambda>end. Some (mid, end))"
  have tail: "?K (q, c # t @ post) = Some ((q, c # t @ post), (last_char (Some c) t, post))" for q
  proof -
    have "list_all (\<lambda>d. \<not> \<not> stop_char d) (take 1 post)" using assms(8) by (cases post) simp_all
    from star_class [OF assms(7) this refl] show ?thesis unfolding urlTail_def using assms(6) by simp
  qed
  obtain h host' where h: "host = h # host'" using assms(4) by (cases host) auto
  have "re_match (Plus (Cls host_char)) (q, host @ c # t @ post) ?K = Some ((last_char q host, c # t @ post), (last_char (Some c) t, post))" for q
    unfolding h Plus_def using assms(5,6) h tail star_class [of host_char host' "c # t @ post" ?K] by simp
  moreover have "re_match (lit ''://'') (q, ''://'' @ w) k = k (Some (CHR ''/''), w)" for q w and k :: "cursor \<Rightarrow> (cursor \<times> cursor) option"
    by (simp add: lit_def ch_def)
  ultimately have rest: "re_match (Seq (lit ''://'') (Plus (Cls host_char))) (q, ''://'' @ host @ c # t @ post) ?K
      = Some ((last_char (Some (CHR ''/'')) host, c # t @ post), (last_char (Some c) t, post))" for q
    unfolding re_match.simps by presburger
  have colon: "list_all (\<lambda>c. \<not> scheme_char c \<and> c \<noteq> CHR 0xC5 \<and> c \<noteq> CHR 0xE2) (take 1 (''://'' @ w))" for w
    by (simp add: scheme_char_def is_alpha_def is_lower_def lower_char_def is_digit_def)
  have "re_match (Star (fold_class scheme_char)) (q, s @ ''://'' @ host @ c # t @ post)
      (\<lambda>st. re_match (Seq (lit ''://'') (Plus (Cls host_char))) st ?K)
      = Some ((last_char (Some (CHR ''/'')) host, c # t @ post), (last_char (Some c) t, post))" for q
    by (rule star_fold [OF assms(3) colon], rule rest)
  moreover have "boundary p (a # w)" for w
    using assms(1,2) by (auto simp: boundary_def first_char_def is_alpha_def is_lower_def lower_char_def is_word_def Let_def split: if_splits)
  ultimately show ?thesis
    unfolding url_match_def urlHead_def re_match.simps(4,7) by (auto intro!: exI first_fold [where P = is_alpha, OF assms(2)])
qed

text \<open>A site: a scheme and a host.\<close>

definition site :: "string \<Rightarrow> bool" where
  "site u \<longleftrightarrow> (\<exists>a s host. u = a # s @ ''://'' @ host \<and> is_alpha a \<and> list_all scheme_char s \<and> host \<noteq> [] \<and> list_all host_char host)"

text \<open>A page of it: a path, a query or a fragment.\<close>

definition page :: "string \<Rightarrow> bool" where
  "page u \<longleftrightarrow> (case u of [] \<Rightarrow> False | c # t \<Rightarrow> path_start c \<and> list_all (\<lambda>d. \<not> stop_char d) t)"

lemma replace_url_step:
  "url_match p (h @ t) = Some ((q, t), (q', rest)) \<Longrightarrow> h \<noteq> [] \<Longrightarrow> length rest \<le> length t
   \<Longrightarrow> replace_urls p (h @ t) = h @ urlPathPlaceholder @ replace_urls q' rest"
  by (cases h) simp_all

lemma replace_page:
  assumes "\<not> is_word p" "site u" "page g" "post \<noteq> [] \<longrightarrow> stop_char (hd post)"
  shows "replace_urls p (u @ g @ post) = u @ urlPathPlaceholder @ replace_urls None post"
proof -
  obtain a s host where u: "u = a # s @ ''://'' @ host" "is_alpha a" "list_all scheme_char s" "host \<noteq> []" "list_all host_char host"
    using assms(2) by (auto simp: site_def)
  obtain c t where g: "g = c # t" "path_start c" "list_all (\<lambda>d. \<not> stop_char d) t"
    using assms(3) by (auto simp: page_def split: list.splits)
  from url_here [OF assms(1) u(2-5) g(2,3) assms(4)]
  obtain q q' where m: "url_match p (a # s @ ''://'' @ host @ c # t @ post) = Some ((q, c # t @ post), (q', post))" by blast
  have "replace_urls p (u @ g @ post) = u @ urlPathPlaceholder @ replace_urls q' post"
    by (rule replace_url_step) (use m u(1) g(1) in simp_all)
  moreover have "replace_urls q' post = replace_urls None post"
  proof (cases post)
    case (Cons e w)
    have "url_match q (e # w) = None" for q
      using no_url_before_stop [OF _ lead_in_stop, of e q w] assms(4) Cons by simp
    then show ?thesis by (simp add: Cons)
  qed simp
  ultimately show ?thesis by simp
qed

text \<open>A text after which a URL can begin: anything at all up to a blank, a quote or a bracket, and from there a
  text with no URL whose last character can be in no scheme, such as \<open>url=\<close>.\<close>

definition before_url :: "string \<Rightarrow> bool" where
  "before_url pre \<longleftrightarrow> (\<exists>a b. pre = a @ b \<and> (a \<noteq> [] \<longrightarrow> stop_char (last a)) \<and> lead_in b)"

lemma replace_at_page:
  assumes "before_url pre"
  shows "\<exists>out p. \<not> is_word p \<and> (\<forall>t. replace_urls None (pre @ t) = out @ replace_urls p t)"
proof -
  obtain a b where ab: "pre = a @ b" "a \<noteq> [] \<longrightarrow> stop_char (last a)" "lead_in b" using assms by (auto simp: before_url_def)
  have "\<exists>out q. \<not> is_word q \<and> (\<forall>t. replace_urls None (a @ t) = out @ replace_urls q t)"
  proof (cases a rule: rev_cases)
    case Nil
    then show ?thesis by (intro exI [of _ "[]"] exI [of _ None]) (simp add: is_word_def)
  next
    case (snoc s e)
    then have e: "stop_char e" using ab(2) by simp
    then obtain out where "\<forall>t. replace_urls None (s @ e # t) = out @ replace_urls (Some e) t" using replace_upto_stop by blast
    then show ?thesis using stop_facts [OF e] snoc by (intro exI [of _ out] exI [of _ "Some e"]) simp
  qed
  then obtain out q where o: "\<not> is_word q" "replace_urls None (a @ t) = out @ replace_urls q t" for t by blast
  have "\<not> is_word (last_char q b)" using o(1) ab(3) by (cases "b = []") (simp_all add: last_char_def lead_in_def)
  moreover have "replace_urls None (pre @ t) = (out @ b) @ replace_urls (last_char q b) t" for t
    using o(2) [of "b @ t"] replace_before_stop [OF ab(3)] by (simp add: ab(1))
  ultimately show ?thesis by blast
qed

lemma page_normalized:
  assumes "before_url pre" "post \<noteq> [] \<longrightarrow> stop_char (hd post)" "site u" "page g1" "page g2"
  shows "normalizeMessage E (pre @ u @ g1 @ post) = normalizeMessage E (pre @ u @ g2 @ post)"
proof -
  obtain out p where o: "\<not> is_word p" "replace_urls None (pre @ t) = out @ replace_urls p t" for t
    using replace_at_page [OF assms(1)] by blast
  show ?thesis
    unfolding normalizeMessage_def o(2) replace_page [OF o(1) assms(3,4,2)] replace_page [OF o(1) assms(3,5,2)] by (rule refl)
qed

lemma snapshot_message:
  assumes "normalizeMessage E m1 = normalizeMessage E m2"
  shows "SnapshotFor E (e\<lparr>ExcMessage := m1\<rparr>) = SnapshotFor E (e\<lparr>ExcMessage := m2\<rparr>)"
proof -
  have f: "ExcType (e\<lparr>ExcMessage := m\<rparr>) = ExcType e" "ExcMessage (e\<lparr>ExcMessage := m\<rparr>) = m"
    "Message (e\<lparr>ExcMessage := m\<rparr>) = Message e" "Frames (e\<lparr>ExcMessage := m\<rparr>) = Frames e"
    "RawScrubbed (e\<lparr>ExcMessage := m\<rparr>) = RawScrubbed e" for m by simp_all
  have "stableContext E (event.truncate (e\<lparr>ExcMessage := m\<rparr>)) = stableContext E (event.truncate e)" for m
    by (simp add: event.truncate_def stableContext_def context_fields_def)
  then show ?thesis unfolding SnapshotFor_def exception_parts_def frame_parts_def f assms by (simp only:)
qed

lemma snapshot_fallback_message:
  assumes "normalizeMessage E m1 = normalizeMessage E m2"
  shows "SnapshotFor E (e\<lparr>Message := m1\<rparr>) = SnapshotFor E (e\<lparr>Message := m2\<rparr>)"
proof -
  have f: "ExcType (e\<lparr>Message := m\<rparr>) = ExcType e" "ExcMessage (e\<lparr>Message := m\<rparr>) = ExcMessage e"
    "Message (e\<lparr>Message := m\<rparr>) = m" "Frames (e\<lparr>Message := m\<rparr>) = Frames e"
    "RawScrubbed (e\<lparr>Message := m\<rparr>) = RawScrubbed e" for m by simp_all
  have "stableContext E (event.truncate (e\<lparr>Message := m\<rparr>)) = stableContext E (event.truncate e)" for m
    by (simp add: event.truncate_def stableContext_def context_fields_def)
  then show ?thesis unfolding SnapshotFor_def exception_parts_def frame_parts_def f assms by (simp only:)
qed

text \<open>C14: One failure reported from many pages is one issue: events that differ only in the path, query and
  fragment of one URL in the exception's message, or of one in the event's own message, have the same
  fingerprint.  The URL is an absolute one that the code's pattern can find where it stands: it begins the message,
  or follows a text ending in a blank, a quote or a bracket, whatever that text holds, other URLs and
  colons included, or follows such a text and then one without \<open>://\<close> that ends in a character no
  scheme has (\<open>url=\<close>); and its pages run up to a blank, a quote, a bracket or the end of the message.\<close>

theorem pages_share_fingerprint:
  assumes "before_url pre" "post \<noteq> [] \<longrightarrow> stop_char (hd post)" "site u" "page g1" "page g2"
  shows "event_Fingerprint E (e\<lparr>ExcMessage := pre @ u @ g1 @ post\<rparr>) = event_Fingerprint E (e\<lparr>ExcMessage := pre @ u @ g2 @ post\<rparr>)
    \<and> event_Fingerprint E (e\<lparr>Message := pre @ u @ g1 @ post\<rparr>) = event_Fingerprint E (e\<lparr>Message := pre @ u @ g2 @ post\<rparr>)"
  unfolding event_Fingerprint_def fp_Material_def
    snapshot_message [OF page_normalized [OF assms]] snapshot_fallback_message [OF page_normalized [OF assms]]
  by (rule conjI [OF refl refl])

section \<open>What the context reads\<close>

lemma map_of_filter: "P k \<Longrightarrow> map_of (filter (\<lambda>kv. P (fst kv)) as) k = map_of as k"
  by (induction as) auto

lemma sorted_entries_filter:
  "filter (\<lambda>kv. P (fst kv)) (sorted_entries as) = sorted_entries (filter (\<lambda>kv. P (fst kv)) as)"
proof -
  have k: "map fst (filter (\<lambda>kv. P (fst kv)) as) = filter P (map fst as)" by (simp add: filter_map comp_def)
  have m: "map_of (rev (filter (\<lambda>kv. P (fst kv)) as)) x = map_of (rev as) x" if "P x" for x
    using map_of_filter [of P x "rev as"] that by (simp add: rev_filter)
  have f: "filter (\<lambda>kv. P (fst kv)) (map (\<lambda>k. (k, g k)) xs) = map (\<lambda>k. (k, g k)) (filter P xs)"
    for g :: "string \<Rightarrow> string" and xs
    by (induction xs) simp_all
  have "filter (\<lambda>kv. P (fst kv)) (sorted_entries as)
      = map (\<lambda>k. (k, the (map_of (rev as) k))) (sort (remdups (filter P (map fst as))))"
    unfolding sorted_entries_def f filter_sort remdups_filter by (rule refl)
  also have "\<dots> = sorted_entries (filter (\<lambda>kv. P (fst kv)) as)"
    unfolding sorted_entries_def k by (rule map_cong [OF refl]) (simp add: m)
  finally show ?thesis .
qed

text \<open>Without two assignments to one key their order does not matter.\<close>

lemma sorted_entries_order:
  "mset as = mset bs \<Longrightarrow> distinct (map fst as) \<Longrightarrow> sorted_entries as = sorted_entries bs"
proof -
  assume m: "mset as = mset bs" and d: "distinct (map fst as)"
  have mk: "mset (map fst as) = mset (map fst bs)" using m by simp
  then have d2: "distinct (map fst bs)" using d by (metis mset_eq_imp_distinct_iff)
  have d': "distinct (map fst (rev as))" "distinct (map fst (rev bs))"
    unfolding rev_map [symmetric] distinct_rev using d d2 by simp_all
  have "set (rev as) = set (rev bs)" using mset_eq_setD [OF m] by simp
  then have o: "map_of (rev as) = map_of (rev bs)" using map_of_inject_set [OF d'] by blast
  have "sort (map fst as) = sort (map fst bs)" using mk by (metis properties_for_sort mset_sort sorted_sort)
  then show ?thesis unfolding sorted_entries_def o distinct_remdups_id [OF d] distinct_remdups_id [OF d2] by (rule arg_cong)
qed

lemma stableContext_stable:
  "stableContext E evt = sorted_entries (filter (\<lambda>kv. snd kv \<noteq> [])
     (map (context_entry E) (sorted_entries (filter (stable_field E) (context_fields evt)))))"
  using sorted_entries_filter [of "\<lambda>k. isStableContextKey (normalize_text E k)"]
  by (simp add: stableContext_def stable_field_def [abs_def])

text \<open>C13: The fingerprint reads nothing but the exception's type and message, the event's message, the module, function and
  file of each frame, the context fields on the allowlist, and, only for an event without frames, the
  three texts of the scrubbed payload that stand in for a missing exception (its name, and the message and the
  source or URL of its properties): events that agree on those are one issue, whatever their line numbers, users, hosts,
  times, other attributes and the rest of their payloads.\<close>

theorem fingerprint_reads_allowlist:
  assumes "ExcType e1 = ExcType e2" "ExcMessage e1 = ExcMessage e2" "Message e1 = Message e2"
    and "map (\<lambda>f. (fr_module f, fr_function f, fr_file f)) (Frames e1) = map (\<lambda>f. (fr_module f, fr_function f, fr_file f)) (Frames e2)"
    and "filter (stable_field E) (context_fields (event.truncate e1)) = filter (stable_field E) (context_fields (event.truncate e2))"
    and "Frames e1 = [] \<Longrightarrow> rawScrubbedFallback (RawScrubbed e1) = rawScrubbedFallback (RawScrubbed e2)
      \<and> rawSource (RawScrubbed e1) = rawSource (RawScrubbed e2)"
  shows "event_Fingerprint E e1 = event_Fingerprint E e2"
proof -
  let ?g = "\<lambda>(m, f, p). join_colon (trimEmpty [normalize_text E m, normalize_text E f, normalizePath E p])"
  have g: "map (frame_part E) fs = map ?g (map (\<lambda>f. (fr_module f, fr_function f, fr_file f)) fs)" for fs
    by (simp add: frame_part_def)
  have "frame_parts E e1 = frame_parts E e2" unfolding frame_parts_def g assms(4) by (rule refl)
  moreover have fr: "Frames e1 = [] \<longleftrightarrow> Frames e2 = []" using arg_cong [OF assms(4), of length] by auto
  have "exception_parts E e1 = exception_parts E e2"
  proof (cases "Frames e1 = []")
    case True
    then show ?thesis using assms(6) fr unfolding exception_parts_def assms(1-3) by presburger
  next
    case False
    then show ?thesis using fr unfolding exception_parts_def Let_def assms(1-3) by presburger
  qed
  ultimately show ?thesis
    unfolding event_Fingerprint_def fp_Material_def SnapshotFor_def stableContext_stable assms(5) by presburger
qed

section \<open>Plain texts\<close>

definition plain_char :: "char \<Rightarrow> bool" where
  "plain_char c \<longleftrightarrow> \<not> is_digit c \<and> c \<notin> set ''-:['' \<and> \<not> is_blank c"

lemma needs_bounded: "needs P r \<Longrightarrow> needs P (bounded r)"
  unfolding bounded_def by (rule needs_rules(3), rule needs_rules(2))

lemma pattern_needs:
  "needs (\<lambda>c. c = CHR ''-'') uuidPattern" "needs (\<lambda>c. c = CHR ''-'') timestampPattern" "needs is_digit ipv4Pattern"
  "needs is_digit hexAddress" "needs is_digit longNumber" "needs (\<lambda>c. c = CHR '':'') sourceLocation"
  "needs (\<lambda>c. c = CHR ''['') redactedID" "needs is_blank whitespace"
proof -
  show "needs (\<lambda>c. c = CHR ''-'') uuidPattern" unfolding uuidPattern_def uuid_core_def dash_def ch_def
    by (rule needs_bounded, rule needs_rules(3), rule needs_rules(2), rule needs_rules(1))
  show "needs (\<lambda>c. c = CHR ''-'') timestampPattern" unfolding timestampPattern_def timestamp_core_def dash_def ch_def
    by (rule needs_bounded, rule needs_rules(3), rule needs_rules(2), rule needs_rules(1))
  show "needs is_digit ipv4Pattern" unfolding ipv4Pattern_def ipv4_core_def digits_1_3_def
    by (rule needs_bounded, rule needs_rules(3), rule needs_rules(2), rule needs_rules(1))
  show "needs is_digit hexAddress" unfolding hexAddress_def hex_address_core_def ch_def
    by (rule needs_bounded, rule needs_rules(2), rule needs_rules(1)) (simp add: is_digit_def)
  show "needs is_digit longNumber" unfolding longNumber_def Plus_def
    by (rule needs_bounded, rule needs_rules(2), rule needs_rules(1))
  show "needs (\<lambda>c. c = CHR '':'') sourceLocation" unfolding sourceLocation_def ch_def by (rule needs_rules(2), rule needs_rules(1))
  show "needs (\<lambda>c. c = CHR ''['') redactedID" unfolding redactedID_def ch_def by (rule needs_rules(2), rule needs_rules(1))
  show "needs is_blank whitespace" unfolding whitespace_def Plus_def by (rule needs_rules(2), rule needs_rules(1))
qed

lemma normalize_plain:
  assumes "fe_lower E (trim_space s) = s'" "length s' < 12" "list_all plain_char s'"
  shows "normalize_text E s = s'"
proof -
  have "min_len hexToken = 12" by (simp add: hexToken_def bounded_def at_least_def eval_nat_numeral)
  then have "ReplaceAllString hexToken rep s' = s'" for rep using replace_short assms(2) by metis
  moreover have "list_all (\<lambda>c. \<not> P c) s'" if "\<And>c. plain_char c \<Longrightarrow> \<not> P c" for P
    using assms(3) that by (auto simp: list_all_iff)
  then have "needs P r \<Longrightarrow> (\<And>c. plain_char c \<Longrightarrow> \<not> P c) \<Longrightarrow> ReplaceAllString r rep s' = s'" for P r rep
    using replace_needs by blast
  from this [OF pattern_needs(1)] this [OF pattern_needs(2)] this [OF pattern_needs(3)] this [OF pattern_needs(4)]
    this [OF pattern_needs(5)] this [OF pattern_needs(6)] this [OF pattern_needs(7)] this [OF pattern_needs(8)]
  have "ReplaceAllString uuidPattern rep s' = s'" "ReplaceAllString timestampPattern rep s' = s'" "ReplaceAllString ipv4Pattern rep s' = s'"
    "ReplaceAllString hexAddress rep s' = s'" "ReplaceAllString longNumber rep s' = s'" "ReplaceAllString sourceLocation rep s' = s'"
    "ReplaceAllString redactedID rep s' = s'" "ReplaceAllString whitespace rep s' = s'" for rep
    by (simp_all add: plain_char_def)
  ultimately show ?thesis unfolding normalize_text_def assms(1) Let_def by presburger
qed

section \<open>The order of a map\<close>

definition lowers_ascii :: "fp_env \<Rightarrow> bool" where
  "lowers_ascii E \<longleftrightarrow> (\<forall>s. list_all (\<lambda>c. is_lower c \<or> c = CHR ''.'') s \<longrightarrow> fe_lower E s = s)"

lemma normalize_lower:
  assumes "lowers_ascii E" "list_all (\<lambda>c. is_lower c \<or> c = CHR ''.'') s" "length s < 12"
  shows "normalize_text E s = s"
proof (rule normalize_plain)
  have "list_all (\<lambda>c. \<not> is_space c) s"
    using assms(2) by (auto simp: list_all_iff is_space_def is_lower_def Let_def)
  then have "trim_space s = s" by (rule trim_space_id)
  then show "fe_lower E (trim_space s) = s" using assms(1,2) by (simp add: lowers_ascii_def)
  have "is_lower c \<or> c = CHR ''.'' \<Longrightarrow> plain_char c" for c
    by (auto simp: plain_char_def is_lower_def is_digit_def is_blank_def Let_def)
  then show "list_all plain_char s" using assms(2) by (auto simp: list_all_iff)
qed (rule assms(3))

text \<open>A nested key and a key with a dot in it, in the two orders.\<close>

definition nested_first :: jobj where
  "nested_first = [(''http'', JObj [(''route'', JStr ''x'')]), (''http.route'', JStr ''y'')]"

lemma nested_context:
  assumes "lowers_ascii E"
  shows "stableContext E (e\<lparr>Resource := [], Attributes := nested_first\<rparr>) = [(''http.route'', ''y'')]"
    "stableContext E (e\<lparr>Resource := [], Attributes := rev nested_first\<rparr>) = [(''http.route'', ''x'')]"
proof -
  have n: "normalize_text E ''http.route'' = ''http.route''" "normalize_text E ''x'' = ''x''" "normalize_text E ''y'' = ''y''"
    by (rule normalize_lower [OF assms]; simp add: is_lower_def)+
  have st: "isStableContextKey ''http.route''" by (simp add: isStableContextKey_def stableContextKeys_def)
  have se: "sorted_entries [(k, a), (k, b)] = [(k, b)]" "sorted_entries [(k, a)] = [(k, a)]" for k a b :: string
    by (simp_all add: sorted_entries_def)
  have fl: "flatten_members [] nested_first = [(''http.route'', ''x''), (''http.route'', ''y'')]"
    "flatten_members [] (rev nested_first) = [(''http.route'', ''y''), (''http.route'', ''x'')]"
    by (simp_all add: nested_first_def scalar_at_def trim_space_def is_space_def)
  have ce: "context_entry E (''http.route'', v) = (''http.route'', normalize_text E v)" for v
    unfolding context_entry_def fst_conv snd_conv n normalizeContextValue_def pathValueKeys_def by simp
  have sf: "stable_field E (''http.route'', v)" for v unfolding stable_field_def fst_conv n by (rule st)
  have ctx: "stableContext E ev = [(''http.route'', b)]"
    if "context_fields ev = [(''http.route'', a), (''http.route'', b)]" "normalize_text E b = b" "b \<noteq> []" for ev a b
    unfolding stableContext_def that(1) se using that(3) se(2) by (simp add: sf ce that(2))
  have cf: "context_fields (e\<lparr>Resource := [], Attributes := m\<rparr>) = flatten_members [] m" for m
    by (simp add: context_fields_def)
  show "stableContext E (e\<lparr>Resource := [], Attributes := nested_first\<rparr>) = [(''http.route'', ''y'')]"
    by (rule ctx [OF _ n(3)]) (simp_all only: cf fl list.distinct not_False_eq_True)
  show "stableContext E (e\<lparr>Resource := [], Attributes := rev nested_first\<rparr>) = [(''http.route'', ''x'')]"
    by (rule ctx [OF _ n(2)]) (simp_all only: cf fl list.distinct not_False_eq_True)
qed

text \<open>C40: The order in which a map happens to be iterated can reach the fingerprint: there are attributes, with every
  key once, whose context, and with it the explanation stored with the event, changes with that order.\<close>

theorem iteration_order_shows:
  assumes "lowers_ascii E"
  shows "\<exists>m1 m2. mset m1 = mset m2 \<and> distinct (map fst m1)
    \<and> fp_Explanation E (e\<lparr>Resource := [], Attributes := m1\<rparr>) \<noteq> fp_Explanation E (e\<lparr>Resource := [], Attributes := m2\<rparr>)"
proof -
  let ?e = "\<lambda>m. e\<lparr>Resource := [], Attributes := m\<rparr>"
  have tr: "event.truncate (?e m) = (event.truncate e)\<lparr>Resource := [], Attributes := m\<rparr>" for m
    by (simp add: event.truncate_def)
  obtain ty msg where xp: "exception_parts E e = (ty, msg)" by (rule prod.exhaust)
  have f: "ExcType (?e m) = ExcType e" "ExcMessage (?e m) = ExcMessage e" "Message (?e m) = Message e"
    "Frames (?e m) = Frames e" "RawScrubbed (?e m) = RawScrubbed e" for m by simp_all
  have x: "exception_parts E (?e m) = (ty, msg)" for m unfolding xp [symmetric] exception_parts_def f by (rule refl)
  have fr: "frame_parts E (?e m) = frame_parts E e" for m unfolding frame_parts_def f by (rule refl)
  have "fp_Explanation E (?e nested_first) \<noteq> fp_Explanation E (?e (rev nested_first))"
    unfolding fp_Explanation_def SnapshotFor_def x prod.case Let_def snd_conv fr tr nested_context [OF assms] by simp
  moreover have "mset nested_first = mset (rev nested_first)" "distinct (map fst nested_first)"
    by (simp, simp add: nested_first_def)
  ultimately show ?thesis by blast
qed

section \<open>Examples\<close>

definition demo_fp :: fp_env where
  "demo_fp = \<lparr>fe_lower = to_lower, fe_marshal = (\<lambda>m. ma_message m @ concat (map snd (ma_context m))), fe_hash = (\<lambda>s. s)\<rparr>"

definition demo_full :: "jobj \<Rightarrow> string \<Rightarrow> int \<Rightarrow> full_event" where
  "demo_full attrs user line = \<lparr>ReceivedAt = 0, ObservedAt = 0, Severity = [], Message = [], ExcType = ''panic'', ExcMessage = [],
     ExcText = [], Resource = [], Attributes = attrs, TraceID = [], SpanID = [], SDKName = [], EvFingerprint = [], EvMaterial = [],
     EvExplanation = [], RawScrubbed = [(''user'', JStr user), (''attributes'', JObj attrs)], UserID = user, EvIngestID = [], UserEmail = [], UserName = [],
     Frames = [\<lparr>fr_function = ''run'', fr_file = ''a.go'', fr_line = line, fr_column = 1, fr_module = ''main''\<rparr>], Breadcrumbs = []\<rparr>"

lemma demo_lowers: "lowers_ascii demo_fp"
proof -
  have "is_lower c \<or> c = CHR ''.'' \<Longrightarrow> lower_char c = c" for c
    by (auto simp: is_lower_def lower_char_def Let_def)
  then have "list_all (\<lambda>c. is_lower c \<or> c = CHR ''.'') s \<Longrightarrow> map lower_char s = s" for s
    by (induction s) auto
  then show ?thesis by (simp add: lowers_ascii_def demo_fp_def to_lower_def)
qed

theorem iteration_order_shows_witness:
  "lowers_ascii demo_fp \<and> (\<exists>m1 m2. mset m1 = mset m2 \<and> distinct (map fst m1)
    \<and> fp_Explanation demo_fp ((demo_full [] [] 1)\<lparr>Resource := [], Attributes := m1\<rparr>)
      \<noteq> fp_Explanation demo_fp ((demo_full [] [] 1)\<lparr>Resource := [], Attributes := m2\<rparr>))"
  using demo_lowers iteration_order_shows [OF demo_lowers, of "demo_full [] [] 1"] by blast

theorem pages_share_fingerprint_witness:
  "event_Fingerprint demo_fp ((demo_full [] [] 1)\<lparr>ExcMessage := ''Error: GET http://h/a?x failed''\<rparr>)
   = event_Fingerprint demo_fp ((demo_full [] [] 1)\<lparr>ExcMessage := ''Error: GET http://h#b failed''\<rparr>)"
proof -
  have p: "before_url ''Error: GET ''" "'' failed'' \<noteq> [] \<longrightarrow> stop_char (hd '' failed'')"
    unfolding before_url_def
    by (intro exI [of _ "''Error: GET ''"] exI [of _ "[]"]; simp add: stop_char_def is_blank_def lead_in_def)
      (simp add: stop_char_def is_blank_def)
  have u: "site ''http://h''"
    unfolding site_def by (intro exI [of _ "CHR ''h''"] exI [of _ "''ttp''"] exI [of _ "''h''"])
      (simp add: is_alpha_def is_lower_def lower_char_def scheme_char_def stop_char_def is_blank_def path_start_def)
  have g: "page ''/a?x''" "page ''#b''" by (simp_all add: page_def path_start_def stop_char_def is_blank_def)
  from pages_share_fingerprint [OF p u g, of demo_fp "demo_full [] [] 1"] show ?thesis by (simp only: append.simps)
qed

text \<open>Another line, another user, another customer, another payload.\<close>

theorem fingerprint_reads_allowlist_witness:
  "event_Fingerprint demo_fp (demo_full [(''tenant'', JStr ''a'')] ''u'' 1) = event_Fingerprint demo_fp (demo_full [(''tenant'', JStr ''b'')] ''v'' 2)"
proof (rule fingerprint_reads_allowlist)
  have "normalize_text demo_fp ''tenant'' = ''tenant''"
    by (rule normalize_lower [OF demo_lowers]) (simp_all add: is_lower_def)
  moreover have "\<not> isStableContextKey ''tenant''"
    by (simp add: isStableContextKey_def stableContextKeys_def has_suffix_def)
  ultimately have "\<not> stable_field demo_fp (''tenant'', v)" for v by (simp add: stable_field_def)
  moreover have "context_fields (event.truncate (demo_full [(''tenant'', JStr v)] w n)) = [(''tenant'', v)]" for v w n
    by (simp add: context_fields_def event.truncate_def demo_full_def scalar_at_def trim_space_def is_space_def)
  ultimately show "filter (stable_field demo_fp) (context_fields (event.truncate (demo_full [(''tenant'', JStr ''a'')] ''u'' 1)))
      = filter (stable_field demo_fp) (context_fields (event.truncate (demo_full [(''tenant'', JStr ''b'')] ''v'' 2)))"
    by simp
qed (simp_all add: demo_full_def)

end
