(* ===== verification/Spec2Isabelle.thy ===== *)
theory Spec2Isabelle
  imports Consumer MonitorWatch SpoolProgress DetectEmitter AlertLimits ForwardRequest Forwarder Fingerprint
begin

text \<open>
  BugBarn is an error tracker: clients post error events, logs, telemetry and check-ins; the server
  groups the events into issues, raises alerts and watches monitors.  This library models the parts
  of the server whose behaviour over time matters, as Isabelle definitions translated from the Go
  source, and proves what makes them correct.

  \<^bold>\<open>The program.\<close>  A request reaches either the writer, the one process that owns the SQLite
  database, or a reader.  The writer's handler checks the key, validates the body and appends a
  record to the ingest spool, a directory of segment files with a cursor; a worker drains it.  A
  reader appends the request to a spool of its own and a loop sends it on, either by HTTP to the
  writer or as items of a Redis list, which a consumer in the writer drains.  Worker and consumer
  hand each record to one processor: it decodes and normalises the body, scrubs it, fingerprints
  the event and writes issue, event and facets, or holds the record when its project is not yet
  approved; held records are replayed on approval.  Admin changes on the writer go through a queue of
  mutations on disk when the database is busy.  Beside the pipeline run the alert evaluator, the
  detector of missed check-ins and the engine of security detections, which emits its own events
  into the pipeline.

  \<^bold>\<open>Theories and sources\<close> (paths under \<open>src/\<close>; \<open>storage/\<close>, \<open>api/\<close> and so on lie in \<open>internal/\<close>).

  \<^item> \<open>Prelude\<close>, \<open>GoStrings\<close>, \<open>GoRegexp\<close>, \<open>Errors\<close>: 64-bit arithmetic, clocks and lists; Go's strings,
    numbers and base64; regular expressions as far as the patterns of the program use them, with a
    backtracking matcher proved sound and complete for the language of a pattern; \<open>apperr\<close>,
    \<open>storage/errors.go\<close> and the classifiers of transient errors.
  \<^item> Ingest.  \<open>IngestHandler\<close>: \<open>ingest/handler.go\<close>, \<open>alertmanager.go\<close>, \<open>denied.go\<close>, \<open>foreign_project.go\<close>.
    \<open>Spool\<close>: \<open>spool/\<close>.  \<open>SpoolWorker\<close>, \<open>WorkerStatus\<close>: \<open>cmd/bugbarn/worker.go\<close>, \<open>worker_segments.go\<close>,
    \<open>worker/status.go\<close>.  \<open>ForwardRequest\<close>: the reader's routes and what a spooled request becomes
    (\<open>api/spool_forwarder.go\<close>, \<open>spool_forwarder_shape.go\<close>, \<open>telemetry_ingest.go\<close>).  \<open>Forwarder\<close>: its spool, drain
    loop, rotation and shutdown (\<open>api/spool_forwarder.go\<close>, \<open>spool_forwarder_disk.go\<close>, \<open>cmd/bugbarn/reader.go\<close>).
  \<^item> From body to event.  \<open>Privacy\<close>: \<open>privacy/scrub.go\<close>.  \<open>Normalize\<close>: \<open>normalize/normalize.go\<close>.
    \<open>Fingerprint\<close>: \<open>fingerprint/fingerprint.go\<close>.  \<open>EventData\<close>, \<open>IssueIds\<close>: \<open>event/event.go\<close>, \<open>storage/helpers.go\<close> and
    what the write path derives from an event.
  \<^item> Persisting.  \<open>WriteQueue\<close>: \<open>queue/\<close>.  \<open>Consumer\<close>: \<open>ingestproc/consumer.go\<close>.  \<open>Processor\<close>: \<open>worker/processor.go\<close>,
    \<open>ingestproc/processor.go\<close>, \<open>replayer.go\<close>, \<open>storage/held_events.go\<close>.  \<open>Sampling\<close>, \<open>Facets\<close>, \<open>IssueLifecycle\<close>:
    the statements of \<open>storage/\<close> behind one event and the changes a user makes to an issue.
    \<open>MutQueue\<close>: \<open>mutqueue/\<close> and its handler.
  \<^item> Projects and access.  \<open>Projects\<close>: \<open>storage/projects.go\<close>, \<open>groups.go\<close>.  \<open>KeyAuth\<close>: \<open>auth/auth.go\<close>,
    \<open>api/pipeline.go\<close>, \<open>keybind.go\<close> and their neighbours.
  \<^item> Watching.  \<open>CronExpr\<close>: \<open>cronexpr/\<close>.  \<open>Monitors\<close>, \<open>MonitorWatch\<close>: check-ins and the miss detector.
    \<open>DetectRule\<close>, \<open>DetectWindow\<close>, \<open>DetectEngine\<close>, \<open>DetectHosts\<close>, \<open>DetectSecurity\<close>, \<open>DetectEmitter\<close>: \<open>detect/\<close>.
    \<open>Alerts\<close>, \<open>AlertLimits\<close>: \<open>alert/\<close>.
  \<^item> \<open>SpoolSafety\<close> and \<open>SpoolProgress\<close> hold the crash-safety and the progress argument of the spool; this
    theory composes handler, normaliser and processor.

  \<^bold>\<open>How state and effects are modelled.\<close>  A component's state is a record with the source's fields; an
  operation is a function that returns the new state with its result; an error is a value.  What runs
  concurrently is cut into the steps between which others may come (segments and cursors, the drain
  loop, the consumer, the miss detector, the mail slots), and a run is a fold over, or the reachable
  states of, any interleaving of them.  A process that dies keeps what is on disk and loses the rest;
  a loss of power keeps what was synced.  Failures of the outside are arguments: one per statement of
  a database operation, per file operation, per Redis command, per send.

  \<^bold>\<open>What the lemmas show.\<close>  Safety of what was acknowledged: a record of the spool, an item of the
  queue, a request of a reader, an admin mutation is handled or still there after any interleaving of
  failures and deaths.  Well-formedness of the tables of issues, projects, monitors under every
  operation with every statement failing.  Exactness: event counts, sample weights, window counters,
  the regression table, merges.  Refinement: the detection engine, the miss detector and the drain of
  mutations implement specifications that keep the whole history.  Equivalence: holding and replaying
  is live ingest; both expansions of an Alertmanager webhook agree.  Privacy: nothing the scrubber
  looks for is left in what it returns, and which fields of an event that covers.  Grouping: what a
  fingerprint reads.  Access: what a key may reach.  Termination and progress of recovery, drains and
  the spool worker.  Where the code does not keep what a comment or a document says, a theorem shows
  the divergence.

  \<^bold>\<open>Interfaces.\<close>  Three contracts are locales: a machine that keeps an invariant under the events it
  admits (\<open>guarded_machine\<close>, for the tables of issues, projects, monitors, releases and limits and for the
  spool), the queue between producers and writer (\<open>write_queue\<close>, which the Redis list provides) and a
  redaction (\<open>redaction\<close>, for the patterns of the scrubber and the numbers of the fingerprint).  Each is
  interpreted on the model's definitions in the theory that provides them.

  \<^bold>\<open>Bounds and fuel.\<close>  The search of a cron schedule looks at 2927 days, as the code does, which covers
  eight years with their leap days.  Masks are 64-bit words.  A scanner stops at lines of 2 MiB (spool)
  and 8 MiB (reader).  A window has 30 slots and a table 50000 groups, as in the source; a counter is
  32 bits wide.  \<open>DrainOnce\<close> and the attempts of the shutdown take a bound that stands for their deadline,
  and \<open>drain_once_delivers\<close> says which bound is enough.  Replaying held events, the recovery of the queue
  and the search for a free prefix are partial functions, so that not returning is a value, and are
  proved to return.  The other loops are recursive functions with a measure.

  \<^bold>\<open>Parameters.\<close>  JSON encoding and parsing, SHA-256 and HMAC, Unicode case mapping (\<open>lower_key\<close> and
  \<open>upper_label\<close> cover what maps into ASCII), time parsing, the text of formatted messages, floating-point
  rounding, the Redis server and the HTTP peer, the log parser, symbolication, and the readers of bodies are
  arguments; hypotheses on them (\<open>codec_ok\<close>, \<open>request_codec_ok\<close>, \<open>lowers_ascii\<close>) state their documented
  behaviour.  White space is that of ASCII.  Directory operations are durable once they have returned, a
  dead-letter line is written whole, and a timer fires at or after the time it is set to.

  \<^bold>\<open>Not modelled.\<close>  The terminal client, the web interface, the SDKs and the deployment files; start-up,
  flags and HTTP plumbing; listing queries, schema, migrations and maintenance of the databases, which
  are SQL text; mail and webhook transports and their texts; OpenID Connect and the session table;
  telemetry storage, analytics, digests, retention, source maps, log parsing and host metrics, which are
  transformations outside the event pipeline or calls of libraries; tracing and metrics.
\<close>

section \<open>From the answer to the stored event\<close>

text \<open>The handler validates with the parser of the normaliser, and the writer normalises with it.\<close>

definition one_parser :: "norm_env \<Rightarrow> handler \<Rightarrow> proc_env \<Rightarrow> bool" where
  "one_parser E h px \<longleftrightarrow> hn_validate h = Validate E \<and> px_normalise px = pipeline_normaliser E"

lemma spooled_event_processed:
  assumes "one_parser E h px" "hn_validate h body"
  shows "\<exists>p e. ProcessRecord px (spool_event ingestID now ct remote slug body) = Some p
    \<and> NormalizeWith E False body ingestID now = Some e \<and> Message (pe_Event p) = Message e \<and> Severity (pe_Event p) = Severity e"
proof -
  have "NormalizeWith E False body ingestID now \<noteq> None"
    using assms validate_iff_normalizes by (simp add: one_parser_def)
  then obtain e where e: "NormalizeWith E False body ingestID now = Some e" by blast
  have "px_normalise px body ingestID now False = Some (event.truncate e)"
    using assms(1) e by (simp add: one_parser_def pipeline_normaliser_def)
  then show ?thesis using e
    by (simp add: ProcessRecord_def spool_event_def b64_roundtrip Let_def event.truncate_def)
qed

text \<open>C17: A 202 is kept further down: the record behind an accepted event decodes, normalises and is never a
  parse error of the pipeline, whatever the state of the writer and whichever of its calls fail; and
  the event in it carries the message of the body and a severity that is a label.\<close>

theorem accepted_event_is_processed:
  assumes "one_parser E h px"
    and "IngestServeHTTP h now remote ingestID outc r s = ((Accepted202, answered), s')"
  shows "\<exists>rec p e. hd_file s' = hd_file s @ file_of (hn_codec h) [rec] \<and> ProcessRecord px rec = Some p
    \<and> NormalizeWith E False (body_of r) ingestID now = Some e \<and> Message (pe_Event p) = Message e
    \<and> Severity (pe_Event p) \<noteq> [] \<and> length (Severity (pe_Event p)) \<le> 32
    \<and> pr_outcome (fst (PersistRecord px rec w)) \<noteq> OutcomeParseError"
proof -
  note a = served_accepted [OF assms(2)]
  from spooled_event_processed [OF assms(1) a(2)] obtain p e where
    "ProcessRecord px (spool_event ingestID now (iq_header r ''Content-Type'') remote (iq_header r projectHeader) (body_of r)) = Some p"
    "NormalizeWith E False (body_of r) ingestID now = Some e" "Message (pe_Event p) = Message e" "Severity (pe_Event p) = Severity e"
    by blast
  moreover have "Severity e \<noteq> [] \<and> length (Severity e) \<le> 32"
    using event_severity [OF \<open>NormalizeWith E False (body_of r) ingestID now = Some e\<close>] by blast
  ultimately show ?thesis using a(3) persist_outcome [of px] by metis
qed

definition parsing_px :: proc_env where
  "parsing_px = readonly_px\<lparr>px_normalise := pipeline_normaliser (demo_norm mail_body)\<rparr>"

theorem accepted_event_is_processed_witness:
  "\<exists>s' rec p. IngestServeHTTP demo_handler 5 [] ''a'' Wrote (demo_event_post ''/api/v1/events'' ''web'') empty_hstate = ((Accepted202, ''a''), s')
     \<and> hd_file s' = hd_file empty_hstate @ file_of (hn_codec demo_handler) [rec] \<and> ProcessRecord parsing_px rec = Some p
     \<and> pr_outcome (fst (PersistRecord parsing_px rec demo_world)) \<noteq> OutcomeParseError"
proof -
  obtain s' where a: "IngestServeHTTP demo_handler 5 [] ''a'' Wrote (demo_event_post ''/api/v1/events'' ''web'') empty_hstate = ((Accepted202, ''a''), s')"
    using demo_served by blast
  have "one_parser (demo_norm mail_body) demo_handler parsing_px"
    by (auto simp: one_parser_def Validate_def demo_norm_def parsing_px_def fun_eq_iff)
  from accepted_event_is_processed [OF this a, of demo_world] show ?thesis using a by blast
qed

end
